(* ===== verification/Prelude.thy ===== *)
theory Prelude
  imports Complex_Main "HOL-Library.Word"
begin

text \<open>
  Shared vocabulary of the st-zrt development.

  \<^item> \<open>'a run\<close>: the result of code that may panic (an out-of-range index, a failed
    \<^verbatim>\<open>expect\<close> or \<^verbatim>\<open>assert!\<close>). A panic is the value \<open>Panic\<close>, so that "never panics"
    is a theorem and not a modelling assumption.
  \<^item> checked arithmetic of Rust's unsigned integers on \<open>nat\<close>, with the width written out.
  \<^item> list operations of Rust's \<^verbatim>\<open>Vec\<close> and iterators: \<open>swap_remove\<close>, \<open>position\<close>,
    \<open>min_by_key\<close>.
  \<^item> the locale \<open>invariant_system\<close>, the interface between a step relation and the
    safety properties proved of its reachable states.
\<close>

named_theorems result_simps \<open>evaluation of the error and panic combinators\<close>

subsection \<open>Panics and errors\<close>

datatype 'a run = Panic | Ret 'a

primrec bind_run :: "'a run \<Rightarrow> ('a \<Rightarrow> 'b run) \<Rightarrow> 'b run" where
  "bind_run Panic f = Panic"
| "bind_run (Ret a) f = f a"

lemma bind_run_eq_Ret [result_simps]:
  "bind_run m f = Ret b \<longleftrightarrow> (\<exists>a. m = Ret a \<and> f a = Ret b)"
  by (cases m) auto

lemma bind_run_cong [fundef_cong]:
  "m = m' \<Longrightarrow> (\<And>a. m' = Ret a \<Longrightarrow> f a = g a) \<Longrightarrow> bind_run m f = bind_run m' g"
  by (cases m') auto

text \<open>\<open>Vec\<close> indexing panics out of range.\<close>

definition index_run :: "'a list \<Rightarrow> nat \<Rightarrow> 'a run" where
  "index_run xs i = (if i < length xs then Ret (xs ! i) else Panic)"

lemma index_run_in [simp]: "i < length xs \<Longrightarrow> index_run xs i = Ret (xs ! i)"
  by (simp add: index_run_def)

lemma index_run_eq_Ret [result_simps]:
  "index_run xs i = Ret x \<longleftrightarrow> i < length xs \<and> x = xs ! i"
  by (auto simp: index_run_def)

text \<open>\<open>slice::get\<close> returns \<open>None\<close> out of range.\<close>

definition get_opt :: "'a list \<Rightarrow> nat \<Rightarrow> 'a option" where
  "get_opt xs i = (if i < length xs then Some (xs ! i) else None)"

lemma get_opt_eq_Some [simp]: "get_opt xs i = Some x \<longleftrightarrow> i < length xs \<and> x = xs ! i"
  by (auto simp: get_opt_def)

lemma get_opt_eq_None [simp]: "get_opt xs i = None \<longleftrightarrow> length xs \<le> i"
  by (auto simp: get_opt_def)

subsection \<open>Checked unsigned arithmetic\<close>

abbreviation u32_max :: nat where "u32_max \<equiv> 2 ^ 32 - 1"
abbreviation usize_max :: nat where "usize_max \<equiv> 2 ^ 64 - 1"

definition checked_mul_at :: "nat \<Rightarrow> nat \<Rightarrow> nat \<Rightarrow> nat option" where
  "checked_mul_at w a b = (if a * b < 2 ^ w then Some (a * b) else None)"

definition checked_add_at :: "nat \<Rightarrow> nat \<Rightarrow> nat \<Rightarrow> nat option" where
  "checked_add_at w a b = (if a + b < 2 ^ w then Some (a + b) else None)"

lemma checked_mul_at_eq_Some [simp]:
  "checked_mul_at w a b = Some c \<longleftrightarrow> c = a * b \<and> a * b < 2 ^ w"
  by (auto simp: checked_mul_at_def)

lemma checked_add_at_eq_Some [simp]:
  "checked_add_at w a b = Some c \<longleftrightarrow> c = a + b \<and> a + b < 2 ^ w"
  by (auto simp: checked_add_at_def)

lemma checked_mul_at_eq_None [simp]: "checked_mul_at w a b = None \<longleftrightarrow> 2 ^ w \<le> a * b"
  by (auto simp: checked_mul_at_def)

lemma checked_add_at_eq_None [simp]: "checked_add_at w a b = None \<longleftrightarrow> 2 ^ w \<le> a + b"
  by (auto simp: checked_add_at_def)

subsection \<open>Vectors and iterators\<close>

text \<open>\<open>Vec::swap_remove\<close>: the last element takes the removed place.\<close>

definition swap_remove :: "'a list \<Rightarrow> nat \<Rightarrow> 'a list" where
  "swap_remove xs i = butlast (xs[i := last xs])"

lemma length_swap_remove [simp]: "length (swap_remove xs i) = length xs - 1"
  by (simp add: swap_remove_def)

lemma nth_swap_remove:
  assumes "i < length xs" "j < length xs - 1"
  shows "swap_remove xs i ! j = (if j = i then last xs else xs ! j)"
  using assms by (simp add: swap_remove_def nth_butlast)

text \<open>\<open>Iterator::position\<close>.\<close>

fun position :: "('a \<Rightarrow> bool) \<Rightarrow> 'a list \<Rightarrow> nat option" where
  "position P [] = None"
| "position P (x # xs) = (if P x then Some 0 else map_option Suc (position P xs))"

lemma position_SomeD:
  "position P xs = Some i \<Longrightarrow> i < length xs \<and> P (xs ! i) \<and> (\<forall>j < i. \<not> P (xs ! j))"
proof (induction xs arbitrary: i)
  case Nil
  then show ?case by simp
next
  case (Cons x xs)
  then show ?case by (auto split: if_splits simp: less_Suc_eq_0_disj)
qed

lemma position_eq_None [simp]: "position P xs = None \<longleftrightarrow> (\<forall>x \<in> set xs. \<not> P x)"
  by (induction xs) auto

lemma position_unique:
  assumes "i < length xs" "P (xs ! i)" "\<And>j. j < length xs \<Longrightarrow> P (xs ! j) \<Longrightarrow> j = i"
  shows "position P xs = Some i"
proof (cases "position P xs")
  case None
  then show ?thesis using assms(1,2) by auto
next
  case (Some k)
  then show ?thesis using position_SomeD [OF Some] assms(3) by auto
qed

lemma find_unique:
  assumes "x \<in> set xs" "P x" "\<And>y. y \<in> set xs \<Longrightarrow> P y \<Longrightarrow> y = x"
  shows "find P xs = Some x"
proof (cases "find P xs")
  case None
  then show ?thesis using assms(1,2) by (simp add: find_None_iff)
next
  case (Some y)
  then have "y \<in> set xs" "P y" by (auto simp: find_Some_iff)
  then show ?thesis using Some assms(3) by simp
qed

text \<open>\<open>Iterator::min_by_key\<close> keeps the first of several minima.\<close>

fun min_by_key :: "('a \<Rightarrow> 'k::linorder) \<Rightarrow> 'a list \<Rightarrow> 'a option" where
  "min_by_key f [] = None"
| "min_by_key f (x # xs) =
     (case min_by_key f xs of None \<Rightarrow> Some x
      | Some y \<Rightarrow> if f y < f x then Some y else Some x)"

lemma min_by_key_eq_None [simp]: "min_by_key f xs = None \<longleftrightarrow> xs = []"
  by (cases xs) (auto split: option.splits)

lemma min_by_key_SomeD:
  "min_by_key f xs = Some y \<Longrightarrow> y \<in> set xs \<and> (\<forall>x \<in> set xs. f y \<le> f x)"
proof (induction xs arbitrary: y)
  case Nil
  then show ?case by simp
next
  case (Cons x xs)
  show ?case
  proof (cases "min_by_key f xs")
    case None
    then show ?thesis using Cons.prems by simp
  next
    case (Some z)
    then show ?thesis using Cons.IH [OF Some] Cons.prems by (auto split: if_splits)
  qed
qed

subsection \<open>Step relations and their invariants\<close>

locale invariant_system =
  fixes init :: "'s \<Rightarrow> bool"
    and step :: "'s \<Rightarrow> 's \<Rightarrow> bool"
    and inv :: "'s \<Rightarrow> bool"
  assumes init_inv: "init s \<Longrightarrow> inv s"
    and step_inv: "inv s \<Longrightarrow> step s t \<Longrightarrow> inv t"
begin

lemma run_inv: "step\<^sup>*\<^sup>* s t \<Longrightarrow> inv s \<Longrightarrow> inv t"
  by (induction rule: rtranclp_induct) (auto intro: step_inv)

lemma reachable_inv: "init s \<Longrightarrow> step\<^sup>*\<^sup>* s t \<Longrightarrow> inv t"
  by (blast intro: run_inv init_inv)

end

end
