(* ===== verification/Floats.thy ===== *)
theory Floats
  imports Prelude "HOL-Library.Log_Nat"
begin

text \<open>
  The part of Rust's \<open>f32\<close> and \<open>f64\<close> that st-zrt/src/shape_plan.rs uses: the finiteness and
  sign test of an \<open>f32\<close>, the exact widening \<^verbatim>\<open>f64::from\<close>, the conversion \<^verbatim>\<open>u128 as f64\<close> and
  the division of two \<open>f64\<close> values, both rounded to nearest, ties to even.

  A finite float is the rational number it denotes. The conversion and the division round a
  rational to 53 significant bits; the values the code produces lie between \<open>2 powi (-128)\<close>
  and \<open>2 powi 256\<close>, or are zero, so neither subnormal numbers nor overflow to infinity occur.
\<close>

datatype f32 = F32_nan | F32_inf bool | F32 rat

fun f32_is_finite :: "f32 \<Rightarrow> bool" where
  "f32_is_finite (F32 q) = True"
| "f32_is_finite _ = False"

text \<open>\<open>f32_value\<close> is the number a finite \<open>f32\<close> denotes; \<open>f64::from\<close> keeps it.\<close>

fun f32_value :: "f32 \<Rightarrow> rat" where
  "f32_value (F32 q) = q"
| "f32_value _ = 0"

definition exponent :: "rat \<Rightarrow> int" where
  "exponent x =
     (let (p, q) = quotient_of x;
          e = int (floorlog 2 (nat p)) - int (floorlog 2 (nat q))
      in if 2 powi e \<le> x then e else e - 1)"

definition round_half_even :: "rat \<Rightarrow> int" where
  "round_half_even x =
     (let f = \<lfloor>x\<rfloor>; r = x - of_int f
      in if r < 1 / 2 then f else if r > 1 / 2 then f + 1
         else if even f then f else f + 1)"

definition round_f64 :: "rat \<Rightarrow> rat" where
  "round_f64 x =
     (if x = 0 then 0
      else let u = 2 powi (exponent x - 52) in of_int (round_half_even (x / u)) * u)"

definition f64_of_nat :: "nat \<Rightarrow> rat" where
  "f64_of_nat n = round_f64 (of_nat n)"

definition f64_div :: "rat \<Rightarrow> rat \<Rightarrow> rat" where
  "f64_div a b = round_f64 (a / b)"

text \<open>The relative rounding error of a 53-bit significand.\<close>

definition f64_eps :: rat where
  "f64_eps = 2 powi (-53)"

lemma f64_eps_bounds: "0 < f64_eps" "f64_eps < 1"
  by (simp_all add: f64_eps_def power_int_def power_less_one_iff)

subsection \<open>Exponents\<close>

lemma floorlog2_bounds:
  assumes "0 < p"
  shows "(2::rat) powi (int (floorlog 2 (nat p)) - 1) \<le> of_int p"
    and "(of_int p :: rat) < 2 powi int (floorlog 2 (nat p))"
proof -
  let ?n = "nat p"
  have n: "0 < ?n" and pn: "(of_int p :: rat) = of_nat ?n" using assms by auto
  have fl: "2 ^ (floorlog 2 ?n - 1) \<le> ?n \<and> ?n < 2 ^ floorlog 2 ?n"
    using floorlog_bounds [of ?n 2] n by simp
  have pos: "0 < floorlog 2 ?n" using n by (simp add: floorlog_def)
  have e: "(2::rat) powi (int (floorlog 2 ?n) - 1) = of_nat (2 ^ (floorlog 2 ?n - 1))"
    using pos by (simp add: power_int_def nat_diff_distrib)
  show "(2::rat) powi (int (floorlog 2 ?n) - 1) \<le> of_int p"
    unfolding e pn using fl by (simp only: of_nat_le_iff)
  have "(2::rat) powi int (floorlog 2 ?n) = of_nat (2 ^ floorlog 2 ?n)"
    by (simp add: power_int_def)
  then show "(of_int p :: rat) < 2 powi int (floorlog 2 ?n)"
    unfolding pn using fl by (simp only: of_nat_less_iff)
qed

lemma exponent_bounds:
  assumes "0 < x"
  shows "2 powi exponent x \<le> x" and "x < 2 powi (exponent x + 1)"
proof -
  obtain p q where pq: "quotient_of x = (p, q)" by (cases "quotient_of x")
  have q: "0 < q" and xpq: "x = of_int p / of_int q"
    using quotient_of_denom_pos [OF pq] quotient_of_div [OF pq] by auto
  have p: "0 < p" using assms q xpq by (simp add: zero_less_divide_iff)
  define a where "a = int (floorlog 2 (nat p))"
  define b where "b = int (floorlog 2 (nat q))"
  have pl: "(2::rat) powi (a - 1) \<le> of_int p" and pu: "(of_int p :: rat) < 2 powi a"
    using floorlog2_bounds [OF p] by (simp_all add: a_def)
  have ql: "(2::rat) powi (b - 1) \<le> of_int q" and qu: "(of_int q :: rat) < 2 powi b"
    using floorlog2_bounds [OF q] by (simp_all add: b_def)
  have upper: "x < 2 powi (a - b + 1)"
  proof -
    have "x < 2 powi a / 2 powi (b - 1)"
      unfolding xpq using pu ql q by (intro frac_less) (auto simp: p less_imp_le)
    also have "\<dots> = 2 powi (a - b + 1)" by (simp flip: power_int_diff add: algebra_simps)
    finally show ?thesis .
  qed
  have lower: "2 powi (a - b - 1) \<le> x"
  proof -
    have "(2::rat) powi (a - 1) / 2 powi b \<le> x"
      unfolding xpq using pl qu q p by (intro frac_le) (auto simp: less_imp_le)
    moreover have "(2::rat) powi (a - 1) / 2 powi b = 2 powi (a - b - 1)"
      by (simp flip: power_int_diff add: algebra_simps)
    ultimately show ?thesis by simp
  qed
  have e: "exponent x = (if 2 powi (a - b) \<le> x then a - b else a - b - 1)"
    by (simp add: exponent_def pq a_def b_def Let_def)
  show "2 powi exponent x \<le> x" using lower by (simp add: e)
  show "x < 2 powi (exponent x + 1)" using upper by (simp add: e algebra_simps)
qed

subsection \<open>Rounding\<close>

lemma round_half_even_error: "\<bar>of_int (round_half_even x) - x\<bar> \<le> 1 / 2"
proof -
  define f where "f = \<lfloor>x\<rfloor>"
  have "of_int f \<le> x" "x < of_int f + 1"
    unfolding f_def by (rule of_int_floor_le, rule floor_less_cancel) simp
  then show ?thesis
    unfolding round_half_even_def Let_def f_def [symmetric] by (auto simp: abs_if)
qed

lemma round_half_even_of_int [simp]: "round_half_even (of_int k) = k"
  by (simp add: round_half_even_def)

text \<open>The relative error of a rounding is at most \<open>f64_eps\<close>.\<close>

lemma round_f64_error:
  assumes "0 \<le> x"
  shows "\<bar>round_f64 x - x\<bar> \<le> x * f64_eps"
proof (cases "x = 0")
  case True
  then show ?thesis by (simp add: round_f64_def)
next
  case False
  then have x: "0 < x" using assms by simp
  define u where "u = (2::rat) powi (exponent x - 52)"
  have u: "0 < u" by (simp add: u_def)
  have "round_f64 x - x = (of_int (round_half_even (x / u)) - x / u) * u"
    using False u by (simp add: round_f64_def u_def [symmetric] left_diff_distrib)
  then have "\<bar>round_f64 x - x\<bar> = \<bar>of_int (round_half_even (x / u)) - x / u\<bar> * u"
    using u by (simp add: abs_mult)
  also have "\<dots> \<le> 1 / 2 * u"
    using u by (intro mult_right_mono round_half_even_error) simp
  also have "\<dots> = 2 powi exponent x * f64_eps"
  proof -
    have "2 powi exponent x * f64_eps = (2::rat) powi (exponent x + (-53))"
      unfolding f64_eps_def by (subst power_int_add) simp_all
    also have "exponent x + (-53) = (exponent x - 52) + (-1)" by simp
    also have "(2::rat) powi ((exponent x - 52) + (-1)) = u * 2 powi (-1)" unfolding u_def by (subst power_int_add) simp_all
    finally show ?thesis by (simp add: power_int_def)
  qed
  also have "\<dots> \<le> x * f64_eps"
    using exponent_bounds(1) [OF x] f64_eps_bounds by (intro mult_right_mono) simp_all
  finally show ?thesis .
qed

lemma round_f64_nonneg: "0 \<le> x \<Longrightarrow> 0 \<le> round_f64 x"
proof -
  assume x: "0 \<le> x"
  have "x * f64_eps \<le> x * 1"
    using x f64_eps_bounds by (intro mult_left_mono) simp_all
  then show ?thesis using round_f64_error [OF x] by (auto simp: abs_if split: if_splits)
qed

lemma round_f64_ge:
  assumes "0 \<le> x" shows "x * (1 - f64_eps) \<le> round_f64 x"
  using round_f64_error [OF assms] by (simp add: abs_le_iff algebra_simps)

lemma round_f64_le:
  assumes "0 \<le> x" shows "round_f64 x \<le> x * (1 + f64_eps)"
  using round_f64_error [OF assms] by (simp add: abs_le_iff algebra_simps)

text \<open>A number with a significand of at most 53 bits is not changed by rounding.\<close>

lemma round_f64_exact:
  assumes "0 < m" "m < 2 ^ 53"
  shows "round_f64 (of_int m * 2 powi k) = of_int m * 2 powi k"
proof -
  define x where "x = (of_int m * 2 powi k :: rat)"
  have x: "0 < x" using assms(1) by (simp add: x_def)
  have "(of_int m :: rat) < of_int (2 ^ 53)" using assms(2) by (simp only: of_int_less_iff)
  then have "x < 2 powi 53 * 2 powi k"
    unfolding x_def by (intro mult_strict_right_mono) (simp_all add: power_int_def)
  also have "\<dots> = 2 powi (53 + k)" by (subst power_int_add) simp_all
  finally have "(2::rat) powi exponent x < 2 powi (53 + k)"
    using exponent_bounds(1) [OF x] by linarith
  then have e: "exponent x - 52 \<le> k"
    using power_int_increasing [of "53 + k" "exponent x" "2::rat"] by (cases "53 + k \<le> exponent x") auto
  define u where "u = (2::rat) powi (exponent x - 52)"
  have "x / u = of_int m * 2 powi (k - (exponent x - 52))"
    unfolding x_def u_def by (subst power_int_diff) simp_all
  also have "\<dots> = of_int (m * 2 ^ nat (k - (exponent x - 52)))"
    using e by (simp add: power_int_def)
  finally have "of_int (round_half_even (x / u)) * u = x"
    by (simp only: round_half_even_of_int) (metis (no_types) nonzero_eq_divide_eq power_int_not_zero u_def
        zero_neq_numeral)
  then show ?thesis using x by (simp add: round_f64_def u_def x_def [symmetric])
qed

lemma f64_of_nat_exact:
  assumes "n < 2 ^ 53" shows "f64_of_nat n = of_nat n"
proof (cases "n = 0")
  case True
  then show ?thesis by (simp add: f64_of_nat_def round_f64_def)
next
  case False
  then show ?thesis
    using round_f64_exact [of "int n" 0] assms by (simp add: f64_of_nat_def)
qed

end
