(* ===== verification/Shape_Plan.thy ===== *)
theory Shape_Plan
  imports Floats
begin

unbundle bit_operations_syntax

text \<open>
  st-zrt/src/shape_plan.rs: the finite, sealed admission plan of a serving runtime. A builder
  collects canonical buckets, \<open>build\<close> validates and hashes them into an index, and \<open>classify\<close>
  maps the input shapes of a request to the id of a canonical bucket, exactly or (when the
  fallback policy says so) by padding to the nearest fitting bucket.

  Dimensions are \<open>i64\<close> values, modelled as \<open>int\<close> (the code only compares and converts them);
  the shape hash is a 64-bit word with wrap-around; element counts are \<open>u128\<close>, modelled as
  \<open>nat\<close> with the overflow checks the code makes.
\<close>

subsection \<open>Data\<close>

type_synonym shape = "int list"

datatype shape_id = ShapeId "32 word"

fun as_usize :: "shape_id \<Rightarrow> nat" where
  "as_usize (ShapeId w) = unat w"

text \<open>\<open>u32::try_from(index).expect(...)\<close>.\<close>

definition from_index :: "nat \<Rightarrow> shape_id run" where
  "from_index i = (if i \<le> u32_max then Ret (ShapeId (of_nat i)) else Panic)"

datatype output_policy = HostBuffer | CudaPinned | DeviceResident

record canonical_shape =
  cs_id :: shape_id
  cs_input_shapes :: "shape list"
  cs_output_shapes :: "shape list"
  cs_output_policy :: output_policy

datatype fallback_policy = Strict | PadToNearest f32 | FallbackSession

datatype classify_error =
    NotInPlan
  | NoFittingShape
  | PaddingWasteExceeded rat f32

datatype dim_kind = Input_dim | Output_dim

datatype shape_plan_error =
    EmptyPlan
  | EmptyInputSet
  | NonPositiveDimension dim_kind int
  | DuplicateShape
  | TooManyShapes
  | InvalidPaddingWasteRatio f32

subsection \<open>The shape hash\<close>

type_synonym shape_hash = "64 word"

definition FNV_OFFSET :: shape_hash where "FNV_OFFSET = 0xcbf29ce484222325"
definition FNV_PRIME :: shape_hash where "FNV_PRIME = 0x100000001b3"

definition fnv_step :: "shape_hash \<Rightarrow> 64 word \<Rightarrow> shape_hash" where
  "fnv_step hash x = (hash XOR x) * FNV_PRIME"

definition hash_shape :: "shape \<Rightarrow> shape_hash \<Rightarrow> shape_hash" where
  "hash_shape shape hash =
     fold (\<lambda>dim h. fnv_step h (word_of_int dim)) shape (fnv_step hash (of_nat (length shape)))"

definition from_slices :: "shape list \<Rightarrow> shape_hash" where
  "from_slices shapes = fold hash_shape shapes (fnv_step FNV_OFFSET (of_nat (length shapes)))"

text \<open>The pass-through hasher of the index: \<open>write\<close> is the byte-wise fallback.\<close>

definition hasher_write :: "8 word list \<Rightarrow> 64 word \<Rightarrow> 64 word" where
  "hasher_write bytes state = fold (\<lambda>byte h. fnv_step h (ucast byte)) bytes FNV_OFFSET"

definition hasher_write_u64 :: "64 word \<Rightarrow> 64 word \<Rightarrow> 64 word" where
  "hasher_write_u64 v state = v"

definition hasher_finish :: "64 word \<Rightarrow> 64 word" where
  "hasher_finish state = state"

subsection \<open>The plan\<close>

type_synonym shape_index = "shape_hash \<rightharpoonup> shape_id list"

record serving_shape_plan =
  sp_buckets :: "canonical_shape list"
  sp_index :: shape_index
  sp_fallback :: fallback_policy

definition shapes_equal :: "shape list \<Rightarrow> shape list \<Rightarrow> bool" where
  "shapes_equal canonical requested \<longleftrightarrow>
     length canonical = length requested \<and>
     list_all (\<lambda>(left, right). left = right) (zip canonical requested)"

abbreviation mul_u128 :: "nat \<Rightarrow> nat \<Rightarrow> nat option" where "mul_u128 \<equiv> checked_mul_at 128"
abbreviation add_u128 :: "nat \<Rightarrow> nat \<Rightarrow> nat option" where "add_u128 \<equiv> checked_add_at 128"

text \<open>\<open>requested_element_count\<close>: the inner loop over one shape, then the outer loop.\<close>

fun shape_product :: "shape \<Rightarrow> nat \<Rightarrow> nat option" where
  "shape_product [] product = Some product"
| "shape_product (dimension # ds) product =
     (if dimension \<le> 0 then None
      else case mul_u128 product (nat dimension) of None \<Rightarrow> None
           | Some product' \<Rightarrow> shape_product ds product')"

fun request_sum :: "shape list \<Rightarrow> nat \<Rightarrow> nat option" where
  "request_sum [] acc = Some acc"
| "request_sum (shape # shapes) acc =
     (case shape_product shape 1 of None \<Rightarrow> None
      | Some product \<Rightarrow> (case add_u128 acc product of None \<Rightarrow> None
                         | Some acc' \<Rightarrow> request_sum shapes acc'))"

definition requested_element_count :: "shape list \<Rightarrow> nat option" where
  "requested_element_count shapes =
     (case request_sum shapes 0 of None \<Rightarrow> None
      | Some acc \<Rightarrow> if acc \<noteq> 0 then Some acc else None)"

text \<open>\<open>fitting_element_counts\<close>, with its inner loop over the dimensions of one input.\<close>

fun fit_dims :: "(int \<times> int) list \<Rightarrow> nat \<times> nat \<Rightarrow> (nat \<times> nat) option" where
  "fit_dims [] products = Some products"
| "fit_dims ((actual, planned) # ps) (request_product, bucket_product) =
     (if actual \<le> 0 \<or> planned < actual then None
      else case mul_u128 request_product (nat actual) of None \<Rightarrow> None
           | Some request_product' \<Rightarrow>
             (case mul_u128 bucket_product (nat planned) of None \<Rightarrow> None
              | Some bucket_product' \<Rightarrow> fit_dims ps (request_product', bucket_product')))"

fun fit_shapes :: "(shape \<times> shape) list \<Rightarrow> nat \<times> nat \<Rightarrow> (nat \<times> nat) option" where
  "fit_shapes [] acc = Some acc"
| "fit_shapes ((request, bucket) # ps) (requested_sum, canonical_sum) =
     (if length request \<noteq> length bucket then None
      else case fit_dims (zip request bucket) (1, 1) of None \<Rightarrow> None
           | Some (request_product, bucket_product) \<Rightarrow>
             (case add_u128 requested_sum request_product of None \<Rightarrow> None
              | Some requested_sum' \<Rightarrow>
                (case add_u128 canonical_sum bucket_product of None \<Rightarrow> None
                 | Some canonical_sum' \<Rightarrow> fit_shapes ps (requested_sum', canonical_sum'))))"

definition fitting_element_counts :: "shape list \<Rightarrow> shape list \<Rightarrow> (nat \<times> nat) option" where
  "fitting_element_counts requested canonical =
     (if length requested \<noteq> length canonical then None
      else fit_shapes (zip requested canonical) (0, 0))"

subsection \<open>Classification\<close>

type_synonym candidate = "nat \<times> nat \<times> shape_id"

text \<open>One iteration of the bucket loop of \<open>classify_padded\<close>; \<open>saturating_sub\<close> is \<open>-\<close> on \<open>nat\<close>.\<close>

definition better_candidate ::
    "shape list \<Rightarrow> canonical_shape \<Rightarrow> candidate option \<Rightarrow> candidate option" where
  "better_candidate requested bucket best =
     (case fitting_element_counts requested (cs_input_shapes bucket) of None \<Rightarrow> best
      | Some (requested_elements, canonical_elements) \<Rightarrow>
        (let waste = canonical_elements - requested_elements;
             new = Some (waste, canonical_elements, cs_id bucket)
         in case best of None \<Rightarrow> new
            | Some (best_waste, best_total, _) \<Rightarrow>
              if waste < best_waste \<or> waste = best_waste \<and> canonical_elements < best_total
              then new else best))"

definition best_candidate :: "shape list \<Rightarrow> canonical_shape list \<Rightarrow> candidate option" where
  "best_candidate requested buckets = fold (better_candidate requested) buckets None"

definition classify_padded ::
    "serving_shape_plan \<Rightarrow> shape list \<Rightarrow> f32 \<Rightarrow> classify_error + shape_id" where
  "classify_padded plan requested maximum_ratio =
     (case best_candidate requested (sp_buckets plan) of None \<Rightarrow> Inl NoFittingShape
      | Some (waste, _, sid) \<Rightarrow>
        (case requested_element_count requested of None \<Rightarrow> Inl NoFittingShape
         | Some requested_elements \<Rightarrow>
           (let actual_ratio = f64_div (f64_of_nat waste) (f64_of_nat requested_elements)
            in if actual_ratio > f32_value maximum_ratio
               then Inl (PaddingWasteExceeded actual_ratio maximum_ratio)
               else Inr sid)))"

fun find_exact :: "canonical_shape list \<Rightarrow> shape list \<Rightarrow> shape_id list \<Rightarrow> shape_id option run" where
  "find_exact buckets requested [] = Ret None"
| "find_exact buckets requested (sid # ids) =
     bind_run (index_run buckets (as_usize sid)) (\<lambda>bucket.
       if shapes_equal (cs_input_shapes bucket) requested then Ret (Some sid)
       else find_exact buckets requested ids)"

definition classify :: "serving_shape_plan \<Rightarrow> shape list \<Rightarrow> (classify_error + shape_id) run" where
  "classify plan requested =
     bind_run (case sp_index plan (from_slices requested) of None \<Rightarrow> Ret None
               | Some candidates \<Rightarrow> find_exact (sp_buckets plan) requested candidates)
       (\<lambda>exact. case exact of Some sid \<Rightarrow> Ret (Inr sid)
         | None \<Rightarrow> (case sp_fallback plan of
              Strict \<Rightarrow> Ret (Inl NotInPlan)
            | FallbackSession \<Rightarrow> Ret (Inl NotInPlan)
            | PadToNearest max_padding_waste_ratio \<Rightarrow>
                Ret (classify_padded plan requested max_padding_waste_ratio)))"

definition plan_bucket :: "serving_shape_plan \<Rightarrow> shape_id \<Rightarrow> canonical_shape option" where
  "plan_bucket plan sid = get_opt (sp_buckets plan) (as_usize sid)"

definition plan_len :: "serving_shape_plan \<Rightarrow> nat" where
  "plan_len plan = length (sp_buckets plan)"

definition plan_is_empty :: "serving_shape_plan \<Rightarrow> bool" where
  "plan_is_empty plan = (sp_buckets plan = [])"

subsection \<open>The builder\<close>

type_synonym bucket_spec = "shape list \<times> shape list \<times> output_policy"

record shape_plan_builder =
  pb_buckets :: "bucket_spec list"
  pb_fallback :: fallback_policy

text \<open>\<open>ServingShapePlan::builder()\<close> is the derived default.\<close>

definition builder :: shape_plan_builder where
  "builder = \<lparr>pb_buckets = [], pb_fallback = Strict\<rparr>"

definition set_fallback_policy :: "fallback_policy \<Rightarrow> shape_plan_builder \<Rightarrow> shape_plan_builder" where
  "set_fallback_policy policy b = b\<lparr>pb_fallback := policy\<rparr>"

definition add_shape ::
    "shape list \<Rightarrow> shape list \<Rightarrow> output_policy \<Rightarrow> shape_plan_builder \<Rightarrow> shape_plan_builder" where
  "add_shape ins outs policy b = b\<lparr>pb_buckets := pb_buckets b @ [(ins, outs, policy)]\<rparr>"

definition first_non_positive :: "shape list \<Rightarrow> int option" where
  "first_non_positive shapes = find (\<lambda>dimension. dimension \<le> 0) (concat shapes)"

definition validate_shapes :: "shape list \<Rightarrow> shape list \<Rightarrow> shape_plan_error + unit" where
  "validate_shapes inputs outputs =
     (if inputs = [] then Inl EmptyInputSet
      else case first_non_positive inputs of
        Some dimension \<Rightarrow> Inl (NonPositiveDimension Input_dim dimension)
      | None \<Rightarrow> (case first_non_positive outputs of
            Some dimension \<Rightarrow> Inl (NonPositiveDimension Output_dim dimension)
          | None \<Rightarrow> Inr ()))"

text \<open>\<open>ids.iter().any(|id| buckets[id].input_shapes == input_shapes)\<close>.\<close>

fun any_same_inputs :: "canonical_shape list \<Rightarrow> shape list \<Rightarrow> shape_id list \<Rightarrow> bool run" where
  "any_same_inputs buckets ins [] = Ret False"
| "any_same_inputs buckets ins (sid # ids) =
     bind_run (index_run buckets (as_usize sid)) (\<lambda>bucket.
       if cs_input_shapes bucket = ins then Ret True else any_same_inputs buckets ins ids)"

text \<open>The loop of \<open>build\<close> from \<open>position\<close> on, over the buckets and the index built so far.\<close>

fun build_loop ::
    "nat \<Rightarrow> bucket_spec list \<Rightarrow> canonical_shape list \<Rightarrow> shape_index
     \<Rightarrow> (shape_plan_error + canonical_shape list \<times> shape_index) run" where
  "build_loop pos [] buckets index = Ret (Inr (buckets, index))"
| "build_loop pos ((ins, outs, policy) # rest) buckets index =
     (case validate_shapes ins outs of Inl e \<Rightarrow> Ret (Inl e)
      | Inr _ \<Rightarrow>
        (let hash = from_slices ins
         in bind_run (case index hash of None \<Rightarrow> Ret False
                      | Some ids \<Rightarrow> any_same_inputs buckets ins ids) (\<lambda>duplicate.
           if duplicate then Ret (Inl DuplicateShape)
           else bind_run (from_index pos) (\<lambda>sid.
             build_loop (Suc pos) rest
               (buckets @ [\<lparr>cs_id = sid, cs_input_shapes = ins, cs_output_shapes = outs,
                            cs_output_policy = policy\<rparr>])
               (index(hash \<mapsto> (case index hash of None \<Rightarrow> [] | Some ids \<Rightarrow> ids) @ [sid]))))))"

definition invalid_ratio :: "fallback_policy \<Rightarrow> f32 option" where
  "invalid_ratio policy =
     (case policy of
        PadToNearest r \<Rightarrow> if \<not> f32_is_finite r \<or> f32_value r < 0 then Some r else None
      | _ \<Rightarrow> None)"

definition build :: "shape_plan_builder \<Rightarrow> (shape_plan_error + serving_shape_plan) run" where
  "build b =
     (if pb_buckets b = [] then Ret (Inl EmptyPlan)
      else if length (pb_buckets b) > u32_max then Ret (Inl TooManyShapes)
      else case invalid_ratio (pb_fallback b) of
        Some r \<Rightarrow> Ret (Inl (InvalidPaddingWasteRatio r))
      | None \<Rightarrow> bind_run (build_loop 0 (pb_buckets b) [] Map.empty) (\<lambda>res. case res of
            Inl e \<Rightarrow> Ret (Inl e)
          | Inr (buckets, index) \<Rightarrow>
              Ret (Inr \<lparr>sp_buckets = buckets, sp_index = index, sp_fallback = pb_fallback b\<rparr>)))"

subsection \<open>Well-formed plans\<close>

definition wf_buckets :: "canonical_shape list \<Rightarrow> bool" where
  "wf_buckets buckets \<longleftrightarrow>
     length buckets \<le> 2 ^ 32 \<and> distinct (map cs_input_shapes buckets) \<and>
     (\<forall>i < length buckets. cs_id (buckets ! i) = ShapeId (of_nat i) \<and>
        validate_shapes (cs_input_shapes (buckets ! i)) (cs_output_shapes (buckets ! i)) = Inr ())"

definition index_sound :: "canonical_shape list \<Rightarrow> shape_index \<Rightarrow> bool" where
  "index_sound buckets index \<longleftrightarrow>
     (\<forall>h ids sid. index h = Some ids \<longrightarrow> sid \<in> set ids \<longrightarrow>
        as_usize sid < length buckets \<and> from_slices (cs_input_shapes (buckets ! as_usize sid)) = h)"

definition index_complete :: "canonical_shape list \<Rightarrow> shape_index \<Rightarrow> bool" where
  "index_complete buckets index \<longleftrightarrow>
     (\<forall>i < length buckets. \<exists>ids. index (from_slices (cs_input_shapes (buckets ! i))) = Some ids \<and>
        ShapeId (of_nat i) \<in> set ids)"

definition wf_plan :: "serving_shape_plan \<Rightarrow> bool" where
  "wf_plan plan \<longleftrightarrow>
     sp_buckets plan \<noteq> [] \<and> wf_buckets (sp_buckets plan) \<and>
     index_sound (sp_buckets plan) (sp_index plan) \<and>
     index_complete (sp_buckets plan) (sp_index plan) \<and>
     invalid_ratio (sp_fallback plan) = None"

lemma as_usize_of_nat [simp]: "i < 2 ^ 32 \<Longrightarrow> as_usize (ShapeId (of_nat i)) = i"
  by (simp add: unat_of_nat take_bit_nat_eq_self)

declare as_usize.simps [simp del]

lemma shapes_equal_iff [simp]: "shapes_equal canonical requested \<longleftrightarrow> canonical = requested"
  by (auto simp: shapes_equal_def list_all_iff list_eq_iff_zip_eq split: prod.splits)

lemma first_non_positive_None [simp]:
  "first_non_positive shapes = None \<longleftrightarrow> (\<forall>s \<in> set shapes. \<forall>d \<in> set s. 0 < d)"
  by (auto simp: first_non_positive_def find_None_iff not_le)

lemma validate_shapes_ok:
  "validate_shapes ins outs = Inr () \<longleftrightarrow>
     ins \<noteq> [] \<and> (\<forall>s \<in> set ins \<union> set outs. \<forall>d \<in> set s. 0 < d)"
  by (auto simp: validate_shapes_def ball_Un split: option.splits
      simp flip: first_non_positive_None)

subsection \<open>Building\<close>

lemma any_same_inputs_eq:
  assumes "\<And>sid. sid \<in> set ids \<Longrightarrow> as_usize sid < length buckets"
  shows "any_same_inputs buckets ins ids =
    Ret (\<exists>sid \<in> set ids. cs_input_shapes (buckets ! as_usize sid) = ins)"
  using assms by (induction ids) auto

lemma duplicate_check_eq:
  assumes wf: "wf_buckets buckets" "index_sound buckets index" "index_complete buckets index"
    and len: "length buckets < 2 ^ 32"
  shows "(case index (from_slices ins) of None \<Rightarrow> Ret False
          | Some ids \<Rightarrow> any_same_inputs buckets ins ids) =
         Ret (ins \<in> set (map cs_input_shapes buckets))"
proof (cases "index (from_slices ins)")
  case None
  have "ins \<notin> set (map cs_input_shapes buckets)"
  proof
    assume "ins \<in> set (map cs_input_shapes buckets)"
    then obtain i where "i < length buckets" "cs_input_shapes (buckets ! i) = ins"
      by (auto simp: in_set_conv_nth)
    with wf(3) None show False by (auto simp: index_complete_def)
  qed
  with None show ?thesis by simp
next
  case (Some ids)
  have sound: "as_usize sid < length buckets" if "sid \<in> set ids" for sid
    using wf(2) Some that by (auto simp: index_sound_def)
  have "(\<exists>sid \<in> set ids. cs_input_shapes (buckets ! as_usize sid) = ins) \<longleftrightarrow>
        ins \<in> set (map cs_input_shapes buckets)" (is "?L \<longleftrightarrow> ?R")
  proof
    assume ?L
    then show ?R using sound by force
  next
    assume ?R
    then obtain i where i: "i < length buckets" "cs_input_shapes (buckets ! i) = ins"
      by (auto simp: in_set_conv_nth)
    then have "ShapeId (of_nat i) \<in> set ids"
      using wf(3) Some by (auto simp: index_complete_def)
    with i len show ?L by (intro bexI [of _ "ShapeId (of_nat i)"]) simp_all
  qed
  then show ?thesis using Some sound by (simp add: any_same_inputs_eq)
qed


text \<open>Appending one bucket keeps the three invariants.\<close>

lemma wf_buckets_snoc:
  assumes "wf_buckets buckets" "length buckets < 2 ^ 32" "cs_input_shapes b \<notin> set (map cs_input_shapes buckets)"
    "cs_id b = ShapeId (of_nat (length buckets))"
    "validate_shapes (cs_input_shapes b) (cs_output_shapes b) = Inr ()"
  shows "wf_buckets (buckets @ [b])"
  using assms unfolding wf_buckets_def by (auto simp: nth_append less_Suc_eq)

lemma index_sound_snoc:
  assumes "index_sound buckets index" "length buckets < 2 ^ 32"
  shows "index_sound (buckets @ [b])
    (index(from_slices (cs_input_shapes b) \<mapsto>
       (case index (from_slices (cs_input_shapes b)) of None \<Rightarrow> [] | Some ids \<Rightarrow> ids) @
       [ShapeId (of_nat (length buckets))]))"
  using assms unfolding index_sound_def
  by (cases "index (from_slices (cs_input_shapes b))") (auto simp: nth_append less_Suc_eq)

lemma index_complete_snoc:
  assumes "index_complete buckets index"
  shows "index_complete (buckets @ [b])
    (index(from_slices (cs_input_shapes b) \<mapsto>
       (case index (from_slices (cs_input_shapes b)) of None \<Rightarrow> [] | Some ids \<Rightarrow> ids) @
       [ShapeId (of_nat (length buckets))]))"
  using assms unfolding index_complete_def
  by (fastforce simp: nth_append less_Suc_eq split: option.splits)

text \<open>
  The loop, started with well-formed buckets, never panics; it succeeds exactly when the rest
  is valid and has no input set twice, and then the buckets are the requested ones in order.
\<close>

definition spec_ok :: "bucket_spec \<Rightarrow> bool" where
  "spec_ok spec \<longleftrightarrow> validate_shapes (fst spec) (fst (snd spec)) = Inr ()"

definition spec_of :: "canonical_shape \<Rightarrow> bucket_spec" where
  "spec_of b = (cs_input_shapes b, cs_output_shapes b, cs_output_policy b)"

lemma build_loop_correct:
  assumes "wf_buckets buckets" "index_sound buckets index" "index_complete buckets index"
    and "length buckets + length specs \<le> u32_max"
  shows "\<exists>res. build_loop (length buckets) specs buckets index = Ret res \<and>
    (case res of
       Inr (bs, ix) \<Rightarrow> wf_buckets bs \<and> index_sound bs ix \<and> index_complete bs ix \<and>
         map spec_of bs = map spec_of buckets @ specs \<and> list_all spec_ok specs \<and>
         distinct (map cs_input_shapes buckets @ map fst specs)
     | Inl e \<Rightarrow> \<not> (list_all spec_ok specs \<and> distinct (map cs_input_shapes buckets @ map fst specs)))"
  using assms
proof (induction specs arbitrary: buckets index)
  case Nil
  then show ?case by (auto simp: wf_buckets_def)
next
  case (Cons spec specs)
  obtain ins outs pol where spec: "spec = (ins, outs, pol)" by (cases spec)
  have len: "length buckets < 2 ^ 32" using Cons.prems(4) by simp
  note dupchk = duplicate_check_eq [OF Cons.prems(1-3) len, of ins]
  consider (bad) e where "validate_shapes ins outs = Inl e"
    | (dup) "validate_shapes ins outs = Inr ()" "ins \<in> set (map cs_input_shapes buckets)"
    | (ok) "validate_shapes ins outs = Inr ()" "ins \<notin> set (map cs_input_shapes buckets)"
    by (cases "validate_shapes ins outs") auto
  then show ?case
  proof cases
    case bad
    then show ?thesis by (simp add: spec spec_ok_def)
  next
    case dup
    then show ?thesis using dupchk by (auto simp: spec Let_def)
  next
    case ok
    define b where "b = \<lparr>cs_id = ShapeId (of_nat (length buckets)), cs_input_shapes = ins,
      cs_output_shapes = outs, cs_output_policy = pol\<rparr>"
    have b [simp]: "cs_input_shapes b = ins" "cs_output_shapes b = outs" "spec_of b = (ins, outs, pol)"
      "cs_id b = ShapeId (of_nat (length buckets))"
      by (simp_all add: b_def spec_of_def)
    define ix where "ix = index(from_slices ins \<mapsto>
       (case index (from_slices ins) of None \<Rightarrow> [] | Some ids \<Rightarrow> ids) @
       [ShapeId (of_nat (length buckets))])"
    have wf: "wf_buckets (buckets @ [b])" "index_sound (buckets @ [b]) ix" "index_complete (buckets @ [b]) ix"
      using wf_buckets_snoc [of buckets b] index_sound_snoc [of buckets index b]
        index_complete_snoc [of buckets index b] Cons.prems ok len
      by (simp_all add: ix_def)
    have eq: "build_loop (length buckets) (spec # specs) buckets index =
      build_loop (length (buckets @ [b])) specs (buckets @ [b]) ix"
      using ok dupchk Cons.prems(4) by (simp add: spec Let_def from_index_def b_def ix_def)
    show ?thesis
      unfolding eq using Cons.IH [OF wf] Cons.prems(4) ok
      by (fastforce simp: spec spec_ok_def split: sum.splits)
  qed
qed


lemma build_cases:
  assumes "pb_buckets b \<noteq> []" "length (pb_buckets b) \<le> u32_max" "invalid_ratio (pb_fallback b) = None"
  shows "\<exists>res. build b = Ret res \<and>
    (case res of
       Inr plan \<Rightarrow> wf_plan plan \<and> map spec_of (sp_buckets plan) = pb_buckets b \<and>
         sp_fallback plan = pb_fallback b \<and> list_all spec_ok (pb_buckets b) \<and>
         distinct (map fst (pb_buckets b))
     | Inl e \<Rightarrow> \<not> (list_all spec_ok (pb_buckets b) \<and> distinct (map fst (pb_buckets b))))"
proof -
  have "wf_buckets []" "index_sound [] Map.empty" "index_complete [] Map.empty"
    by (simp_all add: wf_buckets_def index_sound_def index_complete_def)
  from build_loop_correct [OF this, of "pb_buckets b"] assms(2)
  obtain res where res: "build_loop 0 (pb_buckets b) [] Map.empty = Ret res"
    and ok: "case res of
       Inr (bs, ix) \<Rightarrow> wf_buckets bs \<and> index_sound bs ix \<and> index_complete bs ix \<and>
         map spec_of bs = pb_buckets b \<and> list_all spec_ok (pb_buckets b) \<and> distinct (map fst (pb_buckets b))
     | Inl e \<Rightarrow> \<not> (list_all spec_ok (pb_buckets b) \<and> distinct (map fst (pb_buckets b)))"
    unfolding list.map append_Nil list.size add_0 by blast
  have "build b = (case res of Inl e \<Rightarrow> Ret (Inl e) | Inr (buckets, index) \<Rightarrow>
      Ret (Inr \<lparr>sp_buckets = buckets, sp_index = index, sp_fallback = pb_fallback b\<rparr>))"
    using assms res by (simp add: build_def)
  then show ?thesis
    using ok assms by (auto simp: wf_plan_def split: sum.splits)
qed

lemma build_outcome:
  assumes "pb_buckets b \<noteq> []" "length (pb_buckets b) \<le> u32_max" "invalid_ratio (pb_fallback b) = None"
  obtains (built) plan where "build b = Ret (Inr plan)" "wf_plan plan"
      "map spec_of (sp_buckets plan) = pb_buckets b" "sp_fallback plan = pb_fallback b"
      "list_all spec_ok (pb_buckets b)" "distinct (map fst (pb_buckets b))"
    | (refused) e where "build b = Ret (Inl e)"
      "\<not> (list_all spec_ok (pb_buckets b) \<and> distinct (map fst (pb_buckets b)))"
proof -
  obtain res where "build b = Ret res" and "case res of
       Inr plan \<Rightarrow> wf_plan plan \<and> map spec_of (sp_buckets plan) = pb_buckets b \<and>
         sp_fallback plan = pb_fallback b \<and> list_all spec_ok (pb_buckets b) \<and>
         distinct (map fst (pb_buckets b))
     | Inl e \<Rightarrow> \<not> (list_all spec_ok (pb_buckets b) \<and> distinct (map fst (pb_buckets b)))"
    using build_cases [OF assms] by blast
  then show ?thesis using that by (cases res) auto
qed

subsection \<open>Classifying\<close>

lemma wf_plan_len: "wf_plan plan \<Longrightarrow> i < length (sp_buckets plan) \<Longrightarrow> i < 2 ^ 32"
  by (simp add: wf_plan_def wf_buckets_def)

lemma find_exact_eq:
  assumes "\<And>sid. sid \<in> set ids \<Longrightarrow> as_usize sid < length buckets"
  shows "find_exact buckets req ids =
    Ret (find (\<lambda>sid. cs_input_shapes (buckets ! as_usize sid) = req) ids)"
  using assms by (induction ids) auto

text \<open>The index lookup finds the bucket with the requested input shapes, if there is one.\<close>

definition exact_id :: "serving_shape_plan \<Rightarrow> shape list \<Rightarrow> shape_id option" where
  "exact_id plan req =
     map_option (\<lambda>i. ShapeId (of_nat i)) (position (\<lambda>b. cs_input_shapes b = req) (sp_buckets plan))"

lemma exact_id_at:
  assumes "wf_plan plan" "i < length (sp_buckets plan)"
  shows "exact_id plan (cs_input_shapes (sp_buckets plan ! i)) = Some (ShapeId (of_nat i))"
proof -
  have "position (\<lambda>b. cs_input_shapes b = cs_input_shapes (sp_buckets plan ! i)) (sp_buckets plan) = Some i"
    using assms by (intro position_unique)
      (auto simp: wf_plan_def wf_buckets_def distinct_conv_nth)
  then show ?thesis by (simp add: exact_id_def)
qed

lemma lookup_eq_exact_id:
  assumes wf: "wf_plan plan"
  shows "(case sp_index plan (from_slices req) of None \<Rightarrow> Ret None
          | Some ids \<Rightarrow> find_exact (sp_buckets plan) req ids) = Ret (exact_id plan req)"
proof (cases "exact_id plan req")
  case None
  then have "req \<notin> cs_input_shapes ` set (sp_buckets plan)" by (auto simp: exact_id_def)
  then have "cs_input_shapes (sp_buckets plan ! as_usize sid) \<noteq> req"
    if "sp_index plan (from_slices req) = Some ids" "sid \<in> set ids" for ids sid
    using wf that by (auto simp: wf_plan_def index_sound_def)
  then show ?thesis
    using wf None
    by (auto simp: wf_plan_def index_sound_def find_exact_eq find_None_iff split: option.splits)
next
  case (Some sid)
  then obtain i where i: "i < length (sp_buckets plan)" "cs_input_shapes (sp_buckets plan ! i) = req"
    and sid: "sid = ShapeId (of_nat i)"
    by (auto simp: exact_id_def dest: position_SomeD)
  obtain ids where ids: "sp_index plan (from_slices req) = Some ids" "sid \<in> set ids"
    using wf i sid by (auto simp: wf_plan_def index_complete_def)
  have uniq: "s = sid" if "s \<in> set ids" "cs_input_shapes (sp_buckets plan ! as_usize s) = req" for s
  proof -
    have "as_usize s < length (sp_buckets plan)"
      using wf ids that by (auto simp: wf_plan_def index_sound_def)
    then have "exact_id plan req = Some (ShapeId (of_nat (as_usize s)))"
      using exact_id_at [OF wf] that by auto
    then show ?thesis using Some by (cases s) (simp add: as_usize.simps)
  qed
  have "as_usize sid = i" using i(1) sid wf_plan_len [OF wf] by simp
  then have "find (\<lambda>s. cs_input_shapes (sp_buckets plan ! as_usize s) = req) ids = Some sid"
    by (intro find_unique ids(2)) (simp_all add: i(2) uniq)
  then show ?thesis
    using wf ids Some by (auto simp: wf_plan_def index_sound_def find_exact_eq)
qed

lemma classify_eq:
  assumes "wf_plan plan"
  shows "classify plan req = Ret (case exact_id plan req of Some sid \<Rightarrow> Inr sid
    | None \<Rightarrow> (case sp_fallback plan of PadToNearest r \<Rightarrow> classify_padded plan req r
               | _ \<Rightarrow> Inl NotInPlan))"
  unfolding classify_def lookup_eq_exact_id [OF assms]
  by (simp split: option.splits fallback_policy.splits)


subsection \<open>Element counts\<close>

definition volume :: "shape \<Rightarrow> nat" where
  "volume s = prod_list (map nat s)"

definition elements :: "shape list \<Rightarrow> nat" where
  "elements shapes = sum_list (map volume shapes)"

definition fits_shape :: "shape \<Rightarrow> shape \<Rightarrow> bool" where
  "fits_shape request bucket \<longleftrightarrow> list_all2 (\<lambda>a p. 0 < a \<and> a \<le> p) request bucket"

definition fits :: "shape list \<Rightarrow> shape list \<Rightarrow> bool" where
  "fits requested canonical \<longleftrightarrow> list_all2 fits_shape requested canonical"

lemma volume_simps [simp]: "volume [] = 1" "volume (d # s) = nat d * volume s"
  by (simp_all add: volume_def)

lemma elements_simps [simp]: "elements [] = 0" "elements (s # ss) = volume s + elements ss"
  by (simp_all add: elements_def)

lemma fits_shape_volume:
  "fits_shape r b \<Longrightarrow> 0 < volume r \<and> volume r \<le> volume b"
  unfolding fits_shape_def by (induction rule: list_all2_induct) (auto intro!: mult_le_mono)

lemma fits_elements: "fits r b \<Longrightarrow> elements r \<le> elements b"
  unfolding fits_def
  by (induction rule: list_all2_induct) (auto intro!: add_le_mono dest: fits_shape_volume)

lemma fits_elements_pos: "fits r b \<Longrightarrow> b \<noteq> [] \<Longrightarrow> 0 < elements r"
  unfolding fits_def by (cases r; cases b) (auto dest: fits_shape_volume)

text \<open>
  The overflow checks of the loops are exact: every dimension is at least one, so a partial
  product or sum overflows only if the whole one does.
\<close>

lemma checked_prefix:
  assumes "0 < (v::nat)" "(x * v) < n" shows "x < n"
  using assms by (metis Suc_leI le_less_trans mult.right_neutral mult_le_mono2 One_nat_def)

lemma fit_dims_eq:
  "length r = length b \<Longrightarrow> rp < 2 ^ 128 \<Longrightarrow> bp < 2 ^ 128 \<Longrightarrow>
   fit_dims (zip r b) (rp, bp) =
     (if fits_shape r b \<and> rp * volume r < 2 ^ 128 \<and> bp * volume b < 2 ^ 128
      then Some (rp * volume r, bp * volume b) else None)"
proof (induction r b arbitrary: rp bp rule: list_induct2)
  case Nil
  then show ?case by (simp add: fits_shape_def)
next
  case (Cons a r p b)
  have fs: "fits_shape (a # r) (p # b) \<longleftrightarrow> 0 < a \<and> a \<le> p \<and> fits_shape r b"
    by (simp add: fits_shape_def)
  show ?case
  proof (cases "0 < a \<and> a \<le> p \<and> rp * nat a < 2 ^ 128 \<and> bp * nat p < 2 ^ 128")
    case True
    then show ?thesis using Cons.IH [of "rp * nat a" "bp * nat p"]
      by (simp add: fs checked_mul_at_def mult.assoc)
  next
    case False
    then have none: "fit_dims (zip (a # r) (p # b)) (rp, bp) = None"
      by (auto simp: checked_mul_at_def)
    have "rp * nat a < 2 ^ 128 \<and> bp * nat p < 2 ^ 128"
      if "fits_shape r b" "rp * volume (a # r) < 2 ^ 128" "bp * volume (p # b) < 2 ^ 128"
      using that fits_shape_volume [OF that(1)] checked_prefix [of "volume r" "rp * nat a"]
        checked_prefix [of "volume b" "bp * nat p"] by (simp add: mult.assoc)
    then show ?thesis unfolding none using False fs by auto
  qed
qed

lemma fit_shapes_eq:
  "length r = length b \<Longrightarrow> rs < 2 ^ 128 \<Longrightarrow> bs < 2 ^ 128 \<Longrightarrow>
   fit_shapes (zip r b) (rs, bs) =
     (if fits r b \<and> rs + elements r < 2 ^ 128 \<and> bs + elements b < 2 ^ 128
      then Some (rs + elements r, bs + elements b) else None)"
proof (induction r b arbitrary: rs bs rule: list_induct2)
  case Nil
  then show ?case by (simp add: fits_def)
next
  case (Cons x r y b)
  have len: "fits_shape x y \<Longrightarrow> length x = length y"
    by (auto simp: fits_shape_def dest: list_all2_lengthD)
  have fs: "fits (x # r) (y # b) \<longleftrightarrow> fits_shape x y \<and> fits r b" by (simp add: fits_def)
  have fd: "fit_dims (zip x y) (1, 1) =
      (if fits_shape x y \<and> volume x < 2 ^ 128 \<and> volume y < 2 ^ 128
       then Some (volume x, volume y) else None)" if "length x = length y"
    using fit_dims_eq [OF that, of 1 1] by simp
  show ?case
  proof (cases "fits_shape x y \<and> rs + volume x < 2 ^ 128 \<and> bs + volume y < 2 ^ 128")
    case True
    then show ?thesis using Cons.IH [of "rs + volume x" "bs + volume y"] fd len
      by (simp add: fs checked_add_at_def add.assoc)
  next
    case False
    then show ?thesis using fd len
      by (auto simp: fs checked_add_at_def)
  qed
qed

lemma fitting_element_counts_eq:
  "fitting_element_counts r b =
     (if fits r b \<and> elements b < 2 ^ 128 then Some (elements r, elements b) else None)"
  using fit_shapes_eq [of r b 0 0] fits_elements [of r b]
  by (auto simp: fitting_element_counts_def fits_def dest: list_all2_lengthD)

lemma volume_pos: "\<forall>d \<in> set s. 0 < d \<Longrightarrow> 0 < volume s"
  by (induction s) auto

lemma shape_product_eq:
  "\<forall>d \<in> set s. 0 < d \<Longrightarrow> p < 2 ^ 128 \<Longrightarrow>
   shape_product s p = (if p * volume s < 2 ^ 128 then Some (p * volume s) else None)"
proof (induction s arbitrary: p)
  case Nil
  then show ?case by simp
next
  case (Cons d s)
  have v: "0 < volume s" using Cons.prems(1) by (simp add: volume_pos)
  show ?case
    using Cons.IH [of "p * nat d"] Cons.prems checked_prefix [OF v, of "p * nat d" "2 ^ 128"]
    by (auto simp: checked_mul_at_def mult.assoc not_less)
qed

lemma request_sum_eq:
  "\<forall>s \<in> set r. \<forall>d \<in> set s. 0 < d \<Longrightarrow> a < 2 ^ 128 \<Longrightarrow>
   request_sum r a = (if a + elements r < 2 ^ 128 then Some (a + elements r) else None)"
proof (induction r arbitrary: a)
  case Nil
  then show ?case by simp
next
  case (Cons s r)
  show ?case
    using Cons.IH [of "a + volume s"] Cons.prems shape_product_eq [of s 1]
    by (auto simp: checked_add_at_def add.assoc)
qed

lemma fits_positive: "fits r b \<Longrightarrow> \<forall>s \<in> set r. \<forall>d \<in> set s. 0 < d"
  unfolding fits_def fits_shape_def
  by (force simp: list_all2_conv_all_nth in_set_conv_nth)

lemma requested_element_count_fits:
  assumes "fits r b" "b \<noteq> []" "elements b < 2 ^ 128"
  shows "requested_element_count r = Some (elements r)"
  using request_sum_eq [OF fits_positive [OF assms(1)], of 0] fits_elements [OF assms(1)]
    fits_elements_pos [OF assms(1,2)] assms(3)
  by (simp add: requested_element_count_def)

subsection \<open>Padding\<close>

text \<open>\<open>admissible\<close>: the bucket can take the request and its counts do not overflow.\<close>

definition admissible :: "shape list \<Rightarrow> canonical_shape \<Rightarrow> bool" where
  "admissible requested bucket \<longleftrightarrow>
     fits requested (cs_input_shapes bucket) \<and> elements (cs_input_shapes bucket) < 2 ^ 128"

definition padding_waste :: "shape list \<Rightarrow> canonical_shape \<Rightarrow> nat" where
  "padding_waste requested bucket = elements (cs_input_shapes bucket) - elements requested"

definition no_better :: "shape list \<Rightarrow> canonical_shape \<Rightarrow> canonical_shape \<Rightarrow> bool" where
  "no_better req b b' \<longleftrightarrow>
     padding_waste req b < padding_waste req b' \<or>
     padding_waste req b = padding_waste req b' \<and>
       elements (cs_input_shapes b) \<le> elements (cs_input_shapes b')"

lemma better_candidate_eq:
  "better_candidate req b best =
     (if admissible req b then
        (case best of None \<Rightarrow> Some (padding_waste req b, elements (cs_input_shapes b), cs_id b)
         | Some (w, t, _) \<Rightarrow>
           if padding_waste req b < w \<or> padding_waste req b = w \<and> elements (cs_input_shapes b) < t
           then Some (padding_waste req b, elements (cs_input_shapes b), cs_id b) else best)
      else best)"
  by (auto simp: better_candidate_def fitting_element_counts_eq admissible_def padding_waste_def
      split: option.splits)

definition is_best :: "shape list \<Rightarrow> canonical_shape list \<Rightarrow> candidate option \<Rightarrow> bool" where
  "is_best req bs best =
     (case best of None \<Rightarrow> \<forall>b \<in> set bs. \<not> admissible req b
      | Some c \<Rightarrow> (\<exists>b \<in> set bs. admissible req b \<and>
          c = (padding_waste req b, elements (cs_input_shapes b), cs_id b) \<and>
          (\<forall>b' \<in> set bs. admissible req b' \<longrightarrow> no_better req b b')))"

lemma better_candidate_is_best:
  assumes "is_best req bs best"
  shows "is_best req (bs @ [b]) (better_candidate req b best)"
proof (cases best)
  case None
  then show ?thesis using assms by (auto simp: is_best_def better_candidate_eq no_better_def)
next
  case (Some c)
  then show ?thesis using assms
    by (fastforce simp: is_best_def better_candidate_eq no_better_def)
qed

lemma best_candidate_is_best: "is_best req bs (best_candidate req bs)"
proof (induction bs rule: rev_induct)
  case Nil
  then show ?case by (simp add: best_candidate_def is_best_def)
next
  case (snoc b bs)
  then show ?case using better_candidate_is_best by (simp add: best_candidate_def)
qed

lemma f64_ratio_le:
  assumes "0 < q" "f64_div (f64_of_nat w) (f64_of_nat q) \<le> m"
  shows "of_nat w * (1 - f64_eps) ^ 2 \<le> m * of_nat q * (1 + f64_eps)"
proof -
  have e: "0 < 1 - f64_eps" "0 \<le> f64_eps" using f64_eps_bounds by simp_all
  define W Q where "W = f64_of_nat w" and "Q = f64_of_nat q"
  have W: "of_nat w * (1 - f64_eps) \<le> W" "0 \<le> W"
    unfolding W_def f64_of_nat_def by (simp_all add: round_f64_ge round_f64_nonneg)
  have Q: "Q \<le> of_nat q * (1 + f64_eps)"
    unfolding Q_def f64_of_nat_def by (simp add: round_f64_le)
  have "0 < of_nat q * (1 - f64_eps)" using assms(1) e(1) by simp
  also have "\<dots> \<le> Q" unfolding Q_def f64_of_nat_def by (simp add: round_f64_ge)
  finally have Qp: "0 < Q" .
  have "W / Q * (1 - f64_eps) \<le> f64_div W Q"
    using round_f64_ge [of "W / Q"] W(2) Qp by (simp add: f64_div_def)
  then have "W / Q * (1 - f64_eps) \<le> m" using assms(2) by (simp add: W_def Q_def)
  then have 1: "W * (1 - f64_eps) \<le> m * Q" using Qp by (simp add: field_simps)
  have "0 \<le> m * Q" using 1 W(2) e(1) by (metis mult_nonneg_nonneg less_imp_le order_trans)
  then have m: "0 \<le> m" using Qp by (simp add: zero_le_mult_iff)
  have "of_nat w * (1 - f64_eps) ^ 2 \<le> W * (1 - f64_eps)"
    using mult_right_mono [OF W(1), of "1 - f64_eps"] e(1) by (simp add: power2_eq_square)
  also have "\<dots> \<le> m * Q" by (rule 1)
  also have "\<dots> \<le> m * (of_nat q * (1 + f64_eps))" using Q m by (rule mult_left_mono)
  finally show ?thesis by (simp add: mult.assoc)
qed

lemma wf_plan_bucket:
  assumes "wf_plan plan" "b \<in> set (sp_buckets plan)"
  shows "plan_bucket plan (cs_id b) = Some b" "cs_input_shapes b \<noteq> []"
proof -
  obtain i where i: "i < length (sp_buckets plan)" "b = sp_buckets plan ! i"
    using assms(2) by (auto simp: in_set_conv_nth)
  then have cid: "cs_id b = ShapeId (of_nat i)"
    and v: "validate_shapes (cs_input_shapes b) (cs_output_shapes b) = Inr ()"
    using assms(1) by (auto simp: wf_plan_def wf_buckets_def)
  show "plan_bucket plan (cs_id b) = Some b"
    using i cid wf_plan_len [OF assms(1) i(1)] by (simp add: plan_bucket_def)
  show "cs_input_shapes b \<noteq> []" using v by (auto simp: validate_shapes_ok)
qed

text \<open>What an accepted padding guarantees: an admissible bucket, none better, within the bound.\<close>

lemma classify_padded_Inr:
  assumes wf: "wf_plan plan" and ok: "classify_padded plan req r = Inr sid"
  shows "\<exists>b. plan_bucket plan sid = Some b \<and> admissible req b \<and>
    (\<forall>b' \<in> set (sp_buckets plan). admissible req b' \<longrightarrow> no_better req b b') \<and>
    of_nat (padding_waste req b) * (1 - f64_eps) ^ 2
      \<le> f32_value r * of_nat (elements req) * (1 + f64_eps)"
proof -
  obtain w t q where best: "best_candidate req (sp_buckets plan) = Some (w, t, sid)"
    and q: "requested_element_count req = Some q" "f64_div (f64_of_nat w) (f64_of_nat q) \<le> f32_value r"
    using ok by (fastforce simp: classify_padded_def Let_def split: option.splits if_splits prod.splits)
  then obtain b where b: "b \<in> set (sp_buckets plan)" "admissible req b" "w = padding_waste req b" "sid = cs_id b"
    "\<forall>b' \<in> set (sp_buckets plan). admissible req b' \<longrightarrow> no_better req b b'"
    using best_candidate_is_best [of req "sp_buckets plan"] by (auto simp: is_best_def)
  note pb = wf_plan_bucket [OF wf b(1)]
  have adm: "fits req (cs_input_shapes b)" "elements (cs_input_shapes b) < 2 ^ 128"
    using b(2) by (auto simp: admissible_def)
  have "requested_element_count req = Some (elements req)"
    by (rule requested_element_count_fits [OF adm(1) pb(2) adm(2)])
  with q fits_elements_pos [OF adm(1) pb(2)] b pb(1)
  show ?thesis using f64_ratio_le [of "elements req" w "f32_value r"] by auto
qed

lemma classify_padded_no_fit:
  assumes "wf_plan plan"
  shows "classify_padded plan req r = Inl NoFittingShape \<longleftrightarrow>
    (\<forall>b \<in> set (sp_buckets plan). \<not> admissible req b)"
proof (cases "best_candidate req (sp_buckets plan)")
  case None
  then show ?thesis
    using best_candidate_is_best [of req "sp_buckets plan"] by (simp add: classify_padded_def is_best_def)
next
  case (Some c)
  then obtain b where b: "b \<in> set (sp_buckets plan)" "admissible req b"
    using best_candidate_is_best [of req "sp_buckets plan"] by (auto simp: is_best_def)
  then have "requested_element_count req = Some (elements req)"
    using wf_plan_bucket(2) [OF assms b(1)]
    by (auto simp: admissible_def intro: requested_element_count_fits)
  with b Some show ?thesis by (auto simp: classify_padded_def Let_def split: prod.splits)
qed

subsection \<open>Properties\<close>

text \<open>The plan of the witnesses: two buckets, padding up to as much waste as payload.\<close>

definition example_builder :: "fallback_policy \<Rightarrow> shape_plan_builder" where
  "example_builder policy =
     add_shape [[2, 8]] [[2]] HostBuffer
       (add_shape [[2, 4]] [[2]] CudaPinned (set_fallback_policy policy builder))"

lemmas example_simps =
  example_builder_def add_shape_def set_fallback_policy_def builder_def spec_ok_def validate_shapes_ok
  invalid_ratio_def spec_of_def

lemma example_plan:
  assumes "invalid_ratio policy = None"
  shows "\<exists>plan. build (example_builder policy) = Ret (Inr plan) \<and>
    map spec_of (sp_buckets plan) = [([[2, 4]], [[2]], CudaPinned), ([[2, 8]], [[2]], HostBuffer)] \<and>
    sp_fallback plan = policy"
proof -
  have pre: "pb_buckets (example_builder policy) \<noteq> []"
    "length (pb_buckets (example_builder policy)) \<le> u32_max"
    "invalid_ratio (pb_fallback (example_builder policy)) = None"
    using assms by (simp_all add: example_simps)
  show ?thesis by (cases rule: build_outcome [OF pre]) (auto simp: example_simps)
qed

lemma build_Inr:
  assumes "build b = Ret (Inr plan)"
  shows "wf_plan plan \<and> map spec_of (sp_buckets plan) = pb_buckets b \<and> sp_fallback plan = pb_fallback b"
proof -
  have pre: "pb_buckets b \<noteq> []" "length (pb_buckets b) \<le> u32_max" "invalid_ratio (pb_fallback b) = None"
    using assms by (auto simp: build_def split: if_splits option.splits)
  show ?thesis using assms by (cases rule: build_outcome [OF pre]) auto
qed

lemma spec_of_nth:
  assumes "map spec_of bs = specs" "i < length specs"
  shows "i < length bs" "cs_input_shapes (bs ! i) = fst (specs ! i)" "spec_of (bs ! i) = specs ! i"
  using assms by (auto simp: spec_of_def)

text \<open>
  C15. \<open>build\<close> never panics, and it succeeds exactly when the builder holds between one and
  \<open>u32::MAX\<close> buckets, the padding ratio is finite and not negative, every bucket has at least
  one input and only positive dimensions, and no two buckets have the same input shapes.
\<close>

theorem build_succeeds_iff:
  "build b \<noteq> Panic \<and>
   ((\<exists>plan. build b = Ret (Inr plan)) \<longleftrightarrow>
      pb_buckets b \<noteq> [] \<and> length (pb_buckets b) \<le> u32_max \<and> invalid_ratio (pb_fallback b) = None \<and>
      list_all spec_ok (pb_buckets b) \<and> distinct (map fst (pb_buckets b)))"
proof (cases "pb_buckets b \<noteq> [] \<and> length (pb_buckets b) \<le> u32_max \<and> invalid_ratio (pb_fallback b) = None")
  case True
  then have pre: "pb_buckets b \<noteq> []" "length (pb_buckets b) \<le> u32_max"
    "invalid_ratio (pb_fallback b) = None" by simp_all
  then show ?thesis by (cases rule: build_outcome [OF pre]) auto
next
  case False
  then show ?thesis by (auto simp: build_def split: option.splits)
qed

text \<open>
  C1. A built plan classifies the input shapes of the i-th bucket added to the builder as
  \<open>ShapeId(i)\<close>, under every fallback policy and whatever hashes collide, and \<open>bucket\<close> of that
  id is the bucket as it was added.
\<close>

theorem classify_roundtrip:
  assumes "build b = Ret (Inr plan)" "i < length (pb_buckets b)"
  shows "classify plan (fst (pb_buckets b ! i)) = Ret (Inr (ShapeId (of_nat i))) \<and>
    map_option spec_of (plan_bucket plan (ShapeId (of_nat i))) = Some (pb_buckets b ! i)"
proof -
  have wf: "wf_plan plan" and specs: "map spec_of (sp_buckets plan) = pb_buckets b"
    using build_Inr [OF assms(1)] by auto
  note at = spec_of_nth [OF specs assms(2)]
  show ?thesis
    using classify_eq [OF wf] exact_id_at [OF wf at(1)] wf_plan_len [OF wf at(1)] at
    by (simp add: plan_bucket_def get_opt_def)
qed

theorem classify_roundtrip_witness:
  "\<exists>plan. build (example_builder Strict) = Ret (Inr plan) \<and>
     classify plan [[2, 8]] = Ret (Inr (ShapeId 1))"
proof -
  obtain plan where plan: "build (example_builder Strict) = Ret (Inr plan)"
    using example_plan [of Strict] by (auto simp: invalid_ratio_def)
  then show ?thesis
    using classify_roundtrip [OF plan, of 1] by (auto simp: example_simps)
qed

text \<open>
  C3. Classification by a built plan is total: it never panics, and a request whose input
  shapes are those of no bucket is refused with \<open>NotInPlan\<close> unless the policy is padding;
  with padding it is refused with \<open>NoFittingShape\<close> exactly when no bucket of the plan can
  take it (same ranks, positive dimensions, none larger than the bucket's, and a total number
  of bucket elements below \<open>2 ^ 128\<close>).
\<close>

theorem classify_refusals:
  assumes "build b = Ret (Inr plan)" "req \<notin> fst ` set (pb_buckets b)"
  shows "(\<exists>res. classify plan req = Ret res) \<and>
    (classify plan req = Ret (Inl NotInPlan) \<longleftrightarrow> pb_fallback b \<in> {Strict, FallbackSession}) \<and>
    (classify plan req = Ret (Inl NoFittingShape) \<longleftrightarrow>
      pb_fallback b \<notin> {Strict, FallbackSession} \<and>
      \<not> (\<exists>spec \<in> set (pb_buckets b). fits req (fst spec) \<and> elements (fst spec) < 2 ^ 128))"
proof -
  have wf: "wf_plan plan" and specs: "map spec_of (sp_buckets plan) = pb_buckets b"
    and fb: "sp_fallback plan = pb_fallback b"
    using build_Inr [OF assms(1)] by auto
  have ins: "fst ` set (pb_buckets b) = cs_input_shapes ` set (sp_buckets plan)"
    unfolding specs [symmetric] by (auto simp: spec_of_def image_image)
  then have "exact_id plan req = None" using assms(2) by (auto simp: exact_id_def)
  moreover have "(\<forall>x \<in> set (sp_buckets plan). \<not> admissible req x) \<longleftrightarrow>
      \<not> (\<exists>spec \<in> set (pb_buckets b). fits req (fst spec) \<and> elements (fst spec) < 2 ^ 128)"
    unfolding specs [symmetric] by (auto simp: admissible_def spec_of_def)
  ultimately show ?thesis
    using classify_eq [OF wf, of req] classify_padded_no_fit [OF wf, of req] fb
    by (cases "pb_fallback b") (auto simp: classify_padded_def Let_def split: option.splits prod.splits)
qed

theorem classify_refusals_witness:
  "\<exists>plan. build (example_builder Strict) = Ret (Inr plan) \<and>
     classify plan [[2, 3]] = Ret (Inl NotInPlan)"
proof -
  obtain plan where plan: "build (example_builder Strict) = Ret (Inr plan)"
    using example_plan [of Strict] by (auto simp: invalid_ratio_def)
  then show ?thesis
    using classify_refusals [OF plan, of "[[2, 3]]"] by (auto simp: example_simps)
qed

text \<open>
  C2. When a built plan accepts a request, the bucket it names either has exactly the requested
  input shapes, or it is an admissible bucket of the plan that no other admissible bucket beats
  on (wasted elements, total elements), and its exact waste exceeds the configured share of the
  requested elements by at most the relative rounding error of the three \<open>f64\<close> operations.
\<close>

theorem classify_accepts_best:
  assumes "build b = Ret (Inr plan)" "classify plan req = Ret (Inr sid)"
  shows "\<exists>bucket. plan_bucket plan sid = Some bucket \<and>
    (cs_input_shapes bucket = req \<or>
     (\<exists>r. pb_fallback b = PadToNearest r \<and> admissible req bucket \<and>
        (\<forall>other \<in> set (sp_buckets plan). admissible req other \<longrightarrow> no_better req bucket other) \<and>
        of_nat (padding_waste req bucket) * (1 - f64_eps) ^ 2
          \<le> f32_value r * of_nat (elements req) * (1 + f64_eps)))"
proof -
  have wf: "wf_plan plan" and fb: "sp_fallback plan = pb_fallback b"
    using build_Inr [OF assms(1)] by auto
  show ?thesis
  proof (cases "exact_id plan req")
    case None
    then obtain r where "pb_fallback b = PadToNearest r" "classify_padded plan req r = Inr sid"
      using classify_eq [OF wf, of req] assms(2) fb by (cases "pb_fallback b") auto
    then show ?thesis using classify_padded_Inr [OF wf] by blast
  next
    case (Some sid')
    then have "sid' = sid" using classify_eq [OF wf, of req] assms(2) by simp
    with Some obtain i where i: "position (\<lambda>b. cs_input_shapes b = req) (sp_buckets plan) = Some i"
      "sid = ShapeId (of_nat i)"
      by (auto simp: exact_id_def)
    then have "i < length (sp_buckets plan)" "cs_input_shapes (sp_buckets plan ! i) = req"
      using position_SomeD by fastforce+
    then show ?thesis using i wf_plan_len [OF wf] by (auto simp: plan_bucket_def)
  qed
qed

text \<open>A request of four elements is padded to the bucket of eight: a waste ratio of one.\<close>

lemma example_ratio: "f64_div (f64_of_nat 4) (f64_of_nat 4) = 1"
  using round_f64_exact [of 1 0] by (simp add: f64_of_nat_exact f64_div_def)

lemma example_padded:
  assumes built: "build (example_builder (PadToNearest (F32 1))) = Ret (Inr plan)"
  shows "classify plan [[1, 4]] = Ret (Inr (ShapeId 0))"
proof -
  have wf: "wf_plan plan" and fb: "sp_fallback plan = PadToNearest (F32 1)"
    and specs: "map spec_of (sp_buckets plan) =
      [([[2, 4]], [[2]], CudaPinned), ([[2, 8]], [[2]], HostBuffer)]"
    using build_Inr [OF built] by (auto simp: example_simps)
  obtain b0 b1 where bs: "sp_buckets plan = [b0, b1]"
    and ins: "cs_input_shapes b0 = [[2, 4]]" "cs_input_shapes b1 = [[2, 8]]"
    using specs by (auto simp: map_eq_Cons_conv spec_of_def)
  have "cs_id (sp_buckets plan ! 0) = ShapeId (of_nat 0)"
    using wf bs unfolding wf_plan_def wf_buckets_def by (metis length_greater_0_conv)
  then have cid: "cs_id b0 = ShapeId 0" using bs by simp
  have "exact_id plan [[1, 4]] = None" by (simp add: exact_id_def bs ins)
  moreover have "best_candidate [[1, 4]] (sp_buckets plan) = Some (4, 8, ShapeId 0)"
    by (simp add: best_candidate_def better_candidate_eq admissible_def padding_waste_def bs ins cid
        fits_def fits_shape_def)
  moreover have "requested_element_count [[1, 4]] = Some 4"
    by (simp add: requested_element_count_def checked_mul_at_def checked_add_at_def)
  ultimately show ?thesis
    using classify_eq [OF wf, of "[[1, 4]]"] example_ratio
    by (simp add: fb classify_padded_def)
qed

theorem classify_accepts_best_witness:
  "\<exists>plan bucket. build (example_builder (PadToNearest (F32 1))) = Ret (Inr plan) \<and>
     classify plan [[1, 4]] = Ret (Inr (ShapeId 0)) \<and>
     plan_bucket plan (ShapeId 0) = Some bucket \<and>
     (cs_input_shapes bucket = [[1, 4]] \<or> admissible [[1, 4]] bucket)"
proof -
  obtain plan where plan: "build (example_builder (PadToNearest (F32 1))) = Ret (Inr plan)"
    using example_plan [of "PadToNearest (F32 1)"] by (auto simp: invalid_ratio_def)
  from classify_accepts_best [OF plan example_padded [OF plan]] plan example_padded [OF plan]
  show ?thesis by blast
qed

text \<open>
  C17. The pairwise loop over the requested and the bucket dimensions, with its overflow check
  after every multiplication and addition, computes exactly the two element counts: it fails
  only when the request does not fit the bucket or the bucket's own count does not fit in
  128 bits.
\<close>

theorem fitting_element_counts_exact:
  "fitting_element_counts requested canonical =
     (if fits requested canonical \<and> elements canonical < 2 ^ 128
      then Some (elements requested, elements canonical) else None)"
  by (rule fitting_element_counts_eq)

end
