(* ===== verification/Spsc.thy ===== *)
theory Spsc
  imports Prelude "HOL-Library.Log_Nat"
begin

unbundle bit_operations_syntax

text \<open>
  st-zrt/src/spsc.rs: the bounded single-producer single-consumer queue, one call at a time
  (Spsc_Conc interleaves the two halves). The counters \<open>head\<close> and \<open>tail\<close> are 64-bit words that
  wrap; a slot is \<open>None\<close> while its \<open>MaybeUninit\<close> holds no live element. An index out of range
  and a read of a slot that holds no element are both the value \<open>Panic\<close>. A registered thread
  is a number, and \<open>in_tokens\<close> holds the threads whose park token has been made available.

  The locale \<open>bounded_fifo\<close> is the contract of the queue over the list of its contents; the
  ring is an interpretation of it.
\<close>

subsection \<open>Data\<close>

record 'a inner =
  in_slots :: "'a option list"
  in_mask :: "64 word"
  in_head :: "64 word"
  in_tail :: "64 word"
  in_sender_closed :: bool
  in_receiver_closed :: bool
  in_sender_thread :: "nat option"
  in_receiver_thread :: "nat option"
  in_spins :: nat
  in_tokens :: "nat set"

datatype 'a try_send_error = Send_Full 'a | Send_Closed 'a
datatype 'a send_error = SendError 'a
datatype try_recv_error = Recv_Empty | Recv_Closed

definition DEFAULT_SPINS :: nat where "DEFAULT_SPINS = 256"

text \<open>\<open>usize::checked_next_power_of_two\<close>.\<close>

definition checked_next_power_of_two :: "nat \<Rightarrow> nat option" where
  "checked_next_power_of_two n =
     (let p = (if n \<le> 1 then 1 else 2 ^ floorlog 2 (n - 1))
      in if p < 2 ^ 64 then Some p else None)"

definition inner_new :: "nat \<Rightarrow> nat \<Rightarrow> 'a inner run" where
  "inner_new capacity spins =
     (if capacity = 0 then Panic
      else case checked_next_power_of_two capacity of
        None \<Rightarrow> Panic
      | Some c \<Rightarrow> Ret \<lparr>in_slots = replicate c None, in_mask = of_nat (c - 1), in_head = 0, in_tail = 0,
          in_sender_closed = False, in_receiver_closed = False,
          in_sender_thread = None, in_receiver_thread = None, in_spins = spins, in_tokens = {}\<rparr>)"

definition bounded_spsc_with_spins :: "nat \<Rightarrow> nat \<Rightarrow> 'a inner run" where
  "bounded_spsc_with_spins capacity spins = inner_new capacity spins"

definition bounded_spsc :: "nat \<Rightarrow> 'a inner run" where
  "bounded_spsc capacity = bounded_spsc_with_spins capacity DEFAULT_SPINS"

definition queue_capacity :: "'a inner \<Rightarrow> nat" where
  "queue_capacity s = length (in_slots s)"

definition queue_len :: "'a inner \<Rightarrow> 64 word" where
  "queue_len s = in_tail s - in_head s"

definition queue_is_empty :: "'a inner \<Rightarrow> bool" where
  "queue_is_empty s \<longleftrightarrow> queue_len s = 0"

definition unpark_sender :: "'a inner \<Rightarrow> 'a inner" where
  "unpark_sender s = (case in_sender_thread s of None \<Rightarrow> s
     | Some t \<Rightarrow> s\<lparr>in_tokens := insert t (in_tokens s)\<rparr>)"

definition unpark_receiver :: "'a inner \<Rightarrow> 'a inner" where
  "unpark_receiver s = (case in_receiver_thread s of None \<Rightarrow> s
     | Some t \<Rightarrow> s\<lparr>in_tokens := insert t (in_tokens s)\<rparr>)"

definition slot_index :: "'a inner \<Rightarrow> 64 word \<Rightarrow> nat" where
  "slot_index s pos = unat (pos AND in_mask s)"

definition sender_is_closed :: "'a inner \<Rightarrow> bool" where
  "sender_is_closed s \<longleftrightarrow> in_sender_closed s \<or> in_receiver_closed s"

definition sender_close :: "'a inner \<Rightarrow> 'a inner" where
  "sender_close s = unpark_receiver (s\<lparr>in_sender_closed := True\<rparr>)"

definition receiver_is_closed :: "'a inner \<Rightarrow> bool" where
  "receiver_is_closed s \<longleftrightarrow> in_receiver_closed s \<or> (in_sender_closed s \<and> queue_is_empty s)"

definition receiver_close :: "'a inner \<Rightarrow> 'a inner" where
  "receiver_close s = unpark_sender (s\<lparr>in_receiver_closed := True\<rparr>)"

subsection \<open>Sending and receiving\<close>

definition try_send :: "'a \<Rightarrow> 'a inner \<Rightarrow> (('a try_send_error + unit) \<times> 'a inner) run" where
  "try_send v s =
     (if in_sender_closed s \<or> in_receiver_closed s then Ret (Inl (Send_Closed v), s)
      else let tail = in_tail s; head = in_head s in
        if tail - head = of_nat (queue_capacity s) then Ret (Inl (Send_Full v), s)
        else bind_run (index_run (in_slots s) (slot_index s tail)) (\<lambda>_.
          Ret (Inr (), unpark_receiver
            (s\<lparr>in_slots := (in_slots s)[slot_index s tail := Some v], in_tail := tail + 1\<rparr>))))"

definition try_recv :: "'a inner \<Rightarrow> ((try_recv_error + 'a) \<times> 'a inner) run" where
  "try_recv s =
     (let head = in_head s; tail = in_tail s in
      if head = tail then Ret (Inl (if in_sender_closed s then Recv_Closed else Recv_Empty), s)
      else bind_run (index_run (in_slots s) (slot_index s head)) (\<lambda>slot. case slot of
          None \<Rightarrow> Panic
        | Some v \<Rightarrow> Ret (Inr v, unpark_sender
            (s\<lparr>in_slots := (in_slots s)[slot_index s head := None], in_head := head + 1\<rparr>))))"

text \<open>
  \<open>Drop for Inner\<close>: the loop over \<open>head..tail\<close> drops the element of each slot it visits; the
  result is the list of dropped elements.
\<close>

fun drop_range :: "'a inner \<Rightarrow> nat list \<Rightarrow> 'a list run" where
  "drop_range s [] = Ret []"
| "drop_range s (i # is) =
     bind_run (index_run (in_slots s) (slot_index s (of_nat i))) (\<lambda>slot. case slot of
         None \<Rightarrow> Panic
       | Some v \<Rightarrow> bind_run (drop_range s is) (\<lambda>vs. Ret (v # vs)))"

definition inner_drop :: "'a inner \<Rightarrow> 'a list run" where
  "inner_drop s = drop_range s [unat (in_head s)..<unat (in_tail s)]"

text \<open>
  The blocking loops. \<open>peer t\<close> is what the other half did to the shared state before attempt
  number \<open>t\<close>; one turn of the outer loop makes one attempt, then \<open>spins\<close> more, then parks
  (\<open>park_timeout\<close> always returns). The fuel counts attempts; \<open>left\<close> is what remains of the spin
  budget before the thread parks.
\<close>

type_synonym 'a peer = "nat \<Rightarrow> 'a inner \<Rightarrow> 'a inner"

fun send_loop :: "nat \<Rightarrow> 'a peer \<Rightarrow> nat \<Rightarrow> nat \<Rightarrow> 'a \<Rightarrow> 'a inner
    \<Rightarrow> (('a send_error + unit) \<times> 'a inner) option run" where
  "send_loop 0 peer t left v s = Ret None"
| "send_loop (Suc fuel) peer t left v s =
     bind_run (try_send v (peer t s)) (\<lambda>(r, s'). case r of
         Inr _ \<Rightarrow> Ret (Some (Inr (), s'))
       | Inl (Send_Closed w) \<Rightarrow> Ret (Some (Inl (SendError w), s'))
       | Inl (Send_Full w) \<Rightarrow>
           (case left of Suc n \<Rightarrow> send_loop fuel peer (Suc t) n w s'
            | 0 \<Rightarrow> send_loop fuel peer (Suc t) (in_spins s') w (unpark_receiver s')))"

definition send :: "nat \<Rightarrow> 'a peer \<Rightarrow> nat \<Rightarrow> 'a \<Rightarrow> 'a inner
    \<Rightarrow> (('a send_error + unit) \<times> 'a inner) option run" where
  "send fuel peer me v s =
     send_loop fuel peer 0 (in_spins s) v
       (s\<lparr>in_sender_thread := Some (case in_sender_thread s of None \<Rightarrow> me | Some t \<Rightarrow> t)\<rparr>)"

fun recv_loop :: "nat \<Rightarrow> 'a peer \<Rightarrow> nat \<Rightarrow> nat \<Rightarrow> 'a inner \<Rightarrow> ('a option \<times> 'a inner) option run" where
  "recv_loop 0 peer t left s = Ret None"
| "recv_loop (Suc fuel) peer t left s =
     bind_run (try_recv (peer t s)) (\<lambda>(r, s'). case r of
         Inr v \<Rightarrow> Ret (Some (Some v, s'))
       | Inl Recv_Closed \<Rightarrow> Ret (Some (None, s'))
       | Inl Recv_Empty \<Rightarrow>
           (case left of Suc n \<Rightarrow> recv_loop fuel peer (Suc t) n s'
            | 0 \<Rightarrow> recv_loop fuel peer (Suc t) (in_spins s') s'))"

definition recv :: "nat \<Rightarrow> 'a peer \<Rightarrow> nat \<Rightarrow> 'a inner \<Rightarrow> ('a option \<times> 'a inner) option run" where
  "recv fuel peer me s =
     recv_loop fuel peer 0 (in_spins s)
       (s\<lparr>in_receiver_thread := Some (case in_receiver_thread s of None \<Rightarrow> me | Some t \<Rightarrow> t)\<rparr>)"

subsection \<open>The contract\<close>

datatype 'a queue_op = Push 'a | Pop

text \<open>
  Run operations from a state: what the queue accepted, what it delivered, the final state.
\<close>

fun exec_ops ::
    "('a \<Rightarrow> 's \<Rightarrow> (('a try_send_error + unit) \<times> 's) run) \<Rightarrow> ('s \<Rightarrow> ((try_recv_error + 'a) \<times> 's) run)
     \<Rightarrow> 'a queue_op list \<Rightarrow> 's \<Rightarrow> ('a list \<times> 'a list \<times> 's) run" where
  "exec_ops push pop [] s = Ret ([], [], s)"
| "exec_ops push pop (Push v # ops) s = bind_run (push v s) (\<lambda>(r, s').
     bind_run (exec_ops push pop ops s') (\<lambda>(acc, del, s'').
       Ret ((case r of Inr _ \<Rightarrow> v # acc | Inl _ \<Rightarrow> acc), del, s'')))"
| "exec_ops push pop (Pop # ops) s = bind_run (pop s) (\<lambda>(r, s').
     bind_run (exec_ops push pop ops s') (\<lambda>(acc, del, s'').
       Ret (acc, (case r of Inr v \<Rightarrow> v # del | Inl _ \<Rightarrow> del), s'')))"

locale bounded_fifo =
  fixes wf :: "'s \<Rightarrow> bool"
    and contents :: "'s \<Rightarrow> 'a list"
    and cap :: "'s \<Rightarrow> nat"
    and refusing :: "'s \<Rightarrow> bool"
    and ended :: "'s \<Rightarrow> bool"
    and push :: "'a \<Rightarrow> 's \<Rightarrow> (('a try_send_error + unit) \<times> 's) run"
    and pop :: "'s \<Rightarrow> ((try_recv_error + 'a) \<times> 's) run"
  assumes bound: "wf s \<Longrightarrow> length (contents s) \<le> cap s"
    and push_closed: "wf s \<Longrightarrow> refusing s \<Longrightarrow> push v s = Ret (Inl (Send_Closed v), s)"
    and push_full: "wf s \<Longrightarrow> \<not> refusing s \<Longrightarrow> length (contents s) = cap s \<Longrightarrow>
          push v s = Ret (Inl (Send_Full v), s)"
    and push_ok: "wf s \<Longrightarrow> \<not> refusing s \<Longrightarrow> length (contents s) < cap s \<Longrightarrow>
          \<exists>s'. push v s = Ret (Inr (), s') \<and> wf s' \<and> contents s' = contents s @ [v] \<and>
               cap s' = cap s \<and> refusing s' = refusing s \<and> ended s' = ended s"
    and pop_empty: "wf s \<Longrightarrow> contents s = [] \<Longrightarrow>
          pop s = Ret (Inl (if ended s then Recv_Closed else Recv_Empty), s)"
    and pop_ok: "wf s \<Longrightarrow> contents s = v # vs \<Longrightarrow>
          \<exists>s'. pop s = Ret (Inr v, s') \<and> wf s' \<and> contents s' = vs \<and>
               cap s' = cap s \<and> refusing s' = refusing s \<and> ended s' = ended s"
begin

lemma push_cases:
  assumes "wf s"
  obtains (closed) "refusing s" "push v s = Ret (Inl (Send_Closed v), s)"
    | (full) "\<not> refusing s" "length (contents s) = cap s" "push v s = Ret (Inl (Send_Full v), s)"
    | (ok) s' where "\<not> refusing s" "length (contents s) < cap s" "push v s = Ret (Inr (), s')" "wf s'"
        "contents s' = contents s @ [v]" "cap s' = cap s"
proof (cases "refusing s")
  case True
  then show ?thesis using closed push_closed [OF assms] by blast
next
  case False
  then consider "length (contents s) = cap s" | "length (contents s) < cap s"
    using bound [OF assms] by linarith
  then show ?thesis using full ok push_full [OF assms False] push_ok [OF assms False] False by cases blast+
qed

lemma pop_cases:
  assumes "wf s"
  obtains (empty) "contents s = []" "pop s = Ret (Inl (if ended s then Recv_Closed else Recv_Empty), s)"
    | (ok) v s' where "contents s = v # contents s'" "pop s = Ret (Inr v, s')" "wf s'" "cap s' = cap s"
proof (cases "contents s")
  case Nil
  then show ?thesis using empty pop_empty [OF assms] by blast
next
  case (Cons v vs)
  then show ?thesis using ok pop_ok [OF assms Cons] by blast
qed

text \<open>First in, first out, nothing lost, nothing duplicated, for every sequence of calls.\<close>

lemma exec_fifo:
  assumes "wf s"
  shows "\<exists>acc del s'. exec_ops push pop ops s = Ret (acc, del, s') \<and> wf s' \<and>
    contents s @ acc = del @ contents s' \<and> length (contents s') \<le> cap s'"
  using assms
proof (induction ops arbitrary: s)
  case Nil
  then show ?case by (simp add: bound)
next
  case (Cons op ops)
  show ?case
  proof (cases op)
    case (Push v)
    from Cons.prems show ?thesis
    proof (cases rule: push_cases [where v = v])
      case (ok s')
      then show ?thesis using Cons.IH [OF ok(4)] Push by fastforce
    qed (use Cons.IH [OF Cons.prems] Push in auto)
  next
    case Pop
    from Cons.prems show ?thesis
    proof (cases rule: pop_cases)
      case (ok v s')
      then show ?thesis using Cons.IH [OF ok(3)] Pop by fastforce
    qed (use Cons.IH [OF Cons.prems] Pop in auto)
  qed
qed

text \<open>After the producer ended, receiving drains what is left and then reports the end.\<close>

lemma exec_drain:
  assumes "wf s"
  shows "\<exists>s'. exec_ops push pop (replicate (length (contents s)) Pop) s = Ret ([], contents s, s') \<and>
    wf s' \<and> ended s' = ended s \<and> pop s' = Ret (Inl (if ended s then Recv_Closed else Recv_Empty), s')"
  using assms
proof (induction "contents s" arbitrary: s)
  case Nil
  then show ?case using pop_empty [of s] by (auto simp: Nil(1) [symmetric])
next
  case (Cons v vs)
  from pop_ok [OF Cons.prems Cons(2) [symmetric]] obtain s' where
    s': "pop s = Ret (Inr v, s')" "wf s'" "contents s' = vs" "ended s' = ended s" by blast
  from Cons(1) [of s'] s' show ?case by (auto simp: Cons(2) [symmetric])
qed

end

subsection \<open>The ring\<close>

text \<open>
  \<open>holds s i xs\<close>: the counters stand at \<open>i\<close> and \<open>i + length xs\<close>, reduced to 64 bits, and the
  slots hold exactly \<open>xs\<close>, from slot \<open>i mod capacity\<close> on.
\<close>

definition ring :: "'a inner \<Rightarrow> bool" where
  "ring s \<longleftrightarrow> (\<exists>k \<le> 63. length (in_slots s) = 2 ^ k \<and> in_mask s = 2 ^ k - 1)"

definition holds :: "'a inner \<Rightarrow> nat \<Rightarrow> 'a list \<Rightarrow> bool" where
  "holds s i xs \<longleftrightarrow> ring s \<and> in_head s = of_nat i \<and> in_tail s = of_nat (i + length xs) \<and>
     length xs \<le> length (in_slots s) \<and>
     (\<forall>j < length (in_slots s). in_slots s ! ((i + j) mod length (in_slots s)) =
        (if j < length xs then Some (xs ! j) else None))"

definition queue_contents :: "'a inner \<Rightarrow> 'a list" where
  "queue_contents s =
     map (\<lambda>j. the (in_slots s ! ((unat (in_head s) + j) mod length (in_slots s))))
       [0..<unat (in_tail s - in_head s)]"

definition wf_inner :: "'a inner \<Rightarrow> bool" where
  "wf_inner s \<longleftrightarrow> holds s (unat (in_head s)) (queue_contents s)"

lemma ring_size:
  assumes "ring s" shows "0 < length (in_slots s)" "length (in_slots s) < 2 ^ 64"
    "length (in_slots s) dvd 2 ^ 64"
proof -
  obtain k where k: "k \<le> 63" "length (in_slots s) = 2 ^ k" using assms by (auto simp: ring_def)
  then show "0 < length (in_slots s)" "length (in_slots s) < 2 ^ 64" "length (in_slots s) dvd 2 ^ 64"
    by (simp_all add: le_imp_power_dvd del: power_numeral)
qed

lemma slot_index_of_nat:
  assumes "ring s" shows "slot_index s (of_nat i) = i mod length (in_slots s)"
proof -
  obtain k where k: "k \<le> 63" "length (in_slots s) = 2 ^ k" "in_mask s = 2 ^ k - 1"
    using assms by (auto simp: ring_def)
  have "slot_index s (of_nat i) = unat (take_bit k (of_nat i :: 64 word))"
    by (simp add: slot_index_def k take_bit_eq_mask mask_eq_decr_exp)
  also have "\<dots> = take_bit k (take_bit LENGTH(64) i)"
    by (simp only: unsigned_take_bit_eq unsigned_of_nat of_nat_id)
  also have "\<dots> = take_bit k i" using k(1) unfolding take_bit_take_bit by (simp add: min_def)
  finally show ?thesis using k by (simp add: take_bit_eq_mod)
qed

lemma of_nat_diff_word:
  "n < 2 ^ 64 \<Longrightarrow> unat ((of_nat (i + n) :: 64 word) - of_nat i) = n"
  by (simp add: unat_of_nat)

lemma mod_shift: "n dvd m \<Longrightarrow> (i mod m + j) mod n = (i + j) mod (n::nat)"
  by (metis mod_add_left_eq mod_mod_cancel)

lemma head_index:
  assumes "ring s" "in_head s = of_nat i"
  shows "(unat (in_head s) + j) mod length (in_slots s) = (i + j) mod length (in_slots s)"
  using mod_shift [OF ring_size(3) [OF assms(1)]] assms(2) by (simp add: unat_of_nat take_bit_eq_mod)

lemma queue_contents_holds:
  assumes "holds s i xs" shows "queue_contents s = xs"
proof -
  have r: "ring s" and h: "in_head s = of_nat i" and t: "in_tail s = of_nat (i + length xs)"
    and le: "length xs \<le> length (in_slots s)" using assms by (auto simp: holds_def)
  have len: "unat (in_tail s - in_head s) = length xs"
    unfolding h t using le ring_size(2) [OF r] by (intro of_nat_diff_word) simp
  have "the (in_slots s ! ((unat (in_head s) + j) mod length (in_slots s))) = xs ! j"
    if "j < length xs" for j
    unfolding head_index [OF r h] using assms that le by (simp add: holds_def)
  then show ?thesis unfolding queue_contents_def len
    by (intro nth_equalityI) auto
qed

lemma holds_wf:
  assumes "holds s i xs" shows "wf_inner s"
proof -
  have r: "ring s" and h: "in_head s = of_nat i" using assms by (auto simp: holds_def)
  have "in_tail s = of_nat (unat (in_head s) + length xs)"
    using assms by (simp add: holds_def)
  with assms show ?thesis
    unfolding wf_inner_def queue_contents_holds [OF assms] holds_def head_index [OF r h] by auto
qed

lemma wf_inner_holds: "wf_inner s \<longleftrightarrow> (\<exists>i xs. holds s i xs)"
  using holds_wf by (auto simp: wf_inner_def)

text \<open>The slot of the next element is inside the ring and different from the used ones.\<close>

lemma mod_add_inj:
  assumes "j < n" "k < n"
  shows "((i + j) mod n = (i + k) mod (n::nat)) \<longleftrightarrow> j = k"
proof
  assume "(i + j) mod n = (i + k) mod n"
  then obtain q1 q2 where "i + j + n * q1 = i + k + n * q2" by (auto simp: nat_mod_eq_iff)
  then have "j mod n = k mod n" by (simp add: nat_mod_eq_iff) (metis add.assoc add_left_cancel)
  then show "j = k" using assms by simp
qed simp

lemma holds_push:
  assumes h: "holds s i xs" and room: "length xs < length (in_slots s)"
    and s': "in_slots s' = (in_slots s)[(i + length xs) mod length (in_slots s) := Some v]"
    "in_mask s' = in_mask s" "in_head s' = in_head s" "in_tail s' = in_tail s + 1"
  shows "holds s' i (xs @ [v])"
  using h room unfolding holds_def ring_def s'
  by (auto simp: nth_list_update mod_add_inj nth_append less_Suc_eq)

lemma holds_pop:
  assumes h: "holds s i (v # xs)"
    and s': "in_slots s' = (in_slots s)[i mod length (in_slots s) := None]"
    "in_mask s' = in_mask s" "in_head s' = in_head s + 1" "in_tail s' = in_tail s"
  shows "holds s' (Suc i) xs"
proof -
  let ?n = "length (in_slots s)"
  have "(in_slots s)[i mod ?n := None] ! ((Suc i + j) mod ?n) =
      (if j < length xs then Some (xs ! j) else None)" if j: "j < ?n" for j
  proof (cases "Suc j = ?n")
    case True
    then have "(Suc i + j) mod ?n = i mod ?n" by (metis add_Suc_shift mod_add_self2)
    moreover have "i mod ?n < ?n" using j by (cases "in_slots s") simp_all
    ultimately show ?thesis using h j True by (simp add: holds_def)
  next
    case False
    then have "Suc j < ?n" using j by simp
    then have "in_slots s ! ((i + Suc j) mod ?n) = (if j < length xs then Some (xs ! j) else None)"
      and "(i + Suc j) mod ?n \<noteq> i mod ?n"
      using h mod_add_inj [of "Suc j" ?n 0 i] by (auto simp: holds_def simp del: add_Suc_right length_greater_0_conv)
    then show ?thesis by simp
  qed
  with h show ?thesis unfolding holds_def ring_def s' by auto
qed

lemma unpark_fields [simp]:
  "in_slots (unpark_receiver s) = in_slots s" "in_slots (unpark_sender s) = in_slots s"
  "in_mask (unpark_receiver s) = in_mask s" "in_mask (unpark_sender s) = in_mask s"
  "in_head (unpark_receiver s) = in_head s" "in_head (unpark_sender s) = in_head s"
  "in_tail (unpark_receiver s) = in_tail s" "in_tail (unpark_sender s) = in_tail s"
  "in_sender_closed (unpark_receiver s) = in_sender_closed s"
  "in_sender_closed (unpark_sender s) = in_sender_closed s"
  "in_receiver_closed (unpark_receiver s) = in_receiver_closed s"
  "in_receiver_closed (unpark_sender s) = in_receiver_closed s"
  "in_spins (unpark_receiver s) = in_spins s" "in_spins (unpark_sender s) = in_spins s"
  by (simp_all add: unpark_receiver_def unpark_sender_def split: option.splits)

lemma holds_same_fields:
  assumes "holds s i xs" "in_slots s' = in_slots s" "in_mask s' = in_mask s" "in_head s' = in_head s"
    "in_tail s' = in_tail s"
  shows "holds s' i xs"
  using assms by (simp add: holds_def ring_def)

lemma holds_len:
  assumes "holds s i xs"
  shows "in_tail s - in_head s = of_nat (length xs)" "length xs < 2 ^ 64"
  using assms ring_size(2) [of s] by (auto simp: holds_def)

lemma word_len_eq:
  assumes "holds s i xs"
  shows "in_tail s - in_head s = of_nat (queue_capacity s) \<longleftrightarrow> length xs = queue_capacity s"
    and "in_head s = in_tail s \<longleftrightarrow> xs = []"
proof -
  have n: "length (in_slots s) < 2 ^ 64" using assms ring_size(2) by (auto simp: holds_def)
  have inj: "(of_nat a :: 64 word) = of_nat b \<longleftrightarrow> a = b" if "a < 2 ^ 64" "b < 2 ^ 64" for a b
    using that by (auto simp: word_of_nat_eq_iff take_bit_nat_eq_self)
  show "in_tail s - in_head s = of_nat (queue_capacity s) \<longleftrightarrow> length xs = queue_capacity s"
    unfolding holds_len(1) [OF assms] queue_capacity_def using inj holds_len(2) [OF assms] n by blast
  have "in_head s = in_tail s \<longleftrightarrow> in_tail s - in_head s = of_nat 0" by auto
  then show "in_head s = in_tail s \<longleftrightarrow> xs = []"
    unfolding holds_len(1) [OF assms] using inj holds_len(2) [OF assms] by (metis length_0_conv zero_less_numeral zero_less_power)
qed

lemma try_send_cases:
  assumes h: "holds s i xs"
  shows "sender_is_closed s \<Longrightarrow> try_send v s = Ret (Inl (Send_Closed v), s)"
    and "\<not> sender_is_closed s \<Longrightarrow> length xs = queue_capacity s \<Longrightarrow> try_send v s = Ret (Inl (Send_Full v), s)"
    and "\<not> sender_is_closed s \<Longrightarrow> length xs < queue_capacity s \<Longrightarrow>
      \<exists>s'. try_send v s = Ret (Inr (), s') \<and> holds s' i (xs @ [v]) \<and> queue_capacity s' = queue_capacity s \<and>
        sender_is_closed s' = sender_is_closed s \<and> in_sender_closed s' = in_sender_closed s"
proof -
  note full = word_len_eq(1) [OF h]
  show "try_send v s = Ret (Inl (Send_Closed v), s)" if "sender_is_closed s"
    using that by (auto simp: try_send_def sender_is_closed_def)
  show "try_send v s = Ret (Inl (Send_Full v), s)"
    if "\<not> sender_is_closed s" "length xs = queue_capacity s"
    using that full by (simp add: try_send_def sender_is_closed_def Let_def)
  assume o: "\<not> sender_is_closed s" and room: "length xs < queue_capacity s"
  have r: "ring s" using h by (simp add: holds_def)
  have idx: "slot_index s (in_tail s) = (i + length xs) mod length (in_slots s)"
    using h slot_index_of_nat [OF r, of "i + length xs"] by (simp add: holds_def)
  have lt: "slot_index s (in_tail s) < length (in_slots s)"
    unfolding idx using ring_size(1) [OF r] by simp
  let ?s = "unpark_receiver (s\<lparr>in_slots := (in_slots s)[slot_index s (in_tail s) := Some v],
    in_tail := in_tail s + 1\<rparr>)"
  have "try_send v s = Ret (Inr (), ?s)"
    using o room full lt by (simp add: try_send_def sender_is_closed_def Let_def)
  moreover have "holds ?s i (xs @ [v])"
    using room by (intro holds_push [OF h]) (simp_all add: idx queue_capacity_def)
  ultimately show "\<exists>s'. try_send v s = Ret (Inr (), s') \<and> holds s' i (xs @ [v]) \<and>
      queue_capacity s' = queue_capacity s \<and> sender_is_closed s' = sender_is_closed s \<and>
      in_sender_closed s' = in_sender_closed s"
    by (intro exI [of _ ?s]) (simp add: queue_capacity_def sender_is_closed_def)
qed

lemma try_recv_cases:
  assumes h: "holds s i xs"
  shows "xs = [] \<Longrightarrow> try_recv s = Ret (Inl (if in_sender_closed s then Recv_Closed else Recv_Empty), s)"
    and "xs = v # vs \<Longrightarrow>
      \<exists>s'. try_recv s = Ret (Inr v, s') \<and> holds s' (Suc i) vs \<and> queue_capacity s' = queue_capacity s \<and>
        sender_is_closed s' = sender_is_closed s \<and> in_sender_closed s' = in_sender_closed s"
proof -
  note mt = word_len_eq(2) [OF h]
  show "try_recv s = Ret (Inl (if in_sender_closed s then Recv_Closed else Recv_Empty), s)" if "xs = []"
    using that mt by (simp add: try_recv_def Let_def)
  assume xs: "xs = v # vs"
  have r: "ring s" using h by (simp add: holds_def)
  have idx: "slot_index s (in_head s) = i mod length (in_slots s)"
    using h slot_index_of_nat [OF r] by (simp add: holds_def)
  have lt: "slot_index s (in_head s) < length (in_slots s)"
    unfolding idx using ring_size(1) [OF r] by simp
  have val: "in_slots s ! slot_index s (in_head s) = Some v"
    unfolding idx using h xs ring_size(1) [OF r] by (auto simp: holds_def dest: spec [of _ 0])
  let ?s = "unpark_sender (s\<lparr>in_slots := (in_slots s)[slot_index s (in_head s) := None],
    in_head := in_head s + 1\<rparr>)"
  have "try_recv s = Ret (Inr v, ?s)"
    using xs mt lt val by (simp add: try_recv_def Let_def)
  moreover have "holds ?s (Suc i) vs"
    using h by (intro holds_pop [of s i v]) (simp_all add: idx xs)
  ultimately show "\<exists>s'. try_recv s = Ret (Inr v, s') \<and> holds s' (Suc i) vs \<and>
      queue_capacity s' = queue_capacity s \<and> sender_is_closed s' = sender_is_closed s \<and>
      in_sender_closed s' = in_sender_closed s"
    by (intro exI [of _ ?s]) (simp add: queue_capacity_def sender_is_closed_def)
qed

interpretation spsc: bounded_fifo wf_inner queue_contents queue_capacity sender_is_closed in_sender_closed
  try_send try_recv
proof unfold_locales
  fix s :: "'a inner" and v :: 'a and vs :: "'a list"
  assume wf: "wf_inner s"
  then obtain i where h: "holds s i (queue_contents s)" by (auto simp: wf_inner_def)
  show "length (queue_contents s) \<le> queue_capacity s" using h by (simp add: holds_def queue_capacity_def)
  show "sender_is_closed s \<Longrightarrow> try_send v s = Ret (Inl (Send_Closed v), s)"
    by (rule try_send_cases(1) [OF h])
  show "\<not> sender_is_closed s \<Longrightarrow> length (queue_contents s) = queue_capacity s \<Longrightarrow>
      try_send v s = Ret (Inl (Send_Full v), s)"
    by (rule try_send_cases(2) [OF h])
  show "\<not> sender_is_closed s \<Longrightarrow> length (queue_contents s) < queue_capacity s \<Longrightarrow>
      \<exists>s'. try_send v s = Ret (Inr (), s') \<and> wf_inner s' \<and> queue_contents s' = queue_contents s @ [v] \<and>
        queue_capacity s' = queue_capacity s \<and> sender_is_closed s' = sender_is_closed s \<and>
        in_sender_closed s' = in_sender_closed s"
    using try_send_cases(3) [OF h, of v] queue_contents_holds holds_wf by blast
  show "queue_contents s = [] \<Longrightarrow>
      try_recv s = Ret (Inl (if in_sender_closed s then Recv_Closed else Recv_Empty), s)"
    by (rule try_recv_cases(1) [OF h])
  show "queue_contents s = v # vs \<Longrightarrow>
      \<exists>s'. try_recv s = Ret (Inr v, s') \<and> wf_inner s' \<and> queue_contents s' = vs \<and>
        queue_capacity s' = queue_capacity s \<and> sender_is_closed s' = sender_is_closed s \<and>
        in_sender_closed s' = in_sender_closed s"
    using try_recv_cases(2) [OF h, of v vs] queue_contents_holds holds_wf by blast
qed

subsection \<open>Construction and destruction\<close>

lemma next_power_of_two:
  assumes "0 < n" "n \<le> 2 ^ 63"
  obtains k where "k \<le> 63" "checked_next_power_of_two n = Some (2 ^ k)" "n \<le> 2 ^ k" "2 ^ k < 2 * n"
proof (cases "n \<le> 1")
  case True
  with assms have "n = 1" by simp
  then show ?thesis using that [of 0] by (simp add: checked_next_power_of_two_def)
next
  case False
  define m where "m = n - 1"
  have m: "0 < m" "n = Suc m" using False by (simp_all add: m_def)
  define k where "k = floorlog 2 m"
  have b: "2 ^ (k - 1) \<le> m" "m < 2 ^ k" using floorlog_bounds [of m 2] m(1) by (auto simp: k_def)
  have "0 < k" using b m(1) by (cases k) auto
  then have "(2::nat) ^ k = 2 * 2 ^ (k - 1)" by (cases k) simp_all
  then have lt: "2 ^ k < 2 * n" using b m(2) by simp
  have "(2::nat) ^ (k - 1) < 2 ^ 63" using b(1) assms(2) m(2) by simp
  then have k63: "k \<le> 63" by (simp add: power_strict_increasing_iff del: power_numeral)
  then have "(2::nat) ^ k \<le> 2 ^ 63" by (intro power_increasing) simp_all
  then have "checked_next_power_of_two n = Some (2 ^ k)"
    unfolding checked_next_power_of_two_def Let_def m_def [symmetric] k_def [symmetric]
    using False by simp
  then show ?thesis using that [OF k63] b m lt by simp
qed

lemma inner_new_holds:
  assumes "0 < n" "n \<le> 2 ^ 63"
  shows "\<exists>s. inner_new n spins = Ret s \<and> holds s 0 [] \<and> n \<le> queue_capacity s \<and>
    queue_capacity s < 2 * n \<and> \<not> sender_is_closed s \<and> \<not> in_sender_closed s"
proof -
  obtain k where k: "k \<le> 63" "checked_next_power_of_two n = Some (2 ^ k)" "n \<le> 2 ^ k" "2 ^ k < 2 * n"
    using next_power_of_two [OF assms] .
  have "word_of_nat (2 ^ k - 1) = (2 ^ k - 1 :: 64 word)" by (simp add: of_nat_diff)
  then show ?thesis
    using k assms(1) by (auto simp: inner_new_def holds_def ring_def queue_capacity_def sender_is_closed_def)
qed

lemma inner_new_Ret:
  assumes "inner_new n spins = Ret s" shows "holds s 0 []"
proof -
  obtain c where c: "0 < n" "checked_next_power_of_two n = Some c"
    and s: "in_slots s = replicate c None" "in_mask s = of_nat (c - 1)" "in_head s = 0" "in_tail s = 0"
    using assms by (auto simp: inner_new_def split: if_splits option.splits)
  obtain k where k: "c = 2 ^ k" "(2::nat) ^ k < 2 ^ 64"
    using c(2) by (fastforce simp: checked_next_power_of_two_def Let_def split: if_splits intro: that [of 0])
  then have "k \<le> 63" by (simp add: power_strict_increasing_iff del: power_numeral)
  moreover have "word_of_nat (2 ^ k - 1) = (2 ^ k - 1 :: 64 word)" by (simp add: of_nat_diff)
  ultimately show ?thesis using s k by (auto simp: holds_def ring_def)
qed

lemma holds_head_small:
  assumes "holds s i xs" shows "holds s (unat (in_head s)) xs"
  using holds_wf [OF assms] by (simp add: wf_inner_def queue_contents_holds [OF assms])

lemma drop_range_eq:
  assumes h: "holds s i xs" and "k + n \<le> length xs"
  shows "drop_range s [i + k..<i + k + n] = Ret (take n (drop k xs))"
  using assms(2)
proof (induction n arbitrary: k)
  case 0
  then show ?case by simp
next
  case (Suc n)
  have r: "ring s" and le: "length xs \<le> length (in_slots s)" using h by (auto simp: holds_def)
  have idx: "slot_index s (of_nat (i + k)) = (i + k) mod length (in_slots s)"
    by (rule slot_index_of_nat [OF r])
  have lt: "(i + k) mod length (in_slots s) < length (in_slots s)" using ring_size(1) [OF r] by simp
  have val: "in_slots s ! ((i + k) mod length (in_slots s)) = Some (xs ! k)"
    using h Suc.prems le by (simp add: holds_def)
  have "[i + k..<i + k + Suc n] = (i + k) # [i + Suc k..<i + Suc k + n]"
    by (simp add: upt_conv_Cons)
  moreover have "take (Suc n) (drop k xs) = xs ! k # take n (drop (Suc k) xs)"
    using Suc.prems by (simp add: Cons_nth_drop_Suc [symmetric])
  ultimately show ?case
    using Suc.IH [of "Suc k"] Suc.prems idx lt val by (simp del: of_nat_add upt_Suc)
qed

lemma inner_drop_eq:
  assumes h: "holds s i xs"
  shows "inner_drop s = Ret (if unat (in_head s) \<le> unat (in_tail s) then xs else [])"
proof (cases "unat (in_head s) \<le> unat (in_tail s)")
  case True
  have "unat (in_tail s) - unat (in_head s) = unat (in_tail s - in_head s)"
    using True by (simp add: unat_sub word_le_nat_alt)
  also have "\<dots> = length xs" unfolding holds_len(1) [OF h] using holds_len(2) [OF h]
    by (simp add: unat_of_nat take_bit_nat_eq_self)
  finally have "unat (in_tail s) = unat (in_head s) + length xs" using True by simp
  then show ?thesis
    using drop_range_eq [OF holds_head_small [OF h], of 0 "length xs"] by (simp add: inner_drop_def)
next
  case False
  then show ?thesis by (simp add: inner_drop_def)
qed

subsection \<open>The blocking loops\<close>

text \<open>
  A peer that keeps the ring well formed; \<open>makes_room\<close> and \<open>delivers\<close> say that by attempt
  number \<open>n\<close> it has done what the blocked side waits for.
\<close>

definition good_peer :: "'a peer \<Rightarrow> bool" where
  "good_peer peer \<longleftrightarrow> (\<forall>t s. wf_inner s \<longrightarrow> wf_inner (peer t s))"

definition makes_room :: "'a peer \<Rightarrow> nat \<Rightarrow> bool" where
  "makes_room peer n \<longleftrightarrow> (\<forall>s. wf_inner s \<longrightarrow>
     sender_is_closed (peer n s) \<or> length (queue_contents (peer n s)) < queue_capacity (peer n s))"

definition delivers :: "'a peer \<Rightarrow> nat \<Rightarrow> bool" where
  "delivers peer n \<longleftrightarrow> (\<forall>s. wf_inner s \<longrightarrow> in_sender_closed (peer n s) \<or> queue_contents (peer n s) \<noteq> [])"

lemma wf_unpark [simp]: "wf_inner s \<Longrightarrow> wf_inner (unpark_receiver s)"
  unfolding wf_inner_holds by (blast intro: holds_same_fields unpark_fields)

lemma send_loop_returns:
  assumes "good_peer peer" "makes_room peer (t + d)" "wf_inner s" "d < fuel"
  shows "\<exists>r s' q. send_loop fuel peer t left v s = Ret (Some (r, s')) \<and> wf_inner s' \<and>
    (case r of Inr _ \<Rightarrow> queue_contents s' = q @ [v] | Inl e \<Rightarrow> e = SendError v \<and> sender_is_closed s')"
  using assms(2-4)
proof (induction fuel arbitrary: t d left s)
  case 0
  then show ?case by simp
next
  case (Suc fuel)
  have wf: "wf_inner (peer t s)" using assms(1) Suc.prems(2) by (auto simp: good_peer_def)
  show ?case
  proof (cases rule: spsc.push_cases [OF wf, of v])
    case 1
    then show ?thesis using wf by auto
  next
    case 2
    then have "d \<noteq> 0" using Suc.prems(1,2) by (cases d) (auto simp: makes_room_def)
    then obtain d' where "d = Suc d'" by (cases d) auto
    then have "\<exists>r s' q. send_loop fuel peer (Suc t) left' v s'' = Ret (Some (r, s')) \<and> wf_inner s' \<and>
      (case r of Inr _ \<Rightarrow> queue_contents s' = q @ [v] | Inl e \<Rightarrow> e = SendError v \<and> sender_is_closed s')"
      if "wf_inner s''" for left' s''
      using Suc.IH [of "Suc t" d' s''] Suc.prems that by simp
    then show ?thesis using 2 wf by (cases left) simp_all
  next
    case (3 s')
    then show ?thesis by auto
  qed
qed

lemma recv_loop_returns:
  assumes "good_peer peer" "delivers peer (t + d)" "wf_inner s" "d < fuel"
  shows "\<exists>r s'. recv_loop fuel peer t left s = Ret (Some (r, s')) \<and> wf_inner s' \<and>
    (r = None \<longrightarrow> in_sender_closed s' \<and> queue_contents s' = [])"
  using assms(2-4)
proof (induction fuel arbitrary: t d left s)
  case 0
  then show ?case by simp
next
  case (Suc fuel)
  have wf: "wf_inner (peer t s)" using assms(1) Suc.prems(2) by (auto simp: good_peer_def)
  show ?case
  proof (cases rule: spsc.pop_cases [OF wf])
    case 1
    show ?thesis
    proof (cases "in_sender_closed (peer t s)")
      case True
      then show ?thesis using 1 wf by auto
    next
      case False
      then have "d \<noteq> 0" using Suc.prems(1,2) 1 by (cases d) (auto simp: delivers_def)
      then obtain d' where d: "d = Suc d'" by (cases d) auto
      show ?thesis using Suc.IH [of "Suc t" d' "peer t s"] Suc.prems d wf 1 False by (cases left) simp_all
    qed
  next
    case (2 v s')
    then show ?thesis by auto
  qed
qed

subsection \<open>Properties\<close>



text \<open>
  What each non-blocking call does on every branch: a closed queue hands the value back as
  \<open>Closed\<close>, a full one as \<open>Full\<close>, otherwise the value is appended; receiving takes the oldest
  value, and reports \<open>Closed\<close> or \<open>Empty\<close> only when nothing is queued, by whether the sender has
  closed.
\<close>

theorem spsc_calls:
  assumes "wf_inner s"
  shows "(\<exists>s'. try_send v s =
      Ret (if sender_is_closed s then Inl (Send_Closed v)
           else if length (queue_contents s) = queue_capacity s then Inl (Send_Full v) else Inr (), s') \<and>
      wf_inner s' \<and> queue_contents s' =
        (if sender_is_closed s \<or> length (queue_contents s) = queue_capacity s then queue_contents s
         else queue_contents s @ [v])) \<and>
    (\<exists>s'. try_recv s =
      Ret (case queue_contents s of [] \<Rightarrow> Inl (if in_sender_closed s then Recv_Closed else Recv_Empty)
           | x # _ \<Rightarrow> Inr x, s') \<and> wf_inner s' \<and> queue_contents s' = tl (queue_contents s))"
  (is "?send \<and> ?recv")
proof
  show ?send using assms by (cases rule: spsc.push_cases [OF assms, of v]) auto
  show ?recv using assms by (cases rule: spsc.pop_cases [OF assms]) auto
qed

lemma example_queue:
  "\<exists>s :: nat inner. inner_new 1 0 = Ret s \<and> wf_inner s \<and> queue_contents s = [] \<and> queue_capacity s = 1 \<and>
     \<not> sender_is_closed s \<and> \<not> in_sender_closed s"
  using inner_new_holds [of 1 0] holds_wf queue_contents_holds by fastforce

theorem spsc_calls_witness:
  "\<exists>s s' :: nat inner. inner_new 1 0 = Ret s \<and> try_send 5 s = Ret (Inr (), s') \<and> queue_contents s' = [5] \<and>
     try_recv s = Ret (Inl Recv_Empty, s)"
proof -
  obtain s :: "nat inner" where s: "inner_new 1 0 = Ret s" "wf_inner s" "queue_contents s = []"
    "queue_capacity s = 1" "\<not> sender_is_closed s" "\<not> in_sender_closed s"
    using example_queue by blast
  from spsc_calls [OF s(2), of 5] spsc.pop_empty [OF s(2)] s show ?thesis by auto
qed

text \<open>
  A blocked \<open>send\<close> returns once the receiving side has made room or closed, whatever the
  spin budget is: with more attempts than that point in time it is done, the value is the newest
  in the queue, or it is handed back with the queue closed.
\<close>

theorem send_returns:
  assumes "good_peer peer" "makes_room peer n" "wf_inner s" "n < fuel"
  shows "\<exists>r s' q. send fuel peer me v s = Ret (Some (r, s')) \<and> wf_inner s' \<and>
    (case r of Inr _ \<Rightarrow> queue_contents s' = q @ [v] | Inl e \<Rightarrow> e = SendError v \<and> sender_is_closed s')"
proof -
  let ?s = "s\<lparr>in_sender_thread := Some (case in_sender_thread s of None \<Rightarrow> me | Some t \<Rightarrow> t)\<rparr>"
  have "wf_inner ?s"
    using assms(3) unfolding wf_inner_holds by (force intro: holds_same_fields)
  then show ?thesis
    unfolding send_def using send_loop_returns [of peer 0 n ?s fuel "in_spins s" v] assms by simp
qed

text \<open>A receiver that takes one value before every attempt.\<close>

definition draining_peer :: "'a peer" where
  "draining_peer t s = (case try_recv s of Ret (_, s') \<Rightarrow> s' | Panic \<Rightarrow> s)"

lemma draining_peer_good: "good_peer draining_peer"
  unfolding good_peer_def
proof (intro allI impI)
  fix t and s :: "'a inner" assume wf: "wf_inner s"
  show "wf_inner (draining_peer t s)"
    using wf by (cases rule: spsc.pop_cases [OF wf]) (simp_all add: draining_peer_def)
qed

lemma capacity_pos: "wf_inner s \<Longrightarrow> 0 < queue_capacity s"
  using ring_size(1) [of s] by (simp add: wf_inner_def holds_def queue_capacity_def)

lemma draining_peer_room: "makes_room draining_peer n"
  unfolding makes_room_def
proof (intro allI impI)
  fix s :: "'a inner" assume wf: "wf_inner s"
  then show "sender_is_closed (draining_peer n s) \<or>
      length (queue_contents (draining_peer n s)) < queue_capacity (draining_peer n s)"
  proof (cases rule: spsc.pop_cases [OF wf])
    case 1
    then show ?thesis using capacity_pos [OF wf] by (simp add: draining_peer_def)
  next
    case (2 v s')
    then show ?thesis using spsc.bound [OF wf] by (simp add: draining_peer_def)
  qed
qed

theorem send_returns_witness:
  "\<exists>s s' :: nat inner. \<exists>r. inner_new 1 0 = Ret s \<and> send 1 draining_peer 7 5 s = Ret (Some (r, s')) \<and> wf_inner s'"
proof -
  obtain s :: "nat inner" where s: "inner_new 1 0 = Ret s" "wf_inner s" using example_queue by blast
  from send_returns [OF draining_peer_good draining_peer_room [of 0] s(2), of 1 7 5] s(1) show ?thesis by auto
qed

text \<open>
  A blocked \<open>recv\<close> returns once the sending side has sent or closed; as long as each
  attempt is one uninterrupted call, \<open>None\<close> means that the sender has closed and the queue is
  drained.
\<close>

theorem recv_returns:
  assumes "good_peer peer" "delivers peer n" "wf_inner s" "n < fuel"
  shows "\<exists>r s'. recv fuel peer me s = Ret (Some (r, s')) \<and> wf_inner s' \<and>
    (r = None \<longrightarrow> in_sender_closed s' \<and> queue_contents s' = [])"
proof -
  let ?s = "s\<lparr>in_receiver_thread := Some (case in_receiver_thread s of None \<Rightarrow> me | Some t \<Rightarrow> t)\<rparr>"
  have "wf_inner ?s"
    using assms(3) unfolding wf_inner_holds by (force intro: holds_same_fields)
  then show ?thesis
    unfolding recv_def using recv_loop_returns [of peer 0 n ?s fuel "in_spins s"] assms by simp
qed

definition closing_peer :: "'a peer" where
  "closing_peer t s = sender_close s"

lemma closing_peer_ok: "good_peer closing_peer" "delivers closing_peer n"
  unfolding good_peer_def delivers_def closing_peer_def sender_close_def wf_inner_holds
  by (force intro: holds_same_fields)+

theorem recv_returns_witness:
  "\<exists>s s' :: nat inner. \<exists>r. inner_new 1 0 = Ret s \<and> recv 1 closing_peer 7 s = Ret (Some (r, s')) \<and> wf_inner s'"
proof -
  obtain s :: "nat inner" where s: "inner_new 1 0 = Ret s" "wf_inner s" using example_queue by blast
  from recv_returns [OF closing_peer_ok(1) closing_peer_ok(2) [of 0] s(2), of 1 7] s(1) show ?thesis by auto
qed

text \<open>
  Dropping the queue drops exactly the values that are still queued, each once and in
  order, as long as the tail counter has not wrapped past the head counter; when it has, the
  range of the loop is empty and the queued values are leaked, never dropped twice.
\<close>

theorem drop_drains:
  assumes "wf_inner s"
  shows "inner_drop s = Ret (if unat (in_head s) \<le> unat (in_tail s) then queue_contents s else [])"
  using assms unfolding wf_inner_def by (rule inner_drop_eq)

theorem drop_drains_witness:
  "\<exists>s s' :: nat inner. inner_new 1 0 = Ret s \<and> try_send 5 s = Ret (Inr (), s') \<and> inner_drop s' = Ret [5]"
proof -
  obtain s :: "nat inner" where s: "inner_new 1 0 = Ret s" "wf_inner s" "queue_contents s = []"
    "queue_capacity s = 1" "\<not> sender_is_closed s"
    using example_queue by blast
  from spsc.push_ok [OF s(2,5), of 5] s obtain s' where
    s': "try_send 5 s = Ret (Inr (), s')" "wf_inner s'" "queue_contents s' = [5]" by auto
  have "in_head s' = 0" "in_tail s' = 1"
    using s s'(1) by (auto simp: inner_new_def try_send_def Let_def result_simps split: option.splits if_splits)
  with drop_drains [OF s'(2)] s' s(1) show ?thesis by auto
qed

end
