(* ===== verification/Spsc_Conc.thy ===== *)
theory Spsc_Conc
  imports Spsc
begin

text \<open>
  The two halves of the queue of st-zrt/src/spsc.rs running concurrently. Every atomic load and
  store and every access to a slot of \<open>try_send\<close>, \<open>try_recv\<close> and the two \<open>close\<close> functions is a
  step of its own, and the steps of the two threads interleave freely (sequentially consistent
  atomics). The program counters hold the local variables of the calls.

  The fields \<open>q_sent\<close> and \<open>q_received\<close> record what has been published and taken, in order, and
  \<open>q_results\<close> the results of \<open>try_recv\<close>; the code has no such fields and no step reads them.
\<close>

subsection \<open>Steps\<close>

datatype 'a sender_pc =
    S_idle
  | S_flags 'a                          \<comment> \<open>\<open>sender_closed\<close> was false\<close>
  | S_tail 'a                           \<comment> \<open>both flags were false\<close>
  | S_head 'a "64 word"                 \<comment> \<open>\<open>tail\<close> loaded\<close>
  | S_write 'a "64 word"                \<comment> \<open>not full\<close>
  | S_publish 'a "64 word"              \<comment> \<open>slot written\<close>

datatype 'a receiver_pc =
    R_idle
  | R_tail "64 word"                    \<comment> \<open>\<open>head\<close> loaded\<close>
  | R_flag                              \<comment> \<open>the queue looked empty\<close>
  | R_read "64 word"                    \<comment> \<open>the queue looked non-empty\<close>
  | R_release "64 word" 'a              \<comment> \<open>slot read\<close>

record 'a queue_state =
  q_inner :: "'a inner"
  q_sender :: "'a sender_pc"
  q_receiver :: "'a receiver_pc"
  q_sent :: "'a list"
  q_received :: "'a list"
  q_results :: "(try_recv_error + 'a) list"

inductive sender_step :: "'a queue_state \<Rightarrow> 'a queue_state \<Rightarrow> bool" where
  send_closed: "q_sender c = S_idle \<Longrightarrow> in_sender_closed (q_inner c) \<Longrightarrow> sender_step c c"
| send_start: "q_sender c = S_idle \<Longrightarrow> \<not> in_sender_closed (q_inner c) \<Longrightarrow>
    sender_step c (c\<lparr>q_sender := S_flags v\<rparr>)"
| send_peer_closed: "q_sender c = S_flags v \<Longrightarrow> in_receiver_closed (q_inner c) \<Longrightarrow>
    sender_step c (c\<lparr>q_sender := S_idle\<rparr>)"
| send_peer_open: "q_sender c = S_flags v \<Longrightarrow> \<not> in_receiver_closed (q_inner c) \<Longrightarrow>
    sender_step c (c\<lparr>q_sender := S_tail v\<rparr>)"
| send_tail: "q_sender c = S_tail v \<Longrightarrow> sender_step c (c\<lparr>q_sender := S_head v (in_tail (q_inner c))\<rparr>)"
| send_full: "q_sender c = S_head v t \<Longrightarrow> t - in_head (q_inner c) = of_nat (queue_capacity (q_inner c)) \<Longrightarrow>
    sender_step c (c\<lparr>q_sender := S_idle\<rparr>)"
| send_room: "q_sender c = S_head v t \<Longrightarrow> t - in_head (q_inner c) \<noteq> of_nat (queue_capacity (q_inner c)) \<Longrightarrow>
    sender_step c (c\<lparr>q_sender := S_write v t\<rparr>)"
| send_write: "q_sender c = S_write v t \<Longrightarrow> i = slot_index (q_inner c) t \<Longrightarrow>
    i < length (in_slots (q_inner c)) \<Longrightarrow>
    sender_step c (c\<lparr>q_sender := S_publish v t,
      q_inner := (q_inner c)\<lparr>in_slots := (in_slots (q_inner c))[i := Some v]\<rparr>\<rparr>)"
| send_publish: "q_sender c = S_publish v t \<Longrightarrow>
    sender_step c (c\<lparr>q_sender := S_idle, q_sent := q_sent c @ [v],
      q_inner := unpark_receiver ((q_inner c)\<lparr>in_tail := t + 1\<rparr>)\<rparr>)"
| send_close: "q_sender c = S_idle \<Longrightarrow> sender_step c (c\<lparr>q_inner := sender_close (q_inner c)\<rparr>)"

inductive receiver_step :: "'a queue_state \<Rightarrow> 'a queue_state \<Rightarrow> bool" where
  recv_head: "q_receiver c = R_idle \<Longrightarrow> receiver_step c (c\<lparr>q_receiver := R_tail (in_head (q_inner c))\<rparr>)"
| recv_empty: "q_receiver c = R_tail h \<Longrightarrow> h = in_tail (q_inner c) \<Longrightarrow>
    receiver_step c (c\<lparr>q_receiver := R_flag\<rparr>)"
| recv_some: "q_receiver c = R_tail h \<Longrightarrow> h \<noteq> in_tail (q_inner c) \<Longrightarrow>
    receiver_step c (c\<lparr>q_receiver := R_read h\<rparr>)"
| recv_flag: "q_receiver c = R_flag \<Longrightarrow>
    receiver_step c (c\<lparr>q_receiver := R_idle, q_results := q_results c @
      [Inl (if in_sender_closed (q_inner c) then Recv_Closed else Recv_Empty)]\<rparr>)"
| recv_read: "q_receiver c = R_read h \<Longrightarrow> i = slot_index (q_inner c) h \<Longrightarrow>
    i < length (in_slots (q_inner c)) \<Longrightarrow> in_slots (q_inner c) ! i = Some v \<Longrightarrow>
    receiver_step c (c\<lparr>q_receiver := R_release h v,
      q_inner := (q_inner c)\<lparr>in_slots := (in_slots (q_inner c))[i := None]\<rparr>\<rparr>)"
| recv_release: "q_receiver c = R_release h v \<Longrightarrow>
    receiver_step c (c\<lparr>q_receiver := R_idle, q_received := q_received c @ [v],
      q_results := q_results c @ [Inr v],
      q_inner := unpark_sender ((q_inner c)\<lparr>in_head := h + 1\<rparr>)\<rparr>)"
| recv_close: "q_receiver c = R_idle \<Longrightarrow> receiver_step c (c\<lparr>q_inner := receiver_close (q_inner c)\<rparr>)"

definition queue_step :: "'a queue_state \<Rightarrow> 'a queue_state \<Rightarrow> bool" where
  "queue_step c c' \<longleftrightarrow> sender_step c c' \<or> receiver_step c c'"

definition queue_init :: "'a queue_state \<Rightarrow> bool" where
  "queue_init c \<longleftrightarrow> (\<exists>n spins. inner_new n spins = Ret (q_inner c)) \<and> q_sender c = S_idle \<and>
     q_receiver c = R_idle \<and> q_sent c = [] \<and> q_received c = [] \<and> q_results c = []"

inductive_cases sender_stepE: "sender_step c c'"
inductive_cases receiver_stepE: "receiver_step c c'"

subsection \<open>Invariant\<close>

text \<open>
  The value a sender has written but not published, and whether the receiver has read a value
  it has not released, extend the window of live slots at either end.
\<close>

definition pending :: "'a queue_state \<Rightarrow> 'a list" where
  "pending c = (case q_sender c of S_publish v _ \<Rightarrow> [v] | _ \<Rightarrow> [])"

definition taken :: "'a queue_state \<Rightarrow> nat" where
  "taken c = (case q_receiver c of R_release _ _ \<Rightarrow> 1 | _ \<Rightarrow> 0)"

definition slots_match :: "'a option list \<Rightarrow> nat \<Rightarrow> nat \<Rightarrow> 'a list \<Rightarrow> bool" where
  "slots_match slots lo r sent \<longleftrightarrow> (\<forall>j < length slots. slots ! ((r + j) mod length slots) =
     (if lo \<le> j \<and> r + j < length sent then Some (sent ! (r + j)) else None))"

definition delivered :: "'a queue_state \<Rightarrow> 'a list" where
  "delivered c = concat (map (case_sum (\<lambda>_. []) (\<lambda>v. [v])) (q_results c))"

definition queue_inv :: "'a queue_state \<Rightarrow> bool" where
  "queue_inv c \<longleftrightarrow>
     (let s = q_inner c; n = length (in_slots s); r = length (q_received c); w = length (q_sent c) in
      ring s \<and> in_head s = of_nat r \<and> in_tail s = of_nat w \<and> r \<le> w \<and> w \<le> r + n \<and>
      q_received c = take r (q_sent c) \<and> delivered c = q_received c \<and>
      slots_match (in_slots s) (taken c) r (q_sent c @ pending c) \<and>
      (case q_sender c of
         S_head _ t \<Rightarrow> t = of_nat w
       | S_write _ t \<Rightarrow> t = of_nat w \<and> w < r + n
       | S_publish _ t \<Rightarrow> t = of_nat w \<and> w < r + n
       | _ \<Rightarrow> True) \<and>
      (case q_receiver c of
         R_tail h \<Rightarrow> h = of_nat r
       | R_read h \<Rightarrow> h = of_nat r \<and> r < w
       | R_release h v \<Rightarrow> h = of_nat r \<and> r < w \<and> v = q_sent c ! r
       | _ \<Rightarrow> True))"

lemma word_window:
  assumes "ring s" "r \<le> w" "w \<le> r + length (in_slots s)"
  shows "(of_nat w - of_nat r = (of_nat (length (in_slots s)) :: 64 word)) \<longleftrightarrow> w = r + length (in_slots s)"
    and "(of_nat r :: 64 word) = of_nat w \<longleftrightarrow> r = w"
proof -
  define d where "d = w - r"
  have d: "w = r + d" "d \<le> length (in_slots s)" "length (in_slots s) < 2 ^ 64"
    using assms ring_size(2) [OF assms(1)] by (simp_all add: d_def)
  have inj: "(of_nat a :: 64 word) = of_nat b \<longleftrightarrow> a = b" if "a < 2 ^ 64" "b < 2 ^ 64" for a b
    using that by (auto simp: word_of_nat_eq_iff take_bit_nat_eq_self)
  have "(of_nat w - of_nat r :: 64 word) = of_nat d" by (simp add: d)
  then show "(of_nat w - of_nat r = (of_nat (length (in_slots s)) :: 64 word)) \<longleftrightarrow> w = r + length (in_slots s)"
    using inj [of d "length (in_slots s)"] d by simp
  have "(of_nat r :: 64 word) = of_nat w \<longleftrightarrow> (of_nat d :: 64 word) = of_nat 0" by (simp add: d)
  then show "(of_nat r :: 64 word) = of_nat w \<longleftrightarrow> r = w" using inj [of d 0] d by simp
qed

lemma slots_match_write:
  assumes m: "slots_match slots lo r xs" and le: "r + lo \<le> length xs" "length xs < r + length slots"
  shows "slots_match (slots[length xs mod length slots := Some v]) lo r (xs @ [v])"
proof -
  define d where "d = length xs - r"
  have d: "length xs = r + d" "d < length slots" "lo \<le> d" using le by (simp_all add: d_def)
  show ?thesis
    unfolding slots_match_def
  proof (intro allI impI)
    fix j assume "j < length (slots[length xs mod length slots := Some v])"
    then have j: "j < length slots" by simp
    then have lt: "(r + j) mod length slots < length slots" by (intro mod_less_divisor) linarith
    have "slots ! ((r + j) mod length slots) =
        (if lo \<le> j \<and> r + j < length xs then Some (xs ! (r + j)) else None)"
      using m j by (simp add: slots_match_def)
    then show "slots[length xs mod length slots := Some v] !
          ((r + j) mod length (slots[length xs mod length slots := Some v])) =
        (if lo \<le> j \<and> r + j < length (xs @ [v]) then Some ((xs @ [v]) ! (r + j)) else None)"
      using d j lt by (auto simp: nth_list_update mod_add_inj nth_append less_Suc_eq)
  qed
qed

lemma slots_match_read:
  assumes "slots_match slots 0 r xs" "0 < length slots"
  shows "slots_match (slots[r mod length slots := None]) 1 r xs"
  unfolding slots_match_def
proof (intro allI impI)
  fix j assume j: "j < length (slots[r mod length slots := None])"
  have "(r + j) mod length slots = r mod length slots \<longleftrightarrow> j = 0"
    using mod_add_inj [of j "length slots" 0 r] j assms(2) by simp
  then show "slots[r mod length slots := None] ! ((r + j) mod length (slots[r mod length slots := None])) =
      (if 1 \<le> j \<and> r + j < length xs then Some (xs ! (r + j)) else None)"
    using assms j by (auto simp: slots_match_def nth_list_update)
qed

lemma slots_match_release:
  assumes m: "slots_match slots 1 r xs" and le: "length xs \<le> r + length slots"
  shows "slots_match slots 0 (Suc r) xs"
  unfolding slots_match_def
proof (intro allI impI)
  fix j assume j: "j < length slots"
  show "slots ! ((Suc r + j) mod length slots) =
      (if 0 \<le> j \<and> Suc r + j < length xs then Some (xs ! (Suc r + j)) else None)"
  proof (cases "Suc j = length slots")
    case True
    then have "(Suc r + j) mod length slots = r mod length slots" by (metis add_Suc_shift mod_add_self2)
    moreover have "slots ! ((r + 0) mod length slots) = None"
      using m j unfolding slots_match_def by (metis gr_implies_not0 not_gr0 not_one_le_zero)
    ultimately show ?thesis using le True by simp
  next
    case False
    then have "Suc j < length slots" using j by simp
    then have "slots ! ((r + Suc j) mod length slots) =
        (if 1 \<le> Suc j \<and> r + Suc j < length xs then Some (xs ! (r + Suc j)) else None)"
      using m unfolding slots_match_def by blast
    then show ?thesis by simp
  qed
qed

lemma queue_init_inv:
  assumes "queue_init c" shows "queue_inv c"
proof -
  obtain n spins where new: "inner_new n spins = Ret (q_inner c)"
    and c: "q_sender c = S_idle" "q_receiver c = R_idle" "q_sent c = []" "q_received c = []"
      "q_results c = []"
    using assms by (auto simp: queue_init_def)
  have h: "holds (q_inner c) 0 []" by (rule inner_new_Ret [OF new])
  then show ?thesis
    by (simp add: queue_inv_def Let_def c taken_def pending_def delivered_def slots_match_def holds_def)
qed

lemma sender_step_inv:
  assumes "queue_inv c" "sender_step c c'" shows "queue_inv c'"
  using assms(2)
proof (cases rule: sender_step.cases)
  case (send_room v t)
  then show ?thesis
    using assms(1) word_window(1) [of "q_inner c" "length (q_received c)" "length (q_sent c)"]
    by (auto simp: queue_inv_def Let_def pending_def taken_def delivered_def queue_capacity_def split: receiver_pc.splits)
next
  case (send_write v t i)
  then show ?thesis
    using assms(1) slots_match_write [of "in_slots (q_inner c)" "taken c" "length (q_received c)" "q_sent c" v]
      slot_index_of_nat [of "q_inner c" "length (q_sent c)"]
    by (auto simp: queue_inv_def Let_def pending_def taken_def delivered_def ring_def split: receiver_pc.splits)
next
  case (send_publish v t)
  then show ?thesis
    using assms(1) by (auto simp: queue_inv_def Let_def pending_def taken_def delivered_def ring_def nth_append split: receiver_pc.splits)
qed (use assms(1) in \<open>auto simp: queue_inv_def Let_def pending_def taken_def delivered_def ring_def sender_close_def split: receiver_pc.splits\<close>)

lemma receiver_step_inv:
  assumes "queue_inv c" "receiver_step c c'" shows "queue_inv c'"
  using assms(2)
proof (cases rule: receiver_step.cases)
  case (recv_some h)
  then show ?thesis
    using assms(1) word_window(2) [of "q_inner c" "length (q_received c)" "length (q_sent c)"]
    by (auto simp: queue_inv_def Let_def pending_def taken_def delivered_def split: sender_pc.splits)
next
  case (recv_read h i v)
  have r: "ring (q_inner c)" using assms(1) by (simp add: queue_inv_def Let_def)
  have "v = q_sent c ! length (q_received c)"
    using recv_read assms(1) slot_index_of_nat [OF r, of "length (q_received c)"] ring_size(1) [OF r]
    by (auto simp: queue_inv_def Let_def taken_def slots_match_def nth_append dest: spec [of _ 0])
  then show ?thesis
    using recv_read assms(1) slot_index_of_nat [OF r, of "length (q_received c)"] ring_size(1) [OF r]
      slots_match_read [of "in_slots (q_inner c)" "length (q_received c)" "q_sent c @ pending c"]
    by (auto simp: queue_inv_def Let_def pending_def taken_def delivered_def ring_def split: sender_pc.splits)
next
  case (recv_release h v)
  then show ?thesis
    using assms(1) slots_match_release [of "in_slots (q_inner c)" "length (q_received c)" "q_sent c @ pending c"]
    by (auto simp: queue_inv_def Let_def pending_def taken_def delivered_def ring_def take_Suc_conv_app_nth
        split: sender_pc.splits)
qed (use assms(1) in \<open>auto simp: queue_inv_def Let_def pending_def taken_def delivered_def ring_def receiver_close_def
      split: sender_pc.splits\<close>)

interpretation spsc_conc: invariant_system queue_init queue_step queue_inv
  by unfold_locales (auto simp: queue_step_def intro: queue_init_inv sender_step_inv receiver_step_inv)

subsection \<open>Slot accesses\<close>

text \<open>The slot a sender is about to write is in range and holds no live element.\<close>

lemma write_slot_free:
  assumes "queue_inv c" "q_sender c = S_write v t"
  shows "slot_index (q_inner c) t < length (in_slots (q_inner c)) \<and>
    in_slots (q_inner c) ! slot_index (q_inner c) t = None"
proof -
  let ?n = "length (in_slots (q_inner c))" and ?r = "length (q_received c)" and ?w = "length (q_sent c)"
  have inv: "ring (q_inner c)" "t = of_nat ?w" "?r \<le> ?w" "?w < ?r + ?n"
    and m: "slots_match (in_slots (q_inner c)) (taken c) ?r (q_sent c)"
    using assms by (auto simp: queue_inv_def Let_def pending_def)
  then obtain d where d: "?w = ?r + d" "d < ?n" by (metis add_less_cancel_left le_iff_add)
  have "slot_index (q_inner c) t = (?r + d) mod ?n"
    unfolding inv(2) slot_index_of_nat [OF inv(1)] d(1) ..
  then show ?thesis using m d ring_size(1) [OF inv(1)] by (simp add: slots_match_def)
qed

text \<open>The slot a receiver is about to read is in range and holds the oldest unreceived element.\<close>

lemma read_slot_live:
  assumes "queue_inv c" "q_receiver c = R_read h"
  shows "slot_index (q_inner c) h < length (in_slots (q_inner c)) \<and>
    in_slots (q_inner c) ! slot_index (q_inner c) h = Some (q_sent c ! length (q_received c))"
proof -
  let ?n = "length (in_slots (q_inner c))" and ?r = "length (q_received c)"
  have inv: "ring (q_inner c)" "h = of_nat ?r" "?r < length (q_sent c)"
    and m: "slots_match (in_slots (q_inner c)) 0 ?r (q_sent c @ pending c)"
    using assms by (auto simp: queue_inv_def Let_def taken_def)
  have "slot_index (q_inner c) h = (?r + 0) mod ?n" using slot_index_of_nat [OF inv(1)] inv(2) by simp
  then show ?thesis using m inv(3) ring_size(1) [OF inv(1)]
    by (auto simp: slots_match_def nth_append dest: spec [of _ 0])
qed

subsection \<open>Properties\<close>

text \<open>The runs of the witnesses and of the race below: a queue of one slot.\<close>

definition one_slot :: "nat queue_state" where
  "one_slot = \<lparr>q_inner = \<lparr>in_slots = [None], in_mask = 0, in_head = 0, in_tail = 0,
      in_sender_closed = False, in_receiver_closed = False, in_sender_thread = None,
      in_receiver_thread = None, in_spins = 0, in_tokens = {}\<rparr>,
     q_sender = S_idle, q_receiver = R_idle, q_sent = [], q_received = [], q_results = []\<rparr>"

lemma one_slot_init: "queue_init one_slot"
proof -
  have "inner_new 1 0 = Ret (q_inner one_slot)"
    by (simp add: one_slot_def inner_new_def checked_next_power_of_two_def)
  then have "\<exists>n spins. inner_new n spins = Ret (q_inner one_slot)" by blast
  then show ?thesis by (simp add: queue_init_def) (simp add: one_slot_def)
qed

lemma sender_run: "queue_step\<^sup>*\<^sup>* a b \<Longrightarrow> sender_step b c \<Longrightarrow> queue_step\<^sup>*\<^sup>* a c"
  unfolding queue_step_def [abs_def] by (rule rtranclp.rtrancl_into_rtrancl) blast+

lemma receiver_run: "queue_step\<^sup>*\<^sup>* a b \<Longrightarrow> receiver_step b c \<Longrightarrow> queue_step\<^sup>*\<^sup>* a c"
  unfolding queue_step_def [abs_def] by (rule rtranclp.rtrancl_into_rtrancl) blast+

text \<open>
  C19. However the sender and the receiver interleave, at the granularity of single atomic
  accesses: what has been received is a prefix of what has been sent, in order; the results of
  \<open>try_recv\<close> are exactly the received values; at most the capacity is in flight; the receiver
  never reads a slot that holds no element and the sender never overwrites a live one.
\<close>

theorem spsc_concurrent_fifo:
  assumes "queue_init c" "queue_step\<^sup>*\<^sup>* c c'"
  shows "q_received c' = take (length (q_received c')) (q_sent c') \<and> delivered c' = q_received c' \<and>
    length (q_sent c') \<le> length (q_received c') + queue_capacity (q_inner c') \<and>
    (\<forall>h. q_receiver c' = R_read h \<longrightarrow>
       get_opt (in_slots (q_inner c')) (slot_index (q_inner c') h) =
         Some (Some (q_sent c' ! length (q_received c')))) \<and>
    (\<forall>v t. q_sender c' = S_write v t \<longrightarrow>
       get_opt (in_slots (q_inner c')) (slot_index (q_inner c') t) = Some None)"
proof -
  have inv: "queue_inv c'" by (rule spsc_conc.reachable_inv [OF assms])
  then have "q_received c' = take (length (q_received c')) (q_sent c')" "delivered c' = q_received c'"
    "length (q_sent c') \<le> length (q_received c') + queue_capacity (q_inner c')"
    by (simp_all add: queue_inv_def Let_def queue_capacity_def)
  then show ?thesis
    using write_slot_free [OF inv] read_slot_live [OF inv] by (simp add: get_opt_def)
qed

theorem spsc_concurrent_fifo_witness:
  "\<exists>c. queue_step\<^sup>*\<^sup>* one_slot c \<and> q_receiver c = R_tail 0 \<and> delivered c = q_received c"
proof -
  let ?c = "one_slot\<lparr>q_receiver := R_tail (in_head (q_inner one_slot))\<rparr>"
  have "receiver_step one_slot ?c" by (rule recv_head) (simp add: one_slot_def)
  then have run: "queue_step\<^sup>*\<^sup>* one_slot ?c" by (intro r_into_rtranclp) (simp add: queue_step_def)
  from spsc_concurrent_fifo [OF one_slot_init run] run show ?thesis
    by (intro exI [of _ ?c]) (simp add: one_slot_def)
qed

text \<open>
  C37. \<open>try_recv\<close> loads the counters before it loads \<open>sender_closed\<close>. A sender that publishes a
  value and closes between the two loads makes \<open>try_recv\<close> return \<open>Closed\<close>, and hence \<open>recv\<close>
  return \<open>None\<close>, with a value sent, accepted and still in the queue.
\<close>

theorem closed_with_queued_value:
  "\<exists>c. queue_step\<^sup>*\<^sup>* one_slot c \<and> q_sent c = [7] \<and> q_received c = [] \<and>
     q_results c = [Inl Recv_Closed] \<and> queue_len (q_inner c) = 1"
proof -
  define c1 where "c1 = one_slot\<lparr>q_receiver := R_tail (in_head (q_inner one_slot))\<rparr>"
  define c2 where "c2 = c1\<lparr>q_receiver := R_flag\<rparr>"
  define c3 where "c3 = c2\<lparr>q_sender := S_flags 7\<rparr>"
  define c4 where "c4 = c3\<lparr>q_sender := S_tail 7\<rparr>"
  define c5 where "c5 = c4\<lparr>q_sender := S_head 7 (in_tail (q_inner c4))\<rparr>"
  define c6 where "c6 = c5\<lparr>q_sender := S_write 7 0\<rparr>"
  define c7 where "c7 = c6\<lparr>q_sender := S_publish 7 0,
      q_inner := (q_inner c6)\<lparr>in_slots := (in_slots (q_inner c6))[0 := Some 7]\<rparr>\<rparr>"
  define c8 where "c8 = c7\<lparr>q_sender := S_idle, q_sent := q_sent c7 @ [7],
      q_inner := unpark_receiver ((q_inner c7)\<lparr>in_tail := 0 + 1\<rparr>)\<rparr>"
  define c9 where "c9 = c8\<lparr>q_inner := sender_close (q_inner c8)\<rparr>"
  define c10 where "c10 = c9\<lparr>q_receiver := R_idle, q_results := q_results c9 @
      [Inl (if in_sender_closed (q_inner c9) then Recv_Closed else Recv_Empty)]\<rparr>"
  note defs = one_slot_def c1_def c2_def c3_def c4_def c5_def c6_def c7_def c8_def c9_def c10_def
    queue_capacity_def slot_index_def sender_close_def unpark_receiver_def
  have "queue_step\<^sup>*\<^sup>* one_slot one_slot" by simp
  then have "queue_step\<^sup>*\<^sup>* one_slot c1"
    by (rule receiver_run) (unfold c1_def, rule recv_head, simp add: defs)
  then have "queue_step\<^sup>*\<^sup>* one_slot c2"
    by (rule receiver_run) (unfold c2_def, rule recv_empty [of _ 0], simp_all add: defs)
  then have "queue_step\<^sup>*\<^sup>* one_slot c3"
    by (rule sender_run) (unfold c3_def, rule send_start, simp_all add: defs)
  then have "queue_step\<^sup>*\<^sup>* one_slot c4"
    by (rule sender_run) (unfold c4_def, rule send_peer_open, simp_all add: defs)
  then have "queue_step\<^sup>*\<^sup>* one_slot c5"
    by (rule sender_run) (unfold c5_def, rule send_tail, simp add: defs)
  then have "queue_step\<^sup>*\<^sup>* one_slot c6"
    by (rule sender_run) (unfold c6_def, rule send_room, simp_all add: defs)
  then have "queue_step\<^sup>*\<^sup>* one_slot c7"
    by (rule sender_run) (unfold c7_def, rule send_write, simp_all add: defs)
  then have "queue_step\<^sup>*\<^sup>* one_slot c8"
    by (rule sender_run) (unfold c8_def, rule send_publish, simp add: defs)
  then have "queue_step\<^sup>*\<^sup>* one_slot c9"
    by (rule sender_run) (unfold c9_def, rule send_close, simp add: defs)
  then have "queue_step\<^sup>*\<^sup>* one_slot c10"
    by (rule receiver_run) (unfold c10_def, rule recv_flag, simp add: defs)
  then show ?thesis by (intro exI [of _ c10]) (simp add: defs queue_len_def)
qed

end
