(* ===== verification/Graph_Lease.thy ===== *)
theory Graph_Lease
  imports Prelude
begin

unbundle bit_operations_syntax

text \<open>
  The captured-graph lease of st-zrt/src/session.rs: a reader count and a release bit in one
  64-bit word, with a mutex and a condition variable for the waiting paths. Runs of a captured
  graph hold the lease; \<open>release_captured_graph\<close> waits until no run holds it, calls the provider
  and lets the waiting runs go on.

  An actor is one thread of control in \<open>begin_run\<close>, in the drop of its guard, or in
  \<open>release_captured_graph\<close>. Its program counter (\<open>lease_pc\<close>) names the next atomic access; the
  rules of \<open>act\<close> follow the code line by line and the actors interleave freely (sequentially
  consistent atomics). Weak compare-exchanges may fail and waits may return spuriously at any
  time. Poisoned mutexes are entered like any other (\<open>into_inner\<close>).
\<close>

subsection \<open>State\<close>

definition GRAPH_LEASE_RELEASING :: "64 word" where
  "GRAPH_LEASE_RELEASING = push_bit 63 1"

definition GRAPH_LEASE_ACTIVE_MASK :: "64 word" where
  "GRAPH_LEASE_ACTIVE_MASK = GRAPH_LEASE_RELEASING - 1"

text \<open>
  The flag of a counter is \<open>True\<close> in \<open>begin_release\<close> and \<open>False\<close> in \<open>begin_run\<close>, which share
  the first loop.
\<close>

datatype lease_pc =
    Idle | Aborted
  | Load bool | Cas bool "64 word"
  | Lock bool | Check bool | Wait bool | Sleep bool | Woken bool | Unlock bool
  | Holding
  | Drop_Load | Drop_Cas "64 word" | Drop_Lock | Drop_Notify | Drop_Unlock
  | Rel_Lock | Rel_Check | Rel_Wait | Rel_Sleep | Rel_Woken | Rel_Unlock
  | Releasing
  | End_Lock | End_Store | End_Notify | End_Unlock

record lease =
  ls_state :: "64 word"
  ls_lock :: "nat option"
  ls_pc :: "nat \<Rightarrow> lease_pc"

subsection \<open>Steps\<close>

text \<open>
  \<open>act a p s l p' s' l' n\<close>: actor \<open>a\<close> at \<open>p\<close>, with the word \<open>s\<close> and the mutex held by \<open>l\<close>, goes
  on to \<open>p'\<close>; \<open>n\<close> says that it notifies every sleeper.
\<close>

inductive act :: "nat \<Rightarrow> lease_pc \<Rightarrow> 64 word \<Rightarrow> nat option
    \<Rightarrow> lease_pc \<Rightarrow> 64 word \<Rightarrow> nat option \<Rightarrow> bool \<Rightarrow> bool" where
  start: "act a Idle s l (Load b) s l False"
| load_wait: "s AND GRAPH_LEASE_RELEASING \<noteq> 0 \<Longrightarrow> act a (Load b) s l (Lock b) s l False"
| load_cas: "s AND GRAPH_LEASE_RELEASING = 0 \<Longrightarrow> b \<or> s < GRAPH_LEASE_ACTIVE_MASK \<Longrightarrow>
    act a (Load b) s l (Cas b s) s l False"
| load_panic: "s AND GRAPH_LEASE_RELEASING = 0 \<Longrightarrow> \<not> s < GRAPH_LEASE_ACTIVE_MASK \<Longrightarrow>
    act a (Load False) s l Aborted s l False"
| lock: "act a (Lock b) s None (Check b) s (Some a) False"
| check_wait: "s AND GRAPH_LEASE_RELEASING \<noteq> 0 \<Longrightarrow> act a (Check b) s l (Wait b) s l False"
| check_done: "s AND GRAPH_LEASE_RELEASING = 0 \<Longrightarrow> act a (Check b) s l (Unlock b) s l False"
| wait: "act a (Wait b) s l (Sleep b) s None False"
| spurious: "act a (Sleep b) s l (Woken b) s l False"
| woken: "act a (Woken b) s None (Check b) s (Some a) False"
| unlock: "act a (Unlock b) s l (Load b) s None False"
| cas_run: "act a (Cas False s) s l Holding (s + 1) l False"
| cas_release: "act a (Cas True s) s l Rel_Lock (s OR GRAPH_LEASE_RELEASING) l False"
| cas_fail: "act a (Cas b current) s l (Load b) s l False"
| drop: "act a Holding s l Drop_Load s l False"
| drop_load: "act a Drop_Load s l (Drop_Cas s) s l False"
| drop_zero: "previous AND GRAPH_LEASE_ACTIVE_MASK = 0 \<Longrightarrow> act a (Drop_Cas previous) s l Idle s l False"
| drop_last: "s AND GRAPH_LEASE_ACTIVE_MASK \<noteq> 0 \<Longrightarrow> s AND GRAPH_LEASE_RELEASING \<noteq> 0 \<Longrightarrow>
    s AND GRAPH_LEASE_ACTIVE_MASK = 1 \<Longrightarrow> act a (Drop_Cas s) s l Drop_Lock (s - 1) l False"
| drop_other: "s AND GRAPH_LEASE_ACTIVE_MASK \<noteq> 0 \<Longrightarrow>
    s AND GRAPH_LEASE_RELEASING = 0 \<or> s AND GRAPH_LEASE_ACTIVE_MASK \<noteq> 1 \<Longrightarrow>
    act a (Drop_Cas s) s l Idle (s - 1) l False"
| drop_fail: "previous AND GRAPH_LEASE_ACTIVE_MASK \<noteq> 0 \<Longrightarrow> act a (Drop_Cas previous) s l (Drop_Cas s) s l False"
| drop_lock: "act a Drop_Lock s None Drop_Notify s (Some a) False"
| drop_notify: "act a Drop_Notify s l Drop_Unlock s l True"
| drop_unlock: "act a Drop_Unlock s l Idle s None False"
| rel_lock: "act a Rel_Lock s None Rel_Check s (Some a) False"
| rel_check_wait: "s AND GRAPH_LEASE_ACTIVE_MASK \<noteq> 0 \<Longrightarrow> act a Rel_Check s l Rel_Wait s l False"
| rel_check_done: "s AND GRAPH_LEASE_ACTIVE_MASK = 0 \<Longrightarrow> act a Rel_Check s l Rel_Unlock s l False"
| rel_wait: "act a Rel_Wait s l Rel_Sleep s None False"
| rel_spurious: "act a Rel_Sleep s l Rel_Woken s l False"
| rel_woken: "act a Rel_Woken s None Rel_Check s (Some a) False"
| rel_unlock: "act a Rel_Unlock s l Releasing s None False"
| native_release: "act a Releasing s l End_Lock s l False"
| end_lock: "act a End_Lock s None End_Store s (Some a) False"
| end_assert: "s AND GRAPH_LEASE_ACTIVE_MASK \<noteq> 0 \<Longrightarrow> act a End_Store s l Aborted s None False"
| end_store: "s AND GRAPH_LEASE_ACTIVE_MASK = 0 \<Longrightarrow> act a End_Store s l End_Notify 0 l False"
| end_notify: "act a End_Notify s l End_Unlock s l True"
| end_unlock: "act a End_Unlock s l Idle s None False"

fun wake :: "lease_pc \<Rightarrow> lease_pc" where
  "wake (Sleep b) = Woken b"
| "wake Rel_Sleep = Rel_Woken"
| "wake p = p"

inductive lease_step :: "lease \<Rightarrow> lease \<Rightarrow> bool" where
  lease_act: "act a (ls_pc c a) (ls_state c) (ls_lock c) p s l n \<Longrightarrow>
    lease_step c \<lparr>ls_state = s, ls_lock = l,
      ls_pc = (\<lambda>x. if x = a then p else if n then wake (ls_pc c x) else ls_pc c x)\<rparr>"

definition lease_init :: "lease \<Rightarrow> bool" where
  "lease_init c \<longleftrightarrow> c = \<lparr>ls_state = 0, ls_lock = None, ls_pc = (\<lambda>_. Idle)\<rparr>"

subsection \<open>Annotation ids and the leases of a session\<close>

definition i32_max :: int where "i32_max = 2 ^ 31 - 1"

text \<open>\<open>NEXT_CAPTURED_GRAPH_ID\<close> starts at 1; \<open>fetch_update\<close> with \<open>checked_add(1)\<close>.\<close>

definition NEXT_CAPTURED_GRAPH_ID :: int where "NEXT_CAPTURED_GRAPH_ID = 1"

datatype graph_id_error = Graph_Id_Exhausted

definition allocate_captured_graph_id :: "int \<Rightarrow> (graph_id_error + int) \<times> int" where
  "allocate_captured_graph_id next_id =
     (if next_id + 1 \<le> i32_max then (Inr next_id, next_id + 1) else (Inl Graph_Id_Exhausted, next_id))"

text \<open>
  The lease table of a session; a lease is shared by reference, here the number of its creation.
\<close>

record lease_table =
  lt_leases :: "int \<rightharpoonup> nat"
  lt_created :: nat

definition captured_graph_lease :: "int \<Rightarrow> lease_table \<Rightarrow> nat \<times> lease_table" where
  "captured_graph_lease annotation_id t =
     (case lt_leases t annotation_id of
        Some lease_ref \<Rightarrow> (lease_ref, t)
      | None \<Rightarrow> (lt_created t, t\<lparr>lt_leases := (lt_leases t)(annotation_id \<mapsto> lt_created t),
                                  lt_created := Suc (lt_created t)\<rparr>))"

fun allocate_many :: "nat \<Rightarrow> int \<Rightarrow> int list \<times> int" where
  "allocate_many 0 next_id = ([], next_id)"
| "allocate_many (Suc k) next_id =
     (case allocate_captured_graph_id next_id of
        (Inl _, n) \<Rightarrow> allocate_many k n
      | (Inr i, n) \<Rightarrow> (let (is, m) = allocate_many k n in (i # is, m)))"

subsection \<open>The packed word\<close>

definition enc :: "bool \<Rightarrow> nat \<Rightarrow> 64 word" where
  "enc r n = (if r then GRAPH_LEASE_RELEASING else 0) + of_nat n"

lemma releasing_num: "GRAPH_LEASE_RELEASING = 2 ^ 63" "GRAPH_LEASE_ACTIVE_MASK = mask 63"
  by (simp_all add: GRAPH_LEASE_RELEASING_def GRAPH_LEASE_ACTIVE_MASK_def mask_eq_decr_exp push_bit_eq_mult)

lemma unat_enc: "n < 2 ^ 63 \<Longrightarrow> unat (enc r n) = (if r then 2 ^ 63 else 0) + n"
  by (simp add: enc_def releasing_num unat_word_ariths unat_of_nat)

lemma enc_eq_iff [simp]:
  assumes "n < 2 ^ 63" "m < 2 ^ 63" shows "enc r n = enc q m \<longleftrightarrow> r = q \<and> n = m"
proof -
  have "enc r n = enc q m \<longleftrightarrow> unat (enc r n) = unat (enc q m)" by (rule word_eq_iff_unsigned)
  then show ?thesis unfolding unat_enc [OF assms(1)] unat_enc [OF assms(2)] using assms by auto
qed

lemma enc_active [simp]:
  assumes "n < 2 ^ 63" shows "enc r n AND GRAPH_LEASE_ACTIVE_MASK = of_nat n"
proof -
  have "unat (enc r n AND GRAPH_LEASE_ACTIVE_MASK) = take_bit 63 (unat (enc r n))"
    by (simp add: releasing_num unsigned_take_bit_eq flip: take_bit_eq_mask)
  also have "\<dots> = n" unfolding unat_enc [OF assms] using assms by (simp add: take_bit_eq_mod)
  finally have "unat (enc r n AND GRAPH_LEASE_ACTIVE_MASK) = unat (of_nat n :: 64 word)"
    using assms by (simp add: unat_of_nat)
  then show ?thesis by (rule word_eq_iff_unsigned [THEN iffD2])
qed

lemma enc_active_zero [simp]: "n < 2 ^ 63 \<Longrightarrow> (of_nat n :: 64 word) = 0 \<longleftrightarrow> n = 0"
  using enc_eq_iff [of n 0 False False] by (simp add: enc_def)

lemma enc_active_one [simp]: "n < 2 ^ 63 \<Longrightarrow> (of_nat n :: 64 word) = 1 \<longleftrightarrow> n = 1"
  using enc_eq_iff [of n 1 False False] by (simp add: enc_def)

lemma enc_releasing [simp]:
  assumes "n < 2 ^ 63" shows "enc r n AND GRAPH_LEASE_RELEASING = 0 \<longleftrightarrow> \<not> r"
proof -
  have "enc r n AND GRAPH_LEASE_RELEASING = 0 \<longleftrightarrow> \<not> bit (enc r n) 63"
    unfolding releasing_num by (rule and_exp_eq_0_iff_not_bit)
  also have "bit (enc r n) 63 \<longleftrightarrow> odd (unat (enc r n) div 2 ^ 63)"
    using bit_unsigned_iff [of "enc r n" 63, where ?'a = nat] by (simp add: bit_iff_odd [of "unat (enc r n)"])
  also have "\<dots> \<longleftrightarrow> r" unfolding unat_enc [OF assms] using assms by simp
  finally show ?thesis by simp
qed

lemma enc_arith [simp]:
  "enc r n + 1 = enc r (Suc n)" "0 < n \<Longrightarrow> enc r n - 1 = enc r (n - 1)" "enc False 0 = 0"
  by (simp_all add: enc_def of_nat_diff)

lemma enc_or [simp]:
  assumes "n < 2 ^ 63" shows "enc False n OR GRAPH_LEASE_RELEASING = enc True n"
proof -
  have "enc False n AND GRAPH_LEASE_RELEASING = 0" using enc_releasing [OF assms, of False] by simp
  then show ?thesis using disjunctive_add [of "enc False n" GRAPH_LEASE_RELEASING]
    by (simp add: enc_def add.commute bit_eq_iff bit_simps) 
qed

lemma enc_less_mask [simp]: "n < 2 ^ 63 \<Longrightarrow> enc False n < GRAPH_LEASE_ACTIVE_MASK \<longleftrightarrow> n < 2 ^ 63 - 1"
  by (simp add: word_less_nat_alt unat_enc releasing_num(1) GRAPH_LEASE_ACTIVE_MASK_def)

subsection \<open>Invariants\<close>

fun is_holder :: "lease_pc \<Rightarrow> bool" where
  "is_holder Holding = True"
| "is_holder Drop_Load = True"
| "is_holder (Drop_Cas _) = True"
| "is_holder _ = False"

fun is_drained :: "lease_pc \<Rightarrow> bool" where
  "is_drained Rel_Unlock = True"
| "is_drained Releasing = True"
| "is_drained End_Lock = True"
| "is_drained End_Store = True"
| "is_drained _ = False"

fun is_releaser :: "lease_pc \<Rightarrow> bool" where
  "is_releaser Rel_Lock = True"
| "is_releaser Rel_Check = True"
| "is_releaser Rel_Wait = True"
| "is_releaser Rel_Sleep = True"
| "is_releaser Rel_Woken = True"
| "is_releaser p = is_drained p"

fun has_lock :: "lease_pc \<Rightarrow> bool" where
  "has_lock (Check _) = True"
| "has_lock (Wait _) = True"
| "has_lock (Unlock _) = True"
| "has_lock Drop_Notify = True"
| "has_lock Drop_Unlock = True"
| "has_lock Rel_Check = True"
| "has_lock Rel_Wait = True"
| "has_lock Rel_Unlock = True"
| "has_lock End_Store = True"
| "has_lock End_Notify = True"
| "has_lock End_Unlock = True"
| "has_lock _ = False"

definition holders :: "lease \<Rightarrow> nat set" where "holders c = {a. is_holder (ls_pc c a)}"
definition releasers :: "lease \<Rightarrow> nat set" where "releasers c = {a. is_releaser (ls_pc c a)}"

fun pc_ok :: "lease_pc \<Rightarrow> bool" where
  "pc_ok (Cas b current) = (\<exists>n < 2 ^ 63. current = enc False n \<and> (b \<or> n < 2 ^ 63 - 1))"
| "pc_ok (Drop_Cas previous) = (\<exists>r n. 0 < n \<and> n < 2 ^ 63 \<and> previous = enc r n)"
| "pc_ok _ = True"

definition count_inv :: "lease \<Rightarrow> bool" where
  "count_inv c \<longleftrightarrow> finite (holders c) \<and> card (holders c) < 2 ^ 63 \<and>
     ls_state c = enc (releasers c \<noteq> {}) (card (holders c)) \<and>
     (\<forall>a b. is_releaser (ls_pc c a) \<and> is_releaser (ls_pc c b) \<longrightarrow> a = b) \<and> (\<forall>a. pc_ok (ls_pc c a)) \<and>
     (\<forall>a. is_drained (ls_pc c a) \<longrightarrow> holders c = {})"

definition lock_inv :: "lease \<Rightarrow> bool" where
  "lock_inv c \<longleftrightarrow> (\<forall>a. has_lock (ls_pc c a) \<longleftrightarrow> ls_lock c = Some a)"

text \<open>
  No wakeup is lost: while a sleeper, or one about to sleep, waits for what has already
  happened, an actor is on its way to notify it.
\<close>

definition wakeup_inv :: "lease \<Rightarrow> bool" where
  "wakeup_inv c \<longleftrightarrow>
     ((\<exists>a. ls_pc c a \<in> {Rel_Wait, Rel_Sleep}) \<and> holders c = {} \<longrightarrow>
        (\<exists>d. ls_pc c d \<in> {Drop_Lock, Drop_Notify})) \<and>
     ((\<exists>a b. ls_pc c a \<in> {Wait b, Sleep b}) \<and> releasers c = {} \<longrightarrow> (\<exists>e. ls_pc c e = End_Notify))"

lemma wake_keeps [simp]:
  "is_holder (wake p) = is_holder p" "is_drained (wake p) = is_drained p"
  "is_releaser (wake p) = is_releaser p" "has_lock (wake p) = has_lock p" "pc_ok (wake p) = pc_ok p"
  by (cases p; simp)+

definition after :: "lease \<Rightarrow> nat \<Rightarrow> lease_pc \<Rightarrow> 64 word \<Rightarrow> nat option \<Rightarrow> bool \<Rightarrow> lease" where
  "after c a p s l n = \<lparr>ls_state = s, ls_lock = l,
     ls_pc = (\<lambda>x. if x = a then p else if n then wake (ls_pc c x) else ls_pc c x)\<rparr>"

lemma after_simps [simp]:
  "ls_state (after c a p s l n) = s" "ls_lock (after c a p s l n) = l"
  "ls_pc (after c a p s l n) x = (if x = a then p else if n then wake (ls_pc c x) else ls_pc c x)"
  "holders (after c a p s l n) = (if is_holder p then insert a (holders c) else holders c - {a})"
  "releasers (after c a p s l n) = (if is_releaser p then insert a (releasers c) else releasers c - {a})"
  by (auto simp: after_def holders_def releasers_def)

lemma lease_stepE:
  assumes "lease_step c c'"
  obtains a p s l n where "act a (ls_pc c a) (ls_state c) (ls_lock c) p s l n" "c' = after c a p s l n"
  using assms by (auto simp: after_def elim: lease_step.cases)

lemma in_holders [simp]: "a \<in> holders c \<longleftrightarrow> is_holder (ls_pc c a)" by (simp add: holders_def)
lemma in_releasers [simp]: "a \<in> releasers c \<longleftrightarrow> is_releaser (ls_pc c a)" by (simp add: releasers_def)

text \<open>What one action does to the mutex and to the word, from the actor's own counter alone.\<close>

lemma act_lock:
  assumes "act a p s l p' s' l' n" "has_lock p \<longleftrightarrow> l = Some a"
  shows "(has_lock p' \<longleftrightarrow> l' = Some a) \<and> (l' = l \<or> l = None \<and> l' = Some a \<or> l = Some a \<and> l' = None)"
  using assms by (induction rule: act.induct) simp_all

lemma act_count:
  assumes "act a p s l p' s' l' nt" "s = enc r n" "n < 2 ^ 63" "pc_ok p" "is_holder p \<longrightarrow> 0 < n"
    "is_releaser p \<longrightarrow> r" "is_drained p \<longrightarrow> n = 0"
  shows "\<exists>r' m. s' = enc r' m \<and> m < 2 ^ 63 \<and> pc_ok p' \<and>
    m + of_bool (is_holder p) = n + of_bool (is_holder p') \<and>
    (r' \<longleftrightarrow> is_releaser p' \<or> r \<and> \<not> is_releaser p) \<and> (\<not> is_releaser p \<and> is_releaser p' \<longrightarrow> \<not> r) \<and>
    (is_drained p' \<longrightarrow> m = 0) \<and> (r \<and> is_holder p' \<longrightarrow> is_holder p)"
  using assms
proof (cases rule: act.cases)
  case cas_run
  then have "r = False" "n < 2 ^ 63 - 1" using assms(2-4) by auto
  then show ?thesis using cas_run assms(2) by (intro exI [of _ False] exI [of _ "Suc n"]) simp
next
  case cas_release
  then have "r = False" using assms(2-4) by auto
  then show ?thesis using cas_release assms(2,3) by (intro exI [of _ True] exI [of _ n]) simp
next
  case drop_last
  then have "0 < n" using assms(5) by simp
  then show ?thesis using drop_last assms(2,3) by (intro exI [of _ r] exI [of _ "n - 1"]) simp
next
  case drop_other
  then have "0 < n" using assms(5) by simp
  then show ?thesis using drop_other assms(2,3) by (intro exI [of _ r] exI [of _ "n - 1"]) simp
next
  case end_store
  then show ?thesis using assms(6,7) by (intro exI [of _ False] exI [of _ 0]) simp
qed (auto intro!: exI [of _ r] exI [of _ n])

lemma lock_inv_step:
  assumes "lock_inv c" "lease_step c c'" shows "lock_inv c'"
proof -
  obtain a p s l n where act: "act a (ls_pc c a) (ls_state c) (ls_lock c) p s l n"
    and c': "c' = after c a p s l n" using assms(2) by (rule lease_stepE)
  have "has_lock (ls_pc c a) \<longleftrightarrow> ls_lock c = Some a" using assms(1) by (simp add: lock_inv_def)
  from act_lock [OF act this] assms(1) show ?thesis
    by (auto simp: lock_inv_def c')
qed

lemma card_after:
  assumes "finite H" "m + of_bool (a \<in> H) = card H + of_bool q"
  shows "card (if q then insert a H else H - {a}) = m"
  using assms by (cases "a \<in> H"; cases q) (auto simp: insert_absorb card_Diff_singleton)

lemma count_inv_step:
  assumes inv: "count_inv c" and step: "lease_step c c'" shows "count_inv c'"
proof -
  obtain a p s l n where act: "act a (ls_pc c a) (ls_state c) (ls_lock c) p s l n"
    and c': "c' = after c a p s l n" using step by (rule lease_stepE)
  let ?H = "holders c" and ?R = "releasers c" and ?q = "ls_pc c a"
  have H: "finite ?H" "card ?H < 2 ^ 63" "ls_state c = enc (?R \<noteq> {}) (card ?H)"
    and R: "\<And>a b. is_releaser (ls_pc c a) \<Longrightarrow> is_releaser (ls_pc c b) \<Longrightarrow> a = b" and ok: "\<forall>a. pc_ok (ls_pc c a)"
    and D: "\<forall>a. is_drained (ls_pc c a) \<longrightarrow> ?H = {}"
    using inv unfolding count_inv_def by blast+
  have "is_holder ?q \<longrightarrow> 0 < card ?H" using H(1) by (auto simp: card_gt_0_iff)
  moreover have "is_releaser ?q \<longrightarrow> ?R \<noteq> {}" by (metis empty_iff in_releasers)
  moreover have "is_drained ?q \<longrightarrow> card ?H = 0" using D by auto
  ultimately obtain r' m where m: "s = enc r' m" "m < 2 ^ 63" "pc_ok p"
    "m + of_bool (is_holder ?q) = card ?H + of_bool (is_holder p)"
    and r': "r' \<longleftrightarrow> is_releaser p \<or> ?R \<noteq> {} \<and> \<not> is_releaser ?q"
    and new: "\<not> is_releaser ?q \<and> is_releaser p \<longrightarrow> ?R = {}" "is_drained p \<longrightarrow> m = 0"
      "?R \<noteq> {} \<and> is_holder p \<longrightarrow> is_holder ?q"
    using act_count [OF act H(3) H(2)] ok by blast
  have card: "card (holders c') = m"
    using card_after [OF H(1), of m a "is_holder p"] m(4) by (simp add: c')
  have rel: "releasers c' \<noteq> {} \<longleftrightarrow> r'"
    using r' R unfolding c' after_simps by (auto simp: releasers_def)
  have one: "x = y" if "is_releaser (ls_pc c' x)" "is_releaser (ls_pc c' y)" for x y
    using that R new(1) by (auto simp: c' releasers_def split: if_splits)
  have fin: "finite (holders c')" using H(1) by (simp add: c')
  have dr: "holders c' = {}" if d: "is_drained (ls_pc c' b)" for b
  proof (cases "b = a")
    case True
    then show ?thesis using d new(2) card fin by (simp add: c')
  next
    case False
    then have "is_drained (ls_pc c b)" using d by (auto simp: c' split: if_splits)
    then have "?H = {}" and "is_releaser (ls_pc c b)" using D by (blast, cases "ls_pc c b") simp_all
    then have "?H = {}" "?R \<noteq> {}" by (auto simp: releasers_def)
    then show ?thesis using new(3) by (auto simp: c' holders_def)
  qed
  have state: "ls_state c' = enc (releasers c' \<noteq> {}) (card (holders c'))"
    unfolding rel card using m(1) by (simp add: c')
  have ok': "pc_ok (ls_pc c' b)" for b using ok m(3) by (simp add: c')
  show ?thesis
    unfolding count_inv_def using fin m(2) card state one dr ok' by blast
qed

text \<open>
  The notifications: the last run out while a release is in progress goes to notify, and only
  the end of a release clears the release bit.
\<close>

lemma act_wakeup:
  assumes "act a p s l p' s' l' n" "s = enc r k" "k < 2 ^ 63"
  shows "p' = Rel_Wait \<longrightarrow> k \<noteq> 0" "\<exists>b. p' = Wait b \<Longrightarrow> r"
    "p' = Rel_Sleep \<longrightarrow> p = Rel_Wait" "p' = Sleep b \<longrightarrow> p = Wait b"
    "is_holder p \<and> \<not> is_holder p' \<and> r \<and> k = 1 \<and> p' \<noteq> Drop_Lock \<longrightarrow> \<not> pc_ok p"
    "is_releaser p \<and> \<not> is_releaser p' \<and> p' \<noteq> End_Notify \<longrightarrow> k \<noteq> 0"
    "p = Drop_Lock \<longrightarrow> p' = Drop_Notify" "p = Drop_Notify \<longrightarrow> n" "p = End_Notify \<longrightarrow> n"
    "n \<longrightarrow> has_lock p \<and> p' \<in> {Drop_Unlock, End_Unlock}" "p' = Wait b \<longrightarrow> \<not> is_releaser p" "p' = Rel_Wait \<longrightarrow> \<not> is_holder p"
    "is_releaser p \<and> \<not> is_releaser p' \<longrightarrow> is_drained p"
  using assms by (induction rule: act.induct) auto

lemma wake_sleepers: "wake p = Rel_Wait \<longleftrightarrow> p = Rel_Wait" "wake p \<noteq> Rel_Sleep"
  "wake p = Wait b \<longleftrightarrow> p = Wait b" "wake p \<noteq> Sleep b"
  by (cases p; simp)+

lemma release_wakeup_step:
  assumes cnt: "count_inv c" and lk: "lock_inv c" and wk: "wakeup_inv c"
    and act: "act a (ls_pc c a) (ls_state c) (ls_lock c) p s l n" and c': "c' = after c a p s l n"
    and x: "ls_pc c' x \<in> {Rel_Wait, Rel_Sleep}" and H: "holders c' = {}"
  shows "\<exists>d. ls_pc c' d \<in> {Drop_Lock, Drop_Notify}"
proof -
  have st: "ls_state c = enc (releasers c \<noteq> {}) (card (holders c))" "card (holders c) < 2 ^ 63"
    "finite (holders c)" "pc_ok (ls_pc c a)" using cnt by (auto simp: count_inv_def)
  note aw = act_wakeup [OF act st(1,2)]
  have notn: "\<not> n"
  proof
    assume n: n
    then have "x \<noteq> a" using x aw(10) by (auto simp: c')
    then have "ls_pc c x = Rel_Wait" using x n by (auto simp: c' wake_sleepers)
    then have "has_lock (ls_pc c x)" "has_lock (ls_pc c a)" using n aw(10) by simp_all
    then show False using lk \<open>x \<noteq> a\<close> unfolding lock_inv_def by (metis option.inject)
  qed
  show ?thesis
  proof (cases "holders c = {}")
    case True
    have "ls_pc c x \<in> {Rel_Wait, Rel_Sleep}"
      using x aw(1,3) True st(3) notn by (auto simp: c' split: if_splits)
    then obtain d where "ls_pc c d \<in> {Drop_Lock, Drop_Notify}"
      using wk True by (auto simp: wakeup_inv_def)
    then show ?thesis using notn aw(7,8) by (intro exI [of _ d]) (auto simp: c')
  next
    case False
    then have "holders c = {a}" "is_holder (ls_pc c a)" "\<not> is_holder p"
      using H by (auto simp: c' split: if_splits)
    moreover have "x \<noteq> a" using x aw(3,12) calculation by (auto simp: c' split: if_splits)
    then have "is_releaser (ls_pc c x)" using x notn by (auto simp: c')
    then have "releasers c \<noteq> {}" by (auto simp: releasers_def)
    ultimately have "p = Drop_Lock" using aw(5) st(4) by auto
    then show ?thesis by (intro exI [of _ a]) (simp add: c')
  qed
qed

lemma run_wakeup_step:
  assumes cnt: "count_inv c" and lk: "lock_inv c" and wk: "wakeup_inv c"
    and act: "act a (ls_pc c a) (ls_state c) (ls_lock c) p s l n" and c': "c' = after c a p s l n"
    and x: "ls_pc c' x \<in> {Wait b, Sleep b}" and R: "releasers c' = {}"
  shows "\<exists>e. ls_pc c' e = End_Notify"
proof -
  have st: "ls_state c = enc (releasers c \<noteq> {}) (card (holders c))" "card (holders c) < 2 ^ 63"
    and dr: "is_drained (ls_pc c a) \<Longrightarrow> holders c = {}" using cnt by (auto simp: count_inv_def)
  note aw = act_wakeup [OF act st]
  have notn: "\<not> n"
  proof
    assume n: n
    then have "x \<noteq> a" using x aw(10) by (auto simp: c')
    then have "ls_pc c x = Wait b" using x n by (auto simp: c' wake_sleepers)
    then have "has_lock (ls_pc c x)" "has_lock (ls_pc c a)" using n aw(10) by simp_all
    then show False using lk \<open>x \<noteq> a\<close> unfolding lock_inv_def by (metis option.inject)
  qed
  show ?thesis
  proof (cases "releasers c = {}")
    case True
    have "ls_pc c x \<in> {Wait b, Sleep b}"
      using x aw(2) aw(4) [of b] True notn by (auto simp: c' split: if_splits)
    then obtain e where "ls_pc c e = End_Notify" using wk True by (auto simp: wakeup_inv_def)
    then show ?thesis using notn aw(9) by (intro exI [of _ e]) (auto simp: c')
  next
    case False
    then have "is_releaser (ls_pc c a)" "\<not> is_releaser p"
      using R by (auto simp: c' releasers_def split: if_splits)
    then have "p = End_Notify" using aw(6,13) dr by auto
    then show ?thesis by (intro exI [of _ a]) (simp add: c')
  qed
qed

definition lease_inv :: "lease \<Rightarrow> bool" where
  "lease_inv c \<longleftrightarrow> count_inv c \<and> lock_inv c \<and> wakeup_inv c"

lemma lease_init_inv: "lease_init c \<Longrightarrow> lease_inv c"
  by (simp add: lease_init_def lease_inv_def count_inv_def lock_inv_def wakeup_inv_def holders_def releasers_def)

lemma lease_step_inv:
  assumes "lease_inv c" "lease_step c c'" shows "lease_inv c'"
proof -
  obtain a p s l n where act: "act a (ls_pc c a) (ls_state c) (ls_lock c) p s l n"
    and c': "c' = after c a p s l n" using assms(2) by (rule lease_stepE)
  have inv: "count_inv c" "lock_inv c" "wakeup_inv c" using assms(1) by (auto simp: lease_inv_def)
  have "wakeup_inv c'"
    unfolding wakeup_inv_def
    using release_wakeup_step [OF inv act c'] run_wakeup_step [OF inv act c'] by blast
  then show ?thesis
    using count_inv_step [OF inv(1) assms(2)] lock_inv_step [OF inv(2) assms(2)] by (simp add: lease_inv_def)
qed

interpretation lease: invariant_system lease_init lease_step lease_inv
  by unfold_locales (auto intro: lease_init_inv lease_step_inv)

subsection \<open>Properties\<close>

text \<open>One run and one release, used by the witnesses.\<close>

definition lease0 :: lease where
  "lease0 = \<lparr>ls_state = 0, ls_lock = None, ls_pc = (\<lambda>_. Idle)\<rparr>"

lemma lease0_init: "lease_init lease0" by (simp add: lease_init_def lease0_def)

lemma lease_run:
  "lease_step\<^sup>*\<^sup>* c c' \<Longrightarrow> act a (ls_pc c' a) (ls_state c') (ls_lock c') p s l n \<Longrightarrow>
   lease_step\<^sup>*\<^sup>* c (after c' a p s l n)"
  unfolding after_def by (rule rtranclp.rtrancl_into_rtrancl) (auto intro: lease_act)

lemma lease_release_run:
  "\<exists>c. lease_step\<^sup>*\<^sup>* lease0 c \<and> ls_pc c 0 = Releasing"
proof -
  let ?R = "GRAPH_LEASE_RELEASING"
  define c1 where "c1 = after lease0 0 (Load True) 0 None False"
  define c2 where "c2 = after c1 0 (Cas True 0) 0 None False"
  define c3 where "c3 = after c2 0 Rel_Lock (0 OR ?R) None False"
  define c4 where "c4 = after c3 0 Rel_Check ?R (Some 0) False"
  define c5 where "c5 = after c4 0 Rel_Unlock ?R (Some 0) False"
  define c6 where "c6 = after c5 0 Releasing ?R None False"
  note defs = lease0_def c1_def c2_def c3_def c4_def c5_def c6_def
  have "lease_step\<^sup>*\<^sup>* lease0 c1" unfolding c1_def
    by (rule lease_run) (auto simp: lease0_def intro: act.intros)
  then have "lease_step\<^sup>*\<^sup>* lease0 c2" unfolding c2_def
    by (rule lease_run) (auto simp: c1_def lease0_def intro: act.intros)
  then have "lease_step\<^sup>*\<^sup>* lease0 c3" unfolding c3_def
    by (rule lease_run) (simp add: c2_def cas_release del: or.left_neutral)
  then have "lease_step\<^sup>*\<^sup>* lease0 c4" unfolding c4_def
    by (rule lease_run) (simp add: c3_def act.intros)
  then have "lease_step\<^sup>*\<^sup>* lease0 c5" unfolding c5_def
    by (rule lease_run) (simp add: c4_def act.intros GRAPH_LEASE_RELEASING_def GRAPH_LEASE_ACTIVE_MASK_def)
  then have "lease_step\<^sup>*\<^sup>* lease0 c6" unfolding c6_def
    by (rule lease_run) (simp add: c5_def act.intros)
  then show ?thesis by (intro exI [of _ c6]) (simp add: c6_def)
qed

text \<open>
  C21. In every state any number of concurrent runs and releases can reach: the provider's
  release call runs only while no run holds the lease, at most one release is past its
  compare-exchange, and the word holds the number of runs that hold the lease, which has not
  reached the release bit, together with the release bit.
\<close>

theorem lease_exclusion:
  assumes "lease_init c" "lease_step\<^sup>*\<^sup>* c c'"
  shows "(\<forall>a b. ls_pc c' a = Releasing \<longrightarrow> \<not> is_holder (ls_pc c' b)) \<and>
    (\<forall>a b. is_releaser (ls_pc c' a) \<and> is_releaser (ls_pc c' b) \<longrightarrow> a = b) \<and>
    finite (holders c') \<and> unat (ls_state c') = (if releasers c' = {} then 0 else 2 ^ 63) + card (holders c') \<and>
    card (holders c') < 2 ^ 63"
proof -
  have inv: "count_inv c'" using lease.reachable_inv [OF assms] by (simp add: lease_inv_def)
  then have st: "ls_state c' = enc (releasers c' \<noteq> {}) (card (holders c'))" "card (holders c') < 2 ^ 63"
    by (simp_all add: count_inv_def)
  have "\<not> is_holder (ls_pc c' b)" if "ls_pc c' a = Releasing" for a b
  proof -
    have "is_drained (ls_pc c' a)" using that by simp
    then have "holders c' = {}" using inv unfolding count_inv_def by blast
    then show ?thesis by (auto simp: holders_def)
  qed
  then show ?thesis using inv st(2) by (auto simp: st(1) unat_enc count_inv_def)
qed

theorem lease_exclusion_witness:
  "\<exists>c. lease_step\<^sup>*\<^sup>* lease0 c \<and> ls_pc c 0 = Releasing \<and> \<not> is_holder (ls_pc c 1)"
  using lease_release_run lease_exclusion [OF lease0_init] by blast

text \<open>
  C34. No wakeup is lost: a release that sleeps, or is about to, while no run holds the lease
  any more, is about to be notified by the run that left last; a run or a second release that
  sleeps while no release is in progress is about to be notified by the release that ended. And
  no guard is ever dropped with a zero count, nor does the debug assertion of \<open>end_release\<close>
  fail.
\<close>

theorem lease_no_lost_wakeup:
  assumes "lease_init c" "lease_step\<^sup>*\<^sup>* c c'"
  shows "(\<forall>a. ls_pc c' a \<in> {Rel_Wait, Rel_Sleep} \<and> holders c' = {} \<longrightarrow>
      (\<exists>d. ls_pc c' d \<in> {Drop_Lock, Drop_Notify})) \<and>
    (\<forall>a b. ls_pc c' a \<in> {Wait b, Sleep b} \<and> releasers c' = {} \<longrightarrow> (\<exists>e. ls_pc c' e = End_Notify)) \<and>
    (\<forall>a previous. ls_pc c' a = Drop_Cas previous \<longrightarrow> previous AND GRAPH_LEASE_ACTIVE_MASK \<noteq> 0) \<and>
    (\<forall>a. ls_pc c' a = End_Store \<longrightarrow> ls_state c' AND GRAPH_LEASE_ACTIVE_MASK = 0)"
proof -
  have inv: "count_inv c'" "wakeup_inv c'"
    using lease.reachable_inv [OF assms] by (simp_all add: lease_inv_def)
  have st: "ls_state c' = enc (releasers c' \<noteq> {}) (card (holders c'))" "card (holders c') < 2 ^ 63"
    using inv(1) by (simp_all add: count_inv_def)
  have 1: "previous AND GRAPH_LEASE_ACTIVE_MASK \<noteq> 0" if "ls_pc c' a = Drop_Cas previous" for a previous
  proof -
    have "pc_ok (ls_pc c' a)" using inv(1) unfolding count_inv_def by blast
    then show ?thesis using that by auto
  qed
  have 2: "ls_state c' AND GRAPH_LEASE_ACTIVE_MASK = 0" if "ls_pc c' a = End_Store" for a
  proof -
    have "is_drained (ls_pc c' a)" using that by simp
    then have "holders c' = {}" using inv(1) unfolding count_inv_def by blast
    then show ?thesis using st by simp
  qed
  show ?thesis using inv(2) 1 2 unfolding wakeup_inv_def by blast
qed

theorem lease_no_lost_wakeup_witness:
  "\<exists>c. lease_step\<^sup>*\<^sup>* lease0 c \<and> ls_pc c 0 = Releasing \<and>
     (\<forall>a previous. ls_pc c a = Drop_Cas previous \<longrightarrow> previous AND GRAPH_LEASE_ACTIVE_MASK \<noteq> 0)"
  using lease_release_run lease_no_lost_wakeup [OF lease0_init] by blast

lemma allocate_many_range:
  "allocate_many k n = (ids, m) \<Longrightarrow> n \<le> m \<and> distinct ids \<and> set ids = {n..<m} \<and> (n \<le> i32_max \<longrightarrow> m \<le> i32_max)"
proof (induction k arbitrary: n ids m)
  case 0
  then show ?case by simp
next
  case (Suc k)
  show ?case
  proof (cases "n + 1 \<le> i32_max")
    case True
    then obtain ids' where "allocate_many k (n + 1) = (ids', m)" "ids = n # ids'"
      using Suc.prems by (auto simp: allocate_captured_graph_id_def split: prod.splits)
    then show ?thesis using Suc.IH [of "n + 1" ids' m] True by auto
  next
    case False
    then show ?thesis using Suc by (simp add: allocate_captured_graph_id_def)
  qed
qed

text \<open>
  C35. However many graph ids a process allocates, no id is handed out twice and every one is
  positive and fits an \<open>i32\<close>; when the ids run out every further request is refused.
\<close>

theorem graph_ids_unique:
  "case allocate_many k NEXT_CAPTURED_GRAPH_ID of (ids, m) \<Rightarrow>
     distinct ids \<and> set ids = {1..<m} \<and> m \<le> i32_max"
proof -
  obtain ids m where "allocate_many k NEXT_CAPTURED_GRAPH_ID = (ids, m)" by fastforce
  then show ?thesis
    using allocate_many_range [of k NEXT_CAPTURED_GRAPH_ID ids m]
    by (simp add: NEXT_CAPTURED_GRAPH_ID_def i32_max_def)
qed

end
