(* ===== verification/Recovery.thy ===== *)
theory Recovery
  imports Prelude "HOL-Library.Multiset"
begin

text \<open>
  The recovery slots of st-zrt/src/runtime.rs (\<open>RecoveryCell\<close>, \<open>RecoverySlots\<close>): when the token
  of an enqueued run is dropped instead of completed, its lane is put into a fixed cell and the
  cell is pushed on a Treiber stack of slot numbers; the runtime, the only consumer, pops the
  stack and takes the lanes back.

  First the calls one at a time, which is how the runtime model uses them; then any number of
  producers and the consumer interleaving at the granularity of single atomic accesses. The null
  link is \<open>usize::MAX\<close>.
\<close>

subsection \<open>The calls\<close>

record 'a recovery_slots =
  rs_value :: "'a option list"
  rs_occupied :: "bool list"
  rs_head :: nat
  rs_next :: "nat list"

definition recovery_new :: "nat \<Rightarrow> 'a recovery_slots" where
  "recovery_new n = \<lparr>rs_value = replicate n None, rs_occupied = replicate n False,
     rs_head = usize_max, rs_next = replicate n usize_max\<rparr>"

text \<open>\<open>RecoveryCell::publish\<close> and \<open>RecoveryCell::take\<close> of the cell at a valid index.\<close>

definition cell_publish :: "nat \<Rightarrow> 'a \<Rightarrow> 'a recovery_slots \<Rightarrow> ('a + unit) \<times> 'a recovery_slots" where
  "cell_publish slot v s =
     (if rs_occupied s ! slot then (Inl v, s)
      else (Inr (), s\<lparr>rs_occupied := (rs_occupied s)[slot := True], rs_value := (rs_value s)[slot := Some v]\<rparr>))"

definition cell_take :: "nat \<Rightarrow> 'a recovery_slots \<Rightarrow> 'a option \<times> 'a recovery_slots" where
  "cell_take slot s =
     (rs_value s ! slot, s\<lparr>rs_value := (rs_value s)[slot := None], rs_occupied := (rs_occupied s)[slot := False]\<rparr>)"

text \<open>\<open>recover\<close>: the second component is the lane that is leaked, if one is.\<close>

definition recover :: "nat \<Rightarrow> 'a \<Rightarrow> 'a recovery_slots \<Rightarrow> 'a recovery_slots \<times> 'a option" where
  "recover slot v s =
     (if length (rs_value s) \<le> slot then (s, Some v)
      else case cell_publish slot v s of
        (Inl w, s') \<Rightarrow> (s', Some w)
      | (Inr _, s') \<Rightarrow> (s'\<lparr>rs_next := (rs_next s')[slot := rs_head s'], rs_head := slot\<rparr>, None))"

definition pop_ready :: "'a recovery_slots \<Rightarrow> (nat option \<times> 'a recovery_slots) run" where
  "pop_ready s =
     (if rs_head s = usize_max then Ret (None, s)
      else bind_run (index_run (rs_next s) (rs_head s)) (\<lambda>nxt. Ret (Some (rs_head s), s\<lparr>rs_head := nxt\<rparr>)))"

subsection \<open>The linked stack\<close>

fun chain :: "nat list \<Rightarrow> nat \<Rightarrow> nat list \<Rightarrow> bool" where
  "chain nx h [] \<longleftrightarrow> h = usize_max"
| "chain nx h (x # xs) \<longleftrightarrow> h = x \<and> x < length nx \<and> chain nx (nx ! x) xs"

lemma chain_update [simp]: "i \<notin> set st \<Longrightarrow> chain (nx[i := v]) h st = chain nx h st"
  by (induction st arbitrary: h) auto

lemma chain_in_range: "chain nx h st \<Longrightarrow> x \<in> set st \<Longrightarrow> x < length nx"
  by (induction st arbitrary: h) auto

text \<open>\<open>holds_lanes s st\<close>: the stack is \<open>st\<close>, and exactly its cells are occupied and filled.\<close>

definition slots_size :: "'a recovery_slots \<Rightarrow> nat \<Rightarrow> bool" where
  "slots_size s n \<longleftrightarrow> length (rs_value s) = n \<and> length (rs_occupied s) = n \<and> length (rs_next s) = n \<and> n < usize_max"

definition holds_lanes :: "'a recovery_slots \<Rightarrow> nat list \<Rightarrow> bool" where
  "holds_lanes s st \<longleftrightarrow> slots_size s (length (rs_value s)) \<and> distinct st \<and> chain (rs_next s) (rs_head s) st \<and>
     (\<forall>i < length (rs_value s). (rs_occupied s ! i \<longleftrightarrow> i \<in> set st) \<and> (rs_value s ! i \<noteq> None \<longleftrightarrow> i \<in> set st))"

lemma lanes_new: "n < usize_max \<Longrightarrow> holds_lanes (recovery_new n) []"
  by (simp add: holds_lanes_def recovery_new_def slots_size_def)

lemma lanes_recover:
  assumes "holds_lanes s st" "i < length (rs_value s)"
  shows "i \<notin> set st \<Longrightarrow> \<exists>s'. recover i v s = (s', None) \<and> holds_lanes s' (i # st) \<and>
      rs_value s' = (rs_value s)[i := Some v]"
    and "i \<in> set st \<Longrightarrow> recover i v s = (s, Some v)"
  using assms
  by (auto simp: recover_def cell_publish_def holds_lanes_def slots_size_def nth_list_update)

lemma lanes_pop:
  assumes "holds_lanes s st"
  shows "st = [] \<Longrightarrow> pop_ready s = Ret (None, s)"
    and "st = i # rest \<Longrightarrow> \<exists>s' v s''. pop_ready s = Ret (Some i, s') \<and> rs_value s ! i = Some v \<and>
      cell_take i s' = (Some v, s'') \<and> holds_lanes s'' rest \<and> rs_value s'' = (rs_value s)[i := None]"
proof -
  show "st = [] \<Longrightarrow> pop_ready s = Ret (None, s)"
    using assms by (simp add: pop_ready_def holds_lanes_def)
  assume st: "st = i # rest"
  then have i: "i < length (rs_next s)" "i < usize_max" "i < length (rs_value s)"
    using assms by (auto simp: holds_lanes_def slots_size_def)
  then obtain v where "rs_value s ! i = Some v" using assms st by (auto simp: holds_lanes_def)
  then show "\<exists>s' v s''. pop_ready s = Ret (Some i, s') \<and> rs_value s ! i = Some v \<and>
      cell_take i s' = (Some v, s'') \<and> holds_lanes s'' rest \<and> rs_value s'' = (rs_value s)[i := None]"
    using assms st i
    by (auto simp: pop_ready_def cell_take_def holds_lanes_def slots_size_def nth_list_update)
qed

subsection \<open>Concurrent producers\<close>

datatype 'a producer_pc =
    P_idle
  | P_publish nat 'a          \<comment> \<open>the slot is in range\<close>
  | P_write nat 'a            \<comment> \<open>the cell is reserved\<close>
  | P_load nat                \<comment> \<open>the value is stored\<close>
  | P_next nat nat            \<comment> \<open>a head has been observed\<close>
  | P_cas nat nat             \<comment> \<open>the link is stored\<close>

datatype 'a consumer_pc =
    C_idle
  | C_test nat                \<comment> \<open>a head has been observed\<close>
  | C_cas nat nat             \<comment> \<open>its link has been loaded\<close>
  | C_take nat                \<comment> \<open>popped\<close>
  | C_clear nat               \<comment> \<open>the value is taken\<close>

record 'a recovery_state =
  rc_slots :: "'a recovery_slots"
  rc_prod :: "nat \<Rightarrow> 'a producer_pc"
  rc_cons :: "'a consumer_pc"
  rc_published :: "'a multiset"
  rc_taken :: "'a multiset"

text \<open>
  The last two fields record what was stored in cells and what was taken out; no step reads
  them. A producer that finds its slot out of range or its cell occupied leaks the lane and is
  done. A weak compare-exchange may fail at any time with the current head.
\<close>

inductive producer_step :: "'a recovery_state \<Rightarrow> 'a recovery_state \<Rightarrow> bool" where
  prod_start: "rc_prod c p = P_idle \<Longrightarrow> i < length (rs_value (rc_slots c)) \<Longrightarrow>
    producer_step c (c\<lparr>rc_prod := (rc_prod c)(p := P_publish i v)\<rparr>)"
| prod_occupied: "rc_prod c p = P_publish i v \<Longrightarrow> rs_occupied (rc_slots c) ! i \<Longrightarrow>
    producer_step c (c\<lparr>rc_prod := (rc_prod c)(p := P_idle)\<rparr>)"
| prod_reserve: "rc_prod c p = P_publish i v \<Longrightarrow> \<not> rs_occupied (rc_slots c) ! i \<Longrightarrow>
    producer_step c (c\<lparr>rc_prod := (rc_prod c)(p := P_write i v),
      rc_slots := (rc_slots c)\<lparr>rs_occupied := (rs_occupied (rc_slots c))[i := True]\<rparr>\<rparr>)"
| prod_write: "rc_prod c p = P_write i v \<Longrightarrow>
    producer_step c (c\<lparr>rc_prod := (rc_prod c)(p := P_load i), rc_published := add_mset v (rc_published c),
      rc_slots := (rc_slots c)\<lparr>rs_value := (rs_value (rc_slots c))[i := Some v]\<rparr>\<rparr>)"
| prod_load: "rc_prod c p = P_load i \<Longrightarrow>
    producer_step c (c\<lparr>rc_prod := (rc_prod c)(p := P_next i (rs_head (rc_slots c)))\<rparr>)"
| prod_next: "rc_prod c p = P_next i h \<Longrightarrow>
    producer_step c (c\<lparr>rc_prod := (rc_prod c)(p := P_cas i h),
      rc_slots := (rc_slots c)\<lparr>rs_next := (rs_next (rc_slots c))[i := h]\<rparr>\<rparr>)"
| prod_cas: "rc_prod c p = P_cas i h \<Longrightarrow> rs_head (rc_slots c) = h \<Longrightarrow>
    producer_step c (c\<lparr>rc_prod := (rc_prod c)(p := P_idle), rc_slots := (rc_slots c)\<lparr>rs_head := i\<rparr>\<rparr>)"
| prod_cas_fail: "rc_prod c p = P_cas i h \<Longrightarrow>
    producer_step c (c\<lparr>rc_prod := (rc_prod c)(p := P_next i (rs_head (rc_slots c)))\<rparr>)"

inductive consumer_step :: "'a recovery_state \<Rightarrow> 'a recovery_state \<Rightarrow> bool" where
  cons_load: "rc_cons c = C_idle \<Longrightarrow> consumer_step c (c\<lparr>rc_cons := C_test (rs_head (rc_slots c))\<rparr>)"
| cons_none: "rc_cons c = C_test h \<Longrightarrow> h = usize_max \<Longrightarrow> consumer_step c (c\<lparr>rc_cons := C_idle\<rparr>)"
| cons_next: "rc_cons c = C_test h \<Longrightarrow> h \<noteq> usize_max \<Longrightarrow> h < length (rs_next (rc_slots c)) \<Longrightarrow>
    consumer_step c (c\<lparr>rc_cons := C_cas h (rs_next (rc_slots c) ! h)\<rparr>)"
| cons_cas: "rc_cons c = C_cas h n \<Longrightarrow> rs_head (rc_slots c) = h \<Longrightarrow>
    consumer_step c (c\<lparr>rc_cons := C_take h, rc_slots := (rc_slots c)\<lparr>rs_head := n\<rparr>\<rparr>)"
| cons_cas_fail: "rc_cons c = C_cas h n \<Longrightarrow> consumer_step c (c\<lparr>rc_cons := C_test (rs_head (rc_slots c))\<rparr>)"
| cons_take: "rc_cons c = C_take i \<Longrightarrow> rs_value (rc_slots c) ! i = Some v \<Longrightarrow>
    consumer_step c (c\<lparr>rc_cons := C_clear i, rc_taken := add_mset v (rc_taken c),
      rc_slots := (rc_slots c)\<lparr>rs_value := (rs_value (rc_slots c))[i := None]\<rparr>\<rparr>)"
| cons_take_none: "rc_cons c = C_take i \<Longrightarrow> rs_value (rc_slots c) ! i = None \<Longrightarrow>
    consumer_step c (c\<lparr>rc_cons := C_clear i\<rparr>)"
| cons_clear: "rc_cons c = C_clear i \<Longrightarrow>
    consumer_step c (c\<lparr>rc_cons := C_idle,
      rc_slots := (rc_slots c)\<lparr>rs_occupied := (rs_occupied (rc_slots c))[i := False]\<rparr>\<rparr>)"

definition recovery_step :: "'a recovery_state \<Rightarrow> 'a recovery_state \<Rightarrow> bool" where
  "recovery_step c c' \<longleftrightarrow> producer_step c c' \<or> consumer_step c c'"

definition recovery_init :: "'a recovery_state \<Rightarrow> bool" where
  "recovery_init c \<longleftrightarrow> (\<exists>n < usize_max. rc_slots c = recovery_new n) \<and> (\<forall>p. rc_prod c p = P_idle) \<and>
     rc_cons c = C_idle \<and> rc_published c = {#} \<and> rc_taken c = {#}"

subsection \<open>Invariant\<close>

fun prod_slot :: "'a producer_pc \<Rightarrow> nat option" where
  "prod_slot (P_write i _) = Some i"
| "prod_slot (P_load i) = Some i"
| "prod_slot (P_next i _) = Some i"
| "prod_slot (P_cas i _) = Some i"
| "prod_slot _ = None"

fun cons_slot :: "'a consumer_pc \<Rightarrow> nat option" where
  "cons_slot (C_take i) = Some i"
| "cons_slot (C_clear i) = Some i"
| "cons_slot _ = None"

datatype owner = Free | On_stack | Producer nat | Consumer

text \<open>
  Every cell has one owner. \<open>owns c st f\<close>: \<open>f\<close> assigns the owners, the stack being \<open>st\<close>.
\<close>

definition owns :: "'a recovery_state \<Rightarrow> nat list \<Rightarrow> (nat \<Rightarrow> owner) \<Rightarrow> bool" where
  "owns c st f \<longleftrightarrow> (\<forall>i. i \<in> set st \<longleftrightarrow> f i = On_stack) \<and>
     (\<forall>i p. prod_slot (rc_prod c p) = Some i \<longleftrightarrow> f i = Producer p) \<and>
     (\<forall>i. cons_slot (rc_cons c) = Some i \<longleftrightarrow> f i = Consumer)"

fun prod_ok :: "nat list \<Rightarrow> nat \<Rightarrow> 'a producer_pc \<Rightarrow> bool" where
  "prod_ok nx n (P_publish i _) = (i < n)"
| "prod_ok nx n (P_cas i h) = (nx ! i = h)"
| "prod_ok nx n _ = True"

fun cons_ok :: "nat list \<Rightarrow> nat list \<Rightarrow> 'a consumer_pc \<Rightarrow> bool" where
  "cons_ok nx st (C_test h) = (h = usize_max \<or> h \<in> set st)"
| "cons_ok nx st (C_cas h m) = (h \<in> set st \<and> nx ! h = m)"
| "cons_ok nx st _ = True"

fun written :: "'a producer_pc \<Rightarrow> bool" where
  "written (P_write _ _) = False"
| "written _ = True"

fun untaken :: "'a consumer_pc \<Rightarrow> bool" where
  "untaken (C_take _) = True"
| "untaken _ = False"

fun filled :: "'a recovery_state \<Rightarrow> owner \<Rightarrow> bool" where
  "filled c Free = False"
| "filled c On_stack = True"
| "filled c (Producer p) = written (rc_prod c p)"
| "filled c Consumer = untaken (rc_cons c)"

definition values_in :: "'a option list \<Rightarrow> 'a multiset" where
  "values_in vs = mset (List.map_filter id vs)"

definition recovery_inv_with :: "'a recovery_state \<Rightarrow> nat list \<Rightarrow> (nat \<Rightarrow> owner) \<Rightarrow> bool" where
  "recovery_inv_with c st f \<longleftrightarrow>
     (let s = rc_slots c; n = length (rs_value s) in
      slots_size s n \<and> distinct st \<and> chain (rs_next s) (rs_head s) st \<and> owns c st f \<and>
      (\<forall>i. n \<le> i \<longrightarrow> f i = Free) \<and>
      (\<forall>i < n. rs_occupied s ! i \<longleftrightarrow> f i \<noteq> Free) \<and>
      (\<forall>i < n. rs_value s ! i \<noteq> None \<longleftrightarrow> filled c (f i)) \<and>
      (\<forall>p. prod_ok (rs_next s) n (rc_prod c p)) \<and> cons_ok (rs_next s) st (rc_cons c) \<and>
      rc_published c = rc_taken c + values_in (rs_value s))"

definition recovery_inv :: "'a recovery_state \<Rightarrow> bool" where
  "recovery_inv c \<longleftrightarrow> (\<exists>st f. recovery_inv_with c st f)"

lemma values_in_split:
  assumes "i < length vs"
  shows "values_in (vs[i := x]) = values_in (take i vs) + values_in [x] + values_in (drop (Suc i) vs)"
    and "values_in vs = values_in (take i vs) + values_in [vs ! i] + values_in (drop (Suc i) vs)"
proof -
  have app: "values_in (as @ b # cs) = values_in as + values_in [b] + values_in cs" for as cs and b :: "'a option"
    by (simp add: values_in_def List.map_filter_def)
  show "values_in (vs[i := x]) = values_in (take i vs) + values_in [x] + values_in (drop (Suc i) vs)"
    using app by (simp only: upd_conv_take_nth_drop [OF assms])
  show "values_in vs = values_in (take i vs) + values_in [vs ! i] + values_in (drop (Suc i) vs)"
    using app id_take_nth_drop [OF assms] by metis
qed

lemma values_in_one [simp]: "values_in [None] = {#}" "values_in [Some v] = {#v#}"
  by (simp_all add: values_in_def List.map_filter_def)

lemma values_in_put:
  assumes "i < length vs" "vs ! i = None" shows "values_in (vs[i := Some v]) = add_mset v (values_in vs)"
  using values_in_split [OF assms(1)] assms(2) by simp

lemma values_in_get:
  assumes "i < length vs" "vs ! i = Some v" shows "values_in vs = add_mset v (values_in (vs[i := None]))"
  using values_in_split [OF assms(1)] assms(2) by simp

lemma recovery_init_inv:
  assumes "recovery_init c" shows "recovery_inv c"
proof -
  obtain n where n: "n < usize_max" "rc_slots c = recovery_new n" using assms by (auto simp: recovery_init_def)
  have "values_in (replicate n None :: 'a option list) = {#}"
    by (induction n) (simp_all add: values_in_def List.map_filter_def)
  then have "recovery_inv_with c [] (\<lambda>_. Free)"
    using assms n by (simp add: recovery_inv_with_def recovery_init_def recovery_new_def slots_size_def owns_def)
  then show ?thesis by (auto simp: recovery_inv_def)
qed

text \<open>The parts of the invariant, for the proofs of the single steps.\<close>

lemma recovery_invD:
  assumes "recovery_inv_with c st f"
  shows "slots_size (rc_slots c) (length (rs_value (rc_slots c)))" "distinct st"
    "chain (rs_next (rc_slots c)) (rs_head (rc_slots c)) st"
    "i \<in> set st \<longleftrightarrow> f i = On_stack" "prod_slot (rc_prod c p) = Some i \<longleftrightarrow> f i = Producer p"
    "cons_slot (rc_cons c) = Some i \<longleftrightarrow> f i = Consumer"
    "length (rs_value (rc_slots c)) \<le> i \<Longrightarrow> f i = Free"
    "i < length (rs_value (rc_slots c)) \<Longrightarrow> rs_occupied (rc_slots c) ! i \<longleftrightarrow> f i \<noteq> Free"
    "i < length (rs_value (rc_slots c)) \<Longrightarrow> rs_value (rc_slots c) ! i \<noteq> None \<longleftrightarrow> filled c (f i)"
    "prod_ok (rs_next (rc_slots c)) (length (rs_value (rc_slots c))) (rc_prod c p)"
    "cons_ok (rs_next (rc_slots c)) st (rc_cons c)"
    "rc_published c = rc_taken c + values_in (rs_value (rc_slots c))"
  using assms by (simp_all add: recovery_inv_with_def owns_def Let_def)

lemma owned_in_range:
  assumes "recovery_inv_with c st f" "f i \<noteq> Free" shows "i < length (rs_value (rc_slots c))"
  using recovery_invD(7) [OF assms(1)] assms(2) by (meson not_le)

text \<open>
  A producer step that changes no owner: the new counter, link and link table must agree with
  the old ones on everything the invariant speaks of.
\<close>

lemma producer_keep:
  assumes inv: "recovery_inv_with c st f"
    and q: "prod_slot q = prod_slot (rc_prod c p)" "prod_slot q \<noteq> None \<longrightarrow> written q = written (rc_prod c p)"
    and nx: "length nx = length (rs_next (rc_slots c))"
      "\<And>j. nx ! j \<noteq> rs_next (rc_slots c) ! j \<Longrightarrow> f j = Producer p"
    and ok: "prod_ok nx (length (rs_value (rc_slots c))) q"
  shows "recovery_inv_with (c\<lparr>rc_prod := (rc_prod c)(p := q), rc_slots := (rc_slots c)\<lparr>rs_next := nx\<rparr>\<rparr>) st f"
    (is "recovery_inv_with ?c st f")
proof -
  note D = recovery_invD [OF inv]
  have same: "nx ! j = rs_next (rc_slots c) ! j" if "f j \<noteq> Producer p" for j using nx(2) that by blast
  have "chain nx h st \<longleftrightarrow> chain (rs_next (rc_slots c)) h st" if "\<forall>j \<in> set st. f j = On_stack" for h
    using that same nx(1) by (induction st arbitrary: h) auto
  then have ch: "chain nx (rs_head (rc_slots c)) st" using D(3) D(4) by blast
  have own: "owns ?c st f" using D(4-6) q(1) by (auto simp: owns_def)
  have fill: "filled ?c (f i) = filled c (f i)" for i
    using q D(5) [of p i] by (cases "f i") auto
  have pok: "prod_ok nx (length (rs_value (rc_slots c))) (rc_prod ?c r)" for r
  proof (cases "r = p")
    case True
    then show ?thesis using ok by simp
  next
    case False
    then have "\<And>j h. rc_prod c r = P_cas j h \<Longrightarrow> f j \<noteq> Producer p"
      using D(5) [of r] by (metis owner.inject prod_slot.simps(4))
    then show ?thesis using False D(10) [of r] same by (cases "rc_prod c r") auto
  qed
  have "cons_ok nx st (rc_cons c)"
    using D(11) D(4) same by (cases "rc_cons c") auto
  then show ?thesis
    using ch own fill pok D(1,2,7,8,9,12) nx(1) by (simp add: recovery_inv_with_def slots_size_def)
qed

lemma producer_keep_links:
  assumes "recovery_inv_with c st f"
    "prod_slot q = prod_slot (rc_prod c p)" "prod_slot q \<noteq> None \<longrightarrow> written q = written (rc_prod c p)"
    "prod_ok (rs_next (rc_slots c)) (length (rs_value (rc_slots c))) q"
  shows "recovery_inv (c\<lparr>rc_prod := (rc_prod c)(p := q)\<rparr>)"
  using producer_keep [OF assms(1-3) _ _ assms(4)] by (auto simp: recovery_inv_def)

lemma producer_reserve:
  assumes inv: "recovery_inv_with c st f" and pc: "rc_prod c p = P_publish i v"
    and free: "\<not> rs_occupied (rc_slots c) ! i"
  shows "recovery_inv_with (c\<lparr>rc_prod := (rc_prod c)(p := P_write i v),
      rc_slots := (rc_slots c)\<lparr>rs_occupied := (rs_occupied (rc_slots c))[i := True]\<rparr>\<rparr>) st (f(i := Producer p))"
    (is "recovery_inv_with ?c st ?f")
proof -
  note D = recovery_invD [OF inv]
  have i: "i < length (rs_value (rc_slots c))" using D(10) [of p] pc by simp
  have fi: "f i = Free" using D(8) [OF i] free by simp
  have no: "f j \<noteq> Producer p" for j using D(5) [of p j] pc by simp
  have "owns ?c st ?f" unfolding owns_def
    using D(4) [of i] D(4) D(5) D(6) fi no by (auto split: if_splits)
  moreover have "filled ?c (?f j) = filled c (f j)" for j
    using no [of j] fi by (cases "f j") auto
  moreover have "prod_ok nx n (rc_prod ?c r)" if "prod_ok nx n (rc_prod c r)" for nx n r
    using that by simp
  ultimately show ?thesis
    using D i fi by (auto simp: recovery_inv_with_def slots_size_def nth_list_update)
qed

lemma producer_write:
  assumes inv: "recovery_inv_with c st f" and pc: "rc_prod c p = P_write i v"
  shows "recovery_inv_with (c\<lparr>rc_prod := (rc_prod c)(p := P_load i),
      rc_published := add_mset v (rc_published c),
      rc_slots := (rc_slots c)\<lparr>rs_value := (rs_value (rc_slots c))[i := Some v]\<rparr>\<rparr>) st f"
    (is "recovery_inv_with ?c st f")
proof -
  note D = recovery_invD [OF inv]
  have fi: "f i = Producer p" using D(5) [of p i] pc by simp
  have i: "i < length (rs_value (rc_slots c))" using owned_in_range [OF inv] fi by simp
  have v: "rs_value (rc_slots c) ! i = None" using D(9) [OF i] fi pc by simp
  have uniq: "f j = Producer p \<longleftrightarrow> j = i" for j using D(5) [of p j] pc by auto
  have own: "owns ?c st f" by (auto simp: owns_def D(4-6) uniq)
  have "filled ?c (f j) = (if j = i then True else filled c (f j))" for j
    using uniq [of j] fi by (cases "f j") auto
  then show ?thesis
    using own D i v values_in_put [OF i v, of v]
    by (auto simp: recovery_inv_with_def slots_size_def nth_list_update)
qed

lemma producer_push:
  assumes inv: "recovery_inv_with c st f" and pc: "rc_prod c p = P_cas i h" and h: "rs_head (rc_slots c) = h"
  shows "recovery_inv_with (c\<lparr>rc_prod := (rc_prod c)(p := P_idle),
      rc_slots := (rc_slots c)\<lparr>rs_head := i\<rparr>\<rparr>) (i # st) (f(i := On_stack))"
    (is "recovery_inv_with ?c _ ?f")
proof -
  note D = recovery_invD [OF inv]
  have fi: "f i = Producer p" using D(5) [of p i] pc by simp
  have i: "i < length (rs_value (rc_slots c))" using owned_in_range [OF inv] fi by simp
  have nst: "i \<notin> set st" using D(4) [of i] fi by simp
  have nx: "rs_next (rc_slots c) ! i = h" using D(10) [of p] pc by simp
  have uniq: "f j = Producer p \<longleftrightarrow> j = i" for j using D(5) [of p j] pc by auto
  have own: "owns ?c (i # st) ?f" by (auto simp: owns_def D(4-6) uniq fi)
  have "filled ?c (?f j) = filled c (f j)" for j
    using uniq [of j] fi pc by (cases "f j") auto
  moreover have "cons_ok (rs_next (rc_slots c)) (i # st) (rc_cons c)"
    using D(11) by (cases "rc_cons c") auto
  ultimately show ?thesis
    using own D i nst nx h fi by (auto simp: recovery_inv_with_def slots_size_def)
qed

lemma producer_step_inv:
  assumes inv: "recovery_inv_with c st f" and step: "producer_step c c'"
  shows "recovery_inv c'"
  using step
proof (cases rule: producer_step.cases)
  case (prod_start p i v)
  then show ?thesis using producer_keep_links [OF inv] by simp
next
  case (prod_occupied p i v)
  then show ?thesis using producer_keep_links [OF inv] by simp
next
  case (prod_load p i)
  then show ?thesis using producer_keep_links [OF inv] by simp
next
  case (prod_cas_fail p i h)
  then show ?thesis using producer_keep_links [OF inv] by simp
next
  case (prod_reserve p i v)
  show ?thesis
    using producer_reserve [OF inv prod_reserve(2,3)] unfolding prod_reserve(1) recovery_inv_def by blast
next
  case (prod_write p i v)
  show ?thesis
    using producer_write [OF inv prod_write(2)] unfolding prod_write(1) recovery_inv_def by blast
next
  case (prod_next p i h)
  have fi: "f i = Producer p" using recovery_invD(5) [OF inv, of p i] prod_next by simp
  have "i < length (rs_next (rc_slots c))"
    using owned_in_range [OF inv, of i] fi recovery_invD(1) [OF inv] by (simp add: slots_size_def)
  then have "recovery_inv_with c' st f"
    unfolding prod_next(1) using prod_next(2) fi
    by (intro producer_keep [OF inv]) (auto simp: nth_list_update split: if_splits)
  then show ?thesis by (auto simp: recovery_inv_def)
next
  case (prod_cas p i h)
  show ?thesis
    using producer_push [OF inv prod_cas(2,3)] unfolding prod_cas(1) recovery_inv_def by blast
qed

lemma chain_head:
  "chain nx h st \<Longrightarrow> h = usize_max \<or> h \<in> set st"
  by (cases st) auto

lemma consumer_keep:
  assumes inv: "recovery_inv_with c st f"
    and q: "cons_slot q = None" "cons_slot (rc_cons c) = None" "cons_ok (rs_next (rc_slots c)) st q"
  shows "recovery_inv (c\<lparr>rc_cons := q\<rparr>)"
proof -
  note D = recovery_invD [OF inv]
  have no: "f j \<noteq> Consumer" for j using D(6) [of j] q by simp
  have "owns (c\<lparr>rc_cons := q\<rparr>) st f" using D(4-6) q(1,2) by (auto simp: owns_def)
  moreover have "filled (c\<lparr>rc_cons := q\<rparr>) (f j) = filled c (f j)" for j
    using no [of j] by (cases "f j") auto
  ultimately have "recovery_inv_with (c\<lparr>rc_cons := q\<rparr>) st f"
    using D q(3) by (simp add: recovery_inv_with_def)
  then show ?thesis by (auto simp: recovery_inv_def)
qed

lemma consumer_pop:
  assumes inv: "recovery_inv_with c st f" and pc: "rc_cons c = C_cas h n" and h: "rs_head (rc_slots c) = h"
  shows "recovery_inv_with (c\<lparr>rc_cons := C_take h, rc_slots := (rc_slots c)\<lparr>rs_head := n\<rparr>\<rparr>) (tl st)
    (f(h := Consumer))" (is "recovery_inv_with ?c _ ?f")
proof -
  note D = recovery_invD [OF inv]
  have hs: "h \<in> set st" "rs_next (rc_slots c) ! h = n" using D(11) pc by auto
  have "h < usize_max"
    using chain_in_range [OF D(3) hs(1)] D(1) by (simp add: slots_size_def)
  then obtain rest where st: "st = h # rest"
    using hs(1) D(3) h by (cases st) auto
  have nr: "h \<notin> set rest" using D(2) st by simp
  have no: "f j \<noteq> Consumer" for j using D(6) [of j] pc by simp
  have fh: "f h = On_stack" using D(4) [of h] hs(1) by simp
  have own: "owns ?c rest ?f" unfolding owns_def
    using D(4-6) st nr no fh by (auto split: if_splits)
  have "filled ?c (?f j) = filled c (f j)" for j
    using no [of j] fh by (cases "f j") auto
  then show ?thesis
    using own D st hs h fh by (auto simp: recovery_inv_with_def slots_size_def)
qed

lemma consumer_take:
  assumes inv: "recovery_inv_with c st f" and pc: "rc_cons c = C_take i"
    and v: "rs_value (rc_slots c) ! i = Some v"
  shows "recovery_inv_with (c\<lparr>rc_cons := C_clear i, rc_taken := add_mset v (rc_taken c),
      rc_slots := (rc_slots c)\<lparr>rs_value := (rs_value (rc_slots c))[i := None]\<rparr>\<rparr>) st f"
    (is "recovery_inv_with ?c st f")
proof -
  note D = recovery_invD [OF inv]
  have fi: "f i = Consumer" using D(6) [of i] pc by simp
  have i: "i < length (rs_value (rc_slots c))" using owned_in_range [OF inv] fi by simp
  have uniq: "f j = Consumer \<longleftrightarrow> j = i" for j using D(6) [of j] pc by auto
  have own: "owns ?c st f" by (auto simp: owns_def D(4-5) uniq)
  have "filled ?c (f j) = (if j = i then False else filled c (f j))" for j
    using uniq [of j] fi by (cases "f j") auto
  then show ?thesis
    using own D(1-3) D(7-10) D(12) i v values_in_get [OF i v]
    by (auto simp: recovery_inv_with_def slots_size_def nth_list_update)
qed

lemma consumer_clear:
  assumes inv: "recovery_inv_with c st f" and pc: "rc_cons c = C_clear i"
  shows "recovery_inv_with (c\<lparr>rc_cons := C_idle,
      rc_slots := (rc_slots c)\<lparr>rs_occupied := (rs_occupied (rc_slots c))[i := False]\<rparr>\<rparr>) st (f(i := Free))"
    (is "recovery_inv_with ?c st ?f")
proof -
  note D = recovery_invD [OF inv]
  have fi: "f i = Consumer" using D(6) [of i] pc by simp
  have i: "i < length (rs_value (rc_slots c))" using owned_in_range [OF inv] fi by simp
  have uniq: "f j = Consumer \<longleftrightarrow> j = i" for j using D(6) [of j] pc by auto
  have own: "owns ?c st ?f" by (auto simp: owns_def D(4-6) uniq fi)
  have "filled ?c (?f j) = filled c (f j)" for j
    using uniq [of j] fi pc by (cases "f j") auto
  then show ?thesis
    using own D i fi by (auto simp: recovery_inv_with_def slots_size_def nth_list_update)
qed

lemma take_filled:
  assumes inv: "recovery_inv_with c st f" and pc: "rc_cons c = C_take i"
  shows "i < length (rs_value (rc_slots c)) \<and> rs_value (rc_slots c) ! i \<noteq> None"
proof -
  have fi: "f i = Consumer" using recovery_invD(6) [OF inv, of i] pc by simp
  then have "i < length (rs_value (rc_slots c))" using owned_in_range [OF inv] by simp
  then show ?thesis using recovery_invD(9) [OF inv] fi pc by simp
qed

lemma consumer_step_inv:
  assumes inv: "recovery_inv_with c st f" and step: "consumer_step c c'"
  shows "recovery_inv c'"
  using step
proof (cases rule: consumer_step.cases)
  case cons_load
  then show ?thesis
    using consumer_keep [OF inv] chain_head [OF recovery_invD(3) [OF inv]] by auto
next
  case (cons_none h)
  then show ?thesis using consumer_keep [OF inv] by simp
next
  case (cons_next h)
  then show ?thesis using consumer_keep [OF inv] recovery_invD(11) [OF inv] by auto
next
  case (cons_cas_fail h n)
  then show ?thesis
    using consumer_keep [OF inv] chain_head [OF recovery_invD(3) [OF inv]] by auto
next
  case (cons_cas h n)
  show ?thesis
    using consumer_pop [OF inv cons_cas(2,3)] unfolding cons_cas(1) recovery_inv_def by blast
next
  case (cons_take i v)
  show ?thesis
    using consumer_take [OF inv cons_take(2,3)] unfolding cons_take(1) recovery_inv_def by blast
next
  case (cons_take_none i)
  then show ?thesis using take_filled [OF inv] by simp
next
  case (cons_clear i)
  show ?thesis
    using consumer_clear [OF inv cons_clear(2)] unfolding cons_clear(1) recovery_inv_def by blast
qed

interpretation recovery: invariant_system recovery_init recovery_step recovery_inv
proof
  show "recovery_init c \<Longrightarrow> recovery_inv c" for c :: "'a recovery_state" by (rule recovery_init_inv)
  show "recovery_inv c \<Longrightarrow> recovery_step c c' \<Longrightarrow> recovery_inv c'" for c c' :: "'a recovery_state"
    unfolding recovery_step_def recovery_inv_def [of c]
    using producer_step_inv consumer_step_inv by blast
qed

subsection \<open>Properties\<close>

text \<open>
  C22. However producers and the consumer interleave, and whatever slots the producers name:
  every lane stored in a cell is either still in its cell or has been taken out exactly once; a
  cell reserved by one producer is reserved by no other and not being emptied by the consumer;
  the consumer never follows a link out of the table, and a popped cell always holds a lane.
\<close>

theorem recovery_conserves:
  assumes "recovery_init c" "recovery_step\<^sup>*\<^sup>* c c'"
  shows "rc_published c' = rc_taken c' + values_in (rs_value (rc_slots c')) \<and>
    (\<forall>p q i. prod_slot (rc_prod c' p) = Some i \<and> prod_slot (rc_prod c' q) = Some i \<longrightarrow> p = q) \<and>
    (\<forall>p i. prod_slot (rc_prod c' p) = Some i \<longrightarrow> cons_slot (rc_cons c') \<noteq> Some i) \<and>
    (\<forall>h. rc_cons c' = C_test h \<longrightarrow> h = usize_max \<or> h < length (rs_next (rc_slots c'))) \<and>
    (\<forall>i. rc_cons c' = C_take i \<longrightarrow> (\<exists>v. get_opt (rs_value (rc_slots c')) i = Some (Some v)))"
proof -
  obtain st f where inv: "recovery_inv_with c' st f"
    using recovery.reachable_inv [OF assms] by (auto simp: recovery_inv_def)
  note D = recovery_invD [OF inv]
  have 1: "p = q" if "prod_slot (rc_prod c' p) = Some i" "prod_slot (rc_prod c' q) = Some i" for p q i
    using that D(5) [of p i] D(5) [of q i] by simp
  have 2: "cons_slot (rc_cons c') \<noteq> Some i" if "prod_slot (rc_prod c' p) = Some i" for p i
    using that D(5) [of p i] D(6) [of i] by simp
  have 3: "h = usize_max \<or> h < length (rs_next (rc_slots c'))" if "rc_cons c' = C_test h" for h
    using D(11) that chain_in_range [OF D(3), of h] by auto
  have 4: "\<exists>v. get_opt (rs_value (rc_slots c')) i = Some (Some v)" if "rc_cons c' = C_take i" for i
    using take_filled [OF inv that] by (auto simp: get_opt_def)
  show ?thesis using D(12) 1 2 3 4 by blast
qed

definition recovery0 :: "char recovery_state" where
  "recovery0 = \<lparr>rc_slots = recovery_new 2, rc_prod = (\<lambda>_. P_idle), rc_cons = C_idle,
     rc_published = {#}, rc_taken = {#}\<rparr>"

theorem recovery_conserves_witness:
  "\<exists>c. recovery_step\<^sup>*\<^sup>* recovery0 c \<and> rc_prod c 0 = P_publish 1 CHR ''x'' \<and>
     rc_published c = rc_taken c + values_in (rs_value (rc_slots c))"
proof -
  let ?c = "recovery0\<lparr>rc_prod := (rc_prod recovery0)(0 := P_publish 1 CHR ''x'')\<rparr>"
  have init: "recovery_init recovery0" by (auto simp: recovery_init_def recovery0_def intro: exI [of _ 2])
  have "producer_step recovery0 ?c"
    by (rule prod_start) (simp_all add: recovery0_def recovery_new_def)
  then have run: "recovery_step\<^sup>*\<^sup>* recovery0 ?c"
    by (intro r_into_rtranclp) (simp add: recovery_step_def)
  from recovery_conserves [OF init run] run show ?thesis by (intro exI [of _ ?c]) simp
qed

text \<open>
  A lane recovered into a free cell is the next one the runtime gets back, and taking it
  leaves the other cells as they were; a lane recovered into an occupied cell, or to an index
  out of range, is leaked and changes nothing.
\<close>

theorem recover_roundtrip:
  assumes "holds_lanes s st"
  shows "if i < length (rs_value s) \<and> i \<notin> set st
    then \<exists>s1 s2 s3. recover i v s = (s1, None) \<and> pop_ready s1 = Ret (Some i, s2) \<and>
      cell_take i s2 = (Some v, s3) \<and> holds_lanes s3 st \<and> rs_value s3 = rs_value s
    else recover i v s = (s, Some v)"
proof (cases "i < length (rs_value s)")
  case True
  show ?thesis
  proof (cases "i \<in> set st")
    case False
    obtain s1 where s1: "recover i v s = (s1, None)" "holds_lanes s1 (i # st)" "rs_value s1 = (rs_value s)[i := Some v]"
      using lanes_recover(1) [OF assms True False] by blast
    obtain s2 w s3 where s3: "pop_ready s1 = Ret (Some i, s2)" "rs_value s1 ! i = Some w"
      "cell_take i s2 = (Some w, s3)" "holds_lanes s3 st" "rs_value s3 = (rs_value s1)[i := None]"
      using lanes_pop(2) [OF s1(2) refl] by blast
    have "w = v" using s1(3) s3(2) True by simp
    moreover have "rs_value s3 = rs_value s"
      using s1(3) s3(5) assms True False by (auto simp: holds_lanes_def list_eq_iff_nth_eq nth_list_update)
    ultimately show ?thesis using True False s1(1) s3 by auto
  qed (use True lanes_recover(2) [OF assms True] in simp)
next
  case False
  then show ?thesis by (simp add: recover_def)
qed

theorem recover_roundtrip_witness:
  "\<exists>s1 s2 s3. recover 1 CHR ''x'' (recovery_new 2) = (s1, None) \<and> pop_ready s1 = Ret (Some 1, s2) \<and>
     cell_take 1 s2 = (Some CHR ''x'', s3)"
  using recover_roundtrip [OF lanes_new [of 2], of 1 "CHR ''x''"] by (auto simp: recovery_new_def)

end
