(* ===== verification/Serving_Lane.thy ===== *)
theory Serving_Lane
  imports Prelude
begin

text \<open>
  st-zrt/src/runtime.rs, \<open>ServingLane\<close>: one pre-bound inference lane, in the build with the
  \<^verbatim>\<open>cuda\<close> and \<^verbatim>\<open>ep\<close> features. A lane stages host inputs, refreshes its CUDA-resident inputs,
  runs its IoBinding synchronously or enqueued, and fences the provider's work before it becomes
  reusable.

  ONNX Runtime and CUDA are not part of the repository: every call to them is looked up in a
  \<open>provider\<close>, an arbitrary function of the calls made so far, and appended to a log. What the
  provider may still be doing is read off the log (\<open>watch\<close>), so the properties need no
  assumption about the provider. Taking and dropping the captured-graph lease (Graph_Lease) are
  log entries too. ORT's writes to the output buffers are not modelled.
\<close>

subsection \<open>Provider calls\<close>

datatype provider_call =
    Clear_inputs | Bind_input nat
  | Ensure_device int | Memcpy_h2d nat
  | Run_binding | Run_binding_with | Run_unsynchronized
  | Synchronize_inputs | Synchronize_outputs
  | Event_record | Event_synchronize | Event_query | Device_synchronize
  | Stream_wait_event | Downstream_record | Downstream_query | Downstream_synchronize | Stream_synchronize
  | Freeze_options | Check_sync_stream | Run_async_start
  | New_binding | Alloc_device_input nat | Alloc_device_output nat | Bind_output nat | Create_event
  | Lease_begin | Lease_drop

datatype outcome = Succeeded | Not_ready | Failed nat

type_synonym log = "(nat \<times> provider_call \<times> outcome) list"
type_synonym provider = "log \<Rightarrow> nat \<Rightarrow> provider_call \<Rightarrow> outcome"

datatype lane_error =
    Lane_in_flight
  | No_completion_event
  | Device_id_missing
  | Not_event_fenced
  | Unsynchronized_device_inputs
  | Unsynchronized_graph
  | Outputs_on_device
  | Input_out_of_range nat
  | Output_out_of_range nat
  | Device_output_pending
  | No_device_output
  | Graph_id_needs_device_inputs
  | Chain_needs_event
  | Chain_other_device
  | Chain_needs_device_outputs
  | No_downstream_event
  | Fill_error nat
  | Provider_error nat

subsection \<open>The lane\<close>

text \<open>
  \<open>ServingLaneInner\<close>. Handles that only pass through to the provider are reduced to whether
  they are there; \<open>ln_key\<close> names the lane in the log.
\<close>

record ('i, 'o) lane =
  ln_key :: nat
  ln_inputs :: "'i list list"
  ln_outputs :: "'o list list"
  ln_device_outputs :: "'o list list option"
  ln_device_inputs :: "'i list list option"
  ln_run_opts :: bool
  ln_sync_stream :: bool
  ln_graph_id :: "int option"
  ln_graph_captured :: bool
  ln_graph_lease :: "int option"
  ln_guard :: bool
  ln_completion_event :: bool
  ln_downstream_event :: bool
  ln_event_recorded :: bool
  ln_in_flight :: bool
  ln_recovery_slot :: "nat option"
  ln_rebind_inputs :: bool
  ln_device_id :: "int option"

type_synonym ('i, 'o, 'r) lane_op =
  "('i, 'o) lane \<times> log \<Rightarrow> ((lane_error + 'r) \<times> ('i, 'o) lane \<times> log) run"

datatype completion_status = Pending | Ready

text \<open>
  The combinators: \<open>op_bind\<close> is the question mark operator, \<open>op_try\<close> keeps a result as a value,
  \<open>op_when\<close> is an \<open>if\<close> with no \<open>else\<close>.
\<close>

definition op_return :: "'r \<Rightarrow> ('i, 'o, 'r) lane_op" where
  "op_return r = (\<lambda>(l, t). Ret (Inr r, l, t))"

definition op_fail :: "lane_error \<Rightarrow> ('i, 'o, 'r) lane_op" where
  "op_fail e = (\<lambda>(l, t). Ret (Inl e, l, t))"

definition op_bind :: "('i, 'o, 'a) lane_op \<Rightarrow> ('a \<Rightarrow> ('i, 'o, 'b) lane_op) \<Rightarrow> ('i, 'o, 'b) lane_op" where
  "op_bind m f = (\<lambda>s. bind_run (m s) (\<lambda>(r, l, t). case r of Inl e \<Rightarrow> Ret (Inl e, l, t) | Inr a \<Rightarrow> f a (l, t)))"

definition op_try :: "('i, 'o, 'a) lane_op \<Rightarrow> ('i, 'o, lane_error + 'a) lane_op" where
  "op_try m = (\<lambda>s. bind_run (m s) (\<lambda>(r, l, t). Ret (Inr r, l, t)))"

definition op_get :: "(('i, 'o) lane \<Rightarrow> ('i, 'o, 'a) lane_op) \<Rightarrow> ('i, 'o, 'a) lane_op" where
  "op_get f = (\<lambda>(l, t). f l (l, t))"

definition op_set :: "(('i, 'o) lane \<Rightarrow> ('i, 'o) lane) \<Rightarrow> ('i, 'o, unit) lane_op" where
  "op_set g = (\<lambda>(l, t). Ret (Inr (), g l, t))"

definition op_when :: "bool \<Rightarrow> ('i, 'o, unit) lane_op \<Rightarrow> ('i, 'o, unit) lane_op" where
  "op_when b m = (if b then m else op_return ())"

definition op_panic :: "('i, 'o, 'r) lane_op" where
  "op_panic = (\<lambda>_. Panic)"

text \<open>
  One provider call; the result says whether a query found the work complete. Only queries can
  be answered with \<open>Not_ready\<close>.
\<close>

definition answer :: "provider_call \<Rightarrow> outcome \<Rightarrow> outcome" where
  "answer c r = (if r = Not_ready \<and> c \<notin> {Event_query, Downstream_query} then Succeeded else r)"

definition provide :: "provider \<Rightarrow> provider_call \<Rightarrow> ('i, 'o, bool) lane_op" where
  "provide pv c = (\<lambda>(l, t). let r = answer c (pv t (ln_key l) c) in
     Ret (case r of Failed n \<Rightarrow> Inl (Provider_error n) | _ \<Rightarrow> Inr (r = Succeeded), l, t @ [(ln_key l, c, r)]))"

definition call :: "provider \<Rightarrow> provider_call \<Rightarrow> ('i, 'o, unit) lane_op" where
  "call pv c = op_bind (provide pv c) (\<lambda>_. op_return ())"

text \<open>Taking and dropping a guard of the lane's lease cannot fail; they only leave their mark.\<close>

definition lease_mark :: "provider_call \<Rightarrow> ('i, 'o, unit) lane_op" where
  "lease_mark c = (\<lambda>(l, t). Ret (Inr (), l, t @ [(ln_key l, c, Succeeded)]))"

definition begin_guard :: "('i, 'o, bool) lane_op" where
  "begin_guard = op_get (\<lambda>l. if ln_graph_lease l \<noteq> None
     then op_bind (lease_mark Lease_begin) (\<lambda>_. op_return True) else op_return False)"

definition drop_guard :: "bool \<Rightarrow> ('i, 'o, unit) lane_op" where
  "drop_guard g = op_when g (lease_mark Lease_drop)"

subsection \<open>Fencing\<close>

definition ensure_idle :: "('i, 'o, unit) lane_op" where
  "ensure_idle = op_get (\<lambda>l. if ln_in_flight l then op_fail Lane_in_flight else op_return ())"

definition is_ok :: "(lane_error + 'a) \<Rightarrow> bool" where
  "is_ok r = (case r of Inl _ \<Rightarrow> False | Inr _ \<Rightarrow> True)"

definition try_device_fence_after_sync_error :: "provider \<Rightarrow> ('i, 'o, bool) lane_op" where
  "try_device_fence_after_sync_error pv = op_get (\<lambda>l. case ln_device_id l of
     None \<Rightarrow> op_return False
   | Some d \<Rightarrow> op_bind (op_try (call pv (Ensure_device d))) (\<lambda>r1.
       if is_ok r1 then op_bind (op_try (call pv Device_synchronize)) (\<lambda>r2. op_return (is_ok r2))
       else op_return False))"

definition clear_in_flight :: "('i, 'o, unit) lane_op" where
  "clear_in_flight = op_get (\<lambda>l.
     op_bind (op_set (\<lambda>l. l\<lparr>ln_in_flight := False, ln_guard := False\<rparr>)) (\<lambda>_.
     op_bind (drop_guard (ln_guard l)) (\<lambda>_.
     op_set (\<lambda>l. l\<lparr>ln_event_recorded := False\<rparr>))))"

text \<open>\<open>synchronize_completion_event\<close> together with the fallback its callers match on.\<close>

definition event_or_output_sync :: "provider \<Rightarrow> ('i, 'o, unit) lane_op" where
  "event_or_output_sync pv = op_get (\<lambda>l.
     if ln_event_recorded l then (if ln_completion_event l then call pv Event_synchronize else op_panic)
     else call pv Synchronize_outputs)"

definition completion_event :: "('i, 'o) lane \<Rightarrow> unit option run" where
  "completion_event l =
     (if ln_in_flight l \<and> ln_event_recorded l then (if ln_completion_event l then Ret (Some ()) else Panic)
      else Ret None)"

definition try_complete :: "provider \<Rightarrow> ('i, 'o, completion_status) lane_op" where
  "try_complete pv = op_get (\<lambda>l.
     if \<not> ln_in_flight l then op_return Ready
     else if ln_event_recorded l then
       (if ln_completion_event l then
          op_bind (provide pv Event_query) (\<lambda>complete.
            if complete then op_bind clear_in_flight (\<lambda>_. op_return Ready) else op_return Pending)
        else op_panic)
     else op_fail No_completion_event)"

definition finish_in_flight_best_effort :: "provider \<Rightarrow> ('i, 'o, unit) lane_op" where
  "finish_in_flight_best_effort pv = op_get (\<lambda>l. if \<not> ln_in_flight l then op_return () else
     op_bind (op_try (event_or_output_sync pv)) (\<lambda>r.
     op_bind (if is_ok r then op_return True else try_device_fence_after_sync_error pv) (\<lambda>fenced.
     op_when fenced clear_in_flight)))"

definition synchronize_outputs :: "provider \<Rightarrow> ('i, 'o, unit) lane_op" where
  "synchronize_outputs pv = op_get (\<lambda>l. if \<not> ln_in_flight l then op_return () else
     op_bind (op_try (event_or_output_sync pv)) (\<lambda>r.
     op_bind (if is_ok r then op_return True else try_device_fence_after_sync_error pv) (\<lambda>fenced.
     op_bind (op_when fenced clear_in_flight) (\<lambda>_.
     case r of Inl e \<Rightarrow> op_fail e | Inr _ \<Rightarrow> op_return ()))))"

subsection \<open>Running\<close>

text \<open>The loops over the inputs: rebinding the host buffers, refreshing the device buffers.\<close>

fun bind_inputs :: "provider \<Rightarrow> nat list \<Rightarrow> ('i, 'o, unit) lane_op" where
  "bind_inputs pv [] = op_return ()"
| "bind_inputs pv (i # is) = op_bind (call pv (Bind_input i)) (\<lambda>_. bind_inputs pv is)"

definition rebind_host_inputs_if_needed :: "provider \<Rightarrow> ('i, 'o, unit) lane_op" where
  "rebind_host_inputs_if_needed pv = op_get (\<lambda>l.
     if ln_rebind_inputs l \<and> ln_device_inputs l = None
     then op_bind (op_try (call pv Clear_inputs)) (\<lambda>_. bind_inputs pv [0..<length (ln_inputs l)])
     else op_return ())"

fun copy_inputs :: "provider \<Rightarrow> nat list \<Rightarrow> ('i, 'o, unit) lane_op" where
  "copy_inputs pv [] = op_return ()"
| "copy_inputs pv (i # is) = op_get (\<lambda>l. case ln_device_inputs l of None \<Rightarrow> op_return ()
     | Some devs \<Rightarrow> if length devs \<le> i then op_panic else
         op_bind (call pv (Memcpy_h2d i)) (\<lambda>_.
         op_bind (op_set (\<lambda>l. l\<lparr>ln_device_inputs := Some (devs[i := ln_inputs l ! i])\<rparr>)) (\<lambda>_.
         copy_inputs pv is)))"

definition refresh_device_inputs :: "provider \<Rightarrow> ('i, 'o, unit) lane_op" where
  "refresh_device_inputs pv = op_get (\<lambda>l.
     if ln_device_inputs l = None then op_return ()
     else case ln_device_id l of None \<Rightarrow> op_fail Device_id_missing
       | Some d \<Rightarrow> op_bind (call pv (Ensure_device d)) (\<lambda>_. copy_inputs pv [0..<length (ln_inputs l)]))"

definition fence_or_retain_graph_guard :: "provider \<Rightarrow> bool \<Rightarrow> ('i, 'o, bool) lane_op" where
  "fence_or_retain_graph_guard pv guard =
     op_bind (op_try (call pv Synchronize_outputs)) (\<lambda>r.
     op_bind (if is_ok r then op_return True else try_device_fence_after_sync_error pv) (\<lambda>fenced.
     op_bind (if fenced then op_bind clear_in_flight (\<lambda>_. drop_guard guard)
              else if guard then op_get (\<lambda>l. op_bind (op_set (\<lambda>l. l\<lparr>ln_guard := True\<rparr>)) (\<lambda>_.
                op_bind (drop_guard (ln_guard l)) (\<lambda>_. op_set (\<lambda>l. l\<lparr>ln_in_flight := True\<rparr>))))
              else op_return ()) (\<lambda>_. op_return fenced)))"

definition settle_graph_run :: "provider \<Rightarrow> bool \<Rightarrow> lane_error + unit \<Rightarrow> bool \<Rightarrow> ('i, 'o, unit) lane_op" where
  "settle_graph_run pv guard result retain_on_success =
     (case result of
        Inr _ \<Rightarrow> if retain_on_success
          then op_get (\<lambda>l. op_bind (op_set (\<lambda>l. l\<lparr>ln_guard := guard\<rparr>)) (\<lambda>_.
            op_bind (drop_guard (ln_guard l)) (\<lambda>_. op_set (\<lambda>l. l\<lparr>ln_in_flight := True\<rparr>))))
          else drop_guard guard
      | Inl e \<Rightarrow> op_bind (fence_or_retain_graph_guard pv guard) (\<lambda>_. op_fail e))"

definition mark_captured :: "lane_error + unit \<Rightarrow> ('i, 'o, unit) lane_op" where
  "mark_captured result = op_get (\<lambda>l. op_when (ln_graph_id l \<noteq> None \<and> is_ok result)
     (op_set (\<lambda>l. l\<lparr>ln_graph_captured := True\<rparr>)))"

definition run_bound_binding :: "provider \<Rightarrow> ('i, 'o, unit) lane_op" where
  "run_bound_binding pv = op_get (\<lambda>l. if \<not> ln_run_opts l then call pv Run_binding else
     op_bind begin_guard (\<lambda>guard.
     op_bind (op_try (call pv Run_binding_with)) (\<lambda>result.
     op_bind (mark_captured result) (\<lambda>_. settle_graph_run pv guard result False))))"

definition launch_enqueued :: "provider \<Rightarrow> ('i, 'o, unit) lane_op" where
  "launch_enqueued pv = op_bind (call pv Run_unsynchronized) (\<lambda>_. op_get (\<lambda>l.
     if ln_device_inputs l \<noteq> None \<and> ln_graph_id l \<noteq> None
     then if ln_completion_event l
       then op_bind (call pv Event_record) (\<lambda>_. op_set (\<lambda>l. l\<lparr>ln_event_recorded := True\<rparr>))
       else op_panic
     else op_return ()))"

definition run_bound_binding_enqueued :: "provider \<Rightarrow> ('i, 'o, unit) lane_op" where
  "run_bound_binding_enqueued pv = op_bind ensure_idle (\<lambda>_.
     op_bind begin_guard (\<lambda>guard.
     op_bind (op_try (launch_enqueued pv)) (\<lambda>result.
     op_bind (mark_captured result) (\<lambda>_. settle_graph_run pv guard result True))))"

definition run_lane :: "provider \<Rightarrow> ('i, 'o, unit) lane_op" where
  "run_lane pv = op_bind ensure_idle (\<lambda>_. op_bind (rebind_host_inputs_if_needed pv) (\<lambda>_.
     op_bind (refresh_device_inputs pv) (\<lambda>_. op_get (\<lambda>l.
       if ln_device_inputs l \<noteq> None \<and> ln_graph_id l \<noteq> None
       then op_bind (run_bound_binding_enqueued pv) (\<lambda>_. synchronize_outputs pv)
       else run_bound_binding pv))))"

definition run_enqueued :: "provider \<Rightarrow> ('i, 'o, unit) lane_op" where
  "run_enqueued pv = op_bind ensure_idle (\<lambda>_. op_bind (rebind_host_inputs_if_needed pv) (\<lambda>_.
     op_bind (refresh_device_inputs pv) (\<lambda>_. run_bound_binding_enqueued pv)))"

definition run_event_profiled :: "provider \<Rightarrow> ('i, 'o, unit) lane_op" where
  "run_event_profiled pv = op_bind ensure_idle (\<lambda>_. op_get (\<lambda>l.
     if ln_device_inputs l = None \<or> ln_graph_id l = None then op_fail Not_event_fenced
     else op_bind (refresh_device_inputs pv) (\<lambda>_. op_bind (run_bound_binding_enqueued pv) (\<lambda>_.
       synchronize_outputs pv))))"

definition run_profiled :: "provider \<Rightarrow> ('i, 'o, unit) lane_op" where
  "run_profiled pv = op_bind ensure_idle (\<lambda>_. op_bind (rebind_host_inputs_if_needed pv) (\<lambda>_.
     op_bind (refresh_device_inputs pv) (\<lambda>_. op_bind (call pv Synchronize_inputs) (\<lambda>_.
     op_bind begin_guard (\<lambda>guard.
     op_bind (op_try (call pv Run_unsynchronized)) (\<lambda>result.
     op_bind (mark_captured result) (\<lambda>_. op_bind (settle_graph_run pv guard result True) (\<lambda>_.
     op_bind (op_try (call pv Synchronize_outputs)) (\<lambda>sync.
     case sync of
       Inr _ \<Rightarrow> clear_in_flight
     | Inl e \<Rightarrow> op_bind (fence_or_retain_graph_guard pv False) (\<lambda>_. op_fail e))))))))))"

definition run_unsynchronized :: "provider \<Rightarrow> ('i, 'o, unit) lane_op" where
  "run_unsynchronized pv = op_bind ensure_idle (\<lambda>_. op_get (\<lambda>l.
     if ln_device_inputs l \<noteq> None then op_fail Unsynchronized_device_inputs
     else if ln_graph_id l \<noteq> None then op_fail Unsynchronized_graph
     else op_bind (rebind_host_inputs_if_needed pv) (\<lambda>_. call pv Run_unsynchronized)))"

definition run_async :: "provider \<Rightarrow> ('i, 'o, unit) lane_op" where
  "run_async pv = op_bind ensure_idle (\<lambda>_. call pv Run_async_start)"

fun prime :: "provider \<Rightarrow> nat \<Rightarrow> ('i, 'o, unit) lane_op" where
  "prime pv 0 = op_return ()"
| "prime pv (Suc n) = op_bind (run_lane pv) (\<lambda>_. prime pv n)"

fun prime_enqueued :: "provider \<Rightarrow> nat \<Rightarrow> ('i, 'o, unit) lane_op" where
  "prime_enqueued pv 0 = op_return ()"
| "prime_enqueued pv (Suc n) = op_bind (run_enqueued pv) (\<lambda>_. op_bind (synchronize_outputs pv) (\<lambda>_.
     prime_enqueued pv n))"

subsection \<open>Buffers\<close>

definition lane_inputs_mut :: "('i, 'o, 'i list list) lane_op" where
  "lane_inputs_mut = op_bind ensure_idle (\<lambda>_. op_get (\<lambda>l. op_return (ln_inputs l)))"

definition lane_outputs :: "('i, 'o) lane \<Rightarrow> lane_error + 'o list list" where
  "lane_outputs l = (if ln_device_outputs l \<noteq> None then Inl Outputs_on_device else Inr (ln_outputs l))"

definition lane_outputs_mut :: "('i, 'o, 'o list list) lane_op" where
  "lane_outputs_mut = op_bind ensure_idle (\<lambda>_. op_get (\<lambda>l.
     if ln_device_outputs l \<noteq> None then op_fail Outputs_on_device else op_return (ln_outputs l)))"

definition lane_input :: "('i, 'o) lane \<Rightarrow> nat \<Rightarrow> lane_error + 'i list" where
  "lane_input l i = (case get_opt (ln_inputs l) i of Some b \<Rightarrow> Inr b | None \<Rightarrow> Inl (Input_out_of_range i))"

definition lane_input_mut :: "nat \<Rightarrow> ('i, 'o, 'i list) lane_op" where
  "lane_input_mut i = op_bind ensure_idle (\<lambda>_. op_get (\<lambda>l. case get_opt (ln_inputs l) i of
     Some b \<Rightarrow> op_return b | None \<Rightarrow> op_fail (Input_out_of_range i)))"

definition lane_output :: "('i, 'o) lane \<Rightarrow> nat \<Rightarrow> lane_error + 'o list" where
  "lane_output l i = (if ln_device_outputs l \<noteq> None then Inl Outputs_on_device
     else case get_opt (ln_outputs l) i of Some b \<Rightarrow> Inr b | None \<Rightarrow> Inl (Output_out_of_range i))"

definition lane_output_mut :: "nat \<Rightarrow> ('i, 'o, 'o list) lane_op" where
  "lane_output_mut i = op_bind ensure_idle (\<lambda>_. op_get (\<lambda>l.
     if ln_device_outputs l \<noteq> None then op_fail Outputs_on_device
     else case get_opt (ln_outputs l) i of Some b \<Rightarrow> op_return b | None \<Rightarrow> op_fail (Output_out_of_range i)))"

text \<open>\<open>fill_inputs\<close>: the closure rewrites the staging buffers in place, or fails.\<close>

definition fill_inputs :: "('i list list \<Rightarrow> 'i list list \<times> (nat + unit)) \<Rightarrow> ('i, 'o, unit) lane_op" where
  "fill_inputs fill = op_bind ensure_idle (\<lambda>_. op_get (\<lambda>l.
     op_bind (op_set (\<lambda>l. l\<lparr>ln_inputs := fst (fill (ln_inputs l))\<rparr>)) (\<lambda>_.
     case snd (fill (ln_inputs l)) of Inl n \<Rightarrow> op_fail (Fill_error n) | Inr _ \<Rightarrow> op_return ())))"

definition device_output :: "('i, 'o) lane \<Rightarrow> nat \<Rightarrow> lane_error + 'o list" where
  "device_output l i = (if ln_in_flight l then Inl Device_output_pending
     else case ln_device_outputs l of None \<Rightarrow> Inl No_device_output
       | Some outs \<Rightarrow> (case get_opt outs i of Some b \<Rightarrow> Inr b | None \<Rightarrow> Inl No_device_output))"

definition set_rebind_inputs_each_run :: "bool \<Rightarrow> ('i, 'o) lane \<Rightarrow> ('i, 'o) lane" where
  "set_rebind_inputs_each_run enabled l = l\<lparr>ln_rebind_inputs := enabled\<rparr>"

subsection \<open>Graph ids and streams\<close>

definition ensure_graph_id_assignable :: "('i, 'o, unit) lane_op" where
  "ensure_graph_id_assignable = op_get (\<lambda>l.
     if ln_device_inputs l = None then op_fail Graph_id_needs_device_inputs else op_return ())"

text \<open>Both run-option compositions are frozen before either is installed.\<close>

definition materialize_run_options :: "provider \<Rightarrow> ('i, 'o, unit) lane_op" where
  "materialize_run_options pv = op_bind (call pv Freeze_options) (\<lambda>_. call pv Freeze_options)"

definition set_gpu_graph_id :: "provider \<Rightarrow> int \<Rightarrow> ('i, 'o, unit) lane_op" where
  "set_gpu_graph_id pv gid = op_bind ensure_idle (\<lambda>_. op_bind ensure_graph_id_assignable (\<lambda>_.
     op_bind (materialize_run_options pv) (\<lambda>_. op_set (\<lambda>l. l\<lparr>ln_run_opts := True, ln_graph_lease := Some gid,
       ln_graph_id := Some gid, ln_graph_captured := False\<rparr>))))"

definition set_sync_stream :: "provider \<Rightarrow> ('i, 'o, unit) lane_op" where
  "set_sync_stream pv = op_bind ensure_idle (\<lambda>_. op_bind (call pv Check_sync_stream) (\<lambda>_.
     op_bind (materialize_run_options pv) (\<lambda>_. op_set (\<lambda>l. l\<lparr>ln_run_opts := True, ln_sync_stream := True\<rparr>))))"

subsection \<open>Chaining on the GPU\<close>

text \<open>The source and downstream device ids of \<open>queue_completion_wait\<close> are its arguments.\<close>

definition queue_completion_wait :: "provider \<Rightarrow> int \<Rightarrow> int \<Rightarrow> ('i, 'o, unit) lane_op" where
  "queue_completion_wait pv source_device downstream_device = op_get (\<lambda>l.
     if \<not> ln_in_flight l \<or> \<not> ln_event_recorded l then op_fail Chain_needs_event
     else if \<not> ln_completion_event l then op_panic
     else if source_device \<noteq> downstream_device then op_fail Chain_other_device
     else call pv Stream_wait_event)"

definition device_outputs_for_chain :: "('i, 'o) lane \<Rightarrow> lane_error + 'o list list" where
  "device_outputs_for_chain l = (case ln_device_outputs l of Some outs \<Rightarrow> Inr outs
     | None \<Rightarrow> Inl Chain_needs_device_outputs)"

definition on_downstream_event :: "('i, 'o, 'r) lane_op \<Rightarrow> ('i, 'o, 'r) lane_op" where
  "on_downstream_event m = op_get (\<lambda>l. if ln_downstream_event l then m else op_fail No_downstream_event)"

definition record_downstream_completion :: "provider \<Rightarrow> ('i, 'o, unit) lane_op" where
  "record_downstream_completion pv = on_downstream_event (call pv Downstream_record)"

definition downstream_is_complete :: "provider \<Rightarrow> ('i, 'o, bool) lane_op" where
  "downstream_is_complete pv = on_downstream_event (provide pv Downstream_query)"

definition synchronize_downstream :: "provider \<Rightarrow> ('i, 'o, unit) lane_op" where
  "synchronize_downstream pv = on_downstream_event (call pv Downstream_synchronize)"

definition mark_complete_after_gpu_chain :: "('i, 'o, unit) lane_op" where
  "mark_complete_after_gpu_chain = op_get (\<lambda>l.
     if ln_in_flight l \<and> ln_event_recorded l then clear_in_flight else op_panic)"

subsection \<open>Ownership\<close>

text \<open>
  What becomes of a lane that is moved: kept by its owner, deliberately leaked, or destroyed
  with its buffers. A lane is destroyed through its \<open>Drop\<close>.
\<close>

datatype ('i, 'o) fate =
    Kept "('i, 'o) lane"
  | Leaked "('i, 'o) lane"
  | Destroyed "('i, 'o) lane"

definition lane_drop :: "provider \<Rightarrow> ('i, 'o) lane \<times> log \<Rightarrow> (('i, 'o) fate \<times> log) run" where
  "lane_drop pv s = bind_run (finish_in_flight_best_effort pv s) (\<lambda>(_, l, t).
     Ret (if ln_in_flight l then Leaked l else Destroyed l, t))"

text \<open>\<open>enqueue\<close> moves the lane into the token, or hands it back with the error.\<close>

definition enqueue :: "provider \<Rightarrow> ('i, 'o) lane \<times> log
    \<Rightarrow> ((lane_error \<times> ('i, 'o) lane + ('i, 'o) lane) \<times> log) run" where
  "enqueue pv s = bind_run (run_enqueued pv s) (\<lambda>(r, l, t).
     Ret (case r of Inr _ \<Rightarrow> Inr l | Inl e \<Rightarrow> Inl (e, l), t))"

definition token_synchronize :: "provider \<Rightarrow> ('i, 'o) lane \<times> log
    \<Rightarrow> ((lane_error + unit) \<times> ('i, 'o) fate \<times> log) run" where
  "token_synchronize pv s = bind_run (synchronize_outputs pv s) (\<lambda>(r, l, t).
     case r of Inr _ \<Rightarrow> Ret (Inr (), Kept l, t)
     | Inl e \<Rightarrow> if ln_in_flight l then Ret (Inl e, Leaked l, t)
         else bind_run (lane_drop pv (l, t)) (\<lambda>(f, t'). Ret (Inl e, f, t')))"

definition token_drop :: "provider \<Rightarrow> ('i, 'o) lane \<times> log \<Rightarrow> (('i, 'o) fate \<times> log) run" where
  "token_drop pv s = bind_run (finish_in_flight_best_effort pv s) (\<lambda>(_, l, t).
     if ln_in_flight l then Ret (Leaked l, t) else lane_drop pv (l, t))"

text \<open>The public calls on a lane, for properties of arbitrary sequences of them.\<close>

datatype lane_call =
    Call_run | Call_run_enqueued | Call_synchronize | Call_try_complete | Call_run_profiled
  | Call_run_event_profiled | Call_run_unsynchronized | Call_prime nat | Call_prime_enqueued nat
  | Call_finish

fun lane_call_op :: "provider \<Rightarrow> lane_call \<Rightarrow> ('i, 'o, unit) lane_op" where
  "lane_call_op pv Call_run = run_lane pv"
| "lane_call_op pv Call_run_enqueued = run_enqueued pv"
| "lane_call_op pv Call_synchronize = synchronize_outputs pv"
| "lane_call_op pv Call_try_complete = op_bind (try_complete pv) (\<lambda>_. op_return ())"
| "lane_call_op pv Call_run_profiled = run_profiled pv"
| "lane_call_op pv Call_run_event_profiled = run_event_profiled pv"
| "lane_call_op pv Call_run_unsynchronized = run_unsynchronized pv"
| "lane_call_op pv (Call_prime n) = prime pv n"
| "lane_call_op pv (Call_prime_enqueued n) = prime_enqueued pv n"
| "lane_call_op pv Call_finish = finish_in_flight_best_effort pv"

fun lane_calls :: "provider \<Rightarrow> lane_call list \<Rightarrow> ('i, 'o) lane \<times> log \<Rightarrow> (('i, 'o) lane \<times> log) run" where
  "lane_calls pv [] s = Ret s"
| "lane_calls pv (c # cs) s = bind_run (lane_call_op pv c s) (\<lambda>(_, s'). lane_calls pv cs s')"

subsection \<open>What the provider may still be doing\<close>

text \<open>
  Read off the log for one lane: \<open>w_busy\<close>, provider work of the lane's last run may be
  outstanding (a run with end-of-run synchronization that failed may have queued part of its
  work); \<open>w_covered\<close>, the completion event has been recorded behind that work; \<open>w_leases\<close>, the
  guards of the lane's lease now held; \<open>w_bad\<close>, a guard was dropped over outstanding work.
  For work chained on another stream: \<open>w_ordered\<close>, that stream waits for the covered run;
  \<open>w_consumers\<close>, work that reads the lane's device outputs may be outstanding on it;
  \<open>w_recorded\<close>, the downstream event has been recorded behind that work.
\<close>

record watch =
  w_busy :: bool
  w_covered :: bool
  w_leases :: int
  w_bad :: bool
  w_ordered :: bool
  w_consumers :: bool
  w_recorded :: bool

text \<open>The downstream stream has caught up, and with it what it waited for.\<close>

definition caught_up :: "watch \<Rightarrow> watch" where
  "caught_up w = w\<lparr>w_consumers := False, w_busy := w_busy w \<and> \<not> w_ordered w\<rparr>"

fun watch_call :: "provider_call \<Rightarrow> outcome \<Rightarrow> watch \<Rightarrow> watch" where
  "watch_call Run_binding r w = w\<lparr>w_busy := r \<noteq> Succeeded, w_covered := False, w_ordered := False\<rparr>"
| "watch_call Run_binding_with r w = w\<lparr>w_busy := r \<noteq> Succeeded, w_covered := False, w_ordered := False\<rparr>"
| "watch_call Run_unsynchronized r w = w\<lparr>w_busy := True, w_covered := False, w_ordered := False\<rparr>"
| "watch_call Event_record r w = (if r = Succeeded then w\<lparr>w_covered := True\<rparr> else w)"
| "watch_call Event_synchronize r w = (if r = Succeeded \<and> w_covered w then w\<lparr>w_busy := False\<rparr> else w)"
| "watch_call Event_query r w = (if r = Succeeded \<and> w_covered w then w\<lparr>w_busy := False\<rparr> else w)"
| "watch_call Synchronize_outputs r w = (if r = Succeeded then w\<lparr>w_busy := False\<rparr> else w)"
| "watch_call Device_synchronize r w = (if r = Succeeded then w\<lparr>w_busy := False\<rparr> else w)"
| "watch_call Lease_begin r w = w\<lparr>w_leases := w_leases w + 1\<rparr>"
| "watch_call Lease_drop r w = w\<lparr>w_leases := w_leases w - 1, w_bad := w_bad w \<or> w_busy w\<rparr>"
| "watch_call Stream_wait_event r w =
     (if r = Succeeded then w\<lparr>w_ordered := w_covered w, w_consumers := True, w_recorded := False\<rparr> else w)"
| "watch_call Downstream_record r w = (if r = Succeeded then w\<lparr>w_recorded := True\<rparr> else w)"
| "watch_call Downstream_synchronize r w = (if r = Succeeded \<and> w_recorded w then caught_up w else w)"
| "watch_call Downstream_query r w = (if r = Succeeded \<and> w_recorded w then caught_up w else w)"
| "watch_call Stream_synchronize r w = (if r = Succeeded then caught_up w else w)"
| "watch_call _ r w = w"

definition watch_init :: watch where
  "watch_init = \<lparr>w_busy = False, w_covered = False, w_leases = 0, w_bad = False, w_ordered = False,
     w_consumers = False, w_recorded = False\<rparr>"

definition watch_entry :: "nat \<Rightarrow> nat \<times> provider_call \<times> outcome \<Rightarrow> watch \<Rightarrow> watch" where
  "watch_entry k x w = (if fst x = k then watch_call (fst (snd x)) (snd (snd x)) w else w)"

definition watching :: "nat \<Rightarrow> log \<Rightarrow> watch" where
  "watching k t = fold (watch_entry k) t watch_init"

lemma watching_append [simp]: "watching k (t @ xs) = fold (watch_entry k) xs (watching k t)"
  by (simp add: watching_def)

declare watch_entry_def [simp]

subsection \<open>Triples\<close>

text \<open>\<open>valid P m Q\<close>: from a state in \<open>P\<close>, \<open>m\<close> does not panic and its result and state are in \<open>Q\<close>.\<close>

definition valid :: "(('i, 'o) lane \<Rightarrow> log \<Rightarrow> bool) \<Rightarrow> ('i, 'o, 'r) lane_op
    \<Rightarrow> (lane_error + 'r \<Rightarrow> ('i, 'o) lane \<Rightarrow> log \<Rightarrow> bool) \<Rightarrow> bool" where
  "valid P m Q \<longleftrightarrow> (\<forall>l t. P l t \<longrightarrow> (\<exists>r l' t'. m (l, t) = Ret (r, l', t') \<and> Q r l' t'))"

lemma validD:
  assumes "valid P m Q" "P l t" obtains r l' t' where "m (l, t) = Ret (r, l', t')" "Q r l' t'"
  using assms unfolding valid_def by blast

lemma valid_return: "(\<And>l t. P l t \<Longrightarrow> Q (Inr r) l t) \<Longrightarrow> valid P (op_return r) Q"
  by (simp add: valid_def op_return_def)

lemma valid_fail: "(\<And>l t. P l t \<Longrightarrow> Q (Inl e) l t) \<Longrightarrow> valid P (op_fail e) Q"
  by (simp add: valid_def op_fail_def)

lemma valid_set: "(\<And>l t. P l t \<Longrightarrow> Q (Inr ()) (g l) t) \<Longrightarrow> valid P (op_set g) Q"
  by (simp add: valid_def op_set_def)

lemma valid_get: "(\<And>l. valid (\<lambda>l' t. l' = l \<and> P l t) (f l) Q) \<Longrightarrow> valid P (op_get f) Q"
  by (auto simp: valid_def op_get_def)

lemma valid_bind:
  assumes "valid P m R" "\<And>a. valid (R (Inr a)) (f a) Q" "\<And>e l t. R (Inl e) l t \<Longrightarrow> Q (Inl e) l t"
  shows "valid P (op_bind m f) Q"
  unfolding valid_def
proof (intro allI impI)
  fix l t assume "P l t"
  then obtain r l' t' where m: "m (l, t) = Ret (r, l', t')" "R r l' t'" by (rule validD [OF assms(1)])
  show "\<exists>r l' t'. op_bind m f (l, t) = Ret (r, l', t') \<and> Q r l' t'"
  proof (cases r)
    case (Inl e)
    then show ?thesis using m assms(3) by (simp add: op_bind_def)
  next
    case (Inr a)
    then have "R (Inr a) l' t'" using m by simp
    then obtain r'' l'' t'' where "f a (l', t') = Ret (r'', l'', t'')" "Q r'' l'' t''"
      by (rule validD [OF assms(2)])
    then show ?thesis using m Inr by (simp add: op_bind_def)
  qed
qed

lemma valid_try: "valid P m (\<lambda>r. Q (Inr r)) \<Longrightarrow> valid P (op_try m) Q"
  unfolding valid_def op_try_def by fastforce

lemma valid_if: "(b \<Longrightarrow> valid P m Q) \<Longrightarrow> (\<not> b \<Longrightarrow> valid P m' Q) \<Longrightarrow> valid P (if b then m else m') Q"
  by simp

lemma valid_when: "(b \<Longrightarrow> valid P m Q) \<Longrightarrow> (\<And>l t. \<not> b \<Longrightarrow> P l t \<Longrightarrow> Q (Inr ()) l t) \<Longrightarrow> valid P (op_when b m) Q"
  by (simp add: op_when_def valid_return)

lemma valid_pre: "valid P m Q \<Longrightarrow> (\<And>l t. P' l t \<Longrightarrow> P l t) \<Longrightarrow> valid P' m Q"
  unfolding valid_def by blast

lemma valid_post: "valid P m Q \<Longrightarrow> (\<And>r l t. Q r l t \<Longrightarrow> Q' r l t) \<Longrightarrow> valid P m Q'"
  unfolding valid_def by blast

lemma valid_call:
  assumes c: "c \<noteq> Event_query" "c \<noteq> Downstream_query"
    and Q: "\<And>l t. P l t \<Longrightarrow> Q (Inr ()) l (t @ [(ln_key l, c, Succeeded)])"
    "\<And>l t n. P l t \<Longrightarrow> Q (Inl (Provider_error n)) l (t @ [(ln_key l, c, Failed n)])"
  shows "valid P (call pv c) Q"
  unfolding valid_def
proof (intro allI impI)
  fix l t assume P: "P l t"
  show "\<exists>r l' t'. call pv c (l, t) = Ret (r, l', t') \<and> Q r l' t'"
    using Q [OF P] c
    by (cases "pv t (ln_key l) c") (simp_all add: call_def op_bind_def provide_def op_return_def Let_def answer_def)
qed

lemma valid_query:
  assumes "\<And>l t. P l t \<Longrightarrow> Q (Inr True) l (t @ [(ln_key l, Event_query, Succeeded)])"
    "\<And>l t. P l t \<Longrightarrow> Q (Inr False) l (t @ [(ln_key l, Event_query, Not_ready)])"
    "\<And>l t n. P l t \<Longrightarrow> Q (Inl (Provider_error n)) l (t @ [(ln_key l, Event_query, Failed n)])"
  shows "valid P (provide pv Event_query) Q"
  unfolding valid_def
proof (intro allI impI)
  fix l t assume P: "P l t"
  show "\<exists>r l' t'. provide pv Event_query (l, t) = Ret (r, l', t') \<and> Q r l' t'"
    using assms [OF P] by (cases "pv t (ln_key l) Event_query") (simp_all add: provide_def Let_def answer_def)
qed

lemma valid_mark: "(\<And>l t. P l t \<Longrightarrow> Q (Inr ()) l (t @ [(ln_key l, c, Succeeded)])) \<Longrightarrow> valid P (lease_mark c) Q"
  by (simp add: valid_def lease_mark_def)

subsection \<open>Safe lanes\<close>

text \<open>
  \<open>fixed l\<close>: the fields no run changes. \<open>lane_wf\<close>: a device-input lane has a completion event
  and a device, and one device buffer per staging buffer (as the constructor builds it).
\<close>

definition fixed :: "('i, 'o) lane \<Rightarrow> _" where
  "fixed l = (ln_key l, ln_inputs l, ln_graph_lease l, ln_graph_id l, ln_run_opts l, ln_device_id l,
     ln_completion_event l, ln_rebind_inputs l, ln_recovery_slot l, map_option length (ln_device_inputs l))"

definition lane_wf :: "('i, 'o) lane \<Rightarrow> bool" where
  "lane_wf l \<longleftrightarrow> (case ln_device_inputs l of None \<Rightarrow> True
     | Some devs \<Rightarrow> ln_completion_event l \<and> ln_device_id l \<noteq> None \<and> length devs = length (ln_inputs l))"

text \<open>
  \<open>carries g l t\<close>: the lane and the local guard \<open>g\<close> of the running call hold exactly the leases
  the log shows; no guard was ever dropped over outstanding work; a recorded event covers the
  outstanding work.
\<close>

definition carries :: "bool \<Rightarrow> ('i, 'o) lane \<Rightarrow> log \<Rightarrow> bool" where
  "carries g l t \<longleftrightarrow> lane_wf l \<and> \<not> w_bad (watching (ln_key l) t) \<and>
     w_leases (watching (ln_key l) t) = of_bool (ln_guard l) + of_bool g \<and>
     (ln_event_recorded l \<longrightarrow> w_covered (watching (ln_key l) t) \<and> ln_completion_event l)"

text \<open>
  A safe lane between calls: outstanding work, a retained guard or a recorded event mean that
  the lane is in flight, and outstanding work of a lane with a lease is under a guard.
\<close>

definition lane_safe :: "('i, 'o) lane \<Rightarrow> log \<Rightarrow> bool" where
  "lane_safe l t \<longleftrightarrow> carries False l t \<and>
     (w_busy (watching (ln_key l) t) \<longrightarrow> ln_in_flight l \<and> (ln_graph_lease l \<noteq> None \<longrightarrow> ln_guard l)) \<and>
     (ln_guard l \<or> ln_event_recorded l \<longrightarrow> ln_in_flight l)"

definition safe_like :: "('i, 'o) lane \<Rightarrow> ('i, 'o) lane \<Rightarrow> log \<Rightarrow> bool" where
  "safe_like l0 l t \<longleftrightarrow> fixed l = fixed l0 \<and> lane_safe l t"

lemmas lane_defs = fixed_def lane_wf_def carries_def lane_safe_def

text \<open>Calls that neither start nor fence work keep everything the log shows.\<close>

definition neutral :: "provider_call \<Rightarrow> bool" where
  "neutral c \<longleftrightarrow> (\<forall>r w. watch_call c r w = w) \<and> c \<noteq> Event_query \<and> c \<noteq> Downstream_query"

lemma neutral_simps [simp]:
  "neutral Clear_inputs" "neutral (Bind_input i)" "neutral (Ensure_device d)" "neutral (Memcpy_h2d i)"
  "neutral Synchronize_inputs" "neutral New_binding" "neutral (Alloc_device_input i)" "neutral (Alloc_device_output i)"
  "neutral (Bind_output i)" "neutral Create_event" "neutral Freeze_options"
  by (simp_all add: neutral_def)

lemma valid_neutral:
  assumes "neutral c" "\<And>l t t'. watching (ln_key l) t' = watching (ln_key l) t \<Longrightarrow> P l t \<Longrightarrow> P l t'"
  shows "valid P (call pv c) (\<lambda>_. P)"
  using assms by (intro valid_call) (auto simp: neutral_def)

lemma carries_log:
  "watching (ln_key l) t' = watching (ln_key l) t \<Longrightarrow> carries g l t' = carries g l t"
  "watching (ln_key l) t' = watching (ln_key l) t \<Longrightarrow> lane_safe l t' = lane_safe l t"
  by (simp_all add: carries_def lane_safe_def)

lemma fixed_update [simp]:
  "fixed (l\<lparr>ln_in_flight := a\<rparr>) = fixed l" "fixed (l\<lparr>ln_guard := a\<rparr>) = fixed l"
  "fixed (l\<lparr>ln_event_recorded := a\<rparr>) = fixed l" "fixed (l\<lparr>ln_graph_captured := a\<rparr>) = fixed l"
  "ln_device_inputs l = Some devs \<Longrightarrow> length devs' = length devs \<Longrightarrow>
   fixed (l\<lparr>ln_device_inputs := Some devs'\<rparr>) = fixed l"
  by (simp_all add: fixed_def)

lemma lane_wf_update [simp]:
  "lane_wf (l\<lparr>ln_in_flight := a\<rparr>) = lane_wf l" "lane_wf (l\<lparr>ln_guard := a\<rparr>) = lane_wf l"
  "lane_wf (l\<lparr>ln_event_recorded := a\<rparr>) = lane_wf l" "lane_wf (l\<lparr>ln_graph_captured := a\<rparr>) = lane_wf l"
  "ln_device_inputs l = Some devs \<Longrightarrow> length devs' = length devs \<Longrightarrow>
   lane_wf (l\<lparr>ln_device_inputs := Some devs'\<rparr>) = lane_wf l"
  by (simp_all add: lane_wf_def split: option.split)

lemma fixedD:
  assumes "fixed l = fixed l0"
  shows "ln_key l = ln_key l0" "ln_inputs l = ln_inputs l0" "ln_graph_lease l = ln_graph_lease l0"
    "ln_graph_id l = ln_graph_id l0" "ln_run_opts l = ln_run_opts l0" "ln_device_id l = ln_device_id l0"
    "ln_completion_event l = ln_completion_event l0" "ln_rebind_inputs l = ln_rebind_inputs l0"
    "ln_recovery_slot l = ln_recovery_slot l0"
    "ln_device_inputs l = None \<longleftrightarrow> ln_device_inputs l0 = None"
  using assms by (auto simp: fixed_def)

lemma clear_in_flight_eq:
  "clear_in_flight (l, t) = Ret (Inr (), l\<lparr>ln_in_flight := False, ln_guard := False, ln_event_recorded := False\<rparr>,
     if ln_guard l then t @ [(ln_key l, Lease_drop, Succeeded)] else t)"
  by (simp add: clear_in_flight_def op_get_def op_bind_def op_set_def drop_guard_def op_when_def
      op_return_def lease_mark_def)

text \<open>A failed fence keeps the state; a successful one leaves no work outstanding.\<close>

definition quiet :: "('i, 'o) lane \<Rightarrow> log \<Rightarrow> bool" where
  "quiet l t \<longleftrightarrow> \<not> w_busy (watching (ln_key l) t)"

lemma clear_in_flight_valid:
  "valid (\<lambda>l t. fixed l = fixed l0 \<and> carries g l t \<and> quiet l t) clear_in_flight
     (\<lambda>r l t. r = Inr () \<and> fixed l = fixed l0 \<and> carries g l t \<and> quiet l t \<and>
        \<not> ln_in_flight l \<and> \<not> ln_guard l \<and> \<not> ln_event_recorded l)"
  unfolding valid_def clear_in_flight_eq by (auto simp: carries_def quiet_def)

lemma drop_guard_valid:
  "valid (\<lambda>l t. fixed l = fixed l0 \<and> carries g l t \<and> quiet l t \<and> \<not> ln_in_flight l \<and> \<not> ln_guard l \<and> \<not> ln_event_recorded l)
     (drop_guard g) (\<lambda>r l t. r = Inr () \<and> safe_like l0 l t)"
  unfolding drop_guard_def
  by (intro valid_when valid_mark) (auto simp: carries_def quiet_def lane_safe_def safe_like_def)

text \<open>Conditions on the lane that a fence cannot spoil.\<close>

definition fence_stable :: "(('i, 'o) lane \<Rightarrow> log \<Rightarrow> bool) \<Rightarrow> bool" where
  "fence_stable P \<longleftrightarrow> (\<forall>l t t'. P l t \<longrightarrow>
     watching (ln_key l) t' = watching (ln_key l) t \<or>
     watching (ln_key l) t' = (watching (ln_key l) t)\<lparr>w_busy := False\<rparr> \<longrightarrow> P l t')"

lemma fence_stableD:
  "fence_stable P \<Longrightarrow> P l t \<Longrightarrow> watching (ln_key l) t' = watching (ln_key l) t \<Longrightarrow> P l t'"
  "fence_stable P \<Longrightarrow> P l t \<Longrightarrow> watching (ln_key l) t' = (watching (ln_key l) t)\<lparr>w_busy := False\<rparr> \<Longrightarrow> P l t'"
  unfolding fence_stable_def by blast+

lemma fence_stable_carries [simp]:
  "fence_stable (\<lambda>l t. fixed l = fixed l0 \<and> carries g l t \<and> R l)"
  "fence_stable (\<lambda>l t. fixed l = fixed l0 \<and> lane_safe l t \<and> R l)"
  by (auto simp: fence_stable_def carries_def lane_safe_def)

text \<open>The result of a fence: what held before still holds, and success means quiet.\<close>

abbreviation fenced :: "(('i, 'o) lane \<Rightarrow> log \<Rightarrow> bool) \<Rightarrow> lane_error + bool \<Rightarrow> ('i, 'o) lane \<Rightarrow> log \<Rightarrow> bool" where
  "fenced P \<equiv> \<lambda>r l t. P l t \<and> (r = Inr True \<and> quiet l t \<or> r = Inr False)"

lemma device_fence_valid:
  assumes "fence_stable P"
  shows "valid P (try_device_fence_after_sync_error pv) (fenced P)"
  unfolding valid_def
proof (intro allI impI)
  fix l t assume P: "P l t"
  note st = fence_stableD [OF assms P]
  show "\<exists>r l' t'. try_device_fence_after_sync_error pv (l, t) = Ret (r, l', t') \<and> fenced P r l' t'"
  proof (cases "ln_device_id l")
    case None
    then show ?thesis using P by (simp add: try_device_fence_after_sync_error_def op_get_def op_return_def)
  next
    case (Some d)
    define t1 where "t1 = t @ [(ln_key l, Ensure_device d, answer (Ensure_device d) (pv t (ln_key l) (Ensure_device d)))]"
    have "watching (ln_key l) t1 = watching (ln_key l) t" by (simp add: t1_def)
    then have P1: "P l t1" by (rule st(1))
    note st1 = fence_stableD [OF assms P1]
    show ?thesis
      using P1 st1 Some
      by (cases "pv t (ln_key l) (Ensure_device d)"; cases "pv t1 (ln_key l) Device_synchronize")
        (simp_all add: try_device_fence_after_sync_error_def op_get_def op_return_def op_bind_def op_try_def
          call_def provide_def Let_def answer_def is_ok_def t1_def quiet_def)
  qed
qed

lemma valid_fence:
  assumes P: "fence_stable P" and m: "valid P m (\<lambda>r l t. P l t \<and> (is_ok r \<longrightarrow> quiet l t))"
    and k: "\<And>r. valid (\<lambda>l t. P l t \<and> quiet l t) (k r True) Q" "\<And>r. \<not> is_ok r \<Longrightarrow> valid P (k r False) Q"
  shows "valid P (op_bind (op_try m) (\<lambda>r.
    op_bind (if is_ok r then op_return True else try_device_fence_after_sync_error pv) (k r))) Q"
proof (rule valid_bind [where R = "\<lambda>r l t. case r of Inl _ \<Rightarrow> False | Inr r' \<Rightarrow> P l t \<and> (is_ok r' \<longrightarrow> quiet l t)"])
  show "valid P (op_try m) (\<lambda>r l t. case r of Inl _ \<Rightarrow> False | Inr r' \<Rightarrow> P l t \<and> (is_ok r' \<longrightarrow> quiet l t))"
    by (rule valid_try, rule valid_post [OF m]) simp
  fix a :: "lane_error + 'c"
  have "valid (\<lambda>l t. P l t \<and> (is_ok a \<longrightarrow> quiet l t))
      (if is_ok a then op_return True else try_device_fence_after_sync_error pv)
      (\<lambda>r l t. fenced P r l t \<and> (is_ok a \<longrightarrow> r = Inr True))"
    by (intro valid_if valid_return valid_post [OF valid_pre [OF device_fence_valid [OF P]]]) auto
  then have "valid (\<lambda>l t. P l t \<and> (is_ok a \<longrightarrow> quiet l t))
      (op_bind (if is_ok a then op_return True else try_device_fence_after_sync_error pv) (k a)) Q"
  proof (rule valid_bind)
    show "valid (\<lambda>l t. fenced P (Inr b) l t \<and> (is_ok a \<longrightarrow> Inr b = (Inr True :: lane_error + bool))) (k a b) Q" for b
    proof (cases b)
      case True
      then show ?thesis by (auto intro: valid_pre [OF k(1)])
    next
      case False
      then show ?thesis using k(2) [of a] by (cases "is_ok a") (auto simp: valid_def)
    qed
  qed auto
  then show "valid (\<lambda>l t. case Inr a of Inl _ \<Rightarrow> False | Inr r' \<Rightarrow> P l t \<and> (is_ok r' \<longrightarrow> quiet l t))
      (op_bind (if is_ok a then op_return True else try_device_fence_after_sync_error pv) (k a)) Q"
    by simp
qed simp

lemma output_sync_valid:
  assumes "fence_stable P"
  shows "valid P (call pv Synchronize_outputs) (\<lambda>r l t. P l t \<and> (is_ok r \<longrightarrow> quiet l t))"
  by (rule valid_call) (auto intro: fence_stableD [OF assms] simp: is_ok_def quiet_def)

lemma event_sync_valid:
  assumes "fence_stable P" "\<And>l t. P l t \<Longrightarrow> carries g l t"
  shows "valid P (event_or_output_sync pv) (\<lambda>r l t. P l t \<and> (is_ok r \<longrightarrow> quiet l t))"
  unfolding event_or_output_sync_def
proof (rule valid_get, intro valid_if)
  fix l
  show "valid (\<lambda>l' t. l' = l \<and> P l t) (call pv Event_synchronize) (\<lambda>r l t. P l t \<and> (is_ok r \<longrightarrow> quiet l t))"
    if "ln_event_recorded l" "ln_completion_event l"
    using that assms
    by (intro valid_call) (auto intro: fence_stableD [OF assms(1)] simp: is_ok_def quiet_def carries_def)
  show "valid (\<lambda>l' t. l' = l \<and> P l t) op_panic (\<lambda>r l t. P l t \<and> (is_ok r \<longrightarrow> quiet l t))"
    if "ln_event_recorded l" "\<not> ln_completion_event l"
    using that assms(2) by (auto simp: valid_def carries_def)
  show "valid (\<lambda>l' t. l' = l \<and> P l t) (call pv Synchronize_outputs) (\<lambda>r l t. P l t \<and> (is_ok r \<longrightarrow> quiet l t))"
    by (rule valid_pre [OF output_sync_valid [OF assms(1)]]) simp
qed

lemma settled:
  "valid (\<lambda>l t. safe_like l0 l t \<and> quiet l t) clear_in_flight
     (\<lambda>r l t. r = Inr () \<and> safe_like l0 l t \<and> \<not> ln_in_flight l)"
  by (rule valid_pre [OF valid_post [OF clear_in_flight_valid [of l0 False]]])
    (auto simp: lane_safe_def quiet_def safe_like_def)

lemma safe_stable: "fence_stable (safe_like l0)"
  using fence_stable_carries(2) [of l0 "\<lambda>_. True"] by (simp add: safe_like_def [abs_def])

lemma safe_carries: "safe_like l0 l t \<Longrightarrow> carries False l t"
  by (simp add: lane_safe_def safe_like_def)

lemma settled_when:
  "valid (\<lambda>l t. safe_like l0 l t \<and> quiet l t) (op_when True clear_in_flight)
     (\<lambda>r l t. r = Inr () \<and> safe_like l0 l t \<and> \<not> ln_in_flight l)"
  by (rule valid_when) (simp_all add: settled)

lemma finish_valid:
  "valid (safe_like l0) (finish_in_flight_best_effort pv) (\<lambda>r l t. r = Inr () \<and> safe_like l0 l t)"
  unfolding finish_in_flight_best_effort_def
proof (rule valid_get, rule valid_if)
  fix l :: "('a, 'b) lane"
  show "valid (\<lambda>l' t. l' = l \<and> safe_like l0 l t) (op_return ()) (\<lambda>r l t. r = Inr () \<and> safe_like l0 l t)"
    by (rule valid_return) simp
  have "valid (safe_like l0)
      (op_bind (op_try (event_or_output_sync pv)) (\<lambda>r.
       op_bind (if is_ok r then op_return True else try_device_fence_after_sync_error pv) (\<lambda>fenced.
       op_when fenced clear_in_flight))) (\<lambda>r l t. r = Inr () \<and> safe_like l0 l t)"
    by (rule valid_fence [OF safe_stable event_sync_valid [OF safe_stable safe_carries]])
      (auto intro: valid_post [OF settled_when] valid_when)
  then show "valid (\<lambda>l' t. l' = l \<and> safe_like l0 l t)
      (op_bind (op_try (event_or_output_sync pv)) (\<lambda>r.
       op_bind (if is_ok r then op_return True else try_device_fence_after_sync_error pv) (\<lambda>fenced.
       op_when fenced clear_in_flight))) (\<lambda>r l t. r = Inr () \<and> safe_like l0 l t)"
    by (rule valid_pre) simp
qed

lemma synchronize_outputs_valid:
  "valid (safe_like l0) (synchronize_outputs pv)
     (\<lambda>r l t. safe_like l0 l t \<and> (is_ok r \<longrightarrow> \<not> ln_in_flight l))" (is "valid _ _ ?Q")
  unfolding synchronize_outputs_def
proof (rule valid_get, rule valid_if)
  fix l :: "('a, 'b) lane"
  show "\<not> ln_in_flight l \<Longrightarrow> valid (\<lambda>l' t. l' = l \<and> safe_like l0 l t) (op_return ()) ?Q"
    by (rule valid_return) simp
  let ?m = "op_bind (op_try (event_or_output_sync pv)) (\<lambda>r.
     op_bind (if is_ok r then op_return True else try_device_fence_after_sync_error pv) (\<lambda>fenced.
     op_bind (op_when fenced clear_in_flight) (\<lambda>_. case r of Inl e \<Rightarrow> op_fail e | Inr _ \<Rightarrow> op_return ())))"
  have "valid (safe_like l0) ?m ?Q"
  proof (rule valid_fence [OF safe_stable event_sync_valid [OF safe_stable safe_carries]])
    fix r :: "lane_error + unit"
    show "valid (\<lambda>l t. safe_like l0 l t \<and> quiet l t)
        (op_bind (op_when True clear_in_flight) (\<lambda>_. case r of Inl e \<Rightarrow> op_fail e | Inr _ \<Rightarrow> op_return ())) ?Q"
      by (rule valid_bind [OF settled_when], cases r) (auto intro: valid_fail valid_return)
    show "valid (safe_like l0)
        (op_bind (op_when False clear_in_flight) (\<lambda>_. case r of Inl e \<Rightarrow> op_fail e | Inr _ \<Rightarrow> op_return ())) ?Q"
      if "\<not> is_ok r"
      using that by (cases r)
        (auto simp: is_ok_def op_when_def intro!: valid_bind [OF valid_return, where R = "\<lambda>_. safe_like l0"] valid_fail)
  qed simp
  then show "valid (\<lambda>l' t. l' = l \<and> safe_like l0 l t) ?m ?Q" by (rule valid_pre) simp
qed

text \<open>
  \<open>guarded g l\<close>: outstanding work is under a guard, the local one of the running call or the
  one the lane retains while it is in flight.
\<close>

definition guarded :: "bool \<Rightarrow> ('i, 'o) lane \<Rightarrow> bool" where
  "guarded g l \<longleftrightarrow> (if g then \<not> ln_guard l \<and> \<not> ln_in_flight l
     else ln_in_flight l \<and> (ln_graph_lease l \<noteq> None \<longrightarrow> ln_guard l))"

definition running :: "('i, 'o) lane \<Rightarrow> bool \<Rightarrow> ('i, 'o) lane \<Rightarrow> log \<Rightarrow> bool" where
  "running l0 g l t \<longleftrightarrow> fixed l = fixed l0 \<and> carries g l t \<and> guarded g l"

lemma running_stable: "fence_stable (running l0 g)"
  using fence_stable_carries(1) [of l0 g "guarded g"] by (simp add: running_def [abs_def])

lemma fence_or_retain_valid:
  "valid (running l0 g) (fence_or_retain_graph_guard pv g) (\<lambda>r l t. (\<exists>x. r = Inr x) \<and> safe_like l0 l t)"
    (is "valid _ _ ?Q")
  unfolding fence_or_retain_graph_guard_def
proof (rule valid_fence [OF running_stable output_sync_valid [OF running_stable]])
  fix r :: "lane_error + unit"
  show "valid (\<lambda>l t. running l0 g l t \<and> quiet l t)
      (op_bind (if True then op_bind clear_in_flight (\<lambda>_. drop_guard g)
        else if g then op_get (\<lambda>l. op_bind (op_set (\<lambda>l. l\<lparr>ln_guard := True\<rparr>)) (\<lambda>_.
                op_bind (drop_guard (ln_guard l)) (\<lambda>_. op_set (\<lambda>l. l\<lparr>ln_in_flight := True\<rparr>))))
              else op_return ()) (\<lambda>_. op_return True)) ?Q"
  proof -
    have "valid (\<lambda>l t. running l0 g l t \<and> quiet l t) (op_bind clear_in_flight (\<lambda>_. drop_guard g))
        (\<lambda>r l t. r = Inr () \<and> safe_like l0 l t)"
      by (rule valid_bind [OF valid_pre [OF clear_in_flight_valid [of l0 g]]])
        (auto simp: running_def intro: valid_post [OF valid_pre [OF drop_guard_valid]])
    then show ?thesis by (auto intro: valid_bind valid_return)
  qed
  show "valid (running l0 g)
      (op_bind (if False then op_bind clear_in_flight (\<lambda>_. drop_guard g)
        else if g then op_get (\<lambda>l. op_bind (op_set (\<lambda>l. l\<lparr>ln_guard := True\<rparr>)) (\<lambda>_.
                op_bind (drop_guard (ln_guard l)) (\<lambda>_. op_set (\<lambda>l. l\<lparr>ln_in_flight := True\<rparr>))))
              else op_return ()) (\<lambda>_. op_return False)) ?Q"
    unfolding valid_def
    by (auto simp: op_bind_def op_get_def op_set_def drop_guard_def op_when_def op_return_def running_def
        guarded_def safe_like_def lane_safe_def carries_def)
qed

text \<open>An idle safe lane, and the lane of a call that has taken the guard and not settled yet.\<close>

definition idle_like :: "('i, 'o) lane \<Rightarrow> ('i, 'o) lane \<Rightarrow> log \<Rightarrow> bool" where
  "idle_like l0 l t \<longleftrightarrow> safe_like l0 l t \<and> \<not> ln_in_flight l"

definition launched :: "('i, 'o) lane \<Rightarrow> ('i, 'o) lane \<Rightarrow> log \<Rightarrow> bool" where
  "launched l0 l t \<longleftrightarrow> running l0 True l t \<and> \<not> ln_event_recorded l"

lemma idle_safe: "idle_like l0 l t \<Longrightarrow> safe_like l0 l t" by (simp add: idle_like_def)

lemmas lane_unfold = idle_like_def launched_def running_def guarded_def safe_like_def lane_safe_def
  carries_def quiet_def

lemma ensure_idle_valid:
  "valid (safe_like l0) ensure_idle (\<lambda>r l t. safe_like l0 l t \<and> (is_ok r \<longrightarrow> idle_like l0 l t))"
  unfolding ensure_idle_def
  by (rule valid_get) (auto simp: idle_like_def is_ok_def intro!: valid_fail valid_return)

lemma idle_neutral: "neutral c \<Longrightarrow> valid (idle_like l0) (call pv c) (\<lambda>_. idle_like l0)"
  by (rule valid_neutral) (auto simp: lane_unfold)

lemma idle_fixed: "idle_like l0 l t \<Longrightarrow> fixed l = fixed l0" by (simp add: lane_unfold)

lemma bind_inputs_valid: "valid (idle_like l0) (bind_inputs pv is) (\<lambda>_. idle_like l0)"
proof (induction "is")
  case Nil
  then show ?case by (simp add: valid_return)
next
  case (Cons i "is")
  then show ?case by (auto intro: valid_bind [OF idle_neutral])
qed

lemma rebind_valid: "valid (idle_like l0) (rebind_host_inputs_if_needed pv) (\<lambda>_. idle_like l0)"
  unfolding rebind_host_inputs_if_needed_def
proof (rule valid_get, rule valid_if)
  fix l :: "('a, 'b) lane"
  show "valid (\<lambda>l' t. l' = l \<and> idle_like l0 l t) (op_return ()) (\<lambda>_. idle_like l0)"
    by (rule valid_return) simp
  have "valid (idle_like l0) (op_bind (op_try (call pv Clear_inputs)) (\<lambda>_. bind_inputs pv [0..<length (ln_inputs l)]))
      (\<lambda>_. idle_like l0)"
    by (rule valid_bind [OF valid_try [where Q = "\<lambda>_. idle_like l0"]]) (simp_all add: idle_neutral bind_inputs_valid)
  then show "valid (\<lambda>l' t. l' = l \<and> idle_like l0 l t)
      (op_bind (op_try (call pv Clear_inputs)) (\<lambda>_. bind_inputs pv [0..<length (ln_inputs l)])) (\<lambda>_. idle_like l0)"
    by (rule valid_pre) simp
qed

lemma idle_device_update:
  assumes "idle_like l0 l t" "ln_device_inputs l = Some devs" "length devs' = length devs"
  shows "idle_like l0 (l\<lparr>ln_device_inputs := Some devs'\<rparr>) t"
  using assms by (auto simp: lane_unfold)

lemma copy_inputs_valid:
  assumes "\<forall>i \<in> set is. i < length (ln_inputs l0)"
  shows "valid (idle_like l0) (copy_inputs pv is) (\<lambda>_. idle_like l0)"
  using assms
proof (induction "is")
  case Nil
  then show ?case by (simp add: valid_return)
next
  case (Cons i "is")
  show ?case unfolding copy_inputs.simps
  proof (rule valid_get)
    fix l :: "('a, 'b) lane"
    show "valid (\<lambda>l' t. l' = l \<and> idle_like l0 l t) (case ln_device_inputs l of None \<Rightarrow> op_return ()
       | Some devs \<Rightarrow> if length devs \<le> i then op_panic else
         op_bind (call pv (Memcpy_h2d i)) (\<lambda>_.
         op_bind (op_set (\<lambda>l. l\<lparr>ln_device_inputs := Some (devs[i := ln_inputs l ! i])\<rparr>)) (\<lambda>_.
         copy_inputs pv is))) (\<lambda>_. idle_like l0)"
    proof (cases "ln_device_inputs l")
      case None
      then show ?thesis by (auto intro: valid_return)
    next
      case (Some devs)
      have copy: "valid (\<lambda>l' t. ln_device_inputs l' = Some devs \<and> idle_like l0 l' t) (call pv (Memcpy_h2d i))
          (\<lambda>_ l' t. ln_device_inputs l' = Some devs \<and> idle_like l0 l' t)"
        by (rule valid_neutral) (auto simp: lane_unfold)
      have "valid (\<lambda>l' t. ln_device_inputs l' = Some devs \<and> idle_like l0 l' t)
          (op_set (\<lambda>l. l\<lparr>ln_device_inputs := Some (devs[i := ln_inputs l ! i])\<rparr>)) (\<lambda>_. idle_like l0)"
        by (rule valid_set) (auto intro: idle_device_update)
      then have "valid (\<lambda>l' t. ln_device_inputs l' = Some devs \<and> idle_like l0 l' t)
         (op_bind (call pv (Memcpy_h2d i)) (\<lambda>_.
         op_bind (op_set (\<lambda>l. l\<lparr>ln_device_inputs := Some (devs[i := ln_inputs l ! i])\<rparr>)) (\<lambda>_.
         copy_inputs pv is))) (\<lambda>_. idle_like l0)"
        by (intro valid_bind [OF copy] valid_bind [where m = "op_set _"]) (use Cons in auto)
      moreover have "\<not> length devs \<le> i" if "idle_like l0 l t" for t
        using that Some Cons.prems by (auto simp: lane_unfold lane_wf_def dest: fixedD(2))
      ultimately show ?thesis using Some by (auto simp: valid_def)
    qed
  qed
qed

lemma refresh_valid: "valid (idle_like l0) (refresh_device_inputs pv) (\<lambda>_. idle_like l0)"
  unfolding refresh_device_inputs_def
proof (rule valid_get, rule valid_if)
  fix l :: "('a, 'b) lane"
  show "valid (\<lambda>l' t. l' = l \<and> idle_like l0 l t) (op_return ()) (\<lambda>_. idle_like l0)"
    by (rule valid_return) simp
  show "valid (\<lambda>l' t. l' = l \<and> idle_like l0 l t) (case ln_device_id l of None \<Rightarrow> op_fail Device_id_missing
       | Some d \<Rightarrow> op_bind (call pv (Ensure_device d)) (\<lambda>_. copy_inputs pv [0..<length (ln_inputs l)]))
      (\<lambda>_. idle_like l0)"
  proof (cases "ln_device_id l")
    case None
    then show ?thesis by (auto intro: valid_fail)
  next
    case (Some d)
    have run: "valid (idle_like l0) (op_bind (call pv (Ensure_device d)) (\<lambda>_. copy_inputs pv [0..<length (ln_inputs l)]))
        (\<lambda>_. idle_like l0)" if "ln_inputs l = ln_inputs l0"
      by (rule valid_bind [OF idle_neutral]) (auto simp: that intro: copy_inputs_valid)
    show ?thesis
    proof (cases "ln_inputs l = ln_inputs l0")
      case True
      show ?thesis using Some by (auto intro: valid_pre [OF run [OF True]])
    next
      case False
      then show ?thesis by (auto simp: valid_def dest!: idle_fixed fixedD(2))
    qed
  qed
qed

lemma begin_guard_valid:
  assumes "ln_graph_lease l0 \<noteq> None"
  shows "valid (idle_like l0) begin_guard (\<lambda>r l t. r = Inr True \<and> launched l0 l t)"
  unfolding valid_def
proof (intro allI impI)
  fix l t assume i: "idle_like l0 l t"
  then have "ln_graph_lease l \<noteq> None" using assms by (auto simp: lane_unfold dest: fixedD(3))
  then show "\<exists>r l' t'. begin_guard (l, t) = Ret (r, l', t') \<and> r = Inr True \<and> launched l0 l' t'"
    using i by (auto simp: begin_guard_def op_get_def op_bind_def lease_mark_def op_return_def lane_unfold)
qed

lemma mark_captured_valid: "valid (running l0 g) (mark_captured r) (\<lambda>x l t. x = Inr () \<and> running l0 g l t)"
  "valid (launched l0) (mark_captured r) (\<lambda>x l t. x = Inr () \<and> launched l0 l t)"
  by (auto simp: valid_def mark_captured_def op_get_def op_when_def op_set_def op_return_def lane_unfold)

lemma settle_retained_valid:
  "valid (running l0 True) (settle_graph_run pv True (Inr u) True)
     (\<lambda>r l t. r = Inr () \<and> running l0 False l t)"
  by (auto simp: valid_def settle_graph_run_def op_get_def op_bind_def op_set_def drop_guard_def op_when_def
      op_return_def lane_unfold)

lemma settle_error_valid:
  "valid (running l0 True) (settle_graph_run pv True (Inl e) b) (\<lambda>r l t. r = Inl e \<and> safe_like l0 l t)"
  unfolding settle_graph_run_def sum.case
  by (rule valid_bind [where R = "\<lambda>r l t. (\<exists>x. r = Inr x) \<and> safe_like l0 l t"])
    (auto intro: fence_or_retain_valid valid_fail)

lemma running_safe: "running l0 False l t \<Longrightarrow> safe_like l0 l t \<and> ln_in_flight l"
  by (auto simp: lane_unfold)

text \<open>The end of an unsynchronized launch on a lane with a lease, whatever the provider answered.\<close>

lemma settle_valid:
  "valid (running l0 True) (settle_graph_run pv True r True)
     (\<lambda>x l t. safe_like l0 l t \<and> (is_ok x \<longrightarrow> running l0 False l t))"
proof (cases r)
  case (Inl e)
  show ?thesis unfolding Inl by (rule valid_post [OF settle_error_valid]) (simp add: is_ok_def)
next
  case (Inr u)
  show ?thesis unfolding Inr by (rule valid_post [OF settle_retained_valid]) (simp add: running_safe)
qed

lemma settle_launch_valid:
  "valid (running l0 True) (op_bind (mark_captured r) (\<lambda>_. settle_graph_run pv True r True))
     (\<lambda>x l t. safe_like l0 l t \<and> (is_ok x \<longrightarrow> running l0 False l t))"
  by (rule valid_bind [OF mark_captured_valid(1)], rule valid_pre [OF settle_valid]) auto

lemma launched_event: "launched l0 l t \<Longrightarrow> ln_completion_event l = ln_completion_event l0"
  by (auto simp: launched_def running_def dest: fixedD(7))

lemma launched_recorded:
  assumes "launched l0 l t" "ln_completion_event l0" "w_covered (watching (ln_key l) t)"
  shows "running l0 True (l\<lparr>ln_event_recorded := True\<rparr>) t"
  using assms launched_event [OF assms(1)] by (auto simp: launched_def running_def guarded_def carries_def)

lemma launch_valid: "valid (launched l0) (launch_enqueued pv) (\<lambda>r. running l0 True)"
  unfolding launch_enqueued_def
proof (rule valid_bind [where R = "\<lambda>_. launched l0"])
  show "valid (launched l0) (call pv Run_unsynchronized) (\<lambda>_. launched l0)"
    by (rule valid_call) (auto simp: lane_unfold)
  have rec: "valid (launched l0)
      (op_bind (call pv Event_record) (\<lambda>_. op_set (\<lambda>l. l\<lparr>ln_event_recorded := True\<rparr>)))
      (\<lambda>_. running l0 True)" if "ln_completion_event l0"
  proof (rule valid_bind [where R = "\<lambda>r l t. launched l0 l t \<and> (is_ok r \<longrightarrow> w_covered (watching (ln_key l) t))"])
    show "valid (launched l0) (call pv Event_record)
        (\<lambda>r l t. launched l0 l t \<and> (is_ok r \<longrightarrow> w_covered (watching (ln_key l) t)))"
      by (rule valid_call) (auto simp: lane_unfold is_ok_def)
    show "valid (\<lambda>l t. launched l0 l t \<and> (is_ok (Inr a) \<longrightarrow> w_covered (watching (ln_key l) t)))
        (op_set (\<lambda>l. l\<lparr>ln_event_recorded := True\<rparr>)) (\<lambda>_. running l0 True)" for a :: unit
      by (rule valid_set) (auto simp: is_ok_def intro: launched_recorded that)
  qed (simp add: launched_def)
  show "valid (launched l0) (op_get (\<lambda>l. if ln_device_inputs l \<noteq> None \<and> ln_graph_id l \<noteq> None
       then if ln_completion_event l
         then op_bind (call pv Event_record) (\<lambda>_. op_set (\<lambda>l. l\<lparr>ln_event_recorded := True\<rparr>))
         else op_panic
       else op_return ())) (\<lambda>_. running l0 True)"
  proof (rule valid_get, intro valid_if)
    fix l :: "('a, 'b) lane"
    show "valid (\<lambda>l' t. l' = l \<and> launched l0 l t)
        (op_bind (call pv Event_record) (\<lambda>_. op_set (\<lambda>l. l\<lparr>ln_event_recorded := True\<rparr>))) (\<lambda>_. running l0 True)"
      if c: "ln_completion_event l"
    proof (cases "ln_completion_event l0")
      case True
      show ?thesis by (rule valid_pre [OF rec [OF True]]) simp
    next
      case False
      then show ?thesis using c by (auto simp: valid_def lane_unfold dest: fixedD(7))
    qed
    show "valid (\<lambda>l' t. l' = l \<and> launched l0 l t) op_panic (\<lambda>_. running l0 True)"
      if "ln_device_inputs l \<noteq> None \<and> ln_graph_id l \<noteq> None" "\<not> ln_completion_event l"
      using that by (auto simp: valid_def lane_unfold lane_wf_def)
    show "valid (\<lambda>l' t. l' = l \<and> launched l0 l t) (op_return ()) (\<lambda>_. running l0 True)"
      by (rule valid_return) (simp add: launched_def)
  qed
qed (simp add: launched_def)

lemma enqueued_valid:
  assumes "ln_graph_lease l0 \<noteq> None"
  shows "valid (safe_like l0) (run_bound_binding_enqueued pv)
    (\<lambda>r l t. safe_like l0 l t \<and> (is_ok r \<longrightarrow> ln_in_flight l))"
  unfolding run_bound_binding_enqueued_def
proof (rule valid_bind [OF ensure_idle_valid])
  have "valid (launched l0) (op_bind (op_try (launch_enqueued pv)) (\<lambda>result.
      op_bind (mark_captured result) (\<lambda>_. settle_graph_run pv True result True)))
      (\<lambda>r l t. safe_like l0 l t \<and> (is_ok r \<longrightarrow> ln_in_flight l))"
    by (rule valid_bind [where R = "\<lambda>r l t. (\<exists>x. r = Inr x) \<and> running l0 True l t"],
        rule valid_try, rule valid_post [OF launch_valid])
      (auto intro!: valid_post [OF valid_pre [OF settle_launch_valid]] dest: running_safe)
  then have "valid (idle_like l0) (op_bind begin_guard (\<lambda>guard. op_bind (op_try (launch_enqueued pv)) (\<lambda>result.
      op_bind (mark_captured result) (\<lambda>_. settle_graph_run pv guard result True))))
      (\<lambda>r l t. safe_like l0 l t \<and> (is_ok r \<longrightarrow> ln_in_flight l))"
    by (intro valid_bind [OF begin_guard_valid [OF assms]]) (auto simp: valid_def)
  then show "valid (\<lambda>l t. safe_like l0 l t \<and> (is_ok (Inr a) \<longrightarrow> idle_like l0 l t))
      (op_bind begin_guard (\<lambda>guard. op_bind (op_try (launch_enqueued pv)) (\<lambda>result.
      op_bind (mark_captured result) (\<lambda>_. settle_graph_run pv guard result True))))
      (\<lambda>r l t. safe_like l0 l t \<and> (is_ok r \<longrightarrow> ln_in_flight l))" for a :: unit
    by (rule valid_pre) (simp add: is_ok_def)
qed (simp add: is_ok_def)

text \<open>The synchronous run of a lane with a lease: a success is fenced by the provider itself.\<close>

lemma sync_run_valid:
  assumes "ln_graph_lease l0 \<noteq> None" "ln_run_opts l0"
  shows "valid (idle_like l0) (run_bound_binding pv) (\<lambda>r l t. safe_like l0 l t \<and> (is_ok r \<longrightarrow> \<not> ln_in_flight l))"
    (is "valid _ _ ?Q")
proof -
  have settle: "valid (\<lambda>l t. launched l0 l t \<and> (is_ok r \<longrightarrow> quiet l t))
      (op_bind (mark_captured r) (\<lambda>_. settle_graph_run pv True r False)) ?Q" for r
  proof (cases r)
    case (Inl e)
    show ?thesis unfolding Inl
      by (rule valid_bind [OF valid_pre [OF mark_captured_valid(1)]],
          auto simp: launched_def is_ok_def intro!: valid_post [OF valid_pre [OF settle_error_valid]])
  next
    case (Inr u)
    have "valid (\<lambda>l t. launched l0 l t \<and> quiet l t) (mark_captured (Inr u))
        (\<lambda>x l t. x = Inr () \<and> launched l0 l t \<and> quiet l t)"
      by (auto simp: valid_def mark_captured_def op_get_def op_when_def op_set_def op_return_def lane_unfold)
    moreover have "valid (\<lambda>l t. launched l0 l t \<and> quiet l t) (settle_graph_run pv True (Inr u) False) ?Q"
      by (auto simp: valid_def settle_graph_run_def drop_guard_def op_when_def lease_mark_def lane_unfold)
    ultimately show ?thesis unfolding Inr by (auto simp: is_ok_def intro!: valid_bind)
  qed
  have run: "valid (launched l0) (call pv Run_binding_with) (\<lambda>r l t. launched l0 l t \<and> (is_ok r \<longrightarrow> quiet l t))"
    by (rule valid_call) (auto simp: lane_unfold is_ok_def)
  have body: "valid (idle_like l0) (op_bind begin_guard (\<lambda>guard.
     op_bind (op_try (call pv Run_binding_with)) (\<lambda>result.
     op_bind (mark_captured result) (\<lambda>_. settle_graph_run pv guard result False)))) ?Q"
  proof (rule valid_bind [OF begin_guard_valid [OF assms(1)]])
    show "valid (\<lambda>l t. Inr g = (Inr True :: lane_error + bool) \<and> launched l0 l t)
        (op_bind (op_try (call pv Run_binding_with)) (\<lambda>result.
         op_bind (mark_captured result) (\<lambda>_. settle_graph_run pv g result False))) ?Q" for g
    proof (cases g)
      case True
      then show ?thesis
        by (auto intro!: valid_bind [where R = "\<lambda>r l t. case r of Inl _ \<Rightarrow> False
              | Inr x \<Rightarrow> launched l0 l t \<and> (is_ok x \<longrightarrow> quiet l t)"] valid_try valid_post [OF run] settle)
    qed (simp add: valid_def)
  qed simp
  show ?thesis unfolding run_bound_binding_def
  proof (rule valid_get, rule valid_if)
    fix l :: "('a, 'b) lane"
    show "valid (\<lambda>l' t. l' = l \<and> idle_like l0 l t) (call pv Run_binding) ?Q" if "\<not> ln_run_opts l"
      using that assms(2) by (auto simp: valid_def dest!: idle_fixed fixedD(5))
    show "valid (\<lambda>l' t. l' = l \<and> idle_like l0 l t) (op_bind begin_guard (\<lambda>guard.
       op_bind (op_try (call pv Run_binding_with)) (\<lambda>result.
       op_bind (mark_captured result) (\<lambda>_. settle_graph_run pv guard result False)))) ?Q"
      by (rule valid_pre [OF body]) simp
  qed
qed

abbreviation safely :: "('i, 'o) lane \<Rightarrow> (('i, 'o) lane \<Rightarrow> bool) \<Rightarrow> lane_error + 'r \<Rightarrow> ('i, 'o) lane \<Rightarrow> log \<Rightarrow> bool" where
  "safely l0 R \<equiv> \<lambda>r l t. safe_like l0 l t \<and> (is_ok r \<longrightarrow> R l)"

lemma safely_bind:
  assumes "valid P m (\<lambda>r l t. safe_like l0 l t \<and> (is_ok r \<longrightarrow> P' l t))" "\<And>a. valid P' (f a) (safely l0 R)"
  shows "valid P (op_bind m f) (safely l0 R)"
proof (rule valid_bind [OF assms(1)])
  show "valid (\<lambda>l t. safe_like l0 l t \<and> (is_ok (Inr a) \<longrightarrow> P' l t)) (f a) (safely l0 R)" for a
    by (rule valid_pre [OF assms(2)]) (simp add: is_ok_def)
qed (simp add: is_ok_def)

lemma idle_bind:
  assumes "valid (idle_like l0) m (\<lambda>_. idle_like l0)" "\<And>a. valid (idle_like l0) (f a) (safely l0 R)"
  shows "valid (idle_like l0) (op_bind m f) (safely l0 R)"
  by (rule safely_bind [OF valid_post [OF assms(1)] assms(2)]) (simp add: idle_safe)

lemmas run_rules = safely_bind [OF ensure_idle_valid] idle_bind [OF rebind_valid] idle_bind [OF refresh_valid]

lemma run_enqueued_valid:
  assumes "ln_graph_lease l0 \<noteq> None"
  shows "valid (safe_like l0) (run_enqueued pv) (safely l0 ln_in_flight)"
  unfolding run_enqueued_def
  by (intro run_rules valid_pre [OF enqueued_valid [OF assms]] idle_safe)

lemma enqueue_then_sync_valid:
  assumes "ln_graph_lease l0 \<noteq> None"
  shows "valid (idle_like l0) (op_bind (run_bound_binding_enqueued pv) (\<lambda>_. synchronize_outputs pv))
    (safely l0 (\<lambda>l. \<not> ln_in_flight l))"
  by (rule safely_bind [where P' = "safe_like l0"], rule valid_pre [OF valid_post [OF enqueued_valid [OF assms]]])
    (auto simp: idle_safe intro: synchronize_outputs_valid)

lemma run_lane_valid:
  assumes "ln_graph_lease l0 \<noteq> None" "ln_run_opts l0"
  shows "valid (safe_like l0) (run_lane pv) (safely l0 (\<lambda>l. \<not> ln_in_flight l))"
  unfolding run_lane_def
proof (intro run_rules valid_get valid_if)
  fix l :: "('a, 'b) lane"
  show "valid (\<lambda>l' t. l' = l \<and> idle_like l0 l t)
      (op_bind (run_bound_binding_enqueued pv) (\<lambda>_. synchronize_outputs pv)) (safely l0 (\<lambda>l. \<not> ln_in_flight l))"
    by (rule valid_pre [OF enqueue_then_sync_valid [OF assms(1)]]) simp
  show "valid (\<lambda>l' t. l' = l \<and> idle_like l0 l t) (run_bound_binding pv) (safely l0 (\<lambda>l. \<not> ln_in_flight l))"
    by (rule valid_pre [OF sync_run_valid [OF assms]]) simp
qed

lemma run_event_profiled_valid:
  assumes "ln_graph_lease l0 \<noteq> None"
  shows "valid (safe_like l0) (run_event_profiled pv) (safely l0 (\<lambda>l. \<not> ln_in_flight l))"
  unfolding run_event_profiled_def
proof (intro run_rules valid_get valid_if)
  fix l :: "('a, 'b) lane"
  show "valid (\<lambda>l' t. l' = l \<and> idle_like l0 l t) (op_fail Not_event_fenced) (safely l0 (\<lambda>l. \<not> ln_in_flight l))"
    by (rule valid_fail) (simp add: is_ok_def idle_safe)
  show "valid (\<lambda>l' t. l' = l \<and> idle_like l0 l t)
      (op_bind (refresh_device_inputs pv) (\<lambda>_. op_bind (run_bound_binding_enqueued pv) (\<lambda>_. synchronize_outputs pv)))
      (safely l0 (\<lambda>l. \<not> ln_in_flight l))"
    by (rule valid_pre [OF idle_bind [OF refresh_valid enqueue_then_sync_valid [OF assms]]]) simp
qed

lemma profiled_sync_valid:
  "valid (running l0 False) (op_bind (op_try (call pv Synchronize_outputs)) (\<lambda>sync.
      case sync of Inr _ \<Rightarrow> clear_in_flight
      | Inl e \<Rightarrow> op_bind (fence_or_retain_graph_guard pv False) (\<lambda>_. op_fail e)))
    (safely l0 (\<lambda>l. \<not> ln_in_flight l))" (is "valid _ _ ?Q")
proof (rule valid_bind [where R = "\<lambda>r l t. case r of Inl _ \<Rightarrow> False
      | Inr x \<Rightarrow> running l0 False l t \<and> (is_ok x \<longrightarrow> quiet l t)"])
  show "valid (running l0 False) (op_try (call pv Synchronize_outputs))
      (\<lambda>r l t. case r of Inl _ \<Rightarrow> False | Inr x \<Rightarrow> running l0 False l t \<and> (is_ok x \<longrightarrow> quiet l t))"
    by (rule valid_try, rule valid_post [OF output_sync_valid [OF running_stable]]) simp
  fix x :: "lane_error + unit"
  show "valid (\<lambda>l t. case Inr x of Inl _ \<Rightarrow> False | Inr x \<Rightarrow> running l0 False l t \<and> (is_ok x \<longrightarrow> quiet l t))
      (case x of Inr _ \<Rightarrow> clear_in_flight
       | Inl e \<Rightarrow> op_bind (fence_or_retain_graph_guard pv False) (\<lambda>_. op_fail e)) ?Q"
  proof (cases x)
    case (Inl e)
    have "valid (running l0 False) (op_bind (fence_or_retain_graph_guard pv False) (\<lambda>_. op_fail e)) ?Q"
      by (rule valid_bind [OF fence_or_retain_valid]) (auto simp: is_ok_def intro: valid_fail)
    then show ?thesis using Inl by (simp add: is_ok_def)
  next
    case (Inr u)
    have "valid (\<lambda>l t. running l0 False l t \<and> quiet l t) clear_in_flight ?Q"
      by (rule valid_post [OF valid_pre [OF settled]]) (auto dest: running_safe)
    then show ?thesis using Inr by (simp add: is_ok_def)
  qed
qed simp

lemma run_profiled_valid:
  assumes "ln_graph_lease l0 \<noteq> None"
  shows "valid (safe_like l0) (run_profiled pv) (safely l0 (\<lambda>l. \<not> ln_in_flight l))"
proof -
  let ?rest = "\<lambda>g. op_bind (op_try (call pv Run_unsynchronized)) (\<lambda>result.
     op_bind (mark_captured result) (\<lambda>_. op_bind (settle_graph_run pv g result True) (\<lambda>_.
     op_bind (op_try (call pv Synchronize_outputs)) (\<lambda>sync.
     case sync of Inr _ \<Rightarrow> clear_in_flight
     | Inl e \<Rightarrow> op_bind (fence_or_retain_graph_guard pv False) (\<lambda>_. op_fail e)))))"
  let ?Q = "safely l0 (\<lambda>l. \<not> ln_in_flight l)"
  have run: "valid (launched l0) (op_try (call pv Run_unsynchronized)) (\<lambda>r l t. (\<exists>x. r = Inr x) \<and> running l0 True l t)"
    by (intro valid_try valid_call) (auto simp: lane_unfold)
  have "valid (running l0 True) (op_bind (mark_captured r) (\<lambda>_. op_bind (settle_graph_run pv True r True) (\<lambda>_.
     op_bind (op_try (call pv Synchronize_outputs)) (\<lambda>sync.
     case sync of Inr _ \<Rightarrow> clear_in_flight
     | Inl e \<Rightarrow> op_bind (fence_or_retain_graph_guard pv False) (\<lambda>_. op_fail e))))) ?Q" for r
    by (rule valid_bind [OF mark_captured_valid(1)],
        rule valid_pre [OF safely_bind [OF settle_valid profiled_sync_valid]]) auto
  then have "valid (launched l0) (?rest True) ?Q"
    by (intro valid_bind [OF run]) (auto intro: valid_pre)
  then have "valid (idle_like l0) (op_bind begin_guard ?rest) ?Q"
    by (intro valid_bind [OF begin_guard_valid [OF assms]]) (auto simp: valid_def)
  then show ?thesis
    unfolding run_profiled_def by (intro run_rules idle_bind [OF idle_neutral]) simp_all
qed

lemma try_complete_valid:
  "valid (safe_like l0) (try_complete pv) (\<lambda>r l t. safe_like l0 l t \<and> (r = Inr Ready \<longrightarrow> \<not> ln_in_flight l))"
  unfolding try_complete_def
proof (intro valid_get valid_if)
  fix l :: "('a, 'b) lane"
  let ?Q = "\<lambda>r l t. safe_like l0 l t \<and> (r = Inr Ready \<longrightarrow> \<not> ln_in_flight l)"
  show "\<not> ln_in_flight l \<Longrightarrow> valid (\<lambda>l' t. l' = l \<and> safe_like l0 l t) (op_return Ready) ?Q"
    by (rule valid_return) simp
  show "valid (\<lambda>l' t. l' = l \<and> safe_like l0 l t) (op_fail No_completion_event) ?Q"
    by (rule valid_fail) simp
  show "valid (\<lambda>l' t. l' = l \<and> safe_like l0 l t) op_panic ?Q"
    if "ln_event_recorded l" "\<not> ln_completion_event l"
    using that by (auto simp: valid_def lane_unfold)
  have "valid (\<lambda>l t. safe_like l0 l t \<and> ln_event_recorded l) (provide pv Event_query)
      (\<lambda>r l t. safe_like l0 l t \<and> (r = Inr True \<longrightarrow> quiet l t))"
    by (rule valid_query) (auto simp: lane_unfold)
  then have "valid (\<lambda>l t. safe_like l0 l t \<and> ln_event_recorded l)
      (op_bind (provide pv Event_query) (\<lambda>complete.
        if complete then op_bind clear_in_flight (\<lambda>_. op_return Ready) else op_return Pending)) ?Q"
  proof (rule valid_bind)
    fix b
    show "valid (\<lambda>l t. safe_like l0 l t \<and> (Inr b = (Inr True :: lane_error + bool) \<longrightarrow> quiet l t))
        (if b then op_bind clear_in_flight (\<lambda>_. op_return Ready) else op_return Pending) ?Q"
      by (cases b) (auto intro!: valid_return valid_bind [OF settled])
  qed simp
  then show "valid (\<lambda>l' t. l' = l \<and> safe_like l0 l t)
      (op_bind (provide pv Event_query) (\<lambda>complete.
        if complete then op_bind clear_in_flight (\<lambda>_. op_return Ready) else op_return Pending)) ?Q"
    if "ln_event_recorded l"
    by (rule valid_pre) (use that in auto)
qed

lemma prime_valid:
  assumes "ln_graph_lease l0 \<noteq> None" "ln_run_opts l0"
  shows "valid (safe_like l0) (prime pv n) (safely l0 (\<lambda>_. True))"
proof (induction n)
  case 0
  then show ?case by (simp add: valid_return)
next
  case (Suc n)
  show ?case unfolding prime.simps
    by (rule safely_bind [OF valid_post [OF run_lane_valid [OF assms]] Suc]) simp
qed

lemma prime_enqueued_valid:
  assumes "ln_graph_lease l0 \<noteq> None"
  shows "valid (safe_like l0) (prime_enqueued pv n) (safely l0 (\<lambda>_. True))"
proof (induction n)
  case 0
  then show ?case by (simp add: valid_return)
next
  case (Suc n)
  show ?case unfolding prime_enqueued.simps
    by (rule safely_bind [OF valid_post [OF run_enqueued_valid [OF assms]]
          safely_bind [OF valid_post [OF synchronize_outputs_valid [of l0]] Suc]]) simp_all
qed

lemma run_unsynchronized_valid:
  assumes "ln_graph_id l0 \<noteq> None"
  shows "valid (safe_like l0) (run_unsynchronized pv) (safely l0 (\<lambda>_. True))"
  unfolding run_unsynchronized_def
proof (intro run_rules valid_get valid_if)
  fix l :: "('a, 'b) lane"
  show "valid (\<lambda>l' t. l' = l \<and> idle_like l0 l t) (op_fail Unsynchronized_device_inputs) (safely l0 (\<lambda>_. True))"
    "valid (\<lambda>l' t. l' = l \<and> idle_like l0 l t) (op_fail Unsynchronized_graph) (safely l0 (\<lambda>_. True))"
    by (rule valid_fail, simp add: idle_safe)+
  show "valid (\<lambda>l' t. l' = l \<and> idle_like l0 l t)
      (op_bind (rebind_host_inputs_if_needed pv) (\<lambda>_. call pv Run_unsynchronized)) (safely l0 (\<lambda>_. True))"
    if "\<not> ln_graph_id l \<noteq> None"
    using that assms by (auto simp: valid_def dest!: idle_fixed fixedD(4))
qed

text \<open>A lane with a captured-graph annotation, as \<open>set_gpu_graph_id\<close> leaves it.\<close>

definition graph_lane :: "('i, 'o) lane \<Rightarrow> bool" where
  "graph_lane l \<longleftrightarrow> ln_graph_lease l \<noteq> None \<and> ln_graph_id l \<noteq> None \<and> ln_run_opts l"

lemma safely_keeps: "valid P m (safely l0 R) \<Longrightarrow> valid P m (\<lambda>_. safe_like l0)"
  by (erule valid_post) auto

lemma lane_call_valid:
  assumes "graph_lane l0"
  shows "valid (safe_like l0) (lane_call_op pv c) (\<lambda>_. safe_like l0)"
proof -
  have g: "ln_graph_lease l0 \<noteq> None" "ln_graph_id l0 \<noteq> None" "ln_run_opts l0"
    using assms by (auto simp: graph_lane_def)
  show ?thesis
  proof (cases c)
    case Call_try_complete
    have "valid (safe_like l0) (op_bind (try_complete pv) (\<lambda>_. op_return ())) (\<lambda>_. safe_like l0)"
      by (rule valid_bind [OF try_complete_valid]) (auto intro: valid_return)
    then show ?thesis using Call_try_complete by simp
  next
    case Call_finish
    show ?thesis unfolding Call_finish lane_call_op.simps by (rule valid_post [OF finish_valid]) simp
  qed (simp_all add: safely_keeps [OF run_lane_valid [OF g(1,3)]] safely_keeps [OF run_enqueued_valid [OF g(1)]]
      safely_keeps [OF synchronize_outputs_valid] safely_keeps [OF run_profiled_valid [OF g(1)]]
      safely_keeps [OF run_event_profiled_valid [OF g(1)]] safely_keeps [OF run_unsynchronized_valid [OF g(2)]]
      safely_keeps [OF prime_valid [OF g(1,3)]] safely_keeps [OF prime_enqueued_valid [OF g(1)]])
qed

lemma lane_calls_safe:
  assumes "graph_lane l0" "safe_like l0 l t"
  shows "\<exists>l' t'. lane_calls pv cs (l, t) = Ret (l', t') \<and> safe_like l0 l' t'"
  using assms(2)
proof (induction cs arbitrary: l t)
  case Nil
  then show ?case by simp
next
  case (Cons c cs)
  obtain r l' t' where "lane_call_op pv c (l, t) = Ret (r, l', t')" "safe_like l0 l' t'"
    using lane_call_valid [OF assms(1)] Cons.prems by (rule validD)
  then show ?case using Cons.IH by simp
qed

text \<open>No lane is destroyed, and no guard dropped, while provider work is outstanding.\<close>

lemma lane_drop_safe:
  assumes "lane_safe l t"
  shows "\<exists>f t'. lane_drop pv (l, t) = Ret (f, t') \<and>
    (case f of Destroyed l' \<Rightarrow> \<not> w_busy (watching (ln_key l) t') \<and> \<not> w_bad (watching (ln_key l) t')
     | Leaked l' \<Rightarrow> lane_safe l' t' \<and> ln_in_flight l' \<and> ln_key l' = ln_key l | Kept _ \<Rightarrow> False)"
proof -
  have "safe_like l l t" using assms by (simp add: safe_like_def)
  then obtain l' t' where f: "finish_in_flight_best_effort pv (l, t) = Ret (Inr (), l', t')" "safe_like l l' t'"
    using finish_valid [of l pv] by (auto elim: validD)
  then have k: "ln_key l' = ln_key l" by (auto simp: safe_like_def dest: fixedD(1))
  show ?thesis
    using f k by (auto simp: lane_drop_def safe_like_def lane_safe_def carries_def)
qed

subsection \<open>Which inputs a run reads\<close>

lemma op_bind_Inr [result_simps]:
  "op_bind m f s = Ret (Inr r, s') \<longleftrightarrow> (\<exists>a l t. m s = Ret (Inr a, l, t) \<and> f a (l, t) = Ret (Inr r, s'))"
proof (cases "m s")
  case (Ret x)
  obtain r' l t where "x = (r', l, t)" by (cases x)
  then show ?thesis using Ret by (cases r') (auto simp: op_bind_def)
qed (simp add: op_bind_def)

text \<open>\<open>keeps_inputs m\<close>: \<open>m\<close> touches neither the staging buffers nor the device buffers.\<close>

definition keeps_inputs :: "('i, 'o, 'r) lane_op \<Rightarrow> bool" where
  "keeps_inputs m \<longleftrightarrow> (\<forall>l t r l' t'. m (l, t) = Ret (r, l', t') \<longrightarrow>
     ln_inputs l' = ln_inputs l \<and> ln_device_inputs l' = ln_device_inputs l)"

lemma keeps_basic:
  "keeps_inputs (op_return r)" "keeps_inputs (op_fail e)" "keeps_inputs op_panic" "keeps_inputs (lease_mark c)"
  "keeps_inputs (provide pv c)"
  by (simp_all add: keeps_inputs_def op_return_def op_fail_def op_panic_def lease_mark_def provide_def Let_def)

lemma keeps_set:
  "(\<And>l. ln_inputs (g l) = ln_inputs l \<and> ln_device_inputs (g l) = ln_device_inputs l) \<Longrightarrow> keeps_inputs (op_set g)"
  by (simp add: keeps_inputs_def op_set_def)

lemma keeps_get: "(\<And>l. keeps_inputs (f l)) \<Longrightarrow> keeps_inputs (op_get f)"
  by (simp add: keeps_inputs_def op_get_def)

lemma keeps_bind: "keeps_inputs m \<Longrightarrow> (\<And>a. keeps_inputs (f a)) \<Longrightarrow> keeps_inputs (op_bind m f)"
  unfolding keeps_inputs_def
proof (intro allI impI)
  fix l t r l' t'
  assume m: "\<forall>l t r l' t'. m (l, t) = Ret (r, l', t') \<longrightarrow> ln_inputs l' = ln_inputs l \<and> ln_device_inputs l' = ln_device_inputs l"
    and f: "\<And>a. \<forall>l t r l' t'. f a (l, t) = Ret (r, l', t') \<longrightarrow> ln_inputs l' = ln_inputs l \<and> ln_device_inputs l' = ln_device_inputs l"
    and run: "op_bind m f (l, t) = Ret (r, l', t')"
  then obtain r1 l1 t1 where m1: "m (l, t) = Ret (r1, l1, t1)"
    by (auto simp: op_bind_def result_simps)
  then have "ln_inputs l1 = ln_inputs l \<and> ln_device_inputs l1 = ln_device_inputs l" using m by blast
  moreover have "ln_inputs l' = ln_inputs l1 \<and> ln_device_inputs l' = ln_device_inputs l1"
  proof (cases r1)
    case (Inl e)
    then show ?thesis using run m1 by (simp add: op_bind_def)
  next
    case (Inr b)
    then have "f b (l1, t1) = Ret (r, l', t')" using run m1 by (simp add: op_bind_def)
    then show ?thesis using f [of b] by blast
  qed
  ultimately show "ln_inputs l' = ln_inputs l \<and> ln_device_inputs l' = ln_device_inputs l" by simp
qed

lemma keeps_try: "keeps_inputs m \<Longrightarrow> keeps_inputs (op_try m)"
  unfolding keeps_inputs_def
proof (intro allI impI)
  fix l t r l' t'
  assume m: "\<forall>l t r l' t'. m (l, t) = Ret (r, l', t') \<longrightarrow> ln_inputs l' = ln_inputs l \<and> ln_device_inputs l' = ln_device_inputs l"
    and "op_try m (l, t) = Ret (r, l', t')"
  then obtain r1 where "m (l, t) = Ret (r1, l', t')" by (auto simp: op_try_def result_simps)
  then show "ln_inputs l' = ln_inputs l \<and> ln_device_inputs l' = ln_device_inputs l" using m by blast
qed

lemma keeps_if: "keeps_inputs m \<Longrightarrow> keeps_inputs m' \<Longrightarrow> keeps_inputs (if b then m else m')"
  by simp

lemma keeps_sum: "(\<And>x. keeps_inputs (f x)) \<Longrightarrow> (\<And>y. keeps_inputs (g y)) \<Longrightarrow>
    keeps_inputs (case s of Inl x \<Rightarrow> f x | Inr y \<Rightarrow> g y)"
  by (cases s) simp_all

lemma keeps_option: "keeps_inputs m \<Longrightarrow> (\<And>y. keeps_inputs (g y)) \<Longrightarrow>
    keeps_inputs (case s of None \<Rightarrow> m | Some y \<Rightarrow> g y)"
  by (cases s) simp_all

lemmas keeps_intros = keeps_basic keeps_set keeps_get keeps_bind keeps_try keeps_if keeps_sum keeps_option

lemma keeps_enqueued: "keeps_inputs (run_bound_binding_enqueued pv)"
  unfolding run_bound_binding_enqueued_def ensure_idle_def begin_guard_def launch_enqueued_def mark_captured_def
    settle_graph_run_def fence_or_retain_graph_guard_def try_device_fence_after_sync_error_def
    clear_in_flight_def drop_guard_def op_when_def call_def
  by (intro keeps_intros) simp_all

lemma copy_inputs_fresh:
  assumes "copy_inputs pv [k..<n] (l, t) = Ret (Inr (), l', t')" "ln_device_inputs l = Some devs"
    "length devs = n" "length (ln_inputs l) = n" "take k devs = take k (ln_inputs l)" "k \<le> n"
  shows "ln_device_inputs l' = Some (ln_inputs l') \<and> ln_inputs l' = ln_inputs l"
  using assms
proof (induction "n - k" arbitrary: k l t devs)
  case 0
  then have "k = n" by simp
  then show ?case using 0 by (simp add: op_return_def)
next
  case (Suc d)
  then have k: "k < n" by simp
  then have up: "[k..<n] = k # [Suc k..<n]" by (rule upt_conv_Cons)
  let ?l = "l\<lparr>ln_device_inputs := Some (devs[k := ln_inputs l ! k])\<rparr>"
  obtain t1 where step: "copy_inputs pv [Suc k..<n] (?l, t1) = Ret (Inr (), l', t')"
    using Suc.prems(1,2,3) k
    by (cases "answer (Memcpy_h2d k) (pv t (ln_key l) (Memcpy_h2d k))")
      (auto simp: up op_get_def op_bind_def call_def provide_def Let_def op_return_def op_set_def)
  have "take (Suc k) (devs[k := ln_inputs l ! k]) = take (Suc k) (ln_inputs l)"
    using Suc.prems(3-5) k by (simp add: take_Suc_conv_app_nth)
  then show ?case
    using Suc.hyps(1) [of "Suc k" ?l t1 "devs[k := ln_inputs l ! k]"] step Suc.prems Suc.hyps(2) k by simp
qed

lemma refresh_fresh:
  assumes "refresh_device_inputs pv (l, t) = Ret (Inr (), l', t')" "lane_wf l" "ln_device_inputs l \<noteq> None"
  shows "ln_device_inputs l' = Some (ln_inputs l') \<and> ln_inputs l' = ln_inputs l"
proof -
  obtain devs d where d: "ln_device_inputs l = Some devs" "ln_device_id l = Some d" "length devs = length (ln_inputs l)"
    using assms(2,3) by (auto simp: lane_wf_def)
  obtain t1 where "copy_inputs pv [0..<length (ln_inputs l)] (l, t1) = Ret (Inr (), l', t')"
    using assms(1) d
    by (cases "answer (Ensure_device d) (pv t (ln_key l) (Ensure_device d))")
      (auto simp: refresh_device_inputs_def op_get_def op_bind_def call_def provide_def Let_def op_return_def)
  then show ?thesis using copy_inputs_fresh [of pv 0 "length (ln_inputs l)" l t1 l' t' devs] d by simp
qed

subsection \<open>Properties\<close>

text \<open>A device-input lane with two inputs, without and with a graph id, and two providers.\<close>

definition example_lane :: "int option \<Rightarrow> (int, int) lane" where
  "example_lane gid = \<lparr>ln_key = 0, ln_inputs = [[1, 2], [3]], ln_outputs = [[0]], ln_device_outputs = None,
     ln_device_inputs = Some [[0, 0], [0]], ln_run_opts = (gid \<noteq> None), ln_sync_stream = False,
     ln_graph_id = gid, ln_graph_captured = False, ln_graph_lease = gid, ln_guard = False,
     ln_completion_event = True, ln_downstream_event = False, ln_event_recorded = False,
     ln_in_flight = False, ln_recovery_slot = None, ln_rebind_inputs = False, ln_device_id = Some 0\<rparr>"

definition reliable :: provider where
  "reliable t k c = Succeeded"

definition lost_device :: provider where
  "lost_device t k c =
     (if c \<in> {Run_unsynchronized, Synchronize_outputs, Device_synchronize} then Failed 700 else Succeeded)"


lemma example_lane_safe: "lane_safe (example_lane gid) []"
  by (simp add: lane_safe_def carries_def lane_wf_def example_lane_def watching_def watch_init_def)

lemma example_graph_lane: "graph_lane (example_lane (Some g))" and example_key: "ln_key (example_lane gid) = 0"
  by (simp_all add: graph_lane_def example_lane_def)




text \<open>
  A device-input lane launches on fresh inputs: when \<open>run_enqueued\<close> succeeds, the device
  buffers the graph reads hold what the staging buffers held when the call began.
\<close>

theorem enqueued_inputs_fresh:
  assumes "lane_wf l" "ln_device_inputs l \<noteq> None" "run_enqueued pv (l, t) = Ret (Inr (), l', t')"
  shows "ln_device_inputs l' = Some (ln_inputs l)"
proof -
  obtain l2 t2 l3 t3 where
    rebind: "rebind_host_inputs_if_needed pv (l, t) = Ret (Inr (), l2, t2)" and
    refresh: "refresh_device_inputs pv (l2, t2) = Ret (Inr (), l3, t3)" and
    launch: "run_bound_binding_enqueued pv (l3, t3) = Ret (Inr (), l', t')"
    using assms(3)
    by (auto simp: run_enqueued_def ensure_idle_def op_get_def op_fail_def op_return_def result_simps
        split: if_splits)
  have "l2 = l"
    using rebind assms(2) by (auto simp: rebind_host_inputs_if_needed_def op_get_def op_return_def)
  then have "ln_device_inputs l3 = Some (ln_inputs l3) \<and> ln_inputs l3 = ln_inputs l"
    using refresh_fresh [OF refresh] assms(1,2) by simp
  then show ?thesis using keeps_enqueued launch unfolding keeps_inputs_def by metis
qed

lemmas op_defs = op_bind_def op_get_def op_set_def op_return_def op_fail_def op_try_def op_when_def
  call_def provide_def lease_mark_def answer_def

lemma example_enqueued:
  "run_enqueued reliable (example_lane (Some 5), []) =
    Ret (Inr (), (example_lane (Some 5))\<lparr>ln_device_inputs := Some [[1, 2], [3]], ln_graph_captured := True,
        ln_event_recorded := True, ln_guard := True, ln_in_flight := True\<rparr>,
      [(0, Ensure_device 0, Succeeded), (0, Memcpy_h2d 0, Succeeded), (0, Memcpy_h2d 1, Succeeded),
       (0, Lease_begin, Succeeded), (0, Run_unsynchronized, Succeeded), (0, Event_record, Succeeded)])"
  by (simp add: run_enqueued_def ensure_idle_def rebind_host_inputs_if_needed_def refresh_device_inputs_def
      run_bound_binding_enqueued_def begin_guard_def launch_enqueued_def mark_captured_def settle_graph_run_def
      drop_guard_def op_defs example_lane_def reliable_def Let_def is_ok_def numeral_2_eq_2)

theorem enqueued_inputs_fresh_witness:
  "\<exists>l' t'. run_enqueued reliable (example_lane (Some 5), []) = Ret (Inr (), l', t') \<and>
     ln_device_inputs l' = Some [[1, 2], [3]]"
  using enqueued_inputs_fresh [OF _ _ example_enqueued] example_enqueued
  by (auto simp: lane_wf_def example_lane_def)




text \<open>
  Assigning a graph id is refused on a lane that is in flight and on a host-input lane, and
  on every failure leaves the lane as it was; on success the lane carries the annotation and its
  lease, waits for its capture run, and is as safe as before.
\<close>

theorem set_gpu_graph_id_effect:
  assumes "lane_safe l t"
  shows "\<exists>r l' t'. set_gpu_graph_id pv gid (l, t) = Ret (r, l', t') \<and>
    (if is_ok r then graph_lane l' \<and> ln_graph_id l' = Some gid \<and> \<not> ln_graph_captured l' \<and> lane_safe l' t' \<and>
        ln_device_inputs l' \<noteq> None
     else l' = l) \<and>
    (ln_in_flight l \<longrightarrow> r = Inl Lane_in_flight) \<and>
    (\<not> ln_in_flight l \<and> ln_device_inputs l = None \<longrightarrow> r = Inl Graph_id_needs_device_inputs)"
proof (cases "ln_in_flight l \<or> ln_device_inputs l = None")
  case True
  then show ?thesis
    by (auto simp: set_gpu_graph_id_def ensure_idle_def ensure_graph_id_assignable_def op_defs is_ok_def)
next
  case False
  have idle: "\<not> w_busy (watching (ln_key l) t)" "\<not> ln_guard l" "\<not> ln_event_recorded l"
    using assms False by (auto simp: lane_safe_def)
  show ?thesis
    using False idle assms
    by (cases "pv t (ln_key l) Freeze_options";
        cases "pv (t @ [(ln_key l, Freeze_options, Succeeded)]) (ln_key l) Freeze_options")
      (auto simp: set_gpu_graph_id_def ensure_idle_def ensure_graph_id_assignable_def materialize_run_options_def
        op_defs is_ok_def Let_def graph_lane_def lane_safe_def carries_def lane_wf_def)
qed

theorem set_gpu_graph_id_effect_witness:
  "\<exists>r l' t'. set_gpu_graph_id reliable 5 (example_lane None, []) = Ret (r, l', t') \<and>
     (if is_ok r then graph_lane l' else l' = example_lane None)"
  using set_gpu_graph_id_effect [OF example_lane_safe, of reliable 5 None] by (metis (full_types))

end
