(* ===== verification/Lane_Pool.thy ===== *)
theory Lane_Pool
  imports Serving_Lane
begin

text \<open>
  st-zrt/src/runtime.rs, \<open>ServingLanePool\<close> and its guard: prebuilt lanes behind a mutex, handed
  out one at a time. A guard fences its lane and gives it back when it is dropped.

  The critical sections of the mutex are single steps. A thread inside \<open>checkout\<close> that finds no
  lane waits on the condition variable, which may also wake it for no reason; \<open>notify_one\<close>
  wakes one of the waiting threads, whichever. A poisoned mutex is used as if it were not, as in
  the code.
\<close>

subsection \<open>The calls\<close>

record ('i, 'o) lane_pool =
  pl_idle :: "('i, 'o) lane list"
  pl_total :: nat

datatype pool_error = Pool_requires_lane

definition from_lanes :: "('i, 'o) lane list \<Rightarrow> pool_error + ('i, 'o) lane_pool" where
  "from_lanes lanes = (if lanes = [] then Inl Pool_requires_lane
     else Inr \<lparr>pl_idle = lanes, pl_total = length lanes\<rparr>)"

definition pool_len :: "('i, 'o) lane_pool \<Rightarrow> nat" where
  "pool_len p = pl_total p"

definition pool_is_empty :: "('i, 'o) lane_pool \<Rightarrow> bool" where
  "pool_is_empty p \<longleftrightarrow> pl_total p = 0"

definition idle_count :: "('i, 'o) lane_pool \<Rightarrow> nat" where
  "idle_count p = length (pl_idle p)"

definition try_checkout :: "('i, 'o) lane_pool \<Rightarrow> ('i, 'o) lane option \<times> ('i, 'o) lane_pool" where
  "try_checkout p = (if pl_idle p = [] then (None, p)
     else (Some (last (pl_idle p)), p\<lparr>pl_idle := butlast (pl_idle p)\<rparr>))"

definition push_lane :: "('i, 'o) lane \<Rightarrow> ('i, 'o) lane_pool \<Rightarrow> ('i, 'o) lane_pool" where
  "push_lane l p = p\<lparr>pl_idle := pl_idle p @ [l]\<rparr>"

subsection \<open>Threads\<close>

datatype ('i, 'o) pool_pc =
    Outside
  | Locking                     \<comment> \<open>in \<open>checkout\<close>, before the lock\<close>
  | Waiting                     \<comment> \<open>in \<open>cv.wait\<close>\<close>
  | Woken                       \<comment> \<open>notified, before the lock is taken again\<close>
  | Holding "('i, 'o) lane"     \<comment> \<open>a guard\<close>
  | Returning "('i, 'o) lane"   \<comment> \<open>in the guard's \<open>drop\<close>, after the fence\<close>

record ('i, 'o) pool_state =
  ps_pool :: "('i, 'o) lane_pool"
  ps_pc :: "nat \<Rightarrow> ('i, 'o) pool_pc"
  ps_log :: log

text \<open>
  The body of the loop in \<open>checkout\<close> is \<open>pool_take\<close> or \<open>pool_wait\<close>; the guard's \<open>drop\<close> is
  \<open>pool_finish\<close> followed by \<open>pool_notify\<close>, or by \<open>pool_return\<close> when no thread waits.
\<close>

inductive pool_step :: "provider \<Rightarrow> ('i, 'o) pool_state \<Rightarrow> ('i, 'o) pool_state \<Rightarrow> bool" for pv where
  pool_try: "ps_pc s p = Outside \<Longrightarrow> try_checkout (ps_pool s) = (Some l, pool') \<Longrightarrow>
    pool_step pv s (s\<lparr>ps_pool := pool', ps_pc := (ps_pc s)(p := Holding l)\<rparr>)"
| pool_checkout: "ps_pc s p = Outside \<Longrightarrow> pool_step pv s (s\<lparr>ps_pc := (ps_pc s)(p := Locking)\<rparr>)"
| pool_take: "ps_pc s p \<in> {Locking, Woken} \<Longrightarrow> try_checkout (ps_pool s) = (Some l, pool') \<Longrightarrow>
    pool_step pv s (s\<lparr>ps_pool := pool', ps_pc := (ps_pc s)(p := Holding l)\<rparr>)"
| pool_wait: "ps_pc s p \<in> {Locking, Woken} \<Longrightarrow> fst (try_checkout (ps_pool s)) = None \<Longrightarrow>
    pool_step pv s (s\<lparr>ps_pc := (ps_pc s)(p := Waiting)\<rparr>)"
| pool_spurious: "ps_pc s p = Waiting \<Longrightarrow> pool_step pv s (s\<lparr>ps_pc := (ps_pc s)(p := Woken)\<rparr>)"
| pool_use: "ps_pc s p = Holding l \<Longrightarrow> lane_call_op pv c (l, ps_log s) = Ret (r, l', t') \<Longrightarrow>
    pool_step pv s (s\<lparr>ps_pc := (ps_pc s)(p := Holding l'), ps_log := t'\<rparr>)"
| pool_finish: "ps_pc s p = Holding l \<Longrightarrow> finish_in_flight_best_effort pv (l, ps_log s) = Ret (r, l', t') \<Longrightarrow>
    pool_step pv s (s\<lparr>ps_pc := (ps_pc s)(p := Returning l'), ps_log := t'\<rparr>)"
| pool_notify: "ps_pc s p = Returning l \<Longrightarrow> ps_pc s q = Waiting \<Longrightarrow>
    pool_step pv s (s\<lparr>ps_pool := push_lane l (ps_pool s), ps_pc := (ps_pc s)(p := Outside, q := Woken)\<rparr>)"
| pool_return: "ps_pc s p = Returning l \<Longrightarrow> (\<forall>q. ps_pc s q \<noteq> Waiting) \<Longrightarrow>
    pool_step pv s (s\<lparr>ps_pool := push_lane l (ps_pool s), ps_pc := (ps_pc s)(p := Outside)\<rparr>)"

text \<open>The pool as \<open>from_lanes\<close> builds it, with lanes at rest and no thread inside.\<close>

definition pool_init :: "('i, 'o) lane list \<Rightarrow> ('i, 'o) pool_state \<Rightarrow> bool" where
  "pool_init lanes s \<longleftrightarrow> from_lanes lanes = Inr (ps_pool s) \<and> distinct (map ln_key lanes) \<and>
     (\<forall>l \<in> set lanes. graph_lane l \<and> lane_safe l (ps_log s)) \<and> (\<forall>p. ps_pc s p = Outside)"

subsection \<open>A lane's calls write only its own log entries\<close>

definition own_log :: "('i, 'o, 'r) lane_op \<Rightarrow> bool" where
  "own_log m \<longleftrightarrow> (\<forall>l t r l' t'. m (l, t) = Ret (r, l', t') \<longrightarrow> ln_key l' = ln_key l \<and>
     (\<forall>k. k \<noteq> ln_key l \<longrightarrow> watching k t' = watching k t))"

lemma own_basic:
  "own_log (op_return r)" "own_log (op_fail e)" "own_log op_panic" "own_log (lease_mark c)" "own_log (provide pv c)"
  by (auto simp: own_log_def op_return_def op_fail_def op_panic_def lease_mark_def provide_def Let_def)

lemma own_set: "(\<And>l. ln_key (g l) = ln_key l) \<Longrightarrow> own_log (op_set g)"
  by (auto simp: own_log_def op_set_def)

lemma own_get: "(\<And>l. own_log (f l)) \<Longrightarrow> own_log (op_get f)"
  by (auto simp: own_log_def op_get_def)

lemma own_bind:
  assumes "own_log m" "\<And>a. own_log (f a)"
  shows "own_log (op_bind m f)"
  unfolding own_log_def
proof (intro allI impI)
  fix l t r l' t' assume "op_bind m f (l, t) = Ret (r, l', t')"
  then obtain x l1 t1 where m: "m (l, t) = Ret (x, l1, t1)"
    and f: "(case x of Inl e \<Rightarrow> Ret (Inl e, l1, t1) | Inr a \<Rightarrow> f a (l1, t1)) = Ret (r, l', t')"
    by (auto simp: op_bind_def bind_run_eq_Ret)
  have 1: "ln_key l1 = ln_key l \<and> (\<forall>k. k \<noteq> ln_key l \<longrightarrow> watching k t1 = watching k t)"
    using assms(1) m unfolding own_log_def by blast
  show "ln_key l' = ln_key l \<and> (\<forall>k. k \<noteq> ln_key l \<longrightarrow> watching k t' = watching k t)"
  proof (cases x)
    case (Inl e)
    then show ?thesis using f 1 by simp
  next
    case (Inr a)
    then have "f a (l1, t1) = Ret (r, l', t')" using f by simp
    then have "ln_key l' = ln_key l1 \<and> (\<forall>k. k \<noteq> ln_key l1 \<longrightarrow> watching k t' = watching k t1)"
      using assms(2) unfolding own_log_def by blast
    then show ?thesis using 1 by simp
  qed
qed

lemma own_try: "own_log m \<Longrightarrow> own_log (op_try m)"
  by (fastforce simp: own_log_def op_try_def bind_run_eq_Ret)

lemma own_if: "own_log m \<Longrightarrow> own_log m' \<Longrightarrow> own_log (if b then m else m')"
  by simp

lemma own_sum: "(\<And>x. own_log (f x)) \<Longrightarrow> (\<And>y. own_log (g y)) \<Longrightarrow> own_log (case z of Inl x \<Rightarrow> f x | Inr y \<Rightarrow> g y)"
  by (cases z) auto

lemma own_option: "own_log m \<Longrightarrow> (\<And>y. own_log (g y)) \<Longrightarrow> own_log (case z of None \<Rightarrow> m | Some y \<Rightarrow> g y)"
  by (cases z) auto

lemma own_when: "own_log m \<Longrightarrow> own_log (op_when b m)"
  by (simp add: op_when_def own_basic)

lemma own_call: "own_log (call pv c)"
  unfolding call_def by (intro own_bind own_basic)

lemmas own_intros = own_basic own_set own_get own_bind own_try own_if own_sum own_option own_when own_call

lemma own_bind_inputs: "own_log (bind_inputs pv is)"
  by (induction "is") (auto intro!: own_intros)

lemma own_copy_inputs: "own_log (copy_inputs pv is)"
  by (induction "is") (auto intro!: own_intros)

lemma own_clear: "own_log clear_in_flight"
  unfolding clear_in_flight_def drop_guard_def by (intro own_intros) simp_all

lemma own_fence: "own_log (try_device_fence_after_sync_error pv)"
  unfolding try_device_fence_after_sync_error_def by (intro own_intros)

lemma own_event_sync: "own_log (event_or_output_sync pv)"
  unfolding event_or_output_sync_def by (intro own_intros)

lemma own_finish: "own_log (finish_in_flight_best_effort pv)"
  unfolding finish_in_flight_best_effort_def by (intro own_intros own_clear own_fence own_event_sync)

lemma own_synchronize: "own_log (synchronize_outputs pv)"
  unfolding synchronize_outputs_def by (intro own_intros own_clear own_fence own_event_sync)

lemma own_retain: "own_log (fence_or_retain_graph_guard pv g)"
  unfolding fence_or_retain_graph_guard_def drop_guard_def by (intro own_intros own_clear own_fence) simp_all

lemma own_settle: "own_log (settle_graph_run pv g r b)"
  unfolding settle_graph_run_def drop_guard_def by (intro own_intros own_retain) simp_all

lemma own_begin: "own_log begin_guard"
  unfolding begin_guard_def by (intro own_intros)

lemma own_captured: "own_log (mark_captured r)"
  unfolding mark_captured_def by (intro own_intros) simp

lemma own_bound: "own_log (run_bound_binding pv)"
  unfolding run_bound_binding_def by (intro own_intros own_begin own_captured own_settle)

lemma own_launch: "own_log (launch_enqueued pv)"
  unfolding launch_enqueued_def by (intro own_intros) simp

lemma own_idle: "own_log ensure_idle"
  unfolding ensure_idle_def by (intro own_intros)

lemma own_enqueued: "own_log (run_bound_binding_enqueued pv)"
  unfolding run_bound_binding_enqueued_def by (intro own_intros own_idle own_begin own_launch own_captured own_settle)

lemma own_rebind: "own_log (rebind_host_inputs_if_needed pv)"
  unfolding rebind_host_inputs_if_needed_def by (intro own_intros own_bind_inputs)

lemma own_refresh: "own_log (refresh_device_inputs pv)"
  unfolding refresh_device_inputs_def by (intro own_intros own_copy_inputs)

lemmas own_parts = own_idle own_rebind own_refresh own_enqueued own_bound own_synchronize own_begin own_captured
  own_settle own_clear own_finish own_retain

lemma own_run: "own_log (run_lane pv)" "own_log (run_enqueued pv)"
  unfolding run_lane_def run_enqueued_def by (intro own_intros own_parts)+

lemma own_prime: "own_log (prime pv n)" "own_log (prime_enqueued pv n)"
  by (induction n) (auto intro!: own_intros own_run own_parts)

lemma own_others: "own_log (run_profiled pv)" "own_log (run_event_profiled pv)" "own_log (run_unsynchronized pv)"
  "own_log (try_complete pv)"
  unfolding run_profiled_def run_event_profiled_def run_unsynchronized_def try_complete_def
  by (intro own_intros own_parts)+

lemma own_lane_call: "own_log (lane_call_op pv c)"
  by (cases c) (auto intro!: own_run own_prime own_others own_finish own_synchronize own_bind own_basic)

subsection \<open>Invariant\<close>

text \<open>The key of the lane a thread has, and all lanes there are.\<close>

fun held_lane :: "('i, 'o) pool_pc \<Rightarrow> ('i, 'o) lane option" where
  "held_lane (Holding l) = Some l"
| "held_lane (Returning l) = Some l"
| "held_lane _ = None"

definition held_key :: "('i, 'o) pool_state \<Rightarrow> nat \<Rightarrow> nat option" where
  "held_key s p = map_option ln_key (held_lane (ps_pc s p))"

definition idle_keys :: "('i, 'o) pool_state \<Rightarrow> nat list" where
  "idle_keys s = map ln_key (pl_idle (ps_pool s))"

text \<open>\<open>shares ks m K\<close>: the keys \<open>K\<close> are split between the list \<open>ks\<close> and the holders \<open>m\<close>, each to one of them.\<close>

definition shares :: "nat list \<Rightarrow> (nat \<Rightarrow> nat option) \<Rightarrow> nat set \<Rightarrow> bool" where
  "shares ks m K \<longleftrightarrow> distinct ks \<and> inj_on m (dom m) \<and> ran m \<inter> set ks = {} \<and> ran m \<union> set ks = K"

lemma shares_take:
  assumes "shares (ks @ [k]) m K" "m p = None"
  shows "shares ks (m(p \<mapsto> k)) K"
proof -
  have "k \<notin> ran m" using assms(1) by (auto simp: shares_def)
  then have "inj_on (m(p \<mapsto> k)) (dom (m(p \<mapsto> k)))"
    using assms by (auto simp: shares_def inj_on_def dom_def ran_def)
  then show ?thesis using assms by (auto simp: shares_def)
qed

lemma ran_delete:
  assumes "inj_on m (dom m)" "m p = Some k"
  shows "ran (m(p := None)) = ran m - {k}"
proof (intro equalityI subsetI)
  fix x assume "x \<in> ran (m(p := None))"
  then obtain q where q: "q \<noteq> p" "m q = Some x" by (auto simp: ran_def split: if_splits)
  then have "m q \<noteq> m p" using assms by (auto simp: inj_on_def dom_def)
  then show "x \<in> ran m - {k}" using q assms(2) by (auto simp: ran_def)
next
  fix x assume "x \<in> ran m - {k}"
  then obtain q where "m q = Some x" "x \<noteq> k" by (auto simp: ran_def)
  then have "(m(p := None)) q = Some x" using assms(2) by auto
  then show "x \<in> ran (m(p := None))" by (rule ranI)
qed

lemma shares_give:
  assumes "shares ks m K" "m p = Some k"
  shows "shares (ks @ [k]) (m(p := None)) K"
proof -
  have "inj_on (m(p := None)) (dom (m(p := None)))"
    using assms(1) by (auto simp: shares_def inj_on_def dom_def split: if_splits)
  moreover have "k \<in> ran m" using assms(2) by (auto simp: ran_def)
  ultimately show ?thesis using assms ran_delete [of m p k] by (auto simp: shares_def)
qed

lemma shares_count:
  assumes "shares ks m K" "finite (dom m)"
  shows "length ks + card (dom m) = card K"
proof -
  have "ran m = the ` m ` dom m" by (force simp: ran_def dom_def)
  moreover have "inj_on the (m ` dom m)" by (auto simp: inj_on_def)
  ultimately have "card (ran m) = card (dom m)" "finite (ran m)"
    using assms by (auto simp: shares_def card_image)
  then show ?thesis using assms card_Un_disjoint [of "ran m" "set ks"] by (auto simp: shares_def distinct_card)
qed

definition inside :: "(nat \<Rightarrow> ('i, 'o) pool_pc) \<Rightarrow> nat set" where
  "inside f = {p. f p \<noteq> Outside}"

definition pool_owned :: "('i, 'o) lane list \<Rightarrow> ('i, 'o) pool_state \<Rightarrow> bool" where
  "pool_owned lanes s \<longleftrightarrow> shares (idle_keys s) (held_key s) (set (map ln_key lanes)) \<and>
     pl_total (ps_pool s) = card (set (map ln_key lanes)) \<and> finite (inside (ps_pc s))"

definition pool_lanes :: "('i, 'o) pool_state \<Rightarrow> ('i, 'o) lane set" where
  "pool_lanes s = set (pl_idle (ps_pool s)) \<union> {l. \<exists>p. held_lane (ps_pc s p) = Some l}"

definition pool_safe :: "('i, 'o) pool_state \<Rightarrow> bool" where
  "pool_safe s \<longleftrightarrow> (\<forall>l \<in> pool_lanes s. graph_lane l \<and> lane_safe l (ps_log s))"

definition pool_wakes :: "('i, 'o) pool_state \<Rightarrow> bool" where
  "pool_wakes s \<longleftrightarrow> ((\<exists>q. ps_pc s q = Waiting) \<longrightarrow>
     length (pl_idle (ps_pool s)) \<le> card {p. ps_pc s p = Woken})"

lemma held_key_update [simp]:
  "held_key (s\<lparr>ps_pool := a\<rparr>) = held_key s" "held_key (s\<lparr>ps_log := t\<rparr>) = held_key s"
  "held_key (s\<lparr>ps_pc := (ps_pc s)(p := pc)\<rparr>) = (held_key s)(p := map_option ln_key (held_lane pc))"
  "held_key (s\<lparr>ps_pool := a, ps_pc := (ps_pc s)(p := pc)\<rparr>) = (held_key s)(p := map_option ln_key (held_lane pc))"
  "held_key (s\<lparr>ps_pool := a, ps_pc := (ps_pc s)(p := pc, q := pc')\<rparr>) =
   (held_key s)(p := map_option ln_key (held_lane pc), q := map_option ln_key (held_lane pc'))"
  by (auto simp: held_key_def)

lemma idle_keys_update [simp]:
  "idle_keys (s\<lparr>ps_pc := f\<rparr>) = idle_keys s" "idle_keys (s\<lparr>ps_log := t\<rparr>) = idle_keys s"
  "idle_keys (s\<lparr>ps_pool := push_lane l (ps_pool s)\<rparr>) = idle_keys s @ [ln_key l]"
  by (simp_all add: idle_keys_def push_lane_def)

lemma try_checkout_SomeD:
  "try_checkout q = (Some l, q') \<Longrightarrow> pl_idle q = pl_idle q' @ [l] \<and> pl_total q' = pl_total q"
  by (auto simp: try_checkout_def split: if_splits)

lemma held_keyI: "held_lane (ps_pc s p) = Some l \<Longrightarrow> held_key s p = Some (ln_key l)"
  by (simp add: held_key_def)

lemma finite_inside: "finite (inside f) \<Longrightarrow> finite (inside (f(q := pc)))"
  by (rule finite_subset [of _ "insert q (inside f)"]) (auto simp: inside_def)

lemma fun_upd_same: "m p = x \<Longrightarrow> m(p := x) = m"
  by auto

lemma owned_step:
  assumes "pool_step pv s t" "pool_owned lanes s"
  shows "pool_owned lanes t"
proof -
  let ?K = "set (map ln_key lanes)"
  have sh: "shares (idle_keys s) (held_key s) ?K" and tot: "pl_total (ps_pool s) = card ?K"
    and fin: "finite (inside (ps_pc s))" using assms(2) by (simp_all add: pool_owned_def)
  note fin' = finite_inside [OF fin]
  have take: "pool_owned lanes (s\<lparr>ps_pool := pool', ps_pc := (ps_pc s)(p := Holding l)\<rparr>)"
    if "held_lane (ps_pc s p) = None" "try_checkout (ps_pool s) = (Some l, pool')" for p l pool'
    using that sh tot fin' try_checkout_SomeD [OF that(2)] held_key_def [of s p]
      shares_take [of "map ln_key (pl_idle pool')" "ln_key l" "held_key s" _ p]
    by (simp add: pool_owned_def idle_keys_def)
  have keep: "pool_owned lanes (s\<lparr>ps_pc := (ps_pc s)(p := pc), ps_log := t'\<rparr>)"
    if "map_option ln_key (held_lane pc) = held_key s p" for p pc t'
    using that sh tot fin' by (simp add: pool_owned_def fun_upd_same)
  have keep': "pool_owned lanes (s\<lparr>ps_pc := (ps_pc s)(p := pc)\<rparr>)"
    if "map_option ln_key (held_lane pc) = held_key s p" for p pc
    using keep [OF that, of "ps_log s"] by simp
  show ?thesis
    using assms(1)
  proof cases
    case (pool_try p l pool')
    then show ?thesis using take by simp
  next
    case (pool_checkout p)
    then show ?thesis using keep' [of Locking p] by (simp add: held_key_def)
  next
    case (pool_take p l pool')
    then show ?thesis using take by auto
  next
    case (pool_wait p)
    then show ?thesis using keep' [of Waiting p] by (auto simp: held_key_def)
  next
    case (pool_spurious p)
    then show ?thesis using keep' [of Woken p] by (simp add: held_key_def)
  next
    case (pool_use p l c r l' t')
    then have "ln_key l' = ln_key l" using own_lane_call unfolding own_log_def by blast
    then show ?thesis using keep [of "Holding l'" p t'] pool_use by (simp add: held_key_def)
  next
    case (pool_finish p l r l' t')
    then have "ln_key l' = ln_key l" using own_finish unfolding own_log_def by blast
    then show ?thesis using keep [of "Returning l'" p t'] pool_finish by (simp add: held_key_def)
  next
    case (pool_notify p l q)
    then have "q \<noteq> p" "held_key s q = None" "held_key s p = Some (ln_key l)" by (auto simp: held_key_def)
    then show ?thesis
      using pool_notify shares_give [OF sh] tot finite_inside [OF fin']
      by (simp add: pool_owned_def fun_upd_same push_lane_def idle_keys_def)
  next
    case (pool_return p l)
    then have "held_key s p = Some (ln_key l)" by (simp add: held_key_def)
    then show ?thesis
      using pool_return shares_give [OF sh] tot fin' by (simp add: pool_owned_def push_lane_def idle_keys_def)
  qed
qed

lemma wakes_step:
  assumes "pool_step pv s t" "finite (inside (ps_pc s))" "pool_wakes s"
  shows "pool_wakes t"
proof -
  let ?w = "{p. ps_pc s p = Woken}"
  have fin: "finite ?w" by (rule finite_subset [OF _ assms(2)]) (auto simp: inside_def)
  have drop: "card {p. ((ps_pc s)(q := pc)) p = Woken} = card ?w - of_bool (ps_pc s q = Woken)" if "pc \<noteq> Woken" for q pc
  proof -
    have "{p. ((ps_pc s)(q := pc)) p = Woken} = ?w - {q}" using that by auto
    then show ?thesis using fin by (simp add: card_Diff_singleton_if)
  qed
  have add: "card {p. ((ps_pc s)(q := Woken)) p = Woken} = card ?w + 1" if "ps_pc s q = Waiting" for q
  proof -
    have "{p. ((ps_pc s)(q := Woken)) p = Woken} = insert q ?w" "q \<notin> ?w" using that by auto
    then show ?thesis using fin by simp
  qed
  show ?thesis
    using assms(1)
  proof cases
    case (pool_try p l pool')
    then show ?thesis
      using assms(3) drop [of "Holding l" p] try_checkout_SomeD [OF pool_try(3)]
      by (auto simp: pool_wakes_def split: if_splits)
  next
    case (pool_checkout p)
    then show ?thesis
      using assms(3) drop [of Locking p] by (auto simp: pool_wakes_def split: if_splits)
  next
    case (pool_take p l pool')
    then show ?thesis
      using assms(3) drop [of "Holding l" p] try_checkout_SomeD [OF pool_take(3)]
      by (auto simp: pool_wakes_def split: if_splits)
  next
    case (pool_wait p)
    then have "pl_idle (ps_pool s) = []" by (auto simp: try_checkout_def split: if_splits)
    then show ?thesis using pool_wait(1) by (simp add: pool_wakes_def)
  next
    case (pool_spurious p)
    then show ?thesis
      using assms(3) add [of p] by (auto simp: pool_wakes_def split: if_splits)
  next
    case (pool_use p l c r l' t')
    then show ?thesis
      using assms(3) drop [of "Holding l'" p] by (auto simp: pool_wakes_def split: if_splits)
  next
    case (pool_finish p l r l' t')
    then show ?thesis
      using assms(3) drop [of "Returning l'" p] by (auto simp: pool_wakes_def split: if_splits)
  next
    case (pool_notify p l q)
    then have "{x. ((ps_pc s)(p := Outside, q := Woken)) x = Woken} = {x. ((ps_pc s)(q := Woken)) x = Woken}" by auto
    then show ?thesis
      using pool_notify assms(3) add [of q] by (auto simp: pool_wakes_def push_lane_def)
  next
    case (pool_return p l)
    then show ?thesis by (auto simp: pool_wakes_def)
  qed
qed

lemma others_differ:
  assumes "pool_owned lanes s" "held_lane (ps_pc s p) = Some l"
  shows "x \<in> set (pl_idle (ps_pool s)) \<Longrightarrow> ln_key x \<noteq> ln_key l"
    and "held_lane (ps_pc s q) = Some x \<Longrightarrow> q \<noteq> p \<Longrightarrow> ln_key x \<noteq> ln_key l"
proof -
  have sh: "shares (idle_keys s) (held_key s) (set (map ln_key lanes))" using assms(1) by (simp add: pool_owned_def)
  have p: "held_key s p = Some (ln_key l)" using assms(2) by (rule held_keyI)
  have "ln_key l \<in> ran (held_key s)" using p by (rule ranI)
  then have "ln_key l \<notin> set (idle_keys s)" using sh unfolding shares_def by blast
  then show "x \<in> set (pl_idle (ps_pool s)) \<Longrightarrow> ln_key x \<noteq> ln_key l"
    by (metis idle_keys_def image_eqI list.set_map)
  assume q: "held_lane (ps_pc s q) = Some x" "q \<noteq> p"
  have "inj_on (held_key s) (dom (held_key s))" using sh by (simp add: shares_def)
  then have "held_key s q \<noteq> held_key s p" using p q(2) held_keyI [OF q(1)] inj_onD [of "held_key s" _ q p] by blast
  then show "ln_key x \<noteq> ln_key l" using p held_keyI [OF q(1)] by simp
qed

lemma safe_use:
  assumes "pool_owned lanes s" "pool_safe s" "held_lane (ps_pc s p) = Some l" "m (l, ps_log s) = Ret (r, l', t')"
    and "own_log m" "valid (safe_like l) m (\<lambda>_. safe_like l)" "held_lane pc = Some l'"
  shows "pool_safe (s\<lparr>ps_pc := (ps_pc s)(p := pc), ps_log := t'\<rparr>)"
proof -
  have l: "graph_lane l" "lane_safe l (ps_log s)" using assms(2,3) by (auto simp: pool_safe_def pool_lanes_def)
  then have "safe_like l l' t'" using assms(4,6) validD [OF assms(6), of l "ps_log s"] by (auto simp: safe_like_def)
  then have l': "graph_lane l'" "lane_safe l' t'" using l(1) by (auto simp: safe_like_def graph_lane_def dest: fixedD)
  have other: "lane_safe x t'" if "lane_safe x (ps_log s)" "ln_key x \<noteq> ln_key l" for x
    using that assms(4,5) carries_log(2) [of x t' "ps_log s"] by (auto simp: own_log_def)
  show ?thesis
    unfolding pool_safe_def
  proof
    fix x assume "x \<in> pool_lanes (s\<lparr>ps_pc := (ps_pc s)(p := pc), ps_log := t'\<rparr>)"
    then consider "x = l'" | "x \<in> set (pl_idle (ps_pool s))" | q where "q \<noteq> p" "held_lane (ps_pc s q) = Some x"
      using assms(7) by (auto simp: pool_lanes_def split: if_splits)
    then have "x = l' \<or> x \<in> pool_lanes s \<and> ln_key x \<noteq> ln_key l"
      using others_differ [OF assms(1,3)] unfolding pool_lanes_def by cases blast+
    then show "graph_lane x \<and> lane_safe x (ps_log (s\<lparr>ps_pc := (ps_pc s)(p := pc), ps_log := t'\<rparr>))"
      using l' other assms(2) by (auto simp: pool_safe_def)
  qed
qed

lemma safe_subset: "pool_safe s \<Longrightarrow> pool_lanes t \<subseteq> pool_lanes s \<Longrightarrow> ps_log t = ps_log s \<Longrightarrow> pool_safe t"
  by (auto simp: pool_safe_def)

lemma lanes_move:
  "try_checkout (ps_pool s) = (Some l, pool') \<Longrightarrow>
   pool_lanes (s\<lparr>ps_pool := pool', ps_pc := (ps_pc s)(p := Holding l)\<rparr>) \<subseteq> pool_lanes s"
  "held_lane pc = None \<Longrightarrow> pool_lanes (s\<lparr>ps_pc := (ps_pc s)(p := pc)\<rparr>) \<subseteq> pool_lanes s"
  "ps_pc s p = Returning l \<Longrightarrow>
   pool_lanes (s\<lparr>ps_pool := push_lane l (ps_pool s), ps_pc := (ps_pc s)(p := Outside)\<rparr>) \<subseteq> pool_lanes s"
  "ps_pc s p = Returning l \<Longrightarrow>
   pool_lanes (s\<lparr>ps_pool := push_lane l (ps_pool s), ps_pc := (ps_pc s)(p := Outside, q := Woken)\<rparr>) \<subseteq> pool_lanes s"
proof -
  show "pool_lanes (s\<lparr>ps_pool := pool', ps_pc := (ps_pc s)(p := Holding l)\<rparr>) \<subseteq> pool_lanes s"
    if "try_checkout (ps_pool s) = (Some l, pool')"
    using try_checkout_SomeD [OF that] by (auto simp: pool_lanes_def split: if_splits)
  show "held_lane pc = None \<Longrightarrow> pool_lanes (s\<lparr>ps_pc := (ps_pc s)(p := pc)\<rparr>) \<subseteq> pool_lanes s"
    by (auto simp: pool_lanes_def split: if_splits)
  assume "ps_pc s p = Returning l"
  then have "held_lane (ps_pc s p) = Some l" by simp
  then show "pool_lanes (s\<lparr>ps_pool := push_lane l (ps_pool s), ps_pc := (ps_pc s)(p := Outside)\<rparr>) \<subseteq> pool_lanes s"
    "pool_lanes (s\<lparr>ps_pool := push_lane l (ps_pool s), ps_pc := (ps_pc s)(p := Outside, q := Woken)\<rparr>) \<subseteq> pool_lanes s"
    unfolding pool_lanes_def push_lane_def by (auto split: if_splits)
qed

lemma safe_step:
  assumes "pool_step pv s t" "pool_owned lanes s" "pool_safe s"
  shows "pool_safe t"
  using assms(1)
proof cases
  case (pool_use p l c r l' t')
  then have "held_lane (ps_pc s p) = Some l" by simp
  then have "graph_lane l" using assms(3) unfolding pool_safe_def pool_lanes_def by blast
  then show ?thesis
    using pool_use safe_use [OF assms(2,3), of p l, OF _ _ own_lane_call lane_call_valid] by simp
next
  case (pool_finish p l r l' t')
  have "valid (safe_like l) (finish_in_flight_best_effort pv) (\<lambda>_. safe_like l)"
    by (rule valid_post [OF finish_valid]) simp
  then show ?thesis
    using pool_finish safe_use [OF assms(2,3), of p l, OF _ _ own_finish] by simp
qed (use assms(3) in \<open>auto intro!: safe_subset [of s] lanes_move\<close>)

definition pool_inv :: "('i, 'o) lane list \<Rightarrow> ('i, 'o) pool_state \<Rightarrow> bool" where
  "pool_inv lanes s \<longleftrightarrow> pool_owned lanes s \<and> pool_safe s \<and> pool_wakes s"

lemma pool_init_inv:
  assumes "pool_init lanes s"
  shows "pool_inv lanes s"
proof -
  have p: "ps_pool s = \<lparr>pl_idle = lanes, pl_total = length lanes\<rparr>" "distinct (map ln_key lanes)"
    "\<forall>p. ps_pc s p = Outside" "\<forall>l \<in> set lanes. graph_lane l \<and> lane_safe l (ps_log s)"
    using assms by (auto simp: pool_init_def from_lanes_def split: if_splits)
  have k: "held_key s = Map.empty" using p(3) by (auto simp: held_key_def)
  have "card (set (map ln_key lanes)) = length lanes" using distinct_card [OF p(2)] by simp
  then have "pool_owned lanes s" using p k by (simp add: pool_owned_def shares_def idle_keys_def inside_def)
  then show ?thesis using p by (simp add: pool_inv_def pool_safe_def pool_lanes_def pool_wakes_def)
qed

interpretation pool: invariant_system "pool_init lanes" "pool_step pv" "pool_inv lanes" for lanes pv
proof
  show "pool_init lanes s \<Longrightarrow> pool_inv lanes s" for s by (rule pool_init_inv)
  show "pool_inv lanes s \<Longrightarrow> pool_step pv s t \<Longrightarrow> pool_inv lanes t" for s t
    using owned_step safe_step wakes_step unfolding pool_inv_def pool_owned_def by blast
qed

subsection \<open>Properties\<close>


definition example_pool :: "(int, int) pool_state" where
  "example_pool = \<lparr>ps_pool = \<lparr>pl_idle = [example_lane (Some 5)], pl_total = 1\<rparr>, ps_pc = (\<lambda>_. Outside), ps_log = []\<rparr>"

lemma example_pool_init: "pool_init [example_lane (Some 5)] example_pool"
  by (simp add: pool_init_def from_lanes_def example_pool_def example_graph_lane example_lane_safe)

text \<open>Thread 0 takes the only lane; thread 1 asks for one and waits.\<close>

lemma example_pool_run:
  "\<exists>s. (pool_step reliable)\<^sup>*\<^sup>* example_pool s \<and> pl_idle (ps_pool s) = [] \<and> ps_pc s 1 = Waiting \<and>
     ps_pc s 0 = Holding (example_lane (Some 5)) \<and> (\<forall>p. p \<noteq> 0 \<and> p \<noteq> 1 \<longrightarrow> ps_pc s p = Outside)"
proof -
  let ?l = "example_lane (Some 5)"
  let ?p = "\<lparr>pl_idle = [], pl_total = 1\<rparr> :: (int, int) lane_pool"
  let ?s1 = "example_pool\<lparr>ps_pool := ?p, ps_pc := (ps_pc example_pool)(0 := Holding ?l)\<rparr>"
  let ?s2 = "?s1\<lparr>ps_pc := (ps_pc ?s1)(1 := Locking)\<rparr>"
  let ?s3 = "?s2\<lparr>ps_pc := (ps_pc ?s2)(1 := Waiting)\<rparr>"
  have "pool_step reliable example_pool ?s1"
    by (rule pool_try) (simp_all add: example_pool_def try_checkout_def)
  moreover have "pool_step reliable ?s1 ?s2" by (rule pool_checkout) (simp add: example_pool_def)
  moreover have "pool_step reliable ?s2 ?s3" by (rule pool_wait) (simp_all add: try_checkout_def)
  ultimately have "(pool_step reliable)\<^sup>*\<^sup>* example_pool ?s3" by (meson converse_rtranclp_into_rtranclp rtranclp.rtrancl_refl)
  then show ?thesis by (intro exI [of _ ?s3]) (simp add: example_pool_def)
qed


text \<open>
  No wakeup is lost: while a thread waits in \<open>checkout\<close> and a lane is idle, some notified
  thread is on its way to the lock and takes a lane when it gets there; and a thread never waits
  while all lanes are idle and nobody is inside.
\<close>

theorem pool_no_lost_wakeup:
  assumes "pool_init lanes s0" "(pool_step pv)\<^sup>*\<^sup>* s0 s" "ps_pc s q = Waiting"
  shows "(pl_idle (ps_pool s) \<noteq> [] \<longrightarrow> (\<exists>p l s'. ps_pc s p = Woken \<and> pool_step pv s s' \<and> ps_pc s' p = Holding l)) \<and>
    (\<exists>p. p \<noteq> q \<and> (ps_pc s p = Woken \<or> held_key s p \<noteq> None))"
proof -
  have inv: "pool_owned lanes s" "pool_wakes s"
    using pool.reachable_inv [OF assms(1,2)] by (simp_all add: pool_inv_def)
  have woken: "\<exists>p. ps_pc s p = Woken" if "pl_idle (ps_pool s) \<noteq> []"
  proof (rule ccontr)
    assume "\<nexists>p. ps_pc s p = Woken"
    then have "card {p. ps_pc s p = Woken} = 0" by simp
    then show False using inv(2) assms(3) that by (auto simp: pool_wakes_def)
  qed
  have "lanes \<noteq> []" using assms(1) by (auto simp: pool_init_def from_lanes_def)
  then have "ran (held_key s) \<noteq> {} \<or> pl_idle (ps_pool s) \<noteq> []"
    using inv(1) by (auto simp: pool_owned_def shares_def idle_keys_def)
  moreover have "held_key s q = None" using assms(3) by (simp add: held_key_def)
  ultimately have "\<exists>p. p \<noteq> q \<and> (ps_pc s p = Woken \<or> held_key s p \<noteq> None)"
  proof (elim disjE)
    assume "ran (held_key s) \<noteq> {}"
    then obtain p k where "held_key s p = Some k" by (auto simp: ran_def)
    then show ?thesis using \<open>held_key s q = None\<close> by (intro exI [of _ p]) auto
  next
    assume "pl_idle (ps_pool s) \<noteq> []"
    then obtain p where "ps_pc s p = Woken" using woken by blast
    then show ?thesis using assms(3) by (intro exI [of _ p]) auto
  qed
  moreover have "\<exists>p l s'. ps_pc s p = Woken \<and> pool_step pv s s' \<and> ps_pc s' p = Holding l"
    if idle: "pl_idle (ps_pool s) \<noteq> []"
  proof -
    obtain p where p: "ps_pc s p = Woken" using woken [OF idle] by blast
    let ?s = "s\<lparr>ps_pool := (ps_pool s)\<lparr>pl_idle := butlast (pl_idle (ps_pool s))\<rparr>,
      ps_pc := (ps_pc s)(p := Holding (last (pl_idle (ps_pool s))))\<rparr>"
    have "pool_step pv s ?s" using p idle by (intro pool_take) (simp_all add: try_checkout_def)
    moreover have "ps_pc ?s p = Holding (last (pl_idle (ps_pool s)))" by simp
    ultimately show ?thesis using p by blast
  qed
  ultimately show ?thesis by blast
qed

theorem pool_no_lost_wakeup_witness:
  "\<exists>s. (pool_step reliable)\<^sup>*\<^sup>* example_pool s \<and> ps_pc s 1 = Waiting \<and>
     (\<exists>p. p \<noteq> 1 \<and> (ps_pc s p = Woken \<or> held_key s p \<noteq> None))"
proof -
  obtain s where "(pool_step reliable)\<^sup>*\<^sup>* example_pool s" "ps_pc s 1 = Waiting" using example_pool_run by blast
  then show ?thesis using pool_no_lost_wakeup [OF example_pool_init, of reliable s 1] by blast
qed

end
