(* ===== verification/Tensors.thy ===== *)
theory Tensors
  imports Prelude
begin

unbundle bit_operations_syntax

text \<open>
  Tensor shapes, element types, memory classes and buffers: \<open>checked_element_count\<close>
  (st-zrt/src/type_info.rs), the size arithmetic of st-zrt/src/lib.rs, the classification of
  st-zrt/src/memory.rs, and from st-zrt/src/tensor.rs the buffer policies, the constructors of
  buffers and views, prefaulting, file mapping and the checks of sparse tensors. The host is
  64-bit Linux with the \<^verbatim>\<open>cuda\<close> feature.

  The operating system and ONNX Runtime are the parameter \<open>native\<close>: what an allocation, a page
  lock, a mapping or the creation of a value answers. Sizes are \<open>nat\<close> with the width written out.
\<close>

subsection \<open>Element types\<close>

datatype element_type =
    Undefined | Float | Uint8 | Int8 | Uint16 | Int16 | Int32 | Int64 | String_element | Bool_element
  | Float16 | Double | Uint32 | Uint64 | Complex64 | Complex128 | Bfloat16
  | Float8E4M3FN | Float8E4M3FNUZ | Float8E5M2 | Float8E5M2FNUZ
  | Uint4 | Int4 | Float4E2M1 | Uint2 | Int2 | Float8E8M0

fun element_size :: "element_type \<Rightarrow> nat" where
  "element_size Float = 4" | "element_size Int32 = 4" | "element_size Uint32 = 4"
| "element_size Double = 8" | "element_size Int64 = 8" | "element_size Uint64 = 8" | "element_size Complex64 = 8"
| "element_size Complex128 = 16"
| "element_size Uint16 = 2" | "element_size Int16 = 2" | "element_size Float16 = 2" | "element_size Bfloat16 = 2"
| "element_size Uint8 = 1" | "element_size Int8 = 1" | "element_size Bool_element = 1"
| "element_size Float8E4M3FN = 1" | "element_size Float8E4M3FNUZ = 1" | "element_size Float8E5M2 = 1"
| "element_size Float8E5M2FNUZ = 1" | "element_size Float8E8M0 = 1"
| "element_size _ = 0"

fun packed_element_bits :: "element_type \<Rightarrow> nat option" where
  "packed_element_bits Uint4 = Some 4" | "packed_element_bits Int4 = Some 4"
| "packed_element_bits Float4E2M1 = Some 4"
| "packed_element_bits Uint2 = Some 2" | "packed_element_bits Int2 = Some 2"
| "packed_element_bits _ = None"

text \<open>The Rust types that implement \<open>TensorElement\<close>, with their sizes and alignments.\<close>

datatype tensor_element = F32 | F64 | I8 | I16 | I32 | I64 | U8 | U16 | U32 | U64 | Rust_bool | F16 | BF16

fun ELEM :: "tensor_element \<Rightarrow> element_type" where
  "ELEM F32 = Float" | "ELEM F64 = Double" | "ELEM I8 = Int8" | "ELEM I16 = Int16" | "ELEM I32 = Int32"
| "ELEM I64 = Int64" | "ELEM U8 = Uint8" | "ELEM U16 = Uint16" | "ELEM U32 = Uint32" | "ELEM U64 = Uint64"
| "ELEM Rust_bool = Bool_element" | "ELEM F16 = Float16" | "ELEM BF16 = Bfloat16"

fun size_of :: "tensor_element \<Rightarrow> nat" where
  "size_of F32 = 4" | "size_of F64 = 8" | "size_of I8 = 1" | "size_of I16 = 2" | "size_of I32 = 4"
| "size_of I64 = 8" | "size_of U8 = 1" | "size_of U16 = 2" | "size_of U32 = 4" | "size_of U64 = 8"
| "size_of Rust_bool = 1" | "size_of F16 = 2" | "size_of BF16 = 2"

definition align_of :: "tensor_element \<Rightarrow> nat" where
  "align_of t = size_of t"

datatype tensor_error =
    Dynamic_dimension int
  | Count_overflow
  | Byte_overflow
  | Shape_mismatch nat nat
  | Not_packed element_type
  | Packed_mismatch nat nat
  | Not_host_accessible
  | Null_pointer
  | Bad_alignment nat
  | Bad_layout
  | Vec_modifiers
  | Pinned_modifiers
  | Mmap_range_overflow
  | Mmap_range nat nat
  | Mmap_misaligned
  | Wrong_element_type element_type
  | Name_has_nul
  | Coo_mismatch nat
  | Csr_inner nat nat
  | Csr_rank
  | Csr_dynamic_rows
  | Csr_outer nat nat
  | Native_error nat

subsection \<open>Sizes\<close>

fun element_count_loop :: "nat \<Rightarrow> int list \<Rightarrow> tensor_error + nat" where
  "element_count_loop count [] = Inr count"
| "element_count_loop count (d # ds) =
     (if d < 0 then Inl (Dynamic_dimension d)
      else case checked_mul_at 64 count (nat d) of None \<Rightarrow> Inl Count_overflow
        | Some c \<Rightarrow> element_count_loop c ds)"

definition checked_element_count :: "int list \<Rightarrow> tensor_error + nat" where
  "checked_element_count dims = element_count_loop 1 dims"

definition tensor_byte_len :: "element_type \<Rightarrow> nat \<Rightarrow> tensor_error + nat" where
  "tensor_byte_len e count =
     (case packed_element_bits e of
        Some bits \<Rightarrow> (case Option.bind (checked_mul_at 64 count bits) (\<lambda>b. checked_add_at 64 b 7) of
            None \<Rightarrow> Inl Byte_overflow | Some b \<Rightarrow> Inr (b div 8))
      | None \<Rightarrow> (case checked_mul_at 64 count (element_size e) of
            None \<Rightarrow> Inl Byte_overflow | Some b \<Rightarrow> Inr b))"

definition validate_shape_len :: "int list \<Rightarrow> nat \<Rightarrow> tensor_error + unit" where
  "validate_shape_len shape len = (case checked_element_count shape of Inl e \<Rightarrow> Inl e
     | Inr expected \<Rightarrow> if expected \<noteq> len then Inl (Shape_mismatch expected len) else Inr ())"

definition validate_packed_bytes_len :: "int list \<Rightarrow> element_type \<Rightarrow> nat \<Rightarrow> tensor_error + unit" where
  "validate_packed_bytes_len shape e len =
     (if packed_element_bits e = None then Inl (Not_packed e)
      else case checked_element_count shape of Inl err \<Rightarrow> Inl err
        | Inr count \<Rightarrow> (case tensor_byte_len e count of Inl err \<Rightarrow> Inl err
            | Inr expected \<Rightarrow> if expected \<noteq> len then Inl (Packed_mismatch expected len) else Inr ()))"

text \<open>Pointers are numbers, null is 0; the dangling pointer of an empty slice is the alignment.\<close>

definition ensure_non_null :: "nat \<Rightarrow> tensor_error + nat" where
  "ensure_non_null p = (if p = 0 then Inl Null_pointer else Inr p)"

definition slice_data_ptr :: "nat \<Rightarrow> nat \<Rightarrow> nat \<Rightarrow> tensor_error + nat" where
  "slice_data_ptr align p len =
     (if p = 0 then (if len = 0 then Inr align else Inl Null_pointer) else Inr p)"

subsection \<open>Memory classes\<close>

datatype memory_class = Class_Cpu | Class_CudaDevice | Class_CudaPinned | Class_OtherDevice | Class_Unknown

definition class_is_host_accessible :: "memory_class \<Rightarrow> bool" where
  "class_is_host_accessible c \<longleftrightarrow> c = Class_Cpu \<or> c = Class_CudaPinned"

definition DEVICE_TYPE_CPU :: int where "DEVICE_TYPE_CPU = 0"
definition DEVICE_TYPE_GPU :: int where "DEVICE_TYPE_GPU = 1"
definition HOST_ACCESSIBLE :: int where "HOST_ACCESSIBLE = 5"

definition classify_memory :: "string \<Rightarrow> int \<Rightarrow> int \<Rightarrow> memory_class" where
  "classify_memory name device_type device_mem_type =
     (if device_mem_type = HOST_ACCESSIBLE then
        (if device_type = DEVICE_TYPE_GPU \<or> name \<in> {''Cuda'', ''CudaGPU'', ''CudaPinned''}
         then Class_CudaPinned else Class_Cpu)
      else if name = ''Cpu'' then Class_Cpu
      else if name = ''Cuda'' \<or> name = ''CudaGPU'' then Class_CudaDevice
      else if name = ''CudaPinned'' then Class_CudaPinned
      else if name = [] \<or> device_type = DEVICE_TYPE_CPU then Class_Unknown
      else Class_OtherDevice)"

text \<open>
  What ONNX Runtime answers about a descriptor: the result of \<open>MemoryInfoGetName\<close> (\<open>None\<close> for a
  null string), the device type and the device memory type.
\<close>

record memory_handle =
  mh_name :: "nat + string option"
  mh_device_type :: int
  mh_mem_type :: int

definition class_from_ptr :: "memory_handle option \<Rightarrow> tensor_error + memory_class" where
  "class_from_ptr p = (case p of None \<Rightarrow> Inl Null_pointer
     | Some h \<Rightarrow> (case mh_name h of Inl code \<Rightarrow> Inl (Native_error code)
         | Inr raw \<Rightarrow> Inr (classify_memory (case raw of None \<Rightarrow> [] | Some n \<Rightarrow> n) (mh_device_type h) (mh_mem_type h))))"

record memory_info =
  mi_handle :: memory_handle
  mi_class :: memory_class

text \<open>The second component counts the released handles.\<close>

definition from_raw_owned :: "memory_handle option \<Rightarrow> (tensor_error + memory_info) \<times> nat" where
  "from_raw_owned p = (case p of None \<Rightarrow> (Inl Null_pointer, 0)
     | Some h \<Rightarrow> (case class_from_ptr (Some h) of Inr c \<Rightarrow> (Inr \<lparr>mi_handle = h, mi_class = c\<rparr>, 0)
         | Inl e \<Rightarrow> (Inl e, 1)))"

definition is_host_accessible :: "memory_info \<Rightarrow> bool" where
  "is_host_accessible m = class_is_host_accessible (mi_class m)"

definition ensure_cached_host_accessible :: "memory_class \<Rightarrow> tensor_error + unit" where
  "ensure_cached_host_accessible c = (if class_is_host_accessible c then Inr () else Inl Not_host_accessible)"

definition ensure_memory_host_accessible :: "memory_info \<Rightarrow> tensor_error + unit" where
  "ensure_memory_host_accessible m = (if is_host_accessible m then Inr ()
     else case mh_name (mi_handle m) of Inl code \<Rightarrow> Inl (Native_error code) | Inr _ \<Rightarrow> Inl Not_host_accessible)"

subsection \<open>Buffer policies\<close>

definition AUTO_ALIGNED_BUFFER_THRESHOLD_BYTES :: nat where "AUTO_ALIGNED_BUFFER_THRESHOLD_BYTES = 2 ^ 20"
definition AUTO_ALIGNED_BUFFER_ALIGNMENT :: nat where "AUTO_ALIGNED_BUFFER_ALIGNMENT = 4096"
definition AUTO_HUGEPAGE_BUFFER_THRESHOLD_BYTES :: nat where "AUTO_HUGEPAGE_BUFFER_THRESHOLD_BYTES = 2 * 2 ^ 20"
definition HUGEPAGE_BUFFER_ALIGNMENT :: nat where "HUGEPAGE_BUFFER_ALIGNMENT = 2 * 2 ^ 20"

datatype buffer_storage = Storage_Vec | Storage_Aligned | Storage_CudaPinned

record buffer_spec =
  bs_storage :: buffer_storage
  bs_alignment :: nat
  bs_prefault :: bool
  bs_hugepage :: bool
  bs_mlock :: bool
  bs_auto :: bool

definition spec_vec :: buffer_spec where
  "spec_vec = \<lparr>bs_storage = Storage_Vec, bs_alignment = 0, bs_prefault = False, bs_hugepage = False,
     bs_mlock = False, bs_auto = False\<rparr>"

definition spec_aligned :: "nat \<Rightarrow> buffer_spec" where
  "spec_aligned a = \<lparr>bs_storage = Storage_Aligned, bs_alignment = a, bs_prefault = False, bs_hugepage = False,
     bs_mlock = False, bs_auto = False\<rparr>"

definition spec_cuda_pinned :: buffer_spec where
  "spec_cuda_pinned = \<lparr>bs_storage = Storage_CudaPinned, bs_alignment = 0, bs_prefault = False, bs_hugepage = False,
     bs_mlock = False, bs_auto = False\<rparr>"

definition spec_auto :: buffer_spec where
  "spec_auto = spec_vec\<lparr>bs_auto := True\<rparr>"

definition prefault :: "buffer_spec \<Rightarrow> buffer_spec" where
  "prefault s = s\<lparr>bs_prefault := True, bs_auto := False\<rparr>"

definition aligned_storage :: "buffer_spec \<Rightarrow> buffer_spec" where
  "aligned_storage s = (if bs_storage s = Storage_Vec then s\<lparr>bs_storage := Storage_Aligned\<rparr> else s)"

definition hugepage :: "buffer_spec \<Rightarrow> buffer_spec" where
  "hugepage s = (aligned_storage s)\<lparr>bs_hugepage := True, bs_auto := False\<rparr>"

definition mlock :: "buffer_spec \<Rightarrow> buffer_spec" where
  "mlock s = (aligned_storage s)\<lparr>bs_mlock := True, bs_auto := False\<rparr>"

definition alignment :: "nat \<Rightarrow> buffer_spec \<Rightarrow> buffer_spec" where
  "alignment a s = s\<lparr>bs_storage := Storage_Aligned, bs_alignment := a, bs_auto := False\<rparr>"

definition THROUGHPUT_LARGE :: buffer_spec where
  "THROUGHPUT_LARGE = prefault (hugepage (spec_aligned HUGEPAGE_BUFFER_ALIGNMENT))"

definition LATENCY :: buffer_spec where
  "LATENCY = prefault spec_vec"

definition PINNED_HOST :: buffer_spec where
  "PINNED_HOST = mlock (prefault (hugepage (spec_aligned HUGEPAGE_BUFFER_ALIGNMENT)))"

definition resolve :: "buffer_spec \<Rightarrow> nat \<Rightarrow> buffer_spec" where
  "resolve s bytes =
     (if \<not> bs_auto s then s
      else if AUTO_HUGEPAGE_BUFFER_THRESHOLD_BYTES \<le> bytes then THROUGHPUT_LARGE
      else if AUTO_ALIGNED_BUFFER_THRESHOLD_BYTES \<le> bytes then prefault (spec_aligned AUTO_ALIGNED_BUFFER_ALIGNMENT)
      else spec_vec)"

definition or_if_auto :: "buffer_spec \<Rightarrow> buffer_spec \<Rightarrow> buffer_spec" where
  "or_if_auto s fallback = (if bs_auto s then fallback else s)"

subsection \<open>Storage\<close>

text \<open>
  \<open>nt_alloc\<close>: whether the allocator has memory for a size and an alignment; \<open>nt_create\<close>: the
  value pointer of \<open>CreateTensorWithDataAsOrtValue\<close> for a byte length and a shape, or its error.
\<close>

record native =
  nt_alloc :: "nat \<Rightarrow> nat \<Rightarrow> bool"
  nt_mlock :: "nat \<Rightarrow> nat + unit"
  nt_malloc_host :: "nat \<Rightarrow> nat + unit"
  nt_page_size :: int
  nt_mmap :: "nat \<Rightarrow> nat \<Rightarrow> nat + nat"
  nt_create :: "nat \<Rightarrow> int list \<Rightarrow> nat + nat"

record 'a aligned_buffer =
  ab_data :: "'a list"
  ab_layout :: "(nat \<times> nat) option"
  ab_locked :: nat

datatype 'a tensor_storage =
    Vec_data "'a list"
  | Aligned_data "'a aligned_buffer"
  | Mmap_data nat "'a list"
  | Pinned_data "'a list"

fun storage_as_slice :: "'a tensor_storage \<Rightarrow> 'a list" where
  "storage_as_slice (Vec_data v) = v"
| "storage_as_slice (Aligned_data b) = ab_data b"
| "storage_as_slice (Mmap_data _ v) = v"
| "storage_as_slice (Pinned_data v) = v"

record 'a tensor_buffer =
  tb_data :: "'a tensor_storage"
  tb_shape :: "int list"
  tb_elem :: element_type

abbreviation isize_max :: nat where "isize_max \<equiv> 2 ^ 63 - 1"

definition is_power_of_two :: "nat \<Rightarrow> bool" where
  "is_power_of_two n \<longleftrightarrow> n \<in> (\<lambda>k. 2 ^ k) ` set [0..<64]"

text \<open>\<open>Layout::from_size_align\<close>: the size rounded up to the alignment stays within \<open>isize\<close>.\<close>

definition layout_ok :: "nat \<Rightarrow> nat \<Rightarrow> bool" where
  "layout_ok bytes align \<longleftrightarrow> is_power_of_two align \<and> bytes \<le> 2 ^ 63 - align"

definition aligned_zeroed :: "native \<Rightarrow> tensor_element \<Rightarrow> 'a \<Rightarrow> nat \<Rightarrow> nat \<Rightarrow> (tensor_error + 'a aligned_buffer) run" where
  "aligned_zeroed nt t zero len align =
     (let align = max align (align_of t) in
      if \<not> is_power_of_two align then Ret (Inl (Bad_alignment align))
      else if len = 0 then Ret (Inr \<lparr>ab_data = [], ab_layout = None, ab_locked = 0\<rparr>)
      else case checked_mul_at 64 len (size_of t) of None \<Rightarrow> Ret (Inl Byte_overflow)
        | Some bytes \<Rightarrow> if \<not> layout_ok bytes align then Ret (Inl Bad_layout)
            else if \<not> nt_alloc nt bytes align then Panic
            else Ret (Inr \<lparr>ab_data = replicate len zero, ab_layout = Some (bytes, align), ab_locked = 0\<rparr>))"

definition lock_pages :: "native \<Rightarrow> 'a aligned_buffer \<Rightarrow> tensor_error + 'a aligned_buffer" where
  "lock_pages nt b = (case ab_layout b of None \<Rightarrow> Inr b
     | Some (bytes, _) \<Rightarrow> (case nt_mlock nt bytes of Inl code \<Rightarrow> Inl (Native_error code)
         | Inr _ \<Rightarrow> Inr (b\<lparr>ab_locked := bytes\<rparr>)))"

text \<open>\<open>vec![zero; len]\<close> panics when the bytes exceed \<open>isize::MAX\<close> and aborts without memory.\<close>

definition vec_zeros :: "native \<Rightarrow> tensor_element \<Rightarrow> 'a \<Rightarrow> nat \<Rightarrow> 'a list run" where
  "vec_zeros nt t zero len =
     (if isize_max < len * size_of t \<or> \<not> nt_alloc nt (len * size_of t) (align_of t) then Panic
      else Ret (replicate len zero))"

definition pinned_zeros :: "native \<Rightarrow> tensor_element \<Rightarrow> 'a \<Rightarrow> nat \<Rightarrow> tensor_error + 'a list" where
  "pinned_zeros nt t zero len = (case checked_mul_at 64 len (size_of t) of None \<Rightarrow> Inl Byte_overflow
     | Some bytes \<Rightarrow> (case nt_malloc_host nt bytes of Inl code \<Rightarrow> Inl (Native_error code)
         | Inr _ \<Rightarrow> Inr (replicate len zero)))"

definition page_size :: "native \<Rightarrow> tensor_error + nat" where
  "page_size nt = (if nt_page_size nt \<le> 0 then Inl (Native_error 0) else Inr (nat (nt_page_size nt)))"

text \<open>The indices one prefault touches, in order: each is read and written back.\<close>

definition prefault_stride :: "nat \<Rightarrow> nat \<Rightarrow> nat" where
  "prefault_stride page elem_size = max (page div (max elem_size 1)) 1"

definition prefault_indices :: "nat \<Rightarrow> nat \<Rightarrow> nat \<Rightarrow> nat list" where
  "prefault_indices page elem_size len =
     (if len = 0 then [] else
      let stride = prefault_stride page elem_size
      in map (\<lambda>k. k * stride) [0..<(len + stride - 1) div stride] @ [len - 1])"

definition prefault_slice :: "native \<Rightarrow> nat \<Rightarrow> 'a list \<Rightarrow> 'a list" where
  "prefault_slice nt elem_size xs =
     fold (\<lambda>i ys. ys[i := ys ! i])
       (prefault_indices (case page_size nt of Inl _ \<Rightarrow> 4096 | Inr p \<Rightarrow> p) elem_size (length xs)) xs"

definition from_storage :: "native \<Rightarrow> tensor_element \<Rightarrow> 'a tensor_storage \<Rightarrow> int list \<Rightarrow> memory_info
    \<Rightarrow> tensor_error + 'a tensor_buffer" where
  "from_storage nt t data shape mem =
     (case validate_shape_len shape (length (storage_as_slice data)) of Inl e \<Rightarrow> Inl e
      | Inr _ \<Rightarrow> (case ensure_memory_host_accessible mem of Inl e \<Rightarrow> Inl e
      | Inr _ \<Rightarrow> (case nt_create nt (length (storage_as_slice data) * size_of t) shape of
          Inl code \<Rightarrow> Inl (Native_error code)
        | Inr p \<Rightarrow> (case ensure_non_null p of Inl e \<Rightarrow> Inl e
            | Inr _ \<Rightarrow> Inr \<lparr>tb_data = data, tb_shape = shape, tb_elem = ELEM t\<rparr>))))"

definition from_vec :: "native \<Rightarrow> tensor_element \<Rightarrow> 'a list \<Rightarrow> int list \<Rightarrow> memory_info
    \<Rightarrow> tensor_error + 'a tensor_buffer" where
  "from_vec nt t data shape mem = from_storage nt t (Vec_data data) shape mem"

text \<open>The huge-page advice is a hint whose answer is ignored; it leaves no trace here.\<close>

definition zeros_aligned_flags :: "native \<Rightarrow> tensor_element \<Rightarrow> 'a \<Rightarrow> int list \<Rightarrow> nat \<Rightarrow> memory_info
    \<Rightarrow> bool \<Rightarrow> bool \<Rightarrow> (tensor_error + 'a tensor_buffer) run" where
  "zeros_aligned_flags nt t zero shape align mem prefaulted locked =
     (case checked_element_count shape of Inl e \<Rightarrow> Ret (Inl e)
      | Inr len \<Rightarrow> bind_run (aligned_zeroed nt t zero len align) (\<lambda>r. case r of Inl e \<Rightarrow> Ret (Inl e)
        | Inr b \<Rightarrow>
            let b = (if prefaulted then b\<lparr>ab_data := prefault_slice nt (size_of t) (ab_data b)\<rparr> else b)
            in case (if locked then lock_pages nt b else Inr b) of Inl e \<Rightarrow> Ret (Inl e)
               | Inr b \<Rightarrow> Ret (from_storage nt t (Aligned_data b) shape mem)))"

definition zeros_with :: "native \<Rightarrow> tensor_element \<Rightarrow> 'a \<Rightarrow> int list \<Rightarrow> memory_info \<Rightarrow> buffer_spec
    \<Rightarrow> (tensor_error + 'a tensor_buffer) run" where
  "zeros_with nt t zero shape mem spec =
     (case checked_element_count shape of Inl e \<Rightarrow> Ret (Inl e)
      | Inr len \<Rightarrow> (case checked_mul_at 64 len (size_of t) of None \<Rightarrow> Ret (Inl Byte_overflow)
      | Some bytes \<Rightarrow> let spec = resolve spec bytes in
          case bs_storage spec of
            Storage_Vec \<Rightarrow>
              if bs_alignment spec \<noteq> 0 \<or> bs_hugepage spec \<or> bs_mlock spec then Ret (Inl Vec_modifiers)
              else bind_run (vec_zeros nt t zero len) (\<lambda>data.
                Ret (from_vec nt t (if bs_prefault spec then prefault_slice nt (size_of t) data else data) shape mem))
          | Storage_Aligned \<Rightarrow>
              zeros_aligned_flags nt t zero shape (max (bs_alignment spec) (align_of t)) mem
                (bs_prefault spec) (bs_mlock spec)
          | Storage_CudaPinned \<Rightarrow>
              if bs_alignment spec \<noteq> 0 \<or> bs_hugepage spec \<or> bs_mlock spec then Ret (Inl Pinned_modifiers)
              else (case pinned_zeros nt t zero len of Inl e \<Rightarrow> Ret (Inl e)
                | Inr data \<Rightarrow> Ret (from_storage nt t
                    (Pinned_data (if bs_prefault spec then prefault_slice nt (size_of t) data else data)) shape mem))))"

definition zeros :: "native \<Rightarrow> tensor_element \<Rightarrow> 'a \<Rightarrow> int list \<Rightarrow> memory_info \<Rightarrow> (tensor_error + 'a tensor_buffer) run" where
  "zeros nt t zero shape mem = zeros_with nt t zero shape mem spec_vec"

definition buffer_len :: "'a tensor_buffer \<Rightarrow> nat" where
  "buffer_len b = length (storage_as_slice (tb_data b))"

definition buffer_byte_len :: "tensor_element \<Rightarrow> 'a tensor_buffer \<Rightarrow> tensor_error + nat" where
  "buffer_byte_len t b = (case checked_mul_at 64 (buffer_len b) (size_of t) of None \<Rightarrow> Inl Byte_overflow | Some n \<Rightarrow> Inr n)"

subsection \<open>Mapped files\<close>

record mmap_tensor_options =
  mo_byte_offset :: nat
  mo_sequential :: bool
  mo_hugepage :: bool
  mo_locked :: bool

definition mmap_default :: mmap_tensor_options where
  "mmap_default = \<lparr>mo_byte_offset = 0, mo_sequential = True, mo_hugepage = False, mo_locked = False\<rparr>"

text \<open>The address, length and file offset of a mapping, and where in it the data begins.\<close>

record mapped_range =
  mr_ptr :: nat
  mr_len :: nat
  mr_file_offset :: nat
  mr_data_offset :: nat

definition map_file_range :: "native \<Rightarrow> 64 word \<Rightarrow> nat \<Rightarrow> tensor_error + mapped_range" where
  "map_file_range nt byte_offset bytes = (case page_size nt of Inl e \<Rightarrow> Inl e
     | Inr page \<Rightarrow>
       let page_mask = of_nat page - 1;
           map_offset = byte_offset AND NOT page_mask;
           data_offset = unat (byte_offset - map_offset)
       in case checked_add_at 64 data_offset bytes of None \<Rightarrow> Inl Count_overflow
          | Some map_len \<Rightarrow> (case nt_mmap nt map_len (unat map_offset) of Inl code \<Rightarrow> Inl (Native_error code)
              | Inr p \<Rightarrow> if p = 0 then Inl Null_pointer
                  else Inr \<lparr>mr_ptr = p, mr_len = map_len, mr_file_offset = unat map_offset, mr_data_offset = data_offset\<rparr>))"

text \<open>
  \<open>map_file\<close> of a file that opened with \<open>file_len\<close> bytes. The result is the range, or \<open>None\<close>
  when nothing has to be mapped. The advice calls are hints whose answers are ignored.
\<close>

definition map_file :: "native \<Rightarrow> tensor_element \<Rightarrow> nat \<Rightarrow> nat \<Rightarrow> mmap_tensor_options
    \<Rightarrow> tensor_error + mapped_range option" where
  "map_file nt t file_len len options =
     (case checked_mul_at 64 len (size_of t) of None \<Rightarrow> Inl Byte_overflow
      | Some bytes \<Rightarrow> (case checked_add_at 64 (mo_byte_offset options) bytes of None \<Rightarrow> Inl Mmap_range_overflow
      | Some fin \<Rightarrow>
          if file_len < fin then Inl (Mmap_range fin file_len)
          else if bytes = 0 then Inr None
          else case map_file_range nt (of_nat (mo_byte_offset options)) bytes of Inl e \<Rightarrow> Inl e
            | Inr m \<Rightarrow>
                if (mr_ptr m + mr_data_offset m) mod 2 ^ 64 mod align_of t \<noteq> 0 then Inl Mmap_misaligned
                else if (mr_ptr m + mr_data_offset m) mod 2 ^ 64 = 0 then Inl Null_pointer
                else if mo_locked options
                  then (case nt_mlock nt (mr_len m) of Inl code \<Rightarrow> Inl (Native_error code) | Inr _ \<Rightarrow> Inr (Some m))
                  else Inr (Some m)))"

subsection \<open>Views and engine-owned tensors\<close>

text \<open>\<open>TensorView\<close> with its cache; \<open>tv_ptr\<close> is what \<open>GetTensorMutableData\<close> answers.\<close>

record tensor_view =
  tv_elem :: element_type
  tv_count :: nat
  tv_byte_len :: nat
  tv_class :: memory_class
  tv_ptr :: "nat + nat"

text \<open>A slice is its pointer and its length.\<close>

definition view_as_slice :: "tensor_element \<Rightarrow> tensor_view \<Rightarrow> tensor_error + nat \<times> nat" where
  "view_as_slice t v =
     (if tv_elem v \<noteq> ELEM t then Inl (Wrong_element_type (tv_elem v))
      else case ensure_cached_host_accessible (tv_class v) of Inl e \<Rightarrow> Inl e
        | Inr _ \<Rightarrow> (case tv_ptr v of Inl code \<Rightarrow> Inl (Native_error code)
            | Inr p \<Rightarrow> (case slice_data_ptr (align_of t) p (tv_count v) of Inl e \<Rightarrow> Inl e
                | Inr q \<Rightarrow> Inr (q, tv_count v))))"

definition view_as_bytes :: "tensor_view \<Rightarrow> tensor_error + nat \<times> nat" where
  "view_as_bytes v = (case ensure_cached_host_accessible (tv_class v) of Inl e \<Rightarrow> Inl e
     | Inr _ \<Rightarrow> (case tv_ptr v of Inl code \<Rightarrow> Inl (Native_error code)
         | Inr p \<Rightarrow> (case slice_data_ptr 1 p (tv_byte_len v) of Inl e \<Rightarrow> Inl e | Inr q \<Rightarrow> Inr (q, tv_byte_len v))))"

definition from_buffer :: "native \<Rightarrow> tensor_element \<Rightarrow> nat \<Rightarrow> nat + nat \<Rightarrow> int list \<Rightarrow> memory_info
    \<Rightarrow> tensor_error + tensor_view" where
  "from_buffer nt t len data shape mem = (case validate_shape_len shape len of Inl e \<Rightarrow> Inl e
     | Inr _ \<Rightarrow> (case ensure_memory_host_accessible mem of Inl e \<Rightarrow> Inl e
     | Inr _ \<Rightarrow> (case nt_create nt (len * size_of t) shape of Inl code \<Rightarrow> Inl (Native_error code)
     | Inr p \<Rightarrow> (case ensure_non_null p of Inl e \<Rightarrow> Inl e
     | Inr _ \<Rightarrow> Inr \<lparr>tv_elem = ELEM t, tv_count = len, tv_byte_len = len * size_of t, tv_class = mi_class mem,
                   tv_ptr = data\<rparr>))))"

definition from_packed_bytes :: "native \<Rightarrow> nat \<Rightarrow> nat + nat \<Rightarrow> int list \<Rightarrow> element_type \<Rightarrow> memory_info
    \<Rightarrow> tensor_error + tensor_view" where
  "from_packed_bytes nt len data shape e mem = (case validate_packed_bytes_len shape e len of Inl err \<Rightarrow> Inl err
     | Inr _ \<Rightarrow> (case ensure_memory_host_accessible mem of Inl err \<Rightarrow> Inl err
     | Inr _ \<Rightarrow> (case nt_create nt len shape of Inl code \<Rightarrow> Inl (Native_error code)
     | Inr p \<Rightarrow> (case ensure_non_null p of Inl err \<Rightarrow> Inl err
     | Inr _ \<Rightarrow> (case checked_element_count shape of Inl err \<Rightarrow> Inl err
     | Inr count \<Rightarrow> Inr \<lparr>tv_elem = e, tv_count = count, tv_byte_len = len, tv_class = mi_class mem, tv_ptr = data\<rparr>)))))"

record allocated_tensor =
  at_data :: nat
  at_shape :: "int list"
  at_count :: nat
  at_byte_len :: nat
  at_elem :: element_type
  at_class :: memory_class

text \<open>
  \<open>AllocatedTensor::new\<close>: \<open>class\<close> is the answer about the allocator's memory, \<open>data\<close> the data
  pointer of the fresh value.
\<close>

definition allocated_new :: "native \<Rightarrow> tensor_element \<Rightarrow> tensor_error + memory_class \<Rightarrow> nat + nat \<Rightarrow> int list
    \<Rightarrow> tensor_error + allocated_tensor" where
  "allocated_new nt t class data shape = (case checked_element_count shape of Inl e \<Rightarrow> Inl e
     | Inr count \<Rightarrow> (case checked_mul_at 64 count (size_of t) of None \<Rightarrow> Inl Byte_overflow
     | Some bytes \<Rightarrow> (case class of Inl e \<Rightarrow> Inl e
     | Inr c \<Rightarrow> (case nt_create nt bytes shape of Inl code \<Rightarrow> Inl (Native_error code)
     | Inr p \<Rightarrow> (case ensure_non_null p of Inl e \<Rightarrow> Inl e
     | Inr _ \<Rightarrow> (case data of Inl code \<Rightarrow> Inl (Native_error code)
     | Inr d \<Rightarrow> (case slice_data_ptr 1 d bytes of Inl e \<Rightarrow> Inl e
     | Inr q \<Rightarrow> Inr \<lparr>at_data = q, at_shape = shape, at_count = count, at_byte_len = bytes, at_elem = ELEM t,
                   at_class = c\<rparr>)))))))"

definition allocated_as_slice :: "allocated_tensor \<Rightarrow> tensor_error + nat \<times> nat" where
  "allocated_as_slice a = (case ensure_cached_host_accessible (at_class a) of Inl e \<Rightarrow> Inl e
     | Inr _ \<Rightarrow> Inr (at_data a, at_count a))"

subsection \<open>Sparse tensors\<close>

definition validate_sparse_shapes :: "tensor_element \<Rightarrow> nat \<Rightarrow> int list \<Rightarrow> int list \<Rightarrow> tensor_error + unit" where
  "validate_sparse_shapes t values_len dense_shape values_shape =
     (case checked_element_count dense_shape of Inl e \<Rightarrow> Inl e
      | Inr _ \<Rightarrow> (case validate_shape_len values_shape values_len of Inl e \<Rightarrow> Inl e
      | Inr _ \<Rightarrow> if ELEM t = String_element then Inl (Wrong_element_type String_element) else Inr ()))"

definition validate_coo_indices :: "nat \<Rightarrow> nat \<Rightarrow> nat \<Rightarrow> tensor_error + unit" where
  "validate_coo_indices values_len dense_rank indices_len =
     (if values_len = 0 then (if indices_len = 0 then Inr () else Inl (Coo_mismatch indices_len))
      else if indices_len = values_len then Inr ()
      else case checked_mul_at 64 values_len dense_rank of None \<Rightarrow> Inl Count_overflow
        | Some n \<Rightarrow> if indices_len = n then Inr () else Inl (Coo_mismatch indices_len))"

definition validate_csr_indices :: "nat \<Rightarrow> int list \<Rightarrow> nat \<Rightarrow> nat \<Rightarrow> tensor_error + unit" where
  "validate_csr_indices values_len dense_shape inner_len outer_len =
     (if inner_len \<noteq> values_len then Inl (Csr_inner values_len inner_len)
      else case dense_shape of [] \<Rightarrow> Inl Csr_rank
        | rows # _ \<Rightarrow> if rows < 0 then Inl Csr_dynamic_rows
            else case checked_add_at 64 (nat rows) 1 of None \<Rightarrow> Inl Count_overflow
              | Some expected \<Rightarrow> if outer_len \<noteq> expected then Inl (Csr_outer expected outer_len) else Inr ())"

subsection \<open>Shape arithmetic\<close>

abbreviation volume_of :: "int list \<Rightarrow> nat" where
  "volume_of dims \<equiv> prod_list (map nat dims)"

lemma all_le_Suc: "(\<forall>k \<le> Suc n. P k) \<longleftrightarrow> P 0 \<and> (\<forall>k \<le> n. P (Suc k))"
  by (metis Suc_le_mono le0 not0_implies_Suc)

lemma element_count_loop_exact:
  assumes "c < 2 ^ 64"
  shows "element_count_loop c dims = Inr n \<longleftrightarrow> (\<forall>d \<in> set dims. 0 \<le> d) \<and>
     (\<forall>k \<le> length dims. c * volume_of (take k dims) < 2 ^ 64) \<and> n = c * volume_of dims"
  using assms
proof (induction dims arbitrary: c)
  case Nil
  then show ?case by auto
next
  case (Cons d ds)
  show ?case
  proof (cases "d < 0 \<or> 2 ^ 64 \<le> c * nat d")
    case True
    then show ?thesis by (auto simp: all_le_Suc split: option.splits)
  next
    case False
    then have c: "checked_mul_at 64 c (nat d) = Some (c * nat d)" "c * nat d < 2 ^ 64" by auto
    have "element_count_loop c (d # ds) = element_count_loop (c * nat d) ds" using False c(1) by (simp del: checked_mul_at_eq_Some)
    then show ?thesis using False Cons.IH [OF c(2)] Cons.prems by (simp add: all_le_Suc ac_simps)
  qed
qed

lemma element_count_exact:
  "checked_element_count dims = Inr n \<longleftrightarrow> (\<forall>d \<in> set dims. 0 \<le> d) \<and>
     (\<forall>k \<le> length dims. volume_of (take k dims) < 2 ^ 64) \<and> n = volume_of dims"
  using element_count_loop_exact [of 1 dims n] by (simp add: checked_element_count_def)

lemma element_size_ELEM [simp]: "element_size (ELEM t) = size_of t" "packed_element_bits (ELEM t) = None"
  by (cases t; simp)+

lemma size_of_pos [simp]: "0 < size_of t"
  by (cases t) simp_all

lemma power_of_two_iff: "is_power_of_two n \<longleftrightarrow> (\<exists>k < 64. n = 2 ^ k)"
  by (auto simp: is_power_of_two_def)

lemma align_of_power: "is_power_of_two (align_of t)"
proof -
  have "align_of t \<in> {2 ^ 0, 2 ^ 1, 2 ^ 2, 2 ^ 3}" by (cases t) (simp_all add: align_of_def)
  then obtain k :: nat where "k \<in> {0, 1, 2, 3}" "align_of t = 2 ^ k" by blast
  then show ?thesis unfolding power_of_two_iff by (intro exI [of _ k]) auto
qed

subsection \<open>Prefaulting\<close>

lemma fold_write_back: "fold (\<lambda>i ys. ys) is xs = xs"
  by (induction "is") auto

lemma prefault_slice_id [simp]: "prefault_slice nt n xs = xs"
  by (simp add: prefault_slice_def fold_write_back)

lemma stride_pos [simp]: "0 < prefault_stride page es"
  by (simp add: prefault_stride_def)

lemma stride_bound: "0 < es \<Longrightarrow> prefault_stride page es = 1 \<or> prefault_stride page es * es \<le> page"
  by (cases "page div es \<le> 1") (auto simp: prefault_stride_def max_def Suc_le_eq)

lemma less_ceiling_div: "0 < (d :: nat) \<Longrightarrow> k < (n + d - Suc 0) div d \<longleftrightarrow> k * d < n"
proof -
  assume d: "0 < d"
  have "k < (n + d - Suc 0) div d \<longleftrightarrow> Suc k * d \<le> n + d - Suc 0"
    using less_eq_div_iff_mult_less_eq [OF d, of "Suc k"] by (simp add: Suc_le_eq)
  also have "\<dots> \<longleftrightarrow> k * d < n" using d by auto
  finally show ?thesis .
qed

lemma set_prefault_indices:
  "0 < len \<Longrightarrow> set (prefault_indices page es len) =
     {k * prefault_stride page es | k. k * prefault_stride page es < len} \<union> {len - 1}"
  by (auto simp: prefault_indices_def Let_def less_ceiling_div image_iff)

text \<open>The first touched index from \<open>j\<close> on is less than a stride away.\<close>

lemma next_touched:
  assumes "j < len"
  obtains i where "i \<in> set (prefault_indices page es len)" "j \<le> i" "i < len" "i < j + prefault_stride page es"
proof -
  define d where "d = prefault_stride page es"
  have d: "0 < d" by (simp add: d_def)
  define q where "q = (j + d - Suc 0) div d"
  have q: "j \<le> q * d" "q * d < j + d"
    using less_ceiling_div [OF d, of q j] div_times_less_eq_dividend [of "j + d - Suc 0" d] d
    by (simp_all add: q_def not_less [symmetric])
  show ?thesis
  proof (cases "q * d < len")
    case True
    then show ?thesis using assms q that [of "q * d"] by (auto simp: set_prefault_indices d_def)
  next
    case False
    then show ?thesis using assms q that [of "len - 1"] by (auto simp: set_prefault_indices d_def)
  qed
qed

text \<open>Byte \<open>b\<close> of element \<open>i\<close> of a slice at \<open>addr\<close> is in page \<open>pg\<close>.\<close>

definition byte_in_page :: "nat \<Rightarrow> nat \<Rightarrow> nat \<Rightarrow> nat \<Rightarrow> nat \<Rightarrow> nat \<Rightarrow> bool" where
  "byte_in_page page pg addr es i b \<longleftrightarrow> b < es \<and> pg * page \<le> addr + i * es + b \<and> addr + i * es + b < pg * page + page"

lemma touched_in_page:
  assumes "0 < es" "i0 < len" "byte_in_page page pg addr es i0 b"
  shows "\<exists>i \<in> set (prefault_indices page es len). i < len \<and> (\<exists>b. byte_in_page page pg addr es i b)"
proof (cases "addr < pg * page")
  case False
  have "0 \<in> set (prefault_indices page es len)" using assms(2) by (force simp: set_prefault_indices)
  moreover have "byte_in_page page pg addr es 0 0" using assms False by (simp add: byte_in_page_def)
  ultimately show ?thesis using assms(2) by (intro bexI [of _ 0]) auto
next
  case True
  define j where "j = (pg * page - addr) div es"
  have "j * es \<le> pg * page - addr" "pg * page - addr < es + j * es"
    using dividend_less_div_times [OF assms(1), of "pg * page - addr"] by (simp_all add: j_def)
  then have j: "addr + j * es \<le> pg * page" "pg * page < addr + j * es + es" using True by linarith+
  have "j \<le> i0"
  proof (rule ccontr)
    assume "\<not> j \<le> i0"
    then have "i0 * es + es \<le> j * es" by (metis Suc_leI add.commute mult_Suc mult_le_mono1 not_le)
    then show False using j(1) assms(3) by (simp add: byte_in_page_def)
  qed
  then have "j < len" using assms(2) by simp
  then obtain i where i: "i \<in> set (prefault_indices page es len)" "j \<le> i" "i < len" "i < j + prefault_stride page es"
    by (rule next_touched)
  have "0 < page" using assms(3) by (simp add: byte_in_page_def)
  show ?thesis
  proof (cases "i = j")
    case True
    have "byte_in_page page pg addr es i (pg * page - (addr + j * es))"
      using j \<open>0 < page\<close> True by (simp add: byte_in_page_def)
    then show ?thesis using i by blast
  next
    case False
    then have "prefault_stride page es * es \<le> page" using i stride_bound [OF assms(1), of page] by auto
    moreover have "j * es + es \<le> i * es" using i(2) False
      by (metis Suc_leI add.commute le_neq_implies_less mult_Suc mult_le_mono1)
    moreover have "i * es + es \<le> j * es + prefault_stride page es * es"
      using i(4) by (metis Suc_leI add.commute add_mult_distrib mult_Suc mult_le_mono1)
    ultimately have "byte_in_page page pg addr es i 0" using j assms(1) by (simp add: byte_in_page_def)
    then show ?thesis using i by blast
  qed
qed

subsection \<open>Buffers\<close>

lemma from_storage_Inr:
  "from_storage nt t data shape mem = Inr b \<longleftrightarrow>
     checked_element_count shape = Inr (length (storage_as_slice data)) \<and> is_host_accessible mem \<and>
     (\<exists>p. nt_create nt (length (storage_as_slice data) * size_of t) shape = Inr p \<and> p \<noteq> 0) \<and>
     b = \<lparr>tb_data = data, tb_shape = shape, tb_elem = ELEM t\<rparr>"
  by (auto simp: from_storage_def validate_shape_len_def ensure_memory_host_accessible_def ensure_non_null_def
      split: sum.splits if_splits)

lemma checked_mul_Some: "checked_mul_at w a b = (if a * b < 2 ^ w then Some (a * b) else None)"
  by (simp add: checked_mul_at_def)

lemma aligned_zeroed_Inr:
  assumes "aligned_zeroed nt t z len al = Ret (Inr b)"
  shows "ab_data b = replicate len z \<and> ab_locked b = 0 \<and>
    (case ab_layout b of None \<Rightarrow> len = 0
     | Some (n, a) \<Rightarrow> n = len * size_of t \<and> a = max al (align_of t) \<and> layout_ok n a)"
  using assms by (auto simp: aligned_zeroed_def Let_def checked_mul_Some split: if_splits)

lemma prefault_buffer: "b\<lparr>ab_data := prefault_slice nt n (ab_data b)\<rparr> = b" for b :: "'a aligned_buffer"
  by (cases b) simp

text \<open>What a built buffer of \<open>len\<close> elements looks like under an alignment request \<open>al\<close>.\<close>

definition storage_ok :: "tensor_element \<Rightarrow> 'a \<Rightarrow> nat \<Rightarrow> nat \<Rightarrow> 'a tensor_storage \<Rightarrow> bool" where
  "storage_ok t z len al d \<longleftrightarrow> storage_as_slice d = replicate len z \<and>
     (\<forall>b. d = Aligned_data b \<longrightarrow> (case ab_layout b of None \<Rightarrow> len = 0
        | Some (n, a) \<Rightarrow> n = len * size_of t \<and> al \<le> a \<and> align_of t \<le> a \<and> is_power_of_two a))"

lemma zeros_aligned_Inr:
  assumes "zeros_aligned_flags nt t z shape al mem pf lk = Ret (Inr b)"
  shows "\<exists>len. checked_element_count shape = Inr len \<and> is_host_accessible mem \<and>
     storage_ok t z len al (tb_data b) \<and> tb_shape b = shape \<and> tb_elem b = ELEM t"
proof -
  obtain len where len: "checked_element_count shape = Inr len"
    using assms by (auto simp: zeros_aligned_flags_def split: sum.splits)
  obtain r where r: "aligned_zeroed nt t z len al = Ret r"
    using assms len by (auto simp: zeros_aligned_flags_def bind_run_eq_Ret)
  then obtain b1 where z: "aligned_zeroed nt t z len al = Ret (Inr b1)"
    using assms len by (cases r) (auto simp: zeros_aligned_flags_def)
  note b1 = aligned_zeroed_Inr [OF z]
  from assms len z obtain b2 where b2: "(if lk then lock_pages nt b1 else Inr b1) = Inr b2"
      "from_storage nt t (Aligned_data b2) shape mem = Inr b"
    unfolding zeros_aligned_flags_def Let_def prefault_buffer if_cancel
    by (auto split: sum.splits)
  have "ab_data b2 = ab_data b1" "ab_layout b2 = ab_layout b1"
    using b2(1) by (auto simp: lock_pages_def split: if_splits option.splits sum.splits prod.splits)
  then show ?thesis
    using b2(2) b1 len by (auto simp: from_storage_Inr storage_ok_def layout_ok_def split: option.splits)
qed

lemma zeros_with_Inr:
  assumes "zeros_with nt t z shape mem spec = Ret (Inr b)"
  shows "\<exists>len. checked_element_count shape = Inr len \<and> len * size_of t < 2 ^ 64 \<and> is_host_accessible mem \<and>
     storage_ok t z len (bs_alignment (resolve spec (len * size_of t))) (tb_data b) \<and>
     tb_shape b = shape \<and> tb_elem b = ELEM t"
proof -
  obtain len where len: "checked_element_count shape = Inr len" "len * size_of t < 2 ^ 64"
    using assms by (auto simp: zeros_with_def checked_mul_Some split: sum.splits if_splits)
  let ?s = "resolve spec (len * size_of t)"
  show ?thesis
  proof (cases "bs_storage ?s")
    case Storage_Vec
    then show ?thesis
      using assms len
      by (auto simp: zeros_with_def Let_def vec_zeros_def from_vec_def from_storage_Inr checked_mul_Some storage_ok_def
          split: if_splits)
  next
    case Storage_Aligned
    then have "zeros_aligned_flags nt t z shape (max (bs_alignment ?s) (align_of t)) mem (bs_prefault ?s) (bs_mlock ?s)
        = Ret (Inr b)"
      using assms len by (simp add: zeros_with_def Let_def checked_mul_Some)
    from zeros_aligned_Inr [OF this] show ?thesis using len by (auto simp: storage_ok_def split: option.splits)
  next
    case Storage_CudaPinned
    then show ?thesis
      using assms len
      by (auto simp: zeros_with_def Let_def pinned_zeros_def from_storage_Inr checked_mul_Some storage_ok_def
          split: if_splits sum.splits)
  qed
qed

lemma resolve_auto:
  "resolve spec_auto n = (if 2 * 2 ^ 20 \<le> n then THROUGHPUT_LARGE
     else if 2 ^ 20 \<le> n then prefault (spec_aligned 4096) else spec_vec)"
  by (simp add: resolve_def spec_auto_def AUTO_HUGEPAGE_BUFFER_THRESHOLD_BYTES_def
      AUTO_ALIGNED_BUFFER_THRESHOLD_BYTES_def AUTO_ALIGNED_BUFFER_ALIGNMENT_def)

lemma aligned_no_panic: "(\<And>n a. nt_alloc nt n a) \<Longrightarrow> zeros_aligned_flags nt t z shape al mem pf lk \<noteq> Panic"
  by (auto simp: zeros_aligned_flags_def aligned_zeroed_def Let_def split: sum.splits option.splits)

lemma spec_fields [simp]:
  "bs_storage THROUGHPUT_LARGE = Storage_Aligned" "bs_storage (prefault s) = bs_storage s"
  "bs_storage (spec_aligned a) = Storage_Aligned" "bs_storage spec_vec = Storage_Vec"
  "bs_alignment spec_vec = 0" "\<not> bs_hugepage spec_vec" "\<not> bs_mlock spec_vec" "\<not> bs_auto spec_vec"
  by (simp_all add: THROUGHPUT_LARGE_def prefault_def hugepage_def aligned_storage_def spec_aligned_def spec_vec_def)

subsection \<open>Mapping arithmetic\<close>

lemma unat_and_not_mask:
  fixes x :: "64 word"
  assumes "k < 64"
  shows "unat (x AND NOT (of_nat (2 ^ k) - 1)) = unat x div 2 ^ k * 2 ^ k"
    and "unat (x - (x AND NOT (of_nat (2 ^ k) - 1))) = unat x mod 2 ^ k"
proof -
  have m: "(of_nat (2 ^ k) - 1 :: 64 word) = mask k" by (simp add: mask_eq_exp_minus_1)
  have "(2 :: nat) ^ k < 2 ^ 64" using assms by (rule power_strict_increasing) simp
  then have p: "unat (2 ^ k :: 64 word) = 2 ^ k" using unat_of_nat [of "2 ^ k", where 'a = 64] by simp
  have "x AND NOT (mask k) = push_bit k (drop_bit k x)"
    by (rule bit_eqI) (auto simp: bit_simps)
  also have "\<dots> = drop_bit k x * 2 ^ k" by (simp add: push_bit_eq_mult)
  finally have "unat (x AND NOT (mask k)) = unat x div 2 ^ k * 2 ^ k mod 2 ^ 64"
    by (simp add: unat_word_ariths unat_drop_bit_eq drop_bit_eq_div p mod_mult_left_eq)
  moreover have "unat x div 2 ^ k * 2 ^ k < 2 ^ 64"
    by (rule le_less_trans [of _ "unat x"]) (use unsigned_less [of x] in simp_all)
  ultimately show 1: "unat (x AND NOT (of_nat (2 ^ k) - 1)) = unat x div 2 ^ k * 2 ^ k" unfolding m by simp
  then have le: "x AND NOT (of_nat (2 ^ k) - 1) \<le> x" by (simp add: word_le_nat_alt)
  show "unat (x - (x AND NOT (of_nat (2 ^ k) - 1))) = unat x mod 2 ^ k"
    unfolding unat_sub [OF le] 1 minus_div_mult_eq_mod by (rule refl)
qed

lemma map_file_range_Inr:
  assumes "map_file_range nt x n = Inr m" "nt_page_size nt = 2 ^ k" "k < 63"
  shows "mr_file_offset m = unat x div 2 ^ k * 2 ^ k \<and> mr_data_offset m = unat x mod 2 ^ k \<and>
    mr_len m = unat x mod 2 ^ k + n \<and> mr_len m < 2 ^ 64 \<and> mr_ptr m \<noteq> 0"
proof -
  have pg: "page_size nt = Inr (2 ^ k)" using assms(2) by (simp add: page_size_def nat_power_eq)
  have k: "k < 64" using assms(3) by simp
  show ?thesis
    using assms(1) unat_and_not_mask [OF k, of x]
    by (auto simp: map_file_range_def pg Let_def checked_add_at_def split: sum.splits option.splits if_splits)
qed

lemma map_file_Inr:
  assumes "map_file nt t file_len len opts = Inr (Some m)"
  shows "map_file_range nt (of_nat (mo_byte_offset opts)) (len * size_of t) = Inr m \<and>
    mo_byte_offset opts + len * size_of t \<le> file_len \<and> mo_byte_offset opts + len * size_of t < 2 ^ 64 \<and>
    (mr_ptr m + mr_data_offset m) mod 2 ^ 64 mod align_of t = 0"
  using assms
  by (auto simp: map_file_def checked_mul_Some checked_add_at_def Let_def split: sum.splits option.splits if_splits)

subsection \<open>Properties\<close>

text \<open>
  \<open>checked_element_count\<close> accepts a shape exactly when no dimension is negative and no prefix
  of it has a product beyond \<open>usize\<close>, and then returns the product.
\<close>

theorem checked_element_count_exact:
  "checked_element_count dims = Inr n \<longleftrightarrow> (\<forall>d \<in> set dims. 0 \<le> d) \<and>
     (\<forall>k \<le> length dims. volume_of (take k dims) < 2 ^ 64) \<and> n = volume_of dims"
  by (rule element_count_exact)

theorem checked_element_count_exact_witness:
  "checked_element_count [1, 1000] = Inr 1000 \<and> checked_element_count [2 ^ 62, 4, 0] \<noteq> Inr 0"
proof
  have "(\<forall>d \<in> set [1, 1000 :: int]. 0 \<le> d) \<and> (\<forall>k \<le> length [1, 1000 :: int]. volume_of (take k [1, 1000]) < 2 ^ 64) \<and>
      1000 = volume_of [1, 1000]"
    by (simp add: all_le_Suc)
  then show "checked_element_count [1, 1000] = Inr 1000" using checked_element_count_exact by blast
  have "\<not> volume_of (take 2 [2 ^ 62, 4, 0]) < 2 ^ 64" by simp
  then have "\<not> (\<forall>k \<le> length [2 ^ 62, 4, 0 :: int]. volume_of (take k [2 ^ 62, 4, 0]) < 2 ^ 64)" by force
  then show "checked_element_count [2 ^ 62, 4, 0] \<noteq> Inr 0" using checked_element_count_exact by blast
qed

text \<open>
  C38. A buffer that \<open>zeros_with\<close> returns, under any policy, holds exactly as many zeros as its
  shape has elements, its byte length fits \<open>usize\<close>, its memory may be read by the host, and an
  aligned allocation has the size of the data and a power-of-two alignment that satisfies both
  the policy and the element type.
\<close>

theorem zeros_with_sound:
  assumes "zeros_with nt t z shape mem spec = Ret (Inr b)"
  shows "storage_as_slice (tb_data b) = replicate (volume_of shape) z \<and> tb_shape b = shape \<and>
    tb_elem b = ELEM t \<and> buffer_byte_len t b = Inr (volume_of shape * size_of t) \<and> is_host_accessible mem \<and>
    (\<forall>ab n al. tb_data b = Aligned_data ab \<and> ab_layout ab = Some (n, al) \<longrightarrow>
       n = volume_of shape * size_of t \<and> is_power_of_two al \<and> align_of t \<le> al \<and>
       bs_alignment (resolve spec n) \<le> al)"
proof -
  obtain len where l: "checked_element_count shape = Inr len" "len * size_of t < 2 ^ 64" "is_host_accessible mem"
      "storage_ok t z len (bs_alignment (resolve spec (len * size_of t))) (tb_data b)" "tb_shape b = shape" "tb_elem b = ELEM t"
    using zeros_with_Inr [OF assms] by blast
  have "len = volume_of shape" using l(1) by (simp add: element_count_exact)
  with l show ?thesis
    by (auto simp: storage_ok_def buffer_byte_len_def buffer_len_def checked_mul_Some)
qed

definition host_memory :: memory_info where
  "host_memory = \<lparr>mi_handle = \<lparr>mh_name = Inr (Some ''Cpu''), mh_device_type = 0, mh_mem_type = 0\<rparr>, mi_class = Class_Cpu\<rparr>"

definition willing :: native where
  "willing = \<lparr>nt_alloc = (\<lambda>_ _. True), nt_mlock = (\<lambda>_. Inr ()), nt_malloc_host = (\<lambda>_. Inr ()), nt_page_size = 4096,
     nt_mmap = (\<lambda>_ _. Inr 65536), nt_create = (\<lambda>_ _. Inr 1)\<rparr>"

lemma power_of_two_64: "is_power_of_two 64"
  unfolding power_of_two_iff by (rule exI [of _ 6]) simp

lemma example_zeros:
  "\<exists>b. zeros_with willing F32 (0 :: int) [2, 3] host_memory (spec_aligned 64) = Ret (Inr b)"
  by (simp add: zeros_with_def zeros_aligned_flags_def aligned_zeroed_def checked_element_count_def checked_mul_at_def
      resolve_def spec_aligned_def Let_def align_of_def power_of_two_64 layout_ok_def willing_def from_storage_Inr
      host_memory_def is_host_accessible_def class_is_host_accessible_def)

theorem zeros_with_sound_witness:
  "\<exists>b. zeros_with willing F32 (0 :: int) [2, 3] host_memory (spec_aligned 64) = Ret (Inr b) \<and>
     storage_as_slice (tb_data b) = replicate 6 0"
proof -
  obtain b where b: "zeros_with willing F32 (0 :: int) [2, 3] host_memory (spec_aligned 64) = Ret (Inr b)"
    using example_zeros by blast
  from zeros_with_sound [OF b] b show ?thesis by auto
qed

text \<open>
  C39. When the allocator never runs out, the automatic policy never panics, but \<open>zeros\<close> (and the
  plain vector policy) does exactly for accepted shapes whose bytes fit \<open>usize\<close> and not \<open>isize\<close>:
  such a shape is not refused with an error.
\<close>

theorem zeros_panics_iff:
  assumes "\<And>n a. nt_alloc nt n a"
  shows "zeros_with nt t z shape mem spec_auto \<noteq> Panic \<and>
    (zeros nt t z shape mem = Panic \<longleftrightarrow> (\<exists>len. checked_element_count shape = Inr len \<and>
       isize_max < len * size_of t \<and> len * size_of t < 2 ^ 64))"
proof
  show "zeros_with nt t z shape mem spec_auto \<noteq> Panic"
    using assms
    by (auto simp: aligned_no_panic [OF assms] zeros_with_def vec_zeros_def Let_def resolve_auto checked_mul_Some from_vec_def
        split: sum.splits)
  show "zeros nt t z shape mem = Panic \<longleftrightarrow> (\<exists>len. checked_element_count shape = Inr len \<and>
       isize_max < len * size_of t \<and> len * size_of t < 2 ^ 64)"
    using assms
    by (auto simp: zeros_def zeros_with_def vec_zeros_def Let_def resolve_def checked_mul_Some
        split: sum.splits if_splits)
qed

theorem zeros_panics_iff_witness:
  "zeros willing F32 (0 :: int) [2 ^ 61] host_memory = Panic"
proof -
  have a: "nt_alloc willing n al" for n al by (simp add: willing_def)
  have "checked_element_count [2 ^ 61] = Inr (2 ^ 61)"
    by (simp add: checked_element_count_def checked_mul_at_def)
  then show ?thesis using zeros_panics_iff [OF a, of F32 "0 :: int" "[2 ^ 61]" host_memory] by simp
qed

text \<open>
  Prefaulting changes no element and touches every page the slice lies on, wherever the slice
  begins and whatever the page and element sizes: a page that holds some byte of the slice holds
  a byte of a touched element.
\<close>

theorem prefault_touches_every_page:
  assumes "0 < es" "i0 < len" "byte_in_page page pg addr es i0 b"
  shows "(\<exists>i \<in> set (prefault_indices page es len). i < len \<and> (\<exists>b. byte_in_page page pg addr es i b)) \<and>
    prefault_slice nt es xs = xs"
  using touched_in_page [OF assms] by simp

theorem prefault_touches_every_page_witness:
  "\<exists>i \<in> set (prefault_indices 4096 4 3000). i < 3000 \<and> (\<exists>b. byte_in_page 4096 2 100 4 i b)"
proof -
  have "byte_in_page 4096 2 100 4 2023 0" by (simp add: byte_in_page_def)
  then show ?thesis using prefault_touches_every_page [of 4 2023 3000 4096 2 100 0] by simp
qed

text \<open>
  When \<open>map_file\<close> maps a range and the page size is a power of two, the mapping starts on a
  page boundary of the file, covers exactly the bytes from there to the end of the tensor, stays
  inside the file, and the data pointer is aligned for the element type.
\<close>

theorem map_file_covers:
  assumes "map_file nt t file_len len opts = Inr (Some m)" "nt_page_size nt = 2 ^ k" "k < 63"
  shows "2 ^ k dvd mr_file_offset m \<and> mr_file_offset m + mr_data_offset m = mo_byte_offset opts \<and>
    mr_data_offset m < 2 ^ k \<and> mr_file_offset m + mr_len m = mo_byte_offset opts + len * size_of t \<and>
    mr_file_offset m + mr_len m \<le> file_len \<and> (mr_ptr m + mr_data_offset m) mod 2 ^ 64 mod align_of t = 0"
proof -
  note f = map_file_Inr [OF assms(1)]
  then have "unat (of_nat (mo_byte_offset opts) :: 64 word) = mo_byte_offset opts"
    by (simp add: unat_of_nat)
  then have "mr_file_offset m = mo_byte_offset opts div 2 ^ k * 2 ^ k \<and> mr_data_offset m = mo_byte_offset opts mod 2 ^ k \<and>
      mr_len m = mo_byte_offset opts mod 2 ^ k + len * size_of t"
    using map_file_range_Inr [OF _ assms(2,3)] f by auto
  then show ?thesis using f by (simp add: add.assoc [symmetric] div_mult_mod_eq)
qed

theorem map_file_covers_witness:
  "\<exists>m. map_file willing F32 100000 1000 (mmap_default\<lparr>mo_byte_offset := 5000\<rparr>) = Inr (Some m) \<and>
     mr_file_offset m + mr_data_offset m = 5000"
proof -
  have p: "nt_page_size willing = 2 ^ 12" by (simp add: willing_def)
  have "unat (904 :: 64 word) = 904" by simp
  then obtain m where m: "map_file willing F32 100000 1000 (mmap_default\<lparr>mo_byte_offset := 5000\<rparr>) = Inr (Some m)"
    using unat_and_not_mask(2) [of 12 5000]
    by (force simp: map_file_def map_file_range_def willing_def page_size_def mmap_default_def checked_mul_at_def
        checked_add_at_def Let_def align_of_def)
  then show ?thesis using map_file_covers [OF m p] by (simp add: mmap_default_def)
qed

text \<open>
  A Rust slice is handed out only over memory the host may read: of a view, when the element
  type matches and its class is host-accessible; of an engine-owned tensor, likewise; and a
  descriptor gets such a class exactly when it carries the host-accessible flag or is named CPU
  or CUDA-pinned memory.
\<close>

theorem host_access_gate:
  "(view_as_slice t v = Inr (p, n) \<longrightarrow> tv_elem v = ELEM t \<and> class_is_host_accessible (tv_class v) \<and> n = tv_count v \<and> p \<noteq> 0) \<and>
   (allocated_as_slice a = Inr (p, n) \<longrightarrow> class_is_host_accessible (at_class a)) \<and>
   (class_is_host_accessible (classify_memory name dt mt) \<longleftrightarrow> mt = HOST_ACCESSIBLE \<or> name \<in> {''Cpu'', ''CudaPinned''})"
proof (intro conjI impI)
  assume "view_as_slice t v = Inr (p, n)"
  then show "tv_elem v = ELEM t" "class_is_host_accessible (tv_class v)" "n = tv_count v" "p \<noteq> 0"
    by (auto simp: view_as_slice_def ensure_cached_host_accessible_def slice_data_ptr_def align_of_def
        split: if_splits sum.splits)
next
  assume "allocated_as_slice a = Inr (p, n)"
  then show "class_is_host_accessible (at_class a)"
    by (auto simp: allocated_as_slice_def ensure_cached_host_accessible_def split: if_splits)
next
  show "class_is_host_accessible (classify_memory name dt mt) \<longleftrightarrow> mt = HOST_ACCESSIBLE \<or> name \<in> {''Cpu'', ''CudaPinned''}"
    by (auto simp: class_is_host_accessible_def classify_memory_def)
qed

end
