(* ===== verification/Dynamic_Options.thy ===== *)
theory Dynamic_Options
  imports Tensors
begin

text \<open>
  st-zrt/src/runtime.rs, \<open>DynamicIoOptions\<close>: the configuration of a dynamic runtime, its setters
  and the two validations that decide which combinations are served (the build with the
  \<^verbatim>\<open>cuda\<close> feature). A CUDA stream is reduced to its number and the device it belongs to.
\<close>

datatype runtime_mode = SharedSession | ReplicatedSessions

record cuda_stream =
  st_number :: nat
  st_device :: int

record dynamic_io_options =
  do_max_buckets :: nat
  do_input_policy :: buffer_spec
  do_output_policy :: buffer_spec
  do_rebind_inputs :: bool
  do_cuda_graph :: bool
  do_device_outputs :: bool
  do_device_id :: "int option"
  do_strict :: bool
  do_stream :: "cuda_stream option"
  do_lane_streams :: "cuda_stream list"

datatype options_error =
    No_buckets
  | Graph_with_rebind
  | Graph_needs_device_inputs
  | Outputs_need_device_inputs
  | Device_inputs_with_rebind
  | Missing_stream
  | Stream_on_other_device
  | Graph_lanes_need_replication
  | Lane_streams_need_replication
  | Lane_stream_count nat nat

definition options_default :: dynamic_io_options where
  "options_default = \<lparr>do_max_buckets = 16, do_input_policy = spec_auto, do_output_policy = spec_auto,
     do_rebind_inputs = False, do_cuda_graph = False, do_device_outputs = False, do_device_id = None,
     do_strict = False, do_stream = None, do_lane_streams = []\<rparr>"

definition options_new :: "nat \<Rightarrow> dynamic_io_options" where
  "options_new n = options_default\<lparr>do_max_buckets := n\<rparr>"

definition with_input_policy :: "buffer_spec \<Rightarrow> dynamic_io_options \<Rightarrow> dynamic_io_options" where
  "with_input_policy p d = d\<lparr>do_input_policy := p\<rparr>"

definition with_output_policy :: "buffer_spec \<Rightarrow> dynamic_io_options \<Rightarrow> dynamic_io_options" where
  "with_output_policy p d = d\<lparr>do_output_policy := p\<rparr>"

definition with_rebind_inputs_each_run :: "bool \<Rightarrow> dynamic_io_options \<Rightarrow> dynamic_io_options" where
  "with_rebind_inputs_each_run b d = d\<lparr>do_rebind_inputs := b\<rparr>"

definition with_cuda_graph :: "bool \<Rightarrow> dynamic_io_options \<Rightarrow> dynamic_io_options" where
  "with_cuda_graph b d = d\<lparr>do_cuda_graph := b\<rparr>"

definition with_device_inputs ::
    "int \<Rightarrow> cuda_stream \<Rightarrow> dynamic_io_options \<Rightarrow> options_error + dynamic_io_options" where
  "with_device_inputs device stream d =
     (if st_device stream \<noteq> device then Inl Stream_on_other_device
      else Inr (d\<lparr>do_device_id := Some device, do_stream := Some stream, do_lane_streams := []\<rparr>))"

definition with_device_outputs :: "bool \<Rightarrow> dynamic_io_options \<Rightarrow> dynamic_io_options" where
  "with_device_outputs b d = d\<lparr>do_device_outputs := b\<rparr>"

definition with_device_input_streams ::
    "int \<Rightarrow> cuda_stream list \<Rightarrow> dynamic_io_options \<Rightarrow> options_error + dynamic_io_options" where
  "with_device_input_streams device streams d =
     (if list_ex (\<lambda>s. st_device s \<noteq> device) streams then Inl Stream_on_other_device
      else Inr (d\<lparr>do_device_id := Some device, do_stream := None, do_lane_streams := streams\<rparr>))"

definition with_strict_shape_cache :: "bool \<Rightarrow> dynamic_io_options \<Rightarrow> dynamic_io_options" where
  "with_strict_shape_cache b d = d\<lparr>do_strict := b\<rparr>"

definition validate_options :: "dynamic_io_options \<Rightarrow> options_error + dynamic_io_options" where
  "validate_options d =
     (if do_max_buckets d = 0 then Inl No_buckets
      else if do_cuda_graph d \<and> do_rebind_inputs d then Inl Graph_with_rebind
      else if do_cuda_graph d \<and> do_device_id d = None then Inl Graph_needs_device_inputs
      else if do_device_outputs d \<and> do_device_id d = None then Inl Outputs_need_device_inputs
      else if do_device_id d \<noteq> None \<and> do_rebind_inputs d then Inl Device_inputs_with_rebind
      else if do_device_id d \<noteq> None \<and> do_lane_streams d = [] \<and> do_stream d = None then Inl Missing_stream
      else Inr d)"

definition validate_runtime_mode :: "dynamic_io_options \<Rightarrow> runtime_mode \<Rightarrow> nat \<Rightarrow> options_error + unit" where
  "validate_runtime_mode d mode lane_count =
     (if do_cuda_graph d \<and> 1 < lane_count \<and> mode \<noteq> ReplicatedSessions then Inl Graph_lanes_need_replication
      else if do_lane_streams d = [] then Inr ()
      else if mode \<noteq> ReplicatedSessions then Inl Lane_streams_need_replication
      else if length (do_lane_streams d) \<noteq> lane_count
        then Inl (Lane_stream_count lane_count (length (do_lane_streams d)))
      else Inr ())"

subsection \<open>Properties\<close>

text \<open>
  \<open>stream_for d i\<close>: the stream that refreshes the inputs of lane \<open>i\<close>.
\<close>

definition stream_for :: "dynamic_io_options \<Rightarrow> nat \<Rightarrow> cuda_stream option" where
  "stream_for d i = (if do_lane_streams d = [] then do_stream d else get_opt (do_lane_streams d) i)"

text \<open>
  Options that pass both validations are servable: there is room for a bucket; inputs are
  never rebound under a captured graph or on a device-input lane; every lane of a device-input
  runtime has a stream; outputs stay on the device only with device inputs; and captured graphs
  are shared by several lanes only when each has its own session.
\<close>

theorem validated_options_sound:
  assumes "validate_options d = Inr d'" "validate_runtime_mode d' mode n = Inr ()"
  shows "d' = d \<and> 0 < do_max_buckets d \<and> \<not> (do_rebind_inputs d \<and> (do_cuda_graph d \<or> do_device_id d \<noteq> None)) \<and>
    (do_cuda_graph d \<or> do_device_outputs d \<longrightarrow> do_device_id d \<noteq> None) \<and>
    (do_device_id d \<noteq> None \<longrightarrow> (\<forall>i < n. stream_for d i \<noteq> None)) \<and>
    (do_cuda_graph d \<and> mode = SharedSession \<longrightarrow> n \<le> 1)"
proof -
  have d: "d' = d" using assms(1) by (simp add: validate_options_def split: if_splits)
  show ?thesis
    using assms unfolding d validate_options_def validate_runtime_mode_def stream_for_def
    by (cases mode) (auto split: if_splits)
qed

definition example_options :: dynamic_io_options where
  "example_options = (options_new 4)\<lparr>do_cuda_graph := True, do_device_id := Some 0,
     do_lane_streams := [\<lparr>st_number = 1, st_device = 0\<rparr>, \<lparr>st_number = 2, st_device = 0\<rparr>]\<rparr>"

theorem validated_options_sound_witness:
  "validate_options example_options = Inr example_options \<and>
   stream_for example_options 0 \<noteq> None \<and> stream_for example_options 1 \<noteq> None"
proof -
  have v: "validate_options example_options = Inr example_options"
    "validate_runtime_mode example_options ReplicatedSessions 2 = Inr ()"
    by (simp_all add: example_options_def options_new_def options_default_def validate_options_def
        validate_runtime_mode_def)
  have "do_device_id example_options \<noteq> None" by (simp add: example_options_def)
  with validated_options_sound [OF v] have "\<forall>i < 2. stream_for example_options i \<noteq> None" by blast
  with v(1) show ?thesis by simp
qed

text \<open>Options as a caller can build them.\<close>

inductive configured :: "dynamic_io_options \<Rightarrow> bool" where
  cfg_new: "configured (options_new n)"
| cfg_input: "configured d \<Longrightarrow> configured (with_input_policy p d)"
| cfg_output: "configured d \<Longrightarrow> configured (with_output_policy p d)"
| cfg_rebind: "configured d \<Longrightarrow> configured (with_rebind_inputs_each_run b d)"
| cfg_graph: "configured d \<Longrightarrow> configured (with_cuda_graph b d)"
| cfg_outputs: "configured d \<Longrightarrow> configured (with_device_outputs b d)"
| cfg_strict: "configured d \<Longrightarrow> configured (with_strict_shape_cache b d)"
| cfg_stream: "configured d \<Longrightarrow> with_device_inputs dev s d = Inr d' \<Longrightarrow> configured d'"
| cfg_streams: "configured d \<Longrightarrow> with_device_input_streams dev ss d = Inr d' \<Longrightarrow> configured d'"

text \<open>
  The setters keep the stream configuration consistent: options built from \<open>new\<close> by any of
  them name streams of the configured device only, and never both a shared stream and per-lane
  streams.
\<close>

theorem configured_streams:
  assumes "configured d"
  shows "(\<forall>s \<in> set (do_lane_streams d) \<union> set_option (do_stream d). do_device_id d = Some (st_device s)) \<and>
    (do_stream d = None \<or> do_lane_streams d = [])"
  using assms
proof (induction rule: configured.induct)
  case (cfg_stream d dev s d')
  then show ?case by (auto simp: with_device_inputs_def split: if_splits)
next
  case (cfg_streams d dev ss d')
  then show ?case by (auto simp: with_device_input_streams_def list_ex_iff split: if_splits)
qed (simp_all add: options_new_def options_default_def with_input_policy_def with_output_policy_def
    with_rebind_inputs_each_run_def with_cuda_graph_def with_device_outputs_def with_strict_shape_cache_def)

end
