(* ===== verification/Static_Runtime.thy ===== *)
theory Static_Runtime
  imports Serving_Lane Dynamic_Options
begin

text \<open>
  st-zrt/src/runtime.rs: the construction of a \<open>ServingLane\<close> and the fixed lane sets
  (\<open>StaticIoRuntime\<close>) built from it, over one shared session or replicated sessions, with host
  inputs, device inputs or device inputs and outputs.

  A build runs on a supply of lane keys and the log of Serving_Lane. The fresh contents of a
  device allocation are arbitrary.
\<close>

subsection \<open>Builds\<close>

record session =
  se_number :: nat
  se_input_names :: "string list"
  se_output_names :: "string list"
  se_streams :: "cuda_stream list"

definition uses_cuda_stream :: "session \<Rightarrow> cuda_stream \<Rightarrow> bool" where
  "uses_cuda_stream s stream = list_ex (\<lambda>x. x = stream) (se_streams s)"

record ('i, 'o) lane_env =
  le_native :: native
  le_provider :: provider
  le_in :: tensor_element
  le_out :: tensor_element
  le_zero_in :: 'i
  le_zero_out :: 'o
  le_device_in :: "nat \<Rightarrow> nat \<Rightarrow> 'i"
  le_device_out :: "nat \<Rightarrow> nat \<Rightarrow> 'o"

datatype build_error =
    Input_count nat nat
  | Output_count nat nat
  | Input_name_has_nul
  | Wrong_stream
  | No_lanes
  | No_sessions
  | Stream_count nat nat
  | Build_tensor tensor_error
  | Build_lane lane_error

type_synonym 'r build_op = "nat \<times> log \<Rightarrow> ((build_error + 'r) \<times> nat \<times> log) run"

definition b_return :: "'r \<Rightarrow> 'r build_op" where
  "b_return r = (\<lambda>(k, t). Ret (Inr r, k, t))"

definition b_fail :: "build_error \<Rightarrow> 'r build_op" where
  "b_fail e = (\<lambda>(k, t). Ret (Inl e, k, t))"

definition b_bind :: "'a build_op \<Rightarrow> ('a \<Rightarrow> 'b build_op) \<Rightarrow> 'b build_op" where
  "b_bind m f = (\<lambda>s. bind_run (m s) (\<lambda>(r, k, t). case r of Inl e \<Rightarrow> Ret (Inl e, k, t) | Inr a \<Rightarrow> f a (k, t)))"

text \<open>A provider call of the lane under construction, whose key is the next one.\<close>

definition b_call :: "provider \<Rightarrow> provider_call \<Rightarrow> unit build_op" where
  "b_call pv c = (\<lambda>(k, t). let r = answer c (pv t k c) in
     Ret (case r of Failed n \<Rightarrow> Inl (Build_lane (Provider_error n)) | _ \<Rightarrow> Inr (), k, t @ [(k, c, r)]))"

fun b_calls :: "provider \<Rightarrow> provider_call list \<Rightarrow> unit build_op" where
  "b_calls pv [] = b_return ()"
| "b_calls pv (c # cs) = b_bind (b_call pv c) (\<lambda>_. b_calls pv cs)"

definition b_tensor :: "(tensor_error + 'r) run \<Rightarrow> 'r build_op" where
  "b_tensor m = (\<lambda>(k, t). bind_run m (\<lambda>r. Ret (case r of Inl e \<Rightarrow> Inl (Build_tensor e) | Inr a \<Rightarrow> Inr a, k, t)))"

text \<open>\<open>iter().map(f).collect::<Result<Vec<_>>>\<close>\<close>

fun b_map :: "('a \<Rightarrow> 'b build_op) \<Rightarrow> 'a list \<Rightarrow> 'b list build_op" where
  "b_map f [] = b_return []"
| "b_map f (x # xs) = b_bind (f x) (\<lambda>y. b_bind (b_map f xs) (\<lambda>ys. b_return (y # ys)))"

definition lane_tensor_buffer :: "native \<Rightarrow> tensor_element \<Rightarrow> 'a \<Rightarrow> memory_info \<Rightarrow> buffer_spec \<Rightarrow> int list
    \<Rightarrow> 'a list build_op" where
  "lane_tensor_buffer nt t z mem spec shape =
     b_bind (b_tensor (zeros_with nt t z shape mem spec)) (\<lambda>b. b_return (storage_as_slice (tb_data b)))"

text \<open>
  \<open>AllocatedTensor::cuda\<close> for the \<open>i\<close>-th shape. One provider call stands for the memory
  descriptor, the session allocator and the value; the size checks cannot fail here, since the
  host buffer of the same shape has passed them.
\<close>

definition allocate_device :: "provider \<Rightarrow> tensor_element \<Rightarrow> (nat \<Rightarrow> nat \<Rightarrow> 'a) \<Rightarrow> (nat \<Rightarrow> provider_call)
    \<Rightarrow> nat \<times> int list \<Rightarrow> 'a list build_op" where
  "allocate_device pv t garbage what = (\<lambda>(i, shape).
     case checked_element_count shape of Inl e \<Rightarrow> b_fail (Build_tensor e)
     | Inr count \<Rightarrow> if 2 ^ 64 \<le> count * size_of t then b_fail (Build_tensor Byte_overflow)
         else b_bind (b_call pv (what i)) (\<lambda>_. b_return (map (garbage i) [0..<count])))"

definition bind_device :: "provider \<Rightarrow> tensor_element \<Rightarrow> (nat \<Rightarrow> nat \<Rightarrow> 'a) \<Rightarrow> (nat \<Rightarrow> provider_call)
    \<Rightarrow> (nat \<Rightarrow> provider_call) \<Rightarrow> int list list \<Rightarrow> int option \<Rightarrow> 'a list list option build_op" where
  "bind_device pv t garbage what binding shapes device = (case device of
     Some _ \<Rightarrow> b_bind (b_map (allocate_device pv t garbage what) (enumerate 0 shapes)) (\<lambda>devs.
       b_bind (b_calls pv (map binding [0..<length shapes])) (\<lambda>_. b_return (Some devs)))
   | None \<Rightarrow> b_bind (b_calls pv (map binding [0..<length shapes])) (\<lambda>_. b_return None))"

definition next_key :: "nat build_op" where
  "next_key = (\<lambda>(k, t). Ret (Inr k, Suc k, t))"

definition new_lane :: "nat \<Rightarrow> int option \<Rightarrow> int option \<Rightarrow> 'i list list \<Rightarrow> 'o list list
    \<Rightarrow> 'i list list option \<Rightarrow> 'o list list option \<Rightarrow> ('i, 'o) lane" where
  "new_lane k device out_device inputs outputs dev_in dev_out =
     \<lparr>ln_key = k, ln_inputs = inputs, ln_outputs = outputs, ln_device_outputs = dev_out, ln_device_inputs = dev_in,
      ln_run_opts = False, ln_sync_stream = False, ln_graph_id = None, ln_graph_captured = False,
      ln_graph_lease = None, ln_guard = False, ln_completion_event = (device \<noteq> None),
      ln_downstream_event = (out_device \<noteq> None), ln_event_recorded = False, ln_in_flight = False,
      ln_recovery_slot = None, ln_rebind_inputs = False, ln_device_id = device\<rparr>"

definition finish_lane :: "provider \<Rightarrow> int option \<Rightarrow> int option \<Rightarrow> 'i list list \<Rightarrow> 'o list list
    \<Rightarrow> 'i list list option \<Rightarrow> 'o list list option \<Rightarrow> ('i, 'o) lane build_op" where
  "finish_lane pv device out_device inputs outputs dev_in dev_out =
     b_bind (b_call pv Freeze_options) (\<lambda>_.
     b_bind (if device = None then b_return () else b_call pv Create_event) (\<lambda>_.
     b_bind (if out_device = None then b_return () else b_call pv Create_event) (\<lambda>_.
     b_bind next_key (\<lambda>k. b_return (new_lane k device out_device inputs outputs dev_in dev_out)))))"

definition lane_build :: "('i, 'o) lane_env \<Rightarrow> session \<Rightarrow> memory_info \<Rightarrow> memory_info \<Rightarrow> int list list \<Rightarrow> int list list
    \<Rightarrow> buffer_spec \<Rightarrow> buffer_spec \<Rightarrow> int option \<Rightarrow> int option \<Rightarrow> ('i, 'o) lane build_op" where
  "lane_build env s input_mem output_mem input_shapes output_shapes input_policy output_policy device out_device =
     (if length input_shapes \<noteq> length (se_input_names s)
      then b_fail (Input_count (length (se_input_names s)) (length input_shapes))
      else if length output_shapes \<noteq> length (se_output_names s)
      then b_fail (Output_count (length (se_output_names s)) (length output_shapes))
      else b_bind (b_map (lane_tensor_buffer (le_native env) (le_in env) (le_zero_in env) input_mem input_policy)
             input_shapes) (\<lambda>inputs.
        b_bind (b_map (lane_tensor_buffer (le_native env) (le_out env) (le_zero_out env) output_mem output_policy)
             output_shapes) (\<lambda>outputs.
        b_bind (b_call (le_provider env) New_binding) (\<lambda>_.
        if list_ex (\<lambda>n. CHR 0x00 \<in> set n) (se_input_names s) then b_fail Input_name_has_nul
        else b_bind (bind_device (le_provider env) (le_in env) (le_device_in env) Alloc_device_input Bind_input
               input_shapes device) (\<lambda>dev_in.
          b_bind (bind_device (le_provider env) (le_out env) (le_device_out env) Alloc_device_output Bind_output
               output_shapes out_device) (\<lambda>dev_out.
          finish_lane (le_provider env) device out_device inputs outputs dev_in dev_out))))))"

subsection \<open>Lane constructors\<close>

definition lane_with_buffer_policy :: "('i, 'o) lane_env \<Rightarrow> memory_info \<Rightarrow> memory_info \<Rightarrow> int list list \<Rightarrow> int list list
    \<Rightarrow> buffer_spec \<Rightarrow> buffer_spec \<Rightarrow> session \<Rightarrow> ('i, 'o) lane build_op" where
  "lane_with_buffer_policy env input_mem output_mem ins outs input_policy output_policy s =
     lane_build env s input_mem output_mem ins outs input_policy output_policy None None"

definition lane_with_memory :: "('i, 'o) lane_env \<Rightarrow> memory_info \<Rightarrow> memory_info \<Rightarrow> int list list \<Rightarrow> int list list
    \<Rightarrow> session \<Rightarrow> ('i, 'o) lane build_op" where
  "lane_with_memory env input_mem output_mem ins outs s =
     lane_with_buffer_policy env input_mem output_mem ins outs spec_auto spec_auto s"

definition lane_new :: "('i, 'o) lane_env \<Rightarrow> memory_info \<Rightarrow> int list list \<Rightarrow> int list list
    \<Rightarrow> session \<Rightarrow> ('i, 'o) lane build_op" where
  "lane_new env mem ins outs s = lane_with_buffer_policy env mem mem ins outs spec_auto spec_auto s"

definition lane_with_device_inputs :: "('i, 'o) lane_env \<Rightarrow> memory_info \<Rightarrow> memory_info \<Rightarrow> int list list \<Rightarrow> int list list
    \<Rightarrow> buffer_spec \<Rightarrow> buffer_spec \<Rightarrow> int \<Rightarrow> session \<times> cuda_stream \<Rightarrow> ('i, 'o) lane build_op" where
  "lane_with_device_inputs env input_mem output_mem ins outs input_policy output_policy device = (\<lambda>(s, stream).
     if st_device stream \<noteq> device \<or> \<not> uses_cuda_stream s stream then b_fail Wrong_stream
     else lane_build env s input_mem output_mem ins outs (or_if_auto input_policy spec_cuda_pinned) output_policy
       (Some device) None)"

text \<open>\<open>cpu\<close> is what \<open>MemoryInfo::cpu\<close> answers.\<close>

definition lane_with_device_io :: "('i, 'o) lane_env \<Rightarrow> tensor_error + memory_info \<Rightarrow> memory_info \<Rightarrow> int list list
    \<Rightarrow> int list list \<Rightarrow> buffer_spec \<Rightarrow> int \<Rightarrow> session \<times> cuda_stream \<Rightarrow> ('i, 'o) lane build_op" where
  "lane_with_device_io env cpu input_mem ins outs input_policy device = (\<lambda>(s, stream).
     if st_device stream \<noteq> device \<or> \<not> uses_cuda_stream s stream then b_fail Wrong_stream
     else b_bind (b_tensor (Ret cpu)) (\<lambda>host.
       lane_build env s input_mem host ins outs (or_if_auto input_policy spec_cuda_pinned) spec_auto
         (Some device) (Some device)))"

subsection \<open>Lane sets\<close>

record ('i, 'o) static_runtime =
  sr_lanes :: "('i, 'o) lane list"
  sr_mode :: runtime_mode

definition lane_set :: "runtime_mode \<Rightarrow> ('a \<Rightarrow> ('i, 'o) lane build_op) \<Rightarrow> 'a list \<Rightarrow> ('i, 'o) static_runtime build_op" where
  "lane_set mode f xs = b_bind (b_map f xs) (\<lambda>lanes. b_return \<lparr>sr_lanes = lanes, sr_mode = mode\<rparr>)"

definition shared_session_with_buffer_policy :: "('i, 'o) lane_env \<Rightarrow> session \<Rightarrow> memory_info \<Rightarrow> memory_info
    \<Rightarrow> int list list \<Rightarrow> int list list \<Rightarrow> nat \<Rightarrow> buffer_spec \<Rightarrow> buffer_spec \<Rightarrow> ('i, 'o) static_runtime build_op" where
  "shared_session_with_buffer_policy env s im om ins outs lanes ip op =
     (if lanes = 0 then b_fail No_lanes
      else lane_set SharedSession (lane_with_buffer_policy env im om ins outs ip op) (replicate lanes s))"

definition shared_session :: "('i, 'o) lane_env \<Rightarrow> session \<Rightarrow> memory_info
    \<Rightarrow> int list list \<Rightarrow> int list list \<Rightarrow> nat \<Rightarrow> ('i, 'o) static_runtime build_op" where
  "shared_session env s mem ins outs lanes =
     shared_session_with_buffer_policy env s mem mem ins outs lanes spec_auto spec_auto"

definition from_session_refs_with_buffer_policy :: "('i, 'o) lane_env \<Rightarrow> session list \<Rightarrow> memory_info \<Rightarrow> memory_info
    \<Rightarrow> int list list \<Rightarrow> int list list \<Rightarrow> buffer_spec \<Rightarrow> buffer_spec \<Rightarrow> ('i, 'o) static_runtime build_op" where
  "from_session_refs_with_buffer_policy env ss im om ins outs ip op =
     (if ss = [] then b_fail No_sessions
      else lane_set ReplicatedSessions (lane_with_buffer_policy env im om ins outs ip op) ss)"

definition from_session_refs :: "('i, 'o) lane_env \<Rightarrow> session list \<Rightarrow> memory_info
    \<Rightarrow> int list list \<Rightarrow> int list list \<Rightarrow> ('i, 'o) static_runtime build_op" where
  "from_session_refs env ss mem ins outs =
     from_session_refs_with_buffer_policy env ss mem mem ins outs spec_auto spec_auto"

definition from_sessions_with_buffer_policy :: "('i, 'o) lane_env \<Rightarrow> session list \<Rightarrow> memory_info \<Rightarrow> memory_info
    \<Rightarrow> int list list \<Rightarrow> int list list \<Rightarrow> buffer_spec \<Rightarrow> buffer_spec \<Rightarrow> ('i, 'o) static_runtime build_op" where
  "from_sessions_with_buffer_policy env ss im om ins outs ip op =
     (if ss = [] then b_fail No_sessions
      else lane_set ReplicatedSessions (lane_with_buffer_policy env im om ins outs ip op) ss)"

definition from_sessions :: "('i, 'o) lane_env \<Rightarrow> session list \<Rightarrow> memory_info
    \<Rightarrow> int list list \<Rightarrow> int list list \<Rightarrow> ('i, 'o) static_runtime build_op" where
  "from_sessions env ss mem ins outs = from_sessions_with_buffer_policy env ss mem mem ins outs spec_auto spec_auto"

text \<open>The session factory answers with a session or an error for each lane.\<close>

definition from_session_factory_with_buffer_policy :: "('i, 'o) lane_env \<Rightarrow> nat \<Rightarrow> memory_info \<Rightarrow> memory_info
    \<Rightarrow> int list list \<Rightarrow> int list list \<Rightarrow> buffer_spec \<Rightarrow> buffer_spec \<Rightarrow> (nat \<Rightarrow> session build_op)
    \<Rightarrow> ('i, 'o) static_runtime build_op" where
  "from_session_factory_with_buffer_policy env lanes im om ins outs ip op factory =
     (if lanes = 0 then b_fail No_lanes
      else b_bind (b_map factory [0..<lanes]) (\<lambda>ss. from_sessions_with_buffer_policy env ss im om ins outs ip op))"

definition from_session_factory :: "('i, 'o) lane_env \<Rightarrow> nat \<Rightarrow> memory_info
    \<Rightarrow> int list list \<Rightarrow> int list list \<Rightarrow> (nat \<Rightarrow> session build_op) \<Rightarrow> ('i, 'o) static_runtime build_op" where
  "from_session_factory env lanes mem ins outs factory =
     from_session_factory_with_buffer_policy env lanes mem mem ins outs spec_auto spec_auto factory"

definition shared_session_with_device_inputs :: "('i, 'o) lane_env \<Rightarrow> session \<Rightarrow> memory_info \<Rightarrow> memory_info
    \<Rightarrow> int list list \<Rightarrow> int list list \<Rightarrow> nat \<Rightarrow> buffer_spec \<Rightarrow> buffer_spec \<Rightarrow> int \<Rightarrow> cuda_stream
    \<Rightarrow> ('i, 'o) static_runtime build_op" where
  "shared_session_with_device_inputs env s im om ins outs lanes ip op device stream =
     (if lanes = 0 then b_fail No_lanes
      else lane_set SharedSession (lane_with_device_inputs env im om ins outs ip op device) (replicate lanes (s, stream)))"

definition shared_session_with_device_io :: "('i, 'o) lane_env \<Rightarrow> tensor_error + memory_info \<Rightarrow> session \<Rightarrow> memory_info
    \<Rightarrow> int list list \<Rightarrow> int list list \<Rightarrow> nat \<Rightarrow> buffer_spec \<Rightarrow> int \<Rightarrow> cuda_stream \<Rightarrow> ('i, 'o) static_runtime build_op" where
  "shared_session_with_device_io env cpu s im ins outs lanes ip device stream =
     (if lanes = 0 then b_fail No_lanes
      else lane_set SharedSession (lane_with_device_io env cpu im ins outs ip device) (replicate lanes (s, stream)))"

definition from_session_refs_with_device_inputs :: "('i, 'o) lane_env \<Rightarrow> session list \<Rightarrow> memory_info \<Rightarrow> memory_info
    \<Rightarrow> int list list \<Rightarrow> int list list \<Rightarrow> buffer_spec \<Rightarrow> buffer_spec \<Rightarrow> int \<Rightarrow> cuda_stream
    \<Rightarrow> ('i, 'o) static_runtime build_op" where
  "from_session_refs_with_device_inputs env ss im om ins outs ip op device stream =
     (if ss = [] then b_fail No_sessions
      else lane_set ReplicatedSessions (lane_with_device_inputs env im om ins outs ip op device)
        (map (\<lambda>s. (s, stream)) ss))"

definition from_session_refs_with_device_input_streams :: "('i, 'o) lane_env \<Rightarrow> session list \<Rightarrow> memory_info \<Rightarrow> memory_info
    \<Rightarrow> int list list \<Rightarrow> int list list \<Rightarrow> buffer_spec \<Rightarrow> buffer_spec \<Rightarrow> int \<Rightarrow> cuda_stream list
    \<Rightarrow> ('i, 'o) static_runtime build_op" where
  "from_session_refs_with_device_input_streams env ss im om ins outs ip op device streams =
     (if ss = [] then b_fail No_sessions
      else if length ss \<noteq> length streams then b_fail (Stream_count (length ss) (length streams))
      else lane_set ReplicatedSessions (lane_with_device_inputs env im om ins outs ip op device) (zip ss streams))"

definition from_session_refs_with_device_io :: "('i, 'o) lane_env \<Rightarrow> tensor_error + memory_info \<Rightarrow> session list \<Rightarrow> memory_info
    \<Rightarrow> int list list \<Rightarrow> int list list \<Rightarrow> buffer_spec \<Rightarrow> int \<Rightarrow> cuda_stream \<Rightarrow> ('i, 'o) static_runtime build_op" where
  "from_session_refs_with_device_io env cpu ss im ins outs ip device stream =
     (if ss = [] then b_fail No_sessions
      else lane_set ReplicatedSessions (lane_with_device_io env cpu im ins outs ip device) (map (\<lambda>s. (s, stream)) ss))"

definition from_session_refs_with_device_io_streams :: "('i, 'o) lane_env \<Rightarrow> tensor_error + memory_info \<Rightarrow> session list
    \<Rightarrow> memory_info \<Rightarrow> int list list \<Rightarrow> int list list \<Rightarrow> buffer_spec \<Rightarrow> int \<Rightarrow> cuda_stream list
    \<Rightarrow> ('i, 'o) static_runtime build_op" where
  "from_session_refs_with_device_io_streams env cpu ss im ins outs ip device streams =
     (if ss = [] then b_fail No_sessions
      else if length ss \<noteq> length streams then b_fail (Stream_count (length ss) (length streams))
      else lane_set ReplicatedSessions (lane_with_device_io env cpu im ins outs ip device) (zip ss streams))"

subsection \<open>Calls on a lane set\<close>

text \<open>\<open>for lane in &mut self.lanes { op(lane)?; }\<close>\<close>

fun for_lanes :: "('i, 'o, unit) lane_op \<Rightarrow> ('i, 'o) lane list \<times> log
    \<Rightarrow> ((lane_error + unit) \<times> ('i, 'o) lane list \<times> log) run" where
  "for_lanes m ([], t) = Ret (Inr (), [], t)"
| "for_lanes m (l # ls, t) = bind_run (m (l, t)) (\<lambda>(r, l', t').
     case r of Inl e \<Rightarrow> Ret (Inl e, l' # ls, t')
     | Inr _ \<Rightarrow> bind_run (for_lanes m (ls, t')) (\<lambda>(r', ls', t''). Ret (r', l' # ls', t'')))"

definition static_lane :: "('i, 'o) static_runtime \<Rightarrow> nat \<Rightarrow> ('i, 'o) lane option" where
  "static_lane s i = get_opt (sr_lanes s) i"

definition static_prime :: "provider \<Rightarrow> nat \<Rightarrow> ('i, 'o) lane list \<times> log
    \<Rightarrow> ((lane_error + unit) \<times> ('i, 'o) lane list \<times> log) run" where
  "static_prime pv n = for_lanes (prime pv n)"

definition static_prime_enqueued :: "provider \<Rightarrow> nat \<Rightarrow> ('i, 'o) lane list \<times> log
    \<Rightarrow> ((lane_error + unit) \<times> ('i, 'o) lane list \<times> log) run" where
  "static_prime_enqueued pv n = for_lanes (prime_enqueued pv n)"

definition static_set_rebind :: "bool \<Rightarrow> ('i, 'o) lane list \<Rightarrow> ('i, 'o) lane list" where
  "static_set_rebind b ls = map (set_rebind_inputs_each_run b) ls"

definition check_graph_lane :: "('i, 'o, unit) lane_op" where
  "check_graph_lane = op_bind ensure_idle (\<lambda>_. ensure_graph_id_assignable)"

definition static_set_gpu_graph_id :: "provider \<Rightarrow> int \<Rightarrow> ('i, 'o) lane list \<times> log
    \<Rightarrow> ((lane_error + unit) \<times> ('i, 'o) lane list \<times> log) run" where
  "static_set_gpu_graph_id pv gid s = bind_run (for_lanes check_graph_lane s) (\<lambda>(r, s').
     case r of Inl e \<Rightarrow> Ret (Inl e, s') | Inr _ \<Rightarrow> for_lanes (set_gpu_graph_id pv gid) s')"

subsection \<open>The lane set of a shape\<close>

text \<open>What a dynamic runtime builds its lane sets from; \<open>build_lane_set\<close> picks the constructor.\<close>

datatype dynamic_sessions = Shared session | Replicated "session list"

record runtime_config =
  cf_sessions :: dynamic_sessions
  cf_input_mem :: memory_info
  cf_output_mem :: memory_info
  cf_options :: dynamic_io_options
  cf_lane_count :: nat

definition b_option :: "'a option \<Rightarrow> ('a \<Rightarrow> 'b build_op) \<Rightarrow> 'b build_op" where
  "b_option x f = (case x of None \<Rightarrow> b_fail Wrong_stream | Some a \<Rightarrow> f a)"

definition choose_lane_set :: "('i, 'o) lane_env \<Rightarrow> tensor_error + memory_info \<Rightarrow> runtime_config
    \<Rightarrow> int list list \<Rightarrow> int list list \<Rightarrow> ('i, 'o) static_runtime build_op" where
  "choose_lane_set env cpu cf ins outs =
     (let d = cf_options cf; im = cf_input_mem cf; om = cf_output_mem cf; ip = do_input_policy d; op = do_output_policy d
      in case do_device_id d of
        Some device \<Rightarrow> (case cf_sessions cf of
          Shared s \<Rightarrow> b_option (do_stream d) (\<lambda>stream.
            if do_device_outputs d
            then shared_session_with_device_io env cpu s im ins outs (cf_lane_count cf) ip device stream
            else shared_session_with_device_inputs env s im om ins outs (cf_lane_count cf) ip op device stream)
        | Replicated ss \<Rightarrow>
            if do_lane_streams d = [] then b_option (do_stream d) (\<lambda>stream.
              if do_device_outputs d then from_session_refs_with_device_io env cpu ss im ins outs ip device stream
              else from_session_refs_with_device_inputs env ss im om ins outs ip op device stream)
            else if do_device_outputs d
              then from_session_refs_with_device_io_streams env cpu ss im ins outs ip device (do_lane_streams d)
              else from_session_refs_with_device_input_streams env ss im om ins outs ip op device (do_lane_streams d))
      | None \<Rightarrow> (case cf_sessions cf of
          Shared s \<Rightarrow> shared_session_with_buffer_policy env s im om ins outs (cf_lane_count cf) ip op
        | Replicated ss \<Rightarrow> from_session_refs_with_buffer_policy env ss im om ins outs ip op))"

definition build_lane_set :: "('i, 'o) lane_env \<Rightarrow> tensor_error + memory_info \<Rightarrow> runtime_config
    \<Rightarrow> int list list \<Rightarrow> int list list \<Rightarrow> ('i, 'o) static_runtime build_op" where
  "build_lane_set env cpu cf ins outs = b_bind (choose_lane_set env cpu cf ins outs) (\<lambda>r.
     b_return (r\<lparr>sr_lanes := static_set_rebind (do_rebind_inputs (cf_options cf)) (sr_lanes r)\<rparr>))"

subsection \<open>Triples for builds\<close>

text \<open>\<open>b_valid P m Q\<close>: if \<open>m\<close> returns from a state in \<open>P\<close>, the result and the state are in \<open>Q\<close>.\<close>

definition b_valid :: "(nat \<Rightarrow> log \<Rightarrow> bool) \<Rightarrow> 'r build_op \<Rightarrow> (build_error + 'r \<Rightarrow> nat \<Rightarrow> log \<Rightarrow> bool) \<Rightarrow> bool" where
  "b_valid P m Q \<longleftrightarrow> (\<forall>k t r k' t'. P k t \<longrightarrow> m (k, t) = Ret (r, k', t') \<longrightarrow> Q r k' t')"

lemma b_validD: "b_valid P m Q \<Longrightarrow> P k t \<Longrightarrow> m (k, t) = Ret (r, k', t') \<Longrightarrow> Q r k' t'"
  unfolding b_valid_def by blast

lemma b_valid_return: "(\<And>k t. P k t \<Longrightarrow> Q (Inr r) k t) \<Longrightarrow> b_valid P (b_return r) Q"
  by (auto simp: b_valid_def b_return_def)

lemma b_valid_fail: "(\<And>k t. P k t \<Longrightarrow> Q (Inl e) k t) \<Longrightarrow> b_valid P (b_fail e) Q"
  by (auto simp: b_valid_def b_fail_def)

lemma b_valid_bind:
  assumes "b_valid P m (\<lambda>r k t. case r of Inl e \<Rightarrow> Q (Inl e) k t | Inr a \<Rightarrow> R a k t)" "\<And>a. b_valid (R a) (f a) Q"
  shows "b_valid P (b_bind m f) Q"
  unfolding b_valid_def
proof (intro allI impI)
  fix k t r k' t' assume P: "P k t" and b: "b_bind m f (k, t) = Ret (r, k', t')"
  then obtain x k1 t1 where m: "m (k, t) = Ret (x, k1, t1)"
    and f: "(case x of Inl e \<Rightarrow> Ret (Inl e, k1, t1) | Inr a \<Rightarrow> f a (k1, t1)) = Ret (r, k', t')"
    by (auto simp: b_bind_def bind_run_eq_Ret)
  have "case x of Inl e \<Rightarrow> Q (Inl e) k1 t1 | Inr a \<Rightarrow> R a k1 t1" using b_validD [OF assms(1) P m] .
  then show "Q r k' t'" using f b_validD [OF assms(2)] by (cases x) auto
qed

lemma b_valid_post: "b_valid P m Q \<Longrightarrow> (\<And>r k t. Q r k t \<Longrightarrow> Q' r k t) \<Longrightarrow> b_valid P m Q'"
  unfolding b_valid_def by blast

lemma b_valid_if: "(b \<Longrightarrow> b_valid P m Q) \<Longrightarrow> (\<not> b \<Longrightarrow> b_valid P m' Q) \<Longrightarrow> b_valid P (if b then m else m') Q"
  by simp

text \<open>\<open>unused k t\<close>: no key from \<open>k\<close> on has ever been seen to run anything.\<close>

definition unused :: "nat \<Rightarrow> log \<Rightarrow> bool" where
  "unused k t \<longleftrightarrow> (\<forall>j \<ge> k. watching j t = watch_init)"

definition building :: "nat \<Rightarrow> log \<Rightarrow> nat \<Rightarrow> log \<Rightarrow> bool" where
  "building k0 t0 k t \<longleftrightarrow> k = k0 \<and> (\<forall>j. watching j t = watching j t0)"

text \<open>What a construction step keeps: the key supply and everything the log shows.\<close>

definition inert :: "'r build_op \<Rightarrow> ('r \<Rightarrow> bool) \<Rightarrow> bool" where
  "inert m R \<longleftrightarrow> (\<forall>k0 t0. b_valid (building k0 t0) m (\<lambda>r k t. building k0 t0 k t \<and> (\<forall>a. r = Inr a \<longrightarrow> R a)))"

lemma inert_return: "R r \<Longrightarrow> inert (b_return r) R"
  unfolding inert_def by (intro allI b_valid_return) auto

lemma inert_fail: "inert (b_fail e) R"
  unfolding inert_def by (intro allI b_valid_fail) auto

lemma inert_bind: "inert m S \<Longrightarrow> (\<And>a. S a \<Longrightarrow> inert (f a) R) \<Longrightarrow> inert (b_bind m f) R"
  unfolding inert_def
proof (intro allI)
  fix k0 t0
  assume m: "\<forall>k0 t0. b_valid (building k0 t0) m (\<lambda>r k t. building k0 t0 k t \<and> (\<forall>a. r = Inr a \<longrightarrow> S a))"
    and f: "\<And>a. S a \<Longrightarrow> \<forall>k0 t0. b_valid (building k0 t0) (f a) (\<lambda>r k t. building k0 t0 k t \<and> (\<forall>a. r = Inr a \<longrightarrow> R a))"
  show "b_valid (building k0 t0) (b_bind m f) (\<lambda>r k t. building k0 t0 k t \<and> (\<forall>a. r = Inr a \<longrightarrow> R a))"
  proof (rule b_valid_bind [where R = "\<lambda>a k t. building k0 t0 k t \<and> S a"])
    show "b_valid (building k0 t0) m (\<lambda>r k t. case r of Inl e \<Rightarrow> building k0 t0 k t \<and> (\<forall>a. Inl e = Inr a \<longrightarrow> R a)
        | Inr a \<Rightarrow> building k0 t0 k t \<and> S a)"
      using m unfolding b_valid_def by (auto split: sum.split)
    show "b_valid (\<lambda>k t. building k0 t0 k t \<and> S a) (f a) (\<lambda>r k t. building k0 t0 k t \<and> (\<forall>a. r = Inr a \<longrightarrow> R a))" for a
      using f [of a] unfolding b_valid_def by blast
  qed
qed

lemma inert_weaken: "inert m R \<Longrightarrow> (\<And>a. R a \<Longrightarrow> S a) \<Longrightarrow> inert m S"
  unfolding inert_def b_valid_def by blast

lemma inert_call: "neutral c \<Longrightarrow> inert (b_call pv c) (\<lambda>_. True)"
  by (auto simp: inert_def b_valid_def b_call_def Let_def building_def neutral_def)

lemma inert_calls: "(\<And>c. c \<in> set cs \<Longrightarrow> neutral c) \<Longrightarrow> inert (b_calls pv cs) (\<lambda>_. True)"
  by (induction cs) (auto intro!: inert_return inert_bind inert_call)

lemma inert_tensor:
  assumes "\<And>a. m = Ret (Inr a) \<Longrightarrow> R a"
  shows "inert (b_tensor m) R"
proof (cases m)
  case Panic
  then show ?thesis by (simp add: inert_def b_valid_def b_tensor_def)
next
  case (Ret r)
  then show ?thesis using assms by (cases r) (auto simp: inert_def b_valid_def b_tensor_def)
qed

lemma inert_map:
  assumes "\<And>x. x \<in> set xs \<Longrightarrow> inert (f x) (R x)"
  shows "inert (b_map f xs) (\<lambda>ys. list_all2 R xs ys)"
  using assms
proof (induction xs)
  case Nil
  show ?case by (simp add: inert_return)
next
  case (Cons x xs)
  have "inert (b_map f xs) (list_all2 R xs)" using Cons by simp
  then show ?case
    unfolding b_map.simps using Cons.prems [of x]
    by (intro inert_bind [of "f x" "R x"] inert_bind [of "b_map f xs" "list_all2 R xs"] inert_return) auto
qed

lemma inert_buffer:
  "inert (lane_tensor_buffer nt t z mem spec shape) (\<lambda>b. b = replicate (volume_of shape) z)"
  unfolding lane_tensor_buffer_def
  by (rule inert_bind [of _ "\<lambda>b. storage_as_slice (tb_data b) = replicate (volume_of shape) z"])
    (auto intro!: inert_return inert_tensor dest!: zeros_with_Inr simp: element_count_exact storage_ok_def)

lemma inert_allocate:
  "neutral (what i) \<Longrightarrow> inert (allocate_device pv t g what (i, shape)) (\<lambda>b. length b = volume_of shape)"
  by (auto simp: allocate_device_def element_count_exact split: sum.split
      intro!: inert_fail inert_bind [OF inert_call] inert_return)

lemma inert_bind_device:
  assumes "\<And>i. neutral (what i)" "\<And>i. neutral (binding i)"
  shows "inert (bind_device pv t g what binding shapes device)
     (\<lambda>d. (d \<noteq> None \<longleftrightarrow> device \<noteq> None) \<and> (\<forall>devs. d = Some devs \<longrightarrow> map length devs = map volume_of shapes))"
proof (cases device)
  case None
  then show ?thesis
    using assms by (auto simp: bind_device_def intro!: inert_bind [OF inert_calls] inert_return)
next
  case (Some x)
  have "inert (allocate_device pv t g what x) (\<lambda>b. length b = volume_of (snd x))" for x
    by (cases x) (simp add: inert_allocate assms(1))
  then have "inert (b_map (allocate_device pv t g what) (enumerate 0 shapes))
      (\<lambda>devs. list_all2 (\<lambda>s b. length b = volume_of (snd s)) (enumerate 0 shapes) devs)"
    by (intro inert_map)
  then have "inert (b_map (allocate_device pv t g what) (enumerate 0 shapes)) (\<lambda>devs. map length devs = map volume_of shapes)"
    by (rule inert_weaken) (auto simp: list_all2_conv_all_nth list_eq_iff_nth_eq nth_enumerate_eq)
  then show ?thesis
    using assms Some by (auto simp: bind_device_def intro!: inert_bind [OF inert_calls] inert_return
        inert_bind [of "b_map (allocate_device pv t g what) (enumerate 0 shapes)" "\<lambda>devs. map length devs = map volume_of shapes"])
qed

text \<open>A lane as the builder leaves it.\<close>

definition fresh_lane :: "('i, 'o) lane_env \<Rightarrow> int list list \<Rightarrow> int list list \<Rightarrow> int option \<Rightarrow> int option
    \<Rightarrow> ('i, 'o) lane \<Rightarrow> bool" where
  "fresh_lane env ins outs device out_device l \<longleftrightarrow>
     ln_inputs l = map (\<lambda>s. replicate (volume_of s) (le_zero_in env)) ins \<and>
     ln_outputs l = map (\<lambda>s. replicate (volume_of s) (le_zero_out env)) outs \<and>
     (ln_device_inputs l \<noteq> None \<longleftrightarrow> device \<noteq> None) \<and>
     (\<forall>devs. ln_device_inputs l = Some devs \<longrightarrow> map length devs = map volume_of ins) \<and>
     (ln_device_outputs l \<noteq> None \<longleftrightarrow> out_device \<noteq> None) \<and>
     (\<forall>devs. ln_device_outputs l = Some devs \<longrightarrow> map length devs = map volume_of outs) \<and>
     (ln_completion_event l \<longleftrightarrow> device \<noteq> None) \<and> (ln_downstream_event l \<longleftrightarrow> out_device \<noteq> None) \<and>
     ln_device_id l = device \<and> \<not> ln_run_opts l \<and> \<not> ln_sync_stream l \<and> ln_graph_id l = None \<and>
     \<not> ln_graph_captured l \<and> ln_graph_lease l = None \<and> \<not> ln_guard l \<and> \<not> ln_event_recorded l \<and>
     \<not> ln_in_flight l \<and> ln_recovery_slot l = None"

text \<open>A build that returns a fresh lane takes the next key for it.\<close>

definition builds :: "('i, 'o) lane build_op \<Rightarrow> (('i, 'o) lane \<Rightarrow> bool) \<Rightarrow> bool" where
  "builds m R \<longleftrightarrow> (\<forall>k0 t0. b_valid (building k0 t0) m (\<lambda>r k t. (\<forall>j. watching j t = watching j t0) \<and>
     (case r of Inl _ \<Rightarrow> k = k0 | Inr l \<Rightarrow> k = Suc k0 \<and> ln_key l = k0 \<and> R l)))"

lemma builds_fail: "builds (b_fail e) R"
  unfolding builds_def by (intro allI b_valid_fail) (auto simp: building_def)

lemma builds_bind:
  assumes "inert m S" "\<And>a. S a \<Longrightarrow> builds (f a) R"
  shows "builds (b_bind m f) R"
  unfolding builds_def
proof (intro allI)
  fix k0 t0
  let ?Q = "\<lambda>r k t. (\<forall>j. watching j t = watching j t0) \<and>
     (case r of Inl _ \<Rightarrow> k = k0 | Inr l \<Rightarrow> k = Suc k0 \<and> ln_key l = k0 \<and> R l)"
  show "b_valid (building k0 t0) (b_bind m f) ?Q"
  proof (rule b_valid_bind [where R = "\<lambda>a k t. building k0 t0 k t \<and> S a"])
    show "b_valid (building k0 t0) m (\<lambda>r k t. case r of Inl e \<Rightarrow> ?Q (Inl e) k t | Inr a \<Rightarrow> building k0 t0 k t \<and> S a)"
      by (rule b_valid_post [OF assms(1) [unfolded inert_def, rule_format]]) (auto simp: building_def split: sum.split)
    have "b_valid (building k0 t0) (f a) ?Q" if "S a" for a
      using assms(2) [OF that] unfolding builds_def by (elim allE)
    then show "b_valid (\<lambda>k t. building k0 t0 k t \<and> S a) (f a) ?Q" for a
      by (cases "S a") (simp_all add: b_valid_def)
  qed
qed

lemma new_lane_key: "ln_key (new_lane k device out_device inputs outputs dev_in dev_out) = k"
  by (simp add: new_lane_def)

lemma builds_finish:
  assumes "\<And>k. R (new_lane k device out_device inputs outputs dev_in dev_out)"
  shows "builds (finish_lane pv device out_device inputs outputs dev_in dev_out) R"
proof -
  have ev: "inert (if x = None then b_return () else b_call pv Create_event) (\<lambda>_. True)" for x :: "int option"
    by (auto intro: inert_return inert_call)
  show ?thesis
    unfolding finish_lane_def
    by (intro builds_bind [OF inert_call] builds_bind [OF ev])
      (auto simp: builds_def b_valid_def b_bind_def next_key_def b_return_def building_def assms new_lane_key)
qed

lemma lane_build_fresh:
  "builds (lane_build env s im om ins outs ip op device out_device) (fresh_lane env ins outs device out_device)"
proof -
  have ins: "inert (b_map (lane_tensor_buffer nt t z mem spec) shapes) (\<lambda>bs. bs = map (\<lambda>s. replicate (volume_of s) z) shapes)"
    for nt t and z :: 'c and mem spec shapes
    by (rule inert_weaken [OF inert_map [OF inert_buffer]]) (auto simp: list_all2_conv_all_nth list_eq_iff_nth_eq)
  show ?thesis
    unfolding lane_build_def
    by (auto simp: fresh_lane_def new_lane_def intro!: builds_fail builds_bind [OF ins] builds_bind [OF inert_call]
        builds_bind [OF inert_bind_device] builds_finish)
qed

lemma lane_constructors_fresh:
  "builds (lane_with_buffer_policy env im om ins outs ip op s) (fresh_lane env ins outs None None)"
  "builds (lane_with_device_inputs env im om ins outs ip op d x) (fresh_lane env ins outs (Some d) None)"
  "builds (lane_with_device_io env cpu im ins outs ip d x) (fresh_lane env ins outs (Some d) (Some d))"
  by (auto simp: lane_with_buffer_policy_def lane_with_device_inputs_def lane_with_device_io_def lane_build_fresh
      split: prod.split intro!: builds_fail builds_bind [OF inert_tensor])

lemma fresh_lane_safe:
  assumes "fresh_lane env ins outs device out_device l" "watching (ln_key l) t = watch_init"
  shows "lane_safe l t"
proof -
  have "length devs = length (ln_inputs l)" if "ln_device_inputs l = Some devs" for devs
    using assms(1) that map_eq_imp_length_eq [of length devs volume_of ins] by (simp add: fresh_lane_def)
  then show ?thesis
    using assms by (auto simp: lane_safe_def carries_def lane_wf_def fresh_lane_def watch_init_def split: option.split)
qed

text \<open>A set of \<open>n\<close> lanes takes \<open>n\<close> keys in order.\<close>

definition set_built :: "nat \<Rightarrow> (('i, 'o) lane \<Rightarrow> bool) \<Rightarrow> nat \<Rightarrow> ('i, 'o) lane list \<Rightarrow> nat \<Rightarrow> bool" where
  "set_built n R k0 lanes k \<longleftrightarrow> length lanes = n \<and> k = k0 + n \<and> map ln_key lanes = [k0..<k] \<and> (\<forall>l \<in> set lanes. R l)"

definition builds_set :: "'r build_op \<Rightarrow> ('r \<Rightarrow> nat \<Rightarrow> nat \<Rightarrow> bool) \<Rightarrow> bool" where
  "builds_set m R \<longleftrightarrow> (\<forall>k0 t0. b_valid (building k0 t0) m (\<lambda>r k t. (\<forall>j. watching j t = watching j t0) \<and> k0 \<le> k \<and>
     (\<forall>a. r = Inr a \<longrightarrow> R a k0 k)))"

lemma builds_setD:
  assumes "builds_set m R" "m (k, t) = Ret (r, k', t')"
  shows "\<forall>j. watching j t' = watching j t" "k \<le> k'" "r = Inr a \<Longrightarrow> R a k k'"
proof -
  have "building k t k t" by (simp add: building_def)
  from b_validD [OF assms(1) [unfolded builds_set_def, rule_format] this assms(2)]
  show "\<forall>j. watching j t' = watching j t" "k \<le> k'" "r = Inr a \<Longrightarrow> R a k k'" by auto
qed

lemma buildsD:
  assumes "builds m R" "m (k, t) = Ret (r, k', t')"
  shows "\<forall>j. watching j t' = watching j t" "r = Inr l \<Longrightarrow> k' = Suc k \<and> ln_key l = k \<and> R l" "r = Inl e \<Longrightarrow> k' = k"
proof -
  have "building k t k t" by (simp add: building_def)
  from b_validD [OF assms(1) [unfolded builds_def, rule_format] this assms(2)]
  show "\<forall>j. watching j t' = watching j t" "r = Inr l \<Longrightarrow> k' = Suc k \<and> ln_key l = k \<and> R l" "r = Inl e \<Longrightarrow> k' = k" by auto
qed

lemma builds_setI:
  assumes "\<And>k t r k' t'. m (k, t) = Ret (r, k', t') \<Longrightarrow>
    (\<forall>j. watching j t' = watching j t) \<and> k \<le> k' \<and> (\<forall>a. r = Inr a \<longrightarrow> R a k k')"
  shows "builds_set m R"
  using assms unfolding builds_set_def b_valid_def building_def by metis

lemma b_bind_cases:
  assumes "b_bind m f (k, t) = Ret (r, k', t')"
  obtains e where "m (k, t) = Ret (Inl e, k', t')" "r = Inl e"
  | a k1 t1 where "m (k, t) = Ret (Inr a, k1, t1)" "f a (k1, t1) = Ret (r, k', t')"
proof -
  obtain x k1 t1 where m: "m (k, t) = Ret (x, k1, t1)"
    and f: "(case x of Inl e \<Rightarrow> Ret (Inl e, k1, t1) | Inr a \<Rightarrow> f a (k1, t1)) = Ret (r, k', t')"
    using assms by (auto simp: b_bind_def bind_run_eq_Ret)
  show ?thesis using m f that by (cases x) auto
qed

lemma set_built_Cons:
  "ln_key l = k \<Longrightarrow> R l \<Longrightarrow> set_built n R (Suc k) ls k' \<Longrightarrow> set_built (Suc n) R k (l # ls) k'"
  by (auto simp: set_built_def upt_rec)

lemma builds_map:
  assumes "\<And>x. builds (f x) R"
  shows "builds_set (b_map f xs) (\<lambda>ls k0 k. set_built (length xs) R k0 ls k)"
proof (induction xs)
  case Nil
  show ?case by (auto intro!: builds_setI simp: b_return_def set_built_def)
next
  case (Cons x xs)
  show ?case
  proof (rule builds_setI)
    fix k t r k' t' assume "b_map f (x # xs) (k, t) = Ret (r, k', t')"
    then show "(\<forall>j. watching j t' = watching j t) \<and> k \<le> k' \<and>
        (\<forall>a. r = Inr a \<longrightarrow> set_built (length (x # xs)) R k a k')"
      unfolding b_map.simps
    proof (cases rule: b_bind_cases)
      case (1 e)
      then show ?thesis using buildsD [OF assms 1(1)] by auto
    next
      case (2 l k1 t1)
      note l = buildsD [OF assms 2(1)]
      from 2(2) show ?thesis
      proof (cases rule: b_bind_cases)
        case (1 e)
        then show ?thesis using l builds_setD [OF Cons.IH 1(1)] by auto
      next
        case (2 ls k2 t2)
        then show ?thesis using l builds_setD [OF Cons.IH 2(1)] by (auto simp: b_return_def intro: set_built_Cons)
      qed
    qed
  qed
qed

lemma lane_set_built:
  assumes "\<And>x. builds (f x) R"
  shows "builds_set (lane_set mode f xs) (\<lambda>a k0 k. set_built (length xs) R k0 (sr_lanes a) k \<and> sr_mode a = mode)"
proof (rule builds_setI)
  fix k t r k' t' assume "lane_set mode f xs (k, t) = Ret (r, k', t')"
  then show "(\<forall>j. watching j t' = watching j t) \<and> k \<le> k' \<and>
      (\<forall>a. r = Inr a \<longrightarrow> set_built (length xs) R k (sr_lanes a) k' \<and> sr_mode a = mode)"
    unfolding lane_set_def
  proof (cases rule: b_bind_cases)
    case (1 e)
    then show ?thesis using builds_setD [OF builds_map [OF assms] 1(1)] by auto
  next
    case (2 ls k1 t1)
    then show ?thesis using builds_setD [OF builds_map [OF assms] 2(1)] by (auto simp: b_return_def)
  qed
qed

lemma builds_set_fail: "builds_set (b_fail e) R"
  by (rule builds_setI) (auto simp: b_fail_def)

definition session_count :: "runtime_config \<Rightarrow> nat" where
  "session_count cf = (case cf_sessions cf of Shared _ \<Rightarrow> cf_lane_count cf | Replicated ss \<Rightarrow> length ss)"

definition out_device_of :: "dynamic_io_options \<Rightarrow> int option" where
  "out_device_of d = (if do_device_outputs d then do_device_id d else None)"

definition mode_of :: "runtime_config \<Rightarrow> runtime_mode" where
  "mode_of cf = (case cf_sessions cf of Shared _ \<Rightarrow> SharedSession | Replicated _ \<Rightarrow> ReplicatedSessions)"

definition lane_set_of :: "('i, 'o) lane_env \<Rightarrow> int list list \<Rightarrow> int list list \<Rightarrow> runtime_mode \<Rightarrow> nat
    \<Rightarrow> int option \<Rightarrow> int option \<Rightarrow> ('i, 'o) static_runtime \<Rightarrow> nat \<Rightarrow> nat \<Rightarrow> bool" where
  "lane_set_of env ins outs mode n device out_device a k0 k \<longleftrightarrow>
     0 < n \<and> set_built n (fresh_lane env ins outs device out_device) k0 (sr_lanes a) k \<and> sr_mode a = mode"

lemma builds_set_cong: "builds_set m R \<Longrightarrow> (\<And>a k0 k. R a k0 k = S a k0 k) \<Longrightarrow> builds_set m S"
  by (simp add: builds_set_def)

lemma lane_sets_built:
  "xs \<noteq> [] \<Longrightarrow> builds_set (lane_set mode (lane_with_buffer_policy env im om ins outs ip op) xs)
     (lane_set_of env ins outs mode (length xs) None None)"
  "ys \<noteq> [] \<Longrightarrow> builds_set (lane_set mode (lane_with_device_inputs env im om ins outs ip op d) ys)
     (lane_set_of env ins outs mode (length ys) (Some d) None)"
  "ys \<noteq> [] \<Longrightarrow> builds_set (lane_set mode (lane_with_device_io env cpu im ins outs ip d) ys)
     (lane_set_of env ins outs mode (length ys) (Some d) (Some d))"
  by (rule builds_set_cong [OF lane_set_built [OF lane_constructors_fresh(1)]]
      builds_set_cong [OF lane_set_built [OF lane_constructors_fresh(2)]]
      builds_set_cong [OF lane_set_built [OF lane_constructors_fresh(3)]]; simp add: lane_set_of_def)+

lemma shared_sets_built:
  "builds_set (shared_session_with_buffer_policy env s im om ins outs n ip op)
     (lane_set_of env ins outs SharedSession n None None)"
  "builds_set (shared_session_with_device_inputs env s im om ins outs n ip op d stream)
     (lane_set_of env ins outs SharedSession n (Some d) None)"
  "builds_set (shared_session_with_device_io env cpu s im ins outs n ip d stream)
     (lane_set_of env ins outs SharedSession n (Some d) (Some d))"
  unfolding shared_session_with_buffer_policy_def shared_session_with_device_inputs_def
    shared_session_with_device_io_def
  by (simp_all add: builds_set_fail lane_sets_built [of "replicate n x" for x, simplified])

lemma replicated_sets_built:
  "builds_set (from_session_refs_with_buffer_policy env ss im om ins outs ip op)
     (lane_set_of env ins outs ReplicatedSessions (length ss) None None)"
  "builds_set (from_session_refs_with_device_inputs env ss im om ins outs ip op d stream)
     (lane_set_of env ins outs ReplicatedSessions (length ss) (Some d) None)"
  "builds_set (from_session_refs_with_device_io env cpu ss im ins outs ip d stream)
     (lane_set_of env ins outs ReplicatedSessions (length ss) (Some d) (Some d))"
  unfolding from_session_refs_with_buffer_policy_def from_session_refs_with_device_inputs_def
    from_session_refs_with_device_io_def
  by (simp_all add: builds_set_fail lane_sets_built(1) lane_sets_built(2, 3) [of "map f ss" for f, simplified])

lemma stream_sets_built:
  "builds_set (from_session_refs_with_device_input_streams env ss im om ins outs ip op d streams)
     (lane_set_of env ins outs ReplicatedSessions (length ss) (Some d) None)" (is "builds_set ?a _")
  "builds_set (from_session_refs_with_device_io_streams env cpu ss im ins outs ip d streams)
     (lane_set_of env ins outs ReplicatedSessions (length ss) (Some d) (Some d))" (is "builds_set ?b _")
proof -
  have zip: "zip ss streams \<noteq> []" "length (zip ss streams) = length ss" if "ss \<noteq> []" "length ss = length streams"
    using that by (cases ss; cases streams; simp)+
  show "builds_set ?a (lane_set_of env ins outs ReplicatedSessions (length ss) (Some d) None)"
    unfolding from_session_refs_with_device_input_streams_def
    using lane_sets_built(2) [OF zip(1), unfolded zip(2)] by (auto intro: builds_set_fail)
  show "builds_set ?b (lane_set_of env ins outs ReplicatedSessions (length ss) (Some d) (Some d))"
    unfolding from_session_refs_with_device_io_streams_def
    using lane_sets_built(3) [OF zip(1), unfolded zip(2)] by (auto intro: builds_set_fail)
qed

lemma choose_lane_set_built:
  "builds_set (choose_lane_set env cpu cf ins outs) (lane_set_of env ins outs (mode_of cf) (session_count cf)
     (do_device_id (cf_options cf)) (out_device_of (cf_options cf)))"
proof -
  note defs = choose_lane_set_def Let_def b_option_def session_count_def out_device_of_def mode_of_def
  note sets = shared_sets_built replicated_sets_built stream_sets_built builds_set_fail
  show ?thesis
    by (cases "cf_sessions cf"; cases "do_device_id (cf_options cf)"; cases "do_stream (cf_options cf)")
      (simp_all add: defs sets)
qed


lemma unused_Nil: "unused k []"
  by (simp add: unused_def watching_def)

lemma unused_kept: "unused k t \<Longrightarrow> \<forall>j. watching j t' = watching j t \<Longrightarrow> k \<le> k' \<Longrightarrow> unused k' t'"
  by (simp add: unused_def)

lemma unused_fresh_safe:
  "unused k t \<Longrightarrow> \<forall>j. watching j t' = watching j t \<Longrightarrow> k \<le> ln_key l \<Longrightarrow> fresh_lane env ins outs d od l \<Longrightarrow>
     lane_safe l t'"
  by (rule fresh_lane_safe) (auto simp: unused_def)

lemma set_rebind_fields:
  "ln_key (set_rebind_inputs_each_run b l) = ln_key l"
  "ln_rebind_inputs (set_rebind_inputs_each_run b l) = b"
  "fresh_lane env ins outs d od (set_rebind_inputs_each_run b l) = fresh_lane env ins outs d od l"
  by (simp_all add: set_rebind_inputs_each_run_def fresh_lane_def)

lemma build_lane_set_built:
  "builds_set (build_lane_set env cpu cf ins outs) (\<lambda>a k0 k. lane_set_of env ins outs (mode_of cf) (session_count cf)
     (do_device_id (cf_options cf)) (out_device_of (cf_options cf)) a k0 k \<and>
     (\<forall>l \<in> set (sr_lanes a). ln_rebind_inputs l = do_rebind_inputs (cf_options cf)))"
proof (rule builds_setI)
  fix k t r k' t' assume "build_lane_set env cpu cf ins outs (k, t) = Ret (r, k', t')"
  then show "(\<forall>j. watching j t' = watching j t) \<and> k \<le> k' \<and> (\<forall>a. r = Inr a \<longrightarrow>
      lane_set_of env ins outs (mode_of cf) (session_count cf) (do_device_id (cf_options cf))
        (out_device_of (cf_options cf)) a k k' \<and>
      (\<forall>l \<in> set (sr_lanes a). ln_rebind_inputs l = do_rebind_inputs (cf_options cf)))"
    unfolding build_lane_set_def
  proof (cases rule: b_bind_cases)
    case (1 e)
    then show ?thesis using builds_setD [OF choose_lane_set_built 1(1)] by simp
  next
    case (2 a k1 t1)
    have "map ln_key (static_set_rebind b ls) = map ln_key ls" for b and ls :: "('a, 'b) lane list"
      by (simp add: static_set_rebind_def set_rebind_fields(1))
    with 2 builds_setD [OF choose_lane_set_built 2(1)] show ?thesis
      by (auto simp: b_return_def lane_set_of_def set_built_def static_set_rebind_def set_rebind_fields o_def)
  qed
qed

subsection \<open>Annotating a lane set\<close>

definition annotated :: "int \<Rightarrow> ('i, 'o) lane \<Rightarrow> ('i, 'o) lane" where
  "annotated gid l = l\<lparr>ln_run_opts := True, ln_graph_lease := Some gid, ln_graph_id := Some gid, ln_graph_captured := False\<rparr>"

definition annotatable :: "('i, 'o) lane \<Rightarrow> bool" where
  "annotatable l \<longleftrightarrow> \<not> ln_in_flight l \<and> ln_device_inputs l \<noteq> None"

lemma check_graph_lane_eq:
  "\<exists>r. check_graph_lane (l, t) = Ret (r, l, t) \<and> is_ok r = annotatable l"
  by (auto simp: check_graph_lane_def ensure_idle_def ensure_graph_id_assignable_def op_defs is_ok_def annotatable_def)

lemma check_graph_lanes_eq:
  "\<exists>r. for_lanes check_graph_lane (ls, t) = Ret (r, ls, t) \<and> is_ok r = list_all annotatable ls"
proof (induction ls)
  case (Cons l ls)
  obtain r where "check_graph_lane (l, t) = Ret (r, l, t)" "is_ok r = annotatable l"
    using check_graph_lane_eq by blast
  with Cons show ?case by (cases r) (auto simp: is_ok_def)
qed (simp add: is_ok_def)

lemma set_gpu_graph_id_total:
  "\<exists>r t'. set_gpu_graph_id pv gid (l, t) = Ret (r, if is_ok r then annotated gid l else l, t')"
  by (cases "ln_in_flight l \<or> ln_device_inputs l = None";
      cases "pv t (ln_key l) Freeze_options";
      cases "pv (t @ [(ln_key l, Freeze_options, Succeeded)]) (ln_key l) Freeze_options")
    (auto simp: set_gpu_graph_id_def ensure_idle_def ensure_graph_id_assignable_def materialize_run_options_def
      op_defs is_ok_def Let_def annotated_def)

lemma annotate_lanes_eq:
  "\<exists>r n t'. for_lanes (set_gpu_graph_id pv gid) (ls, t) = Ret (r, map (annotated gid) (take n ls) @ drop n ls, t') \<and>
     n \<le> length ls \<and> (is_ok r \<longleftrightarrow> n = length ls)"
proof (induction ls arbitrary: t)
  case (Cons l ls)
  obtain r t1 where l: "set_gpu_graph_id pv gid (l, t) = Ret (r, if is_ok r then annotated gid l else l, t1)"
    using set_gpu_graph_id_total by blast
  show ?case
  proof (cases "is_ok r")
    case False
    then show ?thesis using l by (intro exI [of _ r] exI [of _ 0] exI [of _ t1]) (auto simp: is_ok_def split: sum.splits)
  next
    case True
    obtain r' n t2 where "for_lanes (set_gpu_graph_id pv gid) (ls, t1) =
        Ret (r', map (annotated gid) (take n ls) @ drop n ls, t2)" "n \<le> length ls" "is_ok r' \<longleftrightarrow> n = length ls"
      using Cons.IH by blast
    then show ?thesis using l True
      by (intro exI [of _ r'] exI [of _ "Suc n"] exI [of _ t2]) (auto simp: is_ok_def split: sum.splits)
  qed
qed (simp add: is_ok_def)

subsection \<open>Examples\<close>

definition example_env :: "(int, int) lane_env" where
  "example_env = \<lparr>le_native = willing, le_provider = reliable, le_in = F32, le_out = F32, le_zero_in = 0,
     le_zero_out = 0, le_device_in = \<lambda>_ _. 7, le_device_out = \<lambda>_ _. 7\<rparr>"

definition example_session :: session where
  "example_session = \<lparr>se_number = 0, se_input_names = [''x''], se_output_names = [''y''], se_streams = []\<rparr>"

definition example_config :: runtime_config where
  "example_config = \<lparr>cf_sessions = Shared example_session, cf_input_mem = host_memory, cf_output_mem = host_memory,
     cf_options = with_input_policy (spec_aligned 64) (with_output_policy (spec_aligned 64) options_default),
     cf_lane_count = 2\<rparr>"

lemma example_lane_build:
  "\<exists>l t'. lane_build example_env example_session host_memory host_memory [[2, 3]] [[2, 3]] (spec_aligned 64)
     (spec_aligned 64) device None (k, t) = Ret (Inr l, Suc k, t')"
proof -
  obtain b where b: "zeros_with willing F32 (0 :: int) [2, 3] host_memory (spec_aligned 64) = Ret (Inr b)"
    using example_zeros by blast
  show ?thesis
    by (cases device) (simp_all add: lane_build_def example_env_def example_session_def b_bind_def lane_tensor_buffer_def
        b_tensor_def b bind_device_def allocate_device_def b_call_def finish_lane_def next_key_def b_return_def
        checked_element_count_def checked_mul_at_def reliable_def answer_def Let_def)
qed

lemma example_lane_set:
  "\<exists>a t'. build_lane_set example_env (Inr host_memory) example_config [[2, 3]] [[2, 3]] (0, []) = Ret (Inr a, 2, t')"
proof -
  have lane: "\<exists>l t'. lane_with_buffer_policy example_env host_memory host_memory [[2, 3]] [[2, 3]] (spec_aligned 64)
      (spec_aligned 64) example_session (k, t) = Ret (Inr l, Suc k, t')" for k t
    unfolding lane_with_buffer_policy_def by (rule example_lane_build)
  obtain l1 t1 l2 t2 where "lane_with_buffer_policy example_env host_memory host_memory [[2, 3]] [[2, 3]] (spec_aligned 64)
      (spec_aligned 64) example_session (0, []) = Ret (Inr l1, Suc 0, t1)"
    "lane_with_buffer_policy example_env host_memory host_memory [[2, 3]] [[2, 3]] (spec_aligned 64)
      (spec_aligned 64) example_session (Suc 0, t1) = Ret (Inr l2, Suc (Suc 0), t2)"
    using lane by metis
  then show ?thesis
    by (simp add: build_lane_set_def choose_lane_set_def example_config_def Let_def with_input_policy_def
        with_output_policy_def options_default_def shared_session_with_buffer_policy_def lane_set_def numeral_2_eq_2
        b_bind_def b_return_def)
qed

subsection \<open>Properties\<close>

text \<open>
  A lane build that returns, whatever the provider answers: on success the lane has the next
  key, holds zeroed host buffers of exactly the shapes' volumes and, per side, device buffers of
  the same volumes exactly when a device was asked for, is idle with no graph, guard or recorded
  event, and is safe in the sense of the lane's own theorems; on an error no key is used up. A
  wrong number of shapes is refused before anything is allocated or asked of the provider.
\<close>

theorem lane_build_sound:
  assumes "unused k t" "lane_build env s im om ins outs ip op device out_device (k, t) = Ret (r, k', t')"
  shows "unused k' t' \<and>
    (case r of Inl _ \<Rightarrow> k' = k
     | Inr l \<Rightarrow> k' = Suc k \<and> ln_key l = k \<and> fresh_lane env ins outs device out_device l \<and> lane_safe l t') \<and>
    (length ins \<noteq> length (se_input_names s) \<longrightarrow>
       r = Inl (Input_count (length (se_input_names s)) (length ins)) \<and> t' = t)"
proof (intro conjI impI)
  note built = buildsD [OF lane_build_fresh assms(2)]
  have "k \<le> k'" using built(2, 3) by (cases r) auto
  then show "unused k' t'" using assms(1) built(1) by (rule unused_kept [rotated 2])
  show "case r of Inl _ \<Rightarrow> k' = k
     | Inr l \<Rightarrow> k' = Suc k \<and> ln_key l = k \<and> fresh_lane env ins outs device out_device l \<and> lane_safe l t'"
    using built by (auto intro: unused_fresh_safe [OF assms(1) built(1)] split: sum.split)
  show "r = Inl (Input_count (length (se_input_names s)) (length ins))" "t' = t"
    if "length ins \<noteq> length (se_input_names s)"
    using assms(2) that by (auto simp: lane_build_def b_fail_def)
qed

theorem lane_build_sound_witness:
  "\<exists>l t'. lane_build example_env example_session host_memory host_memory [[2, 3]] [[2, 3]] (spec_aligned 64)
       (spec_aligned 64) (Some 0) None (5, []) = Ret (Inr l, 6, t') \<and>
     fresh_lane example_env [[2, 3]] [[2, 3]] (Some 0) None l \<and> lane_safe l t'"
proof -
  obtain l t' where "lane_build example_env example_session host_memory host_memory [[2, 3]] [[2, 3]] (spec_aligned 64)
       (spec_aligned 64) (Some 0) None (5, []) = Ret (Inr l, 6, t')"
    using example_lane_build [of "Some 0" 5 "[]"] by auto
  with lane_build_sound [OF unused_Nil this] show ?thesis by auto
qed

text \<open>
  C33. The lane set \<open>build_lane_set\<close> returns for a shape, in any of its eight configurations: as
  many lanes as the configuration asks for, at least one, with consecutive fresh keys, each
  safe, idle, zeroed, on the configured device and with the configured rebinding.
\<close>

theorem build_lane_set_sound:
  assumes "unused k t" "build_lane_set env cpu cf ins outs (k, t) = Ret (Inr a, k', t')"
  shows "sr_lanes a \<noteq> [] \<and> length (sr_lanes a) = session_count cf \<and> sr_mode a = mode_of cf \<and>
    map ln_key (sr_lanes a) = [k..<k'] \<and> unused k' t' \<and>
    (\<forall>l \<in> set (sr_lanes a). lane_safe l t' \<and> ln_rebind_inputs l = do_rebind_inputs (cf_options cf) \<and>
       fresh_lane env ins outs (do_device_id (cf_options cf)) (out_device_of (cf_options cf)) l)"
proof -
  note built = builds_setD [OF build_lane_set_built assms(2)]
  have set: "map ln_key (sr_lanes a) = [k..<k']" and fresh: "\<forall>l \<in> set (sr_lanes a).
      ln_rebind_inputs l = do_rebind_inputs (cf_options cf) \<and>
      fresh_lane env ins outs (do_device_id (cf_options cf)) (out_device_of (cf_options cf)) l"
    and shape: "sr_lanes a \<noteq> []" "length (sr_lanes a) = session_count cf" "sr_mode a = mode_of cf"
    using built(3) [OF refl] by (auto simp: lane_set_of_def set_built_def)
  have "k \<le> ln_key l" if "l \<in> set (sr_lanes a)" for l
  proof -
    have "ln_key l \<in> set [k..<k']" using that unfolding set [symmetric] by simp
    then show ?thesis by simp
  qed
  then have "\<forall>l \<in> set (sr_lanes a). lane_safe l t'"
    using fresh by (blast intro: unused_fresh_safe [OF assms(1) built(1)])
  then show ?thesis using shape set fresh unused_kept [OF assms(1) built(1, 2)] by blast
qed

theorem build_lane_set_sound_witness:
  "\<exists>a t'. build_lane_set example_env (Inr host_memory) example_config [[2, 3]] [[2, 3]] (0, []) = Ret (Inr a, 2, t') \<and>
     length (sr_lanes a) = 2 \<and> map ln_key (sr_lanes a) = [0, 1]"
proof -
  obtain a t' where a: "build_lane_set example_env (Inr host_memory) example_config [[2, 3]] [[2, 3]] (0, []) = Ret (Inr a, 2, t')"
    using example_lane_set by blast
  moreover have "session_count example_config = 2" by (simp add: session_count_def example_config_def)
  ultimately show ?thesis using build_lane_set_sound [OF unused_Nil a] by (auto simp: upt_rec)
qed

text \<open>
  \<open>StaticIoRuntime::set_gpu_graph_id\<close> never panics and checks every lane before it annotates
  any: when some lane is in flight or has host inputs, no lane changes and the provider is not
  called; otherwise a prefix of the lanes is annotated, all of them exactly on success.
\<close>

theorem static_set_gpu_graph_id_checked:
  "\<exists>r n t'. static_set_gpu_graph_id pv gid (ls, t) =
      Ret (r, map (annotated gid) (take n ls) @ drop n ls, t') \<and> n \<le> length ls \<and>
    (if list_all annotatable ls then is_ok r \<longleftrightarrow> n = length ls else \<not> is_ok r \<and> n = 0 \<and> t' = t)"
proof -
  obtain r where check: "for_lanes check_graph_lane (ls, t) = Ret (r, ls, t)" "is_ok r = list_all annotatable ls"
    using check_graph_lanes_eq by blast
  show ?thesis
  proof (cases "is_ok r")
    case False
    then show ?thesis using check
      by (intro exI [of _ r] exI [of _ 0] exI [of _ t])
        (auto simp: static_set_gpu_graph_id_def is_ok_def split: sum.splits)
  next
    case True
    then show ?thesis using check annotate_lanes_eq [of pv gid ls t]
      by (auto simp: static_set_gpu_graph_id_def is_ok_def split: sum.splits)
  qed
qed



end
