(* ===== verification/Bucket_Table.thy ===== *)
theory Bucket_Table
  imports Prelude
begin

text \<open>
  st-zrt/src/runtime.rs: the generation-checked handles of the dynamic runtime
  (\<open>PreparedBucketId\<close>, \<open>PreparedBucketSlot\<close>) and the four operations on the slot table. A bucket
  is reduced to its handle here; the list of handles is that of \<open>self.buckets\<close>.

  Slots and generations are \<open>u32\<close>, written as naturals with their bound.
\<close>

subsection \<open>Handles\<close>

record prepared_id =
  pi_slot :: nat
  pi_generation :: nat

record prepared_slot =
  sl_generation :: nat
  sl_index :: "nat option"

record slot_table =
  tb_slots :: "prepared_slot list"
  tb_free :: "nat list"

datatype table_error = Free_slot_invalid | Free_slot_inconsistent | Slots_exhausted

definition table_new :: slot_table where
  "table_new = \<lparr>tb_slots = [], tb_free = []\<rparr>"

definition allocate_prepared_bucket_id :: "nat \<Rightarrow> slot_table \<Rightarrow> (table_error + prepared_id) \<times> slot_table" where
  "allocate_prepared_bucket_id bucket_index tb =
     (if tb_free tb \<noteq> [] then
        let slot = last (tb_free tb); tb = tb\<lparr>tb_free := butlast (tb_free tb)\<rparr> in
        case get_opt (tb_slots tb) slot of
          None \<Rightarrow> (Inl Free_slot_invalid, tb)
        | Some e \<Rightarrow>
            if sl_index e \<noteq> None then (Inl Free_slot_inconsistent, tb)
            else (Inr \<lparr>pi_slot = slot, pi_generation = sl_generation e\<rparr>,
                  tb\<lparr>tb_slots := (tb_slots tb)[slot := e\<lparr>sl_index := Some bucket_index\<rparr>]\<rparr>)
      else if 2 ^ 32 \<le> length (tb_slots tb) then (Inl Slots_exhausted, tb)
      else (Inr \<lparr>pi_slot = length (tb_slots tb), pi_generation = 1\<rparr>,
            tb\<lparr>tb_slots := tb_slots tb @ [\<lparr>sl_generation = 1, sl_index = Some bucket_index\<rparr>]\<rparr>))"

definition prepared_bucket_index :: "prepared_id list \<Rightarrow> slot_table \<Rightarrow> prepared_id \<Rightarrow> nat option" where
  "prepared_bucket_index ids tb pid =
     (case get_opt (tb_slots tb) (pi_slot pid) of None \<Rightarrow> None
      | Some e \<Rightarrow> if sl_generation e \<noteq> pi_generation pid then None
          else case sl_index e of None \<Rightarrow> None
            | Some i \<Rightarrow> if get_opt ids i = Some pid then Some i else None)"

definition retire_prepared_bucket_id :: "prepared_id \<Rightarrow> slot_table \<Rightarrow> slot_table" where
  "retire_prepared_bucket_id pid tb =
     (case get_opt (tb_slots tb) (pi_slot pid) of None \<Rightarrow> tb
      | Some e \<Rightarrow>
          if sl_generation e \<noteq> pi_generation pid \<or> sl_index e = None then tb
          else case checked_add_at 32 (sl_generation e) 1 of
            Some nxt \<Rightarrow> \<lparr>tb_slots = (tb_slots tb)[pi_slot pid := \<lparr>sl_generation = nxt, sl_index = None\<rparr>],
                         tb_free = tb_free tb @ [pi_slot pid]\<rparr>
          | None \<Rightarrow> tb\<lparr>tb_slots := (tb_slots tb)[pi_slot pid := e\<lparr>sl_index := None\<rparr>]\<rparr>)"

text \<open>The loop over the buckets from \<open>start\<close> on; \<open>i\<close> is the index of the first of \<open>ids\<close>.\<close>

fun repair_loop :: "nat \<Rightarrow> prepared_id list \<Rightarrow> slot_table \<Rightarrow> slot_table" where
  "repair_loop i [] tb = tb"
| "repair_loop i (pid # ids) tb = repair_loop (Suc i) ids
     (case get_opt (tb_slots tb) (pi_slot pid) of None \<Rightarrow> tb
      | Some e \<Rightarrow> if sl_generation e \<noteq> pi_generation pid then tb
          else tb\<lparr>tb_slots := (tb_slots tb)[pi_slot pid := e\<lparr>sl_index := Some i\<rparr>]\<rparr>)"

definition repair_prepared_bucket_indices_from :: "nat \<Rightarrow> prepared_id list \<Rightarrow> slot_table \<Rightarrow> slot_table" where
  "repair_prepared_bucket_indices_from start ids tb = repair_loop start (drop start ids) tb"

text \<open>
  What \<open>retire_bucket_at\<close> does to the table when it removes the bucket at \<open>i\<close> with
  \<open>swap_remove\<close>, and \<open>drain_active_buckets_and_release_graphs\<close> when it takes all buckets.
\<close>

definition table_remove :: "nat \<Rightarrow> prepared_id list \<Rightarrow> slot_table \<Rightarrow> slot_table" where
  "table_remove i ids tb =
     (let tb = retire_prepared_bucket_id (ids ! i) tb; ids = swap_remove ids i in
      if i < length ids then repair_prepared_bucket_indices_from i ids tb else tb)"

definition table_clear :: "prepared_id list \<Rightarrow> slot_table \<Rightarrow> slot_table" where
  "table_clear ids tb = fold retire_prepared_bucket_id ids tb"

subsection \<open>The table's invariant\<close>

text \<open>
  \<open>names tb L\<close>: the slots in use are those of the pairs of handle and bucket index in \<open>L\<close>;
  every other slot is free or has run out of generations.
\<close>

definition slot_fine :: "(prepared_id \<times> nat) set \<Rightarrow> nat set \<Rightarrow> nat \<Rightarrow> prepared_slot \<Rightarrow> bool" where
  "slot_fine L free s e \<longleftrightarrow> 1 \<le> sl_generation e \<and> sl_generation e < 2 ^ 32 \<and>
     (case sl_index e of
        None \<Rightarrow> s \<in> free \<or> Suc (sl_generation e) = 2 ^ 32
      | Some i \<Rightarrow> \<exists>pid. (pid, i) \<in> L \<and> pi_slot pid = s)"

definition names :: "slot_table \<Rightarrow> (prepared_id \<times> nat) set \<Rightarrow> bool" where
  "names tb L \<longleftrightarrow>
     (\<forall>(pid, i) \<in> L. pi_slot pid < length (tb_slots tb) \<and>
        tb_slots tb ! pi_slot pid = \<lparr>sl_generation = pi_generation pid, sl_index = Some i\<rparr>) \<and>
     (\<forall>s < length (tb_slots tb). slot_fine L (set (tb_free tb)) s (tb_slots tb ! s)) \<and>
     distinct (tb_free tb) \<and> (\<forall>s \<in> set (tb_free tb). s < length (tb_slots tb) \<and> sl_index (tb_slots tb ! s) = None) \<and>
     length (tb_slots tb) \<le> 2 ^ 32"

definition indexed :: "prepared_id list \<Rightarrow> (prepared_id \<times> nat) set" where
  "indexed ids = {(ids ! i, i) | i. i < length ids}"

definition table_ok :: "prepared_id list \<Rightarrow> slot_table \<Rightarrow> bool" where
  "table_ok ids tb \<longleftrightarrow> names tb (indexed ids)"

text \<open>A handle that has been retired: its generation has passed or its slot is used up.\<close>

definition table_dead :: "slot_table \<Rightarrow> prepared_id \<Rightarrow> bool" where
  "table_dead tb pid \<longleftrightarrow> pi_slot pid < length (tb_slots tb) \<and>
     (let e = tb_slots tb ! pi_slot pid in pi_generation pid < sl_generation e \<or>
        pi_generation pid = sl_generation e \<and> sl_index e = None \<and> pi_slot pid \<notin> set (tb_free tb))"

text \<open>Slots that can never be used again.\<close>

definition exhausted :: "slot_table \<Rightarrow> nat set" where
  "exhausted tb = {s. s < length (tb_slots tb) \<and> Suc (sl_generation (tb_slots tb ! s)) = 2 ^ 32}"

lemma indexed_iff [simp]: "(pid, i) \<in> indexed ids \<longleftrightarrow> i < length ids \<and> ids ! i = pid"
  by (auto simp: indexed_def)

lemma names_new: "names table_new {}"
  by (simp add: names_def table_new_def)

lemma namesD:
  assumes "names tb L" "(pid, i) \<in> L"
  shows "pi_slot pid < length (tb_slots tb)"
    "tb_slots tb ! pi_slot pid = \<lparr>sl_generation = pi_generation pid, sl_index = Some i\<rparr>"
    "pi_generation pid < 2 ^ 32"
proof -
  show slot: "pi_slot pid < length (tb_slots tb)"
    "tb_slots tb ! pi_slot pid = \<lparr>sl_generation = pi_generation pid, sl_index = Some i\<rparr>"
    using assms by (auto simp: names_def)
  have "slot_fine L (set (tb_free tb)) (pi_slot pid) (tb_slots tb ! pi_slot pid)"
    using assms(1) slot(1) by (simp add: names_def)
  then show "pi_generation pid < 2 ^ 32" by (simp add: slot_fine_def slot(2))
qed

lemma names_slot_inj:
  assumes "names tb L" "(p, i) \<in> L" "(q, j) \<in> L" "pi_slot p = pi_slot q"
  shows "p = q \<and> i = j"
  using namesD [OF assms(1, 2)] namesD [OF assms(1, 3)] assms(4) by (cases p; cases q) auto

lemma resolves_iff:
  assumes "table_ok ids tb"
  shows "prepared_bucket_index ids tb pid = Some i \<longleftrightarrow> i < length ids \<and> ids ! i = pid"
proof
  assume "prepared_bucket_index ids tb pid = Some i"
  then show "i < length ids \<and> ids ! i = pid"
    by (auto simp: prepared_bucket_index_def split: option.splits if_splits)
next
  assume i: "i < length ids \<and> ids ! i = pid"
  then have "(pid, i) \<in> indexed ids" by simp
  from namesD [OF assms [unfolded table_ok_def] this] i show "prepared_bucket_index ids tb pid = Some i"
    by (simp add: prepared_bucket_index_def get_opt_def)
qed

lemma resolves_None_iff:
  assumes "table_ok ids tb"
  shows "prepared_bucket_index ids tb pid = None \<longleftrightarrow> pid \<notin> set ids"
  using resolves_iff [OF assms, of pid] by (cases "prepared_bucket_index ids tb pid") (auto simp: in_set_conv_nth)

lemma dead_unnamed:
  assumes "names tb L" "table_dead tb pid"
  shows "(pid, i) \<notin> L"
proof
  assume "(pid, i) \<in> L"
  from namesD [OF assms(1) this] assms(2) show False by (simp add: table_dead_def Let_def)
qed

lemma ids_distinct:
  assumes "table_ok ids tb"
  shows "distinct (map pi_slot ids)" "distinct ids"
proof -
  show "distinct (map pi_slot ids)"
    unfolding distinct_conv_nth
    using names_slot_inj [OF assms [unfolded table_ok_def]] by auto
  then show "distinct ids" by (simp add: distinct_map)
qed

subsection \<open>What the operations do\<close>

lemma slot_fine_cong:
  "(\<And>p i. pi_slot p = s \<Longrightarrow> (p, i) \<in> L' \<longleftrightarrow> (p, i) \<in> L) \<Longrightarrow> (s \<in> F' \<longleftrightarrow> s \<in> F) \<Longrightarrow>
     slot_fine L' F' s e = slot_fine L F s e"
  by (auto simp: slot_fine_def split: option.split)

lemma slot_fine_insert: "slot_fine L F s e \<Longrightarrow> slot_fine (insert x L) F s e"
  by (auto simp: slot_fine_def split: option.splits)

text \<open>Every operation rewrites one slot at a time.\<close>

lemma names_update:
  assumes names: "names tb L" and s: "s < length (tb_slots tb)"
    and L: "\<And>p i. pi_slot p \<noteq> s \<Longrightarrow> (p, i) \<in> L' \<longleftrightarrow> (p, i) \<in> L"
    and e: "\<And>p i. pi_slot p = s \<Longrightarrow> (p, i) \<in> L' \<Longrightarrow> e = \<lparr>sl_generation = pi_generation p, sl_index = Some i\<rparr>"
    and fine: "slot_fine L' (set fr) s e"
    and fr: "distinct fr" "\<And>x. x \<noteq> s \<Longrightarrow> x \<in> set fr \<longleftrightarrow> x \<in> set (tb_free tb)" "s \<in> set fr \<Longrightarrow> sl_index e = None"
  shows "names \<lparr>tb_slots = (tb_slots tb)[s := e], tb_free = fr\<rparr> L'"
proof -
  have "pi_slot p < length (tb_slots tb) \<and>
      (tb_slots tb)[s := e] ! pi_slot p = \<lparr>sl_generation = pi_generation p, sl_index = Some i\<rparr>" if "(p, i) \<in> L'" for p i
    using that L [of p i] e [of p i] s namesD [OF names, of p i] by (cases "pi_slot p = s") auto
  moreover have "slot_fine L' (set fr) x ((tb_slots tb)[s := e] ! x)" if "x < length (tb_slots tb)" for x
  proof (cases "x = s")
    case False
    then show ?thesis
      using names that slot_fine_cong [of x L' L "set fr" "set (tb_free tb)"] L fr(2) by (simp add: names_def)
  qed (use fine s in simp)
  moreover have "x < length (tb_slots tb) \<and> sl_index ((tb_slots tb)[s := e] ! x) = None" if "x \<in> set fr" for x
    using that fr names s by (cases "x = s") (auto simp: names_def)
  ultimately show ?thesis using names fr(1) by (auto simp: names_def)
qed

lemma names_append:
  assumes names: "names tb L" and len: "length (tb_slots tb) < 2 ^ 32"
  shows "names (tb\<lparr>tb_slots := tb_slots tb @ [\<lparr>sl_generation = 1, sl_index = Some n\<rparr>]\<rparr>)
    (insert (\<lparr>pi_slot = length (tb_slots tb), pi_generation = 1\<rparr>, n) L)"
proof -
  have L: "pi_slot p < length (tb_slots tb)" if "(p, i) \<in> L" for p i using namesD(1) [OF names that] .
  have "slot_fine (insert (\<lparr>pi_slot = length (tb_slots tb), pi_generation = 1\<rparr>, n) L) (set (tb_free tb)) s
      ((tb_slots tb @ [\<lparr>sl_generation = 1, sl_index = Some n\<rparr>]) ! s)" if "s < Suc (length (tb_slots tb))" for s
  proof (cases "s < length (tb_slots tb)")
    case True
    then have "slot_fine L (set (tb_free tb)) s (tb_slots tb ! s)" using names by (simp add: names_def)
    then show ?thesis using True by (auto simp: nth_append intro: slot_fine_insert)
  next
    case False
    then have "s = length (tb_slots tb)" using that by simp
    then show ?thesis by (auto simp: slot_fine_def)
  qed
  moreover have "\<forall>s \<in> set (tb_free tb). s < length (tb_slots tb)" using names by (simp add: names_def)
  ultimately show ?thesis using names len by (auto simp: names_def nth_append dest: L)
qed

lemma last_free:
  assumes "names tb L" "tb_free tb \<noteq> []"
  shows "last (tb_free tb) < length (tb_slots tb)" "sl_index (tb_slots tb ! last (tb_free tb)) = None"
    "last (tb_free tb) \<in> set (tb_free tb)" "distinct (butlast (tb_free tb))"
    "x \<in> set (butlast (tb_free tb)) \<longleftrightarrow> x \<in> set (tb_free tb) \<and> x \<noteq> last (tb_free tb)"
proof -
  obtain xs x where fr: "tb_free tb = xs @ [x]" using assms(2) by (metis append_butlast_last_id)
  then have "distinct (xs @ [x])" "\<forall>s \<in> set (xs @ [x]). s < length (tb_slots tb) \<and> sl_index (tb_slots tb ! s) = None"
    using assms(1) by (simp_all add: names_def)
  then show "last (tb_free tb) < length (tb_slots tb)" "sl_index (tb_slots tb ! last (tb_free tb)) = None"
    "last (tb_free tb) \<in> set (tb_free tb)" "distinct (butlast (tb_free tb))"
    "x \<in> set (butlast (tb_free tb)) \<longleftrightarrow> x \<in> set (tb_free tb) \<and> x \<noteq> last (tb_free tb)" for x
    by (auto simp: fr)
qed

text \<open>Both ways of allocating, in one statement each.\<close>

lemma allocate_reuse:
  assumes "names tb L" "tb_free tb \<noteq> []"
  shows "allocate_prepared_bucket_id n tb =
    (let s = last (tb_free tb); e = tb_slots tb ! s in
     (Inr \<lparr>pi_slot = s, pi_generation = sl_generation e\<rparr>,
      \<lparr>tb_slots = (tb_slots tb)[s := e\<lparr>sl_index := Some n\<rparr>], tb_free = butlast (tb_free tb)\<rparr>))"
  using last_free [OF assms] assms(2) by (cases tb) (simp add: allocate_prepared_bucket_id_def Let_def get_opt_def)

lemma allocate_names:
  assumes "names tb L" "allocate_prepared_bucket_id n tb = (Inr pid, tb')"
  shows "names tb' (insert (pid, n) L)" "(pid, i) \<notin> L" "\<not> table_dead tb pid"
proof -
  have "names tb' (insert (pid, n) L) \<and> (\<forall>i. (pid, i) \<notin> L) \<and> \<not> table_dead tb pid"
  proof (cases "tb_free tb = []")
    case True
    then have pid: "pid = \<lparr>pi_slot = length (tb_slots tb), pi_generation = 1\<rparr>"
      and tb': "tb' = tb\<lparr>tb_slots := tb_slots tb @ [\<lparr>sl_generation = 1, sl_index = Some n\<rparr>]\<rparr>"
      and len: "length (tb_slots tb) < 2 ^ 32"
      using assms(2) by (auto simp: allocate_prepared_bucket_id_def split: if_splits)
    show ?thesis
      using names_append [OF assms(1) len, of n] namesD(1) [OF assms(1), of pid] by (auto simp: pid tb' table_dead_def)
  next
    case False
    let ?s = "last (tb_free tb)" and ?e = "tb_slots tb ! last (tb_free tb)"
    have pid: "pid = \<lparr>pi_slot = ?s, pi_generation = sl_generation ?e\<rparr>"
      and tb': "tb' = \<lparr>tb_slots = (tb_slots tb)[?s := ?e\<lparr>sl_index := Some n\<rparr>], tb_free = butlast (tb_free tb)\<rparr>"
      using assms(2) unfolding allocate_reuse [OF assms(1) False] Let_def by auto
    have free: "(q, i) \<notin> L" if "pi_slot q = ?s" for q i
      using namesD(2) [OF assms(1), of q i] last_free(2) [OF assms(1) False] that by auto
    have "slot_fine L (set (tb_free tb)) ?s ?e"
      using assms(1) last_free(1) [OF assms(1) False] by (simp add: names_def)
    then have "slot_fine (insert (pid, n) L) (set (butlast (tb_free tb))) ?s (?e\<lparr>sl_index := Some n\<rparr>)"
      by (auto simp: slot_fine_def pid)
    then have "names tb' (insert (pid, n) L)"
      unfolding tb' using last_free [OF assms(1) False] free
      by (intro names_update [OF assms(1)]) (auto simp: pid)
    then show ?thesis using free last_free [OF assms(1) False] by (auto simp: pid table_dead_def)
  qed
  then show "names tb' (insert (pid, n) L)" "(pid, i) \<notin> L" "\<not> table_dead tb pid" by auto
qed

lemma allocate_error:
  assumes "names tb L" "allocate_prepared_bucket_id n tb = (Inl e, tb')"
  shows "tb' = tb"
proof (cases "tb_free tb = []")
  case True
  then show ?thesis using assms(2) by (auto simp: allocate_prepared_bucket_id_def split: if_splits)
next
  case False
  then show ?thesis using assms(2) unfolding allocate_reuse [OF assms(1) False] by (simp add: Let_def)
qed

lemma allocate_dead:
  assumes "names tb L" "allocate_prepared_bucket_id n tb = (r, tb')" "table_dead tb d"
  shows "table_dead tb' d"
proof (cases "tb_free tb = []")
  case True
  then show ?thesis using assms(2, 3)
    by (auto simp: allocate_prepared_bucket_id_def table_dead_def Let_def nth_append split: if_splits)
next
  case False
  then show ?thesis
    using assms(2, 3) last_free(1, 3) [OF assms(1) False] last_free(5) [OF assms(1) False, of "pi_slot d"]
    unfolding allocate_reuse [OF assms(1) False] Let_def table_dead_def
    by (cases "pi_slot d = last (tb_free tb)") auto
qed


lemma retire_eq:
  assumes "names tb L" "(pid, i) \<in> L"
  shows "retire_prepared_bucket_id pid tb =
    (if Suc (pi_generation pid) = 2 ^ 32
     then \<lparr>tb_slots = (tb_slots tb)[pi_slot pid := \<lparr>sl_generation = pi_generation pid, sl_index = None\<rparr>], tb_free = tb_free tb\<rparr>
     else \<lparr>tb_slots = (tb_slots tb)[pi_slot pid := \<lparr>sl_generation = Suc (pi_generation pid), sl_index = None\<rparr>],
           tb_free = tb_free tb @ [pi_slot pid]\<rparr>)"
  using namesD [OF assms]
  by (cases tb) (auto simp: retire_prepared_bucket_id_def get_opt_def checked_add_at_def)

lemma named_not_free: "names tb L \<Longrightarrow> (pid, i) \<in> L \<Longrightarrow> pi_slot pid \<notin> set (tb_free tb)"
  using namesD(2) [of tb L pid i] by (auto simp: names_def)

lemma retire_names:
  assumes "names tb L" "(pid, i) \<in> L"
  shows "names (retire_prepared_bucket_id pid tb) (L - {(pid, i)})"
proof -
  note slot = namesD [OF assms]
  have only: "q = pid \<and> j = i" if "(q, j) \<in> L" "pi_slot q = pi_slot pid" for q j
    using names_slot_inj [OF assms(1) that(1) assms(2) that(2)] .
  have "slot_fine L (set (tb_free tb)) (pi_slot pid) (tb_slots tb ! pi_slot pid)"
    using assms(1) slot(1) by (simp add: names_def)
  then have gen: "1 \<le> pi_generation pid" by (simp add: slot_fine_def slot(2))
  have free: "distinct (tb_free tb)" using assms(1) by (simp add: names_def)
  show ?thesis
  proof (cases "Suc (pi_generation pid) = 2 ^ 32")
    case True
    then show ?thesis
      unfolding retire_eq [OF assms] if_P [OF True] using slot gen free named_not_free [OF assms] only
      by (intro names_update [OF assms(1)]) (auto simp: slot_fine_def)
  next
    case False
    then show ?thesis
      unfolding retire_eq [OF assms] if_not_P [OF False] using slot gen free named_not_free [OF assms] only
      by (intro names_update [OF assms(1)]) (auto simp: slot_fine_def)
  qed
qed

lemma retire_dead:
  assumes "names tb L" "(pid, i) \<in> L"
  shows "table_dead (retire_prepared_bucket_id pid tb) pid"
    and "table_dead tb d \<Longrightarrow> table_dead (retire_prepared_bucket_id pid tb) d"
  using namesD [OF assms] named_not_free [OF assms]
  by (auto simp: retire_eq [OF assms] table_dead_def Let_def nth_list_update)

text \<open>Repairing writes the new index into the slot of every listed handle and nothing else.\<close>

lemma repair_loop_eq:
  assumes "distinct (map pi_slot ids)"
    "\<And>p. p \<in> set ids \<Longrightarrow> pi_slot p < length (tb_slots tb) \<and> sl_generation (tb_slots tb ! pi_slot p) = pi_generation p"
  shows "tb_free (repair_loop n ids tb) = tb_free tb \<and> length (tb_slots (repair_loop n ids tb)) = length (tb_slots tb) \<and>
    (\<forall>s. s \<notin> pi_slot ` set ids \<longrightarrow> tb_slots (repair_loop n ids tb) ! s = tb_slots tb ! s) \<and>
    (\<forall>j < length ids. tb_slots (repair_loop n ids tb) ! pi_slot (ids ! j) =
       \<lparr>sl_generation = pi_generation (ids ! j), sl_index = Some (n + j)\<rparr>)"
  using assms
proof (induction ids arbitrary: n tb)
  case (Cons p ids)
  let ?tb = "tb\<lparr>tb_slots := (tb_slots tb)[pi_slot p := (tb_slots tb ! pi_slot p)\<lparr>sl_index := Some n\<rparr>]\<rparr>"
  have p: "pi_slot p < length (tb_slots tb)" "sl_generation (tb_slots tb ! pi_slot p) = pi_generation p"
    using Cons.prems(2) [of p] by simp_all
  then have step: "repair_loop n (p # ids) tb = repair_loop (Suc n) ids ?tb" by (simp add: get_opt_def)
  have "pi_slot q < length (tb_slots ?tb) \<and> sl_generation (tb_slots ?tb ! pi_slot q) = pi_generation q" if "q \<in> set ids" for q
    using Cons.prems(2) [of q] that p by (auto simp: nth_list_update)
  note IH = Cons.IH [of ?tb "Suc n", OF _ this]
  show ?case unfolding step
    using IH Cons.prems(1) p by (auto simp: nth_list_update nth_Cons split: nat.split)
qed simp


lemma nth_swap_remove_eq:
  "i < length xs \<Longrightarrow> j < length xs - 1 \<Longrightarrow> swap_remove xs i ! j = xs ! (if j = i then length xs - 1 else j)"
  by (cases "xs = []") (simp_all add: nth_swap_remove last_conv_nth)

lemma swap_remove_to:
  assumes "i < length xs" "k < length xs" "k \<noteq> i"
  shows "\<exists>j < length (swap_remove xs i). swap_remove xs i ! j = xs ! k"
  using assms by (intro exI [of _ "if k = length xs - 1 then i else k"]) (auto simp: nth_swap_remove_eq)

lemma swap_remove_from:
  assumes "i < length xs" "j < length (swap_remove xs i)"
  shows "\<exists>k < length xs. k \<noteq> i \<and> swap_remove xs i ! j = xs ! k \<and> (j < i \<longrightarrow> k = j)"
  using assms by (intro exI [of _ "if j = i then length xs - 1 else j"]) (auto simp: nth_swap_remove_eq)

lemma distinct_swap_remove:
  assumes "distinct xs" "i < length xs"
  shows "distinct (swap_remove xs i)"
  unfolding distinct_conv_nth using assms by (auto simp: nth_swap_remove_eq nth_eq_iff_index_eq)

lemma map_swap_remove: "i < length xs \<Longrightarrow> map f (swap_remove xs i) = swap_remove (map f xs) i"
  by (intro nth_equalityI) (auto simp: nth_swap_remove_eq)

text \<open>Giving the same handles new bucket indices.\<close>

lemma names_reindex:
  assumes names: "names tb L" and same: "\<And>p. (\<exists>i. (p, i) \<in> L) \<longleftrightarrow> (\<exists>j. (p, j) \<in> L')"
    and len: "length (tb_slots tb') = length (tb_slots tb)" and free: "tb_free tb' = tb_free tb"
    and new: "\<And>p j. (p, j) \<in> L' \<Longrightarrow> tb_slots tb' ! pi_slot p = \<lparr>sl_generation = pi_generation p, sl_index = Some j\<rparr>"
    and keep: "\<And>s. s \<notin> pi_slot ` fst ` L \<Longrightarrow> tb_slots tb' ! s = tb_slots tb ! s"
  shows "names tb' L'" and "table_dead tb d \<Longrightarrow> table_dead tb' d" and "exhausted tb' = exhausted tb"
proof -
  have slot: "pi_slot p < length (tb_slots tb') \<and> sl_generation (tb_slots tb ! pi_slot p) = pi_generation p \<and>
      sl_index (tb_slots tb ! pi_slot p) \<noteq> None" if "(p, j) \<in> L'" for p j
    using that same namesD [OF names] len by (metis option.distinct(1) prepared_slot.select_convs)
  have named: "(\<exists>p j. (p, j) \<in> L' \<and> s = pi_slot p) \<or> (s \<notin> pi_slot ` fst ` L \<and> tb_slots tb' ! s = tb_slots tb ! s)" for s
    using keep [of s] same by force
  have fine: "slot_fine L' (set (tb_free tb')) s (tb_slots tb' ! s)" if s: "s < length (tb_slots tb')" for s
  proof -
    have old: "slot_fine L (set (tb_free tb)) s (tb_slots tb ! s)" using names s len by (simp add: names_def)
    show ?thesis
      using named [of s]
    proof (elim disjE exE conjE)
      fix p j assume p: "(p, j) \<in> L'" "s = pi_slot p"
      show ?thesis using old slot [OF p(1)] new [OF p(1)] p by (auto simp: slot_fine_def)
    next
      assume "s \<notin> pi_slot ` fst ` L" "tb_slots tb' ! s = tb_slots tb ! s"
      then show ?thesis using old free by (force simp: slot_fine_def split: option.splits)
    qed
  qed
  have unindexed: "tb_slots tb' ! s = tb_slots tb ! s" if "sl_index (tb_slots tb ! s) = None" for s
    using named [of s] that by (auto dest: slot)
  have "\<forall>s \<in> set (tb_free tb'). s < length (tb_slots tb') \<and> sl_index (tb_slots tb' ! s) = None"
    using names free len unindexed by (simp add: names_def)
  then show "names tb' L'" using names slot new fine free len by (auto simp: names_def)
  have "sl_generation (tb_slots tb' ! s) = sl_generation (tb_slots tb ! s)" for s
    using named [of s] by (auto simp: slot new)
  then show "exhausted tb' = exhausted tb" and "table_dead tb d \<Longrightarrow> table_dead tb' d"
    using len free unindexed by (auto simp: table_dead_def exhausted_def Let_def)
qed

lemma repair_names:
  assumes names: "names tb (indexed ids - {(ids ! i, i)})" and i: "i < length ids" and dist: "distinct (map pi_slot ids)"
  shows "names (repair_prepared_bucket_indices_from i (swap_remove ids i) tb) (indexed (swap_remove ids i))"
    and "table_dead tb d \<Longrightarrow> table_dead (repair_prepared_bucket_indices_from i (swap_remove ids i) tb) d"
    and "exhausted (repair_prepared_bucket_indices_from i (swap_remove ids i) tb) = exhausted tb"
    and "length (tb_slots (repair_prepared_bucket_indices_from i (swap_remove ids i) tb)) = length (tb_slots tb)"
proof -
  let ?ids = "swap_remove ids i" and ?L = "indexed ids - {(ids ! i, i)}"
  let ?tb = "repair_prepared_bucket_indices_from i ?ids tb"
  have live: "\<exists>k. (?ids ! j, k) \<in> ?L \<and> (j < i \<longrightarrow> k = j)" if "j < length ?ids" for j
    using swap_remove_from [OF i that] by auto
  have dist': "distinct (map pi_slot ?ids)" by (simp add: map_swap_remove i distinct_swap_remove dist)
  have tail: "\<exists>k. (p, k) \<in> ?L" if p: "p \<in> set (drop i ?ids)" for p
    using in_set_dropD [OF p] live by (auto simp: in_set_conv_nth simp del: length_swap_remove indexed_iff)
  have slot: "pi_slot p < length (tb_slots tb) \<and> sl_generation (tb_slots tb ! pi_slot p) = pi_generation p"
    if p: "p \<in> set (drop i ?ids)" for p
    using tail [OF p] namesD [OF names] by fastforce
  have eq: "tb_free ?tb = tb_free tb" "length (tb_slots ?tb) = length (tb_slots tb)"
    and keep: "\<And>s. s \<notin> pi_slot ` set (drop i ?ids) \<Longrightarrow> tb_slots ?tb ! s = tb_slots tb ! s"
    and new: "\<And>j. j < length (drop i ?ids) \<Longrightarrow> tb_slots ?tb ! pi_slot (drop i ?ids ! j) =
        \<lparr>sl_generation = pi_generation (drop i ?ids ! j), sl_index = Some (i + j)\<rparr>"
    using repair_loop_eq [of "drop i ?ids" tb i] slot dist'
    unfolding repair_prepared_bucket_indices_from_def drop_map [symmetric] by (blast intro: distinct_drop)+
  have entry: "tb_slots ?tb ! pi_slot p = \<lparr>sl_generation = pi_generation p, sl_index = Some j\<rparr>"
    if "(p, j) \<in> indexed ?ids" for p j
  proof (cases "j < i")
    case True
    have p: "p = ?ids ! j" "j < length ?ids" using that by auto
    have "pi_slot p \<notin> pi_slot ` set (drop i ?ids)"
      using dist' True p by (auto simp: in_set_conv_nth distinct_conv_nth simp del: length_swap_remove)
    moreover have "(p, j) \<in> ?L" using live [OF p(2)] True p(1) by blast
    ultimately show ?thesis using keep [of "pi_slot p"] namesD(2) [OF names, of p j] by presburger
  next
    case False
    then show ?thesis using new [of "j - i"] that by (auto simp del: length_swap_remove)
  qed
  have same: "(\<exists>k. (p, k) \<in> ?L) \<longleftrightarrow> (\<exists>j. (p, j) \<in> indexed ?ids)" for p
    using live swap_remove_to [OF i] by (auto simp del: length_swap_remove)
  have "p \<in> fst ` ?L" if p: "p \<in> set (drop i ?ids)" for p using tail [OF p] by force
  then have "pi_slot ` set (drop i ?ids) \<subseteq> pi_slot ` fst ` ?L" by blast
  then have "tb_slots ?tb ! s = tb_slots tb ! s" if "s \<notin> pi_slot ` fst ` ?L" for s using keep that by blast
  from names_reindex [OF names same eq(2, 1) entry this]
  show "names ?tb (indexed ?ids)" "table_dead tb d \<Longrightarrow> table_dead ?tb d" "exhausted ?tb = exhausted tb" by blast+
  show "length (tb_slots ?tb) = length (tb_slots tb)" by (rule eq)
qed


lemma remove_ok:
  assumes ok: "table_ok ids tb" and i: "i < length ids"
  shows "table_ok (swap_remove ids i) (table_remove i ids tb)"
    and "table_dead (table_remove i ids tb) (ids ! i)"
    and "table_dead tb d \<Longrightarrow> table_dead (table_remove i ids tb) d"
proof -
  let ?ids = "swap_remove ids i"
  have live: "(ids ! i, i) \<in> indexed ids" using i by simp
  note names = retire_names [OF ok [unfolded table_ok_def] live]
  note repair = repair_names [OF names i ids_distinct(1) [OF ok]]
  note dead = retire_dead [OF ok [unfolded table_ok_def] live]
  have "table_ok ?ids (table_remove i ids tb) \<and> table_dead (table_remove i ids tb) (ids ! i) \<and>
    (table_dead tb d \<longrightarrow> table_dead (table_remove i ids tb) d)"
  proof (cases "i < length ?ids")
    case True
    then show ?thesis using repair dead by (simp add: table_remove_def Let_def table_ok_def)
  next
    case False
    then have last: "i = length ids - 1" using i by simp
    have "indexed ids - {(ids ! i, i)} = indexed ?ids"
      using i unfolding last by (auto simp: nth_swap_remove_eq) (metis One_nat_def Suc_pred less_SucE length_pos_if_in_set nth_mem)
    then show ?thesis using names dead False by (simp add: table_remove_def Let_def table_ok_def)
  qed
  then show "table_ok ?ids (table_remove i ids tb)" "table_dead (table_remove i ids tb) (ids ! i)"
    "table_dead tb d \<Longrightarrow> table_dead (table_remove i ids tb) d" by blast+
qed

lemma retire_all:
  assumes "names tb L" "set ids \<subseteq> fst ` L" "distinct ids"
  shows "names (fold retire_prepared_bucket_id ids tb) {x \<in> L. fst x \<notin> set ids} \<and>
    (\<forall>d. table_dead tb d \<or> d \<in> set ids \<longrightarrow> table_dead (fold retire_prepared_bucket_id ids tb) d)"
  using assms
proof (induction ids arbitrary: tb L)
  case Nil
  then show ?case by simp
next
  case (Cons p ids)
  obtain i where i: "(p, i) \<in> L" using Cons.prems(2) by auto
  have only: "j = i" if "(p, j) \<in> L" for j using names_slot_inj [OF Cons.prems(1) that i] by blast
  have sub: "set ids \<subseteq> fst ` (L - {(p, i)})" using Cons.prems(2, 3) by force
  have "{x \<in> L. fst x \<notin> set (p # ids)} = {x \<in> L - {(p, i)}. fst x \<notin> set ids}" by (auto dest: only)
  moreover have "table_dead tb d \<or> d = p \<Longrightarrow> table_dead (retire_prepared_bucket_id p tb) d" for d
    using retire_dead [OF Cons.prems(1) i] by blast
  ultimately show ?case
    using Cons.IH [OF retire_names [OF Cons.prems(1) i] sub] Cons.prems(3) by simp
qed

lemma clear_ok:
  assumes "table_ok ids tb"
  shows "table_ok [] (table_clear ids tb)" "table_dead tb d \<or> d \<in> set ids \<Longrightarrow> table_dead (table_clear ids tb) d"
proof -
  have "set ids \<subseteq> fst ` indexed ids" by (force simp: in_set_conv_nth indexed_def)
  moreover have "{x \<in> indexed ids. fst x \<notin> set ids} = indexed []" by (auto simp: indexed_def)
  ultimately show "table_ok [] (table_clear ids tb)" "table_dead tb d \<or> d \<in> set ids \<Longrightarrow> table_dead (table_clear ids tb) d"
    using retire_all [OF assms [unfolded table_ok_def] _ ids_distinct(2) [OF assms]]
    by (auto simp: table_ok_def table_clear_def)
qed

lemma allocate_ok:
  assumes "table_ok ids tb" "allocate_prepared_bucket_id (length ids) tb = (Inr pid, tb')"
  shows "table_ok (ids @ [pid]) tb'" "pid \<notin> set ids" "\<not> table_dead tb pid"
proof -
  note new = allocate_names [OF assms(1) [unfolded table_ok_def] assms(2)]
  have "indexed (ids @ [pid]) = insert (pid, length ids) (indexed ids)"
    by (auto simp: nth_append)
  then show "table_ok (ids @ [pid]) tb'" "pid \<notin> set ids" "\<not> table_dead tb pid"
    using new by (auto simp: table_ok_def in_set_conv_nth)
qed


subsection \<open>How many slots there can be\<close>

definition table_room :: "nat \<Rightarrow> slot_table \<Rightarrow> bool" where
  "table_room m tb \<longleftrightarrow> length (tb_slots tb) \<le> m + card (exhausted tb)"

lemma finite_exhausted [simp]: "finite (exhausted tb)"
  by (rule finite_subset [of _ "{..<length (tb_slots tb)}"]) (auto simp: exhausted_def)

lemma room_mono:
  "table_room m tb \<Longrightarrow> length (tb_slots tb') = length (tb_slots tb) \<Longrightarrow> exhausted tb \<subseteq> exhausted tb' \<Longrightarrow> table_room m tb'"
  unfolding table_room_def using card_mono [OF finite_exhausted, of "exhausted tb" tb'] by linarith

lemma retire_exhausted:
  assumes "names tb L" "(pid, i) \<in> L"
  shows "exhausted tb \<subseteq> exhausted (retire_prepared_bucket_id pid tb)"
    "length (tb_slots (retire_prepared_bucket_id pid tb)) = length (tb_slots tb)"
  using namesD [OF assms] by (auto simp: retire_eq [OF assms] exhausted_def nth_list_update)

lemma remove_room:
  assumes ok: "table_ok ids tb" and i: "i < length ids" and room: "table_room m tb"
  shows "table_room m (table_remove i ids tb)"
proof -
  have live: "(ids ! i, i) \<in> indexed ids" using i by simp
  note names = retire_names [OF ok [unfolded table_ok_def] live]
  note retire = room_mono [OF room retire_exhausted(2, 1) [OF ok [unfolded table_ok_def] live]]
  show ?thesis
    using retire repair_names(3, 4) [OF names i ids_distinct(1) [OF ok]]
    by (auto simp: table_remove_def Let_def intro: room_mono)
qed

lemma retire_all_room:
  "names tb L \<Longrightarrow> set ids \<subseteq> fst ` L \<Longrightarrow> distinct ids \<Longrightarrow> table_room m tb \<Longrightarrow>
     table_room m (fold retire_prepared_bucket_id ids tb)"
proof (induction ids arbitrary: tb L)
  case (Cons p ids)
  obtain i where i: "(p, i) \<in> L" using Cons.prems(2) by auto
  have "set ids \<subseteq> fst ` (L - {(p, i)})" using Cons.prems(2, 3) by force
  then show ?case
    using Cons.IH [OF retire_names [OF Cons.prems(1) i]] Cons.prems(3, 4)
      room_mono [OF _ retire_exhausted(2, 1) [OF Cons.prems(1) i]] by simp
qed simp

lemma clear_room: "table_ok ids tb \<Longrightarrow> table_room m tb \<Longrightarrow> table_room m (table_clear ids tb)"
  unfolding table_clear_def table_ok_def
  by (rule retire_all_room) (force simp: in_set_conv_nth indexed_def ids_distinct table_ok_def)+

lemma full_table:
  assumes "table_ok ids tb" "tb_free tb = []"
  shows "length (tb_slots tb) \<le> length ids + card (exhausted tb)"
proof -
  have "{..<length (tb_slots tb)} \<subseteq> set (map pi_slot ids) \<union> exhausted tb"
  proof
    fix s assume "s \<in> {..<length (tb_slots tb)}"
    then have s: "s < length (tb_slots tb)" by simp
    then have "slot_fine (indexed ids) {} s (tb_slots tb ! s)" using assms by (simp add: table_ok_def names_def)
    then show "s \<in> set (map pi_slot ids) \<union> exhausted tb"
      using s by (auto simp: slot_fine_def exhausted_def split: option.splits)
  qed
  then have "card {..<length (tb_slots tb)} \<le> card (set (map pi_slot ids) \<union> exhausted tb)" by (intro card_mono) auto
  also have "\<dots> \<le> length ids + card (exhausted tb)"
    using card_Un_le [of "set (map pi_slot ids)" "exhausted tb"] card_length [of "map pi_slot ids"] by simp
  finally show ?thesis by simp
qed

lemma allocate_room:
  assumes ok: "table_ok ids tb" and "length ids < m" "table_room m tb" "allocate_prepared_bucket_id n tb = (r, tb')"
  shows "table_room m tb'"
proof (cases "tb_free tb = []")
  case True
  show ?thesis
  proof (cases "2 ^ 32 \<le> length (tb_slots tb)")
    case False
    then have tb': "tb' = tb\<lparr>tb_slots := tb_slots tb @ [\<lparr>sl_generation = 1, sl_index = Some n\<rparr>]\<rparr>"
      using assms(4) True by (auto simp: allocate_prepared_bucket_id_def)
    have "exhausted tb \<subseteq> exhausted tb'" by (auto simp: tb' exhausted_def nth_append)
    then have "card (exhausted tb) \<le> card (exhausted tb')" by (intro card_mono) auto
    then show ?thesis using full_table [OF ok True] assms(2) by (simp add: table_room_def tb')
  qed (use assms True in \<open>auto simp: allocate_prepared_bucket_id_def\<close>)
next
  case False
  have "exhausted tb \<subseteq> exhausted tb' \<and> length (tb_slots tb') = length (tb_slots tb)"
    using assms(4) unfolding allocate_reuse [OF ok [unfolded table_ok_def] False]
    by (auto simp: Let_def exhausted_def nth_list_update last_free(1) [OF ok [unfolded table_ok_def] False])
  then show ?thesis using room_mono [OF assms(3)] by blast
qed

subsection \<open>The interface to the runtime\<close>

text \<open>
  What the runtime needs of a handle table: handles resolve to the position of their bucket
  whatever buckets are added and removed, and one that was removed stays unresolvable.
\<close>

locale handle_table =
  fixes ok :: "'h list \<Rightarrow> 't \<Rightarrow> bool" and dead :: "'t \<Rightarrow> 'h \<Rightarrow> bool"
    and resolve :: "'h list \<Rightarrow> 't \<Rightarrow> 'h \<Rightarrow> nat option"
    and add :: "nat \<Rightarrow> 't \<Rightarrow> ('e + 'h) \<times> 't" and remove :: "nat \<Rightarrow> 'h list \<Rightarrow> 't \<Rightarrow> 't"
    and clear :: "'h list \<Rightarrow> 't \<Rightarrow> 't"
  assumes resolve: "ok hs t \<Longrightarrow> resolve hs t h = Some i \<longleftrightarrow> i < length hs \<and> hs ! i = h"
    and dead: "ok hs t \<Longrightarrow> dead t h \<Longrightarrow> h \<notin> set hs"
    and distinct: "ok hs t \<Longrightarrow> distinct hs"
    and add: "ok hs t \<Longrightarrow> add (length hs) t = (Inr h, t') \<Longrightarrow> ok (hs @ [h]) t' \<and> h \<notin> set hs \<and> \<not> dead t h"
    and add_error: "ok hs t \<Longrightarrow> add (length hs) t = (Inl e, t') \<Longrightarrow> t' = t"
    and add_dead: "ok hs t \<Longrightarrow> add (length hs) t = (r, t') \<Longrightarrow> dead t d \<Longrightarrow> dead t' d"
    and remove: "ok hs t \<Longrightarrow> i < length hs \<Longrightarrow> ok (swap_remove hs i) (remove i hs t) \<and> dead (remove i hs t) (hs ! i)"
    and remove_dead: "ok hs t \<Longrightarrow> i < length hs \<Longrightarrow> dead t d \<Longrightarrow> dead (remove i hs t) d"
    and clear: "ok hs t \<Longrightarrow> ok [] (clear hs t)"
    and clear_dead: "ok hs t \<Longrightarrow> dead t d \<or> d \<in> set hs \<Longrightarrow> dead (clear hs t) d"
begin

lemma resolve_None: "ok hs t \<Longrightarrow> resolve hs t h = None \<longleftrightarrow> h \<notin> set hs"
  using resolve [of hs t h] by (cases "resolve hs t h") (auto simp: in_set_conv_nth)

lemma resolve_nth: "ok hs t \<Longrightarrow> i < length hs \<Longrightarrow> resolve hs t (hs ! i) = Some i"
  by (simp add: resolve)

lemma removed_stale: "ok hs t \<Longrightarrow> i < length hs \<Longrightarrow> resolve (swap_remove hs i) (remove i hs t) (hs ! i) = None"
  using remove [of hs t i] dead resolve_None by blast

lemma kept_resolves:
  assumes "ok hs t" "i < length hs" "h \<in> set hs" "h \<noteq> hs ! i"
  shows "\<exists>j. resolve (swap_remove hs i) (remove i hs t) h = Some j"
proof -
  obtain k where "k < length hs" "k \<noteq> i" "h = hs ! k" using assms(3, 4) by (auto simp: in_set_conv_nth)
  then obtain j where "j < length (swap_remove hs i)" "swap_remove hs i ! j = h" using swap_remove_to [OF assms(2)] by blast
  then show ?thesis using resolve [OF conjunct1 [OF remove [OF assms(1, 2)]]] by blast
qed

end

interpretation slots: handle_table table_ok table_dead prepared_bucket_index allocate_prepared_bucket_id
  table_remove table_clear
proof
  show "h \<notin> set hs" if "table_ok hs t" "table_dead t h" for hs t h
    using that dead_unnamed [of t "indexed hs" h] by (auto simp: table_ok_def in_set_conv_nth)
  show "t' = t" if "table_ok hs t" "allocate_prepared_bucket_id (length hs) t = (Inl e, t')" for hs t e t'
    using allocate_error [OF _ that(2)] that(1) by (simp add: table_ok_def)
  show "table_dead t' d" if "table_ok hs t" "allocate_prepared_bucket_id (length hs) t = (r, t')" "table_dead t d"
    for hs t r t' d
    using allocate_dead [OF _ that(2, 3)] that(1) by (simp add: table_ok_def)
qed (simp_all add: resolves_iff ids_distinct allocate_ok remove_ok clear_ok)


text \<open>
  A system whose handles name something: a handle keeps its name or dies, and a dead one names
  nothing ever again.
\<close>

locale handle_system = invariant_system init step inv
  for init :: "'s \<Rightarrow> bool" and step :: "'s \<Rightarrow> 's \<Rightarrow> bool" and inv :: "'s \<Rightarrow> bool" +
  fixes named :: "'s \<Rightarrow> 'h \<Rightarrow> 'k option" and dead :: "'s \<Rightarrow> 'h \<Rightarrow> bool"
  assumes keeps_name: "inv s \<Longrightarrow> step s t \<Longrightarrow> named s h = Some k \<Longrightarrow> named t h = Some k \<or> dead t h"
    and stays_dead: "inv s \<Longrightarrow> step s t \<Longrightarrow> dead s h \<Longrightarrow> dead t h"
    and dead_unnamed: "inv s \<Longrightarrow> dead s h \<Longrightarrow> named s h = None"
begin

lemma dead_forever: "step\<^sup>*\<^sup>* s t \<Longrightarrow> inv s \<Longrightarrow> dead s h \<Longrightarrow> dead t h"
proof (induction rule: rtranclp_induct)
  case (step t u)
  then show ?case using run_inv stays_dead by blast
qed

lemma name_or_dead: "step\<^sup>*\<^sup>* s t \<Longrightarrow> inv s \<Longrightarrow> named s h = Some k \<Longrightarrow> named t h = Some k \<or> dead t h"
proof (induction rule: rtranclp_induct)
  case (step t u)
  then show ?case using run_inv keeps_name stays_dead by blast
qed simp

lemma never_alias:
  assumes "inv s" "step\<^sup>*\<^sup>* s t" "step\<^sup>*\<^sup>* t u" "named s h = Some k"
  shows "named t h = Some k \<or> named t h = None" "named t h = None \<Longrightarrow> named u h = None"
proof -
  have inv: "inv t" "inv u" using assms run_inv by (blast, meson assms run_inv)
  note fate = name_or_dead [OF assms(2, 1, 4)]
  show "named t h = Some k \<or> named t h = None" using fate dead_unnamed [OF inv(1), of h] by auto
  show "named t h = None \<Longrightarrow> named u h = None"
    using fate dead_forever [OF assms(3) inv(1), of h] dead_unnamed [OF inv(2), of h] by auto
qed

end

end
