(* ===== verification/Dynamic_Runtime.thy ===== *)
theory Dynamic_Runtime
  imports Static_Runtime Shape_Plan Recovery Graph_Lease Bucket_Table Lane_Pool
begin

text \<open>
  st-zrt/src/runtime.rs, \<open>DynamicIoRuntime\<close>: a bounded cache of shape buckets, each a lane set
  for one concrete shape, with least-recently-used eviction, handles that survive it, owned runs
  that detach a lane from its bucket and bring it back, and the release of captured graphs.

  A call runs on the runtime and the world: the supply of lane keys, the provider's log, the
  process-wide graph id counter, and a record of what was destroyed, leaked and released, which
  no call reads. When a graph release, made by a thread of its own or at once if none can be
  spawned, has reported is a parameter.
\<close>

subsection \<open>State\<close>

type_synonym shapes = "int list list"

record ('i, 'o) shape_bucket =
  sb_key :: "shapes \<times> shapes"
  sb_id :: prepared_id
  sb_lanes :: "('i, 'o) lane list"
  sb_last_used :: nat
  sb_detached :: nat
  sb_graph_id :: "int option"

type_synonym ('i, 'o) owned_run = "('i, 'o) lane \<times> prepared_id"

record ('i, 'o) dynamic_runtime =
  dr_buckets :: "('i, 'o) shape_bucket list"
  dr_retired :: "('i, 'o) shape_bucket list"
  dr_recovery :: "('i, 'o) owned_run recovery_slots"
  dr_config :: runtime_config
  dr_plan :: "serving_shape_plan option"
  dr_hot :: "nat option"
  dr_table :: slot_table
  dr_tick :: nat

record ('i, 'o) world =
  wd_keys :: nat
  wd_log :: log
  wd_next_graph :: int
  wd_gone :: "('i, 'o) fate list"
  wd_released :: "int list"

record ('i, 'o) dyn_env =
  de_lane :: "('i, 'o) lane_env"
  de_cpu :: "tensor_error + memory_info"
  de_done :: "log \<Rightarrow> int \<Rightarrow> bool"

datatype dyn_error =
    Runtime_needs_lane
  | Runtime_needs_session
  | Options_rejected options_error
  | Recovery_capacity_overflow
  | Descriptor_failed tensor_error
  | Session_failed nat
  | Plan_too_late
  | Plan_too_large nat nat
  | Plan_arity
  | Plan_output_placement
  | Graph_needs_plan
  | Shape_rejected classify_error
  | Plan_invalid_id
  | Shape_not_canonical
  | Strict_miss
  | Creation_while_in_flight nat nat nat
  | Graph_cache_full
  | All_buckets_busy
  | Eviction_inconsistent
  | Build_failed build_error
  | Graph_ids_exhausted
  | Lane_failed lane_error
  | Capture_failed lane_error
  | Handle_failed table_error
  | Recovery_index_overflow
  | Not_prepared
  | Bucket_unavailable
  | Accounting_diverged
  | All_lanes_in_flight
  | Bucket_retired
  | Accounting_inconsistent
  | Clear_while_owned
  | Clear_unfenced
  | Lane_index nat
  | User_error nat

type_synonym ('i, 'o, 'r) dyn_op = "('i, 'o) dynamic_runtime \<times> ('i, 'o) world
    \<Rightarrow> ((dyn_error + 'r) \<times> ('i, 'o) dynamic_runtime \<times> ('i, 'o) world) run"

definition d_return :: "'r \<Rightarrow> ('i, 'o, 'r) dyn_op" where
  "d_return r = (\<lambda>(rt, w). Ret (Inr r, rt, w))"

definition d_fail :: "dyn_error \<Rightarrow> ('i, 'o, 'r) dyn_op" where
  "d_fail e = (\<lambda>(rt, w). Ret (Inl e, rt, w))"

definition d_bind :: "('i, 'o, 'a) dyn_op \<Rightarrow> ('a \<Rightarrow> ('i, 'o, 'b) dyn_op) \<Rightarrow> ('i, 'o, 'b) dyn_op" where
  "d_bind m f = (\<lambda>s. bind_run (m s) (\<lambda>(r, rt, w). case r of Inl e \<Rightarrow> Ret (Inl e, rt, w) | Inr a \<Rightarrow> f a (rt, w)))"

definition d_get :: "(('i, 'o) dynamic_runtime \<Rightarrow> ('i, 'o, 'r) dyn_op) \<Rightarrow> ('i, 'o, 'r) dyn_op" where
  "d_get f = (\<lambda>(rt, w). f rt (rt, w))"

definition d_set :: "(('i, 'o) dynamic_runtime \<Rightarrow> ('i, 'o) dynamic_runtime) \<Rightarrow> ('i, 'o, unit) dyn_op" where
  "d_set g = (\<lambda>(rt, w). Ret (Inr (), g rt, w))"

definition d_when :: "bool \<Rightarrow> ('i, 'o, unit) dyn_op \<Rightarrow> ('i, 'o, unit) dyn_op" where
  "d_when b m = (if b then m else d_return ())"

text \<open>A step on the world alone, which may panic but not fail.\<close>

definition d_world :: "(('i, 'o) world \<Rightarrow> ('r \<times> ('i, 'o) world) run) \<Rightarrow> ('i, 'o, 'r) dyn_op" where
  "d_world m = (\<lambda>(rt, w). bind_run (m w) (\<lambda>(r, w'). Ret (Inr r, rt, w')))"

definition d_check :: "dyn_error + 'r \<Rightarrow> ('i, 'o, 'r) dyn_op" where
  "d_check r = (\<lambda>(rt, w). Ret (r, rt, w))"

definition d_run :: "(dyn_error + 'r) run \<Rightarrow> ('i, 'o, 'r) dyn_op" where
  "d_run m = (\<lambda>(rt, w). bind_run m (\<lambda>r. Ret (r, rt, w)))"

definition d_try :: "('i, 'o, 'r) dyn_op \<Rightarrow> ('i, 'o, dyn_error + 'r) dyn_op" where
  "d_try m = (\<lambda>s. bind_run (m s) (\<lambda>(r, s). Ret (Inr r, s)))"

abbreviation bucket_ids :: "('i, 'o) dynamic_runtime \<Rightarrow> prepared_id list" where
  "bucket_ids rt \<equiv> map sb_id (dr_buckets rt)"

abbreviation options_of :: "('i, 'o) dynamic_runtime \<Rightarrow> dynamic_io_options" where
  "options_of rt \<equiv> cf_options (dr_config rt)"

abbreviation provider_of :: "('i, 'o) dyn_env \<Rightarrow> provider" where
  "provider_of env \<equiv> le_provider (de_lane env)"

text \<open>\<open>prepared_bucket_index\<close> of the runtime.\<close>

abbreviation bucket_index :: "('i, 'o) dynamic_runtime \<Rightarrow> prepared_id \<Rightarrow> nat option" where
  "bucket_index rt pid \<equiv> prepared_bucket_index (bucket_ids rt) (dr_table rt) pid"

definition set_bucket :: "nat \<Rightarrow> ('i, 'o) shape_bucket \<Rightarrow> ('i, 'o) dynamic_runtime \<Rightarrow> ('i, 'o) dynamic_runtime" where
  "set_bucket i b rt = rt\<lparr>dr_buckets := (dr_buckets rt)[i := b]\<rparr>"

text \<open>\<open>ShapeKey::matches\<close>; the shapes of a request are as many as the key's.\<close>

definition key_matches :: "shapes \<times> shapes \<Rightarrow> shapes \<Rightarrow> shapes \<Rightarrow> bool" where
  "key_matches key ins outs \<longleftrightarrow> list_all (\<lambda>(a, b). a = b) (zip (fst key) ins) \<and>
     list_all (\<lambda>(a, b). a = b) (zip (snd key) outs)"

subsection \<open>Lanes of a bucket\<close>

text \<open>A loop over the lanes with the world's log; fates of lanes that leave the runtime.\<close>

definition world_lanes :: "('i, 'o, unit) lane_op \<Rightarrow> ('i, 'o) lane list \<Rightarrow> ('i, 'o) world
    \<Rightarrow> ((lane_error + unit) \<times> ('i, 'o) lane list \<times> ('i, 'o) world) run" where
  "world_lanes m ls w = bind_run (for_lanes m (ls, wd_log w)) (\<lambda>(r, ls', t). Ret (r, ls', w\<lparr>wd_log := t\<rparr>))"

definition world_lane :: "('i, 'o, 'r) lane_op \<Rightarrow> ('i, 'o) lane \<Rightarrow> ('i, 'o) world
    \<Rightarrow> ((lane_error + 'r) \<times> ('i, 'o) lane \<times> ('i, 'o) world) run" where
  "world_lane m l w = bind_run (m (l, wd_log w)) (\<lambda>(r, l', t). Ret (r, l', w\<lparr>wd_log := t\<rparr>))"

definition forget :: "('i, 'o) lane list \<Rightarrow> ('i, 'o) world \<Rightarrow> ('i, 'o) world" where
  "forget ls w = w\<lparr>wd_gone := wd_gone w @ map Leaked ls\<rparr>"

fun drop_lanes :: "provider \<Rightarrow> ('i, 'o) lane list \<Rightarrow> ('i, 'o) world \<Rightarrow> ('i, 'o) world run" where
  "drop_lanes pv [] w = Ret w"
| "drop_lanes pv (l # ls) w = bind_run (lane_drop pv (l, wd_log w)) (\<lambda>(f, t).
     drop_lanes pv ls (w\<lparr>wd_log := t, wd_gone := wd_gone w @ [f]\<rparr>))"

fun drop_buckets :: "provider \<Rightarrow> ('i, 'o) shape_bucket list \<Rightarrow> ('i, 'o) world \<Rightarrow> ('i, 'o) world run" where
  "drop_buckets pv [] w = Ret w"
| "drop_buckets pv (b # bs) w = bind_run (drop_lanes pv (sb_lanes b) w) (drop_buckets pv bs)"

subsection \<open>Reclaiming the lanes of dropped runs\<close>

text \<open>
  The loop pops at most as often as there are recovery cells; with the initial fuel it never runs
  out (\<open>reclaim_returns\<close>).
\<close>

fun reclaim_loop :: "nat \<Rightarrow> nat \<Rightarrow> ('i, 'o) dynamic_runtime \<times> ('i, 'o) world
    \<Rightarrow> (nat \<times> ('i, 'o) dynamic_runtime \<times> ('i, 'o) world) run" where
  "reclaim_loop 0 n s = Panic"
| "reclaim_loop (Suc fuel) n (rt, w) = bind_run (pop_ready (dr_recovery rt)) (\<lambda>(slot, cells).
     case slot of None \<Rightarrow> Ret (n, rt\<lparr>dr_recovery := cells\<rparr>, w)
     | Some i \<Rightarrow> bind_run (index_run (rs_value cells) i) (\<lambda>_.
         let (recovered, cells) = cell_take i cells; rt = rt\<lparr>dr_recovery := cells\<rparr> in
         case recovered of None \<Rightarrow> reclaim_loop fuel n (rt, w)
         | Some (lane, pid) \<Rightarrow>
             (case bucket_index rt pid of None \<Rightarrow> reclaim_loop fuel n (rt, forget [lane] w)
              | Some k \<Rightarrow>
                  (case get_opt (dr_buckets rt) k of None \<Rightarrow> reclaim_loop fuel n (rt, forget [lane] w)
                   | Some b \<Rightarrow>
                       if sb_detached b = 0 then reclaim_loop fuel n (rt, forget [lane] w)
                       else reclaim_loop fuel (Suc n)
                         (set_bucket k (b\<lparr>sb_detached := sb_detached b - 1, sb_lanes := sb_lanes b @ [lane]\<rparr>) rt, w)))))"

definition reclaim_dropped_runs :: "('i, 'o, nat) dyn_op" where
  "reclaim_dropped_runs = (\<lambda>(rt, w).
     bind_run (reclaim_loop (Suc (length (rs_value (dr_recovery rt)))) 0 (rt, w)) (\<lambda>(n, rt', w'). Ret (Inr n, rt', w')))"

subsection \<open>Retiring buckets\<close>

definition release_captured_graph :: "int \<Rightarrow> ('i, 'o) world \<Rightarrow> ('i, 'o) world" where
  "release_captured_graph gid w = w\<lparr>wd_released := wd_released w @ [gid]\<rparr>"

fun drain_loop :: "provider \<Rightarrow> ('i, 'o) shape_bucket list \<Rightarrow> ('i, 'o) world
    \<Rightarrow> ((bool \<times> int list) \<times> ('i, 'o) world) run" where
  "drain_loop pv [] w = Ret ((True, []), w)"
| "drain_loop pv (b # bs) w =
     bind_run (world_lanes (finish_in_flight_best_effort pv) (sb_lanes b) w) (\<lambda>(_, lanes, w).
       if list_ex ln_in_flight lanes
       then bind_run (drain_loop pv bs (forget lanes w)) (\<lambda>((_, gids), w). Ret ((False, gids), w))
       else bind_run (drop_lanes pv lanes w) (\<lambda>w.
         bind_run (drain_loop pv bs w) (\<lambda>((fenced, gids), w).
           Ret ((fenced, (if sb_detached b = 0 then case sb_graph_id b of Some gid \<Rightarrow> [gid] | None \<Rightarrow> [] else []) @ gids), w))))"

definition drain_active_buckets_and_release_graphs :: "('i, 'o) dyn_env \<Rightarrow> ('i, 'o, bool) dyn_op" where
  "drain_active_buckets_and_release_graphs env = d_get (\<lambda>rt.
     d_bind (d_set (\<lambda>rt. rt\<lparr>dr_table := table_clear (bucket_ids rt) (dr_table rt), dr_buckets := []\<rparr>)) (\<lambda>_.
     d_bind (d_world (drain_loop (provider_of env) (dr_buckets rt))) (\<lambda>(fenced, gids).
     d_bind (d_world (\<lambda>w. Ret ((), fold release_captured_graph gids w))) (\<lambda>_. d_return fenced))))"

text \<open>
  The retired bucket is kept with its graph id until the release has reported.
\<close>

definition retire_bucket_at :: "('i, 'o) dyn_env \<Rightarrow> nat \<Rightarrow> ('i, 'o, bool) dyn_op" where
  "retire_bucket_at env i = d_get (\<lambda>rt. d_bind (d_run (bind_run (index_run (dr_buckets rt) i) (Ret \<circ> Inr))) (\<lambda>b.
     if sb_detached b \<noteq> 0 then d_return False
     else d_bind (d_world (\<lambda>w. bind_run (world_lanes (finish_in_flight_best_effort (provider_of env)) (sb_lanes b) w)
         (\<lambda>(_, lanes, w). Ret (lanes, w)))) (\<lambda>lanes.
       d_bind (d_set (\<lambda>rt. rt\<lparr>dr_table := table_remove i (bucket_ids rt) (dr_table rt),
           dr_buckets := swap_remove (dr_buckets rt) i\<rparr>)) (\<lambda>_.
       if list_ex ln_in_flight lanes
       then d_bind (d_world (\<lambda>w. Ret ((), forget lanes w))) (\<lambda>_. d_return True)
       else case sb_graph_id b of
         Some gid \<Rightarrow>
           d_bind (d_world (\<lambda>w. Ret ((), release_captured_graph gid w))) (\<lambda>_.
           d_bind (d_set (\<lambda>rt. rt\<lparr>dr_retired := dr_retired rt @ [b\<lparr>sb_lanes := lanes\<rparr>]\<rparr>)) (\<lambda>_. d_return True))
       | None \<Rightarrow> d_bind (d_world (\<lambda>w. bind_run (drop_lanes (provider_of env) lanes w) (\<lambda>w. Ret ((), w))))
           (\<lambda>_. d_return True)))))"

definition release_reported :: "('i, 'o) dyn_env \<Rightarrow> log \<Rightarrow> ('i, 'o) shape_bucket \<Rightarrow> bool" where
  "release_reported env t b = (case sb_graph_id b of None \<Rightarrow> True | Some gid \<Rightarrow> de_done env t gid)"

text \<open>\<open>while i < retired.len()\<close>; each turn removes an element or advances.\<close>

fun reap_loop :: "('i, 'o) dyn_env \<Rightarrow> nat \<Rightarrow> nat \<Rightarrow> ('i, 'o) shape_bucket list \<Rightarrow> ('i, 'o) world
    \<Rightarrow> (('i, 'o) shape_bucket list \<times> ('i, 'o) world) run" where
  "reap_loop env 0 i bs w = Ret (bs, w)"
| "reap_loop env (Suc n) i bs w = bind_run (index_run bs i) (\<lambda>b.
     if release_reported env (wd_log w) b
     then bind_run (drop_lanes (provider_of env) (sb_lanes b) w) (reap_loop env n i (swap_remove bs i))
     else reap_loop env n (Suc i) bs w)"

definition reap_retired_buckets :: "('i, 'o) dyn_env \<Rightarrow> ('i, 'o, unit) dyn_op" where
  "reap_retired_buckets env = (\<lambda>(rt, w).
     bind_run (reap_loop env (length (dr_retired rt)) 0 (dr_retired rt) w) (\<lambda>(bs, w). Ret (Inr (), rt\<lparr>dr_retired := bs\<rparr>, w)))"

text \<open>Every release thread reports or is gone in the end, so the waits return.\<close>

definition wait_for_retired_buckets :: "('i, 'o) dyn_env \<Rightarrow> ('i, 'o, unit) dyn_op" where
  "wait_for_retired_buckets env = d_get (\<lambda>rt.
     d_bind (d_set (\<lambda>rt. rt\<lparr>dr_retired := []\<rparr>)) (\<lambda>_.
     d_world (\<lambda>w. bind_run (drop_buckets (provider_of env) (dr_retired rt) w) (\<lambda>w. Ret ((), w)))))"

definition dynamic_drop :: "('i, 'o) dyn_env \<Rightarrow> ('i, 'o, unit) dyn_op" where
  "dynamic_drop env = d_bind reclaim_dropped_runs (\<lambda>_. d_bind (wait_for_retired_buckets env) (\<lambda>_.
     d_bind (drain_active_buckets_and_release_graphs env) (\<lambda>_. d_return ())))"

subsection \<open>Construction\<close>

definition dynamic_new :: "runtime_config \<Rightarrow> nat \<Rightarrow> ('i, 'o) dynamic_runtime" where
  "dynamic_new cf capacity = \<lparr>dr_buckets = [], dr_retired = [], dr_recovery = recovery_new capacity, dr_config = cf,
     dr_plan = None, dr_hot = None, dr_table = table_new, dr_tick = 0\<rparr>"

definition with_valid_options :: "dynamic_io_options \<Rightarrow> runtime_mode \<Rightarrow> nat
    \<Rightarrow> (nat \<Rightarrow> dyn_error + 'r) \<Rightarrow> dyn_error + 'r" where
  "with_valid_options d mode lanes f = (case validate_options d of Inl e \<Rightarrow> Inl (Options_rejected e)
     | Inr d \<Rightarrow> (case validate_runtime_mode d mode lanes of Inl e \<Rightarrow> Inl (Options_rejected e)
         | Inr _ \<Rightarrow> (case checked_mul_at 64 (do_max_buckets d) lanes of None \<Rightarrow> Inl Recovery_capacity_overflow
             | Some capacity \<Rightarrow> f capacity)))"

definition dynamic_shared_session_with_options :: "session \<Rightarrow> memory_info \<Rightarrow> memory_info \<Rightarrow> nat \<Rightarrow> dynamic_io_options
    \<Rightarrow> dyn_error + ('i, 'o) dynamic_runtime" where
  "dynamic_shared_session_with_options s im om lanes d =
     (if lanes = 0 then Inl Runtime_needs_lane
      else with_valid_options d SharedSession lanes (\<lambda>capacity. Inr (dynamic_new
        \<lparr>cf_sessions = Shared s, cf_input_mem = im, cf_output_mem = om, cf_options = d, cf_lane_count = lanes\<rparr> capacity)))"

text \<open>\<open>clone\<close> is what \<open>MemoryInfo::try_clone_descriptor\<close> answers.\<close>

definition dynamic_shared_session :: "session \<Rightarrow> memory_info \<Rightarrow> tensor_error + memory_info \<Rightarrow> nat
    \<Rightarrow> dyn_error + ('i, 'o) dynamic_runtime" where
  "dynamic_shared_session s mem clone lanes = (case clone of Inl e \<Rightarrow> Inl (Descriptor_failed e)
     | Inr om \<Rightarrow> dynamic_shared_session_with_options s mem om lanes options_default)"

definition dynamic_from_sessions_with_options :: "session list \<Rightarrow> memory_info \<Rightarrow> memory_info \<Rightarrow> dynamic_io_options
    \<Rightarrow> dyn_error + ('i, 'o) dynamic_runtime" where
  "dynamic_from_sessions_with_options ss im om d =
     (if ss = [] then Inl Runtime_needs_session
      else with_valid_options d ReplicatedSessions (length ss) (\<lambda>capacity. Inr (dynamic_new
        \<lparr>cf_sessions = Replicated ss, cf_input_mem = im, cf_output_mem = om, cf_options = d, cf_lane_count = length ss\<rparr> capacity)))"

definition dynamic_from_sessions :: "session list \<Rightarrow> memory_info \<Rightarrow> tensor_error + memory_info
    \<Rightarrow> dyn_error + ('i, 'o) dynamic_runtime" where
  "dynamic_from_sessions ss mem clone = (case clone of Inl e \<Rightarrow> Inl (Descriptor_failed e)
     | Inr om \<Rightarrow> dynamic_from_sessions_with_options ss mem om options_default)"

text \<open>The factory is asked for session after session until one fails.\<close>

fun make_sessions :: "(nat \<Rightarrow> nat + session) \<Rightarrow> nat list \<Rightarrow> dyn_error + session list" where
  "make_sessions factory [] = Inr []"
| "make_sessions factory (i # is) = (case factory i of Inl n \<Rightarrow> Inl (Session_failed n)
     | Inr s \<Rightarrow> (case make_sessions factory is of Inl e \<Rightarrow> Inl e | Inr ss \<Rightarrow> Inr (s # ss)))"

definition dynamic_from_session_factory_with_options :: "nat \<Rightarrow> memory_info \<Rightarrow> memory_info \<Rightarrow> dynamic_io_options
    \<Rightarrow> (nat \<Rightarrow> nat + session) \<Rightarrow> dyn_error + ('i, 'o) dynamic_runtime" where
  "dynamic_from_session_factory_with_options lanes im om d factory =
     (if lanes = 0 then Inl Runtime_needs_lane
      else case make_sessions factory [0..<lanes] of Inl e \<Rightarrow> Inl e
        | Inr ss \<Rightarrow> dynamic_from_sessions_with_options ss im om d)"

definition dynamic_from_session_factory :: "nat \<Rightarrow> memory_info \<Rightarrow> tensor_error + memory_info
    \<Rightarrow> (nat \<Rightarrow> nat + session) \<Rightarrow> dyn_error + ('i, 'o) dynamic_runtime" where
  "dynamic_from_session_factory lanes mem clone factory = (case clone of Inl e \<Rightarrow> Inl (Descriptor_failed e)
     | Inr om \<Rightarrow> dynamic_from_session_factory_with_options lanes mem om options_default factory)"

subsection \<open>The shape plan\<close>

definition policy_matches :: "output_policy \<Rightarrow> bool \<Rightarrow> bool" where
  "policy_matches p device_outputs = (case p of HostBuffer \<Rightarrow> \<not> device_outputs | CudaPinned \<Rightarrow> False
     | DeviceResident \<Rightarrow> device_outputs)"

fun check_plan_buckets :: "nat \<Rightarrow> nat \<Rightarrow> bool \<Rightarrow> canonical_shape list \<Rightarrow> dyn_error + unit" where
  "check_plan_buckets n_in n_out device_outputs [] = Inr ()"
| "check_plan_buckets n_in n_out device_outputs (b # bs) =
     (if length (cs_input_shapes b) \<noteq> n_in \<or> length (cs_output_shapes b) \<noteq> n_out then Inl Plan_arity
      else if \<not> policy_matches (cs_output_policy b) device_outputs then Inl Plan_output_placement
      else check_plan_buckets n_in n_out device_outputs bs)"

text \<open>\<open>n_in\<close> and \<open>n_out\<close> are the const generics of the runtime's type.\<close>

definition install_shape_plan :: "nat \<Rightarrow> nat \<Rightarrow> serving_shape_plan \<Rightarrow> ('i, 'o, unit) dyn_op" where
  "install_shape_plan n_in n_out plan = d_get (\<lambda>rt.
     if dr_buckets rt \<noteq> [] \<or> dr_retired rt \<noteq> [] then d_fail Plan_too_late
     else if do_max_buckets (options_of rt) < plan_len plan
     then d_fail (Plan_too_large (plan_len plan) (do_max_buckets (options_of rt)))
     else d_bind (d_check (check_plan_buckets n_in n_out (do_device_outputs (options_of rt)) (sp_buckets plan))) (\<lambda>_.
       d_set (\<lambda>rt. rt\<lparr>dr_plan := Some plan\<rparr>)))"

definition validate_planned_shape :: "shapes \<Rightarrow> shapes \<Rightarrow> ('i, 'o, unit) dyn_op" where
  "validate_planned_shape ins outs = d_get (\<lambda>rt. case dr_plan rt of
     None \<Rightarrow> if do_cuda_graph (options_of rt) then d_fail Graph_needs_plan else d_return ()
   | Some plan \<Rightarrow> d_run (bind_run (classify plan ins) (\<lambda>r. Ret (case r of
       Inl e \<Rightarrow> Inl (Shape_rejected e)
     | Inr sid \<Rightarrow> (case plan_bucket plan sid of None \<Rightarrow> Inl Plan_invalid_id
         | Some b \<Rightarrow> if key_matches (cs_input_shapes b, cs_output_shapes b) ins outs then Inr ()
             else Inl Shape_not_canonical)))))"

subsection \<open>The bucket cache\<close>

definition find_bucket_index :: "('i, 'o) dynamic_runtime \<Rightarrow> shapes \<Rightarrow> shapes \<Rightarrow> nat option" where
  "find_bucket_index rt ins outs =
     (let scan = position (\<lambda>b. key_matches (sb_key b) ins outs) (dr_buckets rt) in
      if 1 < length (dr_buckets rt) then
        case dr_hot rt of None \<Rightarrow> scan
        | Some i \<Rightarrow> (case get_opt (dr_buckets rt) i of None \<Rightarrow> scan
            | Some b \<Rightarrow> if key_matches (sb_key b) ins outs then Some i else scan)
      else scan)"

definition next_tick :: "('i, 'o, nat) dyn_op" where
  "next_tick = (\<lambda>(rt, w). let tick = max ((dr_tick rt + 1) mod 2 ^ 64) 1 in Ret (Inr tick, rt\<lparr>dr_tick := tick\<rparr>, w))"

definition bucket_at :: "nat \<Rightarrow> ('i, 'o, ('i, 'o) shape_bucket) dyn_op" where
  "bucket_at i = d_get (\<lambda>rt. d_run (bind_run (index_run (dr_buckets rt) i) (Ret \<circ> Inr)))"

definition touch_bucket :: "nat \<Rightarrow> ('i, 'o, nat) dyn_op" where
  "touch_bucket i = d_bind next_tick (\<lambda>tick. d_bind (bucket_at i) (\<lambda>b.
     d_bind (d_set (\<lambda>rt. (set_bucket i (b\<lparr>sb_last_used := tick\<rparr>) rt)\<lparr>dr_hot := Some i\<rparr>)) (\<lambda>_. d_return i)))"

definition bucket_busy :: "('i, 'o) shape_bucket \<Rightarrow> bool" where
  "bucket_busy b \<longleftrightarrow> sb_detached b > 0 \<or> list_ex ln_in_flight (sb_lanes b)"

definition refuse_graph_bucket_creation_while_in_flight :: "('i, 'o, unit) dyn_op" where
  "refuse_graph_bucket_creation_while_in_flight = d_get (\<lambda>rt. case position bucket_busy (dr_buckets rt) of
     None \<Rightarrow> d_return ()
   | Some i \<Rightarrow> d_bind (bucket_at i) (\<lambda>b.
       d_fail (Creation_while_in_flight i (sb_detached b) (length (filter ln_in_flight (sb_lanes b))))))"

definition evict_one_bucket_if_full :: "('i, 'o) dyn_env \<Rightarrow> ('i, 'o, unit) dyn_op" where
  "evict_one_bucket_if_full env = d_get (\<lambda>rt.
     if length (dr_buckets rt) < do_max_buckets (options_of rt) then d_return ()
     else if do_cuda_graph (options_of rt) then d_fail Graph_cache_full
     else d_bind (d_set (\<lambda>rt. rt\<lparr>dr_hot := None\<rparr>)) (\<lambda>_.
       case min_by_key (\<lambda>(_, b). sb_last_used b) (filter (\<lambda>(_, b). sb_detached b = 0) (enumerate 0 (dr_buckets rt))) of
         None \<Rightarrow> d_fail All_buckets_busy
       | Some (oldest, _) \<Rightarrow> d_bind (retire_bucket_at env oldest) (\<lambda>ok.
           if ok then d_return () else d_fail Eviction_inconsistent)))"

text \<open>
  The creation path. Lanes that are not moved into a bucket are dropped when an error returns.
\<close>

definition d_build :: "'r build_op \<Rightarrow> ('i, 'o, 'r) dyn_op" where
  "d_build m = (\<lambda>(rt, w). bind_run (m (wd_keys w, wd_log w)) (\<lambda>(r, k, t).
     Ret (case r of Inl e \<Rightarrow> Inl (Build_failed e) | Inr a \<Rightarrow> Inr a, rt, w\<lparr>wd_keys := k, wd_log := t\<rparr>)))"

definition dynamic_allocate_graph_id :: "('i, 'o, int) dyn_op" where
  "dynamic_allocate_graph_id = (\<lambda>(rt, w).
     if cf_sessions (dr_config rt) = Replicated [] then Ret (Inl Runtime_needs_session, rt, w)
     else case allocate_captured_graph_id (wd_next_graph w) of
       (Inl _, n) \<Rightarrow> Ret (Inl Graph_ids_exhausted, rt, w\<lparr>wd_next_graph := n\<rparr>)
     | (Inr gid, n) \<Rightarrow> Ret (Inr gid, rt, w\<lparr>wd_next_graph := n\<rparr>))"

definition failing_lanes :: "('i, 'o) dyn_env \<Rightarrow> ('i, 'o) lane list \<Rightarrow> dyn_error \<Rightarrow> ('i, 'o, 'r) dyn_op" where
  "failing_lanes env lanes e = d_bind (d_world (\<lambda>w. bind_run (drop_lanes (provider_of env) lanes w) (\<lambda>w. Ret ((), w))))
     (\<lambda>_. d_fail e)"

text \<open>Calls on lanes the runtime holds outside a bucket; the error is mapped by \<open>ef\<close>.\<close>

definition on_new_lanes :: "('i, 'o) dyn_env \<Rightarrow> (lane_error \<Rightarrow> dyn_error)
    \<Rightarrow> (('i, 'o) lane list \<times> log \<Rightarrow> ((lane_error + unit) \<times> ('i, 'o) lane list \<times> log) run)
    \<Rightarrow> ('i, 'o) lane list \<Rightarrow> ('i, 'o, ('i, 'o) lane list) dyn_op" where
  "on_new_lanes env ef m lanes = d_bind (d_world (\<lambda>w. bind_run (m (lanes, wd_log w))
       (\<lambda>(r, lanes, t). Ret ((r, lanes), w\<lparr>wd_log := t\<rparr>))))
     (\<lambda>(r, lanes). case r of Inl e \<Rightarrow> failing_lanes env lanes (ef e) | Inr _ \<Rightarrow> d_return lanes)"

definition annotate_and_capture :: "('i, 'o) dyn_env \<Rightarrow> ('i, 'o) lane list
    \<Rightarrow> ('i, 'o, int option \<times> ('i, 'o) lane list) dyn_op" where
  "annotate_and_capture env lanes = d_get (\<lambda>rt.
     if \<not> do_cuda_graph (options_of rt) then d_return (None, lanes)
     else d_bind (d_try dynamic_allocate_graph_id) (\<lambda>r. case r of Inl e \<Rightarrow> failing_lanes env lanes e | Inr gid \<Rightarrow>
       d_bind (on_new_lanes env Lane_failed (static_set_gpu_graph_id (provider_of env) gid) lanes) (\<lambda>lanes.
       d_bind (on_new_lanes env Capture_failed (for_lanes (run_lane (provider_of env))) lanes) (\<lambda>lanes.
       d_return (Some gid, lanes)))))"

definition with_recovery_slots :: "nat \<Rightarrow> ('i, 'o) lane list \<Rightarrow> ('i, 'o) lane list" where
  "with_recovery_slots base lanes = map (\<lambda>(i, l). l\<lparr>ln_recovery_slot := Some (base + i)\<rparr>) (enumerate 0 lanes)"

text \<open>\<open>slot_base + lane_index\<close> panics on overflow.\<close>

definition push_bucket :: "('i, 'o) dyn_env \<Rightarrow> shapes \<times> shapes \<Rightarrow> int option \<Rightarrow> ('i, 'o) lane list
    \<Rightarrow> ('i, 'o, nat) dyn_op" where
  "push_bucket env key gid lanes = d_bind next_tick (\<lambda>last_used. d_get (\<lambda>rt.
     case allocate_prepared_bucket_id (length (dr_buckets rt)) (dr_table rt) of
       (Inl e, tb) \<Rightarrow> d_bind (d_set (\<lambda>rt. rt\<lparr>dr_table := tb\<rparr>)) (\<lambda>_. failing_lanes env lanes (Handle_failed e))
     | (Inr pid, tb) \<Rightarrow> d_bind (d_set (\<lambda>rt. rt\<lparr>dr_table := tb\<rparr>)) (\<lambda>_.
         case checked_mul_at 64 (pi_slot pid) (cf_lane_count (dr_config rt)) of
           None \<Rightarrow> failing_lanes env lanes Recovery_index_overflow
         | Some base \<Rightarrow> if 2 ^ 64 < base + length lanes then (\<lambda>_. Panic) else
             d_bind (d_set (\<lambda>rt. rt\<lparr>dr_buckets := dr_buckets rt @
               [\<lparr>sb_key = key, sb_id = pid, sb_lanes = with_recovery_slots base lanes, sb_last_used = last_used,
                 sb_detached = 0, sb_graph_id = gid\<rparr>], dr_hot := Some (length (dr_buckets rt))\<rparr>))
             (\<lambda>_. d_return (length (dr_buckets rt))))))"

definition create_bucket :: "('i, 'o) dyn_env \<Rightarrow> shapes \<Rightarrow> shapes \<Rightarrow> ('i, 'o, nat) dyn_op" where
  "create_bucket env ins outs = d_bind (evict_one_bucket_if_full env) (\<lambda>_. d_get (\<lambda>rt.
     d_bind (d_build (build_lane_set (de_lane env) (de_cpu env) (dr_config rt) ins outs)) (\<lambda>lane_set.
     d_bind (annotate_and_capture env (sr_lanes lane_set)) (\<lambda>(gid, lanes).
     push_bucket env (ins, outs) gid lanes))))"

text \<open>The bucket is returned as its index.\<close>

definition get_or_create_bucket_inner :: "('i, 'o) dyn_env \<Rightarrow> shapes \<Rightarrow> shapes \<Rightarrow> bool \<Rightarrow> ('i, 'o, nat) dyn_op" where
  "get_or_create_bucket_inner env ins outs allow_create =
     d_bind reclaim_dropped_runs (\<lambda>_. d_bind (validate_planned_shape ins outs) (\<lambda>_.
     d_bind (reap_retired_buckets env) (\<lambda>_. d_get (\<lambda>rt. case find_bucket_index rt ins outs of
       Some i \<Rightarrow> touch_bucket i
     | None \<Rightarrow> if \<not> allow_create then d_fail Strict_miss
         else d_bind (d_when (do_cuda_graph (options_of rt)) refuse_graph_bucket_creation_while_in_flight) (\<lambda>_.
           create_bucket env ins outs)))))"

definition get_or_create_bucket :: "('i, 'o) dyn_env \<Rightarrow> shapes \<Rightarrow> shapes \<Rightarrow> ('i, 'o, nat) dyn_op" where
  "get_or_create_bucket env ins outs = d_get (\<lambda>rt.
     get_or_create_bucket_inner env ins outs (\<not> do_strict (options_of rt)))"

definition prepared_bucket_id :: "('i, 'o) dynamic_runtime \<Rightarrow> shapes \<Rightarrow> shapes \<Rightarrow> dyn_error + prepared_id" where
  "prepared_bucket_id rt ins outs = (case find_bucket_index rt ins outs of None \<Rightarrow> Inl Not_prepared
     | Some i \<Rightarrow> Inr (sb_id (dr_buckets rt ! i)))"

subsection \<open>Owned runs\<close>

text \<open>A call on one lane outside a bucket; its result is a value, not a failure.\<close>

definition d_lane :: "('i, 'o, 'r) lane_op \<Rightarrow> ('i, 'o) lane \<Rightarrow> ('i, 'o, (lane_error + 'r) \<times> ('i, 'o) lane) dyn_op" where
  "d_lane m l = d_world (\<lambda>w. bind_run (world_lane m l w) (\<lambda>(r, l, w). Ret ((r, l), w)))"

definition d_forget :: "('i, 'o) lane \<Rightarrow> ('i, 'o, unit) dyn_op" where
  "d_forget l = d_world (\<lambda>w. Ret ((), forget [l] w))"

definition return_detached_lane :: "('i, 'o) dyn_env \<Rightarrow> prepared_id \<Rightarrow> ('i, 'o) lane \<Rightarrow> ('i, 'o, unit) dyn_op" where
  "return_detached_lane env pid lane = d_get (\<lambda>rt. case bucket_index rt pid of
     None \<Rightarrow> failing_lanes env [lane] Bucket_retired
   | Some k \<Rightarrow> (case get_opt (dr_buckets rt) k of None \<Rightarrow> failing_lanes env [lane] Bucket_retired
       | Some b \<Rightarrow>
           if sb_detached b = 0 \<or> cf_lane_count (dr_config rt) \<le> length (sb_lanes b)
           then d_bind (d_forget lane) (\<lambda>_. d_fail Accounting_inconsistent)
           else d_set (set_bucket k (b\<lparr>sb_detached := sb_detached b - 1, sb_lanes := sb_lanes b @ [lane]\<rparr>))))"

definition launch_owned :: "('i, 'o) dyn_env \<Rightarrow> prepared_id \<Rightarrow> ('i, 'o, unit) lane_op \<Rightarrow> ('i, 'o) lane
    \<Rightarrow> ('i, 'o, ('i, 'o) owned_run) dyn_op" where
  "launch_owned env pid prepare lane = d_bind (d_lane prepare lane) (\<lambda>(r, lane). case r of
     Inl e \<Rightarrow> d_bind (d_try (return_detached_lane env pid lane)) (\<lambda>_. d_fail (Lane_failed e))
   | Inr _ \<Rightarrow> d_bind (d_lane (run_enqueued (provider_of env)) lane) (\<lambda>(r, lane). case r of
       Inl e \<Rightarrow> d_bind (d_lane (finish_in_flight_best_effort (provider_of env)) lane) (\<lambda>(_, lane).
         d_bind (if ln_in_flight lane then d_bind (d_forget lane) (\<lambda>_. d_return (Inr ()))
                 else d_try (return_detached_lane env pid lane)) (\<lambda>_. d_fail (Lane_failed e)))
     | Inr _ \<Rightarrow> d_return (lane, pid)))"

definition enqueue_prepared :: "('i, 'o) dyn_env \<Rightarrow> prepared_id \<Rightarrow> ('i, 'o, unit) lane_op
    \<Rightarrow> ('i, 'o, ('i, 'o) owned_run) dyn_op" where
  "enqueue_prepared env pid prepare = d_bind reclaim_dropped_runs (\<lambda>_. d_get (\<lambda>rt. case bucket_index rt pid of
     None \<Rightarrow> d_fail Bucket_unavailable
   | Some k \<Rightarrow> d_bind (bucket_at k) (\<lambda>b.
       if checked_add_at 64 (sb_detached b) (length (sb_lanes b)) \<noteq> Some (cf_lane_count (dr_config rt))
       then d_fail Accounting_diverged
       else if sb_lanes b = [] then d_fail All_lanes_in_flight
       else d_bind (d_set (set_bucket k (b\<lparr>sb_lanes := butlast (sb_lanes b), sb_detached := sb_detached b + 1\<rparr>))) (\<lambda>_.
         launch_owned env (sb_id b) prepare (last (sb_lanes b))))))"

definition enqueue_owned :: "('i, 'o) dyn_env \<Rightarrow> shapes \<Rightarrow> shapes \<Rightarrow> ('i, 'o, unit) lane_op
    \<Rightarrow> ('i, 'o, ('i, 'o) owned_run) dyn_op" where
  "enqueue_owned env ins outs prepare = d_bind (get_or_create_bucket env ins outs) (\<lambda>k.
     d_bind (bucket_at k) (\<lambda>b. enqueue_prepared env (sb_id b) prepare))"

definition complete_owned :: "('i, 'o) dyn_env \<Rightarrow> ('i, 'o) owned_run \<Rightarrow> (('i, 'o) lane \<Rightarrow> dyn_error + 'r)
    \<Rightarrow> ('i, 'o, 'r) dyn_op" where
  "complete_owned env run consume = d_bind (d_lane (synchronize_outputs (provider_of env)) (fst run)) (\<lambda>(sync, lane).
     let consumed = (case sync of Inr _ \<Rightarrow> consume lane | Inl e \<Rightarrow> Inl (Lane_failed e)) in
     if ln_in_flight lane then d_bind (d_forget lane) (\<lambda>_. d_check consumed)
     else d_bind (d_try (return_detached_lane env (snd run) lane)) (\<lambda>returned. d_check (case consumed of
       Inl e \<Rightarrow> Inl e | Inr v \<Rightarrow> (case returned of Inl e \<Rightarrow> Inl e | Inr _ \<Rightarrow> Inr v))))"

text \<open>\<open>OwnedDynamicIoRun::drop\<close>, on any thread; the runtime is touched only through its recovery slots.\<close>

definition owned_run_drop :: "('i, 'o) dyn_env \<Rightarrow> ('i, 'o) owned_run \<Rightarrow> ('i, 'o, unit) dyn_op" where
  "owned_run_drop env run = d_bind (d_lane (finish_in_flight_best_effort (provider_of env)) (fst run)) (\<lambda>(_, lane).
     if ln_in_flight lane then d_forget lane
     else case ln_recovery_slot lane of None \<Rightarrow> d_forget lane
       | Some slot \<Rightarrow> d_get (\<lambda>rt. case recover slot (lane, snd run) (dr_recovery rt) of (cells, leaked) \<Rightarrow>
           d_bind (d_set (\<lambda>rt. rt\<lparr>dr_recovery := cells\<rparr>)) (\<lambda>_.
             case leaked of None \<Rightarrow> d_return () | Some (lane, _) \<Rightarrow> d_forget lane)))"

subsection \<open>Calls on cached buckets\<close>

definition clear_buckets :: "('i, 'o) dyn_env \<Rightarrow> ('i, 'o, unit) dyn_op" where
  "clear_buckets env = d_bind reclaim_dropped_runs (\<lambda>_. d_get (\<lambda>rt.
     if list_ex (\<lambda>b. sb_detached b \<noteq> 0) (dr_buckets rt) then d_fail Clear_while_owned
     else d_bind (d_set (\<lambda>rt. rt\<lparr>dr_hot := None\<rparr>)) (\<lambda>_. d_bind (wait_for_retired_buckets env) (\<lambda>_.
       d_bind (drain_active_buckets_and_release_graphs env) (\<lambda>fenced.
         if fenced then d_return () else d_fail Clear_unfenced)))))"

definition bucket_of :: "('i, 'o) dynamic_runtime \<Rightarrow> shapes \<Rightarrow> shapes \<Rightarrow> ('i, 'o) shape_bucket option" where
  "bucket_of rt ins outs = map_option (\<lambda>i. dr_buckets rt ! i) (find_bucket_index rt ins outs)"

definition bucket_mut :: "shapes \<Rightarrow> shapes \<Rightarrow> ('i, 'o, nat option) dyn_op" where
  "bucket_mut ins outs = d_bind reclaim_dropped_runs (\<lambda>_. d_get (\<lambda>rt. case find_bucket_index rt ins outs of
     None \<Rightarrow> d_return None | Some i \<Rightarrow> d_bind (touch_bucket i) (\<lambda>i. d_return (Some i))))"

definition remove_bucket :: "('i, 'o) dyn_env \<Rightarrow> shapes \<Rightarrow> shapes \<Rightarrow> ('i, 'o, bool) dyn_op" where
  "remove_bucket env ins outs = d_bind reclaim_dropped_runs (\<lambda>_. d_get (\<lambda>rt. case find_bucket_index rt ins outs of
     None \<Rightarrow> d_return False
   | Some i \<Rightarrow> d_bind (bucket_at i) (\<lambda>b. if sb_detached b \<noteq> 0 then d_return False
       else d_bind (d_set (\<lambda>rt. rt\<lparr>dr_hot := None\<rparr>)) (\<lambda>_. retire_bucket_at env i))))"

text \<open>\<open>ShapeBucket::prime\<close> and its like: a loop over the lanes of a cached bucket.\<close>

definition on_bucket :: "nat \<Rightarrow> ('i, 'o, unit) lane_op \<Rightarrow> ('i, 'o, unit) dyn_op" where
  "on_bucket i m = d_bind (bucket_at i) (\<lambda>b. d_bind (d_world (\<lambda>w. bind_run (world_lanes m (sb_lanes b) w)
       (\<lambda>(r, lanes, w). Ret ((r, lanes), w)))) (\<lambda>(r, lanes).
     d_bind (d_set (set_bucket i (b\<lparr>sb_lanes := lanes\<rparr>))) (\<lambda>_.
     case r of Inl e \<Rightarrow> d_fail (Lane_failed e) | Inr _ \<Rightarrow> d_return ())))"

fun for_specs :: "(shapes \<times> shapes \<Rightarrow> ('i, 'o, unit) dyn_op) \<Rightarrow> (shapes \<times> shapes) list \<Rightarrow> nat \<Rightarrow> ('i, 'o, nat) dyn_op" where
  "for_specs f [] n = d_return n"
| "for_specs f (x # xs) n = d_bind (f x) (\<lambda>_. for_specs f xs (Suc n))"

definition prime_bucket :: "('i, 'o) dyn_env \<Rightarrow> nat \<Rightarrow> shapes \<times> shapes \<Rightarrow> ('i, 'o, unit) dyn_op" where
  "prime_bucket env runs = (\<lambda>(ins, outs). d_bind (get_or_create_bucket_inner env ins outs True) (\<lambda>i.
     on_bucket i (prime (provider_of env) runs)))"

definition prime_bucket_enqueued :: "('i, 'o) dyn_env \<Rightarrow> nat \<Rightarrow> shapes \<times> shapes \<Rightarrow> ('i, 'o, unit) dyn_op" where
  "prime_bucket_enqueued env runs = (\<lambda>(ins, outs). d_bind (get_or_create_bucket_inner env ins outs True) (\<lambda>i.
     on_bucket i (prime_enqueued (provider_of env) runs)))"

definition prebuild_buckets :: "('i, 'o) dyn_env \<Rightarrow> (shapes \<times> shapes) list \<Rightarrow> ('i, 'o, nat) dyn_op" where
  "prebuild_buckets env specs = for_specs (\<lambda>(ins, outs).
     d_bind (get_or_create_bucket_inner env ins outs True) (\<lambda>_. d_return ())) specs 0"

definition warm_buckets :: "('i, 'o) dyn_env \<Rightarrow> nat \<Rightarrow> (shapes \<times> shapes) list \<Rightarrow> ('i, 'o, nat) dyn_op" where
  "warm_buckets env runs specs = for_specs (prime_bucket env runs) specs 0"

definition warm_buckets_enqueued :: "('i, 'o) dyn_env \<Rightarrow> nat \<Rightarrow> (shapes \<times> shapes) list \<Rightarrow> ('i, 'o, nat) dyn_op" where
  "warm_buckets_enqueued env runs specs = for_specs (prime_bucket_enqueued env runs) specs 0"

fun on_buckets :: "nat list \<Rightarrow> ('i, 'o, unit) lane_op \<Rightarrow> ('i, 'o, unit) dyn_op" where
  "on_buckets [] m = d_return ()"
| "on_buckets (i # is) m = d_bind (on_bucket i m) (\<lambda>_. on_buckets is m)"

definition prime_cached_buckets :: "('i, 'o) dyn_env \<Rightarrow> nat \<Rightarrow> ('i, 'o, unit) dyn_op" where
  "prime_cached_buckets env runs = d_get (\<lambda>rt. on_buckets [0..<length (dr_buckets rt)] (prime (provider_of env) runs))"

text \<open>\<open>run_on\<close> lends one lane of the bucket to the caller.\<close>

definition run_on_bucket :: "nat \<Rightarrow> nat \<Rightarrow> ('i, 'o, 'r) lane_op \<Rightarrow> ('i, 'o, 'r) dyn_op" where
  "run_on_bucket i n f = d_bind (bucket_at i) (\<lambda>b. case get_opt (sb_lanes b) n of
     None \<Rightarrow> d_fail (Lane_index n)
   | Some l \<Rightarrow> d_bind (d_lane f l) (\<lambda>(r, l).
       d_bind (d_set (set_bucket i (b\<lparr>sb_lanes := (sb_lanes b)[n := l]\<rparr>))) (\<lambda>_.
       case r of Inl e \<Rightarrow> d_fail (Lane_failed e) | Inr a \<Rightarrow> d_return a)))"

definition dynamic_run_on :: "('i, 'o) dyn_env \<Rightarrow> shapes \<Rightarrow> shapes \<Rightarrow> nat \<Rightarrow> ('i, 'o, 'r) lane_op \<Rightarrow> ('i, 'o, 'r) dyn_op" where
  "dynamic_run_on env ins outs n f = d_get (\<lambda>rt.
     d_bind (get_or_create_bucket_inner env ins outs (\<not> do_strict (options_of rt))) (\<lambda>i. run_on_bucket i n f))"

end
