(* ===== verification/Dynamic_Safety.thy ===== *)
theory Dynamic_Safety
  imports Dynamic_Runtime
begin

text \<open>
  The invariants of the dynamic runtime: its buckets stay within the bound with distinct shapes,
  its handles keep naming the bucket they were issued for, and every lane that left a bucket has
  its place there until it comes back.
\<close>

subsection \<open>Triples\<close>

text \<open>\<open>dv P m Q\<close>: if \<open>m\<close> returns from a runtime in \<open>P\<close>, the result and the runtime are in \<open>Q\<close>.\<close>

definition dv :: "(('i, 'o) dynamic_runtime \<Rightarrow> bool) \<Rightarrow> ('i, 'o, 'r) dyn_op
    \<Rightarrow> (dyn_error + 'r \<Rightarrow> ('i, 'o) dynamic_runtime \<Rightarrow> bool) \<Rightarrow> bool" where
  "dv P m Q \<longleftrightarrow> (\<forall>rt w r rt' w'. P rt \<longrightarrow> m (rt, w) = Ret (r, rt', w') \<longrightarrow> Q r rt')"

lemma dvD: "dv P m Q \<Longrightarrow> P rt \<Longrightarrow> m (rt, w) = Ret (r, rt', w') \<Longrightarrow> Q r rt'"
  unfolding dv_def by blast

lemma dv_return: "(\<And>rt. P rt \<Longrightarrow> Q (Inr r) rt) \<Longrightarrow> dv P (d_return r) Q"
  by (simp add: dv_def d_return_def)

lemma dv_fail: "(\<And>rt. P rt \<Longrightarrow> Q (Inl e) rt) \<Longrightarrow> dv P (d_fail e) Q"
  by (simp add: dv_def d_fail_def)

lemma dv_check: "(\<And>rt. P rt \<Longrightarrow> Q r rt) \<Longrightarrow> dv P (d_check r) Q"
  by (simp add: dv_def d_check_def)

lemma dv_set: "(\<And>rt. P rt \<Longrightarrow> Q (Inr ()) (g rt)) \<Longrightarrow> dv P (d_set g) Q"
  by (simp add: dv_def d_set_def)

lemma dv_run: "(\<And>rt r. P rt \<Longrightarrow> m = Ret r \<Longrightarrow> Q r rt) \<Longrightarrow> dv P (d_run m) Q"
  by (cases m) (simp_all add: dv_def d_run_def)

lemma dv_world: "(\<And>rt w r w'. P rt \<Longrightarrow> m w = Ret (r, w') \<Longrightarrow> Q (Inr r) rt) \<Longrightarrow> dv P (d_world m) Q"
  unfolding dv_def d_world_def by (force simp: bind_run_eq_Ret)

lemma dv_bind:
  assumes "dv P m (\<lambda>r rt. case r of Inl e \<Rightarrow> Q (Inl e) rt | Inr a \<Rightarrow> R a rt)" "\<And>a. dv (R a) (f a) Q"
  shows "dv P (d_bind m f) Q"
  unfolding dv_def
proof (intro allI impI)
  fix rt w r rt' w' assume P: "P rt" and run: "d_bind m f (rt, w) = Ret (r, rt', w')"
  from run obtain r1 rt1 w1 where m: "m (rt, w) = Ret (r1, rt1, w1)"
    and f: "(case r1 of Inl e \<Rightarrow> Ret (Inl e, rt1, w1) | Inr a \<Rightarrow> f a (rt1, w1)) = Ret (r, rt', w')"
    by (auto simp: d_bind_def bind_run_eq_Ret)
  show "Q r rt'"
    using dvD [OF assms(1) P m] f dvD [OF assms(2)] by (cases r1) auto
qed

lemma dv_get: "(\<And>rt. P rt \<Longrightarrow> dv (\<lambda>x. x = rt) (f rt) Q) \<Longrightarrow> dv P (d_get f) Q"
  by (simp add: dv_def d_get_def)

lemma dv_try: "dv P m (\<lambda>r. Q (Inr r)) \<Longrightarrow> dv P (d_try m) Q"
  unfolding dv_def d_try_def by (force simp: bind_run_eq_Ret)

lemma dv_pre: "dv P m Q \<Longrightarrow> (\<And>rt. P' rt \<Longrightarrow> P rt) \<Longrightarrow> dv P' m Q"
  unfolding dv_def by blast

lemma dv_post: "dv P m Q \<Longrightarrow> (\<And>r rt. Q r rt \<Longrightarrow> Q' r rt) \<Longrightarrow> dv P m Q'"
  unfolding dv_def by blast

text \<open>A call that keeps a property of the runtime.\<close>

definition keeps :: "(('i, 'o) dynamic_runtime \<Rightarrow> bool) \<Rightarrow> ('i, 'o, 'r) dyn_op \<Rightarrow> bool" where
  "keeps P m \<longleftrightarrow> dv P m (\<lambda>_. P)"

lemma dv_keeps_bind: "keeps P m \<Longrightarrow> (\<And>a. keeps P (f a)) \<Longrightarrow> keeps P (d_bind m f)"
  unfolding keeps_def
  by (rule dv_bind [where R = "\<lambda>_. P"], rule dv_post [where Q = "\<lambda>_. P"]) (simp_all split: sum.split)

lemma dv_keeps_basic:
  "keeps P (d_return r)" "keeps P (d_fail e)" "keeps P (d_check c)" "keeps P (d_run n)" "keeps P (d_world m)"
  unfolding keeps_def dv_def d_return_def d_fail_def d_check_def d_run_def d_world_def by (auto simp: bind_run_eq_Ret)

lemma dv_keeps_set: "(\<And>rt. P rt \<Longrightarrow> P (g rt)) \<Longrightarrow> keeps P (d_set g)"
  unfolding keeps_def by (rule dv_set)

lemma dv_keeps_get: "(\<And>rt. P rt \<Longrightarrow> keeps P (f rt)) \<Longrightarrow> keeps P (d_get f)"
  unfolding keeps_def by (rule dv_get) (rule dv_pre [of P], auto)

lemma dv_keeps_at: "(\<And>rt. P rt \<Longrightarrow> dv (\<lambda>x. x = rt) (f rt) (\<lambda>_. P)) \<Longrightarrow> keeps P (d_get f)"
  unfolding keeps_def by (rule dv_get)

lemma dv_keeps_if: "(b \<Longrightarrow> keeps P m) \<Longrightarrow> (\<not> b \<Longrightarrow> keeps P n) \<Longrightarrow> keeps P (if b then m else n)"
  by simp

lemma dv_keeps_sum: "(\<And>x. keeps P (f x)) \<Longrightarrow> (\<And>y. keeps P (g y)) \<Longrightarrow> keeps P (case z of Inl x \<Rightarrow> f x | Inr y \<Rightarrow> g y)"
  by (cases z) simp_all

lemma dv_keeps_option: "keeps P m \<Longrightarrow> (\<And>y. keeps P (f y)) \<Longrightarrow> keeps P (case z of None \<Rightarrow> m | Some y \<Rightarrow> f y)"
  by (cases z) simp_all

lemma dv_keeps_pair: "(\<And>x y. keeps P (f x y)) \<Longrightarrow> keeps P (case z of (x, y) \<Rightarrow> f x y)"
  by (cases z) simp

lemma dv_keeps_when: "keeps P m \<Longrightarrow> keeps P (d_when b m)"
  by (simp add: d_when_def dv_keeps_basic)

lemma dv_keeps_try: "keeps P m \<Longrightarrow> keeps P (d_try m)"
  unfolding keeps_def by (rule dv_try)

lemmas dv_keeps_rules = dv_keeps_bind dv_keeps_basic dv_keeps_if dv_keeps_sum dv_keeps_option dv_keeps_pair dv_keeps_when dv_keeps_try

text \<open>Reading a bucket does not change the runtime.\<close>

lemma dv_bucket_at:
  "dv P (bucket_at i) (\<lambda>r rt. P rt \<and> (\<forall>b. r = Inr b \<longrightarrow> i < length (dr_buckets rt) \<and> b = dr_buckets rt ! i))"
  unfolding bucket_at_def by (rule dv_get, rule dv_run) (auto simp: bind_run_eq_Ret index_run_eq_Ret)

lemma dv_keeps_bucket_at: "keeps P (bucket_at i)"
  unfolding keeps_def by (rule dv_post [OF dv_bucket_at]) simp

subsection \<open>The invariant\<close>

text \<open>
  The handles of the lanes that are outside their bucket: in the recovery cells, and with the
  tokens \<open>T\<close> of owned runs.
\<close>

definition claims :: "prepared_id multiset \<Rightarrow> ('i, 'o) dynamic_runtime \<Rightarrow> prepared_id multiset" where
  "claims T rt = image_mset snd (values_in (rs_value (dr_recovery rt))) + T"

definition accounted :: "prepared_id multiset \<Rightarrow> ('i, 'o) dynamic_runtime \<Rightarrow> bool" where
  "accounted T rt \<longleftrightarrow> (\<forall>pid \<in># claims T rt. \<exists>b \<in> set (dr_buckets rt). sb_id b = pid \<and> count (claims T rt) pid \<le> sb_detached b)"

definition bucket_fine :: "nat \<times> nat \<Rightarrow> nat \<Rightarrow> ('i, 'o) shape_bucket \<Rightarrow> bool" where
  "bucket_fine arity lanes b \<longleftrightarrow> length (sb_lanes b) + sb_detached b = lanes \<and>
     length (fst (sb_key b)) = fst arity \<and> length (snd (sb_key b)) = snd arity"

definition cache_fine :: "nat \<times> nat \<Rightarrow> ('i, 'o) dynamic_runtime \<Rightarrow> bool" where
  "cache_fine arity rt \<longleftrightarrow>
     length (dr_buckets rt) \<le> do_max_buckets (options_of rt) \<and> distinct (map sb_key (dr_buckets rt)) \<and>
     (\<forall>b \<in> set (dr_buckets rt). bucket_fine arity (cf_lane_count (dr_config rt)) b) \<and>
     table_ok (bucket_ids rt) (dr_table rt) \<and> table_room (do_max_buckets (options_of rt)) (dr_table rt)"

definition config_fine :: "('i, 'o) dynamic_runtime \<Rightarrow> bool" where
  "config_fine rt \<longleftrightarrow> session_count (dr_config rt) = cf_lane_count (dr_config rt) \<and>
     0 < cf_lane_count (dr_config rt) \<and> cf_lane_count (dr_config rt) < 2 ^ 32 \<and>
     0 < do_max_buckets (options_of rt) \<and>
     length (rs_value (dr_recovery rt)) = do_max_buckets (options_of rt) * cf_lane_count (dr_config rt) \<and>
     (\<exists>st. holds_lanes (dr_recovery rt) st)"

text \<open>Since \<open>rt0\<close>, a handle has kept its bucket's shapes or died, and stays dead.\<close>

definition evolved :: "('i, 'o) dynamic_runtime \<Rightarrow> ('i, 'o) dynamic_runtime \<Rightarrow> bool" where
  "evolved rt0 rt \<longleftrightarrow> dr_config rt = dr_config rt0 \<and>
     (\<forall>b0 \<in> set (dr_buckets rt0). table_dead (dr_table rt) (sb_id b0) \<or>
        (\<exists>b \<in> set (dr_buckets rt). sb_id b = sb_id b0 \<and> sb_key b = sb_key b0)) \<and>
     (\<forall>pid. table_dead (dr_table rt0) pid \<longrightarrow> table_dead (dr_table rt) pid)"

definition good :: "nat \<times> nat \<Rightarrow> ('i, 'o) dynamic_runtime \<Rightarrow> prepared_id multiset \<Rightarrow> ('i, 'o) dynamic_runtime \<Rightarrow> bool" where
  "good arity rt0 T rt \<longleftrightarrow> cache_fine arity rt \<and> config_fine rt \<and> accounted T rt \<and> evolved rt0 rt"

lemma good_refl: "good arity rt0 T rt \<Longrightarrow> good arity rt T rt"
  by (auto simp: good_def evolved_def)

lemma evolved_trans:
  assumes "evolved a b" "evolved b c"
  shows "evolved a c"
  using assms unfolding evolved_def by (metis (no_types, lifting))

text \<open>The fields the invariant does not speak of.\<close>

lemma good_fields [simp]:
  "good arity rt0 T (rt\<lparr>dr_hot := h\<rparr>) = good arity rt0 T rt"
  "good arity rt0 T (rt\<lparr>dr_tick := t\<rparr>) = good arity rt0 T rt"
  "good arity rt0 T (rt\<lparr>dr_retired := bs\<rparr>) = good arity rt0 T rt"
  "good arity rt0 T (rt\<lparr>dr_plan := p\<rparr>) = good arity rt0 T rt"
  by (simp_all add: good_def cache_fine_def config_fine_def accounted_def claims_def evolved_def)

lemma good_fewer: "good arity rt0 (T + T') rt \<Longrightarrow> good arity rt0 T rt"
  unfolding good_def accounted_def claims_def by (fastforce simp: not_in_iff)


lemma set_swap_remove:
  assumes "i < length xs"
  shows "set (swap_remove xs i) \<subseteq> set xs" "x \<in> set xs \<Longrightarrow> x \<noteq> xs ! i \<Longrightarrow> x \<in> set (swap_remove xs i)"
  using swap_remove_from [OF assms] swap_remove_to [OF assms] by (metis in_set_conv_nth subsetI)+

subsection \<open>The moves the calls are made of\<close>

lemma accountedD:
  assumes "accounted T rt" "0 < count (claims T rt) pid"
  obtains b where "b \<in> set (dr_buckets rt)" "sb_id b = pid" "count (claims T rt) pid \<le> sb_detached b"
  using assms by (auto simp: accounted_def)

lemma good_ids: "good arity rt0 T rt \<Longrightarrow> distinct (bucket_ids rt)"
  unfolding good_def cache_fine_def by (blast intro: slots.distinct)

lemma unique_id:
  assumes "good arity rt0 T rt" "b \<in> set (dr_buckets rt)" "i < length (dr_buckets rt)" "sb_id b = sb_id (dr_buckets rt ! i)"
  shows "b = dr_buckets rt ! i"
  using good_ids [OF assms(1)] assms(2-4) by (metis inj_on_contraD distinct_map nth_mem)

text \<open>Replacing a bucket in place: its handle, its shapes and its number of lanes stay.\<close>

lemma good_set_bucket:
  assumes good: "good arity rt0 T rt" and i: "i < length (dr_buckets rt)"
    and b: "sb_id b = sb_id (dr_buckets rt ! i)" "sb_key b = sb_key (dr_buckets rt ! i)"
    "length (sb_lanes b) + sb_detached b = length (sb_lanes (dr_buckets rt ! i)) + sb_detached (dr_buckets rt ! i)"
    and T: "\<And>pid. pid \<noteq> sb_id b \<Longrightarrow> count T' pid \<le> count T pid" "count (claims T' rt) (sb_id b) \<le> sb_detached b"
  shows "good arity rt0 T' (set_bucket i b rt)"
proof -
  let ?rt = "set_bucket i b rt"
  have ids: "bucket_ids ?rt = bucket_ids rt" and keys: "map sb_key (dr_buckets ?rt) = map sb_key (dr_buckets rt)"
    using b i by (simp_all add: set_bucket_def map_update list_update_same_conv)
  have elem: "b' \<in> set (dr_buckets ?rt) \<Longrightarrow> b' = b \<or> b' \<in> set (dr_buckets rt)" for b'
    using set_update_subset_insert by (fastforce simp: set_bucket_def)
  have "bucket_fine arity (cf_lane_count (dr_config rt)) b"
    using good i b(2, 3) nth_mem [OF i] by (auto simp: good_def cache_fine_def bucket_fine_def)
  then have cache: "cache_fine arity ?rt"
    using good elem ids keys unfolding good_def cache_fine_def by (auto simp: set_bucket_def)
  have stays: "\<exists>b' \<in> set (dr_buckets ?rt). sb_id b' = sb_id c \<and> sb_key b' = sb_key c \<and> (sb_id c \<noteq> sb_id b \<longrightarrow> b' = c)"
    if c: "c \<in> set (dr_buckets rt)" for c
  proof -
    obtain j where j: "j < length (dr_buckets rt)" "c = dr_buckets rt ! j" using c by (auto simp: in_set_conv_nth)
    show ?thesis
      using j i b by (cases "j = i") (auto simp: set_bucket_def in_set_conv_nth intro!: bexI [of _ "(dr_buckets rt)[i := b] ! j"] exI [of _ j])
  qed
  have "accounted T' ?rt"
    unfolding accounted_def
  proof
    fix pid assume pid: "pid \<in># claims T' ?rt"
    have claims: "claims T' ?rt = claims T' rt" by (simp add: claims_def set_bucket_def)
    show "\<exists>b' \<in> set (dr_buckets ?rt). sb_id b' = pid \<and> count (claims T' ?rt) pid \<le> sb_detached b'"
    proof (cases "pid = sb_id b")
      case True
      moreover have "b \<in> set (dr_buckets ?rt)" using i by (simp add: set_bucket_def set_update_memI)
      ultimately show ?thesis using T(2) claims by auto
    next
      case False
      then have le: "count (claims T' rt) pid \<le> count (claims T rt) pid" using T(1) by (simp add: claims_def)
      have "0 < count (claims T' rt) pid" using pid claims by simp
      with le have pos: "0 < count (claims T rt) pid" by linarith
      have "accounted T rt" using good by (simp add: good_def)
      from accountedD [OF this pos] obtain c
        where "c \<in> set (dr_buckets rt)" "sb_id c = pid" "count (claims T rt) pid \<le> sb_detached c" .
      then show ?thesis using stays [of c] le False claims by force
    qed
  qed
  moreover have "config_fine ?rt" using good by (simp add: good_def config_fine_def set_bucket_def)
  moreover have "evolved rt0 ?rt"
    using good stays unfolding good_def evolved_def by (simp add: set_bucket_def) metis
  ultimately show ?thesis using cache by (simp add: good_def)
qed


lemma good_remove:
  assumes good: "good arity rt0 T rt" and i: "i < length (dr_buckets rt)" "sb_detached (dr_buckets rt ! i) = 0"
  shows "good arity rt0 T (rt\<lparr>dr_table := table_remove i (bucket_ids rt) (dr_table rt), dr_buckets := swap_remove (dr_buckets rt) i\<rparr>)"
    (is "good _ _ _ ?rt")
proof -
  have ok: "table_ok (bucket_ids rt) (dr_table rt)" and i': "i < length (bucket_ids rt)"
    using good i by (simp_all add: good_def cache_fine_def)
  note removed = slots.remove [OF ok i']
  have sub: "set (dr_buckets ?rt) \<subseteq> set (dr_buckets rt)" using set_swap_remove(1) [OF i(1)] by simp
  have stays: "c \<in> set (dr_buckets ?rt)" if "c \<in> set (dr_buckets rt)" "c \<noteq> dr_buckets rt ! i" for c
    using set_swap_remove(2) [OF i(1) that] by simp
  have "cache_fine arity ?rt"
    using good removed sub i remove_room [OF ok i'] unfolding good_def cache_fine_def
    by (auto simp: map_swap_remove distinct_swap_remove)
  moreover have "accounted T ?rt"
    unfolding accounted_def
  proof
    fix pid assume pid: "pid \<in># claims T ?rt"
    have claims: "claims T ?rt = claims T rt" by (simp add: claims_def)
    then obtain c where c: "c \<in> set (dr_buckets rt)" "sb_id c = pid" "count (claims T rt) pid \<le> sb_detached c"
      using good pid accountedD [of T rt pid] by (auto simp: good_def)
    moreover have "0 < count (claims T rt) pid" using pid claims by simp
    ultimately have "c \<noteq> dr_buckets rt ! i" using i(2) by (auto simp del: count_greater_zero_iff)
    then show "\<exists>b \<in> set (dr_buckets ?rt). sb_id b = pid \<and> count (claims T ?rt) pid \<le> sb_detached b"
      using c stays claims by auto
  qed
  moreover have "config_fine ?rt" using good by (simp add: good_def config_fine_def)
  moreover have "evolved rt0 ?rt"
  proof (rule evolved_trans)
    show "evolved rt0 rt" using good by (simp add: good_def)
    show "evolved rt ?rt"
      using removed slots.remove_dead [OF ok i'] stays i unfolding evolved_def by (auto simp: nth_map)
  qed
  ultimately show ?thesis by (simp add: good_def)
qed

lemma good_clear:
  assumes good: "good arity rt0 T rt" and zero: "\<forall>b \<in> set (dr_buckets rt). sb_detached b = 0"
  shows "good arity rt0 T (rt\<lparr>dr_table := table_clear (bucket_ids rt) (dr_table rt), dr_buckets := []\<rparr>)"
    (is "good _ _ _ ?rt")
proof -
  have ok: "table_ok (bucket_ids rt) (dr_table rt)" using good by (simp add: good_def cache_fine_def)
  have none: "claims T rt = {#}"
  proof (rule ccontr)
    assume "claims T rt \<noteq> {#}"
    then obtain pid where pid: "pid \<in># claims T rt" by auto
    then obtain b where "b \<in> set (dr_buckets rt)" "count (claims T rt) pid \<le> sb_detached b"
      using good accountedD [of T rt pid] by (auto simp: good_def)
    then show False using zero pid by (simp add: count_eq_zero_iff)
  qed
  then have acc: "accounted T ?rt" by (simp add: accounted_def claims_def)
  have dead: "table_dead (dr_table rt) d \<or> d \<in> set (bucket_ids rt) \<Longrightarrow> table_dead (dr_table ?rt) d" for d
    using slots.clear_dead [OF ok] by simp
  have "evolved rt ?rt" using dead by (auto simp: evolved_def)
  then have "evolved rt0 ?rt" using good evolved_trans unfolding good_def by blast
  then show ?thesis
    using good acc slots.clear [OF ok] clear_room [OF ok]
    by (simp add: good_def cache_fine_def config_fine_def)
qed


lemma good_push:
  assumes good: "good arity rt0 T rt" and room: "length (dr_buckets rt) < do_max_buckets (options_of rt)"
    and alloc: "allocate_prepared_bucket_id (length (dr_buckets rt)) (dr_table rt) = (Inr pid, tb)"
    and b: "sb_id b = pid" "sb_key b \<notin> sb_key ` set (dr_buckets rt)" "bucket_fine arity (cf_lane_count (dr_config rt)) b"
  shows "good arity rt0 T (rt\<lparr>dr_table := tb, dr_buckets := dr_buckets rt @ [b]\<rparr>)" (is "good _ _ _ ?rt")
proof -
  have ok: "table_ok (bucket_ids rt) (dr_table rt)" and space: "table_room (do_max_buckets (options_of rt)) (dr_table rt)"
    using good by (simp_all add: good_def cache_fine_def)
  have alloc': "allocate_prepared_bucket_id (length (bucket_ids rt)) (dr_table rt) = (Inr pid, tb)" using alloc by simp
  note new = slots.add [OF ok alloc'] and dead = slots.add_dead [OF ok alloc']
  have "cache_fine arity ?rt"
    using good b room new allocate_room [OF ok _ space alloc] unfolding good_def cache_fine_def by auto
  moreover have "evolved rt ?rt" using dead by (auto simp: evolved_def)
  then have "evolved rt0 ?rt" using good evolved_trans unfolding good_def by blast
  moreover have "accounted T ?rt" "config_fine ?rt"
    using good by (auto simp: good_def accounted_def claims_def config_fine_def)
  ultimately show ?thesis by (simp add: good_def)
qed

text \<open>A lane outside its bucket finds it again.\<close>

lemma claimed_bucket:
  assumes good: "good arity rt0 T rt" and pid: "pid \<in># claims T rt"
  obtains k where "bucket_index rt pid = Some k" "k < length (dr_buckets rt)" "sb_id (dr_buckets rt ! k) = pid"
    "count (claims T rt) pid \<le> sb_detached (dr_buckets rt ! k)"
    "bucket_fine arity (cf_lane_count (dr_config rt)) (dr_buckets rt ! k)"
proof -
  have "accounted T rt" using good by (simp add: good_def)
  then obtain b where b: "b \<in> set (dr_buckets rt)" "sb_id b = pid" "count (claims T rt) pid \<le> sb_detached b"
    using pid by (auto simp: accounted_def)
  then obtain k where k: "k < length (dr_buckets rt)" "b = dr_buckets rt ! k" by (auto simp: in_set_conv_nth)
  have ok: "table_ok (bucket_ids rt) (dr_table rt)" using good by (simp add: good_def cache_fine_def)
  have "bucket_index rt pid = Some k" using slots.resolve_nth [OF ok, of k] k b by simp
  moreover have "bucket_fine arity (cf_lane_count (dr_config rt)) b" using good b(1) by (auto simp: good_def cache_fine_def)
  ultimately show ?thesis using that k b by auto
qed

lemma claims_bound:
  assumes good: "good arity rt0 T rt" and i: "i < length (dr_buckets rt)"
  shows "count (claims T rt) (sb_id (dr_buckets rt ! i)) \<le> sb_detached (dr_buckets rt ! i)"
proof (cases "sb_id (dr_buckets rt ! i) \<in># claims T rt")
  case True
  from claimed_bucket [OF good this] obtain k where "k < length (dr_buckets rt)" "sb_id (dr_buckets rt ! k) = sb_id (dr_buckets rt ! i)"
    "count (claims T rt) (sb_id (dr_buckets rt ! i)) \<le> sb_detached (dr_buckets rt ! k)" by metis
  then show ?thesis using unique_id [OF good nth_mem i] by metis
qed (simp add: not_in_iff)

lemma good_cells:
  assumes good: "good arity rt0 T rt" and cells: "holds_lanes cells st" "length (rs_value cells) = length (rs_value (dr_recovery rt))"
    and claims: "claims T' (rt\<lparr>dr_recovery := cells\<rparr>) \<subseteq># claims T rt"
  shows "good arity rt0 T' (rt\<lparr>dr_recovery := cells\<rparr>)" (is "good _ _ _ ?rt")
proof -
  have "accounted T' ?rt"
    unfolding accounted_def
  proof
    fix pid assume pid: "pid \<in># claims T' ?rt"
    then have "pid \<in># claims T rt" using claims by (rule mset_subset_eqD [rotated])
    then obtain b where "b \<in> set (dr_buckets rt)" "sb_id b = pid" "count (claims T rt) pid \<le> sb_detached b"
      using good by (auto simp: good_def accounted_def)
    then show "\<exists>b \<in> set (dr_buckets ?rt). sb_id b = pid \<and> count (claims T' ?rt) pid \<le> sb_detached b"
      using mset_subset_eq_count [OF claims, of pid] by force
  qed
  moreover have "cache_fine arity ?rt" "config_fine ?rt" "evolved rt0 ?rt"
    using good cells by (auto simp: good_def cache_fine_def config_fine_def evolved_def)
  ultimately show ?thesis by (simp add: good_def)
qed

text \<open>Putting a lane back: the claim is settled.\<close>

lemma good_put_back:
  assumes good: "good arity rt0 (T + {#pid#}) rt" and k: "bucket_index rt pid = Some k"
  shows "k < length (dr_buckets rt)" "0 < sb_detached (dr_buckets rt ! k)"
    "length (sb_lanes (dr_buckets rt ! k)) < cf_lane_count (dr_config rt)"
    "good arity rt0 T (set_bucket k ((dr_buckets rt ! k)\<lparr>sb_detached := sb_detached (dr_buckets rt ! k) - 1,
       sb_lanes := sb_lanes (dr_buckets rt ! k) @ [lane]\<rparr>) rt)"
proof -
  have "pid \<in># claims (T + {#pid#}) rt" by (simp add: claims_def)
  from claimed_bucket [OF good this] k
  have b: "k < length (dr_buckets rt)" "sb_id (dr_buckets rt ! k) = pid"
    "count (claims (T + {#pid#}) rt) pid \<le> sb_detached (dr_buckets rt ! k)"
    "bucket_fine arity (cf_lane_count (dr_config rt)) (dr_buckets rt ! k)" by auto
  moreover have "count (claims (T + {#pid#}) rt) pid = Suc (count (claims T rt) pid)" by (simp add: claims_def)
  ultimately show "k < length (dr_buckets rt)" "0 < sb_detached (dr_buckets rt ! k)"
    "length (sb_lanes (dr_buckets rt ! k)) < cf_lane_count (dr_config rt)"
    "good arity rt0 T (set_bucket k ((dr_buckets rt ! k)\<lparr>sb_detached := sb_detached (dr_buckets rt ! k) - 1,
       sb_lanes := sb_lanes (dr_buckets rt ! k) @ [lane]\<rparr>) rt)"
    by (auto simp: bucket_fine_def intro!: good_set_bucket [OF good])
qed

subsection \<open>Reclaiming\<close>

definition pooled_lanes :: "('i, 'o) dynamic_runtime \<Rightarrow> nat" where
  "pooled_lanes rt = sum_list (map (length \<circ> sb_lanes) (dr_buckets rt))"

lemma pooled_put_back:
  assumes "k < length (dr_buckets rt)"
  shows "pooled_lanes (set_bucket k ((dr_buckets rt ! k)\<lparr>sb_detached := d, sb_lanes := sb_lanes (dr_buckets rt ! k) @ [lane]\<rparr>) rt) =
    Suc (pooled_lanes rt)"
  using assms elem_le_sum_list [of k "map (length \<circ> sb_lanes) (dr_buckets rt)"]
  by (simp add: pooled_lanes_def set_bucket_def map_update sum_list_update)

lemma reclaim_loop_good:
  assumes "good arity rt0 T rt" "holds_lanes (dr_recovery rt) st" "length st < fuel"
  shows "\<exists>rt'. reclaim_loop fuel n (rt, w) = Ret (n + length st, rt', w) \<and> good arity rt0 T rt' \<and>
    holds_lanes (dr_recovery rt') [] \<and> pooled_lanes rt' = pooled_lanes rt + length st"
  using assms
proof (induction st arbitrary: fuel n rt)
  case Nil
  then obtain f where fuel: "fuel = Suc f" by (cases fuel) auto
  have "rt\<lparr>dr_recovery := dr_recovery rt\<rparr> = rt" by (cases rt) simp
  then show ?case using Nil lanes_pop(1) [OF Nil(2)] fuel by simp
next
  case (Cons i st)
  then obtain f where fuel: "fuel = Suc f" by (cases fuel) auto
  let ?s = "dr_recovery rt"
  obtain s' v s'' where pop: "pop_ready ?s = Ret (Some i, s')" "rs_value ?s ! i = Some v" "cell_take i s' = (Some v, s'')"
    "holds_lanes s'' st" "rs_value s'' = (rs_value ?s)[i := None]"
    using lanes_pop(2) [OF Cons.prems(2) refl] by blast
  have i: "i < length (rs_value ?s)"
    using Cons.prems(2) by (auto simp: holds_lanes_def slots_size_def)
  have "rs_value s'' = (rs_value s')[i := None]" using pop(3) by (auto simp: cell_take_def)
  then have i': "i < length (rs_value s')" using pop(5) i by (metis length_list_update)
  obtain lane pid where v: "v = (lane, pid)" by (cases v)
  let ?rt = "rt\<lparr>dr_recovery := s''\<rparr>"
  have "claims (T + {#pid#}) ?rt = claims T rt"
    using values_in_get [OF i pop(2)] by (simp add: claims_def pop(5) v)
  then have good: "good arity rt0 (T + {#pid#}) ?rt"
    using Cons.prems(1) pop(4, 5) by (intro good_cells [of arity rt0 T]) simp_all
  then obtain k where k: "bucket_index ?rt pid = Some k"
    using claimed_bucket [OF good, of pid] by (auto simp: claims_def)
  note put = good_put_back [OF good k]
  show ?case
    using Cons.IH [OF put(4) [of lane], of f "Suc n"] pop i' v fuel k put(1, 2) Cons.prems(3) pooled_put_back [OF put(1)]
    by (simp add: get_opt_def set_bucket_def pooled_lanes_def)
qed

lemma reclaim_good:
  assumes "good arity rt0 T rt"
  shows "\<exists>st rt'. reclaim_dropped_runs (rt, w) = Ret (Inr (length st), rt', w) \<and> good arity rt0 T rt' \<and>
    holds_lanes (dr_recovery rt) st \<and> holds_lanes (dr_recovery rt') [] \<and> pooled_lanes rt' = pooled_lanes rt + length st"
proof -
  obtain st where st: "holds_lanes (dr_recovery rt) st" using assms by (auto simp: good_def config_fine_def)
  then have "set st \<subseteq> {..<length (rs_value (dr_recovery rt))}" "distinct st"
    by (auto simp: holds_lanes_def slots_size_def dest: chain_in_range)
  then have "length st < Suc (length (rs_value (dr_recovery rt)))"
    using card_mono [of "{..<length (rs_value (dr_recovery rt))}" "set st"] by (simp add: distinct_card)
  from reclaim_loop_good [OF assms st this, of 0 w] st show ?thesis
    by (auto simp: reclaim_dropped_runs_def)
qed

lemma dv_keeps_reclaim: "keeps (good arity rt0 T) reclaim_dropped_runs"
  unfolding keeps_def dv_def
proof (intro allI impI)
  fix rt w r rt' w' assume "good arity rt0 T rt" "reclaim_dropped_runs (rt, w) = Ret (r, rt', w')"
  then show "good arity rt0 T rt'" using reclaim_good [of arity rt0 T rt w] by auto
qed


subsection \<open>Calls at a known runtime\<close>

lemma at_run:
  assumes "\<And>a. m = Ret (Inr a) \<Longrightarrow> dv (\<lambda>x. x = rt) (f a) Q" "\<And>e. m = Ret (Inl e) \<Longrightarrow> Q (Inl e) rt"
  shows "dv (\<lambda>x. x = rt) (d_bind (d_run m) f) Q"
proof (cases m)
  case Panic
  then show ?thesis by (simp add: dv_def d_bind_def d_run_def)
next
  case (Ret r)
  then show ?thesis using assms by (cases r) (auto simp: dv_def d_bind_def d_run_def)
qed

lemma at_world:
  assumes "\<And>w a w'. m w = Ret (a, w') \<Longrightarrow> dv (\<lambda>x. x = rt) (f a) Q"
  shows "dv (\<lambda>x. x = rt) (d_bind (d_world m) f) Q"
  unfolding dv_def
proof (intro allI impI)
  fix x w r rt' w' assume "x = rt" "d_bind (d_world m) f (x, w) = Ret (r, rt', w')"
  then obtain a w1 where "m w = Ret (a, w1)" "f a (rt, w1) = Ret (r, rt', w')"
    by (auto simp: d_bind_def d_world_def bind_run_eq_Ret)
  then show "Q r rt'" using assms dvD [of "\<lambda>x. x = rt" "f a" Q rt] by blast
qed

lemma at_set: "dv (\<lambda>x. x = g rt) (f ()) Q \<Longrightarrow> dv (\<lambda>x. x = rt) (d_bind (d_set g) f) Q"
  by (simp add: dv_def d_bind_def d_set_def)

lemma at_get: "dv (\<lambda>x. x = rt) (f rt) Q \<Longrightarrow> dv (\<lambda>x. x = rt) (d_get f) Q"
  by (rule dv_get) simp

lemma at_bucket:
  "(i < length (dr_buckets rt) \<Longrightarrow> dv (\<lambda>x. x = rt) (f (dr_buckets rt ! i)) Q) \<Longrightarrow> dv (\<lambda>x. x = rt) (d_bind (bucket_at i) f) Q"
  by (cases "i < length (dr_buckets rt)")
    (simp_all add: dv_def d_bind_def bucket_at_def d_get_def d_run_def index_run_def)

lemma at_tick: "(\<And>tick. dv (\<lambda>x. x = rt\<lparr>dr_tick := tick\<rparr>) (f tick) Q) \<Longrightarrow> dv (\<lambda>x. x = rt) (d_bind next_tick f) Q"
  unfolding dv_def d_bind_def next_tick_def by (simp add: Let_def)

lemma at_keeps: "P rt \<Longrightarrow> keeps P m \<Longrightarrow> dv (\<lambda>x. x = rt) m (\<lambda>_. P)"
  unfolding keeps_def by (rule dv_pre [of P]) auto

lemma at_return: "Q (Inr r) rt \<Longrightarrow> dv (\<lambda>x. x = rt) (d_return r) Q"
  by (rule dv_return) simp

lemma at_fail: "Q (Inl e) rt \<Longrightarrow> dv (\<lambda>x. x = rt) (d_fail e) Q"
  by (rule dv_fail) simp

lemma at_failing: "Q (Inl e) rt \<Longrightarrow> dv (\<lambda>x. x = rt) (failing_lanes env lanes e) Q"
  unfolding failing_lanes_def by (intro at_world at_fail)

lemma at_bind:
  assumes "dv (\<lambda>x. x = rt) m (\<lambda>r x. case r of Inl e \<Rightarrow> Q (Inl e) x | Inr a \<Rightarrow> R a x)"
    "\<And>a x. R a x \<Longrightarrow> dv (\<lambda>y. y = x) (f a) Q"
  shows "dv (\<lambda>x. x = rt) (d_bind m f) Q"
  by (rule dv_bind [OF assms(1)]) (use assms(2) in \<open>auto simp: dv_def\<close>)

lemmas at_rules = at_run at_world at_set at_get at_bucket at_tick at_return at_fail at_failing

lemma for_lanes_length: "for_lanes m (ls, t) = Ret (r, ls', t') \<Longrightarrow> length ls' = length ls"
proof (induction ls arbitrary: t r ls' t')
  case (Cons l ls)
  from Cons.prems obtain x :: "lane_error + unit" and l1 t1 where "(case x of Inl e \<Rightarrow> Ret (Inl e, l1 # ls, t1)
      | Inr _ \<Rightarrow> bind_run (for_lanes m (ls, t1)) (\<lambda>(r', ls', t''). Ret (r', l1 # ls', t''))) = Ret (r, ls', t')"
    by (auto simp: bind_run_eq_Ret)
  then show ?case by (cases x) (auto simp: bind_run_eq_Ret dest: Cons.IH)
qed simp

lemma world_lanes_length: "world_lanes m ls w = Ret (r, ls', w') \<Longrightarrow> length ls' = length ls"
  by (auto simp: world_lanes_def bind_run_eq_Ret dest: for_lanes_length)

subsection \<open>Every call keeps the invariant\<close>

lemma dv_keeps_reap: "keeps (good arity rt0 T) (reap_retired_buckets env)"
  unfolding keeps_def dv_def reap_retired_buckets_def by (auto simp: bind_run_eq_Ret)

lemma dv_keeps_wait: "keeps (good arity rt0 T) (wait_for_retired_buckets env)"
  unfolding wait_for_retired_buckets_def by (intro dv_keeps_get dv_keeps_rules dv_keeps_set) simp_all

lemma dv_keeps_tick: "keeps (good arity rt0 T) next_tick"
  by (simp add: keeps_def dv_def next_tick_def Let_def)

definition shrunk :: "('i, 'o) dynamic_runtime \<Rightarrow> ('i, 'o) dynamic_runtime \<Rightarrow> bool" where
  "shrunk rt rt' \<longleftrightarrow> sb_key ` set (dr_buckets rt') \<subseteq> sb_key ` set (dr_buckets rt)"

lemma retire_good:
  assumes good: "good arity rt0 T rt"
  shows "dv (\<lambda>x. x = rt) (retire_bucket_at env i)
    (\<lambda>r rt'. good arity rt0 T rt' \<and> shrunk rt rt' \<and> (r = Inr True \<longrightarrow> length (dr_buckets rt') < length (dr_buckets rt)))"
proof -
  let ?rt = "rt\<lparr>dr_table := table_remove i (bucket_ids rt) (dr_table rt), dr_buckets := swap_remove (dr_buckets rt) i\<rparr>"
  define Q :: "dyn_error + bool \<Rightarrow> ('a, 'b) dynamic_runtime \<Rightarrow> bool" where
    "Q r rt' \<longleftrightarrow> good arity rt0 T rt' \<and> shrunk rt rt' \<and> (r = Inr True \<longrightarrow> length (dr_buckets rt') < length (dr_buckets rt))" for r rt'
  have keep: "Q (Inr False) rt" using good by (simp add: Q_def shrunk_def)
  have gone: "Q r ?rt" if i: "i < length (dr_buckets rt)" "sb_detached (dr_buckets rt ! i) = 0" for r
    using good_remove [OF good i] set_swap_remove(1) [OF i(1)] i(1) by (auto simp: Q_def shrunk_def)
  have kept: "Q r (?rt\<lparr>dr_retired := bs\<rparr>)" if "i < length (dr_buckets rt)" "sb_detached (dr_buckets rt ! i) = 0" for r bs
    using gone [OF that, of r] by (simp add: Q_def shrunk_def)
  have "dv (\<lambda>x. x = rt) (retire_bucket_at env i) Q"
    unfolding retire_bucket_at_def
    by (intro at_get at_run) (auto simp: bind_run_eq_Ret index_run_eq_Ret split: option.split
        intro!: at_world at_set at_return gone keep kept [simplified])
  then show ?thesis unfolding Q_def .
qed


text \<open>A request has the arity of the runtime's type, so matching is equality of shapes.\<close>

definition requests :: "nat \<times> nat \<Rightarrow> shapes \<Rightarrow> shapes \<Rightarrow> bool" where
  "requests arity ins outs \<longleftrightarrow> length ins = fst arity \<and> length outs = snd arity"

lemma zip_all_eq: "length xs = length ys \<Longrightarrow> list_all (\<lambda>(a, b). a = b) (zip xs ys) \<longleftrightarrow> xs = ys"
  by (induction xs ys rule: list_induct2) auto

lemma key_matches_iff:
  "requests arity ins outs \<Longrightarrow> bucket_fine arity lanes b \<Longrightarrow> key_matches (sb_key b) ins outs \<longleftrightarrow> sb_key b = (ins, outs)"
  by (auto simp: key_matches_def requests_def bucket_fine_def zip_all_eq prod_eq_iff)

lemma find_Some:
  assumes "good arity rt0 T rt" "requests arity ins outs" "find_bucket_index rt ins outs = Some i"
  shows "i < length (dr_buckets rt) \<and> sb_key (dr_buckets rt ! i) = (ins, outs)"
proof -
  have fine: "bucket_fine arity (cf_lane_count (dr_config rt)) (dr_buckets rt ! i)" if "i < length (dr_buckets rt)"
    using assms(1) that by (auto simp: good_def cache_fine_def)
  have "i < length (dr_buckets rt) \<and> key_matches (sb_key (dr_buckets rt ! i)) ins outs"
    using assms(3) position_SomeD [of "\<lambda>b. key_matches (sb_key b) ins outs" "dr_buckets rt" i]
    by (auto simp: find_bucket_index_def Let_def split: if_splits option.splits)
  then show ?thesis using key_matches_iff [OF assms(2) fine] by blast
qed

lemma find_None:
  assumes "good arity rt0 T rt" "requests arity ins outs" "find_bucket_index rt ins outs = None"
  shows "(ins, outs) \<notin> sb_key ` set (dr_buckets rt)"
proof
  assume "(ins, outs) \<in> sb_key ` set (dr_buckets rt)"
  then obtain b where b: "b \<in> set (dr_buckets rt)" "sb_key b = (ins, outs)" by auto
  have "\<forall>b \<in> set (dr_buckets rt). \<not> key_matches (sb_key b) ins outs"
    using assms(3) by (auto simp: find_bucket_index_def Let_def split: if_splits option.splits)
  moreover have "bucket_fine arity (cf_lane_count (dr_config rt)) b" using assms(1) b(1) by (auto simp: good_def cache_fine_def)
  ultimately show False using key_matches_iff [OF assms(2)] b by blast
qed

lemma evict_good:
  assumes good: "good arity rt0 T rt"
  shows "dv (\<lambda>x. x = rt) (evict_one_bucket_if_full env) (\<lambda>r rt'. good arity rt0 T rt' \<and> shrunk rt rt' \<and>
    (r = Inr () \<longrightarrow> length (dr_buckets rt') < do_max_buckets (options_of rt')))"
proof -
  define Q :: "dyn_error + unit \<Rightarrow> ('a, 'b) dynamic_runtime \<Rightarrow> bool" where
    "Q r rt' \<longleftrightarrow> good arity rt0 T rt' \<and> shrunk rt rt' \<and>
       (r = Inr () \<longrightarrow> length (dr_buckets rt') < do_max_buckets (options_of rt'))" for r rt'
  let ?rt = "rt\<lparr>dr_hot := None\<rparr>"
  have err: "Q (Inl e) rt" "Q (Inl e) ?rt" for e using good by (simp_all add: Q_def shrunk_def)
  have room: "Q (Inr ()) rt" if "length (dr_buckets rt) < do_max_buckets (options_of rt)"
    using good that by (simp add: Q_def shrunk_def)
  have config: "good arity rt0 T rt' \<Longrightarrow> options_of rt' = options_of rt" for rt'
    using good by (simp add: good_def evolved_def)
  have le: "length (dr_buckets rt) \<le> do_max_buckets (options_of rt)" using good by (simp add: good_def cache_fine_def)
  have "dv (\<lambda>x. x = ?rt) (d_bind (retire_bucket_at env i) (\<lambda>ok. if ok then d_return () else d_fail Eviction_inconsistent)) Q" for i
  proof (rule at_bind)
    have "good arity rt0 T ?rt" using good by simp
    from retire_good [OF this]
    show "dv (\<lambda>x. x = ?rt) (retire_bucket_at env i) (\<lambda>r x. case r of Inl e \<Rightarrow> Q (Inl e) x
        | Inr ok \<Rightarrow> good arity rt0 T x \<and> shrunk rt x \<and> (ok \<longrightarrow> length (dr_buckets x) < length (dr_buckets rt)))"
      by (rule dv_post) (auto simp: Q_def shrunk_def split: sum.split)
    show "dv (\<lambda>y. y = x) (if ok then d_return () else d_fail Eviction_inconsistent) Q"
      if "good arity rt0 T x \<and> shrunk rt x \<and> (ok \<longrightarrow> length (dr_buckets x) < length (dr_buckets rt))" for ok x
      using that le config [of x] by (auto simp: Q_def intro!: at_return at_fail)
  qed
  then have "dv (\<lambda>x. x = rt) (evict_one_bucket_if_full env) Q"
    unfolding evict_one_bucket_if_full_def
    by (intro at_get) (auto split: option.split intro!: at_return at_fail at_set room err)
  then show ?thesis unfolding Q_def .
qed

text \<open>Building, annotating and capturing leave the runtime alone.\<close>

lemma d_build_lanes:
  "dv (\<lambda>x. x = rt) (d_build (build_lane_set env cpu cf ins outs))
     (\<lambda>r x. x = rt \<and> (\<forall>a. r = Inr a \<longrightarrow> length (sr_lanes a) = session_count cf))"
  unfolding dv_def d_build_def
proof (intro allI impI)
  fix x w r rt' w' assume "x = rt" "(case (x, w) of (rt, w) \<Rightarrow> bind_run (build_lane_set env cpu cf ins outs (wd_keys w, wd_log w))
     (\<lambda>(r, k, t). Ret (case r of Inl e \<Rightarrow> Inl (Build_failed e) | Inr a \<Rightarrow> Inr a, rt, w\<lparr>wd_keys := k, wd_log := t\<rparr>))) = Ret (r, rt', w')"
  then obtain y k t where y: "build_lane_set env cpu cf ins outs (wd_keys w, wd_log w) = Ret (y, k, t)"
    and r: "r = (case y of Inl e \<Rightarrow> Inl (Build_failed e) | Inr a \<Rightarrow> Inr a)" "rt' = rt"
    by (auto simp: bind_run_eq_Ret)
  show "rt' = rt \<and> (\<forall>a. r = Inr a \<longrightarrow> length (sr_lanes a) = session_count cf)"
    using builds_setD(3) [OF build_lane_set_built y] r by (cases y) (auto simp: lane_set_of_def set_built_def)
qed

lemma static_annotate_length:
  "static_set_gpu_graph_id pv gid (ls, t) = Ret (r, ls', t') \<Longrightarrow> length ls' = length ls"
  using check_graph_lanes_eq [of ls t] annotate_lanes_eq [of pv gid ls t]
  by (auto simp: static_set_gpu_graph_id_def split: sum.splits)

lemma on_new_lanes_length:
  assumes "\<And>t r ls' t'. m (lanes, t) = Ret (r, ls', t') \<Longrightarrow> length ls' = length lanes"
  shows "dv (\<lambda>x. x = rt) (on_new_lanes env ef m lanes)
    (\<lambda>r x. x = rt \<and> (\<forall>ls. r = Inr ls \<longrightarrow> length ls = length lanes))"
  unfolding on_new_lanes_def
proof (rule at_world)
  fix w a w' assume "bind_run (m (lanes, wd_log w)) (\<lambda>(r, lanes, t). Ret ((r, lanes), w\<lparr>wd_log := t\<rparr>)) = Ret (a, w')"
  then obtain r ls where a: "a = (r, ls)" "length ls = length lanes" by (auto simp: bind_run_eq_Ret dest: assms)
  then show "dv (\<lambda>x. x = rt) (case a of (r, lanes) \<Rightarrow> case r of Inl e \<Rightarrow> failing_lanes env lanes (ef e) | Inr _ \<Rightarrow> d_return lanes)
      (\<lambda>r x. x = rt \<and> (\<forall>ls. r = Inr ls \<longrightarrow> length ls = length lanes))"
    by (cases r) (auto intro!: at_failing at_return)
qed


lemma annotate_lanes_length:
  "dv (\<lambda>x. x = rt) (annotate_and_capture env lanes)
     (\<lambda>r x. x = rt \<and> (\<forall>gid ls. r = Inr (gid, ls) \<longrightarrow> length ls = length lanes))"
proof -
  define Q :: "dyn_error + (int option \<times> ('a, 'b) lane list) \<Rightarrow> ('a, 'b) dynamic_runtime \<Rightarrow> bool" where
    "Q r x \<longleftrightarrow> x = rt \<and> (\<forall>gid ls. r = Inr (gid, ls) \<longrightarrow> length ls = length lanes)" for r x
  have ok: "Q (Inl e) rt" "length ls = length lanes \<Longrightarrow> Q (Inr (gid, ls)) rt" for e gid ls by (simp_all add: Q_def)
  have annotate: "dv (\<lambda>x. x = rt) (d_bind (on_new_lanes env Lane_failed (static_set_gpu_graph_id pv gid) lanes) (\<lambda>ls.
      d_bind (on_new_lanes env Capture_failed (for_lanes (run_lane pv)) ls) (\<lambda>ls. d_return (Some gid, ls)))) Q" for pv gid
    by (intro at_bind [where R = "\<lambda>ls x. x = rt \<and> length ls = length lanes"] dv_post [OF on_new_lanes_length])
      (auto dest: static_annotate_length for_lanes_length intro!: at_return split: sum.split simp: ok)
  have alloc: "dv (\<lambda>x. x = rt) (d_try dynamic_allocate_graph_id) (\<lambda>r x. case r of Inl e \<Rightarrow> Q (Inl e) x | Inr _ \<Rightarrow> x = rt)"
    by (rule dv_try) (auto simp: dv_def dynamic_allocate_graph_id_def split: if_splits prod.splits sum.splits)
  have "dv (\<lambda>x. x = rt) (annotate_and_capture env lanes) Q"
    unfolding annotate_and_capture_def
    by (rule at_get) (auto intro!: at_return at_failing at_bind [OF alloc] annotate simp: ok split: sum.split)
  then show ?thesis unfolding Q_def .
qed

lemma slot_bound:
  assumes "table_ok ids tb" "pid \<in> set ids"
  shows "pi_slot pid < 2 ^ 32"
proof -
  obtain i where "(pid, i) \<in> indexed ids" using assms(2) by (auto simp: in_set_conv_nth)
  then have "pi_slot pid < length (tb_slots tb)" using namesD(1) assms(1) unfolding table_ok_def by blast
  then show ?thesis using assms(1) by (simp add: table_ok_def names_def)
qed

lemma recovery_base_fits:
  assumes good: "good arity rt0 T rt"
    and alloc: "allocate_prepared_bucket_id (length (dr_buckets rt)) (dr_table rt) = (Inr pid, tb)"
  shows "checked_mul_at 64 (pi_slot pid) (cf_lane_count (dr_config rt)) = Some (pi_slot pid * cf_lane_count (dr_config rt))"
proof -
  have ok: "table_ok (bucket_ids rt) (dr_table rt)" using good by (simp add: good_def cache_fine_def)
  have "pi_slot pid < 2 ^ 32"
    using slots.add [OF ok, of pid tb] alloc slot_bound [of "bucket_ids rt @ [pid]" tb pid] by simp
  moreover have "cf_lane_count (dr_config rt) < 2 ^ 32" using good by (simp add: good_def config_fine_def)
  ultimately have "pi_slot pid * cf_lane_count (dr_config rt) \<le> (2 ^ 32 - 1) * (2 ^ 32 - 1)" by (intro mult_mono) auto
  then show ?thesis by (simp add: checked_mul_at_def)
qed

lemma push_good:
  assumes good: "good arity rt0 T rt" and room: "length (dr_buckets rt) < do_max_buckets (options_of rt)"
    and key: "(ins, outs) \<notin> sb_key ` set (dr_buckets rt)" "requests arity ins outs"
    and lanes: "length lanes = cf_lane_count (dr_config rt)"
  shows "dv (\<lambda>x. x = rt) (push_bucket env (ins, outs) gid lanes) (\<lambda>r rt'. good arity rt0 T rt' \<and>
    (\<forall>i. r = Inr i \<longrightarrow> i < length (dr_buckets rt') \<and> sb_key (dr_buckets rt' ! i) = (ins, outs)))"
proof -
  define Q :: "dyn_error + nat \<Rightarrow> ('a, 'b) dynamic_runtime \<Rightarrow> bool" where
    "Q r rt' \<longleftrightarrow> good arity rt0 T rt' \<and>
       (\<forall>i. r = Inr i \<longrightarrow> i < length (dr_buckets rt') \<and> sb_key (dr_buckets rt' ! i) = (ins, outs))" for r rt'
  have ok: "table_ok (bucket_ids rt) (dr_table rt)" using good by (simp add: good_def cache_fine_def)
  obtain r tb where alloc: "allocate_prepared_bucket_id (length (dr_buckets rt)) (dr_table rt) = (r, tb)" by fastforce
  have "dv (\<lambda>x. x = rt) (push_bucket env (ins, outs) gid lanes) Q"
    unfolding push_bucket_def
  proof (intro at_tick at_get, goal_cases)
    case (1 tick)
    let ?rt = "rt\<lparr>dr_tick := tick\<rparr>"
    show ?case
    proof (cases r)
      case (Inl e)
      then have "?rt\<lparr>dr_table := tb\<rparr> = ?rt" using slots.add_error [OF ok, of e tb] alloc by (cases rt) simp
      then show ?thesis using alloc Inl good by (auto intro!: at_set at_failing simp: Q_def)
    next
      case (Inr pid)
      note base = recovery_base_fits [OF good, of pid tb]
      define b where "b = \<lparr>sb_key = (ins, outs), sb_id = pid, sb_lanes = with_recovery_slots
        (pi_slot pid * cf_lane_count (dr_config rt)) lanes, sb_last_used = tick, sb_detached = 0, sb_graph_id = gid\<rparr>"
      have "bucket_fine arity (cf_lane_count (dr_config rt)) b"
        using key(2) lanes by (simp add: b_def bucket_fine_def requests_def with_recovery_slots_def)
      then have "good arity rt0 T (?rt\<lparr>dr_table := tb, dr_buckets := dr_buckets ?rt @ [b]\<rparr>)"
        using good room key alloc Inr by (intro good_push) (simp_all add: b_def)
      then have "Q (Inr (length (dr_buckets rt)))
          (?rt\<lparr>dr_table := tb, dr_buckets := dr_buckets ?rt @ [b], dr_hot := Some (length (dr_buckets rt))\<rparr>)"
        by (simp add: Q_def b_def)
      then show ?thesis using alloc Inr base unfolding b_def
        by (auto simp: dv_def [of _ "\<lambda>_. Panic"] simp del: checked_mul_at_eq_Some intro!: at_set at_return)
    qed
  qed
  then show ?thesis unfolding Q_def .
qed


definition found :: "nat \<times> nat \<Rightarrow> ('i, 'o) dynamic_runtime \<Rightarrow> prepared_id multiset \<Rightarrow> shapes \<Rightarrow> shapes
    \<Rightarrow> dyn_error + nat \<Rightarrow> ('i, 'o) dynamic_runtime \<Rightarrow> bool" where
  "found arity rt0 T ins outs r rt \<longleftrightarrow> good arity rt0 T rt \<and>
     (\<forall>i. r = Inr i \<longrightarrow> i < length (dr_buckets rt) \<and> sb_key (dr_buckets rt ! i) = (ins, outs))"

lemma found_Inl [simp]: "found arity rt0 T ins outs (Inl e) rt = good arity rt0 T rt"
  by (simp add: found_def)

lemma create_good:
  assumes good: "good arity rt0 T rt" and key: "(ins, outs) \<notin> sb_key ` set (dr_buckets rt)" "requests arity ins outs"
  shows "dv (\<lambda>x. x = rt) (create_bucket env ins outs) (found arity rt0 T ins outs)"
  unfolding create_bucket_def
proof (rule at_bind [where R = "\<lambda>_ x. good arity rt0 T x \<and> (ins, outs) \<notin> sb_key ` set (dr_buckets x) \<and>
    length (dr_buckets x) < do_max_buckets (options_of x)"])
  show "dv (\<lambda>x. x = rt) (evict_one_bucket_if_full env) (\<lambda>r x. case r of Inl e \<Rightarrow> found arity rt0 T ins outs (Inl e) x
      | Inr _ \<Rightarrow> good arity rt0 T x \<and> (ins, outs) \<notin> sb_key ` set (dr_buckets x) \<and> length (dr_buckets x) < do_max_buckets (options_of x))"
    by (rule dv_post [OF evict_good [OF good]]) (use key in \<open>auto simp: shrunk_def split: sum.split\<close>)
  fix a x assume x: "good arity rt0 T x \<and> (ins, outs) \<notin> sb_key ` set (dr_buckets x) \<and> length (dr_buckets x) < do_max_buckets (options_of x)"
  have lanes: "session_count (dr_config x) = cf_lane_count (dr_config x)" using x by (simp add: good_def config_fine_def)
  have push: "dv (\<lambda>y. y = x) (push_bucket env (ins, outs) gid ls) (found arity rt0 T ins outs)"
    if "length ls = session_count (dr_config x)" for gid ls
    by (rule dv_post [OF push_good [of arity rt0 T x]]) (use x key(2) lanes that in \<open>auto simp: found_def\<close>)
  have capture: "dv (\<lambda>y. y = x) (d_bind (annotate_and_capture env ls) (\<lambda>(gid, ls). push_bucket env (ins, outs) gid ls))
      (found arity rt0 T ins outs)" if "length ls = session_count (dr_config x)" for ls
    by (rule at_bind [where R = "\<lambda>(gid, ls) y. y = x \<and> length ls = session_count (dr_config x)"],
        rule dv_post [OF annotate_lanes_length]) (use x that push in \<open>auto split: sum.split\<close>)
  show "dv (\<lambda>y. y = x) (d_get (\<lambda>rt. d_bind (d_build (build_lane_set (de_lane env) (de_cpu env) (dr_config rt) ins outs)) (\<lambda>lane_set.
      d_bind (annotate_and_capture env (sr_lanes lane_set)) (\<lambda>(gid, lanes). push_bucket env (ins, outs) gid lanes))))
      (found arity rt0 T ins outs)"
    by (rule at_get, rule at_bind [where R = "\<lambda>a y. y = x \<and> length (sr_lanes a) = session_count (dr_config x)"],
        rule dv_post [OF d_build_lanes]) (use x capture in \<open>auto split: sum.split\<close>)
qed

lemma touch_good:
  assumes good: "good arity rt0 T rt" and i: "i < length (dr_buckets rt)" "sb_key (dr_buckets rt ! i) = (ins, outs)"
  shows "dv (\<lambda>x. x = rt) (touch_bucket i) (found arity rt0 T ins outs)"
  unfolding touch_bucket_def
proof (intro at_tick at_bucket at_set at_return, goal_cases)
  case (1 tick)
  let ?b = "(dr_buckets rt ! i)\<lparr>sb_last_used := tick\<rparr>"
  have "good arity rt0 T (set_bucket i ?b (rt\<lparr>dr_tick := tick\<rparr>))"
    using i good claims_bound [OF good i(1)] by (intro good_set_bucket [of _ _ T]) (simp_all add: claims_def)
  then show ?case using i by (simp add: found_def set_bucket_def)
qed


lemma dv_keeps_validate: "keeps P (validate_planned_shape ins outs)"
  unfolding validate_planned_shape_def by (intro dv_keeps_get dv_keeps_rules)

lemma dv_keeps_refuse: "keeps P refuse_graph_bucket_creation_while_in_flight"
  unfolding refuse_graph_bucket_creation_while_in_flight_def by (intro dv_keeps_get dv_keeps_rules dv_keeps_bucket_at)

lemma dv_keeps_then: "keeps P m \<Longrightarrow> (\<And>a. dv P (f a) Q) \<Longrightarrow> (\<And>e rt. P rt \<Longrightarrow> Q (Inl e) rt) \<Longrightarrow> dv P (d_bind m f) Q"
  unfolding keeps_def
  by (rule dv_bind [where R = "\<lambda>_. P"], rule dv_post [where Q = "\<lambda>_. P"]) (simp_all split: sum.split)

lemma get_or_create_good:
  assumes "requests arity ins outs"
  shows "dv (good arity rt0 T) (get_or_create_bucket_inner env ins outs allow) (found arity rt0 T ins outs)"
  unfolding get_or_create_bucket_inner_def
proof (intro dv_keeps_then dv_keeps_reclaim dv_keeps_validate dv_keeps_reap dv_get)
  fix rt :: "('a, 'b) dynamic_runtime" assume good: "good arity rt0 T rt"
  have create: "dv (\<lambda>x. x = rt) (d_bind (d_when c refuse_graph_bucket_creation_while_in_flight) (\<lambda>_. create_bucket env ins outs))
      (found arity rt0 T ins outs)" if "find_bucket_index rt ins outs = None" for c
    by (intro dv_keeps_then dv_keeps_when dv_keeps_refuse create_good [OF good find_None [OF good assms that] assms]) (simp add: good)
  show "dv (\<lambda>x. x = rt) (case find_bucket_index rt ins outs of Some i \<Rightarrow> touch_bucket i
      | None \<Rightarrow> if \<not> allow then d_fail Strict_miss
          else d_bind (d_when (do_cuda_graph (options_of rt)) refuse_graph_bucket_creation_while_in_flight) (\<lambda>_. create_bucket env ins outs))
      (found arity rt0 T ins outs)"
    using find_Some [OF good assms] touch_good [OF good] create good
    by (cases "find_bucket_index rt ins outs") (auto intro!: at_fail)
qed simp_all

lemma dv_keeps_get_or_create:
  "requests arity ins outs \<Longrightarrow> keeps (good arity rt0 T) (get_or_create_bucket_inner env ins outs allow)"
  unfolding keeps_def by (rule dv_post [OF get_or_create_good]) (auto simp: found_def)

subsection \<open>Owned runs\<close>

lemma at_lane: "(\<And>w r l' w'. world_lane m l w = Ret (r, l', w') \<Longrightarrow> dv (\<lambda>x. x = rt) (f (r, l')) Q) \<Longrightarrow>
    dv (\<lambda>x. x = rt) (d_bind (d_lane m l) f) Q"
  unfolding d_lane_def by (rule at_world) (auto simp: bind_run_eq_Ret)

lemma return_good:
  assumes "good arity rt0 (T + {#pid#}) rt"
  shows "dv (\<lambda>x. x = rt) (return_detached_lane env pid lane) (\<lambda>r rt'. r = Inr () \<and> good arity rt0 T rt')"
proof -
  have "pid \<in># claims (T + {#pid#}) rt" by (simp add: claims_def)
  from claimed_bucket [OF assms this] obtain k where k: "bucket_index rt pid = Some k" by metis
  note put = good_put_back [OF assms k]
  show ?thesis
    unfolding return_detached_lane_def
    by (rule at_get) (use k put in \<open>auto simp: get_opt_def intro!: dv_set\<close>)
qed

lemma forget_good: "good arity rt0 (T + {#pid#}) rt \<Longrightarrow> dv (\<lambda>x. x = rt) (d_forget l) (\<lambda>r rt'. r = Inr () \<and> good arity rt0 T rt')"
  unfolding d_forget_def using good_fewer [of arity rt0 T "{#pid#}" rt] by (intro dv_world) auto

lemma try_return_good:
  assumes "good arity rt0 (T + {#pid#}) rt"
  shows "dv (\<lambda>x. x = rt) (d_try (return_detached_lane env pid lane)) (\<lambda>r rt'. r = Inr (Inr ()) \<and> good arity rt0 T rt')"
  by (rule dv_try, rule dv_post [OF return_good [OF assms]]) simp

definition launched_as :: "nat \<times> nat \<Rightarrow> ('i, 'o) dynamic_runtime \<Rightarrow> prepared_id multiset \<Rightarrow> prepared_id
    \<Rightarrow> dyn_error + ('i, 'o) owned_run \<Rightarrow> ('i, 'o) dynamic_runtime \<Rightarrow> bool" where
  "launched_as arity rt0 T pid r rt \<longleftrightarrow> (case r of Inl _ \<Rightarrow> good arity rt0 T rt
     | Inr run \<Rightarrow> snd run = pid \<and> good arity rt0 (T + {#pid#}) rt)"

lemma launch_good:
  assumes good: "good arity rt0 (T + {#pid#}) rt"
  shows "dv (\<lambda>x. x = rt) (launch_owned env pid prepare lane) (launched_as arity rt0 T pid)"
proof -
  have ok: "launched_as arity rt0 T pid (Inr (l, pid)) rt" for l using good by (simp add: launched_as_def)
  have returned: "dv (\<lambda>x. x = rt) (d_bind (d_try (return_detached_lane env pid l)) (\<lambda>_. d_fail e)) (launched_as arity rt0 T pid)" for l e
    by (rule at_bind [where R = "\<lambda>_. good arity rt0 T"], rule dv_post [OF try_return_good [OF good]])
      (auto intro!: at_fail simp: launched_as_def)
  have dropped: "dv (\<lambda>x. x = rt) (d_bind (d_bind (d_forget l) (\<lambda>_. d_return c)) (\<lambda>_. d_fail e)) (launched_as arity rt0 T pid)" for l e c
    by (rule at_bind [where R = "\<lambda>_. good arity rt0 T"], rule at_bind [where R = "\<lambda>_. good arity rt0 T"],
        rule dv_post [OF forget_good [OF good]]) (auto intro!: at_fail at_return simp: launched_as_def)
  show ?thesis
    unfolding launch_owned_def
    by (auto intro!: at_lane at_return ok returned dropped split: sum.split)
qed

lemma detach_good:
  assumes good: "good arity rt0 T rt" and k: "k < length (dr_buckets rt)" "sb_lanes (dr_buckets rt ! k) \<noteq> []"
  shows "good arity rt0 (T + {#sb_id (dr_buckets rt ! k)#}) (set_bucket k ((dr_buckets rt ! k)
    \<lparr>sb_lanes := butlast (sb_lanes (dr_buckets rt ! k)), sb_detached := sb_detached (dr_buckets rt ! k) + 1\<rparr>) rt)"
  using k claims_bound [OF good k(1)] by (intro good_set_bucket [OF good]) (auto simp: claims_def)

lemma enqueue_good: "dv (good arity rt0 T) (enqueue_prepared env pid prepare) (launched_as arity rt0 T pid)"
  unfolding enqueue_prepared_def
proof (intro dv_keeps_then dv_keeps_reclaim dv_get)
  fix rt :: "('a, 'b) dynamic_runtime" assume good: "good arity rt0 T rt"
  have ok: "table_ok (bucket_ids rt) (dr_table rt)" using good by (simp add: good_def cache_fine_def)
  have err: "launched_as arity rt0 T p (Inl e) rt" for e p using good by (simp add: launched_as_def)
  show "dv (\<lambda>x. x = rt) (case bucket_index rt pid of None \<Rightarrow> d_fail Bucket_unavailable
     | Some k \<Rightarrow> d_bind (bucket_at k) (\<lambda>b.
       if checked_add_at 64 (sb_detached b) (length (sb_lanes b)) \<noteq> Some (cf_lane_count (dr_config rt)) then d_fail Accounting_diverged
       else if sb_lanes b = [] then d_fail All_lanes_in_flight
       else d_bind (d_set (set_bucket k (b\<lparr>sb_lanes := butlast (sb_lanes b), sb_detached := sb_detached b + 1\<rparr>))) (\<lambda>_.
         launch_owned env (sb_id b) prepare (last (sb_lanes b))))) (launched_as arity rt0 T pid)"
  proof (cases "bucket_index rt pid")
    case (Some k)
    then have "sb_id (dr_buckets rt ! k) = pid" using slots.resolve [OF ok, of pid k] by (auto simp: nth_map)
    then show ?thesis
      using Some launch_good [OF detach_good [OF good, of k]] by (auto intro!: at_bucket at_fail at_set err simp del: checked_add_at_eq_Some)
  qed (auto intro: at_fail err)
qed (simp add: launched_as_def)


lemma complete_good:
  assumes good: "good arity rt0 (T + {#snd run#}) rt"
  shows "dv (\<lambda>x. x = rt) (complete_owned env run consume) (\<lambda>_. good arity rt0 T)"
proof -
  have leaked: "dv (\<lambda>x. x = rt) (d_bind (d_forget l) (\<lambda>_. d_check c)) (\<lambda>_. good arity rt0 T)" for l c
    by (rule at_bind [where R = "\<lambda>_. good arity rt0 T"], rule dv_post [OF forget_good [OF good]]) (auto intro!: dv_check)
  have returned: "dv (\<lambda>x. x = rt) (d_bind (d_try (return_detached_lane env (snd run) l)) (\<lambda>x. d_check (c x))) (\<lambda>_. good arity rt0 T)" for l c
    by (rule at_bind [where R = "\<lambda>_. good arity rt0 T"], rule dv_post [OF try_return_good [OF good]]) (auto intro!: dv_check)
  show ?thesis
    unfolding complete_owned_def Let_def by (auto intro!: at_lane leaked returned)
qed

lemma recover_good:
  assumes good: "good arity rt0 (T + {#pid#}) rt" and rec: "recover slot (lane, pid) (dr_recovery rt) = (cells, leaked)"
  shows "good arity rt0 T (rt\<lparr>dr_recovery := cells\<rparr>)"
proof -
  let ?s = "dr_recovery rt"
  obtain st where st: "holds_lanes ?s st" using good by (auto simp: good_def config_fine_def)
  have fewer: "good arity rt0 T (rt\<lparr>dr_recovery := ?s\<rparr>)" using good_fewer [OF good] by (cases rt) simp
  show ?thesis
  proof (cases "slot < length (rs_value ?s) \<and> slot \<notin> set st")
    case True
    then obtain s' where s': "recover slot (lane, pid) ?s = (s', None)" "holds_lanes s' (slot # st)"
        "rs_value s' = (rs_value ?s)[slot := Some (lane, pid)]"
      using lanes_recover(1) [OF st] by blast
    have "rs_value ?s ! slot = None" using st True unfolding holds_lanes_def by blast
    then have "claims T (rt\<lparr>dr_recovery := s'\<rparr>) = claims (T + {#pid#}) rt"
      using True by (simp add: claims_def s'(3) values_in_put)
    then show ?thesis using good_cells [OF good s'(2)] s' rec by simp
  next
    case False
    have "cells = ?s"
    proof (cases "slot < length (rs_value ?s)")
      case True
      then show ?thesis using rec lanes_recover(2) [OF st True, of "(lane, pid)"] \<open>\<not> (slot < length (rs_value ?s) \<and> slot \<notin> set st)\<close> by simp
    qed (use rec in \<open>simp add: recover_def\<close>)
    then show ?thesis using fewer by simp
  qed
qed

lemma run_drop_good:
  assumes good: "good arity rt0 (T + {#snd run#}) rt"
  shows "dv (\<lambda>x. x = rt) (owned_run_drop env run) (\<lambda>_. good arity rt0 T)"
proof -
  have leaked: "dv (\<lambda>x. x = rt) (d_forget l) (\<lambda>_. good arity rt0 T)" for l
    by (rule dv_post [OF forget_good [OF good]]) simp
  have recovered: "good arity rt0 T (rt\<lparr>dr_recovery := cells\<rparr>)"
    if "recover slot (l, snd run) (dr_recovery rt) = (cells, x)" for slot l cells x
    by (rule recover_good [OF good that])
  have forgets: "good arity rt0 T rt' \<Longrightarrow> dv (\<lambda>x. x = rt') (d_forget l) (\<lambda>_. good arity rt0 T)" for rt' l
    unfolding d_forget_def by (rule dv_world) simp
  show ?thesis
    unfolding owned_run_drop_def
    by (auto intro!: at_lane leaked at_get at_set at_return forgets split: option.split prod.split) (rule recovered, assumption)+
qed

subsection \<open>The other calls\<close>

lemma dv_keeps_clear: "keeps (good arity rt0 T) (clear_buckets env)"
proof -
  have drain: "dv (\<lambda>rt. good arity rt0 T rt \<and> (\<forall>b \<in> set (dr_buckets rt). sb_detached b = 0))
      (drain_active_buckets_and_release_graphs env) (\<lambda>_. good arity rt0 T)"
    unfolding drain_active_buckets_and_release_graphs_def
    by (rule dv_get) (auto intro!: at_set at_world at_return good_clear)
  have wait: "dv (\<lambda>x. x = rt) (wait_for_retired_buckets env) (\<lambda>_ x. \<exists>bs. x = rt\<lparr>dr_retired := bs\<rparr>)" for rt :: "('a, 'b) dynamic_runtime"
    unfolding wait_for_retired_buckets_def by (rule at_get, rule at_set, rule dv_world) blast
  have "dv (\<lambda>x. x = rt) (if list_ex (\<lambda>b. sb_detached b \<noteq> 0) (dr_buckets rt) then d_fail Clear_while_owned
     else d_bind (d_set (\<lambda>rt. rt\<lparr>dr_hot := None\<rparr>)) (\<lambda>_. d_bind (wait_for_retired_buckets env) (\<lambda>_.
       d_bind (drain_active_buckets_and_release_graphs env) (\<lambda>fenced. if fenced then d_return () else d_fail Clear_unfenced))))
     (\<lambda>_. good arity rt0 T)" if good: "good arity rt0 T rt" for rt
  proof (cases "list_ex (\<lambda>b. sb_detached b \<noteq> 0) (dr_buckets rt)")
    case False
    let ?P = "\<lambda>rt. good arity rt0 T rt \<and> (\<forall>b \<in> set (dr_buckets rt). sb_detached b = 0)"
    have "?P (rt\<lparr>dr_hot := None, dr_retired := bs\<rparr>)" for bs using good False by (auto simp: list_ex_iff)
    then have waited: "dv (\<lambda>x. x = rt\<lparr>dr_hot := None\<rparr>) (wait_for_retired_buckets env) (\<lambda>r x. case r of Inl _ \<Rightarrow> good arity rt0 T x | Inr _ \<Rightarrow> ?P x)"
      by (intro dv_post [OF wait]) (auto split: sum.split)
    have "dv ?P (d_bind (drain_active_buckets_and_release_graphs env) (\<lambda>fenced. if fenced then d_return () else d_fail Clear_unfenced))
        (\<lambda>_. good arity rt0 T)"
      by (rule dv_bind [where R = "\<lambda>_. good arity rt0 T"], rule dv_post [OF drain])
        (auto intro!: dv_return dv_fail split: sum.split)
    then show ?thesis unfolding if_not_P [OF False] by (intro at_set dv_bind [OF waited])
  qed (auto intro!: at_fail good)
  then show ?thesis
    unfolding clear_buckets_def by (intro dv_keeps_bind dv_keeps_reclaim dv_keeps_at)
qed

lemma dv_keeps_remove: "keeps (good arity rt0 T) (remove_bucket env ins outs)"
proof -
  have retire: "dv (\<lambda>x. x = rt\<lparr>dr_hot := h\<rparr>) (retire_bucket_at env i) (\<lambda>_. good arity rt0 T)" if "good arity rt0 T rt" for rt i h
    by (rule dv_post [OF retire_good [of arity rt0 T]]) (use that in simp_all)
  show ?thesis
    unfolding remove_bucket_def
    by (intro dv_keeps_bind dv_keeps_reclaim dv_keeps_at) (auto intro!: at_return at_bucket at_set retire split: option.split)
qed

lemma lanes_good:
  assumes good: "good arity rt0 T rt" and i: "i < length (dr_buckets rt)" "length ls = length (sb_lanes (dr_buckets rt ! i))"
  shows "good arity rt0 T (set_bucket i ((dr_buckets rt ! i)\<lparr>sb_lanes := ls\<rparr>) rt)"
  using i claims_bound [OF good i(1)] by (intro good_set_bucket [OF good]) simp_all

lemma dv_keeps_on_bucket: "keeps (good arity rt0 T) (on_bucket i m)"
  unfolding keeps_def dv_def
proof (intro allI impI)
  fix rt w r rt' w' assume good: "good arity rt0 T rt" and run: "on_bucket i m (rt, w) = Ret (r, rt', w')"
  have "dv (\<lambda>x. x = rt) (on_bucket i m) (\<lambda>_. good arity rt0 T)"
    unfolding on_bucket_def
  proof (intro at_bucket at_world)
    fix w a w' assume i: "i < length (dr_buckets rt)"
      and "bind_run (world_lanes m (sb_lanes (dr_buckets rt ! i)) w) (\<lambda>(r, lanes, w). Ret ((r, lanes), w)) = Ret (a, w')"
    then obtain r ls where "a = (r, ls)" "length ls = length (sb_lanes (dr_buckets rt ! i))"
      by (auto simp: bind_run_eq_Ret dest: world_lanes_length)
    then show "dv (\<lambda>x. x = rt) (case a of (r, lanes) \<Rightarrow> d_bind (d_set (set_bucket i ((dr_buckets rt ! i)\<lparr>sb_lanes := lanes\<rparr>)))
        (\<lambda>_. case r of Inl e \<Rightarrow> d_fail (Lane_failed e) | Inr _ \<Rightarrow> d_return ())) (\<lambda>_. good arity rt0 T)"
      using lanes_good [OF good i] by (auto intro!: at_set at_fail at_return split: sum.split)
  qed
  from dvD [OF this refl run] show "good arity rt0 T rt'" .
qed

lemma dv_keeps_run_on: "keeps (good arity rt0 T) (run_on_bucket i n f)"
  unfolding keeps_def dv_def
proof (intro allI impI)
  fix rt w r rt' w' assume good: "good arity rt0 T rt" and run: "run_on_bucket i n f (rt, w) = Ret (r, rt', w')"
  have "dv (\<lambda>x. x = rt) (run_on_bucket i n f) (\<lambda>_. good arity rt0 T)"
    unfolding run_on_bucket_def using good lanes_good [OF good]
    by (auto intro!: at_bucket at_lane at_set at_fail at_return split: option.split sum.split)
  from dvD [OF this refl run] show "good arity rt0 T rt'" .
qed


lemma dv_keeps_specs: "(\<And>x. x \<in> set xs \<Longrightarrow> keeps P (f x)) \<Longrightarrow> keeps P (for_specs f xs n)"
  by (induction xs arbitrary: n) (simp_all add: dv_keeps_basic dv_keeps_bind)

lemma dv_keeps_on_buckets: "keeps (good arity rt0 T) (on_buckets is m)"
  by (induction "is") (auto intro: dv_keeps_rules dv_keeps_on_bucket)

lemma dv_keeps_prime:
  "requests arity (fst x) (snd x) \<Longrightarrow> keeps (good arity rt0 T) (prime_bucket env runs x)"
  "requests arity (fst x) (snd x) \<Longrightarrow> keeps (good arity rt0 T) (prime_bucket_enqueued env runs x)"
  unfolding prime_bucket_def prime_bucket_enqueued_def
  by (cases x; simp add: dv_keeps_bind dv_keeps_get_or_create dv_keeps_on_bucket)+

lemma dv_keeps_install: "keeps (good arity rt0 T) (install_shape_plan n_in n_out plan)"
  unfolding install_shape_plan_def by (intro dv_keeps_get dv_keeps_rules dv_keeps_set) simp_all

lemma dv_keeps_bucket_mut:
  assumes "requests arity ins outs"
  shows "keeps (good arity rt0 T) (bucket_mut ins outs)"
proof -
  have "dv (\<lambda>x. x = rt) (d_bind (touch_bucket i) (\<lambda>i. d_return (Some i))) (\<lambda>_. good arity rt0 T)"
    if "good arity rt0 T rt" "find_bucket_index rt ins outs = Some i" for rt i
    using find_Some [OF that(1) assms that(2)]
    by (intro at_bind [where R = "\<lambda>_. good arity rt0 T"] dv_post [OF touch_good [OF that(1), of i ins outs]])
      (auto simp: found_def intro!: at_return split: sum.split)
  then show ?thesis
    unfolding bucket_mut_def
    by (intro dv_keeps_bind dv_keeps_reclaim dv_keeps_at) (auto intro!: at_return split: option.split)
qed

subsection \<open>Any sequence of calls\<close>

text \<open>
  The system: the runtime, the world, and the tokens of owned runs that are alive. A token may be
  used, completed, dropped or leaked at any time; using one (waiting for it, polling it, chaining
  work on it) is a call on its lane. The caller's closures on lanes are arbitrary lane calls.
\<close>

record ('i, 'o) dyn_state =
  ds_rt :: "('i, 'o) dynamic_runtime"
  ds_world :: "('i, 'o) world"
  ds_runs :: "('i, 'o) owned_run list"

inductive dyn_step :: "nat \<times> nat \<Rightarrow> ('i, 'o) dyn_env \<Rightarrow> ('i, 'o) dyn_state \<Rightarrow> ('i, 'o) dyn_state \<Rightarrow> bool"
    for arity :: "nat \<times> nat" and env :: "('i, 'o) dyn_env" where
  do_install: "install_shape_plan (fst arity) (snd arity) plan (rt, w) = Ret (r, rt', w') \<Longrightarrow>
    dyn_step arity env \<lparr>ds_rt = rt, ds_world = w, ds_runs = runs\<rparr> \<lparr>ds_rt = rt', ds_world = w', ds_runs = runs\<rparr>"
| do_get: "requests arity ins outs \<Longrightarrow> get_or_create_bucket env ins outs (rt, w) = Ret (r, rt', w') \<Longrightarrow>
    dyn_step arity env \<lparr>ds_rt = rt, ds_world = w, ds_runs = runs\<rparr> \<lparr>ds_rt = rt', ds_world = w', ds_runs = runs\<rparr>"
| do_prebuild: "\<forall>x \<in> set specs. requests arity (fst x) (snd x) \<Longrightarrow> prebuild_buckets env specs (rt, w) = Ret (n, rt', w') \<Longrightarrow>
    dyn_step arity env \<lparr>ds_rt = rt, ds_world = w, ds_runs = runs\<rparr> \<lparr>ds_rt = rt', ds_world = w', ds_runs = runs\<rparr>"
| do_warm: "\<forall>x \<in> set specs. requests arity (fst x) (snd x) \<Longrightarrow> warm_buckets env k specs (rt, w) = Ret (n, rt', w') \<Longrightarrow>
    dyn_step arity env \<lparr>ds_rt = rt, ds_world = w, ds_runs = runs\<rparr> \<lparr>ds_rt = rt', ds_world = w', ds_runs = runs\<rparr>"
| do_warm_enqueued: "\<forall>x \<in> set specs. requests arity (fst x) (snd x) \<Longrightarrow>
    warm_buckets_enqueued env k specs (rt, w) = Ret (n, rt', w') \<Longrightarrow>
    dyn_step arity env \<lparr>ds_rt = rt, ds_world = w, ds_runs = runs\<rparr> \<lparr>ds_rt = rt', ds_world = w', ds_runs = runs\<rparr>"
| do_prime_cached: "prime_cached_buckets env k (rt, w) = Ret (u, rt', w') \<Longrightarrow>
    dyn_step arity env \<lparr>ds_rt = rt, ds_world = w, ds_runs = runs\<rparr> \<lparr>ds_rt = rt', ds_world = w', ds_runs = runs\<rparr>"
| do_run_on: "requests arity ins outs \<Longrightarrow> dynamic_run_on env ins outs n f (rt, w) = Ret (u :: dyn_error + unit, rt', w') \<Longrightarrow>
    dyn_step arity env \<lparr>ds_rt = rt, ds_world = w, ds_runs = runs\<rparr> \<lparr>ds_rt = rt', ds_world = w', ds_runs = runs\<rparr>"
| do_bucket_mut: "requests arity ins outs \<Longrightarrow> bucket_mut ins outs (rt, w) = Ret (b, rt', w') \<Longrightarrow>
    dyn_step arity env \<lparr>ds_rt = rt, ds_world = w, ds_runs = runs\<rparr> \<lparr>ds_rt = rt', ds_world = w', ds_runs = runs\<rparr>"
| do_remove: "requests arity ins outs \<Longrightarrow> remove_bucket env ins outs (rt, w) = Ret (c, rt', w') \<Longrightarrow>
    dyn_step arity env \<lparr>ds_rt = rt, ds_world = w, ds_runs = runs\<rparr> \<lparr>ds_rt = rt', ds_world = w', ds_runs = runs\<rparr>"
| do_clear: "clear_buckets env (rt, w) = Ret (u, rt', w') \<Longrightarrow>
    dyn_step arity env \<lparr>ds_rt = rt, ds_world = w, ds_runs = runs\<rparr> \<lparr>ds_rt = rt', ds_world = w', ds_runs = runs\<rparr>"
| do_reclaim: "reclaim_dropped_runs (rt, w) = Ret (n, rt', w') \<Longrightarrow>
    dyn_step arity env \<lparr>ds_rt = rt, ds_world = w, ds_runs = runs\<rparr> \<lparr>ds_rt = rt', ds_world = w', ds_runs = runs\<rparr>"
| do_enqueue: "enqueue_prepared env pid prepare (rt, w) = Ret (q, rt', w') \<Longrightarrow>
    dyn_step arity env \<lparr>ds_rt = rt, ds_world = w, ds_runs = runs\<rparr>
      \<lparr>ds_rt = rt', ds_world = w', ds_runs = (case q of Inl _ \<Rightarrow> runs | Inr run \<Rightarrow> run # runs)\<rparr>"
| do_enqueue_owned: "requests arity ins outs \<Longrightarrow> enqueue_owned env ins outs prepare (rt, w) = Ret (q, rt', w') \<Longrightarrow>
    dyn_step arity env \<lparr>ds_rt = rt, ds_world = w, ds_runs = runs\<rparr>
      \<lparr>ds_rt = rt', ds_world = w', ds_runs = (case q of Inl _ \<Rightarrow> runs | Inr run \<Rightarrow> run # runs)\<rparr>"
| do_complete: "complete_owned env run consume (rt, w) = Ret (u :: dyn_error + unit, rt', w') \<Longrightarrow>
    dyn_step arity env \<lparr>ds_rt = rt, ds_world = w, ds_runs = runs1 @ run # runs2\<rparr>
      \<lparr>ds_rt = rt', ds_world = w', ds_runs = runs1 @ runs2\<rparr>"
| do_drop: "owned_run_drop env run (rt, w) = Ret (u, rt', w') \<Longrightarrow>
    dyn_step arity env \<lparr>ds_rt = rt, ds_world = w, ds_runs = runs1 @ run # runs2\<rparr>
      \<lparr>ds_rt = rt', ds_world = w', ds_runs = runs1 @ runs2\<rparr>"
| do_use: "world_lane m (fst run) w = Ret (x :: lane_error + unit, l, w') \<Longrightarrow>
    dyn_step arity env \<lparr>ds_rt = rt, ds_world = w, ds_runs = runs1 @ run # runs2\<rparr>
      \<lparr>ds_rt = rt, ds_world = w', ds_runs = runs1 @ (l, snd run) # runs2\<rparr>"
| do_forget: "dyn_step arity env \<lparr>ds_rt = rt, ds_world = w, ds_runs = runs1 @ run # runs2\<rparr>
      \<lparr>ds_rt = rt, ds_world = forget [fst run] w, ds_runs = runs1 @ runs2\<rparr>"

definition held :: "('i, 'o) dyn_state \<Rightarrow> prepared_id multiset" where
  "held s = mset (map snd (ds_runs s))"

lemma dv_keepsD: "keeps P m \<Longrightarrow> P rt \<Longrightarrow> m (rt, w) = Ret (r, rt', w') \<Longrightarrow> P rt'"
  unfolding keeps_def by (rule dvD)

lemma dv_keeps_calls:
  "requests arity ins outs \<Longrightarrow> keeps (good arity rt0 T) (get_or_create_bucket env ins outs)"
  "\<forall>x \<in> set specs. requests arity (fst x) (snd x) \<Longrightarrow> keeps (good arity rt0 T) (prebuild_buckets env specs)"
  "\<forall>x \<in> set specs. requests arity (fst x) (snd x) \<Longrightarrow> keeps (good arity rt0 T) (warm_buckets env k specs)"
  "\<forall>x \<in> set specs. requests arity (fst x) (snd x) \<Longrightarrow> keeps (good arity rt0 T) (warm_buckets_enqueued env k specs)"
  "keeps (good arity rt0 T) (prime_cached_buckets env k)"
  "requests arity ins outs \<Longrightarrow> keeps (good arity rt0 T) (dynamic_run_on env ins outs n f)"
  unfolding get_or_create_bucket_def prebuild_buckets_def warm_buckets_def warm_buckets_enqueued_def
    prime_cached_buckets_def dynamic_run_on_def
  by (auto intro!: dv_keeps_get dv_keeps_specs dv_keeps_bind dv_keeps_get_or_create dv_keeps_prime dv_keeps_on_buckets dv_keeps_run_on dv_keeps_basic)

lemma enqueue_owned_good:
  assumes "requests arity ins outs"
  shows "dv (good arity rt0 T) (enqueue_owned env ins outs prepare)
    (\<lambda>r rt. case r of Inl _ \<Rightarrow> good arity rt0 T rt | Inr run \<Rightarrow> good arity rt0 (T + {#snd run#}) rt)"
proof -
  have "dv (good arity rt0 T) (enqueue_prepared env pid prepare)
      (\<lambda>r rt. case r of Inl _ \<Rightarrow> good arity rt0 T rt | Inr run \<Rightarrow> good arity rt0 (T + {#snd run#}) rt)" for pid
    by (rule dv_post [OF enqueue_good]) (auto simp: launched_as_def split: sum.splits)
  then show ?thesis
    unfolding enqueue_owned_def by (intro dv_keeps_then dv_keeps_calls(1) [OF assms] dv_keeps_bucket_at) simp_all
qed

lemma dyn_step_good:
  assumes "dyn_step arity env s t" "good arity rt0 (held s) (ds_rt s)"
  shows "good arity rt0 (held t) (ds_rt t)"
  using assms
proof cases
  case (do_enqueue pid prepare rt w q rt' w' runs)
  have "launched_as arity rt0 (held s) pid q rt'"
    using dvD [OF enqueue_good _ do_enqueue(3)] assms(2) do_enqueue(1) by simp
  then show ?thesis using do_enqueue by (cases q) (auto simp: launched_as_def held_def add_mset_commute)
next
  case (do_enqueue_owned ins outs prepare rt w q rt' w' runs)
  have "case q of Inl _ \<Rightarrow> good arity rt0 (held s) rt' | Inr run \<Rightarrow> good arity rt0 (held s + {#snd run#}) rt'"
    using dvD [OF enqueue_owned_good [OF do_enqueue_owned(3)] _ do_enqueue_owned(4)] assms(2) do_enqueue_owned(1) by simp
  then show ?thesis using do_enqueue_owned by (cases q) (auto simp: held_def)
next
  case (do_complete run consume rt w u rt' w' runs1 runs2)
  have "good arity rt0 (held t + {#snd run#}) rt" using assms(2) do_complete by (simp add: held_def)
  from dvD [OF complete_good [OF this] refl do_complete(3)] show ?thesis using do_complete(2) by simp
next
  case (do_drop run rt w u rt' w' runs1 runs2)
  have "good arity rt0 (held t + {#snd run#}) rt" using assms(2) do_drop by (simp add: held_def)
  from dvD [OF run_drop_good [OF this] refl do_drop(3)] show ?thesis using do_drop(2) by simp
next
  case (do_use m run w x l w' rt runs1 runs2)
  then have "held t = held s" by (simp add: held_def)
  then show ?thesis using assms(2) do_use by simp
next
  case (do_forget rt w runs1 run runs2)
  then have "held s = held t + {#snd run#}" by (simp add: held_def)
  then show ?thesis using assms(2) do_forget good_fewer by (metis dyn_state.select_convs(1))
qed (auto simp: held_def elim: dv_keepsD [rotated 2] intro: dv_keeps_calls dv_keeps_install dv_keeps_bucket_mut dv_keeps_remove dv_keeps_clear dv_keeps_reclaim)

end
