(* ===== verification/Dynamic_Claims.thy ===== *)
theory Dynamic_Claims
  imports Dynamic_Safety
begin

text \<open>
  What the dynamic runtime promises over any sequence of calls, owned runs that are completed or
  dropped in between included.
\<close>

text \<open>
  A runtime as its constructors make it, with no run alive. The lane count is below 2 to the 32
  and the recovery cells fit the address space; the allocations of a larger one fail.
\<close>

definition dyn_init :: "('i, 'o) dyn_state \<Rightarrow> bool" where
  "dyn_init s \<longleftrightarrow> ds_runs s = [] \<and> cf_lane_count (dr_config (ds_rt s)) < 2 ^ 32 \<and>
     length (rs_value (dr_recovery (ds_rt s))) < usize_max \<and>
     ((\<exists>ses im om n d. dynamic_shared_session_with_options ses im om n d = Inr (ds_rt s)) \<or>
      (\<exists>ss im om d. dynamic_from_sessions_with_options ss im om d = Inr (ds_rt s)))"

definition dyn_inv :: "nat \<times> nat \<Rightarrow> ('i, 'o) dyn_state \<Rightarrow> bool" where
  "dyn_inv arity s \<longleftrightarrow> good arity (ds_rt s) (held s) (ds_rt s)"

lemma new_good:
  assumes "0 < do_max_buckets (cf_options cf)" "0 < cf_lane_count cf" "cf_lane_count cf < 2 ^ 32"
    "session_count cf = cf_lane_count cf" "capacity = do_max_buckets (cf_options cf) * cf_lane_count cf" "capacity < usize_max"
  shows "good arity (dynamic_new cf capacity) {#} (dynamic_new cf capacity)"
proof -
  have "holds_lanes (recovery_new capacity) []" using assms(6) by (rule lanes_new)
  moreover have "List.map_filter id (replicate n None) = []" for n by (induction n) (auto simp: List.map_filter_simps)
  moreover have "table_ok [] table_new" "table_room n table_new" for n
    using names_new by (auto simp: table_ok_def table_room_def table_new_def indexed_def)
  ultimately show ?thesis
    using assms by (auto simp: good_def cache_fine_def config_fine_def accounted_def claims_def evolved_def dynamic_new_def
        recovery_new_def values_in_def)
qed

lemma with_valid_options_Inr:
  assumes "with_valid_options d mode lanes f = Inr r"
  shows "0 < do_max_buckets d \<and> f (do_max_buckets d * lanes) = Inr r"
proof -
  have "validate_options d = Inr d' \<Longrightarrow> d' = d \<and> 0 < do_max_buckets d" for d'
    by (auto simp: validate_options_def split: if_splits)
  then show ?thesis
    using assms by (cases "validate_options d"; cases "validate_runtime_mode d mode lanes")
      (auto simp: with_valid_options_def checked_mul_at_def split: if_splits)
qed

lemma init_inv:
  assumes "dyn_init s"
  shows "dyn_inv arity s"
proof -
  have held: "held s = {#}" using assms by (simp add: dyn_init_def held_def)
  have init: "\<exists>cf. ds_rt s = dynamic_new cf (do_max_buckets (cf_options cf) * cf_lane_count cf) \<and> 0 < do_max_buckets (cf_options cf) \<and>
      0 < cf_lane_count cf \<and> session_count cf = cf_lane_count cf"
    using assms unfolding dyn_init_def
  proof (elim conjE disjE exE)
    fix ses im om n d assume "dynamic_shared_session_with_options ses im om n d = Inr (ds_rt s)"
    then show ?thesis
      by (intro exI [of _ "\<lparr>cf_sessions = Shared ses, cf_input_mem = im, cf_output_mem = om, cf_options = d, cf_lane_count = n\<rparr>"])
        (auto simp: dynamic_shared_session_with_options_def session_count_def dest!: with_valid_options_Inr split: if_splits)
  next
    fix ss im om d assume "dynamic_from_sessions_with_options ss im om d = Inr (ds_rt s)"
    then show ?thesis
      by (intro exI [of _ "\<lparr>cf_sessions = Replicated ss, cf_input_mem = im, cf_output_mem = om, cf_options = d, cf_lane_count = length ss\<rparr>"])
        (auto simp: dynamic_from_sessions_with_options_def session_count_def dest!: with_valid_options_Inr split: if_splits)
  qed
  then obtain cf where rt: "ds_rt s = dynamic_new cf (do_max_buckets (cf_options cf) * cf_lane_count cf)"
    and cf: "0 < do_max_buckets (cf_options cf)" "0 < cf_lane_count cf" "session_count cf = cf_lane_count cf" by blast
  have "cf_lane_count cf < 2 ^ 32" "do_max_buckets (cf_options cf) * cf_lane_count cf < usize_max"
    using assms by (simp_all add: dyn_init_def rt dynamic_new_def recovery_new_def)
  from new_good [OF cf(1, 2) this(1) cf(3) refl this(2)] show ?thesis by (simp add: dyn_inv_def held rt)
qed

lemma step_inv: "dyn_inv arity s \<Longrightarrow> dyn_step arity env s t \<Longrightarrow> dyn_inv arity t"
  unfolding dyn_inv_def by (rule good_refl, rule dyn_step_good)

definition names_shape :: "('i, 'o) dyn_state \<Rightarrow> prepared_id \<Rightarrow> (shapes \<times> shapes) option" where
  "names_shape s pid = map_option (\<lambda>i. sb_key (dr_buckets (ds_rt s) ! i)) (bucket_index (ds_rt s) pid)"

lemma inv_table: "dyn_inv arity s \<Longrightarrow> table_ok (bucket_ids (ds_rt s)) (dr_table (ds_rt s))"
  by (simp add: dyn_inv_def good_def cache_fine_def)

lemma names_iff:
  assumes "dyn_inv arity s"
  shows "names_shape s pid = Some key \<longleftrightarrow> (\<exists>b \<in> set (dr_buckets (ds_rt s)). sb_id b = pid \<and> sb_key b = key)"
proof
  assume "names_shape s pid = Some key"
  then obtain i where "bucket_index (ds_rt s) pid = Some i" "key = sb_key (dr_buckets (ds_rt s) ! i)" by (auto simp: names_shape_def)
  then show "\<exists>b \<in> set (dr_buckets (ds_rt s)). sb_id b = pid \<and> sb_key b = key"
    using slots.resolve [OF inv_table [OF assms], of pid i] by (auto intro!: bexI [of _ "dr_buckets (ds_rt s) ! i"])
next
  assume "\<exists>b \<in> set (dr_buckets (ds_rt s)). sb_id b = pid \<and> sb_key b = key"
  then obtain i where "i < length (dr_buckets (ds_rt s))" "sb_id (dr_buckets (ds_rt s) ! i) = pid" "sb_key (dr_buckets (ds_rt s) ! i) = key"
    by (auto simp: in_set_conv_nth)
  then show "names_shape s pid = Some key"
    using slots.resolve [OF inv_table [OF assms], of pid i] by (simp add: names_shape_def)
qed

interpretation dyn: handle_system dyn_init "dyn_step arity env" "dyn_inv arity" names_shape
  "\<lambda>s. table_dead (dr_table (ds_rt s))" for arity env
proof
  show "dyn_inv arity s" if "dyn_init s" for s using that by (rule init_inv)
  show inv: "dyn_inv arity t" if "dyn_inv arity s" "dyn_step arity env s t" for s t using that by (rule step_inv)
  have evolved: "evolved (ds_rt s) (ds_rt t)" if "dyn_inv arity s" "dyn_step arity env s t" for s t
    using dyn_step_good [OF that(2), of "ds_rt s"] that(1) by (simp add: dyn_inv_def good_def)
  show "names_shape t h = Some k \<or> table_dead (dr_table (ds_rt t)) h"
    if "dyn_inv arity s" "dyn_step arity env s t" "names_shape s h = Some k" for s t h k
    using evolved [OF that(1, 2)] that(3) names_iff [OF that(1)] names_iff [OF inv [OF that(1, 2)]]
    by (auto simp: evolved_def)
  show "table_dead (dr_table (ds_rt t)) h" if "dyn_inv arity s" "dyn_step arity env s t" "table_dead (dr_table (ds_rt s)) h" for s t h
    using evolved [OF that(1, 2)] that(3) by (simp add: evolved_def)
  show "names_shape s h = None" if "dyn_inv arity s" "table_dead (dr_table (ds_rt s)) h" for s h
    using slots.dead [OF inv_table [OF that(1)] that(2)] slots.resolve_None [OF inv_table [OF that(1)]]
    by (simp add: names_shape_def)
qed

lemma find_iff:
  assumes good: "good arity rt0 T rt" and "requests arity ins outs"
  shows "find_bucket_index rt ins outs = Some i \<longleftrightarrow> i < length (dr_buckets rt) \<and> sb_key (dr_buckets rt ! i) = (ins, outs)"
proof
  assume i: "i < length (dr_buckets rt) \<and> sb_key (dr_buckets rt ! i) = (ins, outs)"
  then obtain j where j: "find_bucket_index rt ins outs = Some j"
    using find_None [OF assms] by (metis image_eqI nth_mem option.exhaust)
  have "distinct (map sb_key (dr_buckets rt))" using good by (simp add: good_def cache_fine_def)
  then have "j = i" using find_Some [OF assms j] i nth_eq_iff_index_eq [of "map sb_key (dr_buckets rt)" j i] by simp
  then show "find_bucket_index rt ins outs = Some i" using j by simp
qed (rule find_Some [OF assms])

lemma holds_lanes_filled:
  assumes "holds_lanes cells st"
  shows "length (filter (\<lambda>c. c \<noteq> None) (rs_value cells)) = length st"
proof -
  have "{i. i < length (rs_value cells) \<and> rs_value cells ! i \<noteq> None} = set st"
    using assms by (auto simp: holds_lanes_def slots_size_def dest: chain_in_range)
  then show ?thesis using assms by (simp add: length_filter_conv_card holds_lanes_def distinct_card)
qed

lemma finish_idle: "\<not> ln_in_flight l \<Longrightarrow> finish_in_flight_best_effort pv (l, t) = Ret (Inr (), l, t)"
  by (simp add: finish_in_flight_best_effort_def op_get_def op_return_def)

lemma drop_idle:
  "list_all (\<lambda>l. \<not> ln_in_flight l) ls \<Longrightarrow> drop_lanes pv ls w = Ret (w\<lparr>wd_gone := wd_gone w @ map Destroyed ls\<rparr>)"
  by (induction ls arbitrary: w) (auto simp: lane_drop_def finish_idle)

text \<open>What becomes of the lanes of a bucket that leaves the cache.\<close>

definition disposed :: "('i, 'o) shape_bucket \<Rightarrow> ('i, 'o) dynamic_runtime \<Rightarrow> ('i, 'o) world
    \<Rightarrow> ('i, 'o) dynamic_runtime \<Rightarrow> ('i, 'o) world \<Rightarrow> bool" where
  "disposed b rt w rt' w' \<longleftrightarrow> (\<exists>lanes. length lanes = length (sb_lanes b) \<and>
     (if list_ex ln_in_flight lanes
      then wd_gone w' = wd_gone w @ map Leaked lanes \<and> dr_retired rt' = dr_retired rt \<and> wd_released w' = wd_released w
      else case sb_graph_id b of
        None \<Rightarrow> wd_gone w' = wd_gone w @ map Destroyed lanes \<and> dr_retired rt' = dr_retired rt \<and> wd_released w' = wd_released w
      | Some gid \<Rightarrow> wd_gone w' = wd_gone w \<and> dr_retired rt' = dr_retired rt @ [b\<lparr>sb_lanes := lanes\<rparr>] \<and>
          wd_released w' = wd_released w @ [gid]))"

lemma disposed_hot [simp]: "disposed b (rt\<lparr>dr_hot := h\<rparr>) w rt' w' = disposed b rt w rt' w'"
  by (simp add: disposed_def cong: option.case_cong)

lemma retire_effect:
  assumes "retire_bucket_at env i (rt, w) = Ret (r, rt', w')" "i < length (dr_buckets rt)" "sb_detached (dr_buckets rt ! i) = 0"
  shows "r = Inr True \<and> dr_buckets rt' = swap_remove (dr_buckets rt) i \<and> disposed (dr_buckets rt ! i) rt w rt' w'"
proof -
  let ?b = "dr_buckets rt ! i"
  obtain x lanes t where fin: "for_lanes (finish_in_flight_best_effort (provider_of env)) (sb_lanes ?b, wd_log w) = Ret (x, lanes, t)"
    using assms by (auto simp: retire_bucket_at_def d_get_def d_bind_def d_run_def d_world_def world_lanes_def bind_run_eq_Ret)
  have len: "length lanes = length (sb_lanes ?b)" using for_lanes_length [OF fin] .
  note defs = retire_bucket_at_def d_get_def d_bind_def d_run_def d_world_def d_set_def d_return_def world_lanes_def forget_def
    release_captured_graph_def disposed_def
  show ?thesis
  proof (cases "list_ex ln_in_flight lanes")
    case True
    then show ?thesis using assms fin len by (auto simp: defs intro!: exI [of _ lanes])
  next
    case False
    then have idle: "list_all (\<lambda>l. \<not> ln_in_flight l) lanes" by (simp add: list_ex_iff list_all_iff)
    show ?thesis
      using assms fin len False drop_idle [OF idle]
      by (cases "sb_graph_id ?b") (auto simp: defs intro!: exI [of _ lanes])
  qed
qed

subsection \<open>Examples\<close>

definition example_dyn_env :: "(int, int) dyn_env" where
  "example_dyn_env = \<lparr>de_lane = example_env, de_cpu = Inr host_memory, de_done = \<lambda>_ _. True\<rparr>"

definition example_rt :: "(int, int) dynamic_runtime" where
  "example_rt = dynamic_new example_config 32"

definition example_world :: "(int, int) world" where
  "example_world = \<lparr>wd_keys = 0, wd_log = [], wd_next_graph = 1, wd_gone = [], wd_released = []\<rparr>"

definition example_start :: "(int, int) dyn_state" where
  "example_start = \<lparr>ds_rt = example_rt, ds_world = example_world, ds_runs = []\<rparr>"

lemma example_init: "dyn_init example_start"
proof -
  have "dynamic_shared_session_with_options example_session host_memory host_memory 2 (cf_options example_config) = Inr example_rt"
    by (simp add: dynamic_shared_session_with_options_def with_valid_options_def validate_options_def validate_runtime_mode_def
        example_config_def with_input_policy_def with_output_policy_def options_default_def checked_mul_at_def example_rt_def)
  then show ?thesis
    unfolding dyn_init_def example_start_def
    by (auto simp: example_rt_def dynamic_new_def recovery_new_def example_config_def)
qed



definition plain_lane :: "('i, 'o) lane \<Rightarrow> bool" where
  "plain_lane l \<longleftrightarrow> \<not> ln_in_flight l \<and> ln_device_inputs l = None \<and> \<not> ln_rebind_inputs l \<and> ln_graph_lease l = None \<and>
     ln_graph_id l = None \<and> \<not> ln_guard l \<and> \<not> ln_event_recorded l"

lemma example_lanes:
  "\<exists>a t. build_lane_set example_env (Inr host_memory) example_config [[2, 3]] [[2, 3]] (0, []) = Ret (Inr a, 2, t) \<and>
     length (sr_lanes a) = 2 \<and> list_all plain_lane (sr_lanes a)"
proof -
  obtain a t where a: "build_lane_set example_env (Inr host_memory) example_config [[2, 3]] [[2, 3]] (0, []) = Ret (Inr a, 2, t)"
    using example_lane_set by blast
  from builds_setD(3) [OF build_lane_set_built a refl]
  have "lane_set_of example_env [[2, 3]] [[2, 3]] SharedSession 2 None None a 0 2" "\<forall>l \<in> set (sr_lanes a). \<not> ln_rebind_inputs l"
    by (simp_all add: mode_of_def session_count_def out_device_of_def example_config_def with_input_policy_def
        with_output_policy_def options_default_def)
  then show ?thesis using a by (auto simp: lane_set_of_def set_built_def plain_lane_def fresh_lane_def list_all_iff)
qed

definition example_bucket :: "(int, int) lane list \<Rightarrow> nat \<Rightarrow> (int, int) shape_bucket" where
  "example_bucket lanes detached = \<lparr>sb_key = ([[2, 3]], [[2, 3]]), sb_id = \<lparr>pi_slot = 0, pi_generation = 1\<rparr>, sb_lanes = lanes,
     sb_last_used = 1, sb_detached = detached, sb_graph_id = None\<rparr>"

definition example_cached :: "(int, int) shape_bucket \<Rightarrow> (int, int) dynamic_runtime" where
  "example_cached b = example_rt\<lparr>dr_buckets := [b], dr_hot := Some 0,
     dr_table := \<lparr>tb_slots = [\<lparr>sl_generation = 1, sl_index = Some 0\<rparr>], tb_free = []\<rparr>, dr_tick := 1\<rparr>"

lemma example_options:
  "do_max_buckets (cf_options example_config) = 16" "\<not> do_cuda_graph (cf_options example_config)" "\<not> do_strict (cf_options example_config)"
  "cf_lane_count example_config = 2"
  by (simp_all add: example_config_def with_input_policy_def with_output_policy_def options_default_def)

lemma example_get:
  "\<exists>lanes w. get_or_create_bucket example_dyn_env [[2, 3]] [[2, 3]] (example_rt, example_world) =
     Ret (Inr 0, example_cached (example_bucket lanes 0), w) \<and> length lanes = 2 \<and> list_all plain_lane lanes \<and>
     ln_recovery_slot (last lanes) = Some 1"
proof -
  obtain a t where a: "build_lane_set example_env (Inr host_memory) example_config [[2, 3]] [[2, 3]] (0, []) = Ret (Inr a, 2, t)"
     "length (sr_lanes a) = 2" "list_all plain_lane (sr_lanes a)"
    using example_lanes by blast
  obtain l1 l2 where ls: "sr_lanes a = [l1, l2]" using a(2) by (auto simp: numeral_2_eq_2 length_Suc_conv)
  have alloc: "allocate_prepared_bucket_id 0 table_new =
      (Inr \<lparr>pi_slot = 0, pi_generation = 1\<rparr>, \<lparr>tb_slots = [\<lparr>sl_generation = 1, sl_index = Some 0\<rparr>], tb_free = []\<rparr>)"
    by (simp add: allocate_prepared_bucket_id_def table_new_def)
  have "get_or_create_bucket example_dyn_env [[2, 3]] [[2, 3]] (example_rt, example_world) =
     Ret (Inr 0, example_cached (example_bucket (with_recovery_slots 0 (sr_lanes a)) 0), example_world\<lparr>wd_keys := 2, wd_log := t\<rparr>)"
    by (simp add: get_or_create_bucket_def get_or_create_bucket_inner_def d_bind_def d_get_def reclaim_dropped_runs_def
     example_rt_def dynamic_new_def recovery_new_def pop_ready_def validate_planned_shape_def d_return_def d_set_def d_when_def
     reap_retired_buckets_def find_bucket_index_def create_bucket_def evict_one_bucket_if_full_def d_build_def example_dyn_env_def
     annotate_and_capture_def push_bucket_def next_tick_def example_world_def a(1,2) example_options alloc checked_mul_at_def
     example_cached_def example_bucket_def)
  moreover have "list_all plain_lane (with_recovery_slots 0 (sr_lanes a))" "length (with_recovery_slots 0 (sr_lanes a)) = 2"
    "ln_recovery_slot (last (with_recovery_slots 0 (sr_lanes a))) = Some 1"
    using a(3) by (simp_all add: with_recovery_slots_def ls plain_lane_def)
  ultimately show ?thesis by blast
qed

lemma plain_run_enqueued:
  assumes "plain_lane l"
  shows "\<exists>t'. run_enqueued reliable (l, t) = Ret (Inr (), l\<lparr>ln_in_flight := True\<rparr>, t')"
  using assms by (cases l) (simp add: plain_lane_def run_enqueued_def op_bind_def ensure_idle_def op_get_def op_return_def op_fail_def
    rebind_host_inputs_if_needed_def refresh_device_inputs_def run_bound_binding_enqueued_def begin_guard_def op_try_def launch_enqueued_def
    call_def provide_def Let_def reliable_def answer_def mark_captured_def op_when_def settle_graph_run_def op_set_def drop_guard_def)

lemma example_enqueue:
  assumes "length lanes = 2" "list_all plain_lane lanes"
  shows "\<exists>w'. enqueue_prepared example_dyn_env \<lparr>pi_slot = 0, pi_generation = 1\<rparr> (op_return ()) (example_cached (example_bucket lanes 0), w) =
     Ret (Inr (last lanes\<lparr>ln_in_flight := True\<rparr>, \<lparr>pi_slot = 0, pi_generation = 1\<rparr>), example_cached (example_bucket (butlast lanes) 1), w')"
proof -
  obtain l1 l2 where ls: "lanes = [l1, l2]" using assms(1) by (auto simp: numeral_2_eq_2 length_Suc_conv)
  obtain t' where t': "run_enqueued reliable (l2, wd_log w) = Ret (Inr (), l2\<lparr>ln_in_flight := True\<rparr>, t')"
    using plain_run_enqueued [of l2] assms(2) ls by auto
  show ?thesis
    by (simp add: enqueue_prepared_def d_bind_def d_get_def reclaim_dropped_runs_def example_cached_def example_rt_def dynamic_new_def
     recovery_new_def pop_ready_def prepared_bucket_index_def get_opt_def example_bucket_def bucket_at_def d_run_def index_run_def
     checked_add_at_def example_options ls d_set_def set_bucket_def launch_owned_def d_lane_def d_world_def world_lane_def op_return_def
     example_dyn_env_def example_env_def t' d_return_def)
qed

text \<open>A bucket is made, one of its two lanes is lent to a run; or the bucket is removed again.\<close>

lemma example_reach:
  "\<exists>lanes w1 w2. length lanes = 2 \<and> list_all plain_lane lanes \<and> ln_recovery_slot (last lanes) = Some 1 \<and>
     (dyn_step (1, 1) example_dyn_env)\<^sup>*\<^sup>* example_start
       \<lparr>ds_rt = example_cached (example_bucket lanes 0), ds_world = w1, ds_runs = []\<rparr> \<and>
     dyn_step (1, 1) example_dyn_env \<lparr>ds_rt = example_cached (example_bucket lanes 0), ds_world = w1, ds_runs = []\<rparr>
       \<lparr>ds_rt = example_cached (example_bucket (butlast lanes) 1), ds_world = w2,
        ds_runs = [(last lanes\<lparr>ln_in_flight := True\<rparr>, \<lparr>pi_slot = 0, pi_generation = 1\<rparr>)]\<rparr>"
proof -
  obtain lanes w1 where get: "get_or_create_bucket example_dyn_env [[2, 3]] [[2, 3]] (example_rt, example_world) =
      Ret (Inr 0, example_cached (example_bucket lanes 0), w1)" and lanes: "length lanes = 2" "list_all plain_lane lanes"
    and slot: "ln_recovery_slot (last lanes) = Some 1"
    using example_get by blast
  have "requests (1, 1) [[2, 3]] [[2, 3]]" by (simp add: requests_def)
  from do_get [OF this get] have "dyn_step (1, 1) example_dyn_env example_start
      \<lparr>ds_rt = example_cached (example_bucket lanes 0), ds_world = w1, ds_runs = []\<rparr>" by (simp add: example_start_def)
  moreover obtain w2 where "enqueue_prepared example_dyn_env \<lparr>pi_slot = 0, pi_generation = 1\<rparr> (op_return ())
      (example_cached (example_bucket lanes 0), w1) =
      Ret (Inr (last lanes\<lparr>ln_in_flight := True\<rparr>, \<lparr>pi_slot = 0, pi_generation = 1\<rparr>), example_cached (example_bucket (butlast lanes) 1), w2)"
    using example_enqueue [OF lanes] by blast
  from do_enqueue [OF this, of "(1, 1)" "[]"] have "dyn_step (1, 1) example_dyn_env
      \<lparr>ds_rt = example_cached (example_bucket lanes 0), ds_world = w1, ds_runs = []\<rparr>
      \<lparr>ds_rt = example_cached (example_bucket (butlast lanes) 1), ds_world = w2,
       ds_runs = [(last lanes\<lparr>ln_in_flight := True\<rparr>, \<lparr>pi_slot = 0, pi_generation = 1\<rparr>)]\<rparr>" by simp
  ultimately show ?thesis using lanes slot by blast
qed

lemma plain_finish:
  assumes "plain_lane l"
  shows "\<exists>t'. finish_in_flight_best_effort reliable (l\<lparr>ln_in_flight := True\<rparr>, t) = Ret (Inr (), l, t')"
  using assms by (cases l) (simp add: plain_lane_def finish_in_flight_best_effort_def op_get_def op_bind_def op_try_def event_or_output_sync_def
      call_def provide_def Let_def op_return_def reliable_def answer_def is_ok_def op_when_def clear_in_flight_def op_set_def drop_guard_def)

lemma example_dropped:
  "\<exists>s. (dyn_step (1, 1) example_dyn_env)\<^sup>*\<^sup>* example_start s \<and>
     length (filter (\<lambda>c. c \<noteq> None) (rs_value (dr_recovery (ds_rt s)))) = 1 \<and> pooled_lanes (ds_rt s) = 1"
proof -
  define pid where "pid = \<lparr>pi_slot = 0, pi_generation = 1\<rparr>"
  obtain lanes w1 w2 where step: "(dyn_step (1, 1) example_dyn_env)\<^sup>*\<^sup>* example_start
       \<lparr>ds_rt = example_cached (example_bucket lanes 0), ds_world = w1, ds_runs = []\<rparr>"
     "dyn_step (1, 1) example_dyn_env \<lparr>ds_rt = example_cached (example_bucket lanes 0), ds_world = w1, ds_runs = []\<rparr>
       \<lparr>ds_rt = example_cached (example_bucket (butlast lanes) 1), ds_world = w2, ds_runs = [] @ (last lanes\<lparr>ln_in_flight := True\<rparr>, pid) # []\<rparr>"
    and lanes: "length lanes = 2" "list_all plain_lane lanes" "ln_recovery_slot (last lanes) = Some 1"
    using example_reach unfolding pid_def append_Nil by blast
  have plain: "plain_lane (last lanes)" using lanes by (cases lanes rule: rev_cases) auto
  then obtain t' where fin: "finish_in_flight_best_effort reliable (last lanes\<lparr>ln_in_flight := True\<rparr>, wd_log w2) = Ret (Inr (), last lanes, t')"
    using plain_finish by blast
  define cells where "cells = fst (recover 1 (last lanes, pid) (dr_recovery (example_cached (example_bucket (butlast lanes) 1))))"
  have cells: "recover 1 (last lanes, pid) (dr_recovery (example_cached (example_bucket (butlast lanes) 1))) = (cells, None)"
    "rs_value cells = (replicate 32 None)[1 := Some (last lanes, pid)]"
    by (simp_all add: cells_def recover_def cell_publish_def example_cached_def example_rt_def dynamic_new_def recovery_new_def)
  have "owned_run_drop example_dyn_env (last lanes\<lparr>ln_in_flight := True\<rparr>, pid) (example_cached (example_bucket (butlast lanes) 1), w2) =
      Ret (Inr (), (example_cached (example_bucket (butlast lanes) 1))\<lparr>dr_recovery := cells\<rparr>, w2\<lparr>wd_log := t'\<rparr>)"
    using plain lanes(3)
    by (simp add: owned_run_drop_def d_bind_def d_lane_def d_world_def world_lane_def example_dyn_env_def example_env_def fin plain_lane_def
      d_get_def cells(1) [simplified] d_set_def d_return_def)
  from do_drop [OF this] step have "(dyn_step (1, 1) example_dyn_env)\<^sup>*\<^sup>* example_start
     \<lparr>ds_rt = (example_cached (example_bucket (butlast lanes) 1))\<lparr>dr_recovery := cells\<rparr>, ds_world = w2\<lparr>wd_log := t'\<rparr>, ds_runs = [] @ []\<rparr>"
    by (meson rtranclp.rtrancl_into_rtrancl)
  moreover have "length (filter (\<lambda>c. c \<noteq> None) (rs_value cells)) = 1"
    by (simp add: cells(2) numeral_eq_Suc)
  moreover have "pooled_lanes ((example_cached (example_bucket (butlast lanes) 1))\<lparr>dr_recovery := cells\<rparr>) = 1"
    using lanes(1) by (simp add: pooled_lanes_def example_cached_def example_bucket_def)
  ultimately show ?thesis by (intro exI conjI) (assumption, simp_all)
qed

lemma example_remove:
  assumes "length lanes = 2" "list_all plain_lane lanes"
  shows "\<exists>rt' w'. remove_bucket example_dyn_env [[2, 3]] [[2, 3]] (example_cached (example_bucket lanes 0), w) = Ret (Inr True, rt', w') \<and>
     bucket_index rt' \<lparr>pi_slot = 0, pi_generation = 1\<rparr> = None"
proof -
  obtain l1 l2 where ls: "lanes = [l1, l2]" using assms(1) by (auto simp: numeral_2_eq_2 length_Suc_conv)
  then have idle: "\<not> ln_in_flight l1" "\<not> ln_in_flight l2" using assms(2) by (simp_all add: plain_lane_def)
  show ?thesis
    by (simp add: remove_bucket_def d_bind_def d_get_def reclaim_dropped_runs_def example_cached_def example_rt_def dynamic_new_def
     recovery_new_def pop_ready_def prepared_bucket_index_def get_opt_def example_bucket_def bucket_at_def d_run_def index_run_def
     find_bucket_index_def key_matches_def d_set_def retire_bucket_at_def d_world_def world_lanes_def ls finish_idle idle
     example_dyn_env_def example_env_def d_return_def table_remove_def retire_prepared_bucket_id_def
     repair_prepared_bucket_indices_from_def swap_remove_def lane_drop_def Let_def checked_add_at_def)
qed


subsection \<open>Properties\<close>

text \<open>
  C4. Whatever calls are made on a dynamic runtime and however its owned runs end: it never holds
  more buckets than configured, no two for the same shapes; every bucket has exactly its lanes,
  those lent to owned runs counted; every bucket's handle resolves to it; the lookup, with its
  shortcut through the last bucket used, finds a shape exactly when it is cached; every run that
  is alive belongs to a cached bucket with at least as many lanes detached as it has runs; and
  the handle table never has more slots than buckets, unless a slot has used up its generations.
\<close>

theorem dynamic_cache_invariant:
  assumes "dyn_init s0" "(dyn_step arity env)\<^sup>*\<^sup>* s0 s"
  shows "length (dr_buckets (ds_rt s)) \<le> do_max_buckets (options_of (ds_rt s)) \<and>
    distinct (map sb_key (dr_buckets (ds_rt s))) \<and>
    (\<forall>i < length (dr_buckets (ds_rt s)). let b = dr_buckets (ds_rt s) ! i in
       length (sb_lanes b) + sb_detached b = cf_lane_count (dr_config (ds_rt s)) \<and>
       bucket_index (ds_rt s) (sb_id b) = Some i) \<and>
    (\<forall>ins outs i. requests arity ins outs \<longrightarrow> (find_bucket_index (ds_rt s) ins outs = Some i \<longleftrightarrow>
       i < length (dr_buckets (ds_rt s)) \<and> sb_key (dr_buckets (ds_rt s) ! i) = (ins, outs))) \<and>
    (\<forall>run \<in> set (ds_runs s). \<exists>i. bucket_index (ds_rt s) (snd run) = Some i \<and>
       length (filter (\<lambda>r. snd r = snd run) (ds_runs s)) \<le> sb_detached (dr_buckets (ds_rt s) ! i)) \<and>
    length (tb_slots (dr_table (ds_rt s))) \<le> do_max_buckets (options_of (ds_rt s)) + card (exhausted (dr_table (ds_rt s)))"
proof -
  have inv: "dyn_inv arity s" using dyn.reachable_inv [OF assms] .
  then have good: "good arity (ds_rt s) (held s) (ds_rt s)" by (simp add: dyn_inv_def)
  then have cache: "cache_fine arity (ds_rt s)" by (simp add: good_def)
  have buckets: "let b = dr_buckets (ds_rt s) ! i in
       length (sb_lanes b) + sb_detached b = cf_lane_count (dr_config (ds_rt s)) \<and> bucket_index (ds_rt s) (sb_id b) = Some i"
    if "i < length (dr_buckets (ds_rt s))" for i
    using cache that slots.resolve_nth [OF inv_table [OF inv], of i] by (auto simp: cache_fine_def bucket_fine_def)
  have runs: "\<exists>i. bucket_index (ds_rt s) (snd run) = Some i \<and>
       length (filter (\<lambda>r. snd r = snd run) (ds_runs s)) \<le> sb_detached (dr_buckets (ds_rt s) ! i)" if "run \<in> set (ds_runs s)" for run
  proof -
    have "snd run \<in># claims (held s) (ds_rt s)" using that by (auto simp: claims_def held_def)
    from claimed_bucket [OF good this] obtain i where "bucket_index (ds_rt s) (snd run) = Some i"
      "count (claims (held s) (ds_rt s)) (snd run) \<le> sb_detached (dr_buckets (ds_rt s) ! i)" by metis
    moreover have "count (mset (map snd xs)) pid = length (filter (\<lambda>r. snd r = pid) xs)" for xs :: "('a, 'b) owned_run list" and pid
      by (induction xs) auto
    then have "count (held s) (snd run) = length (filter (\<lambda>r. snd r = snd run) (ds_runs s))" unfolding held_def .
    ultimately show ?thesis by (auto simp: claims_def)
  qed
  show ?thesis
    using cache buckets runs find_iff [OF good] by (simp add: cache_fine_def table_room_def)
qed

theorem dynamic_cache_invariant_witness:
  "\<exists>s run. (dyn_step (1, 1) example_dyn_env)\<^sup>*\<^sup>* example_start s \<and> ds_runs s = [run] \<and>
     find_bucket_index (ds_rt s) [[2, 3]] [[2, 3]] = Some 0 \<and> bucket_index (ds_rt s) (snd run) = Some 0 \<and>
     sb_detached (dr_buckets (ds_rt s) ! 0) = 1"
proof -
  obtain lanes w1 w2 where step: "(dyn_step (1, 1) example_dyn_env)\<^sup>*\<^sup>* example_start
       \<lparr>ds_rt = example_cached (example_bucket lanes 0), ds_world = w1, ds_runs = []\<rparr>"
     "dyn_step (1, 1) example_dyn_env \<lparr>ds_rt = example_cached (example_bucket lanes 0), ds_world = w1, ds_runs = []\<rparr>
       \<lparr>ds_rt = example_cached (example_bucket (butlast lanes) 1), ds_world = w2,
        ds_runs = [(last lanes\<lparr>ln_in_flight := True\<rparr>, \<lparr>pi_slot = 0, pi_generation = 1\<rparr>)]\<rparr>"
    using example_reach by blast
  have buckets: "dr_buckets (example_cached b) = [b]" for b by (simp add: example_cached_def)
  note reach = rtranclp.rtrancl_into_rtrancl [OF step]
  note inv = dynamic_cache_invariant [OF example_init reach, simplified, unfolded buckets, simplified]
  then have "find_bucket_index (example_cached (example_bucket (butlast lanes) 1)) [[2, 3]] [[2, 3]] = Some 0"
    by (simp add: requests_def example_bucket_def)
  with inv reach show ?thesis
    by (intro exI [of _ "\<lparr>ds_rt = example_cached (example_bucket (butlast lanes) 1), ds_world = w2,
        ds_runs = [(last lanes\<lparr>ln_in_flight := True\<rparr>, \<lparr>pi_slot = 0, pi_generation = 1\<rparr>)]\<rparr>"]) (auto simp: buckets Let_def example_bucket_def)
qed

text \<open>
  C9. A handle only ever names the shapes it was issued for: as long as it resolves, it resolves
  to a bucket of those shapes, wherever that bucket has moved; and once it stops resolving it
  never resolves again, whatever buckets reuse its slot.
\<close>

theorem prepared_id_never_aliases:
  assumes "dyn_init s0" "(dyn_step arity env)\<^sup>*\<^sup>* s0 s" "(dyn_step arity env)\<^sup>*\<^sup>* s t" "(dyn_step arity env)\<^sup>*\<^sup>* t u"
    "bucket_index (ds_rt s) pid = Some i"
  shows "(\<forall>j. bucket_index (ds_rt t) pid = Some j \<longrightarrow>
       sb_key (dr_buckets (ds_rt t) ! j) = sb_key (dr_buckets (ds_rt s) ! i)) \<and>
    (bucket_index (ds_rt t) pid = None \<longrightarrow> bucket_index (ds_rt u) pid = None)"
proof -
  have "dyn_inv arity s" using dyn.reachable_inv [OF assms(1, 2)] .
  moreover have "names_shape s pid = Some (sb_key (dr_buckets (ds_rt s) ! i))" using assms(5) by (simp add: names_shape_def)
  ultimately have "names_shape t pid = Some (sb_key (dr_buckets (ds_rt s) ! i)) \<or> names_shape t pid = None"
    "names_shape t pid = None \<longrightarrow> names_shape u pid = None"
    using dyn.never_alias [OF _ assms(3, 4)] by simp_all
  then show ?thesis by (auto simp: names_shape_def)
qed

theorem prepared_id_never_aliases_witness:
  "\<exists>s t. (dyn_step (1, 1) example_dyn_env)\<^sup>*\<^sup>* example_start s \<and> dyn_step (1, 1) example_dyn_env s t \<and>
     bucket_index (ds_rt s) \<lparr>pi_slot = 0, pi_generation = 1\<rparr> = Some 0 \<and>
     {u. (dyn_step (1, 1) example_dyn_env)\<^sup>*\<^sup>* t u} \<subseteq> {u. bucket_index (ds_rt u) \<lparr>pi_slot = 0, pi_generation = 1\<rparr> = None}"
proof -
  obtain lanes w1 where reach: "(dyn_step (1, 1) example_dyn_env)\<^sup>*\<^sup>* example_start
       \<lparr>ds_rt = example_cached (example_bucket lanes 0), ds_world = w1, ds_runs = []\<rparr>" (is "(dyn_step _ _)\<^sup>*\<^sup>* _ ?s")
    and lanes: "length lanes = 2" "list_all plain_lane lanes" using example_reach by blast
  have named: "bucket_index (ds_rt ?s) \<lparr>pi_slot = 0, pi_generation = 1\<rparr> = Some 0"
    by (simp add: example_cached_def example_bucket_def prepared_bucket_index_def get_opt_def)
  obtain rt' w' where remove: "remove_bucket example_dyn_env [[2, 3]] [[2, 3]] (example_cached (example_bucket lanes 0), w1) = Ret (Inr True, rt', w')"
     and gone: "bucket_index rt' \<lparr>pi_slot = 0, pi_generation = 1\<rparr> = None" using example_remove [OF lanes] by blast
  have "requests (1, 1) [[2, 3]] [[2, 3]]" by (simp add: requests_def)
  from do_remove [OF this remove] have step: "dyn_step (1, 1) example_dyn_env ?s \<lparr>ds_rt = rt', ds_world = w', ds_runs = []\<rparr>" (is "dyn_step _ _ _ ?t") .
  then have "(dyn_step (1, 1) example_dyn_env)\<^sup>*\<^sup>* ?s ?t" by (rule r_into_rtranclp)
  from prepared_id_never_aliases [OF example_init reach this _ named] gone
  have "bucket_index (ds_rt u) \<lparr>pi_slot = 0, pi_generation = 1\<rparr> = None" if "(dyn_step (1, 1) example_dyn_env)\<^sup>*\<^sup>* ?t u" for u
    using that by simp
  with reach step named show ?thesis by blast
qed

text \<open>
  C27. Completing an owned run synchronizes its lane once and puts it back into the bucket it came
  from, wherever that has moved, whether or not the caller's closure fails; the answer is the
  closure's, or the synchronization's error: the bucket is never gone and the accounting never
  off. A lane that cannot be fenced is leaked and stays counted as detached.
\<close>

theorem complete_owned_returns_lane:
  assumes "dyn_init s0" "(dyn_step arity env)\<^sup>*\<^sup>* s0 s" "run \<in> set (ds_runs s)"
    "synchronize_outputs (provider_of env) (fst run, wd_log w) = Ret (sync, lane, log')"
  shows "\<exists>k b. bucket_index (ds_rt s) (snd run) = Some k \<and> b = dr_buckets (ds_rt s) ! k \<and>
    complete_owned env run consume (ds_rt s, w) =
      Ret (case sync of Inr _ \<Rightarrow> consume lane | Inl e \<Rightarrow> Inl (Lane_failed e),
        if ln_in_flight lane then (ds_rt s, forget [lane] (w\<lparr>wd_log := log'\<rparr>))
        else (set_bucket k (b\<lparr>sb_detached := sb_detached b - 1, sb_lanes := sb_lanes b @ [lane]\<rparr>) (ds_rt s),
              w\<lparr>wd_log := log'\<rparr>)) \<and>
    0 < sb_detached b \<and> length (sb_lanes b) < cf_lane_count (dr_config (ds_rt s))"
proof -
  have "dyn_inv arity s" using dyn.reachable_inv [OF assms(1, 2)] .
  moreover obtain T where T: "held s = T + {#snd run#}"
    using assms(3) by (metis held_def image_eqI mset_map multi_member_split in_multiset_in_set list.set_map add_mset_add_single)
  ultimately have good: "good arity (ds_rt s) (T + {#snd run#}) (ds_rt s)" by (simp add: dyn_inv_def)
  have "snd run \<in># claims (T + {#snd run#}) (ds_rt s)" by (simp add: claims_def)
  from claimed_bucket [OF good this] obtain k where k: "bucket_index (ds_rt s) (snd run) = Some k" by metis
  note put = good_put_back [OF good k]
  show ?thesis
    using k put(1-3) assms(4)
    by (intro exI [of _ k] exI [of _ "dr_buckets (ds_rt s) ! k"])
      (auto simp: complete_owned_def d_bind_def d_lane_def d_world_def world_lane_def Let_def d_try_def d_check_def
        return_detached_lane_def d_get_def d_set_def d_forget_def get_opt_def set_bucket_def split: sum.split)
qed

theorem complete_owned_returns_lane_witness:
  "\<exists>s run lane w. (dyn_step (1, 1) example_dyn_env)\<^sup>*\<^sup>* example_start s \<and> ds_runs s = [run] \<and>
     complete_owned example_dyn_env run (\<lambda>_. Inr (7 :: nat)) (ds_rt s, ds_world s) =
       Ret (Inr 7, example_cached (example_bucket (sb_lanes (dr_buckets (ds_rt s) ! 0) @ [lane]) 0), w)"
proof -
  obtain lanes w1 w2 where step: "(dyn_step (1, 1) example_dyn_env)\<^sup>*\<^sup>* example_start
       \<lparr>ds_rt = example_cached (example_bucket lanes 0), ds_world = w1, ds_runs = []\<rparr>"
     "dyn_step (1, 1) example_dyn_env \<lparr>ds_rt = example_cached (example_bucket lanes 0), ds_world = w1, ds_runs = []\<rparr>
       \<lparr>ds_rt = example_cached (example_bucket (butlast lanes) 1), ds_world = w2,
        ds_runs = [(last lanes\<lparr>ln_in_flight := True\<rparr>, \<lparr>pi_slot = 0, pi_generation = 1\<rparr>)]\<rparr>" (is "dyn_step _ _ _ ?s")
    and lanes: "length lanes = 2" "list_all plain_lane lanes" using example_reach by blast
  note reach = rtranclp.rtrancl_into_rtrancl [OF step]
  define run where "run = (last lanes\<lparr>ln_in_flight := True\<rparr>, \<lparr>pi_slot = 0, pi_generation = 1\<rparr>)"
  have run: "run \<in> set (ds_runs ?s)" by (simp add: run_def)
  have "plain_lane (last lanes)" using lanes by (cases lanes rule: rev_cases) auto
  then obtain log' where sync: "synchronize_outputs (provider_of example_dyn_env) (fst run, wd_log w2) = Ret (Inr (), last lanes, log')"
    by (cases "last lanes") (auto simp: run_def plain_lane_def synchronize_outputs_def op_get_def op_bind_def op_try_def event_or_output_sync_def
      call_def provide_def Let_def op_return_def example_dyn_env_def example_env_def reliable_def answer_def is_ok_def op_when_def
      clear_in_flight_def op_set_def drop_guard_def)
  have "\<not> ln_in_flight (last lanes)" using \<open>plain_lane (last lanes)\<close> by (simp add: plain_lane_def)
  then have "complete_owned example_dyn_env run (\<lambda>_. Inr (7 :: nat)) (ds_rt ?s, w2) =
      Ret (Inr 7, example_cached (example_bucket (butlast lanes @ [last lanes]) 0), w2\<lparr>wd_log := log'\<rparr>)"
    using complete_owned_returns_lane [OF example_init reach run sync, of "\<lambda>_. Inr (7 :: nat)"]
    by (cases example_rt) (auto simp: run_def example_cached_def example_bucket_def set_bucket_def prepared_bucket_index_def get_opt_def)
  with reach show ?thesis
    by (intro exI [of _ ?s] exI [of _ run] exI [of _ "last lanes"] exI [of _ "w2\<lparr>wd_log := log'\<rparr>"])
      (simp add: run_def example_cached_def example_bucket_def)
qed




text \<open>
  C29. The reclaim loop ends in every state the runtime reaches, however many owned runs were
  dropped: it takes every parked lane out of the recovery cells and puts it back into a bucket,
  reports their number, leaks none and leaves every cell empty.
\<close>

theorem reclaim_terminates:
  assumes "dyn_init s0" "(dyn_step arity env)\<^sup>*\<^sup>* s0 s" "parked = length (filter (\<lambda>c. c \<noteq> None) (rs_value (dr_recovery (ds_rt s))))"
  shows "\<exists>rt'. reclaim_dropped_runs (ds_rt s, w) = Ret (Inr parked, rt', w) \<and>
    list_all (\<lambda>c. c = None) (rs_value (dr_recovery rt')) \<and> pooled_lanes rt' = pooled_lanes (ds_rt s) + parked"
proof -
  have "good arity (ds_rt s) (held s) (ds_rt s)" using dyn.reachable_inv [OF assms(1, 2)] by (simp add: dyn_inv_def)
  from reclaim_good [OF this, of w] obtain st rt' where rt': "reclaim_dropped_runs (ds_rt s, w) = Ret (Inr (length st), rt', w)"
    "holds_lanes (dr_recovery (ds_rt s)) st" "holds_lanes (dr_recovery rt') []" "pooled_lanes rt' = pooled_lanes (ds_rt s) + length st"
    by blast
  have "parked = length st" using holds_lanes_filled [OF rt'(2)] assms(3) by simp
  moreover have "list_all (\<lambda>c. c = None) (rs_value (dr_recovery rt'))"
    using rt'(3) unfolding holds_lanes_def list_all_length list.set by blast
  ultimately show ?thesis using rt' by blast
qed

theorem reclaim_terminates_witness:
  "\<exists>s rt'. (dyn_step (1, 1) example_dyn_env)\<^sup>*\<^sup>* example_start s \<and>
     reclaim_dropped_runs (ds_rt s, ds_world s) = Ret (Inr 1, rt', ds_world s) \<and> pooled_lanes (ds_rt s) = 1 \<and> pooled_lanes rt' = 2"
proof -
  obtain s where reach: "(dyn_step (1, 1) example_dyn_env)\<^sup>*\<^sup>* example_start s"
    and parked: "1 = length (filter (\<lambda>c. c \<noteq> None) (rs_value (dr_recovery (ds_rt s))))" "pooled_lanes (ds_rt s) = 1"
    using example_dropped by metis
  from reclaim_terminates [OF example_init reach parked(1)] parked(2) reach show ?thesis by (metis one_add_one)
qed

end
