(* ===== verification/Owned_Runs.thy ===== *)
theory Owned_Runs
  imports Dynamic_Runtime
begin

text \<open>
  st-zrt/src/runtime.rs, the tokens of owned runs: borrowing the lane, chaining work on another
  CUDA stream behind the run (\<open>chain_on_stream\<close> and \<open>GpuChainedDynamicIoRun\<close>), and polling a
  batch of runs (\<open>poll_owned_runs\<close>). Waiting for a single run and querying it are the lane's own
  calls. The caller's closure that queues the downstream work is represented by what it answers;
  the work it queues on the stream before it returns is not otherwise visible.
\<close>

subsection \<open>Borrowing the lane\<close>

definition borrow_lane :: "('i, 'o) owned_run \<Rightarrow> lane_error + ('i, 'o) lane" where
  "borrow_lane run = (if ln_in_flight (fst run) then Inl Lane_in_flight else Inr (fst run))"

subsection \<open>Chaining on a stream\<close>

datatype enqueue_outcome = Enqueued | Enqueue_failed nat | Enqueue_panicked

datatype chain_error =
    Chain_lane_error lane_error
  | Chain_closure_error nat
  | Chain_stream_error nat
  | Chain_no_event
  | Chain_missing_run

text \<open>
  \<open>GpuChainedDynamicIoRun\<close>; \<open>ch_stream\<close>, the downstream stream is still held; \<open>ch_key\<close> names the
  calls on that stream in the log.
\<close>

record ('i, 'o) chained_run =
  ch_run :: "('i, 'o) owned_run option"
  ch_recorded :: bool
  ch_stream :: bool
  ch_failure :: "chain_error option"
  ch_complete :: bool
  ch_key :: nat

text \<open>
  What \<open>chain_on_stream\<close> makes of the run: handed back with the error, chained, or, when the
  closure panics, dropped by the unwinding after it was marked complete, or leaked.
\<close>

datatype ('i, 'o) chain_result =
    Chain_refused lane_error "('i, 'o) owned_run"
  | Chained "('i, 'o) chained_run"
  | Chain_unwound "('i, 'o) owned_run"
  | Chain_unwound_leaked "('i, 'o) owned_run"

definition chain_on_stream :: "provider \<Rightarrow> int \<Rightarrow> int \<Rightarrow> ('o list list \<Rightarrow> enqueue_outcome)
    \<Rightarrow> ('i, 'o) owned_run \<times> log \<Rightarrow> (('i, 'o) chain_result \<times> log) run" where
  "chain_on_stream pv source downstream queue_work = (\<lambda>(run, t). case device_outputs_for_chain (fst run) of
     Inl e \<Rightarrow> Ret (Chain_refused e run, t)
   | Inr outs \<Rightarrow> bind_run (queue_completion_wait pv source downstream (fst run, t)) (\<lambda>(waits, l, t).
       case waits of Inl e \<Rightarrow> Ret (Chain_refused e (l, snd run), t)
       | Inr _ \<Rightarrow> let outcome = queue_work outs in
           bind_run (record_downstream_completion pv (l, t)) (\<lambda>(recorded, l, t).
           if outcome = Enqueue_panicked then
             bind_run (if is_ok recorded then synchronize_downstream pv (l, t) else Ret (recorded, l, t)) (\<lambda>(synced, l, t).
               if is_ok recorded \<and> is_ok synced
               then bind_run (mark_complete_after_gpu_chain (l, t)) (\<lambda>(_, l, t). Ret (Chain_unwound (l, snd run), t))
               else Ret (Chain_unwound_leaked (l, snd run), t))
           else Ret (Chained \<lparr>ch_run = Some (l, snd run), ch_recorded = is_ok recorded, ch_stream = True,
             ch_failure = (case recorded of Inl e \<Rightarrow> Some (Chain_lane_error e)
               | Inr _ \<Rightarrow> (case outcome of Enqueue_failed n \<Rightarrow> Some (Chain_closure_error n) | _ \<Rightarrow> None)),
             ch_complete = False, ch_key = ln_key l\<rparr>, t))))"

type_synonym ('i, 'o, 'r) chain_op =
  "('i, 'o) chained_run \<times> log \<Rightarrow> ((chain_error + 'r) \<times> ('i, 'o) chained_run \<times> log) run"

definition chain_mark_complete :: "('i, 'o, unit) chain_op" where
  "chain_mark_complete = (\<lambda>(ch, t). case ch_run ch of None \<Rightarrow> Panic
     | Some run \<Rightarrow> bind_run (mark_complete_after_gpu_chain (fst run, t)) (\<lambda>(_, l, t).
         Ret (Inr (), ch\<lparr>ch_run := Some (l, snd run), ch_complete := True\<rparr>, t)))"

definition chain_try_complete :: "provider \<Rightarrow> ('i, 'o, completion_status) chain_op" where
  "chain_try_complete pv = (\<lambda>(ch, t).
     if ch_complete ch then Ret (Inr Ready, ch, t)
     else if \<not> ch_recorded ch then Ret (Inl Chain_no_event, ch, t)
     else case ch_run ch of None \<Rightarrow> Panic
       | Some run \<Rightarrow> bind_run (downstream_is_complete pv (fst run, t)) (\<lambda>(r, l, t). case r of
           Inl e \<Rightarrow> Ret (Inl (Chain_lane_error e), ch, t)
         | Inr is_done \<Rightarrow> if \<not> is_done then Ret (Inr Pending, ch, t)
             else bind_run (chain_mark_complete (ch, t)) (\<lambda>(_, ch, t). Ret (Inr Ready, ch, t))))"

definition stream_synchronize :: "provider \<Rightarrow> nat \<Rightarrow> log \<Rightarrow> (chain_error + unit) \<times> log" where
  "stream_synchronize pv k t = (let r = answer Stream_synchronize (pv t k Stream_synchronize) in
     (case r of Failed n \<Rightarrow> Inl (Chain_stream_error n) | _ \<Rightarrow> Inr (), t @ [(k, Stream_synchronize, r)]))"

text \<open>The body of \<open>synchronize\<close>, and \<open>Drop\<close>, which also runs when \<open>synchronize\<close> returns.\<close>

definition chain_synchronize_body :: "provider \<Rightarrow> ('i, 'o, ('i, 'o) owned_run) chain_op" where
  "chain_synchronize_body pv = (\<lambda>(ch, t).
     if \<not> ch_recorded ch then
       let error = (case ch_failure ch of Some e \<Rightarrow> e | None \<Rightarrow> Chain_no_event); ch = ch\<lparr>ch_failure := None\<rparr> in
       if \<not> ch_stream ch then Panic
       else case stream_synchronize pv (ch_key ch) t of
         (Inl e, t) \<Rightarrow> Ret (Inl e, ch, t)
       | (Inr _, t) \<Rightarrow> bind_run (chain_mark_complete (ch, t)) (\<lambda>(_, ch, t). Ret (Inl error, ch, t))
     else bind_run (if ch_complete ch then Ret (Inr (), ch, t)
         else case ch_run ch of None \<Rightarrow> Panic
         | Some run \<Rightarrow> bind_run (synchronize_downstream pv (fst run, t)) (\<lambda>(r, l, t). case r of
             Inl e \<Rightarrow> Ret (Inl (Chain_lane_error e), ch, t) | Inr _ \<Rightarrow> chain_mark_complete (ch, t))) (\<lambda>(r, ch, t).
       case r of Inl e \<Rightarrow> Ret (Inl e, ch, t)
       | Inr _ \<Rightarrow> (let ch = ch\<lparr>ch_stream := False\<rparr> in case ch_failure ch of
             Some e \<Rightarrow> Ret (Inl e, ch\<lparr>ch_failure := None\<rparr>, t)
           | None \<Rightarrow> (case ch_run ch of None \<Rightarrow> Ret (Inl Chain_missing_run, ch, t)
               | Some run \<Rightarrow> Ret (Inr run, ch\<lparr>ch_run := None\<rparr>, t)))))"

text \<open>What becomes of the run of a dropped token: nothing to do, leaked, or dropped itself.\<close>

datatype ('i, 'o) chain_fate =
    Chain_empty
  | Chain_leaks "('i, 'o) owned_run"
  | Chain_releases "('i, 'o) owned_run"

definition chain_drop :: "provider \<Rightarrow> ('i, 'o) chained_run \<times> log \<Rightarrow> (('i, 'o) chain_fate \<times> log) run" where
  "chain_drop pv = (\<lambda>(ch, t). case ch_run ch of None \<Rightarrow> Ret (Chain_empty, t)
     | Some run \<Rightarrow> if ch_complete ch then Ret (Chain_releases run, t)
         else bind_run (if ch_recorded ch then synchronize_downstream pv (fst run, t)
                        else Ret (Inl No_downstream_event, fst run, t)) (\<lambda>(r, _, t).
           let (synchronized, t) = (if is_ok r then (True, t)
             else if ch_stream ch then (case stream_synchronize pv (ch_key ch) t of (x, t) \<Rightarrow> (\<not> isl x, t))
             else (False, t)) in
           if \<not> synchronized then Ret (Chain_leaks run, t)
           else bind_run (chain_mark_complete (ch, t)) (\<lambda>(_, ch, t).
             Ret (case ch_run ch of None \<Rightarrow> Chain_empty | Some run \<Rightarrow> Chain_releases run, t))))"

definition chain_synchronize :: "provider \<Rightarrow> ('i, 'o) chained_run \<times> log
    \<Rightarrow> ((chain_error + ('i, 'o) owned_run) \<times> ('i, 'o) chain_fate \<times> log) run" where
  "chain_synchronize pv s = bind_run (chain_synchronize_body pv s) (\<lambda>(r, s).
     bind_run (chain_drop pv s) (\<lambda>(f, t). Ret (r, f, t)))"

subsection \<open>Polling a batch\<close>

datatype poll_error = Statuses_too_short | Run_without_event | Run_on_other_device | Device_inactive nat | Query_failed nat

text \<open>The completion event of a lane is on the lane's device.\<close>

fun poll_preflight :: "int \<Rightarrow> bool \<Rightarrow> ('i, 'o) owned_run list \<Rightarrow> (poll_error + bool) run" where
  "poll_preflight device has_in_flight [] = Ret (Inr has_in_flight)"
| "poll_preflight device has_in_flight (run # runs) =
     (if \<not> ln_in_flight (fst run) then poll_preflight device has_in_flight runs
      else bind_run (completion_event (fst run)) (\<lambda>event. case event of
        None \<Rightarrow> Ret (Inl Run_without_event)
      | Some _ \<Rightarrow> if ln_device_id (fst run) \<noteq> Some device then Ret (Inl Run_on_other_device)
          else poll_preflight device True runs))"

fun poll_loop :: "provider \<Rightarrow> int \<Rightarrow> ('i, 'o) owned_run list \<Rightarrow> completion_status list \<Rightarrow> log
    \<Rightarrow> ((poll_error + unit) \<times> ('i, 'o) owned_run list \<times> completion_status list \<times> log) run" where
  "poll_loop pv device (run # runs) (status # statuses) t =
     (if \<not> ln_in_flight (fst run)
      then bind_run (poll_loop pv device runs statuses t) (\<lambda>(r, runs, statuses, t). Ret (r, run # runs, Ready # statuses, t))
      else bind_run (completion_event (fst run)) (\<lambda>event. case event of None \<Rightarrow> Panic
        | Some _ \<Rightarrow>
            if ln_device_id (fst run) \<noteq> Some device then Ret (Inl Run_on_other_device, run # runs, status # statuses, t)
            else bind_run (provide pv Event_query (fst run, t)) (\<lambda>(r, l, t). case r of
                Inl e \<Rightarrow> Ret (Inl (Query_failed (case e of Provider_error n \<Rightarrow> n | _ \<Rightarrow> 0)), run # runs, status # statuses, t)
              | Inr is_done \<Rightarrow>
                  bind_run (if is_done then clear_in_flight (l, t) else Ret (Inr (), l, t)) (\<lambda>(_, l, t).
                  bind_run (poll_loop pv device runs statuses t) (\<lambda>(r, runs, statuses, t).
                    Ret (r, (l, snd run) # runs, (if is_done then Ready else Pending) # statuses, t))))))"
| "poll_loop pv device runs statuses t = Ret (Inr (), runs, statuses, t)"

text \<open>\<open>active\<close> is what the poller's device check answers.\<close>

definition poll_owned_runs :: "provider \<Rightarrow> int \<Rightarrow> nat + unit \<Rightarrow> ('i, 'o) owned_run list \<Rightarrow> completion_status list \<Rightarrow> log
    \<Rightarrow> ((poll_error + unit) \<times> ('i, 'o) owned_run list \<times> completion_status list \<times> log) run" where
  "poll_owned_runs pv device active runs statuses t =
     (if length statuses < length runs then Ret (Inl Statuses_too_short, runs, statuses, t)
      else bind_run (poll_preflight device False runs) (\<lambda>checked. case checked of
        Inl e \<Rightarrow> Ret (Inl e, runs, statuses, t)
      | Inr has_in_flight \<Rightarrow> (case (if has_in_flight then active else Inr ()) of
            Inl n \<Rightarrow> Ret (Inl (Device_inactive n), runs, statuses, t)
          | Inr _ \<Rightarrow> poll_loop pv device runs statuses t)))"

subsection \<open>A token and its run\<close>

text \<open>
  \<open>settled_lane\<close>: the lane is idle and neither its own work nor work that reads its outputs can
  be outstanding. \<open>chain_fine\<close>: the token holds its run; a token that is complete holds a settled
  lane; one that is not holds a lane in flight whose covered run the downstream stream waits for.
\<close>

definition settled_lane :: "('i, 'o) lane \<Rightarrow> log \<Rightarrow> bool" where
  "settled_lane l t \<longleftrightarrow> lane_safe l t \<and> \<not> ln_in_flight l \<and> \<not> w_busy (watching (ln_key l) t) \<and>
     \<not> w_consumers (watching (ln_key l) t)"

definition waiting_lane :: "bool \<Rightarrow> ('i, 'o) lane \<Rightarrow> log \<Rightarrow> bool" where
  "waiting_lane recorded l t \<longleftrightarrow> lane_safe l t \<and> ln_in_flight l \<and> ln_event_recorded l \<and>
     w_ordered (watching (ln_key l) t) \<and> (recorded \<longrightarrow> ln_downstream_event l \<and> w_recorded (watching (ln_key l) t))"

definition chain_fine :: "('i, 'o) lane \<Rightarrow> prepared_id \<Rightarrow> ('i, 'o) chained_run \<Rightarrow> log \<Rightarrow> bool" where
  "chain_fine l0 pid ch t \<longleftrightarrow> (\<exists>l. ch_run ch = Some (l, pid) \<and> fixed l = fixed l0 \<and> ch_key ch = ln_key l \<and>
     (if ch_complete ch then settled_lane l t else waiting_lane (ch_recorded ch) l t \<and> ch_stream ch))"

text \<open>Marking the run complete once the downstream stream has caught up.\<close>

lemma mark_complete_settles:
  assumes "waiting_lane b l t" "\<not> w_busy (watching (ln_key l) t)" "\<not> w_consumers (watching (ln_key l) t)"
  shows "\<exists>l' t'. mark_complete_after_gpu_chain (l, t) = Ret (Inr (), l', t') \<and> settled_lane l' t' \<and> fixed l' = fixed l"
proof -
  let ?l' = "l\<lparr>ln_in_flight := False, ln_guard := False, ln_event_recorded := False\<rparr>"
    and ?t' = "if ln_guard l then t @ [(ln_key l, Lease_drop, Succeeded)] else t"
  have "mark_complete_after_gpu_chain (l, t) = Ret (Inr (), ?l', ?t')"
    using assms(1) by (simp add: mark_complete_after_gpu_chain_def op_get_def waiting_lane_def clear_in_flight_eq)
  moreover have "settled_lane ?l' ?t'"
    using assms by (cases "ln_guard l") (simp_all add: waiting_lane_def settled_lane_def lane_safe_def carries_def)
  ultimately show ?thesis by (intro exI [of _ ?l'] exI [of _ ?t']) simp
qed

lemma caught_up_waiting:
  assumes "waiting_lane b l t" "watching (ln_key l) t' = caught_up (watching (ln_key l) t)"
  shows "waiting_lane b l t'" "\<not> w_busy (watching (ln_key l) t')" "\<not> w_consumers (watching (ln_key l) t')"
  using assms by (auto simp: waiting_lane_def caught_up_def lane_safe_def carries_def)

lemma waiting_log:
  assumes "watching (ln_key l) t' = watching (ln_key l) t"
  shows "waiting_lane b l t' = waiting_lane b l t" "settled_lane l t' = settled_lane l t"
  unfolding waiting_lane_def settled_lane_def carries_log(2) [OF assms] assms by (rule refl)+

lemma chain_mark_complete_fine:
  assumes "chain_fine l0 pid ch t" "\<not> ch_complete ch" "watching (ch_key ch) t' = caught_up (watching (ch_key ch) t)"
  shows "\<exists>l t''. chain_mark_complete (ch, t') = Ret (Inr (), ch\<lparr>ch_run := Some (l, pid), ch_complete := True\<rparr>, t'') \<and>
    settled_lane l t'' \<and> fixed l = fixed l0"
proof -
  obtain l where l: "ch_run ch = Some (l, pid)" "fixed l = fixed l0" "ch_key ch = ln_key l" "waiting_lane (ch_recorded ch) l t"
    using assms by (auto simp: chain_fine_def)
  have "watching (ln_key l) t' = caught_up (watching (ln_key l) t)" using assms(3) l(3) by simp
  note up = caught_up_waiting [OF l(4) this]
  from mark_complete_settles [OF up] obtain l' t'' where
    "mark_complete_after_gpu_chain (l, t') = Ret (Inr (), l', t'')" "settled_lane l' t''" "fixed l' = fixed l" by blast
  then show ?thesis using l by (auto simp: chain_mark_complete_def)
qed

text \<open>The downstream calls of a chained lane: the answer and what the log shows after it.\<close>

lemma synchronize_downstream_eq:
  assumes "waiting_lane True l t"
  shows "\<exists>r t'. synchronize_downstream pv (l, t) = Ret (r, l, t') \<and> (is_ok r \<longrightarrow> watching (ln_key l) t' = caught_up (watching (ln_key l) t)) \<and>
    (\<not> is_ok r \<longrightarrow> watching (ln_key l) t' = watching (ln_key l) t)"
  using assms
  by (cases "pv t (ln_key l) Downstream_synchronize")
    (auto simp: synchronize_downstream_def on_downstream_event_def op_get_def call_def op_bind_def provide_def Let_def answer_def
      op_return_def is_ok_def waiting_lane_def)

lemma downstream_is_complete_eq:
  assumes "waiting_lane True l t"
  shows "\<exists>r t'. downstream_is_complete pv (l, t) = Ret (r, l, t') \<and>
    watching (ln_key l) t' = (if r = Inr True then caught_up (watching (ln_key l) t) else watching (ln_key l) t)"
  using assms
  by (cases "pv t (ln_key l) Downstream_query")
    (auto simp: downstream_is_complete_def on_downstream_event_def op_get_def provide_def Let_def answer_def waiting_lane_def)

lemma stream_synchronize_eq:
  "\<exists>r t'. stream_synchronize pv k t = (r, t') \<and> watching k t' = (if isl r then watching k t else caught_up (watching k t))"
  by (cases "pv t k Stream_synchronize") (auto simp: stream_synchronize_def Let_def answer_def)

subsection \<open>The calls on a token\<close>

lemma chain_fineE:
  assumes "chain_fine l0 pid ch t" "\<not> ch_complete ch"
  obtains l where "ch_run ch = Some (l, pid)" "fixed l = fixed l0" "ch_key ch = ln_key l" "waiting_lane (ch_recorded ch) l t" "ch_stream ch"
  using assms by (auto simp: chain_fine_def)

lemma chain_fine_log:
  assumes "chain_fine l0 pid ch t" "watching (ch_key ch) t' = watching (ch_key ch) t"
  shows "chain_fine l0 pid ch t'"
proof -
  obtain l where l: "ch_run ch = Some (l, pid)" "fixed l = fixed l0" "ch_key ch = ln_key l"
    "if ch_complete ch then settled_lane l t else waiting_lane (ch_recorded ch) l t \<and> ch_stream ch"
    using assms(1) unfolding chain_fine_def by blast
  have "watching (ln_key l) t' = watching (ln_key l) t" using assms(2) l(3) by simp
  then show ?thesis using l waiting_log [of l t' t] unfolding chain_fine_def by auto
qed

lemma chain_fine_completed:
  assumes "chain_fine l0 pid ch t" "settled_lane l t'" "fixed l = fixed l0"
  shows "chain_fine l0 pid (ch\<lparr>ch_run := Some (l, pid), ch_complete := True\<rparr>) t'"
proof -
  have "ch_key ch = ln_key l0" using assms(1) fixedD(1) unfolding chain_fine_def by metis
  then show ?thesis using assms(2, 3) fixedD(1) [OF assms(3)] by (simp add: chain_fine_def)
qed

lemma chain_try_complete_fine:
  assumes "chain_fine l0 pid ch t"
  shows "\<exists>r ch' t'. chain_try_complete pv (ch, t) = Ret (r, ch', t') \<and> chain_fine l0 pid ch' t' \<and>
    (r = Inr Ready \<longleftrightarrow> ch_complete ch') \<and> ch_recorded ch' = ch_recorded ch \<and> (ch_complete ch' \<longrightarrow> ch_complete ch \<or> ch_recorded ch)"
proof (cases "ch_complete ch \<or> \<not> ch_recorded ch")
  case True
  then show ?thesis using assms by (auto simp: chain_try_complete_def)
next
  case False
  then obtain l where l: "ch_run ch = Some (l, pid)" "ch_key ch = ln_key l" "waiting_lane True l t"
    using chain_fineE [OF assms] by metis
  obtain r t' where query: "downstream_is_complete pv (l, t) = Ret (r, l, t')"
    "watching (ln_key l) t' = (if r = Inr True then caught_up (watching (ln_key l) t) else watching (ln_key l) t)"
    using downstream_is_complete_eq [OF l(3)] by blast
  show ?thesis
  proof (cases "r = Inr True")
    case True
    then have "watching (ch_key ch) t' = caught_up (watching (ch_key ch) t)" using query(2) l(2) by simp
    from chain_mark_complete_fine [OF assms _ this] False obtain l' t'' where
      "chain_mark_complete (ch, t') = Ret (Inr (), ch\<lparr>ch_run := Some (l', pid), ch_complete := True\<rparr>, t'')"
      "settled_lane l' t''" "fixed l' = fixed l0" by blast
    then show ?thesis
      using True False l(1) query(1) chain_fine_completed [OF assms] by (auto simp: chain_try_complete_def)
  next
    case pending: False
    then have "watching (ch_key ch) t' = watching (ch_key ch) t" using query(2) l(2) by simp
    note chain_fine_log [OF assms this]
    then show ?thesis
      using pending False l(1) query(1) by (cases r) (auto simp: chain_try_complete_def)
  qed
qed

text \<open>What a dropped token leaves: never a run that is gone without its lane settled or leaked.\<close>

definition fate_fine :: "('i, 'o) lane \<Rightarrow> prepared_id \<Rightarrow> ('i, 'o) chain_fate \<Rightarrow> log \<Rightarrow> bool" where
  "fate_fine l0 pid f t \<longleftrightarrow> (case f of Chain_empty \<Rightarrow> False
     | Chain_leaks run \<Rightarrow> snd run = pid \<and> fixed (fst run) = fixed l0
     | Chain_releases run \<Rightarrow> snd run = pid \<and> fixed (fst run) = fixed l0 \<and> settled_lane (fst run) t)"

lemma chain_drop_fine:
  assumes "chain_fine l0 pid ch t"
  shows "\<exists>f t'. chain_drop pv (ch, t) = Ret (f, t') \<and> fate_fine l0 pid f t' \<and> (ch_complete ch \<longrightarrow> (\<exists>run. f = Chain_releases run))"
proof (cases "ch_complete ch")
  case True
  then show ?thesis using assms by (auto simp: chain_drop_def chain_fine_def fate_fine_def)
next
  case False
  then obtain l where l: "ch_run ch = Some (l, pid)" "fixed l = fixed l0" "ch_key ch = ln_key l" "waiting_lane (ch_recorded ch) l t"
    "ch_stream ch" using chain_fineE [OF assms] by metis
  define first where "first = (if ch_recorded ch then synchronize_downstream pv (l, t) else Ret (Inl No_downstream_event, l, t))"
  obtain r t1 where first: "first = Ret (r, l, t1)"
    "watching (ch_key ch) t1 = (if is_ok r then caught_up (watching (ch_key ch) t) else watching (ch_key ch) t)"
    using synchronize_downstream_eq [of l t pv] l(3, 4) unfolding first_def
    by (cases "ch_recorded ch") (auto simp: is_ok_def)
  have drop: "chain_drop pv (ch, t) = bind_run first (\<lambda>(r, _, t).
      let (synchronized, t) = (if is_ok r then (True, t)
        else if ch_stream ch then case stream_synchronize pv (ch_key ch) t of (x, t) \<Rightarrow> (\<not> isl x, t) else (False, t)) in
      if \<not> synchronized then Ret (Chain_leaks (l, pid), t)
      else bind_run (chain_mark_complete (ch, t)) (\<lambda>(_, ch, t).
        Ret (case ch_run ch of None \<Rightarrow> Chain_empty | Some run \<Rightarrow> Chain_releases run, t)))"
    using False l by (simp add: chain_drop_def first_def)
  have marks: "\<exists>f t'. bind_run (chain_mark_complete (ch, t2)) (\<lambda>(_, ch, t). Ret (case ch_run ch of None \<Rightarrow> Chain_empty
      | Some run \<Rightarrow> Chain_releases run, t)) = Ret (f, t') \<and> fate_fine l0 pid f t'"
    if "chain_fine l0 pid ch t3" "watching (ch_key ch) t2 = caught_up (watching (ch_key ch) t3)" for t2 t3
    using chain_mark_complete_fine [OF that(1) False that(2)] by (auto simp: fate_fine_def)
  show ?thesis
  proof (cases "is_ok r")
    case True
    then show ?thesis using False first marks [OF assms] by (simp add: drop)
  next
    case failed: False
    obtain x t2 where stream: "stream_synchronize pv (ch_key ch) t1 = (x, t2)"
      "watching (ch_key ch) t2 = (if isl x then watching (ch_key ch) t1 else caught_up (watching (ch_key ch) t1))"
      using stream_synchronize_eq by blast
    have "chain_fine l0 pid ch t1" using failed first(2) chain_fine_log [OF assms] by simp
    then show ?thesis
      using False failed l(2, 5) first(1) stream marks [of t1 t2] by (cases "isl x") (simp_all add: drop fate_fine_def)
  qed
qed

text \<open>The result of a wait: the settled run and an empty token, or an error and what \<open>Drop\<close> leaves.\<close>

definition outcome_fine :: "('i, 'o) lane \<Rightarrow> prepared_id \<Rightarrow> chain_error + ('i, 'o) owned_run \<Rightarrow> ('i, 'o) chain_fate \<Rightarrow> log \<Rightarrow> bool" where
  "outcome_fine l0 pid r f t \<longleftrightarrow> (case r of Inl _ \<Rightarrow> fate_fine l0 pid f t
     | Inr run \<Rightarrow> f = Chain_empty \<and> snd run = pid \<and> fixed (fst run) = fixed l0 \<and> settled_lane (fst run) t)"

lemma chain_fine_fields [simp]:
  "chain_fine l0 pid (ch\<lparr>ch_failure := e\<rparr>) t = chain_fine l0 pid ch t"
  "ch_complete ch \<Longrightarrow> chain_fine l0 pid (ch\<lparr>ch_stream := b\<rparr>) t = chain_fine l0 pid ch t"
  by (simp_all add: chain_fine_def)

text \<open>Waiting on a token whose event was never recorded: the stream is drained and the error returned.\<close>

lemma chain_synchronize_unrecorded:
  assumes "chain_fine l0 pid ch t" "\<not> ch_complete ch" "\<not> ch_recorded ch"
  shows "\<exists>e ch' t'. chain_synchronize_body pv (ch, t) = Ret (Inl e, ch', t') \<and> chain_fine l0 pid ch' t'"
proof -
  obtain r t1 where stream: "stream_synchronize pv (ch_key ch) t = (r, t1)"
    "watching (ch_key ch) t1 = (if isl r then watching (ch_key ch) t else caught_up (watching (ch_key ch) t))"
    using stream_synchronize_eq by blast
  let ?ch = "ch\<lparr>ch_failure := None\<rparr>"
  have fine: "chain_fine l0 pid ?ch t" "ch_stream ch" using assms by (auto simp: chain_fine_def)
  show ?thesis
  proof (cases r)
    case (Inl e)
    then show ?thesis using assms stream fine chain_fine_log [OF fine(1), of t1] by (auto simp: chain_synchronize_body_def Let_def)
  next
    case (Inr u)
    then have "watching (ch_key ?ch) t1 = caught_up (watching (ch_key ?ch) t)" using stream(2) by simp
    from chain_mark_complete_fine [OF fine(1) _ this] assms(2) obtain l t2 where
      "chain_mark_complete (?ch, t1) = Ret (Inr (), ?ch\<lparr>ch_run := Some (l, pid), ch_complete := True\<rparr>, t2)" "settled_lane l t2" "fixed l = fixed l0"
      by auto
    then show ?thesis using assms(3) stream(1) Inr fine(2) chain_fine_completed [OF fine(1)]
      by (auto simp: chain_synchronize_body_def Let_def)
  qed
qed

lemma chain_synchronize_body_fine:
  assumes "chain_fine l0 pid ch t" "ch_complete ch \<longrightarrow> ch_recorded ch"
  shows "\<exists>r ch' t'. chain_synchronize_body pv (ch, t) = Ret (r, ch', t') \<and> (case r of Inl _ \<Rightarrow> chain_fine l0 pid ch' t'
    | Inr run \<Rightarrow> ch_run ch' = None \<and> snd run = pid \<and> fixed (fst run) = fixed l0 \<and> settled_lane (fst run) t')"
proof (cases "ch_recorded ch")
  case False
  then show ?thesis using chain_synchronize_unrecorded [OF assms(1)] assms(2) by fastforce
next
  case True
  define first where "first = (if ch_complete ch then Ret (Inr (), ch, t) else case ch_run ch of None \<Rightarrow> Panic
         | Some run \<Rightarrow> bind_run (synchronize_downstream pv (fst run, t)) (\<lambda>(r, l, t). case r of
             Inl e \<Rightarrow> Ret (Inl (Chain_lane_error e), ch, t) | Inr _ \<Rightarrow> chain_mark_complete (ch, t)))"
  have "\<exists>r ch1 t1. first = Ret (r, ch1, t1) \<and> chain_fine l0 pid ch1 t1 \<and> (\<not> isl r \<longrightarrow> ch_complete ch1)"
  proof (cases "ch_complete ch")
    case True
    then show ?thesis using assms(1) by (auto simp: first_def)
  next
    case False
    then obtain l where l: "ch_run ch = Some (l, pid)" "ch_key ch = ln_key l" "waiting_lane True l t"
      using chain_fineE [OF assms(1)] True by metis
    obtain r t1 where sync: "synchronize_downstream pv (l, t) = Ret (r, l, t1)"
      "watching (ch_key ch) t1 = (if is_ok r then caught_up (watching (ch_key ch) t) else watching (ch_key ch) t)"
      using synchronize_downstream_eq [OF l(3)] l(2) by metis
    show ?thesis
    proof (cases r)
      case (Inl e)
      then show ?thesis using sync l(1) False chain_fine_log [OF assms(1), of t1] by (auto simp: first_def is_ok_def)
    next
      case (Inr u)
      then have "watching (ch_key ch) t1 = caught_up (watching (ch_key ch) t)" using sync(2) by (simp add: is_ok_def)
      from chain_mark_complete_fine [OF assms(1) False this]
      show ?thesis using sync(1) l(1) False Inr chain_fine_completed [OF assms(1)] by (auto simp: first_def)
    qed
  qed
  then obtain r ch1 t1 where first: "first = Ret (r, ch1, t1)" "chain_fine l0 pid ch1 t1" "\<not> isl r \<longrightarrow> ch_complete ch1" by blast
  have body: "chain_synchronize_body pv (ch, t) = (case r of Inl e \<Rightarrow> Ret (Inl e, ch1, t1)
       | Inr _ \<Rightarrow> (let ch = ch1\<lparr>ch_stream := False\<rparr> in case ch_failure ch of
             Some e \<Rightarrow> Ret (Inl e, ch\<lparr>ch_failure := None\<rparr>, t1)
           | None \<Rightarrow> (case ch_run ch of None \<Rightarrow> Ret (Inl Chain_missing_run, ch, t1)
               | Some run \<Rightarrow> Ret (Inr run, ch\<lparr>ch_run := None\<rparr>, t1))))"
    using True first(1) by (simp add: chain_synchronize_body_def first_def [symmetric])
  show ?thesis
    using first(2, 3) by (cases r; cases "ch_failure ch1") (auto simp: body Let_def chain_fine_def split: if_splits)
qed

lemma chain_synchronize_fine:
  assumes "chain_fine l0 pid ch t" "ch_complete ch \<longrightarrow> ch_recorded ch"
  shows "\<exists>r f t'. chain_synchronize pv (ch, t) = Ret (r, f, t') \<and> outcome_fine l0 pid r f t'"
proof -
  obtain r ch' t' where body: "chain_synchronize_body pv (ch, t) = Ret (r, ch', t')" and r: "case r of Inl _ \<Rightarrow> chain_fine l0 pid ch' t'
    | Inr run \<Rightarrow> ch_run ch' = None \<and> snd run = pid \<and> fixed (fst run) = fixed l0 \<and> settled_lane (fst run) t'"
    using chain_synchronize_body_fine [OF assms] by blast
  show ?thesis
  proof (cases r)
    case (Inl e)
    then show ?thesis using body r chain_drop_fine [of l0 pid ch' t' pv] by (auto simp: chain_synchronize_def outcome_fine_def)
  next
    case (Inr run)
    then show ?thesis using body r by (auto simp: chain_synchronize_def outcome_fine_def chain_drop_def)
  qed
qed

subsection \<open>Establishing a chain\<close>

definition result_fine :: "('i, 'o) lane \<Rightarrow> prepared_id \<Rightarrow> ('i, 'o) chain_result \<Rightarrow> log \<Rightarrow> bool" where
  "result_fine l pid res t \<longleftrightarrow> (case res of
     Chain_refused e run \<Rightarrow> run = (l, pid) \<and> lane_safe l t \<and> \<not> w_consumers (watching (ln_key l) t)
   | Chained ch \<Rightarrow> chain_fine l pid ch t \<and> \<not> ch_complete ch
   | Chain_unwound run \<Rightarrow> snd run = pid \<and> fixed (fst run) = fixed l \<and> settled_lane (fst run) t
   | Chain_unwound_leaked run \<Rightarrow> run = (l, pid))"

lemma queue_completion_wait_eq:
  assumes "lane_safe l t"
  shows "\<exists>r t'. queue_completion_wait pv source downstream (l, t) = Ret (r, l, t') \<and>
    (is_ok r \<longrightarrow> ln_in_flight l \<and> ln_event_recorded l \<and> w_ordered (watching (ln_key l) t') \<and> lane_safe l t') \<and>
    (\<not> is_ok r \<longrightarrow> watching (ln_key l) t' = watching (ln_key l) t)"
  using assms
  by (cases "pv t (ln_key l) Stream_wait_event")
    (auto simp: queue_completion_wait_def op_get_def op_fail_def op_panic_def call_def op_bind_def provide_def Let_def answer_def
      op_return_def is_ok_def lane_safe_def carries_def)

lemma record_downstream_eq:
  assumes "waiting_lane False l t"
  shows "\<exists>r t'. record_downstream_completion pv (l, t) = Ret (r, l, t') \<and> waiting_lane (is_ok r) l t'"
  using assms
  by (cases "pv t (ln_key l) Downstream_record"; cases "ln_downstream_event l")
    (auto simp: record_downstream_completion_def on_downstream_event_def op_get_def op_fail_def call_def op_bind_def provide_def
      Let_def answer_def op_return_def is_ok_def waiting_lane_def lane_safe_def carries_def)

lemma chain_on_stream_fine:
  assumes "lane_safe l t" "\<not> w_consumers (watching (ln_key l) t)"
  shows "\<exists>res t'. chain_on_stream pv source downstream queue_work ((l, pid), t) = Ret (res, t') \<and> result_fine l pid res t'"
proof (cases "device_outputs_for_chain l")
  case (Inl e)
  then show ?thesis using assms by (auto simp: chain_on_stream_def result_fine_def)
next
  case (Inr outs)
  obtain r t1 where wait: "queue_completion_wait pv source downstream (l, t) = Ret (r, l, t1)"
    "is_ok r \<Longrightarrow> ln_in_flight l \<and> ln_event_recorded l \<and> w_ordered (watching (ln_key l) t1) \<and> lane_safe l t1"
    "\<not> is_ok r \<Longrightarrow> watching (ln_key l) t1 = watching (ln_key l) t"
    using queue_completion_wait_eq [OF assms(1)] by metis
  show ?thesis
  proof (cases r)
    case (Inl e)
    then have log: "watching (ln_key l) t1 = watching (ln_key l) t" using wait(3) by (simp add: is_ok_def)
    have "result_fine l pid (Chain_refused e (l, pid)) t1"
      using assms carries_log(2) [OF log] by (simp add: result_fine_def log)
    then show ?thesis using Inl \<open>device_outputs_for_chain l = Inr outs\<close> wait(1) by (simp add: chain_on_stream_def)
  next
    case (Inr u)
    then have "waiting_lane False l t1" using wait(2) by (simp add: is_ok_def waiting_lane_def)
    from record_downstream_eq [OF this] obtain rec t2 where
      rec: "record_downstream_completion pv (l, t1) = Ret (rec, l, t2)" "waiting_lane (is_ok rec) l t2" by blast
    note defs = chain_on_stream_def \<open>device_outputs_for_chain l = Inr outs\<close> wait(1) Inr rec(1)
    show ?thesis
    proof (cases "queue_work outs = Enqueue_panicked")
      case False
      then show ?thesis using rec(2) by (simp add: defs result_fine_def chain_fine_def)
    next
      case panicked: True
      show ?thesis
      proof (cases "is_ok rec")
        case False
        then show ?thesis using panicked by (simp add: defs result_fine_def)
      next
        case True
        obtain x t3 where sync: "synchronize_downstream pv (l, t2) = Ret (x, l, t3)"
          "is_ok x \<Longrightarrow> watching (ln_key l) t3 = caught_up (watching (ln_key l) t2)"
          using synchronize_downstream_eq [of l t2 pv] rec(2) True by auto
        show ?thesis
        proof (cases "is_ok x")
          case True
          from mark_complete_settles [OF caught_up_waiting [OF rec(2) sync(2) [OF True]]] show ?thesis
            using panicked \<open>is_ok rec\<close> True sync(1) by (auto simp: defs result_fine_def)
        qed (use panicked True sync(1) in \<open>simp add: defs result_fine_def\<close>)
      qed
    qed
  qed
qed

text \<open>A chained token is polled any number of times while other lanes go on.\<close>

inductive chain_step :: "provider \<Rightarrow> ('i, 'o) chained_run \<times> log \<Rightarrow> ('i, 'o) chained_run \<times> log \<Rightarrow> bool" for pv where
  poll: "chain_try_complete pv s = Ret (r, s') \<Longrightarrow> chain_step pv s s'"
| others: "watching (ch_key ch) t' = watching (ch_key ch) t \<Longrightarrow> chain_step pv (ch, t) (ch, t')"

lemma chain_steps_fine:
  assumes "(chain_step pv)\<^sup>*\<^sup>* s s'" "chain_fine l0 pid (fst s) (snd s)" "ch_complete (fst s) \<longrightarrow> ch_recorded (fst s)"
  shows "chain_fine l0 pid (fst s') (snd s') \<and> (ch_complete (fst s') \<longrightarrow> ch_recorded (fst s'))"
  using assms
proof (induction rule: rtranclp_induct)
  case (step s1 s2)
  then have fine: "chain_fine l0 pid (fst s1) (snd s1)" "ch_complete (fst s1) \<longrightarrow> ch_recorded (fst s1)" by simp_all
  from step(2) show ?case
  proof cases
    case (poll r)
    then show ?thesis
      using fine(2) chain_try_complete_fine [OF fine(1), of pv] by auto
  next
    case (others ch t' t)
    then show ?thesis using fine chain_fine_log [of l0 pid ch t t'] by simp
  qed
qed simp

subsection \<open>Polling\<close>

abbreviation run_keys :: "('i, 'o) owned_run list \<Rightarrow> nat list" where
  "run_keys runs \<equiv> map (ln_key \<circ> fst) runs"

definition pollable :: "int \<Rightarrow> ('i, 'o) lane \<Rightarrow> bool" where
  "pollable device l \<longleftrightarrow> (ln_in_flight l \<longrightarrow> ln_event_recorded l \<and> ln_completion_event l \<and> ln_device_id l = Some device)"

lemma poll_preflight_returns:
  assumes "\<forall>run \<in> set runs. lane_safe (fst run) t"
  shows "\<exists>r. poll_preflight device has runs = Ret r \<and> (\<not> isl r \<longrightarrow> (\<forall>run \<in> set runs. pollable device (fst run)))"
  using assms
proof (induction runs arbitrary: has)
  case (Cons run runs)
  have "ln_event_recorded (fst run) \<longrightarrow> ln_completion_event (fst run)" using Cons.prems by (simp add: lane_safe_def carries_def)
  then show ?case using Cons by (auto simp: completion_event_def pollable_def)
qed simp

lemma preflight_error: "poll_preflight device has runs = Ret (Inl e) \<Longrightarrow> e = Run_without_event \<or> e = Run_on_other_device"
  by (induction runs arbitrary: has) (auto split: if_splits option.splits simp: bind_run_eq_Ret)

text \<open>One query: the lane stays safe, other lanes' logs are not touched, and \<open>Ready\<close> means idle.\<close>

lemma poll_one:
  assumes "lane_safe l t" "ln_in_flight l" "pollable device l"
  shows "\<exists>q t1 l2 t2. provide pv Event_query (l, t) = Ret (q, l, t1) \<and>
    (if q = Inr True then clear_in_flight (l, t1) else Ret (Inr (), l, t1)) = Ret (Inr (), l2, t2) \<and>
    lane_safe l t1 \<and> lane_safe l2 t2 \<and> ln_key l2 = ln_key l \<and> (q = Inr True \<longleftrightarrow> \<not> ln_in_flight l2) \<and>
    (\<forall>k. k \<noteq> ln_key l \<longrightarrow> watching k t1 = watching k t \<and> watching k t2 = watching k t)"
  using assms
  by (cases "pv t (ln_key l) Event_query"; cases "ln_guard l")
    (auto simp: provide_def Let_def answer_def clear_in_flight_eq lane_safe_def carries_def pollable_def)

definition polled :: "('i, 'o) owned_run list \<Rightarrow> completion_status list \<Rightarrow> log
    \<Rightarrow> (poll_error + unit) \<times> ('i, 'o) owned_run list \<times> completion_status list \<times> log \<Rightarrow> bool" where
  "polled runs statuses t = (\<lambda>(r, runs', statuses', t').
     map snd runs' = map snd runs \<and> run_keys runs' = run_keys runs \<and> length statuses' = length statuses \<and>
     (\<forall>run \<in> set runs'. lane_safe (fst run) t') \<and> (\<forall>k. k \<notin> set (run_keys runs) \<longrightarrow> watching k t' = watching k t) \<and>
     (isl r \<longrightarrow> (\<exists>n. r = Inl (Query_failed n))) \<and> (\<not> isl r \<longrightarrow> statuses' = map (\<lambda>run. if ln_in_flight (fst run) then Pending else Ready) runs' @ drop (length runs) statuses))"

lemma polled_Cons:
  assumes "polled runs statuses t2 (r, runs', statuses', t')" "lane_safe l2 t2" "ln_key l2 = ln_key l"
    "\<forall>k. k \<noteq> ln_key l \<longrightarrow> watching k t2 = watching k t" "ln_key l \<notin> set (run_keys runs)"
  shows "polled ((l, pid) # runs) (status # statuses) t
    (r, (l2, pid) # runs', (if ln_in_flight l2 then Pending else Ready) # statuses', t')"
proof -
  have "watching (ln_key l2) t' = watching (ln_key l2) t2" using assms by (simp add: polled_def)
  then have "lane_safe l2 t'" using assms(2) carries_log(2) by blast
  then show ?thesis using assms by (auto simp: polled_def)
qed

lemma poll_loop_polled:
  assumes "\<forall>run \<in> set runs. lane_safe (fst run) t \<and> pollable device (fst run)" "distinct (run_keys runs)" "length runs \<le> length statuses"
  shows "\<exists>x. poll_loop pv device runs statuses t = Ret x \<and> polled runs statuses t x"
  using assms
proof (induction runs arbitrary: statuses t)
  case Nil
  then show ?case by (cases statuses) (auto simp: polled_def)
next
  case (Cons run runs)
  obtain l pid where run: "run = (l, pid)" by (cases run)
  obtain status rest where statuses: "statuses = status # rest" using Cons.prems(3) by (cases statuses) auto
  have safe: "lane_safe l t" "pollable device l" and fresh: "ln_key l \<notin> set (run_keys runs)" using Cons.prems run by auto
  have later: "\<forall>run \<in> set runs. lane_safe (fst run) t2 \<and> pollable device (fst run)" if "\<forall>k. k \<noteq> ln_key l \<longrightarrow> watching k t2 = watching k t" for t2
  proof
    fix x assume x: "x \<in> set runs"
    then have "ln_key (fst x) \<noteq> ln_key l" using fresh by force
    then have "watching (ln_key (fst x)) t2 = watching (ln_key (fst x)) t" using that by simp
    from carries_log(2) [OF this] show "lane_safe (fst x) t2 \<and> pollable device (fst x)" using Cons.prems(1) x by simp
  qed
  have IH: "\<exists>x. poll_loop pv device runs rest t2 = Ret x \<and> polled runs rest t2 x" if "\<forall>k. k \<noteq> ln_key l \<longrightarrow> watching k t2 = watching k t" for t2
    using Cons.IH [OF later [OF that]] Cons.prems(2, 3) statuses by simp
  show ?case
  proof (cases "ln_in_flight l")
    case False
    obtain r runs' statuses' t' where "poll_loop pv device runs rest t = Ret (r, runs', statuses', t')" "polled runs rest t (r, runs', statuses', t')"
      using IH [of t] by auto
    then show ?thesis using False run statuses polled_Cons [of runs rest t r runs' statuses' t' l l t pid status] safe fresh by simp
  next
    case True
    obtain q t1 l2 t2 where q: "provide pv Event_query (l, t) = Ret (q, l, t1)"
      "(if q = Inr True then clear_in_flight (l, t1) else Ret (Inr (), l, t1)) = Ret (Inr (), l2, t2)"
      "lane_safe l t1" "lane_safe l2 t2" "ln_key l2 = ln_key l" "q = Inr True \<longleftrightarrow> \<not> ln_in_flight l2"
      "\<forall>k. k \<noteq> ln_key l \<longrightarrow> watching k t1 = watching k t" "\<forall>k. k \<noteq> ln_key l \<longrightarrow> watching k t2 = watching k t"
      using poll_one [OF safe(1) True safe(2), of pv] by blast
    have event: "completion_event l = Ret (Some ())" "ln_device_id l = Some device" using True safe(2) by (simp_all add: completion_event_def pollable_def)
    show ?thesis
    proof (cases q)
      case (Inl e)
      have "\<forall>run \<in> set runs. lane_safe (fst run) t1" using later [OF q(7)] by simp
      then show ?thesis
        using Inl run statuses True event q(1, 3, 7) by (auto simp: polled_def)
    next
      case (Inr b)
      obtain r runs' statuses' t' where rest: "poll_loop pv device runs rest t2 = Ret (r, runs', statuses', t')"
        "polled runs rest t2 (r, runs', statuses', t')" using IH [OF q(8)] by auto
      show ?thesis
        using Inr run statuses True event q(1, 2) q(6) rest polled_Cons [OF rest(2) q(4, 5, 8) fresh, of pid status]
        by (cases b) auto
    qed
  qed
qed

subsection \<open>Examples\<close>

definition example_run :: "(int, int) owned_run" where
  "example_run = ((example_lane None)\<lparr>ln_device_outputs := Some [[0]], ln_downstream_event := True, ln_graph_id := Some 3,
     ln_event_recorded := True, ln_in_flight := True\<rparr>, \<lparr>pi_slot = 0, pi_generation = 1\<rparr>)"

definition example_run_log :: log where
  "example_run_log = [(0, Run_unsynchronized, Succeeded), (0, Event_record, Succeeded)]"

lemma example_run_safe: "lane_safe (fst example_run) example_run_log" "ln_key (fst example_run) = 0"
  "\<not> w_consumers (watching 0 example_run_log)"
  by (simp_all add: example_run_def example_run_log_def example_lane_def lane_safe_def carries_def lane_wf_def watching_def watch_init_def)

subsection \<open>Properties\<close>



text \<open>
  Polling a batch of owned runs never panics and never gives one back early: every lane stays
  safe; on success the status of each run is \<open>Ready\<close> exactly when its lane is idle, and idle lanes
  have nothing outstanding; an error of the validation (too few statuses, a run without an event,
  another device, an inactive device) changes no run, no status and asks the provider nothing.
\<close>

theorem poll_owned_runs_sound:
  assumes "list_all (\<lambda>run. lane_safe (fst run) t) runs" "distinct (run_keys runs)"
  shows "\<exists>r runs' statuses' t'. poll_owned_runs pv device active runs statuses t = Ret (r, runs', statuses', t') \<and>
    map snd runs' = map snd runs \<and> run_keys runs' = run_keys runs \<and> list_all (\<lambda>run. lane_safe (fst run) t') runs' \<and>
    (case r of Inr _ \<Rightarrow> length runs \<le> length statuses \<and>
        statuses' = map (\<lambda>run. if ln_in_flight (fst run) then Pending else Ready) runs' @ drop (length runs) statuses
     | Inl (Query_failed _) \<Rightarrow> length statuses' = length statuses
     | Inl _ \<Rightarrow> runs' = runs \<and> statuses' = statuses \<and> t' = t)"
proof -
  have safe: "\<forall>run \<in> set runs. lane_safe (fst run) t" using assms(1) by (simp add: list_all_iff)
  obtain checked where checked: "poll_preflight device False runs = Ret checked"
    "\<not> isl checked \<longrightarrow> (\<forall>run \<in> set runs. pollable device (fst run))" using poll_preflight_returns [OF safe] by blast
  show ?thesis
  proof (cases "length statuses < length runs \<or> isl checked \<or> (checked = Inr True \<and> isl active)")
    case True
    then show ?thesis using checked(1) safe preflight_error [of device False runs]
      by (auto simp: poll_owned_runs_def list_all_iff split: sum.split poll_error.split)
  next
    case False
    then have "\<forall>run \<in> set runs. lane_safe (fst run) t \<and> pollable device (fst run)" using safe checked(2) by simp
    from poll_loop_polled [OF this assms(2), of statuses pv] False obtain r runs' statuses' t' where
      loop: "poll_loop pv device runs statuses t = Ret (r, runs', statuses', t')" "polled runs statuses t (r, runs', statuses', t')" by auto
    have "poll_owned_runs pv device active runs statuses t = Ret (r, runs', statuses', t')"
      using False checked(1) loop(1) by (cases checked; cases active) (auto simp: poll_owned_runs_def)
    then show ?thesis using loop(2) False by (cases r) (auto simp: polled_def list_all_iff)
  qed
qed

theorem poll_owned_runs_sound_witness:
  "\<exists>runs' t'. poll_owned_runs reliable 0 (Inr ()) [example_run] [Pending, Pending] example_run_log =
     Ret (Inr (), runs', [Ready, Pending], t') \<and> list_all (\<lambda>run. lane_safe (fst run) t') runs'"
  using poll_owned_runs_sound [of example_run_log "[example_run]" reliable 0 "Inr ()" "[Pending, Pending]"] example_run_safe
  by (auto simp: poll_owned_runs_def example_run_def example_lane_def completion_event_def provide_def Let_def answer_def reliable_def
      clear_in_flight_eq)

end
