(* ===== verification/Native_Handles.thy ===== *)
theory Native_Handles
  imports Prelude
begin

text \<open>
  The boundary to ONNX Runtime: calls through the C function table, statuses, and native handles
  with their owners (st-zrt/src/lib.rs, st-zrt/src/error.rs, st-zrt-sys/src/lib.rs).

  The engine is an argument: a record of functions over its own state. Every object that it
  creates is named by a serial number which is never used again, so that a handle stands for one
  allocation even if the engine reuses addresses. The world keeps which handles are live, notes
  every handle that is used or released while it is not live, and lists what the program has given up
  for good on purpose: references handed over with \<open>Arc::into_raw\<close> and libraries that stay loaded.

  A small logic of ownership speaks about the operations: \<open>accounts B C m G\<close> says that \<open>m\<close> borrows the
  handles \<open>B\<close>, consumes \<open>C\<close>, and leaves behind exactly \<open>G a\<close> when it returns \<open>Ok a\<close> and nothing
  when it returns an error. Its rules carry the proofs of all native components.
\<close>

named_theorems owns_intros \<open>ownership of native operations\<close>

subsection \<open>Errors, handles and calls\<close>

datatype zerror = Zerror int string

definition local_error :: "string \<Rightarrow> zerror" where
  "local_error m = Zerror (- 1) m"

datatype handle_kind = Session_options_handle | Run_options_handle | Session_handle | Kv_pairs_handle
  | Cuda_options_handle | TensorRt_options_handle | Rocm_options_handle | Cann_options_handle
  | Dnnl_options_handle | Type_info_handle | Spool_file | Engine_text | Metadata_handle
  | Value_handle | Tensor_info_handle | Engine_array | Allocator_handle | Engine_block | Arena_cfg_handle
  | Memory_info_handle | Io_binding_handle | Prepacked_handle | Lora_handle | External_initializer_handle
  | Env_handle | Threading_handle | Incompatibility_handle | Sync_stream_handle | Logger_slot | Library_handle | Manager_box | Thread_box | Sparse_handle

type_synonym handle = "handle_kind \<times> nat"

datatype c_arg = A_handle handle | A_int int | A_text string | A_pairs "(string \<times> string) list"
  | A_null | A_bool bool | A_ptr nat | A_ptrs "nat list" | A_texts "string list" | A_opt_text "string option"

text \<open>A call names the entry of the function table and its arguments, out parameters left out.\<close>

type_synonym c_call = "string \<times> c_arg list"

record 'n c_api =
  c_status :: "c_call \<Rightarrow> 'n \<Rightarrow> zerror option \<times> 'n"
  c_create :: "c_call \<Rightarrow> nat \<Rightarrow> 'n \<Rightarrow> (zerror option \<times> bool) \<times> 'n"
  c_many :: "c_call \<Rightarrow> nat \<Rightarrow> 'n \<Rightarrow> (zerror option \<times> bool \<times> bool list) \<times> 'n"
  c_int :: "c_call \<Rightarrow> 'n \<Rightarrow> (zerror option \<times> int) \<times> 'n"
  c_text :: "c_call \<Rightarrow> 'n \<Rightarrow> (zerror option \<times> string option) \<times> 'n"
  c_buffer :: "c_call \<Rightarrow> nat option \<Rightarrow> 'n \<Rightarrow> (zerror option \<times> nat \<times> string) \<times> 'n"
  c_ints :: "c_call \<Rightarrow> 'n \<Rightarrow> (zerror option \<times> int list) \<times> 'n"
  c_texts :: "c_call \<Rightarrow> 'n \<Rightarrow> (zerror option \<times> string option list) \<times> 'n"
  c_chars :: "handle \<Rightarrow> 'n \<Rightarrow> string"
  c_release :: "handle \<Rightarrow> 'n \<Rightarrow> 'n"

record 'n native_world =
  engine :: 'n
  next_serial :: nat
  live :: "handle set"
  misuse :: "handle list"
  given_up :: "handle list"
  made :: "c_call list"

fun handles_of :: "c_arg list \<Rightarrow> handle list" where
  "handles_of [] = []"
| "handles_of (A_handle h # as) = h # handles_of as"
| "handles_of (_ # as) = handles_of as"

definition note_call :: "c_call \<Rightarrow> 'n native_world \<Rightarrow> 'n native_world" where
  "note_call c w = w\<lparr>misuse := misuse w @ filter (\<lambda>h. h \<notin> live w) (handles_of (snd c)), made := made w @ [c]\<rparr>"

type_synonym ('n, 'a) native_op = "'n native_world \<Rightarrow> (zerror + 'a) \<times> 'n native_world"

subsection \<open>The question mark, loops and scopes\<close>

definition give :: "'a \<Rightarrow> ('n, 'a) native_op" where
  "give a w = (Inr a, w)"

definition raise :: "zerror \<Rightarrow> ('n, 'a) native_op" where
  "raise e w = (Inl e, w)"

definition lift_result :: "zerror + 'a \<Rightarrow> ('n, 'a) native_op" where
  "lift_result r w = (r, w)"

definition and_then :: "('n, 'a) native_op \<Rightarrow> ('a \<Rightarrow> ('n, 'b) native_op) \<Rightarrow> ('n, 'b) native_op" where
  "and_then m f w = (case m w of (Inl e, v) \<Rightarrow> (Inl e, v) | (Inr a, v) \<Rightarrow> f a v)"

lemma and_then_assoc: "and_then (and_then m f) g = and_then m (\<lambda>a. and_then (f a) g)"
  by (auto simp: and_then_def fun_eq_iff split: prod.splits sum.splits)

primrec in_order :: "('n, unit) native_op list \<Rightarrow> ('n, unit) native_op" where
  "in_order [] = give ()"
| "in_order (m # ms) = and_then m (\<lambda>_. in_order ms)"

lemma in_order_append: "in_order (xs @ ys) = and_then (in_order xs) (\<lambda>_. in_order ys)"
proof (induction xs)
  case Nil
  then show ?case by (simp add: and_then_def give_def)
next
  case (Cons m ms)
  then show ?case by (simp add: and_then_assoc)
qed

definition each :: "('x \<Rightarrow> ('n, unit) native_op) \<Rightarrow> 'x list \<Rightarrow> ('n, unit) native_op" where
  "each f xs = in_order (map f xs)"

definition if_some :: "'x option \<Rightarrow> ('x \<Rightarrow> ('n, unit) native_op) \<Rightarrow> ('n, unit) native_op" where
  "if_some x f = (case x of None \<Rightarrow> give () | Some a \<Rightarrow> f a)"

text \<open>\<open>Iterator::map\<close> and \<open>collect\<close> into a \<open>Result\<close>: the first error ends the iteration.\<close>

fun collect_results :: "('x \<Rightarrow> ('n, 'y) native_op) \<Rightarrow> 'x list \<Rightarrow> ('n, 'y list) native_op" where
  "collect_results f [] = give []"
| "collect_results f (x # xs) = and_then (f x) (\<lambda>y. and_then (collect_results f xs) (\<lambda>ys. give (y # ys)))"

text \<open>\<open>api().release_...()\<close>\<close>

definition release_handle :: "'n c_api \<Rightarrow> handle \<Rightarrow> 'n native_world \<Rightarrow> 'n native_world" where
  "release_handle api h w =
     (if h \<in> live w then w\<lparr>live := live w - {h}, engine := c_release api h (engine w)\<rparr>
      else w\<lparr>misuse := misuse w @ [h], engine := c_release api h (engine w)\<rparr>)"

text \<open>The body runs, the handle is released whatever the body returned, then its result counts.\<close>

definition then_release :: "'n c_api \<Rightarrow> handle \<Rightarrow> ('n, 'a) native_op \<Rightarrow> ('n, 'a) native_op" where
  "then_release api h m w = (case m w of (r, v) \<Rightarrow> (r, release_handle api h v))"

text \<open>The handle is released only if the body failed.\<close>

definition or_release :: "'n c_api \<Rightarrow> handle \<Rightarrow> ('n, 'a) native_op \<Rightarrow> ('n, 'a) native_op" where
  "or_release api h m w = (case m w of (Inl e, v) \<Rightarrow> (Inl e, release_handle api h v) | (Inr a, v) \<Rightarrow> (Inr a, v))"

text \<open>
  What is never released again, on purpose: a native object whose handle is dropped on the floor, and
  one more reference to a value of the program that the engine keeps (\<open>Arc::into_raw\<close> of a clone).
\<close>

definition give_up :: "handle \<Rightarrow> ('n, unit) native_op" where
  "give_up h w = (Inr (), w\<lparr>live := live w - {h}, given_up := given_up w @ [h]\<rparr>)"

definition leak_reference :: "handle \<Rightarrow> ('n, unit) native_op" where
  "leak_reference h w = (Inr (), w\<lparr>given_up := given_up w @ [h]\<rparr>)"

subsection \<open>Calls\<close>

text \<open>\<open>check\<close>: a null status is \<open>Ok\<close>.\<close>

definition check :: "zerror option \<Rightarrow> zerror + unit" where
  "check st = (case st of None \<Rightarrow> Inr () | Some e \<Rightarrow> Inl e)"

definition status :: "'n c_api \<Rightarrow> string \<Rightarrow> c_arg list \<Rightarrow> ('n, unit) native_op" where
  "status api f as w = (case c_status api (f, as) (engine w) of (st, n) \<Rightarrow>
     (check st, (note_call (f, as) w)\<lparr>engine := n\<rparr>))"

text \<open>An entry that returns nothing.\<close>

definition void_call :: "'n c_api \<Rightarrow> string \<Rightarrow> c_arg list \<Rightarrow> ('n, unit) native_op" where
  "void_call api f as w = (case c_status api (f, as) (engine w) of (_, n) \<Rightarrow> (Inr (), (note_call (f, as) w)\<lparr>engine := n\<rparr>))"

text \<open>A call with a scalar out parameter, and one whose out parameter is a borrowed C string.\<close>

definition query_int :: "'n c_api \<Rightarrow> string \<Rightarrow> c_arg list \<Rightarrow> ('n, int) native_op" where
  "query_int api f as w = (case c_int api (f, as) (engine w) of ((st, v), n) \<Rightarrow>
     (case check st of Inl e \<Rightarrow> Inl e | Inr _ \<Rightarrow> Inr v, (note_call (f, as) w)\<lparr>engine := n\<rparr>))"

definition query_text :: "'n c_api \<Rightarrow> string \<Rightarrow> c_arg list \<Rightarrow> ('n, string option) native_op" where
  "query_text api f as w = (case c_text api (f, as) (engine w) of ((st, v), n) \<Rightarrow>
     (case check st of Inl e \<Rightarrow> Inl e | Inr _ \<Rightarrow> Inr v, (note_call (f, as) w)\<lparr>engine := n\<rparr>))"

text \<open>Calls that overwrite a vector of the given length, preset with zeros or null pointers.\<close>

definition overwrite :: "nat \<Rightarrow> 'b \<Rightarrow> 'b list \<Rightarrow> 'b list" where
  "overwrite len x ys = take len ys @ replicate (len - length ys) x"

lemma length_overwrite [simp]: "length (overwrite len x ys) = len"
  by (simp add: overwrite_def)

definition query_ints :: "'n c_api \<Rightarrow> string \<Rightarrow> c_arg list \<Rightarrow> nat \<Rightarrow> ('n, int list) native_op" where
  "query_ints api f as len w = (case c_ints api (f, as) (engine w) of ((st, vs), n) \<Rightarrow>
     (case check st of Inl e \<Rightarrow> Inl e | Inr _ \<Rightarrow> Inr (overwrite len 0 vs), (note_call (f, as) w)\<lparr>engine := n\<rparr>))"

definition query_texts :: "'n c_api \<Rightarrow> string \<Rightarrow> c_arg list \<Rightarrow> nat \<Rightarrow> ('n, string option list) native_op" where
  "query_texts api f as len w = (case c_texts api (f, as) (engine w) of ((st, vs), n) \<Rightarrow>
     (case check st of Inl e \<Rightarrow> Inl e | Inr _ \<Rightarrow> Inr (overwrite len None vs), (note_call (f, as) w)\<lparr>engine := n\<rparr>))"

text \<open>
  A call that fills a buffer: no buffer or one of the given size. The status is handed back
  unchecked together with the size that the engine reported and the bytes it wrote.
\<close>

definition fill_buffer :: "'n c_api \<Rightarrow> string \<Rightarrow> c_arg list \<Rightarrow> nat option \<Rightarrow> ('n, zerror option \<times> nat \<times> string) native_op" where
  "fill_buffer api f as cap w = (case c_buffer api (f, as) cap (engine w) of (r, n) \<Rightarrow>
     (Inr r, (note_call (f, as) w)\<lparr>engine := n\<rparr>))"

text \<open>
  A call with an out pointer: the status is checked, and the object, if the pointer is not null,
  is live from here on. Its result is the pointer.
\<close>

definition create_ptr :: "'n c_api \<Rightarrow> handle_kind \<Rightarrow> string \<Rightarrow> c_arg list \<Rightarrow> ('n, handle option) native_op" where
  "create_ptr api k f as w = (case c_create api (f, as) (next_serial w) (engine w) of ((st, some), n) \<Rightarrow>
     let v = (note_call (f, as) w)\<lparr>engine := n\<rparr>;
         v' = (if some then v\<lparr>live := insert (k, next_serial w) (live w), next_serial := Suc (next_serial w)\<rparr> else v)
     in (case check st of Inl e \<Rightarrow> Inl e | Inr _ \<Rightarrow> Inr (if some then Some (k, next_serial w) else None), v'))"

text \<open>The same with the status handed on unchecked, beside whatever the pointer holds.\<close>

definition create_raw :: "'n c_api \<Rightarrow> handle_kind \<Rightarrow> string \<Rightarrow> c_arg list \<Rightarrow> ('n, zerror option \<times> handle option) native_op" where
  "create_raw api k f as w = (case c_create api (f, as) (next_serial w) (engine w) of ((st, some), n) \<Rightarrow>
     let v = (note_call (f, as) w)\<lparr>engine := n\<rparr>
     in if some then (Inr (st, Some (k, next_serial w)),
                      v\<lparr>live := insert (k, next_serial w) (live w), next_serial := Suc (next_serial w)\<rparr>)
        else (Inr (st, None), v))"

text \<open>The same for an entry of the table that returns nothing.\<close>

definition create_void :: "'n c_api \<Rightarrow> handle_kind \<Rightarrow> string \<Rightarrow> c_arg list \<Rightarrow> ('n, handle option) native_op" where
  "create_void api k f as w = (case c_create api (f, as) (next_serial w) (engine w) of ((_, some), n) \<Rightarrow>
     let v = (note_call (f, as) w)\<lparr>engine := n\<rparr>
     in if some then (Inr (Some (k, next_serial w)),
                      v\<lparr>live := insert (k, next_serial w) (live w), next_serial := Suc (next_serial w)\<rparr>)
        else (Inr None, v))"

definition non_null :: "'a option \<Rightarrow> string \<Rightarrow> zerror + 'a" where
  "non_null p what = (case p of None \<Rightarrow> Inl (local_error (''zrt: '' @ what @ '' pointer is null'')) | Some a \<Rightarrow> Inr a)"

definition create_handle :: "'n c_api \<Rightarrow> handle_kind \<Rightarrow> string \<Rightarrow> c_arg list \<Rightarrow> string \<Rightarrow> ('n, handle) native_op" where
  "create_handle api k f as what = and_then (create_ptr api k f as) (\<lambda>p. lift_result (non_null p what))"

text \<open>\<open>Allocator::get_default\<close>: the pointer is the engine's and never released.\<close>

definition default_allocator :: "'n c_api \<Rightarrow> ('n, unit) native_op" where
  "default_allocator api = and_then (query_int api ''get_allocator_with_default_options'' []) (\<lambda>p.
     if p = 0 then raise (local_error ''zrt: default allocator pointer is null'') else give ())"

text \<open>
  \<open>Allocator::free\<close> on a string that the engine allocated: the memory is given back, the status is
  the result.
\<close>

definition free_text :: "'n c_api \<Rightarrow> handle \<Rightarrow> ('n, unit) native_op" where
  "free_text api h = then_release api h (status api ''allocator_free'' [A_handle h])"

text \<open>ONNX Runtime leaves an out pointer null when it returns an error status.\<close>

definition null_on_error :: "'n c_api \<Rightarrow> bool" where
  "null_on_error api \<longleftrightarrow> (\<forall>c s n. fst (fst (c_create api c s n)) \<noteq> None \<longrightarrow> \<not> snd (fst (c_create api c s n)))"

subsection \<open>C strings and UTF-8\<close>

text \<open>Rust strings are byte sequences, one character per byte. \<open>CString::new\<close> refuses a NUL byte.\<close>

definition has_nul :: "string \<Rightarrow> bool" where
  "has_nul s \<longleftrightarrow> CHR 0x00 \<in> set s"

definition cstring_new :: "string \<Rightarrow> string option" where
  "cstring_new s = (if has_nul s then None else Some s)"

definition continuation :: "char \<Rightarrow> bool" where
  "continuation c \<longleftrightarrow> 0x80 \<le> (of_char c :: nat) \<and> (of_char c :: nat) \<le> 0xBF"

definition byte_in :: "nat \<Rightarrow> nat \<Rightarrow> char \<Rightarrow> bool" where
  "byte_in lo hi c \<longleftrightarrow> lo \<le> of_char c \<and> of_char c \<le> hi"

text \<open>\<open>str::from_utf8\<close>: no overlong forms, no surrogates, nothing above U+10FFFF.\<close>

fun valid_utf8 :: "string \<Rightarrow> bool" where
  "valid_utf8 [] \<longleftrightarrow> True"
| "valid_utf8 (a # s) \<longleftrightarrow>
     (if byte_in 0 0x7F a then valid_utf8 s
      else case s of [] \<Rightarrow> False | b # t \<Rightarrow>
        if byte_in 0xC2 0xDF a then continuation b \<and> valid_utf8 t
        else case t of [] \<Rightarrow> False | c # u \<Rightarrow>
          if byte_in 0xE0 0xEF a then
            (if byte_in 0xE0 0xE0 a then byte_in 0xA0 0xBF b
             else if byte_in 0xED 0xED a then byte_in 0x80 0x9F b else continuation b) \<and> continuation c \<and> valid_utf8 u
          else case u of [] \<Rightarrow> False | d # v \<Rightarrow>
            byte_in 0xF0 0xF4 a \<and>
            (if byte_in 0xF0 0xF0 a then byte_in 0x90 0xBF b
             else if byte_in 0xF4 0xF4 a then byte_in 0x80 0x8F b else continuation b)
            \<and> continuation c \<and> continuation d \<and> valid_utf8 v)"

text \<open>The bytes before the first NUL.\<close>

definition until_nul :: "string \<Rightarrow> string" where
  "until_nul s = takeWhile (\<lambda>c. c \<noteq> CHR 0x00) s"

definition cstr_to_string :: "string \<Rightarrow> string \<Rightarrow> zerror + string" where
  "cstr_to_string raw what =
     (if valid_utf8 (until_nul raw) then Inr (until_nul raw) else Inl (local_error (''zrt: '' @ what @ '' is not valid UTF-8'')))"

subsection \<open>Ownership\<close>

definition gained :: "('a \<Rightarrow> handle set) \<Rightarrow> zerror + 'a \<Rightarrow> handle set" where
  "gained G r = (case r of Inl _ \<Rightarrow> {} | Inr a \<Rightarrow> G a)"

lemma gained_simps [simp]: "gained G (Inl e) = {}" "gained G (Inr a) = G a"
  by (simp_all add: gained_def)

definition native_wf :: "'n native_world \<Rightarrow> bool" where
  "native_wf w \<longleftrightarrow> (\<forall>k s. (k, s) \<in> live w \<longrightarrow> s < next_serial w)"

lemma native_wf_fresh: "native_wf w \<Longrightarrow> (k, next_serial w) \<notin> live w"
  by (auto simp: native_wf_def)

definition accounts :: "handle set \<Rightarrow> handle set \<Rightarrow> ('n, 'a) native_op \<Rightarrow> ('a \<Rightarrow> handle set) \<Rightarrow> bool" where
  "accounts B C m G \<longleftrightarrow> (\<forall>w r v. native_wf w \<longrightarrow> B \<subseteq> live w \<longrightarrow> C \<subseteq> live w \<longrightarrow> B \<inter> C = {} \<longrightarrow> m w = (r, v) \<longrightarrow>
     native_wf v \<and> misuse v = misuse w \<and> live v = (live w - C) \<union> gained G r \<and> gained G r \<inter> (live w - C) = {})"

lemma ownsI:
  assumes "\<And>w r v. native_wf w \<Longrightarrow> B \<subseteq> live w \<Longrightarrow> C \<subseteq> live w \<Longrightarrow> B \<inter> C = {} \<Longrightarrow> m w = (r, v) \<Longrightarrow>
     native_wf v \<and> misuse v = misuse w \<and> live v = (live w - C) \<union> gained G r \<and> gained G r \<inter> (live w - C) = {}"
  shows "accounts B C m G"
  using assms unfolding accounts_def by blast

lemma ownsD:
  assumes "accounts B C m G" "native_wf w" "B \<subseteq> live w" "C \<subseteq> live w" "B \<inter> C = {}" "m w = (r, v)"
  shows "native_wf v" "misuse v = misuse w" "live v = (live w - C) \<union> gained G r" "gained G r \<inter> (live w - C) = {}"
  using assms(1) [unfolded accounts_def, rule_format, OF assms(2-6)] by - ((elim conjE, assumption)+)

lemma owns_borrow_more:
  assumes "accounts B C m G" "B \<subseteq> B'"
  shows "accounts B' C m G"
proof (rule ownsI)
  fix w r v
  assume w: "native_wf w" "B' \<subseteq> live w" "C \<subseteq> live w" "B' \<inter> C = {}" "m w = (r, v)"
  then have "B \<subseteq> live w" "B \<inter> C = {}" using assms(2) by auto
  from ownsD [OF assms(1) w(1) this(1) w(3) this(2) w(5)]
  show "native_wf v \<and> misuse v = misuse w \<and> live v = (live w - C) \<union> gained G r \<and> gained G r \<inter> (live w - C) = {}"
    by simp
qed

lemma owns_give [owns_intros]: "accounts B {} (give a) (\<lambda>_. {})"
  by (simp add: accounts_def give_def)

lemma owns_raise [owns_intros]: "accounts B {} (raise e) G"
  by (simp add: accounts_def raise_def)

lemma owns_lift [owns_intros]: "accounts B {} (lift_result r) (\<lambda>_. {})"
  by (auto simp: accounts_def lift_result_def gained_def split: sum.splits)

lemma owns_and_then:
  assumes m: "accounts B C m G" and f: "\<And>a. accounts B (G a) (f a) G'"
  shows "accounts B C (and_then m f) G'"
proof (rule ownsI)
  fix w r v
  assume w: "native_wf w" "B \<subseteq> live w" "C \<subseteq> live w" "B \<inter> C = {}" and run: "and_then m f w = (r, v)"
  obtain q u where mw: "m w = (q, u)" by fastforce
  note M = ownsD [OF m w mw]
  show "native_wf v \<and> misuse v = misuse w \<and> live v = (live w - C) \<union> gained G' r \<and> gained G' r \<inter> (live w - C) = {}"
  proof (cases q)
    case (Inl e)
    then have "v = u" "r = Inl e" using mw run by (simp_all add: and_then_def)
    then show ?thesis using M(1,2,3) Inl by simp
  next
    case (Inr a)
    then have fa: "f a u = (r, v)" using mw run by (simp add: and_then_def)
    have "B \<subseteq> live u" "G a \<subseteq> live u" "B \<inter> G a = {}" using M(3,4) w(2,4) Inr by auto
    note F = ownsD [OF f [of a] M(1) this fa]
    have "live u - G a = live w - C" using M(3,4) Inr by auto
    then show ?thesis using F M(2) by simp
  qed
qed

lemma owns_seq [owns_intros]:
  "accounts B {} m (\<lambda>_. {}) \<Longrightarrow> (\<And>a. accounts B {} (f a) G) \<Longrightarrow> accounts B {} (and_then m f) G"
  by (rule owns_and_then)

lemma owns_in_order [owns_intros]:
  "(\<And>m. m \<in> set ms \<Longrightarrow> accounts B {} m (\<lambda>_. {})) \<Longrightarrow> accounts B {} (in_order ms) (\<lambda>_. {})"
  by (induction ms) (auto intro: owns_give owns_and_then)

lemma owns_each [owns_intros]:
  "(\<And>x. x \<in> set xs \<Longrightarrow> accounts B {} (f x) (\<lambda>_. {})) \<Longrightarrow> accounts B {} (each f xs) (\<lambda>_. {})"
  unfolding each_def by (rule owns_in_order) auto

lemma owns_if_some [owns_intros]:
  "(\<And>a. x = Some a \<Longrightarrow> accounts B {} (f a) (\<lambda>_. {})) \<Longrightarrow> accounts B {} (if_some x f) (\<lambda>_. {})"
  by (cases x) (auto simp: if_some_def intro: owns_give)

lemma owns_if [owns_intros]:
  "(c \<Longrightarrow> accounts B C m G) \<Longrightarrow> (\<not> c \<Longrightarrow> accounts B C m' G) \<Longrightarrow> accounts B C (if c then m else m') G"
  by simp

lemma owns_then_release [owns_intros]:
  assumes "accounts (insert h B) {} m G"
  shows "accounts B {h} (then_release api h m) G"
proof (rule ownsI)
  fix w r v
  assume w: "native_wf w" "B \<subseteq> live w" "{h} \<subseteq> live w" "B \<inter> {h} = {}" and run: "then_release api h m w = (r, v)"
  obtain u where mw: "m w = (r, u)" and v: "v = release_handle api h u"
    using run by (auto simp: then_release_def split: prod.splits)
  have "insert h B \<subseteq> live w" using w by auto
  note M = ownsD [OF assms w(1) this _ _ mw, simplified]
  have "h \<in> live u" "h \<notin> gained G r" using M(3,4) w(3) by auto
  then show "native_wf v \<and> misuse v = misuse w \<and> live v = (live w - {h}) \<union> gained G r \<and> gained G r \<inter> (live w - {h}) = {}"
    using M v by (auto simp: release_handle_def native_wf_def)
qed

lemma owns_or_release:
  assumes "accounts (insert h B) {} m G"
  shows "accounts B {h} (or_release api h m) (\<lambda>a. insert h (G a))"
proof (rule ownsI)
  fix w r v
  assume w: "native_wf w" "B \<subseteq> live w" "{h} \<subseteq> live w" "B \<inter> {h} = {}" and run: "or_release api h m w = (r, v)"
  obtain q u where mw: "m w = (q, u)" by fastforce
  have "insert h B \<subseteq> live w" using w by auto
  note M = ownsD [OF assms w(1) this _ _ mw, simplified]
  show "native_wf v \<and> misuse v = misuse w \<and> live v = (live w - {h}) \<union> gained (\<lambda>a. insert h (G a)) r
      \<and> gained (\<lambda>a. insert h (G a)) r \<inter> (live w - {h}) = {}"
  proof (cases q)
    case (Inl e)
    then have "v = release_handle api h u" "r = Inl e" using run mw by (auto simp: or_release_def)
    moreover have "live u = live w" using M(3) Inl by simp
    ultimately show ?thesis using M(1,2) w(3) by (auto simp: release_handle_def native_wf_def)
  next
    case (Inr a)
    then have "v = u" "r = Inr a" using run mw by (auto simp: or_release_def)
    then show ?thesis using M w(3) Inr by auto
  qed
qed

text \<open>The object that survives a body is part of its result.\<close>

lemma owns_or_release_into:
  assumes "accounts (insert h B) {} m (\<lambda>_. {})" "G a = {h}"
  shows "accounts B {h} (or_release api h (and_then m (\<lambda>_. give a))) G"
proof (rule ownsI)
  fix w r v
  assume w: "native_wf w" "B \<subseteq> live w" "{h} \<subseteq> live w" "B \<inter> {h} = {}"
    and run: "or_release api h (and_then m (\<lambda>_. give a)) w = (r, v)"
  have "accounts B {h} (or_release api h (and_then m (\<lambda>_. give a))) (\<lambda>_. {h})"
    using owns_or_release [OF owns_seq [OF assms(1) owns_give], of api "\<lambda>_. a"] by simp
  note M = ownsD [OF this w run]
  have "gained (\<lambda>_. {h}) r = gained G r"
    using run assms(2) by (auto simp: or_release_def and_then_def give_def split: prod.splits sum.splits)
  then show "native_wf v \<and> misuse v = misuse w \<and> live v = (live w - {h}) \<union> gained G r
      \<and> gained G r \<inter> (live w - {h}) = {}"
    using M by simp
qed

lemma owns_or_release_self [owns_intros]:
  "accounts (insert h B) {} m (\<lambda>_. {}) \<Longrightarrow> accounts B {h} (or_release api h (and_then m (\<lambda>_. give h))) (\<lambda>a. {a})"
  by (rule owns_or_release_into) simp_all

text \<open>The handles of a result may be named differently.\<close>

lemma owns_result:
  assumes "accounts B C m G" "\<And>w a v. m w = (Inr a, v) \<Longrightarrow> G a = G' a"
  shows "accounts B C m G'"
proof (rule ownsI)
  fix w r v
  assume w: "native_wf w" "B \<subseteq> live w" "C \<subseteq> live w" "B \<inter> C = {}" and run: "m w = (r, v)"
  have "gained G r = gained G' r" using assms(2) run by (cases r) auto
  then show "native_wf v \<and> misuse v = misuse w \<and> live v = (live w - C) \<union> gained G' r \<and> gained G' r \<inter> (live w - C) = {}"
    using ownsD [OF assms(1) w run] by simp
qed

lemma handles_noted: "set (handles_of as) \<subseteq> live w \<Longrightarrow> misuse (note_call (f, as) w) = misuse w"
  by (auto simp: note_call_def filter_empty_conv)

lemma note_call_simps [simp]: "live (note_call c w) = live w" "next_serial (note_call c w) = next_serial w"
    "engine (note_call c w) = engine w" "made (note_call c w) = made w @ [c]" "given_up (note_call c w) = given_up w"
  by (simp_all add: note_call_def)

lemma owns_status [owns_intros]: "set (handles_of as) \<subseteq> B \<Longrightarrow> accounts B {} (status api f as) (\<lambda>_. {})"
  by (rule ownsI) (auto simp: status_def handles_noted native_wf_def gained_def split: prod.splits sum.splits)

lemma owns_void_call [owns_intros]: "set (handles_of as) \<subseteq> B \<Longrightarrow> accounts B {} (void_call api f as) (\<lambda>_. {})"
  by (rule ownsI) (auto simp: void_call_def handles_noted native_wf_def gained_def split: prod.splits)

lemma owns_query_int [owns_intros]: "set (handles_of as) \<subseteq> B \<Longrightarrow> accounts B {} (query_int api f as) (\<lambda>_. {})"
  by (rule ownsI) (auto simp: query_int_def handles_noted native_wf_def gained_def split: prod.splits sum.splits)

lemma owns_query_ints [owns_intros]: "set (handles_of as) \<subseteq> B \<Longrightarrow> accounts B {} (query_ints api f as len) (\<lambda>_. {})"
  by (rule ownsI) (auto simp: query_ints_def handles_noted native_wf_def gained_def split: prod.splits sum.splits)

lemma owns_query_texts [owns_intros]: "set (handles_of as) \<subseteq> B \<Longrightarrow> accounts B {} (query_texts api f as len) (\<lambda>_. {})"
  by (rule ownsI) (auto simp: query_texts_def handles_noted native_wf_def gained_def split: prod.splits sum.splits)

lemma owns_query_text [owns_intros]: "set (handles_of as) \<subseteq> B \<Longrightarrow> accounts B {} (query_text api f as) (\<lambda>_. {})"
  by (rule ownsI) (auto simp: query_text_def handles_noted native_wf_def gained_def split: prod.splits sum.splits)

lemma owns_create_ptr [owns_intros]:
  assumes "null_on_error api" "set (handles_of as) \<subseteq> B"
  shows "accounts B {} (create_ptr api k f as) set_option"
proof (rule ownsI)
  fix w r v
  assume w: "native_wf w" "B \<subseteq> live w" and run: "create_ptr api k f as w = (r, v)"
  obtain st some n where c: "c_create api (f, as) (next_serial w) (engine w) = ((st, some), n)" by (metis prod.collapse)
  have args: "misuse (note_call (f, as) w) = misuse w" using assms(2) w(2) by (intro handles_noted) auto
  have fresh: "(k, next_serial w) \<notin> live w" using w(1) by (rule native_wf_fresh)
  show "native_wf v \<and> misuse v = misuse w \<and> live v = (live w - {}) \<union> gained set_option r
      \<and> gained set_option r \<inter> (live w - {}) = {}"
  proof (cases st)
    case None
    then show ?thesis using run c args w(1) fresh
      by (cases some) (auto simp: create_ptr_def check_def native_wf_def Let_def less_Suc_eq)
  next
    case (Some e)
    then have "\<not> some" using assms(1) c unfolding null_on_error_def by (metis fst_conv option.distinct(1) snd_conv)
    then show ?thesis using run c args w(1) Some by (auto simp: create_ptr_def check_def native_wf_def)
  qed
qed

lemma owns_create_void [owns_intros]:
  assumes "set (handles_of as) \<subseteq> B"
  shows "accounts B {} (create_void api k f as) set_option"
proof (rule ownsI)
  fix w r v
  assume w: "native_wf w" "B \<subseteq> live w" and run: "create_void api k f as w = (r, v)"
  obtain st some n where c: "c_create api (f, as) (next_serial w) (engine w) = ((st, some), n)" by (metis prod.collapse)
  have args: "misuse (note_call (f, as) w) = misuse w" using assms w(2) by (intro handles_noted) auto
  have fresh: "(k, next_serial w) \<notin> live w" using w(1) by (rule native_wf_fresh)
  show "native_wf v \<and> misuse v = misuse w \<and> live v = (live w - {}) \<union> gained set_option r
      \<and> gained set_option r \<inter> (live w - {}) = {}"
    using run c args w(1) fresh
    by (cases some) (auto simp: create_void_def native_wf_def Let_def less_Suc_eq)
qed

lemma owns_create_raw [owns_intros]:
  assumes "set (handles_of as) \<subseteq> B"
  shows "accounts B {} (create_raw api k f as) (\<lambda>(_, p). set_option p)"
proof (rule ownsI)
  fix w r v
  assume w: "native_wf w" "B \<subseteq> live w" and run: "create_raw api k f as w = (r, v)"
  obtain st some n where c: "c_create api (f, as) (next_serial w) (engine w) = ((st, some), n)" by (metis prod.collapse)
  have args: "misuse (note_call (f, as) w) = misuse w" using assms w(2) by (intro handles_noted) auto
  have fresh: "(k, next_serial w) \<notin> live w" using w(1) by (rule native_wf_fresh)
  show "native_wf v \<and> misuse v = misuse w \<and> live v = (live w - {}) \<union> gained (\<lambda>(_, p). set_option p) r
      \<and> gained (\<lambda>(_, p). set_option p) r \<inter> (live w - {}) = {}"
    using run c args w(1) fresh
    by (cases some) (auto simp: create_raw_def native_wf_def Let_def less_Suc_eq)
qed

lemma owns_non_null: "accounts B (set_option p) (lift_result (non_null p what)) (\<lambda>h. {h})"
  by (cases p) (auto simp: accounts_def lift_result_def non_null_def)

lemma owns_create_handle [owns_intros]:
  assumes "null_on_error api" "set (handles_of as) \<subseteq> B"
  shows "accounts B {} (create_handle api k f as what) (\<lambda>h. {h})"
  unfolding create_handle_def by (rule owns_and_then [OF owns_create_ptr [OF assms] owns_non_null])

lemma owns_collect_results [owns_intros]:
  "(\<And>x. x \<in> set xs \<Longrightarrow> accounts B {} (f x) (\<lambda>_. {})) \<Longrightarrow> accounts B {} (collect_results f xs) (\<lambda>_. {})"
proof (induction xs)
  case Nil
  then show ?case by (simp add: owns_give)
next
  case (Cons x xs)
  show ?case
    by (simp, rule owns_and_then, rule Cons.prems, simp, rule owns_and_then, rule Cons.IH, rule Cons.prems, simp, rule owns_give)
qed

text \<open>A handle handed on as the result stays live.\<close>

lemma owns_give_self: "accounts B {h} (give h) (\<lambda>a. {a})"
  by (rule ownsI) (auto simp: give_def)

text \<open>
  What ownership says about one run: no handle was misused, an error leaves the live handles as they
  were, a result leaves exactly its own handles in addition.
\<close>

definition settled :: "'n native_world \<Rightarrow> ('a \<Rightarrow> handle set) \<Rightarrow> (zerror + 'a) \<times> 'n native_world \<Rightarrow> bool" where
  "settled w G p = (case p of (r, v) \<Rightarrow> native_wf v \<and> misuse v = misuse w \<and>
     (case r of Inl e \<Rightarrow> live v = live w | Inr a \<Rightarrow> G a \<inter> live w = {} \<and> live v = live w \<union> G a))"

lemma owns_settled:
  assumes "accounts {} {} m G" "native_wf w"
  shows "settled w G (m w)"
proof -
  obtain r v where m: "m w = (r, v)" by fastforce
  show ?thesis using ownsD [OF assms(1,2) _ _ _ m] by (cases r) (simp_all add: settled_def m)
qed

text \<open>A release that is its own statement, as in a destructor.\<close>

definition drop_handle :: "'n c_api \<Rightarrow> handle \<Rightarrow> ('n, unit) native_op" where
  "drop_handle api h w = (Inr (), release_handle api h w)"

lemma owns_drop_handle [owns_intros]: "accounts B {h} (drop_handle api h) (\<lambda>_. {})"
  by (rule ownsI) (auto simp: drop_handle_def release_handle_def native_wf_def)

lemma owns_give_up [owns_intros]: "accounts B {h} (give_up h) (\<lambda>_. {})"
  by (rule ownsI) (auto simp: give_up_def native_wf_def)

lemma owns_leak_reference [owns_intros]: "accounts B {} (leak_reference h) (\<lambda>_. {})"
  by (rule ownsI) (auto simp: leak_reference_def native_wf_def)

lemma owns_fill_buffer [owns_intros]: "set (handles_of as) \<subseteq> B \<Longrightarrow> accounts B {} (fill_buffer api f as cap) (\<lambda>_. {})"
  by (rule ownsI) (auto simp: fill_buffer_def handles_noted native_wf_def gained_def split: prod.splits sum.splits)

lemma owns_default_allocator [owns_intros]: "accounts B {} (default_allocator api) (\<lambda>_. {})"
  unfolding default_allocator_def by (intro owns_seq owns_query_int owns_if owns_raise owns_give) simp

lemma owns_free_text [owns_intros]: "accounts B {h} (free_text api h) (\<lambda>_. {})"
  unfolding free_text_def by (intro owns_then_release owns_status) simp

subsection \<open>Effects that compose\<close>

definition effects :: "('n native_world \<Rightarrow> 'n native_world \<Rightarrow> bool) \<Rightarrow> ('n, 'a) native_op \<Rightarrow> bool" where
  "effects R m \<longleftrightarrow> (\<forall>w. R w (snd (m w)))"

lemma effectsD: "effects R m \<Longrightarrow> m w = (r, v) \<Longrightarrow> R w v"
  unfolding effects_def by (metis snd_conv)

locale transitive_effect =
  fixes R :: "'n native_world \<Rightarrow> 'n native_world \<Rightarrow> bool"
  assumes refl: "R w w" and trans: "R u v \<Longrightarrow> R v w \<Longrightarrow> R u w"
begin

lemma pure: "effects R (give a)" "effects R (raise e)" "effects R (lift_result r)"
  by (simp_all add: effects_def give_def raise_def lift_result_def refl)

lemma and_then: "effects R m \<Longrightarrow> (\<And>a. effects R (f a)) \<Longrightarrow> effects R (and_then m f)"
  unfolding effects_def and_then_def by (auto split: prod.splits sum.splits intro: trans) (metis snd_conv trans)+

lemma and_then_result:
  assumes "effects R m" "\<And>w a v. m w = (Inr a, v) \<Longrightarrow> effects R (f a)"
  shows "effects R (and_then m f)"
  unfolding effects_def
proof
  fix w
  obtain r v where m: "m w = (r, v)" by fastforce
  then have "R w v" using assms(1) by (rule effectsD [rotated])
  then show "R w (snd (and_then m f w))"
    using m assms(2) by (cases r) (auto simp: and_then_def effects_def intro: trans)
qed

lemma in_order: "(\<And>m. m \<in> set ms \<Longrightarrow> effects R m) \<Longrightarrow> effects R (in_order ms)"
  by (induction ms) (auto intro: pure and_then)

lemma each: "(\<And>x. x \<in> set xs \<Longrightarrow> effects R (f x)) \<Longrightarrow> effects R (each f xs)"
  unfolding each_def by (rule in_order) auto

lemma if_some: "(\<And>a. x = Some a \<Longrightarrow> effects R (f a)) \<Longrightarrow> effects R (if_some x f)"
  by (cases x) (auto simp: if_some_def intro: pure)

lemma then_release: "effects R m \<Longrightarrow> (\<And>w. R w (release_handle api h w)) \<Longrightarrow> effects R (then_release api h m)"
  unfolding effects_def then_release_def by (auto split: prod.splits) (metis snd_conv trans)

lemma or_release: "effects R m \<Longrightarrow> (\<And>w. R w (release_handle api h w)) \<Longrightarrow> effects R (or_release api h m)"
  unfolding effects_def or_release_def by (auto split: prod.splits sum.splits) (metis snd_conv trans)+

end

text \<open>The calls an operation makes, in order.\<close>

definition calls_only :: "(c_call \<Rightarrow> bool) \<Rightarrow> 'n native_world \<Rightarrow> 'n native_world \<Rightarrow> bool" where
  "calls_only Q w v \<longleftrightarrow> (\<exists>cs. made v = made w @ cs \<and> (\<forall>c \<in> set cs. Q c))"

interpretation calls: transitive_effect "calls_only Q" for Q
proof
  show "calls_only Q w w" for w :: "'a native_world" by (auto simp: calls_only_def intro: exI [of _ "[]"])
next
  fix u v w :: "'a native_world"
  assume "calls_only Q u v" "calls_only Q v w"
  then obtain cs ds where "made v = made u @ cs" "made w = made v @ ds" "\<forall>c \<in> set cs. Q c" "\<forall>c \<in> set ds. Q c"
    unfolding calls_only_def by blast
  then show "calls_only Q u w" unfolding calls_only_def by (intro exI [of _ "cs @ ds"]) auto
qed

lemma calls_only_one: "Q c \<Longrightarrow> made v = made w @ [c] \<Longrightarrow> calls_only Q w v"
  unfolding calls_only_def by (intro exI [of _ "[c]"]) simp

lemma calls_release: "calls_only Q w (release_handle api h w)"
  unfolding calls_only_def by (intro exI [of _ "[]"]) (simp add: release_handle_def)

lemma calls_given_up: "effects (calls_only Q) (give_up h)" "effects (calls_only Q) (leak_reference h)"
  by (auto simp: effects_def calls_only_def give_up_def leak_reference_def)

lemma calls_made:
  assumes "Q (f, as)"
  shows "effects (calls_only Q) (status api f as)" "effects (calls_only Q) (query_int api f as)"
    "effects (calls_only Q) (create_ptr api k f as)" "effects (calls_only Q) (create_void api k f as)"
    "effects (calls_only Q) (fill_buffer api f as cap)"
  using assms
  by (auto simp: effects_def status_def query_int_def create_ptr_def create_void_def fill_buffer_def Let_def
      intro!: calls_only_one split: prod.splits)

lemma calls_create_handle: "Q (f, as) \<Longrightarrow> effects (calls_only Q) (create_handle api k f as what)"
  unfolding create_handle_def by (intro calls.and_then calls_made calls.pure)

text \<open>
  Most operations give nothing up and do not install a logger. The rest is accounted for exactly:
  \<open>gave_up X n\<close> says that the references given up are those of \<open>X\<close>, of which an error may leave out
  the last ones, as many as calls that install a logger were made, and beside them at most \<open>n\<close>
  libraries.
\<close>

definition installs_logger :: "c_call \<Rightarrow> bool" where
  "installs_logger c \<longleftrightarrow> fst c = ''set_user_logging_function''"

definition unlogged :: "'n native_world \<Rightarrow> 'n native_world \<Rightarrow> bool" where
  "unlogged w v \<longleftrightarrow> given_up v = given_up w \<and> calls_only (\<lambda>c. \<not> installs_logger c) w v"

interpretation unlogged: transitive_effect unlogged
  by unfold_locales (auto simp: unlogged_def intro: calls.refl calls.trans)

named_theorems unlogged_intros \<open>operations that give nothing up\<close>

lemmas [unlogged_intros] = unlogged.pure unlogged.and_then unlogged.in_order unlogged.each unlogged.if_some

lemma unlogged_made: "given_up v = given_up w \<Longrightarrow> made v = made w @ [c] \<Longrightarrow> \<not> installs_logger c \<Longrightarrow> unlogged w v"
  by (auto simp: unlogged_def calls_only_def)

lemma unlogged_release: "unlogged w (release_handle api h w)"
  by (auto simp: unlogged_def calls_only_def release_handle_def)

lemma unlogged_call [unlogged_intros]:
  assumes "f \<noteq> ''set_user_logging_function''"
  shows "effects unlogged (status api f as)" "effects unlogged (void_call api f as)" "effects unlogged (query_int api f as)"
    "effects unlogged (query_text api f as)" "effects unlogged (query_ints api f as len)"
    "effects unlogged (query_texts api f as len)" "effects unlogged (fill_buffer api f as cap)"
    "effects unlogged (create_ptr api k f as)" "effects unlogged (create_raw api k f as)" "effects unlogged (create_void api k f as)"
  using assms
  by (auto simp: effects_def status_def void_call_def query_int_def query_text_def query_ints_def query_texts_def fill_buffer_def
      create_ptr_def create_raw_def create_void_def Let_def installs_logger_def intro!: unlogged_made split: prod.splits)

lemma unlogged_scopes [unlogged_intros]:
  "effects unlogged m \<Longrightarrow> effects unlogged (then_release api h m)"
  "effects unlogged m \<Longrightarrow> effects unlogged (or_release api h m)"
  "effects unlogged (drop_handle api h)"
  by (intro unlogged.then_release unlogged.or_release unlogged_release; assumption)+
    (simp add: effects_def drop_handle_def unlogged_release)

lemma unlogged_create_handle [unlogged_intros]:
  "f \<noteq> ''set_user_logging_function'' \<Longrightarrow> effects unlogged (create_handle api k f as what)"
  unfolding create_handle_def by (intro unlogged_intros)

lemma unlogged_allocator [unlogged_intros]:
  "effects unlogged (default_allocator api)" "effects unlogged (free_text api h)"
  unfolding default_allocator_def free_text_def by (auto intro!: unlogged_intros)

lemma unlogged_collect [unlogged_intros]:
  "(\<And>x. effects unlogged (f x)) \<Longrightarrow> effects unlogged (collect_results f xs)"
  by (induction xs) (auto intro!: unlogged_intros)

lemma unlogged_reading: "(\<And>x. effects unlogged (f x)) \<Longrightarrow> effects unlogged (\<lambda>w. f (g w) w)"
  by (simp add: effects_def)

definition gave_up :: "handle list \<Rightarrow> nat \<Rightarrow> 'n native_world \<Rightarrow> (zerror + 'a) \<times> 'n native_world \<Rightarrow> bool" where
  "gave_up X n w p \<longleftrightarrow> (case p of (r, v) \<Rightarrow> \<exists>hs cs rest.
      given_up v = given_up w @ hs \<and> made v = made w @ cs
    \<and> X = filter (\<lambda>h. fst h \<noteq> Library_handle) hs @ rest \<and> (case r of Inl _ \<Rightarrow> True | Inr _ \<Rightarrow> rest = [])
    \<and> length (filter (\<lambda>h. fst h \<noteq> Library_handle) hs) = length (filter installs_logger cs)
    \<and> length (filter (\<lambda>h. fst h = Library_handle) hs) \<le> n)"

definition gives_up :: "handle list \<Rightarrow> nat \<Rightarrow> ('n, 'a) native_op \<Rightarrow> bool" where
  "gives_up X n m \<longleftrightarrow> (\<forall>w. gave_up X n w (m w))"

lemma gives_upD: "gives_up X n m \<Longrightarrow> m w = (r, v) \<Longrightarrow> gave_up X n w (r, v)"
  unfolding gives_up_def by metis

lemma gives_up_nothing: "effects unlogged m \<Longrightarrow> gives_up [] 0 m"
  unfolding gives_up_def
proof
  fix w
  assume m: "effects unlogged m"
  obtain r v where run: "m w = (r, v)" by fastforce
  then have "unlogged w v" using m by (rule effectsD [rotated])
  then obtain cs where "given_up v = given_up w" "made v = made w @ cs" "filter installs_logger cs = []"
    by (auto simp: unlogged_def calls_only_def filter_empty_conv)
  then show "gave_up [] 0 w (m w)" unfolding run gave_up_def by (auto split: sum.split)
qed

lemma gave_up_trans:
  assumes "gave_up X m w (Inr a, v)" "gave_up Y n v (r, u)"
  shows "gave_up (X @ Y) (m + n) w (r, u)"
proof -
  obtain hs cs where A: "given_up v = given_up w @ hs" "made v = made w @ cs" "X = filter (\<lambda>h. fst h \<noteq> Library_handle) hs"
    "length (filter (\<lambda>h. fst h \<noteq> Library_handle) hs) = length (filter installs_logger cs)"
    "length (filter (\<lambda>h. fst h = Library_handle) hs) \<le> m"
    using assms(1) by (auto simp: gave_up_def)
  obtain gs ds rest where B: "given_up u = given_up v @ gs" "made u = made v @ ds"
    "Y = filter (\<lambda>h. fst h \<noteq> Library_handle) gs @ rest" "case r of Inl _ \<Rightarrow> True | Inr _ \<Rightarrow> rest = []"
    "length (filter (\<lambda>h. fst h \<noteq> Library_handle) gs) = length (filter installs_logger ds)"
    "length (filter (\<lambda>h. fst h = Library_handle) gs) \<le> n"
    using assms(2) unfolding gave_up_def by auto
  show ?thesis
    unfolding gave_up_def prod.case
    by (rule exI [of _ "hs @ gs"], rule exI [of _ "cs @ ds"], rule exI [of _ rest]) (use A B in auto)
qed

lemma gave_up_stop: "gave_up X m w (Inl e, v) \<Longrightarrow> gave_up (X @ Y) (m + n) w (Inl e, v)"
  unfolding gave_up_def by fastforce

lemma gives_up_and_then:
  assumes "gives_up X m p" "\<And>a. gives_up Y n (f a)"
  shows "gives_up (X @ Y) (m + n) (and_then p f)"
  unfolding gives_up_def
proof
  fix w
  obtain q v where run: "p w = (q, v)" by fastforce
  note first = gives_upD [OF assms(1) run]
  show "gave_up (X @ Y) (m + n) w (and_then p f w)"
  proof (cases q)
    case (Inl e)
    then show ?thesis using gave_up_stop first run by (simp add: and_then_def)
  next
    case (Inr a)
    obtain r u where "f a v = (r, u)" by fastforce
    then show ?thesis using gave_up_trans [OF first [unfolded Inr] gives_upD [OF assms(2)]] run Inr by (simp add: and_then_def)
  qed
qed

lemma gives_up_first: "gives_up X n m \<Longrightarrow> (\<And>a. effects unlogged (f a)) \<Longrightarrow> gives_up X n (and_then m f)"
  using gives_up_and_then [of X n m "[]" 0 f] gives_up_nothing by fastforce

lemma gives_up_later: "effects unlogged m \<Longrightarrow> (\<And>a. gives_up X n (f a)) \<Longrightarrow> gives_up X n (and_then m f)"
  using gives_up_and_then [of "[]" 0 m X n f] gives_up_nothing by fastforce

lemma gave_up_release: "gave_up X n w (r, release_handle api h v) \<longleftrightarrow> gave_up X n w (r, v)"
  by (simp add: gave_up_def release_handle_def)

lemma gives_up_scopes:
  "gives_up X n m \<Longrightarrow> gives_up X n (then_release api h m)" "gives_up X n m \<Longrightarrow> gives_up X n (or_release api h m)"
  unfolding gives_up_def then_release_def or_release_def
  by (auto simp: gave_up_release split: prod.splits sum.splits) (metis gave_up_release)+

lemma gives_up_more: "gives_up X m p \<Longrightarrow> m \<le> n \<Longrightarrow> gives_up X n p"
  unfolding gives_up_def gave_up_def by (fastforce split: prod.splits)

lemma gives_up_in_order: "gives_up [] 0 (in_order ms) \<Longrightarrow> gives_up X n (in_order ns) \<Longrightarrow> gives_up X n (in_order (ms @ ns))"
  unfolding in_order_append using gives_up_and_then [of "[]" 0 "in_order ms" X n "\<lambda>_. in_order ns"] by simp

lemma gives_up_each: "(\<And>x. gives_up [] 1 (f x)) \<Longrightarrow> gives_up [] (length xs) (each f xs)"
  unfolding each_def
proof (induction xs)
  case Nil
  show ?case by (simp add: gives_up_nothing unlogged.pure)
next
  case (Cons x xs)
  then show ?case using gives_up_and_then [of "[]" 1 "f x" "[]" "length xs" "\<lambda>_. in_order (map f xs)"] by simp
qed

lemma gives_up_library: "fst h = Library_handle \<Longrightarrow> gives_up [] 1 (give_up h)"
  unfolding gives_up_def gave_up_def give_up_def
  by (auto intro!: exI [of _ "[h]"])

lemma gives_up_reference:
  "gives_up [(Logger_slot, l)] 0 (and_then (leak_reference (Logger_slot, l)) (\<lambda>_. status api ''set_user_logging_function'' as))"
  unfolding gives_up_def
proof
  fix w
  let ?m = "and_then (leak_reference (Logger_slot, l)) (\<lambda>_. status api ''set_user_logging_function'' as)"
  obtain r v where run: "?m w = (r, v)" by fastforce
  then have eff: "given_up v = given_up w @ [(Logger_slot, l)]" "made v = made w @ [(''set_user_logging_function'', as)]"
    by (auto simp: leak_reference_def and_then_def status_def split: prod.splits)
  show "gave_up [(Logger_slot, l)] 0 w (?m w)"
    unfolding run gave_up_def prod.case
    by (rule exI [of _ "[(Logger_slot, l)]"], rule exI [of _ "[(''set_user_logging_function'', as)]"], rule exI [of _ "[]"])
      (simp add: eff installs_logger_def split: sum.split)
qed

text \<open>The exact calls of an operation that succeeds.\<close>

definition makes :: "('n, 'a) native_op \<Rightarrow> c_call list \<Rightarrow> bool" where
  "makes m cs \<longleftrightarrow> (\<forall>w a v. m w = (Inr a, v) \<longrightarrow> made v = made w @ cs)"

lemma makesD: "makes m cs \<Longrightarrow> m w = (Inr a, v) \<Longrightarrow> made v = made w @ cs"
  by (simp add: makes_def)

lemma makes_pure: "makes (give a) []" "makes (lift_result r) []"
  by (auto simp: makes_def give_def lift_result_def)

lemma makes_one: "makes (status api f as) [(f, as)]" "makes (void_call api f as) [(f, as)]"
  by (auto simp: makes_def status_def void_call_def split: prod.splits)

lemma makes_and_then:
  assumes "makes m cs" "\<And>w a v. m w = (Inr a, v) \<Longrightarrow> makes (f a) ds"
  shows "makes (and_then m f) (cs @ ds)"
  using assms(2) makesD [OF assms(1)] unfolding makes_def
  by (auto simp: and_then_def split: prod.splits sum.splits)

lemma makes_in_order: "list_all2 makes ms css \<Longrightarrow> makes (in_order ms) (concat css)"
proof (induction rule: list_all2_induct)
  case Nil
  then show ?case by (simp add: makes_pure)
next
  case (Cons m ms cs css)
  then show ?case using makes_and_then [OF Cons(1), of "\<lambda>_. in_order ms"] by simp
qed

lemma makes_each: "(\<And>x. makes (f x) (g x)) \<Longrightarrow> makes (each f xs) (concat (map g xs))"
  unfolding each_def by (rule makes_in_order) (simp add: list_all2_map1 list_all2_map2 list_all2_same)

definition calls_if :: "'x option \<Rightarrow> ('x \<Rightarrow> c_call) \<Rightarrow> c_call list" where
  "calls_if x f = (case x of None \<Rightarrow> [] | Some a \<Rightarrow> [f a])"

lemma makes_if_some: "(\<And>a. x = Some a \<Longrightarrow> makes (f a) [g a]) \<Longrightarrow> makes (if_some x f) (calls_if x g)"
  by (cases x) (simp_all add: if_some_def calls_if_def makes_pure)

lemma makes_or_release: "makes m cs \<Longrightarrow> makes (or_release api h m) cs"
  by (auto simp: makes_def or_release_def split: prod.splits sum.splits)

lemma makes_create_handle: "makes (create_handle api k f as what) [(f, as)]"
  by (auto simp: makes_def create_handle_def create_ptr_def and_then_def lift_result_def Let_def check_def
      split: prod.splits sum.splits option.splits if_splits)

subsection \<open>What a result looks like\<close>

definition returns :: "('a \<Rightarrow> bool) \<Rightarrow> ('n, 'a) native_op \<Rightarrow> bool" where
  "returns P m \<longleftrightarrow> (\<forall>w a v. m w = (Inr a, v) \<longrightarrow> P a)"

lemma returnsD: "returns P m \<Longrightarrow> m w = (Inr a, v) \<Longrightarrow> P a"
  unfolding returns_def by blast

lemma returns_any: "returns (\<lambda>_. True) m"
  by (simp add: returns_def)

lemma returns_give: "P a \<Longrightarrow> returns P (give a)"
  by (simp add: returns_def give_def)

lemma returns_raise: "returns P (raise e)"
  by (simp add: returns_def raise_def)

lemma returns_and_then: "returns P m \<Longrightarrow> (\<And>a. P a \<Longrightarrow> returns Q (f a)) \<Longrightarrow> returns Q (and_then m f)"
  unfolding returns_def and_then_def by (auto split: prod.splits sum.splits) blast

lemma returns_seq: "(\<And>a. returns Q (f a)) \<Longrightarrow> returns Q (and_then m f)"
  by (rule returns_and_then [OF returns_any])

lemma returns_scopes:
  "returns P m \<Longrightarrow> returns P (then_release api h m)" "returns P m \<Longrightarrow> returns P (or_release api h m)"
  by (auto simp: returns_def then_release_def or_release_def split: prod.splits sum.splits)

definition of_kind :: "handle_kind \<Rightarrow> handle option \<Rightarrow> bool" where
  "of_kind k p \<longleftrightarrow> (\<forall>h. p = Some h \<longrightarrow> fst h = k)"

lemma returns_create_ptr: "returns (of_kind k) (create_ptr api k f as)"
  by (auto simp: of_kind_def returns_def create_ptr_def Let_def check_def split: prod.splits option.splits if_splits)

lemma returns_non_null: "(\<And>h. p = Some h \<Longrightarrow> P h) \<Longrightarrow> returns P (lift_result (non_null p what))"
  by (auto simp: returns_def lift_result_def non_null_def split: option.splits)

lemma returns_create_handle: "returns (\<lambda>h. fst h = k) (create_handle api k f as what)"
  unfolding create_handle_def by (rule returns_and_then [OF returns_create_ptr]) (auto simp: of_kind_def intro: returns_non_null)

lemma returns_collect_results: "returns (\<lambda>ys. length ys = length xs) (collect_results f xs)"
proof (induction xs)
  case Nil
  then show ?case by (simp add: returns_give)
next
  case (Cons x xs)
  show ?case
    by (simp, rule returns_seq, rule returns_and_then, rule Cons.IH, simp add: returns_give)
qed

text \<open>The operation may read the world before it runs.\<close>

lemma owns_reading: "(\<And>x. accounts B C (f x) G) \<Longrightarrow> accounts B C (\<lambda>w. f (g w) w) G"
  unfolding accounts_def by blast

end
