(* ===== verification/Decimal.thy ===== *)
theory Decimal
  imports Native_Handles
begin

text \<open>
  Decimal numerals as Rust prints and reads them: \<open>i32::to_string\<close>, \<open>usize::to_string\<close> and
  \<open>str::parse\<close> for signed types, the latter with its sign, its empty and non-digit refusals and its checked
  arithmetic. Used for the numbers that st-zrt/src/run_options.rs and st-zrt/src/ep.rs pass as
  configuration strings.
\<close>

definition digit_char :: "nat \<Rightarrow> char" where
  "digit_char d = char_of (48 + d)"

definition digit_val :: "char \<Rightarrow> nat option" where
  "digit_val c = (if 48 \<le> (of_char c :: nat) \<and> (of_char c :: nat) \<le> 57 then Some (of_char c - 48) else None)"

fun digits :: "nat \<Rightarrow> string" where
  "digits n = (if n < 10 then [digit_char n] else digits (n div 10) @ [digit_char (n mod 10)])"

declare digits.simps [simp del]

definition show_int :: "int \<Rightarrow> string" where
  "show_int i = (if i < 0 then CHR ''-'' # digits (nat (- i)) else digits (nat i))"

text \<open>A signed integer type is given by its bound \<open>b\<close>: it holds \<open>- b\<close> up to \<open>b - 1\<close>.\<close>

definition signed_checked :: "int \<Rightarrow> int \<Rightarrow> int option" where
  "signed_checked b i = (if - b \<le> i \<and> i < b then Some i else None)"

fun accumulate :: "int \<Rightarrow> bool \<Rightarrow> int \<Rightarrow> string \<Rightarrow> int option" where
  "accumulate b neg acc [] = Some acc"
| "accumulate b neg acc (c # cs) =
     (case digit_val c of None \<Rightarrow> None | Some d \<Rightarrow>
        case signed_checked b (acc * 10) of None \<Rightarrow> None | Some m \<Rightarrow>
          case signed_checked b (if neg then m - int d else m + int d) of None \<Rightarrow> None | Some a \<Rightarrow>
            accumulate b neg a cs)"

definition parse_signed :: "int \<Rightarrow> string \<Rightarrow> int option" where
  "parse_signed b s = (case s of [] \<Rightarrow> None | c # cs \<Rightarrow>
     if c = CHR ''+'' \<or> c = CHR ''-'' then (if cs = [] then None else accumulate b (c = CHR ''-'') 0 cs)
     else accumulate b False 0 s)"

definition parse_i32 :: "string \<Rightarrow> int option" where
  "parse_i32 s = parse_signed (2 ^ 31) s"

definition parse_i128 :: "string \<Rightarrow> int option" where
  "parse_i128 s = parse_signed (2 ^ 127) s"

text \<open>The same for a value held in 32 bits.\<close>

definition show_i32 :: "32 word \<Rightarrow> string" where
  "show_i32 x = show_int (sint x)"

definition read_i32 :: "string \<Rightarrow> 32 word option" where
  "read_i32 s = map_option word_of_int (parse_i32 s)"

subsection \<open>Reading back what was printed\<close>

lemma of_digit_char: "d < 10 \<Longrightarrow> of_char (digit_char d) = 48 + d"
  by (simp add: digit_char_def)

lemma digit_val_char [simp]: "d < 10 \<Longrightarrow> digit_val (digit_char d) = Some d"
  by (simp add: digit_val_def of_digit_char)

lemma accumulate_append:
  "accumulate b neg acc (xs @ ys) = Option.bind (accumulate b neg acc xs) (\<lambda>a. accumulate b neg a ys)"
  by (induction b neg acc xs rule: accumulate.induct) (auto split: option.splits)

definition signed :: "bool \<Rightarrow> nat \<Rightarrow> int" where
  "signed neg n = (if neg then - int n else int n)"

lemma signed_step: "(if neg then signed neg (n div 10) * 10 - int (n mod 10) else signed neg (n div 10) * 10 + int (n mod 10))
    = signed neg n"
  by (simp add: signed_def zdiv_int zmod_int) presburger

lemma accumulate_digits:
  "0 < b \<Longrightarrow> signed_checked b (signed neg n) \<noteq> None \<Longrightarrow> accumulate b neg 0 (digits n) = Some (signed neg n)"
proof (induction n rule: digits.induct)
  case (1 n)
  show ?case
  proof (cases "n < 10")
    case True
    then show ?thesis using 1(2,3) by (auto simp: digits.simps [of n] signed_checked_def signed_def split: if_splits)
  next
    case False
    have r: "- b \<le> signed neg n" "signed neg n < b" using 1(2,3) by (auto simp: signed_checked_def split: if_splits)
    define t where "t = int n div 10"
    have t: "0 \<le> t" "10 * t \<le> int n" by (simp_all add: t_def)
    have sg: "signed neg (n div 10) = (if neg then - t else t)" by (simp add: signed_def t_def zdiv_int)
    have "signed neg n = (if neg then - int n else int n)" by (simp add: signed_def)
    then have "- b \<le> signed neg (n div 10) * 10 \<and> signed neg (n div 10) * 10 < b"
      "- b \<le> signed neg (n div 10) \<and> signed neg (n div 10) < b"
      using r t 1(2) unfolding sg by (cases neg; simp; linarith)+
    then have ten: "signed_checked b (signed neg (n div 10) * 10) = Some (signed neg (n div 10) * 10)"
      and "signed_checked b (signed neg (n div 10)) \<noteq> None"
      by (simp_all add: signed_checked_def)
    then have "accumulate b neg 0 (digits (n div 10)) = Some (signed neg (n div 10))" using 1(1) 1(2) False by blast
    moreover have "accumulate b neg (signed neg (n div 10)) [digit_char (n mod 10)] = Some (signed neg n)"
      using signed_step [of neg n] r by (simp add: ten) (auto simp: signed_checked_def split: if_splits)
    ultimately show ?thesis using False by (simp add: digits.simps [of n] accumulate_append)
  qed
qed

lemma digits_ascii: "c \<in> set (digits n) \<Longrightarrow> 48 \<le> (of_char c :: nat) \<and> (of_char c :: nat) \<le> 57"
proof (induction n rule: digits.induct)
  case (1 n)
  then show ?case using digits.simps [of n] of_digit_char [of n] of_digit_char [of "n mod 10"]
    by (auto split: if_splits)
qed

lemma digits_not_Nil [simp]: "digits n \<noteq> []"
  by (subst digits.simps) simp

lemma sign_not_digit: "CHR ''+'' \<notin> set (digits n)" "CHR ''-'' \<notin> set (digits n)" "CHR 0x00 \<notin> set (digits n)"
  using digits_ascii [of "CHR ''+''" n] digits_ascii [of "CHR ''-''" n] digits_ascii [of "CHR 0x00" n] by auto

lemma parse_show_int:
  assumes "0 < b" "- b \<le> i" "i < b"
  shows "parse_signed b (show_int i) = Some i"
proof (cases "i < 0")
  case True
  then show ?thesis using assms accumulate_digits [of b True "nat (- i)"]
    by (simp add: parse_signed_def show_int_def signed_checked_def signed_def)
next
  case False
  obtain c cs where d: "digits (nat i) = c # cs" by (cases "digits (nat i)") auto
  then have "c \<noteq> CHR ''+''" "c \<noteq> CHR ''-''" using sign_not_digit [of "nat i"] by auto
  then show ?thesis using False assms d accumulate_digits [of b False "nat i"]
    by (simp add: parse_signed_def show_int_def signed_checked_def signed_def)
qed

lemma read_show_i32 [simp]: "read_i32 (show_i32 x) = Some x"
  using sint_ge [of x] sint_less [of x] by (simp add: read_i32_def show_i32_def parse_i32_def parse_show_int)

lemma show_int_no_nul [simp]: "\<not> has_nul (show_int i)"
  using sign_not_digit by (auto simp: show_int_def has_nul_def)

lemma ascii_utf8: "(\<And>c. c \<in> set s \<Longrightarrow> (of_char c :: nat) \<le> 127) \<Longrightarrow> valid_utf8 s"
  by (induction s) (auto simp: byte_in_def)

lemma show_int_utf8 [simp]: "valid_utf8 (show_int i)"
  by (rule ascii_utf8) (auto simp: show_int_def split: if_splits dest!: digits_ascii)

end
