(* ===== verification/Provider_Config.thy ===== *)
theory Provider_Config
  imports Decimal Dynamic_Options
begin

text \<open>
  st-zrt/src/ep.rs, the values that configure execution providers: \<open>CudaConfig\<close> with its presets
  and setters, the string options \<open>CudaProviderOptions\<close> it turns into, \<open>MigraphxOptions\<close>,
  \<open>OpenvinoOptions\<close>, and the queue entries (\<open>EpConfig\<close>) that session options keep, with the
  checks that keep process-local pointers out of string options. All features of the crate are on.
\<close>

subsection \<open>Key and value lists\<close>

type_synonym entries = "(string \<times> string) list"

fun upsert_string_entry :: "entries \<Rightarrow> string \<Rightarrow> string \<Rightarrow> entries" where
  "upsert_string_entry [] key val = [(key, val)]"
| "upsert_string_entry ((k, v) # es) key val =
     (if k = key then (k, val) # es else (k, v) # upsert_string_entry es key val)"

lemma map_of_upsert [simp]: "map_of (upsert_string_entry es k v) = (map_of es)(k \<mapsto> v)"
  by (induction es k v rule: upsert_string_entry.induct) auto

lemma keys_upsert [simp]: "fst ` set (upsert_string_entry es k v) = insert k (fst ` set es)"
  by (induction es k v rule: upsert_string_entry.induct) auto

lemma distinct_upsert: "distinct (map fst es) \<Longrightarrow> distinct (map fst (upsert_string_entry es k v))"
proof (induction es k v rule: upsert_string_entry.induct)
  case (2 k v es key val)
  then show ?case using keys_upsert [of es key val] by auto
qed simp

lemma set_upsert: "set (upsert_string_entry es k v) \<subseteq> insert (k, v) (set es)"
  by (induction es k v rule: upsert_string_entry.induct) auto

definition no_nul_entries :: "entries \<Rightarrow> bool" where
  "no_nul_entries es \<longleftrightarrow> (\<forall>(k, v) \<in> set es. \<not> has_nul k \<and> \<not> has_nul v)"

text \<open>Pairs of \<open>CString\<close>s, or the error of the first string with a NUL.\<close>

definition cstring_pairs :: "string \<Rightarrow> entries \<Rightarrow> zerror + entries" where
  "cstring_pairs what es = (if no_nul_entries es then Inr es else Inl (local_error what))"

text \<open>The Debug format of a key in a message, its escapes left out.\<close>

definition quoted :: "string \<Rightarrow> string" where
  "quoted s = CHR 0x22 # s @ [CHR 0x22]"

subsection \<open>CUDA options as strings\<close>

datatype ep_provider = Cuda | TensorRt | Rocm | Cann | Dnnl | OpenVinoV2 | VitisAi

datatype cuda_arena_extend_strategy = NextPowerOfTwo | SameAsRequested

datatype cuda_cudnn_conv_algo_search = Exhaustive | Heuristic | Default_search

datatype device_input_policy = DefaultStream | UnifiedStream | UserStream

fun arena_ort_value :: "cuda_arena_extend_strategy \<Rightarrow> string" where
  "arena_ort_value NextPowerOfTwo = ''kNextPowerOfTwo''"
| "arena_ort_value SameAsRequested = ''kSameAsRequested''"

fun search_ort_value :: "cuda_cudnn_conv_algo_search \<Rightarrow> string" where
  "search_ort_value Exhaustive = ''EXHAUSTIVE''"
| "search_ort_value Heuristic = ''HEURISTIC''"
| "search_ort_value Default_search = ''DEFAULT''"

definition reserved_cuda_keys :: "string list" where
  "reserved_cuda_keys = [''device_id'', ''arena_extend_strategy'', ''cudnn_conv_algo_search'', ''use_tf32'',
     ''enable_cuda_graph'', ''enable_skip_layer_norm_strict_mode'', ''do_copy_in_default_stream'',
     ''use_ep_level_unified_stream'', ''gpu_mem_limit'', ''cudnn_conv_use_max_workspace'', ''prefer_nhwc'',
     ''user_compute_stream'', ''gpu_external_alloc'', ''gpu_external_free'', ''gpu_external_empty_cache'']"

definition pointer_cuda_keys :: "string list" where
  "pointer_cuda_keys = [''user_compute_stream'', ''gpu_external_alloc'', ''gpu_external_free'', ''gpu_external_empty_cache'']"

definition is_reserved_cuda_key :: "string \<Rightarrow> bool" where
  "is_reserved_cuda_key key \<longleftrightarrow> List.member reserved_cuda_keys key"

definition is_unsafe_cuda_pointer_key :: "string \<Rightarrow> bool" where
  "is_unsafe_cuda_pointer_key key \<longleftrightarrow> List.member pointer_cuda_keys key"

type_synonym cuda_provider_options = entries

definition cpo_new :: cuda_provider_options where
  "cpo_new = []"

definition cpo_with_raw :: "string \<Rightarrow> string \<Rightarrow> cuda_provider_options \<Rightarrow> zerror + cuda_provider_options" where
  "cpo_with_raw key val es =
     (if is_unsafe_cuda_pointer_key key
      then Inl (local_error ''pointer-valued CUDA options require an explicitly unsafe low-level API'')
      else Inr (upsert_string_entry es key val))"

definition with_raw_unchecked :: "string \<Rightarrow> string \<Rightarrow> cuda_provider_options \<Rightarrow> cuda_provider_options" where
  "with_raw_unchecked key val es = upsert_string_entry es key val"

definition with_bool :: "string \<Rightarrow> bool \<Rightarrow> cuda_provider_options \<Rightarrow> cuda_provider_options" where
  "with_bool key enabled = with_raw_unchecked key (if enabled then ''1'' else ''0'')"

definition cpo_device_id :: "int \<Rightarrow> cuda_provider_options \<Rightarrow> cuda_provider_options" where
  "cpo_device_id i = with_raw_unchecked ''device_id'' (show_int i)"

definition do_copy_in_default_stream :: "bool \<Rightarrow> cuda_provider_options \<Rightarrow> cuda_provider_options" where
  "do_copy_in_default_stream = with_bool ''do_copy_in_default_stream''"

definition use_ep_level_unified_stream :: "bool \<Rightarrow> cuda_provider_options \<Rightarrow> cuda_provider_options" where
  "use_ep_level_unified_stream = with_bool ''use_ep_level_unified_stream''"

definition gpu_mem_limit :: "nat \<Rightarrow> cuda_provider_options \<Rightarrow> cuda_provider_options" where
  "gpu_mem_limit bytes = with_raw_unchecked ''gpu_mem_limit'' (digits bytes)"

definition cpo_arena_extend_strategy :: "cuda_arena_extend_strategy \<Rightarrow> cuda_provider_options \<Rightarrow> cuda_provider_options" where
  "cpo_arena_extend_strategy s = with_raw_unchecked ''arena_extend_strategy'' (arena_ort_value s)"

definition cudnn_conv_algo_search :: "cuda_cudnn_conv_algo_search \<Rightarrow> cuda_provider_options \<Rightarrow> cuda_provider_options" where
  "cudnn_conv_algo_search s = with_raw_unchecked ''cudnn_conv_algo_search'' (search_ort_value s)"

definition cudnn_conv_use_max_workspace :: "bool \<Rightarrow> cuda_provider_options \<Rightarrow> cuda_provider_options" where
  "cudnn_conv_use_max_workspace = with_bool ''cudnn_conv_use_max_workspace''"

definition cudnn_conv1d_pad_to_nc1d :: "bool \<Rightarrow> cuda_provider_options \<Rightarrow> cuda_provider_options" where
  "cudnn_conv1d_pad_to_nc1d = with_bool ''cudnn_conv1d_pad_to_nc1d''"

definition enable_cuda_graph :: "bool \<Rightarrow> cuda_provider_options \<Rightarrow> cuda_provider_options" where
  "enable_cuda_graph = with_bool ''enable_cuda_graph''"

definition enable_skip_layer_norm_strict_mode :: "bool \<Rightarrow> cuda_provider_options \<Rightarrow> cuda_provider_options" where
  "enable_skip_layer_norm_strict_mode = with_bool ''enable_skip_layer_norm_strict_mode''"

definition use_tf32 :: "bool \<Rightarrow> cuda_provider_options \<Rightarrow> cuda_provider_options" where
  "use_tf32 = with_bool ''use_tf32''"

definition cpo_prefer_nhwc :: "bool \<Rightarrow> cuda_provider_options \<Rightarrow> cuda_provider_options" where
  "cpo_prefer_nhwc = with_bool ''prefer_nhwc''"

definition tunable_op_enable :: "bool \<Rightarrow> cuda_provider_options \<Rightarrow> cuda_provider_options" where
  "tunable_op_enable = with_bool ''tunable_op_enable''"

definition tunable_op_tuning_enable :: "bool \<Rightarrow> cuda_provider_options \<Rightarrow> cuda_provider_options" where
  "tunable_op_tuning_enable = with_bool ''tunable_op_tuning_enable''"

definition tunable_op_max_tuning_duration_ms :: "int \<Rightarrow> cuda_provider_options \<Rightarrow> cuda_provider_options" where
  "tunable_op_max_tuning_duration_ms i = with_raw_unchecked ''tunable_op_max_tuning_duration_ms'' (show_int i)"

subsection \<open>The typed configuration\<close>

record cuda_config =
  cc_device_id :: int
  cc_arena :: cuda_arena_extend_strategy
  cc_cudnn_search :: cuda_cudnn_conv_algo_search
  cc_tf32 :: bool
  cc_cuda_graph :: bool
  cc_graph_strict_mode :: bool
  cc_device_inputs :: device_input_policy
  cc_mem_limit :: "nat option"
  cc_cudnn_max_workspace :: bool
  cc_prefer_nhwc :: bool
  cc_extra :: entries
  cc_stream :: "cuda_stream option"

definition performance :: "int \<Rightarrow> cuda_config" where
  "performance device_id = \<lparr>cc_device_id = device_id, cc_arena = NextPowerOfTwo, cc_cudnn_search = Exhaustive,
     cc_tf32 = True, cc_cuda_graph = False, cc_graph_strict_mode = False, cc_device_inputs = DefaultStream,
     cc_mem_limit = None, cc_cudnn_max_workspace = False, cc_prefer_nhwc = False, cc_extra = [], cc_stream = None\<rparr>"

definition low_memory :: "int \<Rightarrow> nat \<Rightarrow> cuda_config" where
  "low_memory device_id limit = (performance device_id)
     \<lparr>cc_arena := SameAsRequested, cc_cudnn_search := Heuristic, cc_mem_limit := Some limit\<rparr>"

definition cuda_graph_replay :: "int \<Rightarrow> cuda_stream \<Rightarrow> zerror + cuda_config" where
  "cuda_graph_replay device_id s =
     (if st_device s \<noteq> device_id
      then Inl (local_error (''CUDA stream belongs to device '' @ show_int (st_device s) @ '', but config targets device '' @ show_int device_id))
      else Inr ((performance device_id)\<lparr>cc_cuda_graph := True, cc_graph_strict_mode := True,
                  cc_device_inputs := UserStream, cc_stream := Some s\<rparr>))"

definition default_cuda_config :: cuda_config where
  "default_cuda_config = performance 0"

definition cc_with_raw :: "string \<Rightarrow> string \<Rightarrow> cuda_config \<Rightarrow> zerror + cuda_config" where
  "cc_with_raw key val c =
     (if is_reserved_cuda_key key
      then Inl (local_error (''CUDA option '' @ quoted key @ '' is typed and cannot be overridden through with_raw''))
      else Inr (c\<lparr>cc_extra := upsert_string_entry (cc_extra c) key val\<rparr>))"

definition with_mem_limit :: "nat \<Rightarrow> cuda_config \<Rightarrow> cuda_config" where
  "with_mem_limit bytes c = c\<lparr>cc_mem_limit := Some bytes\<rparr>"

definition cc_with_cuda_graph :: "bool \<Rightarrow> cuda_config \<Rightarrow> cuda_config" where
  "cc_with_cuda_graph on c = c\<lparr>cc_cuda_graph := on\<rparr>"

definition with_graph_strict_mode :: "bool \<Rightarrow> cuda_config \<Rightarrow> cuda_config" where
  "with_graph_strict_mode on c = c\<lparr>cc_graph_strict_mode := on\<rparr>"

definition with_tf32 :: "bool \<Rightarrow> cuda_config \<Rightarrow> cuda_config" where
  "with_tf32 on c = c\<lparr>cc_tf32 := on\<rparr>"

definition with_cudnn_max_workspace :: "bool \<Rightarrow> cuda_config \<Rightarrow> cuda_config" where
  "with_cudnn_max_workspace on c = c\<lparr>cc_cudnn_max_workspace := on\<rparr>"

definition with_prefer_nhwc :: "bool \<Rightarrow> cuda_config \<Rightarrow> cuda_config" where
  "with_prefer_nhwc on c = c\<lparr>cc_prefer_nhwc := on\<rparr>"

definition with_device_input_policy :: "device_input_policy \<Rightarrow> cuda_config \<Rightarrow> zerror + cuda_config" where
  "with_device_input_policy p c =
     (if p = UserStream \<and> cc_stream c = None
      then Inl (local_error ''DeviceInputPolicy::UserStream requires with_user_stream'')
      else let c' = c\<lparr>cc_device_inputs := p\<rparr>
           in Inr (if p \<noteq> UserStream then c'\<lparr>cc_stream := None\<rparr> else c'))"

definition with_user_stream :: "cuda_stream \<Rightarrow> cuda_config \<Rightarrow> zerror + cuda_config" where
  "with_user_stream s c =
     (if st_device s \<noteq> cc_device_id c
      then Inl (local_error (''CUDA stream belongs to device '' @ show_int (st_device s) @ '', but config targets device '' @ show_int (cc_device_id c)))
      else Inr (c\<lparr>cc_device_inputs := UserStream, cc_stream := Some s\<rparr>))"

definition provider_options :: "cuda_config \<Rightarrow> cuda_provider_options" where
  "provider_options c =
     (let base = cpo_prefer_nhwc (cc_prefer_nhwc c) (cudnn_conv_use_max_workspace (cc_cudnn_max_workspace c)
            (use_tf32 (cc_tf32 c) (enable_skip_layer_norm_strict_mode (cc_graph_strict_mode c)
            (enable_cuda_graph (cc_cuda_graph c) (cudnn_conv_algo_search (cc_cudnn_search c)
            (cpo_arena_extend_strategy (cc_arena c) (cpo_device_id (cc_device_id c) cpo_new)))))));
          streams = (case cc_device_inputs c of
              DefaultStream \<Rightarrow> use_ep_level_unified_stream False (do_copy_in_default_stream True base)
            | UnifiedStream \<Rightarrow> use_ep_level_unified_stream True (do_copy_in_default_stream True base)
            | UserStream \<Rightarrow> use_ep_level_unified_stream False (do_copy_in_default_stream True base));
          limited = (case cc_mem_limit c of None \<Rightarrow> streams | Some n \<Rightarrow> gpu_mem_limit n streams)
      in foldl (\<lambda>es (key, val). with_raw_unchecked key val es) limited (cc_extra c))"

subsection \<open>Queue entries\<close>

record ep_config =
  ec_provider :: ep_provider
  ec_entries :: entries
  ec_requires_owned_cuda_stream :: bool
  ec_cuda_stream :: "cuda_stream option"

definition ep_config_new :: "ep_provider \<Rightarrow> entries \<Rightarrow> zerror + ep_config" where
  "ep_config_new provider es =
     (if provider = Cuda \<and> (\<exists>(key, _) \<in> set es. is_unsafe_cuda_pointer_key key)
      then Inl (local_error ''pointer-valued CUDA options require an explicitly unsafe low-level API'')
      else case cstring_pairs ''ep option key/value contains a NUL byte'' es of
        Inl e \<Rightarrow> Inl e
      | Inr kv \<Rightarrow> Inr \<lparr>ec_provider = provider, ec_entries = kv, ec_requires_owned_cuda_stream = False, ec_cuda_stream = None\<rparr>)"

definition stream_refusal :: "cuda_config \<Rightarrow> string option" where
  "stream_refusal c = (case cc_stream c of
     None \<Rightarrow> Some ''CUDA user-stream configuration is missing its owned stream''
   | Some s \<Rightarrow> if st_device s \<noteq> cc_device_id c then Some ''CUDA user stream belongs to a different device'' else None)"

definition cuda_ep_config :: "cuda_config \<Rightarrow> zerror + ep_config" where
  "cuda_ep_config c =
     (case find (\<lambda>(key, _). is_reserved_cuda_key key) (cc_extra c) of
        Some (key, _) \<Rightarrow> Inl (local_error (''serialized CUDA config illegally overrides typed option '' @ quoted key))
      | None \<Rightarrow>
          case (if cc_device_inputs c = UserStream then stream_refusal c else None) of
            Some m \<Rightarrow> Inl (local_error m)
          | None \<Rightarrow>
              case cstring_pairs ''cuda ep option key/value contains a NUL byte'' (provider_options c) of
                Inl e \<Rightarrow> Inl e
              | Inr es \<Rightarrow> Inr \<lparr>ec_provider = Cuda, ec_entries = es,
                  ec_requires_owned_cuda_stream = (cc_device_inputs c = UserStream), ec_cuda_stream = cc_stream c\<rparr>)"

definition config_stream_guards :: "ep_config list \<Rightarrow> cuda_stream list" where
  "config_stream_guards cs = List.map_filter ec_cuda_stream cs"

definition config_refusal :: "ep_config \<Rightarrow> string option" where
  "config_refusal c =
     (case (if ec_provider c = Cuda
            then find (\<lambda>(key, _). \<not> valid_utf8 key \<or> is_unsafe_cuda_pointer_key key) (ec_entries c) else None) of
        Some (key, _) \<Rightarrow> Some (if \<not> valid_utf8 key then ''CUDA option key is not valid UTF-8''
                              else ''serialized CUDA configuration contains an unsafe pointer option'')
      | None \<Rightarrow>
          if ec_requires_owned_cuda_stream c \<and> ec_cuda_stream c = None
          then Some ''serialized CUDA user-stream configuration requires reattaching an owned stream''
          else None)"

fun validate_configs :: "ep_config list \<Rightarrow> zerror + unit" where
  "validate_configs [] = Inr ()"
| "validate_configs (c # cs) = (case config_refusal c of Some m \<Rightarrow> Inl (local_error m) | None \<Rightarrow> validate_configs cs)"

subsection \<open>What the string options say\<close>

text \<open>
  The configurations that presets and setters can build. Keys and values of \<open>with_raw\<close> are Rust
  strings, hence UTF-8.
\<close>

inductive cuda_built :: "cuda_config \<Rightarrow> bool" where
  "cuda_built (performance d)"
| "cuda_built (low_memory d n)"
| "cuda_graph_replay d s = Inr c \<Longrightarrow> cuda_built c"
| "cuda_built c \<Longrightarrow> valid_utf8 k \<Longrightarrow> valid_utf8 v \<Longrightarrow> cc_with_raw k v c = Inr c' \<Longrightarrow> cuda_built c'"
| "cuda_built c \<Longrightarrow> cuda_built (with_mem_limit n c)"
| "cuda_built c \<Longrightarrow> cuda_built (cc_with_cuda_graph b c)"
| "cuda_built c \<Longrightarrow> cuda_built (with_graph_strict_mode b c)"
| "cuda_built c \<Longrightarrow> cuda_built (with_tf32 b c)"
| "cuda_built c \<Longrightarrow> cuda_built (with_cudnn_max_workspace b c)"
| "cuda_built c \<Longrightarrow> cuda_built (with_prefer_nhwc b c)"
| "cuda_built c \<Longrightarrow> with_device_input_policy p c = Inr c' \<Longrightarrow> cuda_built c'"
| "cuda_built c \<Longrightarrow> with_user_stream s c = Inr c' \<Longrightarrow> cuda_built c'"

definition cuda_config_ok :: "cuda_config \<Rightarrow> bool" where
  "cuda_config_ok c \<longleftrightarrow>
     (cc_device_inputs c = UserStream \<longleftrightarrow> cc_stream c \<noteq> None)
     \<and> (\<forall>s. cc_stream c = Some s \<longrightarrow> st_device s = cc_device_id c)
     \<and> distinct (map fst (cc_extra c))
     \<and> (\<forall>k \<in> fst ` set (cc_extra c). valid_utf8 k \<and> \<not> is_reserved_cuda_key k)"

lemmas cuda_setters = performance_def low_memory_def cuda_graph_replay_def cc_with_raw_def with_mem_limit_def
  cc_with_cuda_graph_def with_graph_strict_mode_def with_tf32_def with_cudnn_max_workspace_def
  with_prefer_nhwc_def with_device_input_policy_def with_user_stream_def

lemma cuda_built_ok: "cuda_built c \<Longrightarrow> cuda_config_ok c"
  by (induction rule: cuda_built.induct)
    (auto simp: cuda_setters cuda_config_ok_def distinct_upsert Let_def split: if_splits dest!: set_upsert [THEN subsetD])

text \<open>The meaning of the typed fields, by key.\<close>

definition typed_options :: "cuda_config \<Rightarrow> string \<rightharpoonup> string" where
  "typed_options c =
     (let flag = (\<lambda>b. if b then ''1'' else ''0'');
          m = [''device_id'' \<mapsto> show_int (cc_device_id c),
               ''arena_extend_strategy'' \<mapsto> arena_ort_value (cc_arena c),
               ''cudnn_conv_algo_search'' \<mapsto> search_ort_value (cc_cudnn_search c),
               ''enable_cuda_graph'' \<mapsto> flag (cc_cuda_graph c),
               ''enable_skip_layer_norm_strict_mode'' \<mapsto> flag (cc_graph_strict_mode c),
               ''use_tf32'' \<mapsto> flag (cc_tf32 c),
               ''cudnn_conv_use_max_workspace'' \<mapsto> flag (cc_cudnn_max_workspace c),
               ''prefer_nhwc'' \<mapsto> flag (cc_prefer_nhwc c),
               ''do_copy_in_default_stream'' \<mapsto> ''1'',
               ''use_ep_level_unified_stream'' \<mapsto> flag (cc_device_inputs c = UnifiedStream)]
      in case cc_mem_limit c of None \<Rightarrow> m | Some n \<Rightarrow> m(''gpu_mem_limit'' \<mapsto> digits n))"

lemmas cuda_option_defs = cpo_new_def with_raw_unchecked_def with_bool_def cpo_device_id_def
  do_copy_in_default_stream_def use_ep_level_unified_stream_def gpu_mem_limit_def
  cpo_arena_extend_strategy_def cudnn_conv_algo_search_def cudnn_conv_use_max_workspace_def
  enable_cuda_graph_def enable_skip_layer_norm_strict_mode_def use_tf32_def cpo_prefer_nhwc_def

lemma map_of_overlay:
  "distinct (map fst xs) \<Longrightarrow> map_of (foldl (\<lambda>es (k, v). with_raw_unchecked k v es) es xs) = map_of es ++ map_of xs"
proof (induction xs arbitrary: es)
  case (Cons x xs)
  obtain k v where x: "x = (k, v)" by fastforce
  have "map_of xs k = None" using Cons.prems by (auto simp: x map_of_eq_None_iff)
  then show ?case using Cons by (auto simp: x with_raw_unchecked_def map_add_def fun_eq_iff split: option.splits)
qed simp

lemma distinct_overlay:
  "distinct (map fst es) \<Longrightarrow> distinct (map fst (foldl (\<lambda>es (k, v). with_raw_unchecked k v es) es xs))"
  by (induction xs arbitrary: es) (auto simp: with_raw_unchecked_def distinct_upsert)

lemma set_overlay: "set (foldl (\<lambda>es (k, v). with_raw_unchecked k v es) es xs) \<subseteq> set es \<union> set xs"
proof (induction xs arbitrary: es)
  case (Cons x xs)
  show ?case using Cons.IH [of "with_raw_unchecked (fst x) (snd x) es"] set_upsert [of es "fst x" "snd x"]
    by (cases x) (auto simp: with_raw_unchecked_def)
qed simp

lemma provider_options_map:
  assumes "distinct (map fst (cc_extra c))"
  shows "map_of (provider_options c) = typed_options c ++ map_of (cc_extra c)"
  unfolding provider_options_def Let_def map_of_overlay [OF assms]
  by (cases "cc_device_inputs c"; cases "cc_mem_limit c") (simp_all add: cuda_option_defs typed_options_def del: upsert_string_entry.simps)

lemma distinct_provider_options: "distinct (map fst (provider_options c))"
  unfolding provider_options_def Let_def
  by (rule distinct_overlay) (auto simp: cuda_option_defs distinct_upsert split: device_input_policy.splits option.splits)

lemma typed_reserved: "typed_options c k \<noteq> None \<Longrightarrow> is_reserved_cuda_key k \<and> \<not> is_unsafe_cuda_pointer_key k"
  by (auto simp: typed_options_def Let_def is_reserved_cuda_key_def reserved_cuda_keys_def
      is_unsafe_cuda_pointer_key_def pointer_cuda_keys_def split: option.splits if_splits)

lemma no_nul_by_map:
  "distinct (map fst es) \<Longrightarrow> no_nul_entries es \<longleftrightarrow> (\<forall>k v. map_of es k = Some v \<longrightarrow> \<not> has_nul k \<and> \<not> has_nul v)"
  by (auto simp: no_nul_entries_def)

lemma reserved_key_text: "is_reserved_cuda_key k \<Longrightarrow> valid_utf8 k \<and> \<not> has_nul k"
  by (auto simp: is_reserved_cuda_key_def reserved_cuda_keys_def has_nul_def intro!: ascii_utf8)

lemma typed_no_nul: "typed_options c k = Some v \<Longrightarrow> \<not> has_nul k \<and> \<not> has_nul v"
proof
  assume t: "typed_options c k = Some v"
  show "\<not> has_nul k" using t typed_reserved [of c k] reserved_key_text by auto
  have "\<not> has_nul (digits n)" for n using sign_not_digit by (simp add: has_nul_def)
  moreover have "\<not> has_nul (arena_ort_value a)" "\<not> has_nul (search_ort_value q)" for a q
    by (cases a; simp add: has_nul_def) (cases q; simp add: has_nul_def)
  moreover have "\<not> has_nul (show_int i)" for i by simp
  moreover have "\<not> has_nul (if b then ''1'' else ''0'')" for b by (simp add: has_nul_def)
  ultimately show "\<not> has_nul v" using t
    by (auto simp: typed_options_def Let_def has_nul_def split: option.splits if_split_asm)
qed

lemma provider_options_no_nul:
  assumes "cuda_config_ok c"
  shows "no_nul_entries (provider_options c) \<longleftrightarrow> no_nul_entries (cc_extra c)"
proof -
  have d: "distinct (map fst (cc_extra c))" using assms by (simp add: cuda_config_ok_def)
  show ?thesis
    unfolding no_nul_by_map [OF d] no_nul_by_map [OF distinct_provider_options] provider_options_map [OF d]
    using typed_no_nul [of c] by (auto simp: map_add_Some_iff)
qed

lemma provider_options_lookup:
  assumes "cuda_config_ok c"
  shows "map_of (provider_options c) k = (if is_reserved_cuda_key k then typed_options c k else map_of (cc_extra c) k)"
proof -
  have d: "distinct (map fst (cc_extra c))" using assms by (simp add: cuda_config_ok_def)
  have "is_reserved_cuda_key k \<Longrightarrow> map_of (cc_extra c) k = None"
    using assms unfolding cuda_config_ok_def by (auto simp: map_of_eq_None_iff)
  moreover have "\<not> is_reserved_cuda_key k \<Longrightarrow> typed_options c k = None" using typed_reserved by blast
  ultimately show ?thesis
    by (auto simp: provider_options_map [OF d] map_add_def split: option.splits)
qed

lemma provider_option_keys:
  assumes "cuda_config_ok c" "(k, v) \<in> set (provider_options c)"
  shows "valid_utf8 k \<and> \<not> is_unsafe_cuda_pointer_key k"
proof -
  have "map_of (provider_options c) k = Some v" using assms(2) distinct_provider_options by simp
  then consider "is_reserved_cuda_key k" "typed_options c k = Some v" | "\<not> is_reserved_cuda_key k" "map_of (cc_extra c) k = Some v"
    by (auto simp: provider_options_lookup [OF assms(1)] split: if_splits)
  then show ?thesis
  proof cases
    case 1
    then show ?thesis using typed_reserved [of c k] reserved_key_text by auto
  next
    case 2
    then have "k \<in> fst ` set (cc_extra c)" by (force dest: map_of_SomeD)
    then have "valid_utf8 k" using assms(1) by (auto simp: cuda_config_ok_def)
    moreover have "\<not> is_unsafe_cuda_pointer_key k" using 2(1)
      by (auto simp: is_reserved_cuda_key_def reserved_cuda_keys_def is_unsafe_cuda_pointer_key_def pointer_cuda_keys_def)
    ultimately show ?thesis by simp
  qed
qed

text \<open>The typed fields as a list, in the order in which the setters are applied; the extras follow.\<close>

definition typed_entries :: "cuda_config \<Rightarrow> entries" where
  "typed_entries c =
     (let flag = (\<lambda>b. if b then ''1'' else ''0'') in
      [(''device_id'', show_int (cc_device_id c)), (''arena_extend_strategy'', arena_ort_value (cc_arena c)),
       (''cudnn_conv_algo_search'', search_ort_value (cc_cudnn_search c)), (''enable_cuda_graph'', flag (cc_cuda_graph c)),
       (''enable_skip_layer_norm_strict_mode'', flag (cc_graph_strict_mode c)), (''use_tf32'', flag (cc_tf32 c)),
       (''cudnn_conv_use_max_workspace'', flag (cc_cudnn_max_workspace c)), (''prefer_nhwc'', flag (cc_prefer_nhwc c)),
       (''do_copy_in_default_stream'', ''1''),
       (''use_ep_level_unified_stream'', flag (cc_device_inputs c = UnifiedStream))]
      @ (case cc_mem_limit c of None \<Rightarrow> [] | Some n \<Rightarrow> [(''gpu_mem_limit'', digits n)]))"

lemma upsert_new: "k \<notin> fst ` set es \<Longrightarrow> upsert_string_entry es k v = es @ [(k, v)]"
  by (induction es) auto

lemma overlay_new:
  "distinct (map fst xs) \<Longrightarrow> fst ` set xs \<inter> fst ` set es = {} \<Longrightarrow> foldl (\<lambda>es (k, v). with_raw_unchecked k v es) es xs = es @ xs"
proof (induction xs arbitrary: es)
  case (Cons x xs)
  obtain k v where x: "x = (k, v)" by fastforce
  have "foldl (\<lambda>es (k, v). with_raw_unchecked k v es) (es @ [(k, v)]) xs = (es @ [(k, v)]) @ xs"
    using Cons.prems by (intro Cons.IH) (auto simp: x)
  moreover have "with_raw_unchecked k v es = es @ [(k, v)]" using Cons.prems by (auto simp: x with_raw_unchecked_def upsert_new)
  ultimately show ?case by (simp add: x)
qed simp

lemma typed_entries_reserved: "k \<in> fst ` set (typed_entries c) \<Longrightarrow> is_reserved_cuda_key k"
  by (auto simp: typed_entries_def Let_def is_reserved_cuda_key_def reserved_cuda_keys_def split: option.splits)

lemma provider_options_in_order:
  assumes "cuda_config_ok c"
  shows "provider_options c = typed_entries c @ cc_extra c"
proof -
  have "provider_options c = foldl (\<lambda>es (k, v). with_raw_unchecked k v es) (typed_entries c) (cc_extra c)"
    unfolding provider_options_def Let_def
    by (cases "cc_device_inputs c"; cases "cc_mem_limit c")
      (simp_all add: cuda_option_defs typed_entries_def del: foldl_Cons)
  also have "\<dots> = typed_entries c @ cc_extra c"
    using assms typed_entries_reserved [of _ c] by (intro overlay_new) (auto simp: cuda_config_ok_def)
  finally show ?thesis .
qed

text \<open>
  C12. A CUDA configuration made with the presets and setters is accepted by \<open>with_cuda\<close> unless an
  extra option has a NUL byte. The queued entry passes the later validation. Its options are the typed
  ones, in the fixed order of \<open>typed_entries\<close>, and after them the extra options in the order in which
  they were first given; every key occurs once, each typed option has the value of its field and each
  extra option its own, none is a pointer-valued key. The stream is kept exactly if the policy is
  \<open>UserStream\<close>, and it is on the configured device.
\<close>

theorem cuda_config_exact:
  assumes "cuda_built c"
  shows "if no_nul_entries (cc_extra c)
    then \<exists>cfg. cuda_ep_config c = Inr cfg \<and> ec_provider cfg = Cuda \<and> config_refusal cfg = None
      \<and> ec_entries cfg = typed_entries c @ cc_extra c
      \<and> distinct (map fst (ec_entries cfg))
      \<and> (\<forall>k. map_of (ec_entries cfg) k = (if is_reserved_cuda_key k then typed_options c k else map_of (cc_extra c) k))
      \<and> (\<forall>(k, v) \<in> set (ec_entries cfg). \<not> is_unsafe_cuda_pointer_key k)
      \<and> ec_cuda_stream cfg = cc_stream c \<and> (cc_stream c \<noteq> None \<longleftrightarrow> cc_device_inputs c = UserStream)
      \<and> (\<forall>s. cc_stream c = Some s \<longrightarrow> st_device s = cc_device_id c)
    else cuda_ep_config c = Inl (local_error ''cuda ep option key/value contains a NUL byte'')"
proof -
  have ok: "cuda_config_ok c" using assms by (rule cuda_built_ok)
  have extra: "find (\<lambda>(key, _). is_reserved_cuda_key key) (cc_extra c) = None"
    using ok by (force simp: find_None_iff cuda_config_ok_def)
  have stream: "(if cc_device_inputs c = UserStream then stream_refusal c else None) = None"
    using ok by (auto simp: cuda_config_ok_def stream_refusal_def split: option.splits)
  have keys: "find (\<lambda>(key, _). \<not> valid_utf8 key \<or> is_unsafe_cuda_pointer_key key) (provider_options c) = None"
    using provider_option_keys [OF ok] by (fastforce simp: find_None_iff)
  show ?thesis
  proof (cases "no_nul_entries (cc_extra c)")
    case True
    let ?cfg = "\<lparr>ec_provider = Cuda, ec_entries = provider_options c,
                  ec_requires_owned_cuda_stream = (cc_device_inputs c = UserStream), ec_cuda_stream = cc_stream c\<rparr>"
    have "cuda_ep_config c = Inr ?cfg"
      using True by (simp add: cuda_ep_config_def extra stream cstring_pairs_def provider_options_no_nul [OF ok])
    moreover have "config_refusal ?cfg = None" using ok by (auto simp: config_refusal_def keys [simplified] cuda_config_ok_def)
    moreover have "\<forall>(k, v) \<in> set (ec_entries ?cfg). \<not> is_unsafe_cuda_pointer_key k" using provider_option_keys [OF ok] by fastforce
    ultimately show ?thesis using True ok distinct_provider_options [of c]
      by (intro if_P [THEN iffD2]) (auto simp: provider_options_lookup [OF ok] provider_options_in_order [OF ok, symmetric] cuda_config_ok_def)
  next
    case False
    then show ?thesis by (simp add: cuda_ep_config_def extra stream cstring_pairs_def provider_options_no_nul [OF ok])
  qed
qed

definition sample_stream :: cuda_stream where
  "sample_stream = \<lparr>st_number = 7, st_device = 0\<rparr>"

definition sample_cuda_config :: cuda_config where
  "sample_cuda_config = (performance 0)\<lparr>cc_cuda_graph := True, cc_graph_strict_mode := True,
     cc_device_inputs := UserStream, cc_stream := Some sample_stream, cc_extra := [(''sdpa_kernel'', ''2'')]\<rparr>"

lemma sample_built: "cuda_built sample_cuda_config"
proof -
  let ?c = "(performance 0)\<lparr>cc_cuda_graph := True, cc_graph_strict_mode := True,
     cc_device_inputs := UserStream, cc_stream := Some sample_stream\<rparr>"
  have "cuda_graph_replay 0 sample_stream = Inr ?c" by (simp add: cuda_graph_replay_def sample_stream_def)
  then have "cuda_built ?c" by (rule cuda_built.intros)
  moreover have "valid_utf8 ''sdpa_kernel''" "valid_utf8 ''2''" by (simp_all add: byte_in_def)
  moreover have "cc_with_raw ''sdpa_kernel'' ''2'' ?c = Inr sample_cuda_config"
    by (simp add: cc_with_raw_def sample_cuda_config_def performance_def is_reserved_cuda_key_def reserved_cuda_keys_def)
  ultimately show ?thesis by (rule cuda_built.intros)
qed

theorem cuda_config_exact_witness:
  "\<exists>cfg. cuda_ep_config sample_cuda_config = Inr cfg \<and> config_refusal cfg = None
     \<and> map_of (ec_entries cfg) ''enable_cuda_graph'' = Some ''1'' \<and> map_of (ec_entries cfg) ''sdpa_kernel'' = Some ''2''
     \<and> ec_cuda_stream cfg = Some sample_stream"
proof -
  have "no_nul_entries (cc_extra sample_cuda_config)" by (simp add: sample_cuda_config_def no_nul_entries_def has_nul_def)
  moreover have "typed_options sample_cuda_config ''enable_cuda_graph'' = Some ''1''"
    by (simp add: typed_options_def sample_cuda_config_def performance_def)
  moreover have "is_reserved_cuda_key ''enable_cuda_graph''" "\<not> is_reserved_cuda_key ''sdpa_kernel''"
    by (simp_all add: is_reserved_cuda_key_def reserved_cuda_keys_def)
  moreover have "map_of (cc_extra sample_cuda_config) ''sdpa_kernel'' = Some ''2''"
    "cc_stream sample_cuda_config = Some sample_stream" by (simp_all add: sample_cuda_config_def)
  ultimately show ?thesis using cuda_config_exact [OF sample_built] by auto
qed

subsection \<open>Providers configured by a flat structure\<close>

record migraphx_options =
  mg_device_id :: int
  mg_fp16_enable :: int
  mg_fp8_enable :: int
  mg_int8_enable :: int
  mg_use_native_calibration_table :: int
  mg_int8_calibration_table_name :: "string option"
  mg_save_compiled_model :: int
  mg_save_model_path :: "string option"
  mg_load_compiled_model :: int
  mg_load_model_path :: "string option"
  mg_exhaustive_tune :: bool
  mg_mem_limit :: nat
  mg_arena_extend_strategy :: int

definition migraphx_new :: migraphx_options where
  "migraphx_new = \<lparr>mg_device_id = 0, mg_fp16_enable = 0, mg_fp8_enable = 0, mg_int8_enable = 0,
     mg_use_native_calibration_table = 0, mg_int8_calibration_table_name = None, mg_save_compiled_model = 0,
     mg_save_model_path = None, mg_load_compiled_model = 0, mg_load_model_path = None, mg_exhaustive_tune = False,
     mg_mem_limit = usize_max, mg_arena_extend_strategy = 0\<rparr>"

definition mg_device :: "int \<Rightarrow> migraphx_options \<Rightarrow> migraphx_options" where
  "mg_device i m = m\<lparr>mg_device_id := i\<rparr>"

definition mg_fp16 :: "bool \<Rightarrow> migraphx_options \<Rightarrow> migraphx_options" where
  "mg_fp16 on m = m\<lparr>mg_fp16_enable := of_bool on\<rparr>"

definition mg_fp8 :: "bool \<Rightarrow> migraphx_options \<Rightarrow> migraphx_options" where
  "mg_fp8 on m = m\<lparr>mg_fp8_enable := of_bool on\<rparr>"

definition mg_int8 :: "bool \<Rightarrow> migraphx_options \<Rightarrow> migraphx_options" where
  "mg_int8 on m = m\<lparr>mg_int8_enable := of_bool on\<rparr>"

definition mg_int8_calibration_table :: "string \<Rightarrow> migraphx_options \<Rightarrow> migraphx_options option" where
  "mg_int8_calibration_table path m = map_option (\<lambda>p. m\<lparr>mg_int8_calibration_table_name := Some p\<rparr>) (cstring_new path)"

definition mg_save_to :: "string \<Rightarrow> migraphx_options \<Rightarrow> migraphx_options option" where
  "mg_save_to path m = map_option (\<lambda>p. m\<lparr>mg_save_model_path := Some p, mg_save_compiled_model := 1\<rparr>) (cstring_new path)"

definition mg_load_from :: "string \<Rightarrow> migraphx_options \<Rightarrow> migraphx_options option" where
  "mg_load_from path m = map_option (\<lambda>p. m\<lparr>mg_load_model_path := Some p, mg_load_compiled_model := 1\<rparr>) (cstring_new path)"

definition mg_exhaustive :: "bool \<Rightarrow> migraphx_options \<Rightarrow> migraphx_options" where
  "mg_exhaustive on m = m\<lparr>mg_exhaustive_tune := on\<rparr>"

definition mg_limit :: "nat \<Rightarrow> migraphx_options \<Rightarrow> migraphx_options" where
  "mg_limit n m = m\<lparr>mg_mem_limit := n\<rparr>"

definition mg_arena :: "int \<Rightarrow> migraphx_options \<Rightarrow> migraphx_options" where
  "mg_arena i m = m\<lparr>mg_arena_extend_strategy := i\<rparr>"

record openvino_options =
  ov_device_type :: "string option"
  ov_enable_npu_fast_compile :: nat
  ov_device_id :: "string option"
  ov_num_of_threads :: nat
  ov_cache_dir :: "string option"
  ov_enable_opencl_throttling :: nat
  ov_enable_dynamic_shapes :: nat

definition openvino_new :: openvino_options where
  "openvino_new = \<lparr>ov_device_type = None, ov_enable_npu_fast_compile = 0, ov_device_id = None, ov_num_of_threads = 0,
     ov_cache_dir = None, ov_enable_opencl_throttling = 0, ov_enable_dynamic_shapes = 0\<rparr>"

definition ov_with_device_type :: "string \<Rightarrow> openvino_options \<Rightarrow> openvino_options option" where
  "ov_with_device_type t m = map_option (\<lambda>p. m\<lparr>ov_device_type := Some p\<rparr>) (cstring_new t)"

definition ov_npu_fast_compile :: "bool \<Rightarrow> openvino_options \<Rightarrow> openvino_options" where
  "ov_npu_fast_compile on m = m\<lparr>ov_enable_npu_fast_compile := of_bool on\<rparr>"

definition ov_with_device_id :: "string \<Rightarrow> openvino_options \<Rightarrow> openvino_options option" where
  "ov_with_device_id t m = map_option (\<lambda>p. m\<lparr>ov_device_id := Some p\<rparr>) (cstring_new t)"

definition ov_threads :: "nat \<Rightarrow> openvino_options \<Rightarrow> openvino_options" where
  "ov_threads n m = m\<lparr>ov_num_of_threads := n\<rparr>"

definition ov_with_cache_dir :: "string \<Rightarrow> openvino_options \<Rightarrow> openvino_options option" where
  "ov_with_cache_dir t m = map_option (\<lambda>p. m\<lparr>ov_cache_dir := Some p\<rparr>) (cstring_new t)"

definition ov_opencl_throttling :: "bool \<Rightarrow> openvino_options \<Rightarrow> openvino_options" where
  "ov_opencl_throttling on m = m\<lparr>ov_enable_opencl_throttling := of_bool on\<rparr>"

definition ov_dynamic_shapes :: "bool \<Rightarrow> openvino_options \<Rightarrow> openvino_options" where
  "ov_dynamic_shapes on m = m\<lparr>ov_enable_dynamic_shapes := of_bool on\<rparr>"

text \<open>The configurations that the MIGraphX builder can make.\<close>

inductive migraphx_built :: "migraphx_options \<Rightarrow> bool" where
  "migraphx_built migraphx_new"
| "migraphx_built m \<Longrightarrow> migraphx_built (mg_device i m)"
| "migraphx_built m \<Longrightarrow> migraphx_built (mg_fp16 b m)"
| "migraphx_built m \<Longrightarrow> migraphx_built (mg_fp8 b m)"
| "migraphx_built m \<Longrightarrow> migraphx_built (mg_int8 b m)"
| "migraphx_built m \<Longrightarrow> mg_int8_calibration_table p m = Some m' \<Longrightarrow> migraphx_built m'"
| "migraphx_built m \<Longrightarrow> mg_save_to p m = Some m' \<Longrightarrow> migraphx_built m'"
| "migraphx_built m \<Longrightarrow> mg_load_from p m = Some m' \<Longrightarrow> migraphx_built m'"
| "migraphx_built m \<Longrightarrow> migraphx_built (mg_exhaustive b m)"
| "migraphx_built m \<Longrightarrow> migraphx_built (mg_limit n m)"
| "migraphx_built m \<Longrightarrow> migraphx_built (mg_arena i m)"

lemmas migraphx_defs = migraphx_new_def mg_device_def mg_fp16_def mg_fp8_def mg_int8_def
  mg_int8_calibration_table_def mg_save_to_def mg_load_from_def mg_exhaustive_def mg_limit_def mg_arena_def

text \<open>
  A path is passed for saving and loading together with its flag. The flag of the native
  calibration table stays 0 whatever the builder did, also after \<open>int8_calibration_table\<close>.
\<close>

lemma migraphx_flags:
  "migraphx_built m \<Longrightarrow> mg_use_native_calibration_table m = 0
     \<and> (mg_save_model_path m \<noteq> None \<longleftrightarrow> mg_save_compiled_model m = 1)
     \<and> (mg_load_model_path m \<noteq> None \<longleftrightarrow> mg_load_compiled_model m = 1)"
  by (induction rule: migraphx_built.induct) (auto simp: migraphx_defs)

end
