(* ===== verification/Session_Options.thy ===== *)
theory Session_Options
  imports Provider_Config
begin

text \<open>
  st-zrt/src/session_options.rs: \<open>SessionOptions\<close>, a plain value whose setters do nothing native,
  and its materialization as a handle of ONNX Runtime (\<open>build_handle_inner\<close>), with the queries that
  build a handle, ask it one question and release it; from st-zrt/src/ep.rs the application of
  queued providers, from st-zrt/src/ep_device.rs that of attached devices, and from
  st-zrt/src/session.rs \<open>build_session_options_for_env\<close>. Function pointers and other opaque
  addresses are numbers.
\<close>

datatype arena_state = Arena_Default | Arena_Enabled | Arena_Disabled

datatype mem_pattern_state = Pattern_Default | Pattern_Enabled | Pattern_Disabled

record ep_device_attach =
  at_devices :: "nat list"
  at_options :: entries
  at_env :: "nat option"

record session_options =
  so_opt_level :: int
  so_intra_threads :: "int option"
  so_inter_threads :: "int option"
  so_execution_mode :: "int option"
  so_log_id :: "string option"
  so_log_severity :: "int option"
  so_log_verbosity :: "int option"
  so_user_logger :: "nat option"
  so_cpu_mem_arena :: arena_state
  so_mem_pattern :: mem_pattern_state
  so_use_global_thread_pool :: bool
  so_profiling_prefix :: "string option"
  so_free_dims :: "(string \<times> int) list"
  so_free_dims_by_name :: "(string \<times> int) list"
  so_config_entries :: entries
  so_ep_selection_policy :: "int option"
  so_ep_configs :: "ep_config list"
  so_migraphx :: "migraphx_options list"
  so_openvino :: "openvino_options list"
  so_ep_device_attach :: "ep_device_attach list"
  so_custom_op_domains :: "nat list"
  so_enable_ort_custom_ops :: bool
  so_custom_op_libraries :: "string list"
  so_custom_op_libraries_v1 :: "string list"
  so_custom_op_functions :: "string list"
  so_optimized_model_file_path :: "string option"
  so_deterministic_compute :: "bool option"
  so_load_cancellation_flag :: "bool option"
  so_custom_create_thread_fn :: "nat option"
  so_custom_join_thread_fn :: "nat option"
  so_custom_thread_creation_options :: nat
  so_ep_selection_delegate :: "nat option"
  so_ep_selection_delegate_state :: nat

definition session_options_new :: session_options where
  "session_options_new = \<lparr>so_opt_level = 99, so_intra_threads = None, so_inter_threads = None, so_execution_mode = None,
     so_log_id = None, so_log_severity = None, so_log_verbosity = None, so_user_logger = None,
     so_cpu_mem_arena = Arena_Default, so_mem_pattern = Pattern_Default, so_use_global_thread_pool = True,
     so_profiling_prefix = None, so_free_dims = [], so_free_dims_by_name = [], so_config_entries = [],
     so_ep_selection_policy = None, so_ep_configs = [], so_migraphx = [], so_openvino = [], so_ep_device_attach = [],
     so_custom_op_domains = [], so_enable_ort_custom_ops = False, so_custom_op_libraries = [],
     so_custom_op_libraries_v1 = [], so_custom_op_functions = [], so_optimized_model_file_path = None,
     so_deterministic_compute = None, so_load_cancellation_flag = None, so_custom_create_thread_fn = None,
     so_custom_join_thread_fn = None, so_custom_thread_creation_options = 0, so_ep_selection_delegate = None,
     so_ep_selection_delegate_state = 0\<rparr>"

subsection \<open>Setters\<close>

text \<open>Setters that take a string refuse a NUL byte (\<open>None\<close> stands for the \<open>NulError\<close>).\<close>

definition so_with_log_id :: "string \<Rightarrow> session_options \<Rightarrow> session_options option" where
  "so_with_log_id s so = map_option (\<lambda>c. so\<lparr>so_log_id := Some c\<rparr>) (cstring_new s)"

definition so_enable_profiling :: "string \<Rightarrow> session_options \<Rightarrow> session_options option" where
  "so_enable_profiling s so = map_option (\<lambda>c. so\<lparr>so_profiling_prefix := Some c\<rparr>) (cstring_new s)"

definition so_disable_profiling :: "session_options \<Rightarrow> session_options" where
  "so_disable_profiling so = so\<lparr>so_profiling_prefix := None\<rparr>"

definition with_free_dimension_override :: "string \<Rightarrow> int \<Rightarrow> session_options \<Rightarrow> session_options option" where
  "with_free_dimension_override s n so = map_option (\<lambda>c. so\<lparr>so_free_dims := so_free_dims so @ [(c, n)]\<rparr>) (cstring_new s)"

definition with_free_dimension_override_by_name :: "string \<Rightarrow> int \<Rightarrow> session_options \<Rightarrow> session_options option" where
  "with_free_dimension_override_by_name s n so =
     map_option (\<lambda>c. so\<lparr>so_free_dims_by_name := so_free_dims_by_name so @ [(c, n)]\<rparr>) (cstring_new s)"

definition bool_config_value :: "bool \<Rightarrow> string" where
  "bool_config_value enabled = (if enabled then ''1'' else ''0'')"

definition so_with_config_entry :: "string \<Rightarrow> string \<Rightarrow> session_options \<Rightarrow> session_options option" where
  "so_with_config_entry key val so =
     (case cstring_new key of None \<Rightarrow> None
      | Some k \<Rightarrow> map_option (\<lambda>v. so\<lparr>so_config_entries := so_config_entries so @ [(k, v)]\<rparr>) (cstring_new val))"

definition with_intra_op_spinning :: "bool \<Rightarrow> session_options \<Rightarrow> session_options option" where
  "with_intra_op_spinning on = so_with_config_entry ''session.intra_op.allow_spinning'' (bool_config_value on)"

definition with_inter_op_spinning :: "bool \<Rightarrow> session_options \<Rightarrow> session_options option" where
  "with_inter_op_spinning on = so_with_config_entry ''session.inter_op.allow_spinning'' (bool_config_value on)"

definition with_execution_provider :: "ep_provider \<Rightarrow> entries \<Rightarrow> session_options \<Rightarrow> zerror + session_options" where
  "with_execution_provider p es so = (case ep_config_new p es of Inl e \<Rightarrow> Inl e
     | Inr c \<Rightarrow> Inr (so\<lparr>so_ep_configs := so_ep_configs so @ [c]\<rparr>))"

definition with_cuda :: "cuda_config \<Rightarrow> session_options \<Rightarrow> zerror + session_options" where
  "with_cuda cfg so = (case cuda_ep_config cfg of Inl e \<Rightarrow> Inl e
     | Inr c \<Rightarrow> Inr (so\<lparr>so_ep_configs := so_ep_configs so @ [c]\<rparr>))"

definition with_migraphx :: "migraphx_options \<Rightarrow> session_options \<Rightarrow> session_options" where
  "with_migraphx m so = so\<lparr>so_migraphx := so_migraphx so @ [m]\<rparr>"

definition with_openvino :: "openvino_options \<Rightarrow> session_options \<Rightarrow> session_options" where
  "with_openvino m so = so\<lparr>so_openvino := so_openvino so @ [m]\<rparr>"

definition cuda_stream_guards :: "session_options \<Rightarrow> cuda_stream list" where
  "cuda_stream_guards so = config_stream_guards (so_ep_configs so)"

definition validate_cuda_stream_guards :: "session_options \<Rightarrow> zerror + unit" where
  "validate_cuda_stream_guards so = validate_configs (so_ep_configs so)"

text \<open>
  A discovered device is its pointer, the environment it came from and its provider's name, which
  is read when the devices are queued and may not be UTF-8.
\<close>

record ep_device =
  dv_ptr :: nat
  dv_env :: nat
  dv_name :: "zerror + string"

fun same_ep_name :: "string \<Rightarrow> ep_device list \<Rightarrow> zerror + unit" where
  "same_ep_name name [] = Inr ()"
| "same_ep_name name (d # ds) = (case dv_name d of Inl e \<Rightarrow> Inl e
     | Inr n \<Rightarrow> if n \<noteq> name then Inl (local_error ''execution-provider devices must belong to the same execution provider'')
               else same_ep_name name ds)"

definition append_execution_provider_device :: "ep_device list \<Rightarrow> entries \<Rightarrow> session_options \<Rightarrow> zerror + session_options" where
  "append_execution_provider_device devices opts so =
     (case cstring_pairs ''ep device option key/value contains a NUL byte'' opts of Inl e \<Rightarrow> Inl e | Inr kv \<Rightarrow>
        case devices of [] \<Rightarrow> Inl (local_error ''at least one execution-provider device is required'') | d # ds \<Rightarrow>
          if \<exists>d' \<in> set devices. dv_env d' \<noteq> dv_env d
          then Inl (local_error ''execution-provider devices must belong to the same Environment'')
          else case dv_name d of Inl e \<Rightarrow> Inl e | Inr name \<Rightarrow>
            case same_ep_name name ds of Inl e \<Rightarrow> Inl e | Inr _ \<Rightarrow>
              Inr (so\<lparr>so_ep_device_attach := so_ep_device_attach so @
                   [\<lparr>at_devices = map dv_ptr devices, at_options = kv, at_env = Some (dv_env d)\<rparr>]\<rparr>))"

definition append_ep_device :: "nat \<Rightarrow> entries \<Rightarrow> session_options \<Rightarrow> zerror + session_options" where
  "append_ep_device device opts so =
     (case cstring_pairs ''ep device option key/value contains a NUL byte'' opts of Inl e \<Rightarrow> Inl e | Inr kv \<Rightarrow>
        Inr (so\<lparr>so_ep_device_attach := so_ep_device_attach so @ [\<lparr>at_devices = [device], at_options = kv, at_env = None\<rparr>]\<rparr>))"

subsection \<open>Applying execution providers\<close>

text \<open>The entries of the function table that belong to a provider with an options handle.\<close>

record provider_functions =
  pf_kind :: handle_kind
  pf_create :: string
  pf_update :: string
  pf_as_string :: string
  pf_append :: string

definition cuda_functions :: provider_functions where
  "cuda_functions = \<lparr>pf_kind = Cuda_options_handle, pf_create = ''create_cuda_provider_options'',
     pf_update = ''update_cuda_provider_options'', pf_as_string = ''get_cuda_provider_options_as_string'',
     pf_append = ''session_options_append_execution_provider_cuda_v2''\<rparr>"

definition tensor_rt_functions :: provider_functions where
  "tensor_rt_functions = \<lparr>pf_kind = TensorRt_options_handle, pf_create = ''create_tensor_rt_provider_options'',
     pf_update = ''update_tensor_rt_provider_options'', pf_as_string = ''get_tensor_rt_provider_options_as_string'',
     pf_append = ''session_options_append_execution_provider__tensor_rt_v2''\<rparr>"

definition rocm_functions :: provider_functions where
  "rocm_functions = \<lparr>pf_kind = Rocm_options_handle, pf_create = ''create_rocm_provider_options'',
     pf_update = ''update_rocm_provider_options'', pf_as_string = ''get_rocm_provider_options_as_string'',
     pf_append = ''session_options_append_execution_provider_rocm''\<rparr>"

definition cann_functions :: provider_functions where
  "cann_functions = \<lparr>pf_kind = Cann_options_handle, pf_create = ''create_cann_provider_options'',
     pf_update = ''update_cann_provider_options'', pf_as_string = ''get_cann_provider_options_as_string'',
     pf_append = ''session_options_append_execution_provider_cann''\<rparr>"

definition dnnl_functions :: provider_functions where
  "dnnl_functions = \<lparr>pf_kind = Dnnl_options_handle, pf_create = ''create_dnnl_provider_options'',
     pf_update = ''update_dnnl_provider_options'', pf_as_string = ''get_dnnl_provider_options_as_string'',
     pf_append = ''session_options_append_execution_provider__dnnl''\<rparr>"

definition ep_options_new :: "'n c_api \<Rightarrow> provider_functions \<Rightarrow> entries \<Rightarrow> ('n, handle) native_op" where
  "ep_options_new api f es =
     and_then (create_handle api (pf_kind f) (pf_create f) [] ''execution provider options'') (\<lambda>h.
       or_release api h
         (and_then (lift_result (cstring_pairs ''ep option key/value contains a NUL byte'' es)) (\<lambda>kv.
          and_then (status api (pf_update f) [A_handle h, A_pairs kv]) (\<lambda>_. give h))))"

definition ep_options_as_string :: "'n c_api \<Rightarrow> provider_functions \<Rightarrow> handle \<Rightarrow> ('n, string) native_op" where
  "ep_options_as_string api f h =
     and_then (default_allocator api) (\<lambda>_.
     and_then (create_ptr api Engine_text (pf_as_string f) [A_handle h]) (\<lambda>raw.
       case raw of None \<Rightarrow> give ''''
       | Some t \<Rightarrow> (\<lambda>w. let s = cstr_to_string (c_chars api t (engine w)) ''execution provider options'' in
           and_then (free_text api t) (\<lambda>_. lift_result s) w)))"

definition ep_options_append :: "'n c_api \<Rightarrow> provider_functions \<Rightarrow> handle \<Rightarrow> handle \<Rightarrow> ('n, unit) native_op" where
  "ep_options_append api f opts h = status api (pf_append f) [A_handle opts, A_handle h]"

definition update_with_value :: "'n c_api \<Rightarrow> handle \<Rightarrow> string \<Rightarrow> nat \<Rightarrow> ('n, unit) native_op" where
  "update_with_value api h key ptr =
     (case cstring_new key of None \<Rightarrow> raise (local_error ''ep option key contains a NUL byte'')
      | Some k \<Rightarrow> status api ''update_cuda_provider_options_with_value'' [A_handle h, A_text k, A_ptr ptr])"

definition append_kv :: "'n c_api \<Rightarrow> string \<Rightarrow> handle \<Rightarrow> entries \<Rightarrow> ('n, unit) native_op" where
  "append_kv api f opts es = status api f [A_handle opts, A_pairs es]"

definition all_utf8 :: "entries \<Rightarrow> bool" where
  "all_utf8 es \<longleftrightarrow> (\<forall>(k, v) \<in> set es. valid_utf8 k \<and> valid_utf8 v)"

text \<open>The options object of a provider lives until the end of the append.\<close>

definition append_with_handle :: "'n c_api \<Rightarrow> provider_functions \<Rightarrow> handle \<Rightarrow> entries \<Rightarrow> (handle \<Rightarrow> ('n, unit) native_op)
    \<Rightarrow> ('n, unit) native_op" where
  "append_with_handle api f opts es extra =
     and_then (ep_options_new api f es) (\<lambda>h.
       then_release api h (and_then (extra h) (\<lambda>_. ep_options_append api f opts h)))"

definition apply_ep :: "'n c_api \<Rightarrow> handle \<Rightarrow> ep_config \<Rightarrow> ('n, unit) native_op" where
  "apply_ep api opts c =
     (if \<not> all_utf8 (ec_entries c) then raise (local_error ''ep option entry is not UTF-8'')
      else case ec_provider c of
        Cuda \<Rightarrow> append_with_handle api cuda_functions opts (ec_entries c) (\<lambda>h.
          if_some (ec_cuda_stream c) (\<lambda>s. update_with_value api h ''user_compute_stream'' (st_number s)))
      | TensorRt \<Rightarrow> append_with_handle api tensor_rt_functions opts (ec_entries c) (\<lambda>_. give ())
      | Rocm \<Rightarrow> append_with_handle api rocm_functions opts (ec_entries c) (\<lambda>_. give ())
      | Cann \<Rightarrow> append_with_handle api cann_functions opts (ec_entries c) (\<lambda>_. give ())
      | Dnnl \<Rightarrow> append_with_handle api dnnl_functions opts (ec_entries c) (\<lambda>_. give ())
      | OpenVinoV2 \<Rightarrow> append_kv api ''session_options_append_execution_provider__open_vino_v2'' opts (ec_entries c)
      | VitisAi \<Rightarrow> append_kv api ''session_options_append_execution_provider__vitis_ai'' opts (ec_entries c))"

definition migraphx_append :: "'n c_api \<Rightarrow> handle \<Rightarrow> migraphx_options \<Rightarrow> ('n, unit) native_op" where
  "migraphx_append api opts m = status api ''session_options_append_execution_provider_mi_graph_x''
     [A_handle opts, A_int (mg_device_id m), A_int (mg_fp16_enable m), A_int (mg_fp8_enable m), A_int (mg_int8_enable m),
      A_int (mg_use_native_calibration_table m), A_opt_text (mg_int8_calibration_table_name m),
      A_int (mg_save_compiled_model m), A_opt_text (mg_save_model_path m), A_int (mg_load_compiled_model m),
      A_opt_text (mg_load_model_path m), A_bool (mg_exhaustive_tune m), A_int (int (mg_mem_limit m)),
      A_int (mg_arena_extend_strategy m)]"

definition openvino_append :: "'n c_api \<Rightarrow> handle \<Rightarrow> openvino_options \<Rightarrow> ('n, unit) native_op" where
  "openvino_append api opts m = status api ''session_options_append_execution_provider__open_vino''
     [A_handle opts, A_opt_text (ov_device_type m), A_int (int (ov_enable_npu_fast_compile m)), A_opt_text (ov_device_id m),
      A_int (int (ov_num_of_threads m)), A_opt_text (ov_cache_dir m), A_null,
      A_int (int (ov_enable_opencl_throttling m)), A_int (int (ov_enable_dynamic_shapes m))]"

subsection \<open>Materialization\<close>

definition set_arena :: "'n c_api \<Rightarrow> handle \<Rightarrow> arena_state \<Rightarrow> ('n, unit) native_op" where
  "set_arena api h a = (case a of Arena_Default \<Rightarrow> give ()
     | Arena_Enabled \<Rightarrow> status api ''enable_cpu_mem_arena'' [A_handle h]
     | Arena_Disabled \<Rightarrow> status api ''disable_cpu_mem_arena'' [A_handle h])"

definition set_mem_pattern :: "'n c_api \<Rightarrow> handle \<Rightarrow> mem_pattern_state \<Rightarrow> ('n, unit) native_op" where
  "set_mem_pattern api h p = (case p of Pattern_Default \<Rightarrow> give ()
     | Pattern_Enabled \<Rightarrow> status api ''enable_mem_pattern'' [A_handle h]
     | Pattern_Disabled \<Rightarrow> status api ''disable_mem_pattern'' [A_handle h])"

definition set_profiling :: "'n c_api \<Rightarrow> handle \<Rightarrow> string option \<Rightarrow> ('n, unit) native_op" where
  "set_profiling api h p = (case p of None \<Rightarrow> status api ''disable_profiling'' [A_handle h]
     | Some prefix \<Rightarrow> status api ''enable_profiling'' [A_handle h, A_text prefix])"

text \<open>
  The first version of \<open>RegisterCustomOpsLibrary\<close> hands out the handle of the loaded library, which is
  dropped on the floor so that the library stays loaded. The logger of the options is shared: one more
  reference to its slot is handed to the engine with \<open>Arc::into_raw\<close> and never taken back.
\<close>

definition register_library_v1 :: "'n c_api \<Rightarrow> handle \<Rightarrow> string \<Rightarrow> ('n, unit) native_op" where
  "register_library_v1 api h path =
     and_then (create_ptr api Library_handle ''register_custom_ops_library'' [A_handle h, A_text path]) (\<lambda>l. if_some l give_up)"

definition attach_user_logger :: "'n c_api \<Rightarrow> handle \<Rightarrow> nat \<Rightarrow> ('n, unit) native_op" where
  "attach_user_logger api h slot =
     and_then (leak_reference (Logger_slot, slot)) (\<lambda>_. status api ''set_user_logging_function'' [A_handle h, A_ptr slot])"

text \<open>The body of \<open>build_handle_inner\<close>, setting by setting.\<close>

definition configure_steps :: "'n c_api \<Rightarrow> session_options \<Rightarrow> bool \<Rightarrow> handle \<Rightarrow> ('n, unit) native_op list" where
  "configure_steps api so attach_logger h = [
     status api ''set_session_graph_optimization_level'' [A_handle h, A_int (so_opt_level so)],
     if_some (so_intra_threads so) (\<lambda>n. status api ''set_intra_op_num_threads'' [A_handle h, A_int n]),
     if_some (so_inter_threads so) (\<lambda>n. status api ''set_inter_op_num_threads'' [A_handle h, A_int n]),
     if_some (so_execution_mode so) (\<lambda>m. status api ''set_session_execution_mode'' [A_handle h, A_int m]),
     if_some (so_log_id so) (\<lambda>s. status api ''set_session_log_id'' [A_handle h, A_text s]),
     if_some (so_log_severity so) (\<lambda>n. status api ''set_session_log_severity_level'' [A_handle h, A_int n]),
     if_some (so_log_verbosity so) (\<lambda>n. status api ''set_session_log_verbosity_level'' [A_handle h, A_int n]),
     set_arena api h (so_cpu_mem_arena so),
     set_mem_pattern api h (so_mem_pattern so),
     set_profiling api h (so_profiling_prefix so),
     each (\<lambda>(d, n). status api ''add_free_dimension_override'' [A_handle h, A_text d, A_int n]) (so_free_dims so),
     each (\<lambda>(d, n). status api ''add_free_dimension_override_by_name'' [A_handle h, A_text d, A_int n]) (so_free_dims_by_name so),
     each (\<lambda>(k, v). status api ''add_session_config_entry'' [A_handle h, A_text k, A_text v]) (so_config_entries so),
     if_some (so_ep_selection_policy so) (\<lambda>p. status api ''session_options_set_ep_selection_policy'' [A_handle h, A_int p]),
     each (apply_ep api h) (so_ep_configs so),
     each (migraphx_append api h) (so_migraphx so),
     each (openvino_append api h) (so_openvino so),
     each (\<lambda>d. status api ''add_custom_op_domain'' [A_handle h, A_ptr d]) (so_custom_op_domains so),
     (if so_enable_ort_custom_ops so then status api ''enable_ort_custom_ops'' [A_handle h] else give ()),
     each (\<lambda>p. status api ''register_custom_ops_library_v2'' [A_handle h, A_text p]) (so_custom_op_libraries so),
     each (register_library_v1 api h) (so_custom_op_libraries_v1 so),
     each (\<lambda>f. status api ''register_custom_ops_using_function'' [A_handle h, A_text f]) (so_custom_op_functions so),
     (if attach_logger then if_some (so_user_logger so) (attach_user_logger api h) else give ()),
     if_some (so_optimized_model_file_path so) (\<lambda>p. status api ''set_optimized_model_file_path'' [A_handle h, A_text p]),
     if_some (so_deterministic_compute so) (\<lambda>b. status api ''set_deterministic_compute'' [A_handle h, A_bool b]),
     if_some (so_load_cancellation_flag so) (\<lambda>b. status api ''session_options_set_load_cancellation_flag'' [A_handle h, A_bool b]),
     if_some (so_custom_create_thread_fn so) (\<lambda>f. status api ''session_options_set_custom_create_thread_fn'' [A_handle h, A_ptr f]),
     (if so_custom_create_thread_fn so \<noteq> None
      then status api ''session_options_set_custom_thread_creation_options'' [A_handle h, A_ptr (so_custom_thread_creation_options so)]
      else give ()),
     if_some (so_custom_join_thread_fn so) (\<lambda>f. status api ''session_options_set_custom_join_thread_fn'' [A_handle h, A_ptr f]),
     if_some (so_ep_selection_delegate so) (\<lambda>d. status api ''session_options_set_ep_selection_policy_delegate''
       [A_handle h, A_ptr d, A_ptr (so_ep_selection_delegate_state so)])]"

definition configure :: "'n c_api \<Rightarrow> session_options \<Rightarrow> bool \<Rightarrow> handle \<Rightarrow> ('n, unit) native_op" where
  "configure api so attach_logger h = in_order (configure_steps api so attach_logger h)"

definition build_handle_inner :: "'n c_api \<Rightarrow> session_options \<Rightarrow> bool \<Rightarrow> ('n, handle) native_op" where
  "build_handle_inner api so attach_logger =
     and_then (create_handle api Session_options_handle ''create_session_options'' [] ''session options'') (\<lambda>h.
       or_release api h (and_then (configure api so attach_logger h) (\<lambda>_. give h)))"

definition build_handle :: "'n c_api \<Rightarrow> session_options \<Rightarrow> ('n, handle) native_op" where
  "build_handle api so = build_handle_inner api so False"

definition build_handle_for_session :: "'n c_api \<Rightarrow> session_options \<Rightarrow> ('n, handle) native_op" where
  "build_handle_for_session api so =
     and_then (lift_result (validate_cuda_stream_guards so)) (\<lambda>_. build_handle_inner api so True)"

subsection \<open>Queries\<close>

definition so_execution_mode_of :: "'n c_api \<Rightarrow> session_options \<Rightarrow> ('n, int) native_op" where
  "so_execution_mode_of api so = and_then (build_handle api so) (\<lambda>h.
     then_release api h (query_int api ''get_session_execution_mode'' [A_handle h]))"

definition mem_pattern_enabled :: "'n c_api \<Rightarrow> session_options \<Rightarrow> ('n, bool) native_op" where
  "mem_pattern_enabled api so = and_then (build_handle api so) (\<lambda>h.
     and_then (then_release api h (query_int api ''get_mem_pattern_enabled'' [A_handle h])) (\<lambda>v. give (v \<noteq> 0)))"

definition clone_ort_handle :: "'n c_api \<Rightarrow> session_options \<Rightarrow> ('n, handle) native_op" where
  "clone_ort_handle api so = and_then (build_handle api so) (\<lambda>src.
     and_then (then_release api src (create_ptr api Session_options_handle ''clone_session_options'' [A_handle src])) (\<lambda>p.
       lift_result (non_null p ''cloned session options'')))"

text \<open>The handle is built before the key is checked.\<close>

definition has_config_entry :: "'n c_api \<Rightarrow> session_options \<Rightarrow> string \<Rightarrow> ('n, bool) native_op" where
  "has_config_entry api so key = and_then (build_handle api so) (\<lambda>h.
     case cstring_new key of None \<Rightarrow> raise (local_error ''config key contains a NUL'')
     | Some k \<Rightarrow> and_then (then_release api h (query_int api ''has_session_config_entry'' [A_handle h, A_text k]))
                  (\<lambda>v. give (v \<noteq> 0)))"

definition buffer_text :: "nat \<Rightarrow> string \<Rightarrow> string" where
  "buffer_text len written = take len written @ drop (length written) (replicate len (CHR 0x00))"

definition read_config_entry :: "'n c_api \<Rightarrow> handle \<Rightarrow> string \<Rightarrow> ('n, string option) native_op" where
  "read_config_entry api h key =
     and_then (fill_buffer api ''get_session_config_entry'' [A_handle h, A_text key] None) (\<lambda>(_, len, _).
       if len = 0 then give None
       else and_then (fill_buffer api ''get_session_config_entry'' [A_handle h, A_text key] (Some len)) (\<lambda>(st, _, written).
         and_then (lift_result (check st)) (\<lambda>_.
           let s = until_nul (buffer_text len written)
           in if valid_utf8 s then give (Some s)
              else raise (local_error ''zrt: session config entry is not valid UTF-8''))))"

definition config_entry :: "'n c_api \<Rightarrow> session_options \<Rightarrow> string \<Rightarrow> ('n, string option) native_op" where
  "config_entry api so key = and_then (build_handle api so) (\<lambda>h.
     case cstring_new key of None \<Rightarrow> raise (local_error ''config key contains a NUL'')
     | Some k \<Rightarrow> then_release api h (read_config_entry api h k))"

definition key_value_pairs_new :: "'n c_api \<Rightarrow> ('n, handle) native_op" where
  "key_value_pairs_new api = and_then (create_void api Kv_pairs_handle ''create_key_value_pairs'' []) (\<lambda>p.
     lift_result (non_null p ''key/value pairs''))"

definition config_entries :: "'n c_api \<Rightarrow> session_options \<Rightarrow> ('n, handle) native_op" where
  "config_entries api so = and_then (build_handle api so) (\<lambda>h.
     and_then (then_release api h (create_ptr api Kv_pairs_handle ''get_session_options_config_entries'' [A_handle h])) (\<lambda>p.
       case p of None \<Rightarrow> key_value_pairs_new api | Some kv \<Rightarrow> give kv))"

subsection \<open>The handle of a session\<close>

record environment =
  env_ptr :: nat
  env_global_pool :: bool

definition apply_device_attach :: "'n c_api \<Rightarrow> environment \<Rightarrow> handle \<Rightarrow> ep_device_attach list \<Rightarrow> ('n, unit) native_op" where
  "apply_device_attach api env h as = each (\<lambda>a.
     if at_env a \<noteq> None \<and> at_env a \<noteq> Some (env_ptr env)
     then raise (local_error ''execution-provider devices belong to a different Environment'')
     else status api ''session_options_append_execution_provider_v2''
       [A_handle h, A_ptr (env_ptr env), A_ptrs (at_devices a), A_pairs (at_options a)]) as"

definition build_session_options_for_env :: "'n c_api \<Rightarrow> environment \<Rightarrow> session_options \<Rightarrow> ('n, handle) native_op" where
  "build_session_options_for_env api env so =
     and_then (lift_result (validate_cuda_stream_guards so)) (\<lambda>_.
     and_then (build_handle_for_session api so) (\<lambda>h.
       or_release api h (and_then (in_order [
         apply_device_attach api env h (so_ep_device_attach so),
         (if env_global_pool env \<and> so_use_global_thread_pool so then status api ''disable_per_session_threads'' [A_handle h]
          else give ())]) (\<lambda>_. give h))))"

subsection \<open>Ownership\<close>

lemma owns_ep_options_new [owns_intros]:
  assumes "null_on_error api"
  shows "accounts B {} (ep_options_new api f es) (\<lambda>h. {h})"
  unfolding ep_options_new_def
proof (rule owns_and_then, rule owns_create_handle [OF assms], simp)
  fix h
  have "accounts (insert h B) {} (and_then (lift_result (cstring_pairs ''ep option key/value contains a NUL byte'' es))
      (\<lambda>kv. status api (pf_update f) [A_handle h, A_pairs kv])) (\<lambda>_. {})"
    by (intro owns_intros) simp
  from owns_or_release_self [OF this, of api]
  show "accounts B {h} (or_release api h
         (and_then (lift_result (cstring_pairs ''ep option key/value contains a NUL byte'' es)) (\<lambda>kv.
          and_then (status api (pf_update f) [A_handle h, A_pairs kv]) (\<lambda>_. give h)))) (\<lambda>h. {h})"
    by (simp add: and_then_assoc)
qed

lemma owns_append_with_handle [owns_intros]:
  assumes "null_on_error api" "h \<in> B" "\<And>g. accounts (insert g B) {} (extra g) (\<lambda>_. {})"
  shows "accounts B {} (append_with_handle api f h es extra) (\<lambda>_. {})"
  unfolding append_with_handle_def ep_options_append_def
  by (rule owns_and_then, rule owns_ep_options_new [OF assms(1)], rule owns_then_release, rule owns_seq, rule assms(3),
      rule owns_status) (use assms(2) in auto)

lemma owns_update_with_value [owns_intros]: "h \<in> B \<Longrightarrow> accounts B {} (update_with_value api h k p) (\<lambda>_. {})"
  unfolding update_with_value_def by (auto split: option.splits intro: owns_raise owns_status)

lemma owns_apply_ep [owns_intros]:
  "null_on_error api \<Longrightarrow> h \<in> B \<Longrightarrow> accounts B {} (apply_ep api h c) (\<lambda>_. {})"
  unfolding apply_ep_def append_kv_def
  by (cases "ec_provider c") (auto intro!: owns_intros)

lemma owns_register_library_v1 [owns_intros]:
  assumes "null_on_error api" "h \<in> B"
  shows "accounts B {} (register_library_v1 api h path) (\<lambda>_. {})"
  unfolding register_library_v1_def
proof (rule owns_and_then [OF owns_create_ptr [OF assms(1)]])
  show "accounts B (set_option l) (if_some l give_up) (\<lambda>_. {})" for l
    by (cases l) (auto simp: if_some_def intro: owns_give owns_give_up)
qed (use assms(2) in simp)

lemma owns_attach_user_logger [owns_intros]: "h \<in> B \<Longrightarrow> accounts B {} (attach_user_logger api h slot) (\<lambda>_. {})"
  unfolding attach_user_logger_def by (intro owns_seq owns_leak_reference owns_status) simp

lemma owns_configure:
  assumes "null_on_error api" "h \<in> B"
  shows "accounts B {} (configure api so attach h) (\<lambda>_. {})"
  unfolding configure_def configure_steps_def
  by (rule owns_in_order)
    (use assms in \<open>auto simp: set_arena_def set_mem_pattern_def set_profiling_def migraphx_append_def openvino_append_def
      intro!: owns_intros split: arena_state.split mem_pattern_state.split option.split\<close>)

lemma owns_build_handle_inner [owns_intros]:
  "null_on_error api \<Longrightarrow> accounts B {} (build_handle_inner api so attach) (\<lambda>h. {h})"
  unfolding build_handle_inner_def
  by (rule owns_and_then, rule owns_create_handle, assumption, simp, rule owns_or_release_self, rule owns_configure) auto

lemma owns_build_handle [owns_intros]: "null_on_error api \<Longrightarrow> accounts B {} (build_handle api so) (\<lambda>h. {h})"
  unfolding build_handle_def by (rule owns_build_handle_inner)

lemma owns_build_handle_for_session [owns_intros]:
  "null_on_error api \<Longrightarrow> accounts B {} (build_handle_for_session api so) (\<lambda>h. {h})"
  unfolding build_handle_for_session_def by (intro owns_seq owns_lift owns_build_handle_inner)

lemma owns_build_session_options_for_env [owns_intros]:
  assumes "null_on_error api"
  shows "accounts B {} (build_session_options_for_env api env so) (\<lambda>h. {h})"
  unfolding build_session_options_for_env_def
  by (rule owns_seq, rule owns_lift, rule owns_and_then, rule owns_build_handle_for_session [OF assms],
      rule owns_or_release_self, rule owns_in_order) (auto simp: apply_device_attach_def intro!: owns_intros)

text \<open>A query of a freshly built handle.\<close>

lemma owns_with_built:
  "null_on_error api \<Longrightarrow> (\<And>h. accounts B {h} (f h) G) \<Longrightarrow> accounts B {} (and_then (build_handle api so) f) G"
  by (rule owns_and_then [OF owns_build_handle])

lemma owns_read_config_entry: "h \<in> B \<Longrightarrow> accounts B {} (read_config_entry api h k) (\<lambda>_. {})"
  unfolding read_config_entry_def
  by (auto intro!: owns_intros simp: Let_def split: prod.splits)

lemma owns_queries:
  assumes "null_on_error api"
  shows "accounts B {} (so_execution_mode_of api so) (\<lambda>_. {})"
    "accounts B {} (mem_pattern_enabled api so) (\<lambda>_. {})"
    "accounts B {} (clone_ort_handle api so) (\<lambda>h. {h})"
    "accounts B {} (config_entries api so) (\<lambda>h. {h})"
    "\<not> has_nul key \<Longrightarrow> accounts B {} (has_config_entry api so key) (\<lambda>_. {})"
    "\<not> has_nul key \<Longrightarrow> accounts B {} (config_entry api so key) (\<lambda>_. {})"
proof -
  show "accounts B {} (so_execution_mode_of api so) (\<lambda>_. {})"
    unfolding so_execution_mode_of_def
    by (intro owns_with_built [OF assms] owns_then_release owns_query_int) simp
  show "accounts B {} (mem_pattern_enabled api so) (\<lambda>_. {})"
    unfolding mem_pattern_enabled_def
    by (rule owns_with_built [OF assms], rule owns_and_then, rule owns_then_release, rule owns_query_int, simp, rule owns_give)
  show "accounts B {} (clone_ort_handle api so) (\<lambda>h. {h})"
    unfolding clone_ort_handle_def
    by (rule owns_with_built [OF assms], rule owns_and_then, rule owns_then_release, rule owns_create_ptr [OF assms], simp,
        rule owns_non_null)
  show "accounts B {} (config_entries api so) (\<lambda>h. {h})"
    unfolding config_entries_def
  proof (rule owns_with_built [OF assms], rule owns_and_then, rule owns_then_release, rule owns_create_ptr [OF assms])
    fix p :: "handle option"
    show "accounts B (set_option p) (case p of None \<Rightarrow> key_value_pairs_new api | Some kv \<Rightarrow> give kv) (\<lambda>h. {h})"
    proof (cases p)
      case None
      show ?thesis unfolding None key_value_pairs_new_def option.case option.set
        by (rule owns_and_then, rule owns_create_void, simp, rule owns_non_null)
    next
      case (Some kv)
      then show ?thesis by (simp add: owns_give_self)
    qed
  qed simp
  show "accounts B {} (has_config_entry api so key) (\<lambda>_. {})" if "\<not> has_nul key"
    unfolding has_config_entry_def cstring_new_def if_not_P [OF that] option.case
    by (rule owns_with_built [OF assms], rule owns_and_then, rule owns_then_release, rule owns_query_int, simp, rule owns_give)
  show "accounts B {} (config_entry api so key) (\<lambda>_. {})" if "\<not> has_nul key"
    unfolding config_entry_def cstring_new_def if_not_P [OF that] option.case
    by (rule owns_with_built [OF assms], rule owns_then_release, rule owns_read_config_entry) simp
qed

subsection \<open>What is given up\<close>

definition logger_references :: "session_options \<Rightarrow> handle list" where
  "logger_references so = (case so_user_logger so of None \<Rightarrow> [] | Some slot \<Rightarrow> [(Logger_slot, slot)])"

abbreviation v1_libraries :: "session_options \<Rightarrow> nat" where
  "v1_libraries so \<equiv> length (so_custom_op_libraries_v1 so)"

lemma unlogged_append_with_handle:
  assumes "f \<in> {cuda_functions, tensor_rt_functions, rocm_functions, cann_functions, dnnl_functions}"
    "\<And>g. effects unlogged (extra g)"
  shows "effects unlogged (append_with_handle api f h es extra)"
  unfolding append_with_handle_def ep_options_new_def ep_options_append_def
  by (intro unlogged_intros assms(2))
    (use assms(1) in \<open>auto simp: cuda_functions_def tensor_rt_functions_def rocm_functions_def cann_functions_def dnnl_functions_def\<close>)

lemma unlogged_apply_ep: "effects unlogged (apply_ep api h c)"
proof -
  have "effects unlogged (update_with_value api g k p)" for g k p
    unfolding update_with_value_def by (auto intro!: unlogged_intros split: option.split)
  then show ?thesis
    unfolding apply_ep_def append_kv_def
    by (cases "ec_provider c") (auto intro!: unlogged_append_with_handle unlogged_intros)
qed

lemma gives_up_register_library: "gives_up [] 1 (register_library_v1 api h path)"
  unfolding register_library_v1_def gives_up_def
proof
  fix w
  let ?c = "create_ptr api Library_handle ''register_custom_ops_library'' [A_handle h, A_text path]"
  obtain q v where c: "?c w = (q, v)" by fastforce
  have first: "gave_up [] 0 w (q, v)" using gives_upD [of "[]" 0 ?c w q v] c by (simp add: gives_up_nothing unlogged_call(8))
  show "gave_up [] 1 w (and_then ?c (\<lambda>l. if_some l give_up) w)"
  proof (cases q)
    case (Inl e)
    then show ?thesis using gave_up_stop [of "[]" 0 w e v "[]" 1] first c by (simp add: and_then_def)
  next
    case (Inr l)
    have "gives_up [] 1 (if_some l give_up)"
    proof (cases l)
      case None
      then show ?thesis by (simp add: if_some_def gives_up_more [OF gives_up_nothing [OF unlogged.pure(1)]])
    next
      case (Some k)
      then have "fst k = Library_handle" using returnsD [OF returns_create_ptr] c Inr by (fastforce simp: of_kind_def)
      then show ?thesis using gives_up_library by (simp add: if_some_def Some)
    qed
    moreover obtain r u where later: "if_some l give_up v = (r, u)" by fastforce
    ultimately have "gave_up [] 1 v (r, u)" by (rule gives_upD)
    then show ?thesis using gave_up_trans [of "[]" 0 w l v "[]" 1 r u] first c Inr later by (simp add: and_then_def)
  qed
qed

lemma gives_up_configure:
  "gives_up (if attach then logger_references so else []) (v1_libraries so) (configure api so attach h)"
proof -
  let ?cs = "configure_steps api so attach h"
  have split: "?cs = take 20 ?cs @ (each (register_library_v1 api h) (so_custom_op_libraries_v1 so) # [?cs ! 21])
      @ ((if attach then if_some (so_user_logger so) (attach_user_logger api h) else give ()) # drop 23 ?cs)"
    by (simp add: configure_steps_def numeral_eq_Suc)
  have rest: "effects unlogged m" if "m \<in> set (take 20 ?cs @ [?cs ! 21] @ drop 23 ?cs)" for m
    using that
    by (simp add: configure_steps_def numeral_eq_Suc)
      (auto simp: set_arena_def set_mem_pattern_def set_profiling_def migraphx_append_def openvino_append_def
        intro!: unlogged_intros unlogged_apply_ep split: arena_state.split mem_pattern_state.split option.split)
  have early: "gives_up [] 0 (in_order (take 20 ?cs))" "effects unlogged (in_order [?cs ! 21])" "effects unlogged (in_order (drop 23 ?cs))"
    by (intro gives_up_nothing unlogged.in_order rest; simp)+
  have libraries: "gives_up [] (v1_libraries so) (in_order [each (register_library_v1 api h) (so_custom_op_libraries_v1 so), ?cs ! 21])"
    using gives_up_first [OF gives_up_each [OF gives_up_register_library] early(2)] by simp
  have logger: "gives_up (if attach then logger_references so else []) 0
      (if attach then if_some (so_user_logger so) (attach_user_logger api h) else give ())"
    by (cases "so_user_logger so")
      (auto simp: if_some_def logger_references_def attach_user_logger_def gives_up_reference intro: gives_up_nothing unlogged.pure)
  have "gives_up (if attach then logger_references so else []) 0
      (in_order ((if attach then if_some (so_user_logger so) (attach_user_logger api h) else give ()) # drop 23 ?cs))"
    unfolding in_order.simps by (rule gives_up_first [OF logger early(3)])
  from gives_up_and_then [OF libraries this] show ?thesis
    unfolding configure_def by (subst split) (intro gives_up_in_order [OF early(1)], simp only: in_order_append, simp)
qed

lemma gives_up_build_handle_inner:
  "gives_up (if attach then logger_references so else []) (v1_libraries so) (build_handle_inner api so attach)"
  unfolding build_handle_inner_def
  by (rule gives_up_later, intro unlogged_intros, simp, rule gives_up_scopes, rule gives_up_first [OF gives_up_configure],
      rule unlogged.pure)

lemma gives_up_build_handle: "gives_up [] (v1_libraries so) (build_handle api so)"
  using gives_up_build_handle_inner [of False] unfolding build_handle_def by simp

lemma gives_up_build_handle_for_session: "gives_up (logger_references so) (v1_libraries so) (build_handle_for_session api so)"
  unfolding build_handle_for_session_def
  using gives_up_build_handle_inner [of True] by (intro gives_up_later unlogged.pure) simp

lemma gives_up_build_session_options_for_env:
  "gives_up (logger_references so) (v1_libraries so) (build_session_options_for_env api env so)"
  unfolding build_session_options_for_env_def
proof (rule gives_up_later [OF unlogged.pure(3)], rule gives_up_first [OF gives_up_build_handle_for_session],
    rule unlogged_scopes(2), rule unlogged.and_then [OF unlogged.in_order unlogged.pure(1)])
  fix h m and a :: handle
  assume "m \<in> set [apply_device_attach api env h (so_ep_device_attach so),
     if env_global_pool env \<and> so_use_global_thread_pool so then status api ''disable_per_session_threads'' [A_handle h] else give ()]"
  then show "effects unlogged m"
    by (auto simp: apply_device_attach_def intro!: unlogged_intros)
qed

lemma gives_up_queries:
  "gives_up [] (v1_libraries so) (so_execution_mode_of api so)" "gives_up [] (v1_libraries so) (mem_pattern_enabled api so)"
  "gives_up [] (v1_libraries so) (clone_ort_handle api so)" "gives_up [] (v1_libraries so) (config_entries api so)"
  "gives_up [] (v1_libraries so) (has_config_entry api so key)" "gives_up [] (v1_libraries so) (config_entry api so key)"
  unfolding so_execution_mode_of_def mem_pattern_enabled_def clone_ort_handle_def config_entries_def has_config_entry_def
    config_entry_def read_config_entry_def key_value_pairs_new_def
  by (rule gives_up_first [OF gives_up_build_handle], auto intro!: unlogged_intros simp: Let_def split: option.split prod.split)+


subsection \<open>Reading back config entries\<close>

text \<open>
  The documented behaviour of session config entries in ONNX Runtime: new options have none,
  \<open>AddSessionConfigEntry\<close> adds or replaces one, \<open>GetSessionConfigEntry\<close> reports the size of the value
  with its terminator, or leaves 0 for a missing key, and fills a buffer of that size.
\<close>

definition stores_config :: "'n c_api \<Rightarrow> ('n \<Rightarrow> nat \<Rightarrow> string \<rightharpoonup> string) \<Rightarrow> bool" where
  "stores_config api cfg \<longleftrightarrow>
     (\<forall>s n n'. c_create api (''create_session_options'', []) s n = ((None, True), n') \<longrightarrow> cfg n' = (cfg n)(s := Map.empty))
   \<and> (\<forall>f as s n r n'. c_create api (f, as) s n = (r, n') \<longrightarrow> f \<noteq> ''create_session_options'' \<longrightarrow> f \<noteq> ''clone_session_options''
        \<longrightarrow> cfg n' = cfg n)
   \<and> (\<forall>f as n st n'. c_status api (f, as) n = (st, n') \<longrightarrow> f \<noteq> ''add_session_config_entry'' \<longrightarrow> cfg n' = cfg n)
   \<and> (\<forall>s k v n n'. c_status api (''add_session_config_entry'', [A_handle (Session_options_handle, s), A_text k, A_text v]) n = (None, n')
        \<longrightarrow> cfg n' = (cfg n)(s := (cfg n s)(k \<mapsto> v)))
   \<and> (\<forall>h n. fst h \<noteq> Session_options_handle \<longrightarrow> cfg (c_release api h n) = cfg n)
   \<and> (\<forall>s k cap n st len t n'. c_buffer api (''get_session_config_entry'', [A_handle (Session_options_handle, s), A_text k]) cap n
          = ((st, len, t), n') \<longrightarrow> cfg n' = cfg n \<and> (case cfg n s k of
              None \<Rightarrow> len = 0
            | Some v \<Rightarrow> len = Suc (length v) \<and> (cap = Some (Suc (length v)) \<longrightarrow> st = None \<and> t = v @ [CHR 0x00])))"

lemma stores_configD:
  assumes "stores_config api cfg"
  shows "c_create api (''create_session_options'', []) s n = ((None, True), n') \<Longrightarrow> cfg n' = (cfg n)(s := Map.empty)"
    and "c_create api (f, as) s n = (r, n') \<Longrightarrow> f \<noteq> ''create_session_options'' \<Longrightarrow> f \<noteq> ''clone_session_options''
        \<Longrightarrow> cfg n' = cfg n"
    and "c_status api (f, as) n = (st, n') \<Longrightarrow> f \<noteq> ''add_session_config_entry'' \<Longrightarrow> cfg n' = cfg n"
    and "c_status api (''add_session_config_entry'', [A_handle (Session_options_handle, s), A_text k, A_text v]) n = (None, n')
        \<Longrightarrow> cfg n' = (cfg n)(s := (cfg n s)(k \<mapsto> v))"
    and "fst h \<noteq> Session_options_handle \<Longrightarrow> cfg (c_release api h n) = cfg n"
    and "c_buffer api (''get_session_config_entry'', [A_handle (Session_options_handle, s), A_text k]) cap n = ((st, len, t), n')
        \<Longrightarrow> cfg n' = cfg n \<and> (case cfg n s k of None \<Rightarrow> len = 0
            | Some v \<Rightarrow> len = Suc (length v) \<and> (cap = Some (Suc (length v)) \<longrightarrow> st = None \<and> t = v @ [CHR 0x00]))"
proof -
  note a = assms [unfolded stores_config_def, THEN conjunct1] assms [unfolded stores_config_def, THEN conjunct2]
  note b = a(2) [THEN conjunct1] a(2) [THEN conjunct2, THEN conjunct1] a(2) [THEN conjunct2, THEN conjunct2, THEN conjunct1]
  note c = a(2) [THEN conjunct2, THEN conjunct2, THEN conjunct2]
  show "c_create api (''create_session_options'', []) s n = ((None, True), n') \<Longrightarrow> cfg n' = (cfg n)(s := Map.empty)"
    using a(1) by simp
  show "c_create api (f, as) s n = (r, n') \<Longrightarrow> f \<noteq> ''create_session_options'' \<Longrightarrow> f \<noteq> ''clone_session_options''
      \<Longrightarrow> cfg n' = cfg n"
    using b(1) by blast
  show "c_status api (f, as) n = (st, n') \<Longrightarrow> f \<noteq> ''add_session_config_entry'' \<Longrightarrow> cfg n' = cfg n"
    using b(2) by blast
  show "c_status api (''add_session_config_entry'', [A_handle (Session_options_handle, s), A_text k, A_text v]) n = (None, n')
      \<Longrightarrow> cfg n' = (cfg n)(s := (cfg n s)(k \<mapsto> v))"
    using b(3) by simp
  show "fst h \<noteq> Session_options_handle \<Longrightarrow> cfg (c_release api h n) = cfg n"
    using c [THEN conjunct1] by (cases h) simp
  show "c_buffer api (''get_session_config_entry'', [A_handle (Session_options_handle, s), A_text k]) cap n = ((st, len, t), n')
      \<Longrightarrow> cfg n' = cfg n \<and> (case cfg n s k of None \<Rightarrow> len = 0
          | Some v \<Rightarrow> len = Suc (length v) \<and> (cap = Some (Suc (length v)) \<longrightarrow> st = None \<and> t = v @ [CHR 0x00]))"
    using c [THEN conjunct2] by simp
qed

definition same_config :: "('n \<Rightarrow> nat \<Rightarrow> string \<rightharpoonup> string) \<Rightarrow> 'n native_world \<Rightarrow> 'n native_world \<Rightarrow> bool" where
  "same_config cfg w v \<longleftrightarrow> cfg (engine v) = cfg (engine w)"

interpretation kept: transitive_effect "same_config cfg" for cfg
  by unfold_locales (auto simp: same_config_def)

lemma kept_status:
  "stores_config api cfg \<Longrightarrow> f \<noteq> ''add_session_config_entry'' \<Longrightarrow> effects (same_config cfg) (status api f as)"
  unfolding effects_def status_def same_config_def by (auto split: prod.splits dest: stores_configD(3))

lemma kept_create_handle:
  assumes "stores_config api cfg" "f \<noteq> ''create_session_options''" "f \<noteq> ''clone_session_options''"
  shows "effects (same_config cfg) (create_handle api k f as what)"
proof -
  have "effects (same_config cfg) (create_ptr api k f as)"
    using assms(2,3) unfolding effects_def create_ptr_def same_config_def
    by (auto simp: Let_def split: prod.splits dest: stores_configD(2) [OF assms(1)])
  then show ?thesis unfolding create_handle_def by (intro kept.and_then kept.pure)
qed

lemma create_handle_kind: "create_handle api k f as what w = (Inr h, v) \<Longrightarrow> fst h = k"
  by (auto simp: create_handle_def create_ptr_def and_then_def lift_result_def non_null_def Let_def check_def
      split: prod.splits sum.splits option.splits if_splits)

lemma kept_release:
  "stores_config api cfg \<Longrightarrow> fst h \<noteq> Session_options_handle \<Longrightarrow> same_config cfg w (release_handle api h w)"
  unfolding same_config_def release_handle_def by (simp add: stores_configD(5))

lemma kept_append_with_handle:
  assumes "stores_config api cfg" "pf_kind f \<noteq> Session_options_handle" "\<And>g. effects (same_config cfg) (extra g)"
    "pf_create f \<noteq> ''create_session_options''" "pf_create f \<noteq> ''clone_session_options''"
    "pf_update f \<noteq> ''add_session_config_entry''" "pf_append f \<noteq> ''add_session_config_entry''"
  shows "effects (same_config cfg) (append_with_handle api f h es extra)"
proof -
  have rel: "same_config cfg w (release_handle api g w)" if "fst g = pf_kind f" for g w
    using that assms(1,2) by (intro kept_release) auto
  have new: "effects (same_config cfg) (ep_options_new api f es)"
    unfolding ep_options_new_def
    by (rule kept.and_then_result [OF kept_create_handle [OF assms(1,4,5)]],
        intro kept.or_release kept.and_then kept.pure kept_status [OF assms(1,6)] rel, rule create_handle_kind)
  have kind: "ep_options_new api f es w = (Inr g, v) \<Longrightarrow> fst g = pf_kind f" for w g v
    unfolding ep_options_new_def
    by (auto simp: and_then_def or_release_def give_def split: prod.splits sum.splits dest!: create_handle_kind)
  show ?thesis
    unfolding append_with_handle_def ep_options_append_def
    by (rule kept.and_then_result [OF new], intro kept.then_release kept.and_then assms(3) kept_status [OF assms(1,7)] rel,
        rule kind)
qed

lemma kept_apply_ep:
  assumes "stores_config api cfg"
  shows "effects (same_config cfg) (apply_ep api h c)"
proof -
  note append = kept_append_with_handle [OF assms]
  have cuda: "effects (same_config cfg) (append_with_handle api cuda_functions h es extra)"
    if "\<And>g. effects (same_config cfg) (extra g)" for es extra
    by (rule append) (use that in \<open>auto simp: cuda_functions_def\<close>)
  have upd: "effects (same_config cfg) (update_with_value api g ''user_compute_stream'' p)" for g p
    unfolding update_with_value_def by (auto split: option.split intro: kept.pure kept_status [OF assms])
  have rest: "effects (same_config cfg) (append_with_handle api f h es (\<lambda>_. give ()))"
    if "f \<in> {tensor_rt_functions, rocm_functions, cann_functions, dnnl_functions}" for f es
    using that by (intro append kept.pure)
      (auto simp: tensor_rt_functions_def rocm_functions_def cann_functions_def dnnl_functions_def)
  show ?thesis
    unfolding apply_ep_def append_kv_def
    by (cases "ec_provider c")
      (auto intro!: cuda upd rest kept.pure kept.if_some kept_status [OF assms])
qed

definition add_entries :: "'n c_api \<Rightarrow> handle \<Rightarrow> entries \<Rightarrow> ('n, unit) native_op" where
  "add_entries api h es = each (\<lambda>(k, v). status api ''add_session_config_entry'' [A_handle h, A_text k, A_text v]) es"

lemma configure_around_entries:
  obtains xs ys where "configure_steps api so attach h = xs @ add_entries api h (so_config_entries so) # ys"
    "stores_config api cfg \<Longrightarrow> \<forall>m \<in> set (xs @ ys). effects (same_config cfg) m"
proof
  let ?cs = "configure_steps api so attach h"
  show "?cs = take 12 ?cs @ add_entries api h (so_config_entries so) # drop 13 ?cs"
    by (simp add: configure_steps_def add_entries_def numeral_eq_Suc)
  show "\<forall>m \<in> set (take 12 ?cs @ drop 13 ?cs). effects (same_config cfg) m" if sc: "stores_config api cfg"
  proof -
    have pointers: "effects (same_config cfg) (give_up g)" "effects (same_config cfg) (leak_reference g)"
      "effects (same_config cfg) (create_ptr api Library_handle ''register_custom_ops_library'' as)" for g as
      by (auto simp: effects_def same_config_def give_up_def leak_reference_def create_ptr_def Let_def
          split: prod.splits dest: stores_configD(2) [OF sc])
    note quiet = kept_status [OF sc] kept_apply_ep [OF sc] kept.pure kept.if_some kept.each kept.and_then pointers
    have migraphx: "effects (same_config cfg) (migraphx_append api h m)" for m
      unfolding migraphx_append_def by (rule kept_status [OF sc]) simp
    have openvino: "effects (same_config cfg) (openvino_append api h m)" for m
      unfolding openvino_append_def by (rule kept_status [OF sc]) simp
    have modes: "effects (same_config cfg) (set_arena api h a)" "effects (same_config cfg) (set_mem_pattern api h p)"
      "effects (same_config cfg) (set_profiling api h q)" for a p q
      unfolding set_arena_def set_mem_pattern_def set_profiling_def
      by (auto split: arena_state.split mem_pattern_state.split option.split intro!: quiet)
    have "effects (same_config cfg) (register_library_v1 api h p)" "effects (same_config cfg) (attach_user_logger api h l)" for p l
      unfolding register_library_v1_def attach_user_logger_def by (auto intro!: quiet)
    then show ?thesis
      by (simp add: configure_steps_def numeral_eq_Suc) (auto intro!: quiet migraphx openvino modes)
  qed
qed

lemma add_entries_config:
  assumes "stores_config api cfg"
  shows "add_entries api (Session_options_handle, s) es w = (Inr (), v)
    \<Longrightarrow> cfg (engine v) s = cfg (engine w) s ++ map_of (rev es)"
proof (induction es arbitrary: w)
  case Nil
  then show ?case by (simp add: add_entries_def each_def give_def)
next
  case (Cons e es)
  obtain k x where e: "e = (k, x)" by fastforce
  let ?add = "status api ''add_session_config_entry'' [A_handle (Session_options_handle, s), A_text k, A_text x]"
  obtain u where u: "?add w = (Inr (), u)" and v: "add_entries api (Session_options_handle, s) es u = (Inr (), v)"
    using Cons.prems by (auto simp: add_entries_def each_def e and_then_def split: prod.splits sum.splits)
  obtain n where "c_status api (''add_session_config_entry'', [A_handle (Session_options_handle, s), A_text k, A_text x]) (engine w) = (None, n)"
    "engine u = n" using u by (auto simp: status_def check_def split: prod.splits option.splits)
  then have "cfg (engine u) s = (cfg (engine w) s)(k \<mapsto> x)" using stores_configD(4) [OF assms] by auto
  then show ?case using Cons.IH [OF v] by (simp add: e map_add_def fun_eq_iff split: option.splits)
qed

lemma in_order_split:
  "in_order (xs @ m # ys) w = (Inr (), v) \<Longrightarrow>
     \<exists>a b. in_order xs w = (Inr (), a) \<and> m a = (Inr (), b) \<and> in_order ys b = (Inr (), v)"
  by (auto simp: in_order_append and_then_def split: prod.splits sum.splits)

lemma build_handle_config:
  assumes sc: "stores_config api cfg" and run: "build_handle api so w = (Inr h, v)"
  shows "fst h = Session_options_handle \<and> cfg (engine v) (snd h) = map_of (rev (so_config_entries so))"
proof -
  obtain u where c: "create_handle api Session_options_handle ''create_session_options'' [] ''session options'' w = (Inr h, u)"
    and b: "configure api so False h u = (Inr (), v)"
    using run by (auto simp: build_handle_def build_handle_inner_def and_then_def or_release_def give_def
        split: prod.splits sum.splits)
  have h: "h = (Session_options_handle, snd h)" using create_handle_kind [OF c] by (cases h) simp
  have new: "cfg (engine u) (snd h) = Map.empty"
    using c stores_configD(1) [OF sc]
    by (auto simp: create_handle_def create_ptr_def and_then_def lift_result_def non_null_def Let_def check_def
        split: prod.splits sum.splits option.splits if_splits)
  obtain xs ys where st: "configure_steps api so False h = xs @ add_entries api h (so_config_entries so) # ys"
    and quiet: "\<forall>m \<in> set (xs @ ys). effects (same_config cfg) m"
    using configure_around_entries [of api so False h cfg] sc by metis
  obtain a e where a: "in_order xs u = (Inr (), a)" and e: "add_entries api h (so_config_entries so) a = (Inr (), e)"
    and ev: "in_order ys e = (Inr (), v)"
    using b in_order_split unfolding configure_def st by blast
  have "same_config cfg u a" "same_config cfg e v"
    using quiet effectsD [of "same_config cfg" "in_order xs" u "Inr ()" a, OF _ a]
      effectsD [of "same_config cfg" "in_order ys" e "Inr ()" v, OF _ ev] by (auto intro: kept.in_order)
  moreover have "cfg (engine e) (snd h) = cfg (engine a) (snd h) ++ map_of (rev (so_config_entries so))"
    using add_entries_config [OF sc] e h by metis
  ultimately show ?thesis using new h by (simp add: same_config_def) (metis fst_conv)
qed

lemma read_config_entry_value:
  assumes sc: "stores_config api cfg"
    and clean: "\<And>x. cfg (engine w) s key = Some x \<Longrightarrow> \<not> has_nul x \<and> valid_utf8 x"
  shows "fst (read_config_entry api (Session_options_handle, s) key w) = Inr (cfg (engine w) s key)"
proof -
  let ?c = "(''get_session_config_entry'', [A_handle (Session_options_handle, s), A_text key])"
  obtain st len t n where r1: "c_buffer api ?c None (engine w) = ((st, len, t), n)" by (metis prod.collapse)
  note D1 = stores_configD(6) [OF sc r1]
  show ?thesis
  proof (cases "cfg (engine w) s key")
    case None
    then show ?thesis using D1 by (simp add: read_config_entry_def fill_buffer_def and_then_def give_def r1)
  next
    case (Some x)
    obtain st' len' t' n' where r2: "c_buffer api ?c (Some len) n = ((st', len', t'), n')" by (metis prod.collapse)
    have st': "st' = None" "t' = x @ [CHR 0x00]" "len = Suc (length x)"
      using stores_configD(6) [OF sc r2] D1 Some by auto
    have "buffer_text len t' = x @ [CHR 0x00]" by (simp add: buffer_text_def st')
    then have "until_nul (buffer_text (Suc (length x)) (x @ [CHR 0x00])) = x" unfolding st'
      using clean [OF Some] by (simp add: until_nul_def has_nul_def takeWhile_append)
    then show ?thesis using clean [OF Some] Some D1
      by (simp add: read_config_entry_def fill_buffer_def and_then_def give_def r1 r2 [unfolded st'] st'(3) check_def lift_result_def Let_def)
  qed
qed

text \<open>
  Config entries read back as they were set: on an engine that stores them, \<open>config_entry\<close> returns
  the value that the last \<open>with_config_entry\<close> for this key gave, or nothing if there was none, through the
  two calls that first ask for the size and then fill a buffer. It fails only if building the handle
  fails.
\<close>

theorem config_entry_reads_last:
  assumes "stores_config api cfg" "\<not> has_nul key"
    "\<forall>(k, x) \<in> set (so_config_entries so). \<not> has_nul x \<and> valid_utf8 x"
  shows "fst (config_entry api so key w) =
     (case fst (build_handle api so w) of Inl e \<Rightarrow> Inl e | Inr _ \<Rightarrow> Inr (map_of (rev (so_config_entries so)) key))"
proof (cases "build_handle api so w")
  case (Pair r v)
  show ?thesis
  proof (cases r)
    case (Inl e)
    then show ?thesis by (simp add: config_entry_def and_then_def Pair)
  next
    case (Inr h)
    have h: "h = (Session_options_handle, snd h)" "cfg (engine v) (snd h) = map_of (rev (so_config_entries so))"
      using build_handle_config [OF assms(1), of so w h v] Pair Inr by (auto simp: prod_eq_iff)
    have "\<And>x. cfg (engine v) (snd h) key = Some x \<Longrightarrow> \<not> has_nul x \<and> valid_utf8 x"
      using assms(3) by (auto simp: h(2) dest!: map_of_SomeD)
    from read_config_entry_value [OF assms(1) this]
    have "fst (read_config_entry api h key v) = Inr (map_of (rev (so_config_entries so)) key)" using h by metis
    then show ?thesis
      by (cases "read_config_entry api h key v")
        (simp add: config_entry_def and_then_def Pair Inr cstring_new_def assms(2) then_release_def)
  qed
qed

subsection \<open>Pointers that the engine keeps\<close>

lemma calls_append_with_handle:
  assumes "Q (pf_create f, [])" "\<And>g. Q (pf_append f, [A_handle h, A_handle g])" "\<And>g. Q (pf_update f, [A_handle g, A_pairs es])"
    "\<And>g. effects (calls_only Q) (extra g)"
  shows "effects (calls_only Q) (append_with_handle api f h es extra)"
proof -
  have "effects (calls_only Q) (ep_options_new api f es)"
    unfolding ep_options_new_def
  proof (rule calls.and_then, rule calls_create_handle, rule assms(1), rule calls.or_release [OF _ calls_release],
      rule calls.and_then_result [OF calls.pure(3)])
    fix g kv and w v :: "'a native_world"
    assume "lift_result (cstring_pairs ''ep option key/value contains a NUL byte'' es) w = (Inr kv, v)"
    then have "kv = es" by (auto simp: lift_result_def cstring_pairs_def split: if_splits)
    then show "effects (calls_only Q) (and_then (status api (pf_update f) [A_handle g, A_pairs kv]) (\<lambda>_. give g))"
      by (intro calls.and_then calls.pure calls_made) (simp add: assms(3))
  qed
  then show ?thesis
    unfolding append_with_handle_def ep_options_append_def
    by (intro calls.and_then calls.then_release assms calls_made calls_release)
qed

definition pointer_safe :: "cuda_stream list \<Rightarrow> c_call \<Rightarrow> bool" where
  "pointer_safe guards c \<longleftrightarrow>
     (fst c = ''update_cuda_provider_options_with_value'' \<longrightarrow>
        (\<exists>h. \<exists>s \<in> set guards. snd c = [A_handle h, A_text ''user_compute_stream'', A_ptr (st_number s)]))
   \<and> (fst c = ''update_cuda_provider_options'' \<longrightarrow>
        (\<exists>h es. snd c = [A_handle h, A_pairs es] \<and> (\<forall>(k, v) \<in> set es. \<not> is_unsafe_cuda_pointer_key k)))"

lemma validated_configs: "validate_configs cs = Inr () \<Longrightarrow> c \<in> set cs \<Longrightarrow> config_refusal c = None"
  by (induction cs) (auto split: option.splits)

lemma unrefused_keys:
  assumes "config_refusal c = None" "ec_provider c = Cuda" "(k, v) \<in> set (ec_entries c)"
  shows "\<not> is_unsafe_cuda_pointer_key k"
  using assms by (auto simp: config_refusal_def find_None_iff split: option.splits)

lemma config_guard: "c \<in> set cs \<Longrightarrow> ec_cuda_stream c = Some s \<Longrightarrow> s \<in> set (config_stream_guards cs)"
  by (force simp: config_stream_guards_def List.map_filter_def)

lemma apply_ep_pointer_safe:
  assumes "config_refusal c = None" "\<And>s. ec_cuda_stream c = Some s \<Longrightarrow> s \<in> set guards"
  shows "effects (calls_only (pointer_safe guards)) (apply_ep api h c)"
proof -
  have cuda: "effects (calls_only (pointer_safe guards)) (append_with_handle api cuda_functions h (ec_entries c) (\<lambda>g.
      if_some (ec_cuda_stream c) (\<lambda>s. update_with_value api g ''user_compute_stream'' (st_number s))))"
    if "ec_provider c = Cuda"
  proof (rule calls_append_with_handle)
    show "pointer_safe guards (pf_update cuda_functions, [A_handle g, A_pairs (ec_entries c)])" for g
      using unrefused_keys [OF assms(1) that] by (auto simp: pointer_safe_def cuda_functions_def)
    show "effects (calls_only (pointer_safe guards))
        (if_some (ec_cuda_stream c) (\<lambda>s. update_with_value api g ''user_compute_stream'' (st_number s)))" for g
      using assms(2) unfolding update_with_value_def
      by (auto intro!: calls.if_some calls.pure calls_made simp: pointer_safe_def cstring_new_def)
  qed (simp_all add: pointer_safe_def cuda_functions_def)
  have rest: "effects (calls_only (pointer_safe guards)) (append_with_handle api f h es (\<lambda>_. give ()))"
    if "f \<in> {tensor_rt_functions, rocm_functions, cann_functions, dnnl_functions}" for f es
    using that by (intro calls_append_with_handle calls.pure)
      (auto simp: pointer_safe_def tensor_rt_functions_def rocm_functions_def cann_functions_def dnnl_functions_def)
  show ?thesis
    unfolding apply_ep_def append_kv_def
    by (cases "ec_provider c") (auto intro!: cuda rest calls.pure calls_made simp: pointer_safe_def)
qed

text \<open>Every entry of the table that \<open>configure\<close> calls itself, apart from the providers' own.\<close>

lemma configure_calls:
  assumes plain: "\<And>f as. f \<noteq> ''update_cuda_provider_options_with_value'' \<Longrightarrow> f \<noteq> ''update_cuda_provider_options''
      \<Longrightarrow> attach \<or> f \<noteq> ''set_user_logging_function'' \<Longrightarrow> Q (f, as)"
    and eps: "\<And>c. c \<in> set (so_ep_configs so) \<Longrightarrow> effects (calls_only Q) (apply_ep api h c)"
  shows "effects (calls_only Q) (configure api so attach h)"
  unfolding configure_def configure_steps_def
  by (rule calls.in_order)
    (auto simp: set_arena_def set_mem_pattern_def set_profiling_def migraphx_append_def openvino_append_def
      register_library_v1_def attach_user_logger_def
      intro!: calls.pure calls.if_some calls.each calls.and_then calls_given_up calls_made plain eps
      split: arena_state.split mem_pattern_state.split option.split)

lemma build_calls:
  assumes "Q (''create_session_options'', [])" "\<And>h. effects (calls_only Q) (configure api so attach h)"
  shows "effects (calls_only Q) (build_handle_inner api so attach)"
  unfolding build_handle_inner_def
  by (intro calls.and_then calls_create_handle calls.or_release calls_release calls.pure assms)

text \<open>
  The only process addresses that reach the CUDA provider are those of streams that the options
  keep alive: while a session's options are built, every pointer-valued update is the
  \<open>user_compute_stream\<close> of a stream in \<open>cuda_stream_guards\<close>, and no string update has a key that the
  engine would read as a pointer, whatever the queued configurations are.
\<close>

theorem session_options_retain_pointers:
  "calls_only (pointer_safe (cuda_stream_guards so)) w (snd (build_session_options_for_env api env so w))"
proof -
  let ?Q = "pointer_safe (cuda_stream_guards so)"
  have conf: "effects (calls_only ?Q) (configure api so True h)" if "validate_cuda_stream_guards so = Inr ()" for h
    using that unfolding validate_cuda_stream_guards_def
    by (intro configure_calls apply_ep_pointer_safe)
      (auto simp: pointer_safe_def cuda_stream_guards_def intro: validated_configs config_guard)
  have inner: "effects (calls_only ?Q) (build_handle_for_session api so)"
    unfolding build_handle_for_session_def
    by (rule calls.and_then_result [OF calls.pure(3)], intro build_calls conf)
      (auto simp: lift_result_def pointer_safe_def)
  have "effects (calls_only ?Q) (build_session_options_for_env api env so)"
    unfolding build_session_options_for_env_def apply_device_attach_def
    by (intro calls.and_then calls.pure inner calls.or_release calls_release calls.in_order)
      (auto simp: pointer_safe_def intro!: calls.pure calls.each calls_made)
  then show ?thesis by (simp add: effects_def)
qed

text \<open>The handles built for queries never get the logging callback.\<close>

lemma query_handles_skip_logger:
  "calls_only (\<lambda>c. fst c \<noteq> ''set_user_logging_function'') w (snd (build_handle api so w))"
proof -
  let ?Q = "\<lambda>c :: c_call. fst c \<noteq> ''set_user_logging_function''"
  have append: "effects (calls_only ?Q) (append_with_handle api f h es extra)"
    if "f \<in> {cuda_functions, tensor_rt_functions, rocm_functions, cann_functions, dnnl_functions}"
      "\<And>g. effects (calls_only ?Q) (extra g)" for f h es extra
    using that by (intro calls_append_with_handle)
      (auto simp: cuda_functions_def tensor_rt_functions_def rocm_functions_def cann_functions_def dnnl_functions_def)
  have "effects (calls_only ?Q) (apply_ep api h c)" for h c
    unfolding apply_ep_def append_kv_def update_with_value_def
    by (cases "ec_provider c") (auto intro!: append calls.pure calls.if_some calls_made simp: cstring_new_def)
  then have "effects (calls_only ?Q) (build_handle api so)"
    unfolding build_handle_def by (intro build_calls configure_calls) auto
  then show ?thesis by (simp add: effects_def)
qed

subsection \<open>A concrete engine\<close>

text \<open>It stores session config entries and accepts everything else.\<close>

definition demo_status :: "c_call \<Rightarrow> (nat \<Rightarrow> string \<rightharpoonup> string) \<Rightarrow> zerror option \<times> (nat \<Rightarrow> string \<rightharpoonup> string)" where
  "demo_status c n = (None, if fst c = ''add_session_config_entry''
     then (case snd c of [A_handle h, A_text k, A_text x] \<Rightarrow> n(snd h := (n (snd h))(k \<mapsto> x)) | _ \<Rightarrow> n) else n)"

definition demo_buffer :: "c_call \<Rightarrow> nat option \<Rightarrow> (nat \<Rightarrow> string \<rightharpoonup> string)
    \<Rightarrow> (zerror option \<times> nat \<times> string) \<times> (nat \<Rightarrow> string \<rightharpoonup> string)" where
  "demo_buffer c cap n = (case snd c of
       [A_handle h, A_text k] \<Rightarrow>
         (case n (snd h) k of None \<Rightarrow> (Some (Zerror 1 ''no such key''), 0, [])
          | Some x \<Rightarrow> if cap = Some (Suc (length x)) then (None, Suc (length x), x @ [CHR 0x00])
                      else (Some (Zerror 2 ''buffer too small''), Suc (length x), []))
     | _ \<Rightarrow> (Some (Zerror 2 ''bad call''), 0, []), n)"

definition demo_api :: "(nat \<Rightarrow> string \<rightharpoonup> string) c_api" where
  "demo_api = \<lparr>c_status = demo_status,
     c_create = (\<lambda>c s n. ((None, True), if fst c = ''create_session_options'' then n(s := Map.empty) else n)),
     c_many = (\<lambda>c s n. ((None, True, []), n)), c_int = (\<lambda>c n. ((None, 1), n)), c_text = (\<lambda>c n. ((None, None), n)), c_buffer = demo_buffer,
     c_ints = (\<lambda>c n. ((None, []), n)), c_texts = (\<lambda>c n. ((None, []), n)),
     c_chars = (\<lambda>h n. []), c_release = (\<lambda>h n. n)\<rparr>"

definition demo_world :: "(nat \<Rightarrow> string \<rightharpoonup> string) native_world" where
  "demo_world = \<lparr>engine = (\<lambda>_. Map.empty), next_serial = 3, live = {(Session_handle, 2)}, misuse = [], given_up = [], made = []\<rparr>"

lemma demo_null: "null_on_error demo_api"
  by (simp add: null_on_error_def demo_api_def)

lemma demo_wf: "native_wf demo_world"
  by (simp add: native_wf_def demo_world_def)

lemma demo_stores: "stores_config demo_api (\<lambda>n. n)"
  unfolding stores_config_def
  by (intro conjI allI impI) (auto simp: demo_api_def demo_status_def demo_buffer_def split: option.splits if_splits)

lemmas demo_build_defs = build_handle_def build_handle_inner_def configure_def configure_steps_def session_options_new_def
  set_arena_def set_mem_pattern_def set_profiling_def each_def if_some_def and_then_def give_def or_release_def
  create_handle_def create_ptr_def non_null_def lift_result_def status_def check_def demo_api_def demo_status_def
  demo_world_def note_call_def Let_def

lemma demo_build:
  "\<exists>v. build_handle demo_api session_options_new demo_world = (Inr (Session_options_handle, 3), v)"
  by (simp add: demo_build_defs)


theorem config_entry_reads_last_witness:
  "fst (config_entry demo_api (session_options_new\<lparr>so_config_entries := [(''k'', ''a''), (''k'', ''b'')]\<rparr>) ''k'' demo_world)
     = Inr (Some ''b'')"
proof -
  let ?so = "session_options_new\<lparr>so_config_entries := [(''k'', ''a''), (''k'', ''b'')]\<rparr>"
  have k: "\<not> has_nul ''k''" by (simp add: has_nul_def)
  have es: "\<forall>(k, x) \<in> set (so_config_entries ?so). \<not> has_nul x \<and> valid_utf8 x"
    by (simp add: has_nul_def byte_in_def)
  have built: "fst (build_handle demo_api ?so demo_world) = Inr (Session_options_handle, 3)"
    by (simp add: demo_build_defs)
  show ?thesis using config_entry_reads_last [OF demo_stores k es, of demo_world] unfolding built by simp
qed

end
