(* ===== verification/Run_Options.thy ===== *)
theory Run_Options
  imports Session_Options
begin

text \<open>
  st-zrt/src/run_options.rs: \<open>RunOptions\<close>, a plain value with an upserted list of config entries, its
  materialization (\<open>freeze\<close>) as a reusable handle, and the calls on the frozen handle.
\<close>

datatype logging_level = Level_Verbose | Level_Info | Level_Warning | Level_Error | Level_Fatal

fun level_i32 :: "logging_level \<Rightarrow> int" where
  "level_i32 Level_Verbose = 0"
| "level_i32 Level_Info = 1"
| "level_i32 Level_Warning = 2"
| "level_i32 Level_Error = 3"
| "level_i32 Level_Fatal = 4"

definition logging_level_from_i32 :: "int \<Rightarrow> zerror + logging_level" where
  "logging_level_from_i32 i =
     (if i = 0 then Inr Level_Verbose else if i = 1 then Inr Level_Info else if i = 2 then Inr Level_Warning
      else if i = 3 then Inr Level_Error else if i = 4 then Inr Level_Fatal
      else Inl (local_error (''zrt: unknown OrtLoggingLevel value '' @ show_int i)))"

text \<open>A synchronization stream is its pointer and the environment it belongs to.\<close>

record sync_stream =
  sy_ptr :: nat
  sy_env :: nat

record run_options =
  ro_log_severity :: "int option"
  ro_log_verbosity :: "int option"
  ro_run_tag :: "string option"
  ro_profiling_prefix :: "string option"
  ro_config_entries :: entries
  ro_sync_stream :: "sync_stream option"
  ro_adapters :: "nat list"

definition run_options_new :: run_options where
  "run_options_new = \<lparr>ro_log_severity = None, ro_log_verbosity = None, ro_run_tag = None, ro_profiling_prefix = None,
     ro_config_entries = [], ro_sync_stream = None, ro_adapters = []\<rparr>"

fun upsert_config :: "string \<Rightarrow> string \<Rightarrow> entries \<Rightarrow> entries" where
  "upsert_config key val [] = [(key, val)]"
| "upsert_config key val ((k, v) # es) = (if k = key then (k, val) # es else (k, v) # upsert_config key val es)"

lemma upsert_config_same: "upsert_config key val es = upsert_string_entry es key val"
  by (induction key val es rule: upsert_config.induct) auto

definition ro_upsert :: "string \<Rightarrow> string \<Rightarrow> run_options \<Rightarrow> run_options" where
  "ro_upsert key val r = r\<lparr>ro_config_entries := upsert_config key val (ro_config_entries r)\<rparr>"

definition with_gpu_graph_id :: "32 word \<Rightarrow> run_options \<Rightarrow> run_options" where
  "with_gpu_graph_id g = ro_upsert ''gpu_graph_id'' (show_i32 g)"

definition with_disable_ep_sync :: "bool \<Rightarrow> run_options \<Rightarrow> run_options" where
  "with_disable_ep_sync disabled = ro_upsert ''disable_synchronize_execution_providers'' (if disabled then ''1'' else ''0'')"

definition ro_graph_replay :: "32 word \<Rightarrow> run_options" where
  "ro_graph_replay g = with_gpu_graph_id g run_options_new"

definition ro_enqueued :: "32 word \<Rightarrow> run_options" where
  "ro_enqueued g = with_disable_ep_sync True (ro_graph_replay g)"

definition ro_with_log_severity :: "logging_level \<Rightarrow> run_options \<Rightarrow> run_options" where
  "ro_with_log_severity l r = r\<lparr>ro_log_severity := Some (level_i32 l)\<rparr>"

definition ro_with_log_verbosity :: "int \<Rightarrow> run_options \<Rightarrow> run_options" where
  "ro_with_log_verbosity i r = r\<lparr>ro_log_verbosity := Some i\<rparr>"

definition ro_with_run_tag :: "string \<Rightarrow> run_options \<Rightarrow> run_options" where
  "ro_with_run_tag t r = r\<lparr>ro_run_tag := Some t\<rparr>"

definition ro_with_profiling :: "string \<Rightarrow> run_options \<Rightarrow> run_options" where
  "ro_with_profiling p r = r\<lparr>ro_profiling_prefix := Some p\<rparr>"

definition validate_cstring :: "string \<Rightarrow> string \<Rightarrow> zerror + string" where
  "validate_cstring s what = (case cstring_new s of None \<Rightarrow> Inl (local_error (what @ '' contains a NUL'')) | Some c \<Rightarrow> Inr c)"

definition ro_with_config :: "string \<Rightarrow> string \<Rightarrow> run_options \<Rightarrow> zerror + run_options" where
  "ro_with_config key val r =
     (case validate_cstring key ''run config key'' of Inl e \<Rightarrow> Inl e
      | Inr _ \<Rightarrow> case validate_cstring val ''run config value'' of Inl e \<Rightarrow> Inl e | Inr _ \<Rightarrow> Inr (ro_upsert key val r))"

definition with_sync_stream :: "sync_stream \<Rightarrow> run_options \<Rightarrow> run_options" where
  "with_sync_stream s r = r\<lparr>ro_sync_stream := Some s\<rparr>"

definition with_lora_adapter :: "nat \<Rightarrow> run_options \<Rightarrow> run_options" where
  "with_lora_adapter a r = r\<lparr>ro_adapters := ro_adapters r @ [a]\<rparr>"

definition ro_log_severity_of :: "run_options \<Rightarrow> zerror + logging_level option" where
  "ro_log_severity_of r = (case ro_log_severity r of None \<Rightarrow> Inr None
     | Some i \<Rightarrow> (case logging_level_from_i32 i of Inl e \<Rightarrow> Inl e | Inr l \<Rightarrow> Inr (Some l)))"

fun find_entry :: "string \<Rightarrow> entries \<Rightarrow> string option" where
  "find_entry key [] = None"
| "find_entry key ((k, v) # es) = (if k = key then Some v else find_entry key es)"

definition ro_config_entry :: "string \<Rightarrow> run_options \<Rightarrow> string option" where
  "ro_config_entry key r = find_entry key (ro_config_entries r)"

definition ro_graph_id :: "run_options \<Rightarrow> 32 word option" where
  "ro_graph_id r = Option.bind (ro_config_entry ''gpu_graph_id'' r) read_i32"

subsection \<open>Frozen options\<close>

record materialized =
  mr_opts :: handle
  mr_sync_stream :: "sync_stream option"
  mr_adapters :: "nat list"

definition frozen_steps :: "'n c_api \<Rightarrow> run_options \<Rightarrow> handle \<Rightarrow> ('n, unit) native_op list" where
  "frozen_steps api r h = [
     if_some (ro_log_severity r) (\<lambda>i. and_then (lift_result (logging_level_from_i32 i)) (\<lambda>_.
       status api ''run_options_set_run_log_severity_level'' [A_handle h, A_int i])),
     if_some (ro_log_verbosity r) (\<lambda>i. status api ''run_options_set_run_log_verbosity_level'' [A_handle h, A_int i]),
     if_some (ro_run_tag r) (\<lambda>t. and_then (lift_result (validate_cstring t ''run tag'')) (\<lambda>t.
       status api ''run_options_set_run_tag'' [A_handle h, A_text t])),
     if_some (ro_profiling_prefix r) (\<lambda>p. and_then (lift_result (validate_cstring p ''profile file prefix'')) (\<lambda>p.
       status api ''run_options_enable_profiling'' [A_handle h, A_text p])),
     each (\<lambda>(k, v). and_then (lift_result (validate_cstring k ''run config key'')) (\<lambda>k.
       and_then (lift_result (validate_cstring v ''run config value'')) (\<lambda>v.
         status api ''add_run_config_entry'' [A_handle h, A_text k, A_text v]))) (ro_config_entries r),
     if_some (ro_sync_stream r) (\<lambda>s. void_call api ''run_options_set_sync_stream'' [A_handle h, A_ptr (sy_ptr s)]),
     each (\<lambda>a. status api ''run_options_add_active_lora_adapter'' [A_handle h, A_ptr a]) (ro_adapters r)]"

text \<open>The handle is owned by the value under construction, whose destructor runs on every error.\<close>

definition freeze :: "'n c_api \<Rightarrow> run_options \<Rightarrow> ('n, materialized) native_op" where
  "freeze api r =
     and_then (create_handle api Run_options_handle ''create_run_options'' [] ''run options'') (\<lambda>h.
       or_release api h (and_then (in_order (frozen_steps api r h)) (\<lambda>_.
         give \<lparr>mr_opts = h, mr_sync_stream = ro_sync_stream r, mr_adapters = ro_adapters r\<rparr>)))"

definition shares_environment :: "nat \<Rightarrow> materialized \<Rightarrow> bool" where
  "shares_environment env m = (case mr_sync_stream m of None \<Rightarrow> True | Some s \<Rightarrow> sy_env s = env)"

definition mr_log_severity :: "'n c_api \<Rightarrow> materialized \<Rightarrow> ('n, logging_level) native_op" where
  "mr_log_severity api m = and_then (query_int api ''run_options_get_run_log_severity_level'' [A_handle (mr_opts m)]) (\<lambda>i.
     lift_result (logging_level_from_i32 i))"

definition mr_log_verbosity :: "'n c_api \<Rightarrow> materialized \<Rightarrow> ('n, int) native_op" where
  "mr_log_verbosity api m = query_int api ''run_options_get_run_log_verbosity_level'' [A_handle (mr_opts m)]"

definition mr_run_tag :: "'n c_api \<Rightarrow> materialized \<Rightarrow> ('n, string) native_op" where
  "mr_run_tag api m = and_then (query_text api ''run_options_get_run_tag'' [A_handle (mr_opts m)]) (\<lambda>t.
     case t of None \<Rightarrow> give [] | Some raw \<Rightarrow> lift_result (cstr_to_string raw ''run tag''))"

text \<open>\<open>GetRunConfigEntry\<close> returns the string and no status.\<close>

definition borrow_text :: "'n c_api \<Rightarrow> string \<Rightarrow> c_arg list \<Rightarrow> ('n, string option) native_op" where
  "borrow_text api f as w = (case c_text api (f, as) (engine w) of ((_, t), n) \<Rightarrow> (Inr t, (note_call (f, as) w)\<lparr>engine := n\<rparr>))"

definition mr_config_entry :: "'n c_api \<Rightarrow> materialized \<Rightarrow> string \<Rightarrow> ('n, string option) native_op" where
  "mr_config_entry api m key = and_then (lift_result (validate_cstring key ''run config key'')) (\<lambda>k.
     and_then (borrow_text api ''get_run_config_entry'' [A_handle (mr_opts m), A_text k]) (\<lambda>t.
       case t of None \<Rightarrow> give None
       | Some raw \<Rightarrow> and_then (lift_result (cstr_to_string raw ''run config entry'')) (\<lambda>s. give (Some s))))"

definition mr_terminate :: "'n c_api \<Rightarrow> materialized \<Rightarrow> ('n, unit) native_op" where
  "mr_terminate api m = status api ''run_options_set_terminate'' [A_handle (mr_opts m)]"

definition mr_unset_terminate :: "'n c_api \<Rightarrow> materialized \<Rightarrow> ('n, unit) native_op" where
  "mr_unset_terminate api m = status api ''run_options_unset_terminate'' [A_handle (mr_opts m)]"

definition mr_drop :: "'n c_api \<Rightarrow> materialized \<Rightarrow> ('n, unit) native_op" where
  "mr_drop api m = drop_handle api (mr_opts m)"

subsection \<open>Config entries of a run\<close>

lemma find_entry_map: "find_entry key es = map_of es key"
  by (induction key es rule: find_entry.induct) auto

lemma ro_config_entry_upsert [simp]:
  "ro_config_entry key (ro_upsert k v r) = (if key = k then Some v else ro_config_entry key r)"
  by (simp add: ro_config_entry_def ro_upsert_def find_entry_map upsert_config_same)

inductive run_options_built :: "run_options \<Rightarrow> bool" where
  "run_options_built run_options_new"
| "run_options_built r \<Longrightarrow> run_options_built (ro_with_log_severity l r)"
| "run_options_built r \<Longrightarrow> run_options_built (ro_with_log_verbosity i r)"
| "run_options_built r \<Longrightarrow> run_options_built (ro_with_run_tag t r)"
| "run_options_built r \<Longrightarrow> run_options_built (ro_with_profiling t r)"
| "run_options_built r \<Longrightarrow> run_options_built (with_gpu_graph_id g r)"
| "run_options_built r \<Longrightarrow> run_options_built (with_disable_ep_sync b r)"
| "run_options_built r \<Longrightarrow> ro_with_config k v r = Inr r' \<Longrightarrow> run_options_built r'"
| "run_options_built r \<Longrightarrow> run_options_built (with_sync_stream s r)"
| "run_options_built r \<Longrightarrow> run_options_built (with_lora_adapter a r)"

lemmas ro_setters = ro_with_log_severity_def ro_with_log_verbosity_def ro_with_run_tag_def ro_with_profiling_def
  with_gpu_graph_id_def with_disable_ep_sync_def ro_with_config_def with_sync_stream_def with_lora_adapter_def

definition run_options_ok :: "run_options \<Rightarrow> bool" where
  "run_options_ok r \<longleftrightarrow> distinct (map fst (ro_config_entries r)) \<and> no_nul_entries (ro_config_entries r)
     \<and> (\<forall>i. ro_log_severity r = Some i \<longrightarrow> (\<exists>l. logging_level_from_i32 i = Inr l))"

lemma level_roundtrip [simp]: "logging_level_from_i32 (level_i32 l) = Inr l"
  by (cases l) (simp_all add: logging_level_from_i32_def)

lemma ok_upsert:
  "run_options_ok r \<Longrightarrow> \<not> has_nul k \<Longrightarrow> \<not> has_nul v \<Longrightarrow> run_options_ok (ro_upsert k v r)"
  using set_upsert [of "ro_config_entries r" k v]
  by (auto simp: run_options_ok_def ro_upsert_def upsert_config_same distinct_upsert no_nul_entries_def)

lemma run_options_built_ok: "run_options_built r \<Longrightarrow> run_options_ok r"
proof (induction rule: run_options_built.induct)
  case (6 r g)
  have "\<not> has_nul ''gpu_graph_id''" by (simp add: has_nul_def)
  then show ?case using 6 by (simp add: with_gpu_graph_id_def ok_upsert show_i32_def)
next
  case (7 r b)
  have "\<not> has_nul ''disable_synchronize_execution_providers''" "\<not> has_nul ''1''" "\<not> has_nul ''0''" by (simp_all add: has_nul_def)
  then show ?case using 7 by (simp add: with_disable_ep_sync_def ok_upsert)
next
  case (8 r k v r')
  then show ?case
    by (auto simp: ro_with_config_def validate_cstring_def cstring_new_def ok_upsert split: if_splits)
qed (auto simp: run_options_ok_def run_options_new_def ro_setters no_nul_entries_def)

text \<open>
  The annotation of a captured graph survives its way through decimal text, for every 32-bit id, and
  composing other typed settings does not disturb it: replaying options carry the id, enqueued options carry
  the id and switch the provider's own synchronization off.
\<close>

theorem graph_id_roundtrip:
  "ro_graph_id (with_gpu_graph_id g r) = Some g
   \<and> ro_graph_id (with_disable_ep_sync b (with_gpu_graph_id g r)) = Some g
   \<and> ro_graph_id (with_gpu_graph_id g (with_gpu_graph_id g' r)) = Some g
   \<and> ro_graph_id (ro_graph_replay g) = Some g
   \<and> ro_graph_id (ro_enqueued g) = Some g
   \<and> ro_config_entry ''disable_synchronize_execution_providers'' (ro_enqueued g) = Some ''1''
   \<and> ro_config_entry ''disable_synchronize_execution_providers'' (ro_graph_replay g) = None"
  by (simp add: ro_graph_id_def ro_enqueued_def ro_graph_replay_def with_gpu_graph_id_def with_disable_ep_sync_def)
    (simp add: ro_config_entry_def run_options_new_def)

subsection \<open>Freezing\<close>

definition frozen_calls :: "run_options \<Rightarrow> handle \<Rightarrow> c_call list" where
  "frozen_calls r h = concat [
     calls_if (ro_log_severity r) (\<lambda>i. (''run_options_set_run_log_severity_level'', [A_handle h, A_int i])),
     calls_if (ro_log_verbosity r) (\<lambda>i. (''run_options_set_run_log_verbosity_level'', [A_handle h, A_int i])),
     calls_if (ro_run_tag r) (\<lambda>t. (''run_options_set_run_tag'', [A_handle h, A_text t])),
     calls_if (ro_profiling_prefix r) (\<lambda>p. (''run_options_enable_profiling'', [A_handle h, A_text p])),
     map (\<lambda>(k, v). (''add_run_config_entry'', [A_handle h, A_text k, A_text v])) (ro_config_entries r),
     calls_if (ro_sync_stream r) (\<lambda>s. (''run_options_set_sync_stream'', [A_handle h, A_ptr (sy_ptr s)])),
     map (\<lambda>a. (''run_options_add_active_lora_adapter'', [A_handle h, A_ptr a])) (ro_adapters r)]"

lemma makes_checked_text:
  assumes "\<And>c. makes (f c) (g c)"
  shows "makes (and_then (lift_result (validate_cstring s what)) f) (g s)"
proof -
  have "makes (and_then (lift_result (validate_cstring s what)) f) ([] @ g s)"
  proof (rule makes_and_then [OF makes_pure(2)])
    fix w a v
    assume "lift_result (validate_cstring s what) w = (Inr a, v)"
    then have "a = s" by (auto simp: lift_result_def validate_cstring_def cstring_new_def split: if_splits)
    then show "makes (f a) (g s)" using assms by simp
  qed
  then show ?thesis by simp
qed

lemma makes_each_one: "(\<And>x. makes (f x) [g x]) \<Longrightarrow> makes (each f xs) (map g xs)"
  using makes_each [of f "\<lambda>x. [g x]" xs] by (simp add: concat_map_singleton)

lemma makes_frozen_steps: "makes (in_order (frozen_steps api r h)) (frozen_calls r h)"
proof -
  have entries: "makes (each (\<lambda>(k, v). and_then (lift_result (validate_cstring k ''run config key'')) (\<lambda>k.
       and_then (lift_result (validate_cstring v ''run config value'')) (\<lambda>v.
         status api ''add_run_config_entry'' [A_handle h, A_text k, A_text v]))) (ro_config_entries r))
     (map (\<lambda>(k, v). (''add_run_config_entry'', [A_handle h, A_text k, A_text v])) (ro_config_entries r))"
    by (rule makes_each_one) (auto split: prod.split intro!: makes_checked_text makes_one)
  have adapters: "makes (each (\<lambda>a. status api ''run_options_add_active_lora_adapter'' [A_handle h, A_ptr a]) (ro_adapters r))
     (map (\<lambda>a. (''run_options_add_active_lora_adapter'', [A_handle h, A_ptr a])) (ro_adapters r))"
    by (rule makes_each_one) (rule makes_one)
  have level: "makes (and_then (lift_result (logging_level_from_i32 i)) (\<lambda>_. status api f as)) [(f, as)]" for i f as
    using makes_and_then [OF makes_pure(2) makes_one(1)] by simp
  show ?thesis
    unfolding frozen_steps_def frozen_calls_def
    by (rule makes_in_order) (auto intro!: makes_if_some makes_checked_text makes_one entries adapters level)
qed

lemma owns_freeze:
  assumes "null_on_error api"
  shows "accounts B {} (freeze api r) (\<lambda>m. {mr_opts m})"
  unfolding freeze_def
proof (rule owns_and_then, rule owns_create_handle [OF assms], simp)
  fix h
  have steps: "accounts (insert h B) {} (in_order (frozen_steps api r h)) (\<lambda>_. {})"
    unfolding frozen_steps_def
    by (rule owns_in_order) (auto intro!: owns_intros)
  show "accounts B {h} (or_release api h (and_then (in_order (frozen_steps api r h)) (\<lambda>_.
      give \<lparr>mr_opts = h, mr_sync_stream = ro_sync_stream r, mr_adapters = ro_adapters r\<rparr>))) (\<lambda>m. {mr_opts m})"
    using steps by (rule owns_or_release_into) simp
qed

lemma owns_frozen_calls [owns_intros]:
  "mr_opts m \<in> B \<Longrightarrow> accounts B {} (mr_log_severity api m) (\<lambda>_. {})"
  "mr_opts m \<in> B \<Longrightarrow> accounts B {} (mr_log_verbosity api m) (\<lambda>_. {})"
  "mr_opts m \<in> B \<Longrightarrow> accounts B {} (mr_run_tag api m) (\<lambda>_. {})"
  "mr_opts m \<in> B \<Longrightarrow> accounts B {} (mr_terminate api m) (\<lambda>_. {})"
  "mr_opts m \<in> B \<Longrightarrow> accounts B {} (mr_unset_terminate api m) (\<lambda>_. {})"
  "accounts B {mr_opts m} (mr_drop api m) (\<lambda>_. {})"
  unfolding mr_log_severity_def mr_log_verbosity_def mr_run_tag_def mr_terminate_def mr_unset_terminate_def mr_drop_def
  by (auto intro!: owns_intros split: option.split)

text \<open>The setters as data: options are built by applying them one after another to the empty options.\<close>

datatype run_setting = Set_severity logging_level | Set_verbosity int | Set_tag string | Set_profiling string
  | Set_graph_id "32 word" | Set_ep_sync_off bool | Set_config string string | Set_stream sync_stream | Add_adapter nat

fun apply_setting :: "run_setting \<Rightarrow> run_options \<Rightarrow> zerror + run_options" where
  "apply_setting (Set_severity l) r = Inr (ro_with_log_severity l r)"
| "apply_setting (Set_verbosity i) r = Inr (ro_with_log_verbosity i r)"
| "apply_setting (Set_tag t) r = Inr (ro_with_run_tag t r)"
| "apply_setting (Set_profiling t) r = Inr (ro_with_profiling t r)"
| "apply_setting (Set_graph_id g) r = Inr (with_gpu_graph_id g r)"
| "apply_setting (Set_ep_sync_off b) r = Inr (with_disable_ep_sync b r)"
| "apply_setting (Set_config k v) r = ro_with_config k v r"
| "apply_setting (Set_stream s) r = Inr (with_sync_stream s r)"
| "apply_setting (Add_adapter a) r = Inr (with_lora_adapter a r)"

fun apply_settings :: "run_setting list \<Rightarrow> run_options \<Rightarrow> zerror + run_options" where
  "apply_settings [] r = Inr r"
| "apply_settings (s # ss) r = (case apply_setting s r of Inl e \<Rightarrow> Inl e | Inr r' \<Rightarrow> apply_settings ss r')"

fun entry_given :: "run_setting \<Rightarrow> (string \<times> string) list" where
  "entry_given (Set_graph_id g) = [(''gpu_graph_id'', show_i32 g)]"
| "entry_given (Set_ep_sync_off b) = [(''disable_synchronize_execution_providers'', if b then ''1'' else ''0'')]"
| "entry_given (Set_config k v) = [(k, v)]"
| "entry_given _ = []"

lemma settings_built: "run_options_built r \<Longrightarrow> apply_settings ss r = Inr r' \<Longrightarrow> run_options_built r'"
proof (induction ss arbitrary: r)
  case (Cons s ss)
  then obtain q where q: "apply_setting s r = Inr q" "apply_settings ss q = Inr r'" by (auto split: sum.splits)
  have "run_options_built q" using Cons.prems(1) q(1) by (cases s) (auto intro: run_options_built.intros)
  then show ?case using Cons.IH q(2) by blast
qed simp

lemma entries_set: "apply_setting s r = Inr q \<Longrightarrow> map_of (ro_config_entries q) = map_of (ro_config_entries r) ++ map_of (entry_given s)"
  by (cases s) (auto simp: ro_setters ro_upsert_def upsert_config_same fun_eq_iff validate_cstring_def split: sum.splits option.splits)

lemma settings_entries:
  "apply_settings ss r = Inr r' \<Longrightarrow> map_of (ro_config_entries r') = map_of (ro_config_entries r) ++ map_of (rev (concat (map entry_given ss)))"
proof (induction ss arbitrary: r)
  case (Cons s ss)
  then obtain q where q: "apply_setting s r = Inr q" "apply_settings ss q = Inr r'" by (auto split: sum.splits)
  have "rev (entry_given s) = entry_given s" by (cases s) auto
  then show ?case using Cons.IH [OF q(2)] entries_set [OF q(1)] by simp
qed simp

text \<open>
  What the engine answers to a list of calls that is broken off at the first error status. The setter of
  the stream returns no status.
\<close>

fun replay :: "'n c_api \<Rightarrow> c_call list \<Rightarrow> 'n \<Rightarrow> zerror option \<times> 'n" where
  "replay api [] n = (None, n)"
| "replay api (c # cs) n = (case c_status api c n of (st, n') \<Rightarrow>
     if st \<noteq> None \<and> fst c \<noteq> ''run_options_set_sync_stream'' then (st, n') else replay api cs n')"

lemma replay_append: "replay api (cs @ ds) n = (case replay api cs n of (Some e, n') \<Rightarrow> (Some e, n') | (None, n') \<Rightarrow> replay api ds n')"
  by (induction cs arbitrary: n) (auto split: prod.splits option.splits)

text \<open>An operation that makes these calls, stops at the first refusal, and then fails by itself if told so.\<close>

definition performs :: "'n c_api \<Rightarrow> ('n, unit) native_op \<Rightarrow> c_call list \<Rightarrow> zerror option \<Rightarrow> bool" where
  "performs api m cs own \<longleftrightarrow> (\<forall>w. case replay api cs (engine w) of
       (Some e, n) \<Rightarrow> fst (m w) = Inl e
     | (None, n) \<Rightarrow> engine (snd (m w)) = n \<and> fst (m w) = check own)"

lemma performs_and_then:
  assumes "performs api m cs None" "performs api f ds own"
  shows "performs api (and_then m (\<lambda>_. f)) (cs @ ds) own"
  unfolding performs_def
proof
  fix w
  obtain q v where m: "m w = (q, v)" by fastforce
  show "case replay api (cs @ ds) (engine w) of (Some e, n) \<Rightarrow> fst (and_then m (\<lambda>_. f) w) = Inl e
     | (None, n) \<Rightarrow> engine (snd (and_then m (\<lambda>_. f) w)) = n \<and> fst (and_then m (\<lambda>_. f) w) = check own"
    using assms(1) [unfolded performs_def, rule_format, of w] assms(2) [unfolded performs_def, rule_format, of v] m
    by (auto simp: replay_append and_then_def check_def split: prod.splits option.splits sum.splits)
qed

lemma performs_stop: "performs api m cs (Some e) \<Longrightarrow> performs api (and_then m f) cs (Some e)"
  unfolding performs_def
proof
  fix w
  assume m: "\<forall>w. case replay api cs (engine w) of (Some x, n) \<Rightarrow> fst (m w) = Inl x
     | (None, n) \<Rightarrow> engine (snd (m w)) = n \<and> fst (m w) = check (Some e)"
  have "case replay api cs (engine w) of (Some x, n) \<Rightarrow> fst (m w) = Inl x
     | (None, n) \<Rightarrow> engine (snd (m w)) = n \<and> fst (m w) = Inl e" using m [rule_format, of w] by (auto simp: check_def split: prod.splits option.splits)
  then show "case replay api cs (engine w) of (Some x, n) \<Rightarrow> fst (and_then m f w) = Inl x
     | (None, n) \<Rightarrow> engine (snd (and_then m f w)) = n \<and> fst (and_then m f w) = check (Some e)"
    by (cases "m w") (auto simp: and_then_def check_def split: prod.splits option.splits sum.splits)
qed

lemma performs_give: "performs api (give ()) [] None"
  by (simp add: performs_def give_def check_def)

lemma performs_status: "f \<noteq> ''run_options_set_sync_stream'' \<Longrightarrow> performs api (status api f as) [(f, as)] None"
  by (auto simp: performs_def status_def check_def split: prod.splits option.splits)

lemma performs_stream: "performs api (void_call api ''run_options_set_sync_stream'' as) [(''run_options_set_sync_stream'', as)] None"
  by (auto simp: performs_def void_call_def check_def split: prod.splits)

lemma performs_each: "(\<And>x. x \<in> set xs \<Longrightarrow> performs api (f x) [g x] None) \<Longrightarrow> performs api (each f xs) (map g xs) None"
  unfolding each_def
proof (induction xs)
  case (Cons x xs)
  then show ?case using performs_and_then [of api "f x" "[g x]" "in_order (map f xs)" "map g xs" None] by simp
qed (simp add: performs_give)

lemma performs_if_some: "(\<And>a. x = Some a \<Longrightarrow> performs api (f a) [g a] None) \<Longrightarrow> performs api (if_some x f) (calls_if x g) None"
  by (cases x) (simp_all add: if_some_def calls_if_def performs_give)

lemma checked_text: "\<not> has_nul s \<Longrightarrow> and_then (lift_result (validate_cstring s what)) f = f s"
  by (simp add: fun_eq_iff and_then_def lift_result_def validate_cstring_def cstring_new_def)

lemma performs_refusal:
  "has_nul s \<Longrightarrow> performs api (and_then (lift_result (validate_cstring s what)) f) [] (Some (local_error (what @ '' contains a NUL'')))"
  by (simp add: performs_def and_then_def lift_result_def validate_cstring_def cstring_new_def check_def)

text \<open>
  The calls that freezing makes on an engine that accepts them all, and its own refusal: a NUL byte in
  the tag stops it after the log settings, one in the profiling prefix after the tag.
\<close>

definition planned_calls :: "run_options \<Rightarrow> handle \<Rightarrow> c_call list \<times> zerror option" where
  "planned_calls r h =
     (let logs = calls_if (ro_log_severity r) (\<lambda>i. (''run_options_set_run_log_severity_level'', [A_handle h, A_int i]))
             @ calls_if (ro_log_verbosity r) (\<lambda>i. (''run_options_set_run_log_verbosity_level'', [A_handle h, A_int i]));
          tag = calls_if (ro_run_tag r) (\<lambda>t. (''run_options_set_run_tag'', [A_handle h, A_text t]))
      in if \<exists>t. ro_run_tag r = Some t \<and> has_nul t then (logs, Some (local_error ''run tag contains a NUL''))
         else if \<exists>p. ro_profiling_prefix r = Some p \<and> has_nul p
         then (logs @ tag, Some (local_error ''profile file prefix contains a NUL''))
         else (frozen_calls r h, None))"

lemma performs_frozen_steps:
  assumes "run_options_ok r"
  shows "performs api (in_order (frozen_steps api r h)) (fst (planned_calls r h)) (snd (planned_calls r h))"
proof -
  obtain sev verb tag prof rest where steps: "frozen_steps api r h = [sev, verb, tag, prof] @ rest"
    and sev: "performs api sev (calls_if (ro_log_severity r) (\<lambda>i. (''run_options_set_run_log_severity_level'', [A_handle h, A_int i]))) None"
    and verb: "performs api verb (calls_if (ro_log_verbosity r) (\<lambda>i. (''run_options_set_run_log_verbosity_level'', [A_handle h, A_int i]))) None"
    and tag: "if \<exists>t. ro_run_tag r = Some t \<and> has_nul t then performs api tag [] (Some (local_error ''run tag contains a NUL''))
       else performs api tag (calls_if (ro_run_tag r) (\<lambda>t. (''run_options_set_run_tag'', [A_handle h, A_text t]))) None"
    and prof: "if \<exists>p. ro_profiling_prefix r = Some p \<and> has_nul p
       then performs api prof [] (Some (local_error ''profile file prefix contains a NUL''))
       else performs api prof (calls_if (ro_profiling_prefix r) (\<lambda>p. (''run_options_enable_profiling'', [A_handle h, A_text p]))) None"
    and rest: "performs api (in_order rest) (map (\<lambda>(k, v). (''add_run_config_entry'', [A_handle h, A_text k, A_text v])) (ro_config_entries r)
       @ calls_if (ro_sync_stream r) (\<lambda>s. (''run_options_set_sync_stream'', [A_handle h, A_ptr (sy_ptr s)]))
       @ map (\<lambda>a. (''run_options_add_active_lora_adapter'', [A_handle h, A_ptr a])) (ro_adapters r)) None"
  proof
    show "frozen_steps api r h = [frozen_steps api r h ! 0, frozen_steps api r h ! 1, frozen_steps api r h ! 2, frozen_steps api r h ! 3]
        @ drop 4 (frozen_steps api r h)" by (simp add: frozen_steps_def)
    show "performs api (frozen_steps api r h ! 0)
        (calls_if (ro_log_severity r) (\<lambda>i. (''run_options_set_run_log_severity_level'', [A_handle h, A_int i]))) None"
    proof -
      have "and_then (lift_result (logging_level_from_i32 i)) (\<lambda>_. m) = m" if "ro_log_severity r = Some i" for i and m :: "('a, unit) native_op"
        using assms that unfolding run_options_ok_def by (force simp: fun_eq_iff and_then_def lift_result_def)
      then show ?thesis unfolding frozen_steps_def by (auto intro!: performs_if_some performs_status)
    qed
    show "performs api (frozen_steps api r h ! 1)
        (calls_if (ro_log_verbosity r) (\<lambda>i. (''run_options_set_run_log_verbosity_level'', [A_handle h, A_int i]))) None"
      by (auto simp: frozen_steps_def intro!: performs_if_some performs_status)
    show "if \<exists>t. ro_run_tag r = Some t \<and> has_nul t then performs api (frozen_steps api r h ! 2) [] (Some (local_error ''run tag contains a NUL''))
       else performs api (frozen_steps api r h ! 2) (calls_if (ro_run_tag r) (\<lambda>t. (''run_options_set_run_tag'', [A_handle h, A_text t]))) None"
      using performs_refusal [of _ api "''run tag''"]
      by (auto simp: frozen_steps_def if_some_def checked_text calls_if_def intro!: performs_status performs_give split: option.split)
    show "if \<exists>p. ro_profiling_prefix r = Some p \<and> has_nul p
       then performs api (frozen_steps api r h ! 3) [] (Some (local_error ''profile file prefix contains a NUL''))
       else performs api (frozen_steps api r h ! 3) (calls_if (ro_profiling_prefix r) (\<lambda>p. (''run_options_enable_profiling'', [A_handle h, A_text p]))) None"
      using performs_refusal [of _ api "''profile file prefix''"]
      by (auto simp: frozen_steps_def if_some_def checked_text calls_if_def intro!: performs_status performs_give split: option.split)
    have entries: "performs api (each (\<lambda>(k, v). and_then (lift_result (validate_cstring k ''run config key'')) (\<lambda>k.
       and_then (lift_result (validate_cstring v ''run config value'')) (\<lambda>v.
         status api ''add_run_config_entry'' [A_handle h, A_text k, A_text v]))) (ro_config_entries r))
       (map (\<lambda>(k, v). (''add_run_config_entry'', [A_handle h, A_text k, A_text v])) (ro_config_entries r)) None"
      using assms by (intro performs_each)
        (auto simp: run_options_ok_def no_nul_entries_def checked_text intro!: performs_status)
    have "performs api (and_then (each (\<lambda>a. status api ''run_options_add_active_lora_adapter'' [A_handle h, A_ptr a]) (ro_adapters r)) (\<lambda>_. give ()))
       (map (\<lambda>a. (''run_options_add_active_lora_adapter'', [A_handle h, A_ptr a])) (ro_adapters r) @ []) None"
      by (intro performs_and_then performs_each performs_status performs_give) simp
    then show "performs api (in_order (drop 4 (frozen_steps api r h)))
       (map (\<lambda>(k, v). (''add_run_config_entry'', [A_handle h, A_text k, A_text v])) (ro_config_entries r)
       @ calls_if (ro_sync_stream r) (\<lambda>s. (''run_options_set_sync_stream'', [A_handle h, A_ptr (sy_ptr s)]))
       @ map (\<lambda>a. (''run_options_add_active_lora_adapter'', [A_handle h, A_ptr a])) (ro_adapters r)) None"
      by (simp add: frozen_steps_def) (intro performs_and_then entries performs_if_some performs_stream)
  qed
  note logs = performs_and_then [OF sev performs_and_then [OF verb]]
  consider t where "ro_run_tag r = Some t" "has_nul t" | "\<forall>t. ro_run_tag r = Some t \<longrightarrow> \<not> has_nul t" by blast
  then show ?thesis
  proof cases
    case 1
    then have "performs api tag [] (Some (local_error ''run tag contains a NUL''))" using tag by auto
    from logs [OF performs_stop [OF this, of "\<lambda>_. in_order (prof # rest)"]] show ?thesis
      using 1 by (simp add: steps planned_calls_def Let_def)
  next
    case 2
    then have tag': "performs api tag (calls_if (ro_run_tag r) (\<lambda>t. (''run_options_set_run_tag'', [A_handle h, A_text t]))) None"
      using tag by auto
    show ?thesis
    proof (cases "\<exists>p. ro_profiling_prefix r = Some p \<and> has_nul p")
      case True
      then have "performs api prof [] (Some (local_error ''profile file prefix contains a NUL''))" using prof by auto
      from logs [OF performs_and_then [OF tag' performs_stop [OF this, of "\<lambda>_. in_order rest"]]] show ?thesis
        using 2 True by (auto simp: steps planned_calls_def Let_def)
    next
      case False
      then have "performs api prof (calls_if (ro_profiling_prefix r) (\<lambda>p. (''run_options_enable_profiling'', [A_handle h, A_text p]))) None"
        using prof by auto
      from logs [OF performs_and_then [OF tag' performs_and_then [OF this rest]]] show ?thesis
        using 2 False by (auto simp: steps planned_calls_def frozen_calls_def Let_def)
    qed
  qed
qed

lemma freeze_result:
  assumes "run_options_ok r"
    and c: "create_handle api Run_options_handle ''create_run_options'' [] ''run options'' w = (Inr h, u)"
  shows "fst (freeze api r w) = (case replay api (fst (planned_calls r h)) (engine u) of
      (Some e, _) \<Rightarrow> Inl e
    | (None, _) \<Rightarrow> (case snd (planned_calls r h) of Some e \<Rightarrow> Inl e
        | None \<Rightarrow> Inr \<lparr>mr_opts = h, mr_sync_stream = ro_sync_stream r, mr_adapters = ro_adapters r\<rparr>))"
  using performs_frozen_steps [OF assms(1), of api h, unfolded performs_def, rule_format, of u] c
  by (auto simp: freeze_def and_then_def or_release_def give_def check_def split: prod.splits sum.splits option.splits)

text \<open>
  C25. Freezing hands the options to the engine unchanged. Options made by a sequence of setters have
  every config key once, without NUL bytes, and under each key the value that was given last. If the
  engine creates the handle, \<open>freeze\<close> fails exactly if the engine refuses one of the calls, with its
  first refusal, or if the tag or the profiling prefix has a NUL byte, with the error for it; the calls are
  the configured settings in order, each entry once, up to that point. If the engine creates none, its error
  is the result. A success keeps the stream and the adapters that the engine borrows, a failure leaves no
  handle.
\<close>

theorem freeze_exact:
  assumes "null_on_error api" "native_wf w" "apply_settings ss run_options_new = Inr r"
  shows "settled w (\<lambda>m. {mr_opts m}) (freeze api r w)
    \<and> distinct (map fst (ro_config_entries r)) \<and> no_nul_entries (ro_config_entries r)
    \<and> map_of (ro_config_entries r) = map_of (rev (concat (map entry_given ss)))
    \<and> (case create_handle api Run_options_handle ''create_run_options'' [] ''run options'' w of
         (Inl e, _) \<Rightarrow> fst (freeze api r w) = Inl e
       | (Inr h, u) \<Rightarrow> fst (freeze api r w) = (case replay api (fst (planned_calls r h)) (engine u) of
             (Some e, _) \<Rightarrow> Inl e
           | (None, _) \<Rightarrow> (case snd (planned_calls r h) of Some e \<Rightarrow> Inl e
               | None \<Rightarrow> Inr \<lparr>mr_opts = h, mr_sync_stream = ro_sync_stream r, mr_adapters = ro_adapters r\<rparr>)))
    \<and> (\<forall>m v. freeze api r w = (Inr m, v) \<longrightarrow> made v = made w @ (''create_run_options'', []) # frozen_calls r (mr_opts m))"
proof -
  have ok: "run_options_ok r" using settings_built [OF run_options_built.intros(1) assms(3)] by (rule run_options_built_ok)
  have "made v = made w @ (''create_run_options'', []) # frozen_calls r (mr_opts m)" if run: "freeze api r w = (Inr m, v)" for m v
  proof -
    obtain h u where c: "create_handle api Run_options_handle ''create_run_options'' [] ''run options'' w = (Inr h, u)"
      and s: "in_order (frozen_steps api r h) u = (Inr (), v)"
      and m: "m = \<lparr>mr_opts = h, mr_sync_stream = ro_sync_stream r, mr_adapters = ro_adapters r\<rparr>"
      using run by (auto simp: freeze_def and_then_def or_release_def give_def split: prod.splits sum.splits)
    show ?thesis using makesD [OF makes_create_handle c] makesD [OF makes_frozen_steps s] m by simp
  qed
  moreover have "case create_handle api Run_options_handle ''create_run_options'' [] ''run options'' w of
      (Inl e, _) \<Rightarrow> fst (freeze api r w) = Inl e
    | (Inr h, u) \<Rightarrow> fst (freeze api r w) = (case replay api (fst (planned_calls r h)) (engine u) of
          (Some e, _) \<Rightarrow> Inl e
        | (None, _) \<Rightarrow> (case snd (planned_calls r h) of Some e \<Rightarrow> Inl e
            | None \<Rightarrow> Inr \<lparr>mr_opts = h, mr_sync_stream = ro_sync_stream r, mr_adapters = ro_adapters r\<rparr>))"
  proof (cases "create_handle api Run_options_handle ''create_run_options'' [] ''run options'' w")
    case (Pair q u)
    then show ?thesis
    proof (cases q)
      case (Inl e)
      then show ?thesis using Pair by (simp add: freeze_def and_then_def)
    next
      case (Inr h)
      then show ?thesis using freeze_result [OF ok, of api w h u] Pair by simp
    qed
  qed
  ultimately show ?thesis
    using ok owns_settled [OF owns_freeze [OF assms(1)] assms(2), of r] settings_entries [OF assms(3)]
    by (auto simp: run_options_ok_def run_options_new_def)
qed

theorem freeze_exact_witness:
  "\<exists>v. freeze demo_api (ro_enqueued 7) demo_world = (Inr \<lparr>mr_opts = (Run_options_handle, 3), mr_sync_stream = None, mr_adapters = []\<rparr>, v)
     \<and> length (made v) = 3"
proof -
  have built: "apply_settings [Set_graph_id 7, Set_ep_sync_off True] run_options_new = Inr (ro_enqueued 7)"
    by (simp add: ro_enqueued_def ro_graph_replay_def)
  have nul: "\<not> has_nul ''gpu_graph_id''" "\<not> has_nul ''disable_synchronize_execution_providers''" "\<not> has_nul ''1''"
    by (simp_all add: has_nul_def)
  have "\<exists>v. freeze demo_api (ro_enqueued 7) demo_world
      = (Inr \<lparr>mr_opts = (Run_options_handle, 3), mr_sync_stream = None, mr_adapters = []\<rparr>, v)"
    by (simp add: freeze_def frozen_steps_def ro_enqueued_def ro_graph_replay_def with_gpu_graph_id_def
        with_disable_ep_sync_def ro_upsert_def run_options_new_def each_def if_some_def and_then_def give_def or_release_def
        create_handle_def create_ptr_def non_null_def lift_result_def status_def check_def demo_api_def demo_status_def
        demo_world_def note_call_def Let_def validate_cstring_def cstring_new_def nul show_i32_def)
  then obtain v where v: "freeze demo_api (ro_enqueued 7) demo_world
      = (Inr \<lparr>mr_opts = (Run_options_handle, 3), mr_sync_stream = None, mr_adapters = []\<rparr>, v)" by blast
  then show ?thesis using freeze_exact [OF demo_null demo_wf built]
    by (simp add: frozen_calls_def calls_if_def ro_enqueued_def ro_graph_replay_def with_gpu_graph_id_def
        with_disable_ep_sync_def ro_upsert_def run_options_new_def demo_world_def)
qed

end
