(* ===== verification/Native_Session.thy ===== *)
theory Native_Session
  imports Run_Options
begin

text \<open>
  The native side of a session (st-zrt/src/session.rs): the constructors, which build an options
  handle, create the session from a file, from bytes, with initializers, prepacked weights or an
  edited model, and release the options again; \<open>from_handle_with_resources\<close>, which reads names and
  types of inputs and outputs and gives the session back if any of it fails; the refresh after
  editing, profiling, metadata, and the destructor. Spooled model files are those of
  st-zrt/src/model_spool.rs; the calls of the file system are entries of the same table.
\<close>

subsection \<open>Spooled models\<close>

text \<open>
  A name is tried at most 32 times. The names are an argument (process id, counter and clock);
  \<open>create_new\<close> fails with code 17 if the file exists. A failed write removes the file.
\<close>

definition open_new :: "'n c_api \<Rightarrow> string \<Rightarrow> string \<Rightarrow> ('n, zerror + handle) native_op" where
  "open_new api dir name w = (case c_create api (''create_new'', [A_text dir, A_text name]) (next_serial w) (engine w) of
     ((st, _), n) \<Rightarrow>
       let v = (note_call (''create_new'', [A_text dir, A_text name]) w)\<lparr>engine := n\<rparr>; f = (Spool_file, next_serial w)
       in case st of Some e \<Rightarrow> (Inr (Inl e), v)
          | None \<Rightarrow> (Inr (Inr f), v\<lparr>live := insert f (live w), next_serial := Suc (next_serial w)\<rparr>))"

fun spool_attempts :: "'n c_api \<Rightarrow> string \<Rightarrow> string \<Rightarrow> string list \<Rightarrow> ('n, handle) native_op" where
  "spool_attempts api dir bytes [] = raise (local_error ''zrt: could not find a free spool file name'')"
| "spool_attempts api dir bytes (name # names) =
     and_then (open_new api dir name) (\<lambda>opened.
       case opened of
         Inr f \<Rightarrow> or_release api f (and_then (status api ''write_all'' [A_handle f, A_text bytes]) (\<lambda>_. give f))
       | Inl (Zerror code m) \<Rightarrow>
           if code = 17 then spool_attempts api dir bytes names
           else raise (local_error (''zrt: cannot create a temporary model file in '' @ dir)))"

definition spool_model_bytes :: "'n c_api \<Rightarrow> string \<Rightarrow> string \<Rightarrow> (nat \<Rightarrow> string) \<Rightarrow> ('n, handle) native_op" where
  "spool_model_bytes api dir bytes name = spool_attempts api dir bytes (map name [0 ..< 32])"

subsection \<open>Names and types of inputs and outputs\<close>

record cached_io =
  io_onnx_type :: int
  io_elem_type :: int
  io_count :: "nat option"
  io_dims :: "int list"
  io_symbolic :: "string option list"

definition io_name :: "'n c_api \<Rightarrow> handle \<Rightarrow> bool \<Rightarrow> nat \<Rightarrow> ('n, string) native_op" where
  "io_name api sess is_input i =
     and_then (create_ptr api Engine_text (if is_input then ''session_get_input_name'' else ''session_get_output_name'')
         [A_handle sess, A_int (int i)]) (\<lambda>raw.
       case raw of None \<Rightarrow> raise (local_error ''zrt: session I/O name pointer is null'')
       | Some t \<Rightarrow> (\<lambda>w. let c = until_nul (c_chars api t (engine w)) in and_then (free_text api t) (\<lambda>_. give c) w))"

definition collect_io_names :: "'n c_api \<Rightarrow> handle \<Rightarrow> bool \<Rightarrow> ('n, string list) native_op" where
  "collect_io_names api sess is_input =
     and_then (query_int api (if is_input then ''session_get_input_count'' else ''session_get_output_count'') [A_handle sess])
       (\<lambda>count. collect_results (io_name api sess is_input) [0 ..< nat count])"

definition onnx_tensor :: int where
  "onnx_tensor = 1"

definition symbolic_dim :: "string option \<Rightarrow> ('n, string option) native_op" where
  "symbolic_dim p = (case p of None \<Rightarrow> give None
     | Some raw \<Rightarrow> and_then (lift_result (cstr_to_string raw ''symbolic dimension'')) (\<lambda>s. give (Some s)))"

text \<open>The tensor info is borrowed from the type info.\<close>

definition read_type_info :: "'n c_api \<Rightarrow> c_arg \<Rightarrow> ('n, cached_io) native_op" where
  "read_type_info api ti =
     and_then (query_int api ''get_onnx_type_from_type_info'' [ti]) (\<lambda>onnx_type.
       if onnx_type = onnx_tensor
       then and_then (status api ''cast_type_info_to_tensor_info'' [ti]) (\<lambda>_.
            and_then (query_int api ''get_tensor_element_type'' [ti]) (\<lambda>etype.
            and_then (query_int api ''get_dimensions_count'' [ti]) (\<lambda>rank.
            and_then (query_ints api ''get_dimensions'' [ti, A_int rank] (nat rank)) (\<lambda>dims.
            and_then (query_texts api ''get_symbolic_dimensions'' [ti, A_int rank] (nat rank)) (\<lambda>sptrs.
            and_then (collect_results symbolic_dim sptrs) (\<lambda>symbolic.
              give \<lparr>io_onnx_type = onnx_type, io_elem_type = etype,
                io_count = (case checked_element_count dims of Inl _ \<Rightarrow> None | Inr n \<Rightarrow> Some n),
                io_dims = dims, io_symbolic = symbolic\<rparr>))))))
       else give \<lparr>io_onnx_type = onnx_type, io_elem_type = 0, io_count = Some 0, io_dims = [], io_symbolic = []\<rparr>)"

definition io_meta_at :: "'n c_api \<Rightarrow> handle \<Rightarrow> bool \<Rightarrow> nat \<Rightarrow> ('n, cached_io) native_op" where
  "io_meta_at api sess is_input i =
     and_then (create_raw api Type_info_handle
         (if is_input then ''session_get_input_type_info'' else ''session_get_output_type_info'') [A_handle sess, A_int (int i)])
       (\<lambda>(st, p). case p of
          None \<Rightarrow> and_then (lift_result (check st)) (\<lambda>_. read_type_info api A_null)
        | Some h \<Rightarrow> then_release api h (and_then (lift_result (check st)) (\<lambda>_. read_type_info api (A_handle h))))"

definition collect_io_meta :: "'n c_api \<Rightarrow> handle \<Rightarrow> bool \<Rightarrow> nat \<Rightarrow> ('n, cached_io list) native_op" where
  "collect_io_meta api sess is_input count = collect_results (io_meta_at api sess is_input) [0 ..< count]"

subsection \<open>Construction\<close>

type_synonym initializer = "string \<times> nat"

record native_session =
  ns_handle :: handle
  ns_input_names :: "string list"
  ns_input_meta :: "cached_io list"
  ns_output_names :: "string list"
  ns_output_meta :: "cached_io list"
  ns_run_opts :: materialized
  ns_initializers :: "initializer list"
  ns_prepacked :: "nat option"
  ns_cuda_streams :: "cuda_stream list"
  ns_spool :: "handle option"
  ns_env :: nat

record session_resources =
  rs_initializers :: "initializer list"
  rs_prepacked :: "nat option"
  rs_cuda_streams :: "cuda_stream list"
  rs_spool :: "handle option"
  rs_env :: nat

definition session_setup :: "'n c_api \<Rightarrow> session_resources \<Rightarrow> handle \<Rightarrow> ('n, native_session) native_op" where
  "session_setup api rs sess =
     and_then (default_allocator api) (\<lambda>_.
     and_then (collect_io_names api sess True) (\<lambda>input_names.
     and_then (collect_io_names api sess False) (\<lambda>output_names.
     and_then (collect_io_meta api sess True (length input_names)) (\<lambda>input_meta.
     and_then (collect_io_meta api sess False (length output_names)) (\<lambda>output_meta.
     and_then (freeze api run_options_new) (\<lambda>run_opts.
       give \<lparr>ns_handle = sess, ns_input_names = input_names, ns_input_meta = input_meta,
         ns_output_names = output_names, ns_output_meta = output_meta, ns_run_opts = run_opts,
         ns_initializers = rs_initializers rs, ns_prepacked = rs_prepacked rs,
         ns_cuda_streams = rs_cuda_streams rs, ns_spool = rs_spool rs, ns_env = rs_env rs\<rparr>))))))"

definition from_handle_with_resources :: "'n c_api \<Rightarrow> session_resources \<Rightarrow> handle option \<Rightarrow> ('n, native_session) native_op" where
  "from_handle_with_resources api rs p =
     and_then (lift_result (non_null p ''session'')) (\<lambda>sess. or_release api sess (session_setup api rs sess))"

definition resources_of :: "environment \<Rightarrow> session_options \<Rightarrow> session_resources" where
  "resources_of env so = \<lparr>rs_initializers = [], rs_prepacked = None, rs_cuda_streams = cuda_stream_guards so,
     rs_spool = None, rs_env = env_ptr env\<rparr>"

definition path_cstring :: "string \<Rightarrow> ('n, string) native_op" where
  "path_cstring path = (case cstring_new path of None \<Rightarrow> raise (local_error ''model path contains a NUL'') | Some c \<Rightarrow> give c)"

text \<open>All constructors create the native session with an options handle that is released right after.\<close>

definition create_with_options :: "'n c_api \<Rightarrow> environment \<Rightarrow> session_options \<Rightarrow> session_resources
    \<Rightarrow> (handle \<Rightarrow> ('n, handle option) native_op) \<Rightarrow> ('n, native_session) native_op" where
  "create_with_options api env so rs create =
     and_then (build_session_options_for_env api env so) (\<lambda>h.
     and_then (then_release api h (create h)) (\<lambda>sess. from_handle_with_resources api rs sess))"

definition create_session :: "'n c_api \<Rightarrow> environment \<Rightarrow> string \<Rightarrow> handle \<Rightarrow> ('n, handle option) native_op" where
  "create_session api env path h = create_ptr api Session_handle ''create_session'' [A_ptr (env_ptr env), A_text path, A_handle h]"

definition create_session_from_array :: "'n c_api \<Rightarrow> environment \<Rightarrow> string \<Rightarrow> handle \<Rightarrow> ('n, handle option) native_op" where
  "create_session_from_array api env bytes h = create_ptr api Session_handle ''create_session_from_array''
     [A_ptr (env_ptr env), A_text bytes, A_int (int (length bytes)), A_handle h]"

definition add_owned_initializers :: "'n c_api \<Rightarrow> handle \<Rightarrow> initializer list \<Rightarrow> ('n, unit) native_op" where
  "add_owned_initializers api h is = each (\<lambda>(name, val). status api ''add_initializer'' [A_handle h, A_text name, A_ptr val]) is"

definition add_external_initializers_batch :: "'n c_api \<Rightarrow> handle \<Rightarrow> initializer list \<Rightarrow> ('n, unit) native_op" where
  "add_external_initializers_batch api h is =
     (if is = [] then give () else status api ''add_external_initializers''
       [A_handle h, A_texts (map fst is), A_ptrs (map snd is), A_int (int (length is))])"

definition add_external_initializer_files :: "'n c_api \<Rightarrow> handle \<Rightarrow> entries \<Rightarrow> ('n, unit) native_op" where
  "add_external_initializer_files api h files =
     (if files = [] then give () else status api ''add_external_initializers_from_files_in_memory''
       [A_handle h, A_pairs files, A_int (int (length files))])"

text \<open>A file that the session needs goes away with a failed construction.\<close>

definition or_release_spool :: "'n c_api \<Rightarrow> handle option \<Rightarrow> ('n, 'a) native_op \<Rightarrow> ('n, 'a) native_op" where
  "or_release_spool api sp m = (case sp of None \<Rightarrow> m | Some f \<Rightarrow> or_release api f m)"

definition new_with_spool :: "'n c_api \<Rightarrow> environment \<Rightarrow> string \<Rightarrow> session_options \<Rightarrow> handle option \<Rightarrow> ('n, native_session) native_op" where
  "new_with_spool api env path so sp = or_release_spool api sp
     (and_then (path_cstring path) (\<lambda>c.
       create_with_options api env so ((resources_of env so)\<lparr>rs_spool := sp\<rparr>) (create_session api env c)))"

definition session_new :: "'n c_api \<Rightarrow> environment \<Rightarrow> string \<Rightarrow> session_options \<Rightarrow> ('n, native_session) native_op" where
  "session_new api env path so = new_with_spool api env path so None"

text \<open>The path of a spooled file is text that the file system knows for the handle.\<close>

definition from_bytes_with_external_data :: "'n c_api \<Rightarrow> environment \<Rightarrow> string \<Rightarrow> string \<Rightarrow> (nat \<Rightarrow> string) \<Rightarrow> session_options
    \<Rightarrow> ('n, native_session) native_op" where
  "from_bytes_with_external_data api env bytes dir name so =
     and_then (spool_model_bytes api dir bytes name) (\<lambda>sp w. new_with_spool api env (c_chars api sp (engine w)) so (Some sp) w)"

definition from_bytes :: "'n c_api \<Rightarrow> environment \<Rightarrow> string \<Rightarrow> session_options \<Rightarrow> ('n, native_session) native_op" where
  "from_bytes api env bytes so = create_with_options api env so (resources_of env so) (create_session_from_array api env bytes)"

definition new_with_owned_initializers :: "'n c_api \<Rightarrow> environment \<Rightarrow> string \<Rightarrow> session_options \<Rightarrow> initializer list
    \<Rightarrow> ('n, native_session) native_op" where
  "new_with_owned_initializers api env path so is = and_then (path_cstring path) (\<lambda>c.
     create_with_options api env so ((resources_of env so)\<lparr>rs_initializers := is\<rparr>) (\<lambda>h.
       and_then (add_owned_initializers api h is) (\<lambda>_. create_session api env c h)))"

definition new_with_external_initializers :: "'n c_api \<Rightarrow> environment \<Rightarrow> string \<Rightarrow> session_options \<Rightarrow> initializer list
    \<Rightarrow> ('n, native_session) native_op" where
  "new_with_external_initializers api env path so is = and_then (path_cstring path) (\<lambda>c.
     create_with_options api env so ((resources_of env so)\<lparr>rs_initializers := is\<rparr>) (\<lambda>h.
       and_then (add_external_initializers_batch api h is) (\<lambda>_. create_session api env c h)))"

definition new_with_external_initializer_files :: "'n c_api \<Rightarrow> environment \<Rightarrow> string \<Rightarrow> session_options \<Rightarrow> entries
    \<Rightarrow> ('n, native_session) native_op" where
  "new_with_external_initializer_files api env path so files = and_then (path_cstring path) (\<lambda>c.
     if \<exists>(n, _) \<in> set files. has_nul n then raise (local_error ''external initializer file name contains a NUL'')
     else create_with_options api env so (resources_of env so) (\<lambda>h.
       and_then (add_external_initializer_files api h files) (\<lambda>_. create_session api env c h)))"

definition new_with_prepacked_weights_and_owned_initializers :: "'n c_api \<Rightarrow> environment \<Rightarrow> string \<Rightarrow> session_options
    \<Rightarrow> nat \<Rightarrow> initializer list \<Rightarrow> ('n, native_session) native_op" where
  "new_with_prepacked_weights_and_owned_initializers api env path so prepacked is = and_then (path_cstring path) (\<lambda>c.
     create_with_options api env so ((resources_of env so)\<lparr>rs_initializers := is, rs_prepacked := Some prepacked\<rparr>) (\<lambda>h.
       and_then (add_owned_initializers api h is) (\<lambda>_.
         create_ptr api Session_handle ''create_session_with_prepacked_weights_container''
           [A_ptr (env_ptr env), A_text c, A_handle h, A_ptr prepacked])))"

definition new_with_prepacked_weights :: "'n c_api \<Rightarrow> environment \<Rightarrow> string \<Rightarrow> session_options \<Rightarrow> nat
    \<Rightarrow> ('n, native_session) native_op" where
  "new_with_prepacked_weights api env path so prepacked =
     new_with_prepacked_weights_and_owned_initializers api env path so prepacked []"

definition from_bytes_with_owned_initializers :: "'n c_api \<Rightarrow> environment \<Rightarrow> string \<Rightarrow> session_options \<Rightarrow> initializer list
    \<Rightarrow> ('n, native_session) native_op" where
  "from_bytes_with_owned_initializers api env bytes so is =
     create_with_options api env so ((resources_of env so)\<lparr>rs_initializers := is\<rparr>) (\<lambda>h.
       and_then (add_owned_initializers api h is) (\<lambda>_. create_session_from_array api env bytes h))"

definition from_bytes_with_prepacked_weights_and_owned_initializers :: "'n c_api \<Rightarrow> environment \<Rightarrow> string \<Rightarrow> session_options
    \<Rightarrow> nat \<Rightarrow> initializer list \<Rightarrow> ('n, native_session) native_op" where
  "from_bytes_with_prepacked_weights_and_owned_initializers api env bytes so prepacked is =
     create_with_options api env so ((resources_of env so)\<lparr>rs_initializers := is, rs_prepacked := Some prepacked\<rparr>) (\<lambda>h.
       and_then (add_owned_initializers api h is) (\<lambda>_.
         create_ptr api Session_handle ''create_session_from_array_with_prepacked_weights_container''
           [A_ptr (env_ptr env), A_text bytes, A_int (int (length bytes)), A_handle h, A_ptr prepacked]))"

definition from_bytes_with_prepacked_weights :: "'n c_api \<Rightarrow> environment \<Rightarrow> string \<Rightarrow> session_options \<Rightarrow> nat
    \<Rightarrow> ('n, native_session) native_op" where
  "from_bytes_with_prepacked_weights api env bytes so prepacked =
     from_bytes_with_prepacked_weights_and_owned_initializers api env bytes so prepacked []"

subsection \<open>Edited models\<close>

text \<open>The table of the model editor, if the engine has one, and which of its entries are present.\<close>

type_synonym editor_api = "(string \<Rightarrow> bool) option"

definition require_editor_fn :: "editor_api \<Rightarrow> string \<Rightarrow> ('n, unit) native_op" where
  "require_editor_fn ed f = (case ed of None \<Rightarrow> raise (local_error ''ModelEditorApi unavailable'')
     | Some has \<Rightarrow> if has f then give () else raise (local_error (''ModelEditorApi.'' @ f @ '' unavailable'')))"

definition from_model :: "'n c_api \<Rightarrow> editor_api \<Rightarrow> environment \<Rightarrow> nat \<Rightarrow> session_options \<Rightarrow> ('n, native_session) native_op" where
  "from_model api ed env model so = and_then (require_editor_fn ed ''CreateSessionFromModel'') (\<lambda>_.
     create_with_options api env so (resources_of env so) (\<lambda>h.
       create_ptr api Session_handle ''CreateSessionFromModel'' [A_ptr (env_ptr env), A_ptr model, A_handle h]))"

definition from_bytes_for_editing :: "'n c_api \<Rightarrow> editor_api \<Rightarrow> environment \<Rightarrow> string \<Rightarrow> session_options \<Rightarrow> ('n, native_session) native_op" where
  "from_bytes_for_editing api ed env bytes so = and_then (require_editor_fn ed ''CreateModelEditorSessionFromArray'') (\<lambda>_.
     create_with_options api env so (resources_of env so) (\<lambda>h.
       create_ptr api Session_handle ''CreateModelEditorSessionFromArray''
         [A_ptr (env_ptr env), A_text bytes, A_int (int (length bytes)), A_handle h]))"

definition apply_model :: "'n c_api \<Rightarrow> editor_api \<Rightarrow> nat \<Rightarrow> native_session \<Rightarrow> ('n, unit) native_op" where
  "apply_model api ed model s = and_then (require_editor_fn ed ''ApplyModelToModelEditorSession'') (\<lambda>_.
     status api ''ApplyModelToModelEditorSession'' [A_handle (ns_handle s), A_ptr model])"

text \<open>\<open>unique\<close> says whether the caller holds the only reference to the session.\<close>

definition refresh_io_metadata :: "'n c_api \<Rightarrow> bool \<Rightarrow> native_session \<Rightarrow> ('n, native_session) native_op" where
  "refresh_io_metadata api unique s =
     (if \<not> unique then raise (local_error ''cannot mutate model-editor session metadata while Session clones or session-owned resources exist'')
      else and_then (default_allocator api) (\<lambda>_.
        and_then (collect_io_names api (ns_handle s) True) (\<lambda>input_names.
        and_then (collect_io_names api (ns_handle s) False) (\<lambda>output_names.
        and_then (collect_io_meta api (ns_handle s) True (length input_names)) (\<lambda>input_meta.
        and_then (collect_io_meta api (ns_handle s) False (length output_names)) (\<lambda>output_meta.
          give (s\<lparr>ns_input_names := input_names, ns_input_meta := input_meta,
                  ns_output_names := output_names, ns_output_meta := output_meta\<rparr>)))))))"

fun add_guards :: "cuda_stream list \<Rightarrow> cuda_stream list \<Rightarrow> cuda_stream list" where
  "add_guards gs [] = gs"
| "add_guards gs (s # ss) = add_guards (if s \<in> set gs then gs else gs @ [s]) ss"

text \<open>The new guards are attached before the engine sees their pointers, and stay if it fails.\<close>

definition finalize :: "'n c_api \<Rightarrow> editor_api \<Rightarrow> bool \<Rightarrow> session_options \<Rightarrow> native_session \<Rightarrow> 'n native_world
    \<Rightarrow> ((zerror + unit) \<times> native_session) \<times> 'n native_world" where
  "finalize api ed unique so s w =
     (if \<not> unique
      then ((Inl (local_error ''cannot finalize a model-editor session while Session clones or session-owned resources exist''), s), w)
      else case require_editor_fn ed ''FinalizeModelEditorSession'' w of
        (Inl e, w) \<Rightarrow> ((Inl e, s), w)
      | (Inr _, w) \<Rightarrow>
          let s' = s\<lparr>ns_cuda_streams := add_guards (ns_cuda_streams s) (cuda_stream_guards so)\<rparr>
          in case and_then (build_handle_for_session api so) (\<lambda>h.
               and_then (then_release api h (status api ''FinalizeModelEditorSession'' [A_handle (ns_handle s'), A_handle h])) (\<lambda>_.
                 refresh_io_metadata api unique s')) w of
            (Inl e, w) \<Rightarrow> ((Inl e, s'), w)
          | (Inr s'', w) \<Rightarrow> ((Inr (), s''), w))"

subsection \<open>Queries and destructor\<close>

definition session_metadata :: "'n c_api \<Rightarrow> native_session \<Rightarrow> ('n, handle) native_op" where
  "session_metadata api s = create_handle api Metadata_handle ''session_get_model_metadata'' [A_handle (ns_handle s)] ''model metadata''"

definition end_profiling :: "'n c_api \<Rightarrow> native_session \<Rightarrow> ('n, string) native_op" where
  "end_profiling api s =
     and_then (default_allocator api) (\<lambda>_.
     and_then (create_ptr api Engine_text ''session_end_profiling'' [A_handle (ns_handle s)]) (\<lambda>raw.
       case raw of None \<Rightarrow> raise (local_error ''zrt: ORT returned null profiling path'')
       | Some t \<Rightarrow> (\<lambda>w. let path = cstr_to_string (c_chars api t (engine w)) ''profiling path''
           in case free_text api t w of (free, v) \<Rightarrow>
             (case path of Inl e \<Rightarrow> Inl e | Inr p \<Rightarrow> (case free of Inl e \<Rightarrow> Inl e | Inr _ \<Rightarrow> Inr p), v))))"

definition session_drop :: "'n c_api \<Rightarrow> native_session \<Rightarrow> ('n, unit) native_op" where
  "session_drop api s = in_order [
     drop_handle api (ns_handle s),
     mr_drop api (ns_run_opts s),
     if_some (ns_spool s) (drop_handle api)]"

subsection \<open>Ownership\<close>

definition session_handles :: "native_session \<Rightarrow> handle set" where
  "session_handles s = {ns_handle s, mr_opts (ns_run_opts s)} \<union> set_option (ns_spool s)"

lemma owns_io_name [owns_intros]:
  assumes "null_on_error api" "sess \<in> B"
  shows "accounts B {} (io_name api sess is_input i) (\<lambda>_. {})"
  unfolding io_name_def
proof (rule owns_and_then, rule owns_create_ptr [OF assms(1)])
  show "set (handles_of [A_handle sess, A_int (int i)]) \<subseteq> B" using assms(2) by simp
  fix raw :: "handle option"
  show "accounts B (set_option raw) (case raw of None \<Rightarrow> raise (local_error ''zrt: session I/O name pointer is null'')
      | Some t \<Rightarrow> (\<lambda>w. let c = until_nul (c_chars api t (engine w)) in and_then (free_text api t) (\<lambda>_. give c) w)) (\<lambda>_. {})"
  proof (cases raw)
    case None
    then show ?thesis by (simp add: owns_raise)
  next
    case (Some t)
    have "accounts B {t} (and_then (free_text api t) (\<lambda>_. give c)) (\<lambda>_. {})" for c
      by (rule owns_and_then [OF owns_free_text]) (rule owns_give)
    then show ?thesis unfolding Some option.case option.set Let_def by (rule owns_reading)
  qed
qed

lemma owns_collect_io_names [owns_intros]:
  "null_on_error api \<Longrightarrow> sess \<in> B \<Longrightarrow> accounts B {} (collect_io_names api sess is_input) (\<lambda>_. {})"
  unfolding collect_io_names_def by (auto intro!: owns_intros)

lemma owns_symbolic_dim [owns_intros]: "accounts B {} (symbolic_dim p) (\<lambda>_. {})"
  unfolding symbolic_dim_def by (auto intro!: owns_intros split: option.split)

lemma owns_read_type_info [owns_intros]:
  "set (handles_of [ti]) \<subseteq> B \<Longrightarrow> accounts B {} (read_type_info api ti) (\<lambda>_. {})"
  unfolding read_type_info_def
  by (cases ti) (auto intro!: owns_intros)

lemma owns_io_meta_at [owns_intros]:
  assumes "sess \<in> B"
  shows "accounts B {} (io_meta_at api sess is_input i) (\<lambda>_. {})"
  unfolding io_meta_at_def
proof (rule owns_and_then, rule owns_create_raw)
  show "set (handles_of [A_handle sess, A_int (int i)]) \<subseteq> B" using assms by simp
  fix a :: "zerror option \<times> handle option"
  show "accounts B (case a of (_, p) \<Rightarrow> set_option p)
      (case a of (st, p) \<Rightarrow> case p of
          None \<Rightarrow> and_then (lift_result (check st)) (\<lambda>_. read_type_info api A_null)
        | Some h \<Rightarrow> then_release api h (and_then (lift_result (check st)) (\<lambda>_. read_type_info api (A_handle h)))) (\<lambda>_. {})"
    by (cases a; cases "snd a") (auto intro!: owns_then_release owns_seq owns_lift owns_read_type_info)
qed

lemma owns_collect_io_meta [owns_intros]:
  "sess \<in> B \<Longrightarrow> accounts B {} (collect_io_meta api sess is_input n) (\<lambda>_. {})"
  unfolding collect_io_meta_def by (auto intro!: owns_intros)

lemma owns_session_setup:
  assumes "null_on_error api" "sess \<in> B"
  shows "accounts B {} (session_setup api rs sess) (\<lambda>s. {mr_opts (ns_run_opts s)})"
  unfolding session_setup_def
  by (rule owns_seq [OF owns_default_allocator], rule owns_seq [OF owns_collect_io_names [OF assms]],
      rule owns_seq [OF owns_collect_io_names [OF assms]], rule owns_seq [OF owns_collect_io_meta [OF assms(2)]],
      rule owns_seq [OF owns_collect_io_meta [OF assms(2)]], rule owns_and_then [OF owns_freeze [OF assms(1)]])
    (auto simp: accounts_def give_def)

lemma setup_result:
  "returns (\<lambda>s. ns_handle s = sess \<and> ns_spool s = rs_spool rs \<and> ns_cuda_streams s = rs_cuda_streams rs
     \<and> fst (mr_opts (ns_run_opts s)) = Run_options_handle
     \<and> length (ns_input_meta s) = length (ns_input_names s) \<and> length (ns_output_meta s) = length (ns_output_names s))
   (session_setup api rs sess)"
proof -
  have meta: "returns (\<lambda>ys. length ys = n) (collect_io_meta api sess is_input n)" for is_input n
    unfolding collect_io_meta_def using returns_collect_results [of "[0 ..< n]" "io_meta_at api sess is_input"] by simp
  have frozen: "returns (\<lambda>m. fst (mr_opts m) = Run_options_handle) (freeze api run_options_new)"
    unfolding freeze_def
    by (rule returns_and_then [OF returns_create_handle], rule returns_scopes, rule returns_seq, rule returns_give) simp
  show ?thesis
    unfolding session_setup_def
    by (rule returns_seq, rule returns_seq, rule returns_seq, rule returns_and_then [OF meta], rule returns_and_then [OF meta],
        rule returns_and_then [OF frozen], rule returns_give) simp
qed

lemma owns_from_handle:
  assumes "null_on_error api"
  shows "accounts B (set_option p) (from_handle_with_resources api rs p) (\<lambda>s. {ns_handle s, mr_opts (ns_run_opts s)})"
  unfolding from_handle_with_resources_def
proof (rule owns_and_then [OF owns_non_null])
  fix sess
  have "accounts B {sess} (or_release api sess (session_setup api rs sess)) (\<lambda>s. insert sess {mr_opts (ns_run_opts s)})"
    by (rule owns_or_release) (auto intro: owns_session_setup assms)
  then show "accounts B {sess} (or_release api sess (session_setup api rs sess)) (\<lambda>s. {ns_handle s, mr_opts (ns_run_opts s)})"
    by (rule owns_result) (blast dest: returnsD [OF returns_scopes(2) [OF setup_result]])
qed

lemma owns_create_with_options:
  assumes "null_on_error api" "\<And>h. accounts (insert h B) {} (create h) set_option"
  shows "accounts B {} (create_with_options api env so rs create) (\<lambda>s. {ns_handle s, mr_opts (ns_run_opts s)})"
  unfolding create_with_options_def
  by (rule owns_and_then, rule owns_build_session_options_for_env [OF assms(1)], rule owns_and_then, rule owns_then_release,
      rule assms(2), rule owns_from_handle [OF assms(1)])

lemma owns_open_new: "accounts B {} (open_new api dir name) (\<lambda>r. case r of Inl e \<Rightarrow> {} | Inr f \<Rightarrow> {f})"
  by (rule ownsI)
    (auto simp: open_new_def Let_def native_wf_fresh note_call_def split: prod.splits option.splits,
     auto simp: native_wf_def less_Suc_eq)

lemma owns_spool_attempts: "accounts B {} (spool_attempts api dir bytes names) (\<lambda>f. {f})"
proof (induction names)
  case Nil
  show ?case by (simp add: owns_raise)
next
  case (Cons name names)
  show ?case
  proof (simp, rule owns_and_then [OF owns_open_new])
    fix r :: "zerror + handle"
    show "accounts B (case r of Inl e \<Rightarrow> {} | Inr f \<Rightarrow> {f})
       (case r of Inl (Zerror code m) \<Rightarrow> if code = 17 then spool_attempts api dir bytes names
                     else raise (local_error (''zrt: cannot create a temporary model file in '' @ dir))
        | Inr f \<Rightarrow> or_release api f (and_then (status api ''write_all'' [A_handle f, A_text bytes]) (\<lambda>_. give f))) (\<lambda>f. {f})"
      by (cases r) (auto intro!: owns_raise Cons.IH owns_or_release_self owns_status split: zerror.split)
  qed
qed

text \<open>What every constructor returns.\<close>

definition session_made :: "session_resources \<Rightarrow> native_session \<Rightarrow> bool" where
  "session_made rs s \<longleftrightarrow> fst (ns_handle s) = Session_handle \<and> fst (mr_opts (ns_run_opts s)) = Run_options_handle
     \<and> ns_spool s = rs_spool rs \<and> ns_cuda_streams s = rs_cuda_streams rs
     \<and> length (ns_input_meta s) = length (ns_input_names s) \<and> length (ns_output_meta s) = length (ns_output_names s)"

lemma create_with_options_made:
  assumes "\<And>h. returns (of_kind Session_handle) (create h)"
  shows "returns (session_made rs) (create_with_options api env so rs create)"
proof -
  have made: "returns (session_made rs) (from_handle_with_resources api rs p)" if "of_kind Session_handle p" for p
    unfolding from_handle_with_resources_def
  proof (rule returns_and_then [OF returns_non_null [of _ "\<lambda>h. fst h = Session_handle"]])
    show "fst h = Session_handle" if "p = Some h" for h using that \<open>of_kind Session_handle p\<close> by (simp add: of_kind_def)
    show "returns (session_made rs) (or_release api sess (session_setup api rs sess))" if "fst sess = Session_handle" for sess
      unfolding returns_def session_made_def using returnsD [OF returns_scopes(2) [OF setup_result]] that by metis
  qed
  show ?thesis
    unfolding create_with_options_def
    by (rule returns_seq, rule returns_and_then, rule returns_scopes, rule assms, rule made)
qed

lemma session_calls:
  assumes "null_on_error api"
  shows "accounts (insert h B) {} (create_session api env c h) set_option"
    "accounts (insert h B) {} (create_session_from_array api env c h) set_option"
    "accounts (insert h B) {} (add_owned_initializers api h is) (\<lambda>_. {})"
    "accounts (insert h B) {} (add_external_initializers_batch api h is) (\<lambda>_. {})"
    "accounts (insert h B) {} (add_external_initializer_files api h files) (\<lambda>_. {})"
    "returns (of_kind Session_handle) (create_session api env c h)"
    "returns (of_kind Session_handle) (create_session_from_array api env c h)"
  unfolding create_session_def create_session_from_array_def add_owned_initializers_def
    add_external_initializers_batch_def add_external_initializer_files_def
  by (auto intro!: owns_intros owns_create_ptr [OF assms] returns_create_ptr)

text \<open>The ways to open a session.\<close>

datatype session_source =
    From_path string
  | From_bytes string
  | From_bytes_external_data string string "nat \<Rightarrow> string"
  | From_path_initializers string "initializer list"
  | From_path_external_initializers string "initializer list"
  | From_path_external_files string entries
  | From_path_prepacked string nat "initializer list"
  | From_bytes_initializers string "initializer list"
  | From_bytes_prepacked string nat "initializer list"
  | From_model nat
  | From_bytes_for_editing string

fun open_session :: "'n c_api \<Rightarrow> editor_api \<Rightarrow> environment \<Rightarrow> session_options \<Rightarrow> session_source \<Rightarrow> ('n, native_session) native_op" where
  "open_session api ed env so (From_path p) = session_new api env p so"
| "open_session api ed env so (From_bytes b) = from_bytes api env b so"
| "open_session api ed env so (From_bytes_external_data b dir name) = from_bytes_with_external_data api env b dir name so"
| "open_session api ed env so (From_path_initializers p is) = new_with_owned_initializers api env p so is"
| "open_session api ed env so (From_path_external_initializers p is) = new_with_external_initializers api env p so is"
| "open_session api ed env so (From_path_external_files p fs) = new_with_external_initializer_files api env p so fs"
| "open_session api ed env so (From_path_prepacked p c is) = new_with_prepacked_weights_and_owned_initializers api env p so c is"
| "open_session api ed env so (From_bytes_initializers b is) = from_bytes_with_owned_initializers api env b so is"
| "open_session api ed env so (From_bytes_prepacked b c is) = from_bytes_with_prepacked_weights_and_owned_initializers api env b so c is"
| "open_session api ed env so (From_model m) = from_model api ed env m so"
| "open_session api ed env so (From_bytes_for_editing b) = from_bytes_for_editing api ed env b so"

text \<open>What a constructor owes: the session it returns, and exactly its handles.\<close>

definition opens :: "session_options \<Rightarrow> ('n, native_session) native_op \<Rightarrow> bool" where
  "opens so m \<longleftrightarrow> accounts {} {} m session_handles \<and>
     returns (\<lambda>s. \<exists>rs. session_made rs s \<and> rs_cuda_streams rs = cuda_stream_guards so
       \<and> (\<forall>f. ns_spool s = Some f \<longrightarrow> fst f = Spool_file)) m"

lemma opens_with_options:
  assumes "null_on_error api" "\<And>h B. accounts (insert h B) {} (create h) set_option" "\<And>h. returns (of_kind Session_handle) (create h)"
    and "rs_spool rs = None" "rs_cuda_streams rs = cuda_stream_guards so"
  shows "opens so (create_with_options api env so rs create)"
  unfolding opens_def
proof
  note made = create_with_options_made [OF assms(3), of rs api env so]
  show "accounts {} {} (create_with_options api env so rs create) session_handles"
    using owns_create_with_options [OF assms(1,2)]
    by (rule owns_result) (use returnsD [OF made] assms(4) in \<open>auto simp: session_handles_def session_made_def\<close>)
  show "returns (\<lambda>s. \<exists>rs. session_made rs s \<and> rs_cuda_streams rs = cuda_stream_guards so
       \<and> (\<forall>f. ns_spool s = Some f \<longrightarrow> fst f = Spool_file)) (create_with_options api env so rs create)"
    unfolding returns_def
  proof (intro allI impI exI conjI)
    fix w s v
    assume "create_with_options api env so rs create w = (Inr s, v)"
    then show m: "session_made rs s" by (rule returnsD [OF made])
    show "rs_cuda_streams rs = cuda_stream_guards so" by (rule assms(5))
    fix f
    assume "ns_spool s = Some f"
    then show "fst f = Spool_file" using m assms(4) by (simp add: session_made_def)
  qed
qed

lemma opens_path: "(\<And>c. opens so (f c)) \<Longrightarrow> opens so (and_then (path_cstring p) f)"
proof -
  have "accounts {} {} (path_cstring p) (\<lambda>_. {})"
    unfolding path_cstring_def by (auto intro: owns_raise owns_give split: option.split)
  then show "(\<And>c. opens so (f c)) \<Longrightarrow> opens so (and_then (path_cstring p) f)"
    unfolding opens_def by (auto intro: owns_seq returns_seq)
qed

lemma opens_editor: "opens so m \<Longrightarrow> opens so (and_then (require_editor_fn ed n) (\<lambda>_. m))"
proof -
  have "accounts {} {} (require_editor_fn ed n) (\<lambda>_. {})"
    unfolding require_editor_fn_def by (auto intro: owns_raise owns_give split: option.split)
  then show "opens so m \<Longrightarrow> opens so (and_then (require_editor_fn ed n) (\<lambda>_. m))"
    unfolding opens_def by (auto intro: owns_seq returns_seq)
qed

lemma opens_raise: "opens so (raise e)"
  by (simp add: opens_def owns_raise returns_raise)

lemma spool_kind: "returns (\<lambda>f. fst f = Spool_file) (spool_attempts api dir bytes names)"
proof (induction names)
  case Nil
  show ?case by (simp add: returns_raise)
next
  case (Cons name names)
  have opened: "returns (\<lambda>r. \<forall>f. r = Inr f \<longrightarrow> fst f = Spool_file) (open_new api dir name)"
    by (auto simp: returns_def open_new_def Let_def split: prod.splits option.splits)
  show ?case
  proof (simp, rule returns_and_then [OF opened])
    fix r :: "zerror + handle"
    assume "\<forall>f. r = Inr f \<longrightarrow> fst f = Spool_file"
    then show "returns (\<lambda>f. fst f = Spool_file)
       (case r of Inl (Zerror code m) \<Rightarrow> if code = 17 then spool_attempts api dir bytes names
                     else raise (local_error (''zrt: cannot create a temporary model file in '' @ dir))
        | Inr f \<Rightarrow> or_release api f (and_then (status api ''write_all'' [A_handle f, A_text bytes]) (\<lambda>_. give f)))"
      by (cases r) (auto intro!: returns_raise Cons.IH returns_scopes returns_seq returns_give split: zerror.split)
  qed
qed

lemma spooled_body:
  assumes "null_on_error api"
  shows "accounts B {sp} (new_with_spool api env path so (Some sp)) session_handles"
    "returns (session_made ((resources_of env so)\<lparr>rs_spool := Some sp\<rparr>)) (new_with_spool api env path so (Some sp))"
proof -
  let ?rs = "(resources_of env so)\<lparr>rs_spool := Some sp\<rparr>"
  let ?body = "and_then (path_cstring path) (\<lambda>c. create_with_options api env so ?rs (create_session api env c))"
  have shape: "new_with_spool api env path so (Some sp) = or_release api sp ?body"
    by (simp add: new_with_spool_def or_release_spool_def)
  have made: "returns (session_made ?rs) ?body"
    by (rule returns_seq, rule create_with_options_made, rule session_calls(6) [OF assms])
  show "returns (session_made ?rs) (new_with_spool api env path so (Some sp))"
    unfolding shape using made by (rule returns_scopes)
  have path: "accounts (insert sp B) {} (path_cstring path) (\<lambda>_. {})"
    unfolding path_cstring_def by (auto intro: owns_raise owns_give split: option.split)
  have "accounts (insert sp B) {} ?body (\<lambda>s. {ns_handle s, mr_opts (ns_run_opts s)})"
    by (rule owns_seq [OF path], rule owns_create_with_options [OF assms], rule session_calls(1) [OF assms])
  from owns_or_release [OF this, of api]
  show "accounts B {sp} (new_with_spool api env path so (Some sp)) session_handles"
    unfolding shape
    by (rule owns_result) (use returnsD [OF returns_scopes(2) [OF made]] in \<open>auto simp: session_made_def session_handles_def\<close>)
qed

lemma opens_spooled:
  assumes "null_on_error api"
  shows "opens so (from_bytes_with_external_data api env b dir name so)"
  unfolding opens_def from_bytes_with_external_data_def spool_model_bytes_def
proof
  show "accounts {} {} (and_then (spool_attempts api dir b (map name [0 ..< 32]))
      (\<lambda>sp w. new_with_spool api env (c_chars api sp (engine w)) so (Some sp) w)) session_handles"
    by (rule owns_and_then [OF owns_spool_attempts], rule owns_reading, rule spooled_body(1) [OF assms])
  show "returns (\<lambda>s. \<exists>rs. session_made rs s \<and> rs_cuda_streams rs = cuda_stream_guards so
      \<and> (\<forall>f. ns_spool s = Some f \<longrightarrow> fst f = Spool_file))
     (and_then (spool_attempts api dir b (map name [0 ..< 32]))
       (\<lambda>sp w. new_with_spool api env (c_chars api sp (engine w)) so (Some sp) w))"
  proof (rule returns_and_then [OF spool_kind])
    fix sp :: handle
    assume sp: "fst sp = Spool_file"
    show "returns (\<lambda>s. \<exists>rs. session_made rs s \<and> rs_cuda_streams rs = cuda_stream_guards so
        \<and> (\<forall>f. ns_spool s = Some f \<longrightarrow> fst f = Spool_file)) (\<lambda>w. new_with_spool api env (c_chars api sp (engine w)) so (Some sp) w)"
      unfolding returns_def
    proof (intro allI impI exI conjI)
      fix w s v
      assume run: "new_with_spool api env (c_chars api sp (engine w)) so (Some sp) w = (Inr s, v)"
      show m: "session_made ((resources_of env so)\<lparr>rs_spool := Some sp\<rparr>) s"
        using run by (rule returnsD [OF spooled_body(2) [OF assms]])
      show "rs_cuda_streams ((resources_of env so)\<lparr>rs_spool := Some sp\<rparr>) = cuda_stream_guards so"
        by (simp add: resources_of_def)
      fix f
      assume "ns_spool s = Some f"
      then show "fst f = Spool_file" using m sp by (simp add: session_made_def)
    qed
  qed
qed

lemma open_session_opens:
  assumes "null_on_error api"
  shows "opens so (open_session api ed env so src)"
proof -
  note calls = session_calls [OF assms]
  have initialized: "accounts (insert h B) {} (and_then (add_owned_initializers api h inits) (\<lambda>_. m)) set_option"
    if "accounts (insert h B) {} m set_option" for h B inits m
    using calls(3) that by (rule owns_seq)
  note with_options = opens_with_options [OF assms]
  have plain: "rs_spool (resources_of env so) = None" "rs_cuda_streams (resources_of env so) = cuda_stream_guards so"
    by (simp_all add: resources_of_def)
  show ?thesis
  proof (cases src)
    case (From_path p)
    have "opens so (new_with_spool api env p so None)"
      unfolding new_with_spool_def or_release_spool_def option.case
      by (rule opens_path, rule with_options [OF calls(1,6)]) (simp_all add: resources_of_def)
    then show ?thesis by (simp add: From_path session_new_def)
  next
    case (From_bytes b)
    show ?thesis unfolding From_bytes open_session.simps from_bytes_def
      by (rule with_options [OF calls(2,7) plain])
  next
    case (From_bytes_external_data b dir name)
    then show ?thesis using opens_spooled [OF assms] by simp
  next
    case (From_path_initializers p inits)
    show ?thesis unfolding From_path_initializers open_session.simps new_with_owned_initializers_def
      by (rule opens_path, rule with_options [OF initialized [OF calls(1)] returns_seq [OF calls(6)]])
        (simp_all add: resources_of_def)
  next
    case (From_path_external_initializers p inits)
    show ?thesis unfolding From_path_external_initializers open_session.simps new_with_external_initializers_def
      by (rule opens_path, rule with_options [OF owns_seq [OF calls(4) calls(1)] returns_seq [OF calls(6)]])
        (simp_all add: resources_of_def)
  next
    case (From_path_external_files p fs)
    have "opens so (create_with_options api env so (resources_of env so) (\<lambda>h.
        and_then (add_external_initializer_files api h fs) (\<lambda>_. create_session api env c h)))" for c
      by (rule with_options [OF owns_seq [OF calls(5) calls(1)] returns_seq [OF calls(6)] plain])
    then show ?thesis unfolding From_path_external_files open_session.simps new_with_external_initializer_files_def
      by (intro opens_path) (auto intro: opens_raise)
  next
    case (From_path_prepacked p c inits)
    show ?thesis unfolding From_path_prepacked open_session.simps new_with_prepacked_weights_and_owned_initializers_def
      by (rule opens_path, rule with_options [OF initialized [OF owns_create_ptr [OF assms]] returns_seq [OF returns_create_ptr]])
        (simp_all add: resources_of_def)
  next
    case (From_bytes_initializers b inits)
    show ?thesis unfolding From_bytes_initializers open_session.simps from_bytes_with_owned_initializers_def
      by (rule with_options [OF initialized [OF calls(2)] returns_seq [OF calls(7)]]) (simp_all add: resources_of_def)
  next
    case (From_bytes_prepacked b c inits)
    show ?thesis unfolding From_bytes_prepacked open_session.simps from_bytes_with_prepacked_weights_and_owned_initializers_def
      by (rule with_options [OF initialized [OF owns_create_ptr [OF assms]] returns_seq [OF returns_create_ptr]])
        (simp_all add: resources_of_def)
  next
    case (From_model m)
    show ?thesis unfolding From_model open_session.simps from_model_def
      by (rule opens_editor, rule with_options [OF owns_create_ptr [OF assms] returns_create_ptr plain]) simp
  next
    case (From_bytes_for_editing b)
    show ?thesis unfolding From_bytes_for_editing open_session.simps from_bytes_for_editing_def
      by (rule opens_editor, rule with_options [OF owns_create_ptr [OF assms] returns_create_ptr plain]) simp
  qed
qed

lemma session_drop_live:
  assumes "fst (ns_handle s) = Session_handle" "fst (mr_opts (ns_run_opts s)) = Run_options_handle"
    "\<forall>f. ns_spool s = Some f \<longrightarrow> fst f = Spool_file" "session_handles s \<subseteq> live w"
  shows "\<exists>u. session_drop api s w = (Inr (), u) \<and> live u = live w - session_handles s \<and> misuse u = misuse w"
proof -
  have "ns_handle s \<noteq> mr_opts (ns_run_opts s)" using assms(1,2) by auto
  moreover have "ns_spool s = Some f \<Longrightarrow> f \<noteq> ns_handle s \<and> f \<noteq> mr_opts (ns_run_opts s)" for f using assms(1-3) by auto
  ultimately show ?thesis using assms(4)
    by (cases "ns_spool s")
      (auto simp: session_drop_def mr_drop_def drop_handle_def and_then_def if_some_def give_def release_handle_def session_handles_def)
qed

text \<open>What opening a session gives up for good: only the options of a session do.\<close>

lemma unlogged_session_setup: "effects unlogged (session_setup api rs sess)"
proof -
  have names: "effects unlogged (collect_io_names api sess i)" for i
  proof -
    have "effects unlogged (and_then (free_text api t) (\<lambda>_. give x))" for t and x :: string
      by (intro unlogged_intros)
    then have "effects unlogged (\<lambda>w. let c = until_nul (c_chars api t (engine w)) in and_then (free_text api t) (\<lambda>_. give c) w)" for t
      by (simp add: effects_def Let_def)
    then have "effects unlogged (io_name api sess i n)" for n
      unfolding io_name_def by (intro unlogged.and_then unlogged_call) (auto intro: unlogged.pure split: option.split)
    then show ?thesis unfolding collect_io_names_def by (intro unlogged_intros) auto
  qed
  have info: "effects unlogged (read_type_info api ti)" for ti
    unfolding read_type_info_def symbolic_dim_def by (auto intro!: unlogged_intros split: option.split)
  have meta: "effects unlogged (collect_io_meta api sess i n)" for i n
    unfolding collect_io_meta_def io_meta_at_def by (auto intro!: unlogged_intros info split: option.split prod.split)
  have frozen: "effects unlogged (freeze api run_options_new)"
    unfolding freeze_def by (auto intro!: unlogged_intros simp: frozen_steps_def split: option.split)
  show ?thesis unfolding session_setup_def by (intro unlogged_intros names meta frozen)
qed

lemma gives_up_create_with_options:
  assumes "\<And>h. effects unlogged (create h)"
  shows "gives_up (logger_references so) (v1_libraries so) (create_with_options api env so rs create)"
  unfolding create_with_options_def from_handle_with_resources_def
  by (rule gives_up_first [OF gives_up_build_session_options_for_env]) (intro unlogged_intros assms unlogged_session_setup)

lemma unlogged_initializers:
  "effects unlogged (add_owned_initializers api h is)" "effects unlogged (add_external_initializers_batch api h is)"
  "effects unlogged (add_external_initializer_files api h files)" "effects unlogged (create_session api env c h)"
  "effects unlogged (create_session_from_array api env c h)"
  unfolding add_owned_initializers_def add_external_initializers_batch_def add_external_initializer_files_def
    create_session_def create_session_from_array_def
  by (auto intro!: unlogged_intros)

lemma unlogged_spool: "effects unlogged (spool_attempts api dir bytes names)"
proof (induction names)
  case Nil
  show ?case by (simp add: unlogged.pure)
next
  case (Cons name names)
  have "effects unlogged (open_new api dir name)"
    by (auto simp: effects_def open_new_def Let_def installs_logger_def intro!: unlogged_made split: prod.split option.split)
  then show ?case
    unfolding spool_attempts.simps
    by (rule unlogged.and_then) (auto intro!: unlogged_intros Cons.IH split: sum.split zerror.split)
qed

lemma gives_up_reading: "(\<And>x. gives_up X n (f x)) \<Longrightarrow> gives_up X n (\<lambda>w. f (g w) w)"
  by (simp add: gives_up_def)

lemma gives_up_raise: "gives_up X n (raise e)"
  by (auto simp: gives_up_def gave_up_def raise_def intro!: exI [of _ "[]"])

lemma gives_up_path: "(\<And>c. gives_up X n (f c)) \<Longrightarrow> gives_up X n (and_then (path_cstring p) f)"
  by (rule gives_up_later) (auto simp: path_cstring_def intro: unlogged.pure split: option.split)

lemma gives_up_editor: "gives_up X n m \<Longrightarrow> gives_up X n (and_then (require_editor_fn ed f) (\<lambda>_. m))"
  by (rule gives_up_later) (auto simp: require_editor_fn_def intro: unlogged.pure split: option.split)

lemma gives_up_open_session: "gives_up (logger_references so) (v1_libraries so) (open_session api ed env so src)"
proof -
  have spooled: "gives_up (logger_references so) (v1_libraries so) (new_with_spool api env p so sp)" for p sp
    unfolding new_with_spool_def or_release_spool_def
    by (cases sp) (auto intro!: gives_up_scopes gives_up_path gives_up_create_with_options unlogged_initializers)
  have external: "gives_up (logger_references so) (v1_libraries so) (from_bytes_with_external_data api env b dir name so)" for b dir name
    unfolding from_bytes_with_external_data_def spool_model_bytes_def
    by (rule gives_up_later [OF unlogged_spool], rule gives_up_reading, rule spooled)
  note openings = session_new_def from_bytes_def new_with_owned_initializers_def new_with_external_initializers_def
    new_with_external_initializer_files_def new_with_prepacked_weights_and_owned_initializers_def
    from_bytes_with_owned_initializers_def from_bytes_with_prepacked_weights_and_owned_initializers_def
    from_model_def from_bytes_for_editing_def
  show ?thesis
    by (cases src)
      (auto simp: openings intro!: spooled external gives_up_path gives_up_editor gives_up_raise gives_up_create_with_options
        unlogged_initializers unlogged.and_then unlogged_call)
qed

lemma session_drop_given_up: "session_drop api s w = (r, u) \<Longrightarrow> given_up u = given_up w"
  by (auto simp: session_drop_def mr_drop_def drop_handle_def and_then_def if_some_def give_def release_handle_def
      split: option.splits if_splits)


definition demo_env :: environment where
  "demo_env = \<lparr>env_ptr = 1, env_global_pool = True\<rparr>"

text \<open>Operations that never fail on the concrete engine.\<close>

definition completes :: "('n, 'a) native_op \<Rightarrow> bool" where
  "completes m \<longleftrightarrow> (\<forall>w. \<exists>a v. m w = (Inr a, v))"

lemma completes_and_then:
  assumes "completes m" "returns P m" "\<And>a. P a \<Longrightarrow> completes (f a)"
  shows "completes (and_then m f)"
  unfolding completes_def
proof
  fix w
  obtain a v where m: "m w = (Inr a, v)" using assms(1) unfolding completes_def by blast
  then have "completes (f a)" using assms(3) returnsD [OF assms(2)] by blast
  then show "\<exists>b u. and_then m f w = (Inr b, u)" using m by (simp add: and_then_def completes_def)
qed

lemma completes_seq: "completes m \<Longrightarrow> (\<And>a. completes (f a)) \<Longrightarrow> completes (and_then m f)"
  by (rule completes_and_then [OF _ returns_any])

lemma completes_give: "completes (give a)"
  by (simp add: completes_def give_def)

lemma completes_in_order: "(\<And>m. m \<in> set ms \<Longrightarrow> completes m) \<Longrightarrow> completes (in_order ms)"
  by (induction ms) (auto intro: completes_give completes_seq)

lemma completes_collect: "(\<And>x. x \<in> set xs \<Longrightarrow> completes (f x)) \<Longrightarrow> completes (collect_results f xs)"
proof (induction xs)
  case Nil
  then show ?case by (simp add: completes_give)
next
  case (Cons x xs)
  show ?case
    by (simp, rule completes_seq, rule Cons.prems, simp, rule completes_seq, rule Cons.IH, rule Cons.prems, simp, rule completes_give)
qed

lemma completes_scopes:
  "completes m \<Longrightarrow> completes (then_release api h m)" "completes m \<Longrightarrow> completes (or_release api h m)"
  unfolding completes_def then_release_def or_release_def by (auto split: prod.splits sum.splits) (metis Inl_Inr_False prod.inject)+

lemma demo_calls:
  "completes (status demo_api f as)" "completes (query_int demo_api f as)" "completes (query_ints demo_api f as n)"
  "completes (query_texts demo_api f as n)" "completes (create_handle demo_api k f as what)"
  "completes (create_ptr demo_api k f as)" "completes (create_raw demo_api k f as)"
  "completes (default_allocator demo_api)" "completes (free_text demo_api h)"
  by (auto simp: completes_def status_def query_int_def query_ints_def query_texts_def create_handle_def create_ptr_def
      create_raw_def and_then_def lift_result_def non_null_def check_def demo_api_def demo_status_def default_allocator_def
      give_def free_text_def then_release_def Let_def)

lemma demo_returns:
  "returns (\<lambda>ts. \<forall>t \<in> set ts. t = None) (query_texts demo_api f as n)"
  "returns (\<lambda>p. fst p = None \<and> snd p \<noteq> None) (create_raw demo_api k f as)"
  "returns (\<lambda>p. p \<noteq> None) (create_ptr demo_api k f as)"
  by (auto simp: returns_def query_texts_def create_raw_def create_ptr_def overwrite_def demo_api_def check_def Let_def)

lemma demo_reading: "(\<And>x. completes (f x)) \<Longrightarrow> completes (\<lambda>w. f (g w) w)"
  by (simp add: completes_def)

lemma demo_names: "completes (collect_io_names demo_api h is_input)"
proof -
  have "completes (io_name demo_api h is_input i)" for i
    unfolding io_name_def
  proof (rule completes_and_then [OF demo_calls(6) demo_returns(3)])
    fix raw :: "handle option"
    assume "raw \<noteq> None"
    then obtain t where t: "raw = Some t" by blast
    show "completes (case raw of None \<Rightarrow> raise (local_error ''zrt: session I/O name pointer is null'')
      | Some t \<Rightarrow> (\<lambda>w. let c = until_nul (c_chars demo_api t (engine w)) in and_then (free_text demo_api t) (\<lambda>_. give c) w))"
      unfolding t option.case Let_def by (rule demo_reading) (intro completes_seq demo_calls completes_give)
  qed
  then show ?thesis unfolding collect_io_names_def by (intro completes_seq demo_calls completes_collect)
qed

lemma demo_meta: "completes (collect_io_meta demo_api h is_input n)"
proof -
  have dim: "completes (symbolic_dim None)" by (simp add: symbolic_dim_def completes_give)
  have "completes (read_type_info demo_api ti)" for ti
    unfolding read_type_info_def
    by (rule completes_seq [OF demo_calls(2)], simp, intro conjI impI completes_give,
        rule completes_seq [OF demo_calls(1)], rule completes_seq [OF demo_calls(2)], rule completes_seq [OF demo_calls(2)],
        rule completes_seq [OF demo_calls(3)], rule completes_and_then [OF demo_calls(4) demo_returns(1)],
        rule completes_seq [OF completes_collect]) (auto simp: dim completes_give)
  then have "completes (io_meta_at demo_api h is_input i)" for i
    unfolding io_meta_at_def
    by (intro completes_and_then [OF demo_calls(7) demo_returns(2)])
      (auto simp: check_def and_then_def [abs_def] lift_result_def intro!: completes_scopes)
  then show ?thesis unfolding collect_io_meta_def by (intro completes_collect)
qed

lemma demo_setup: "completes (session_setup demo_api rs h)"
proof -
  have "completes (freeze demo_api run_options_new)"
    unfolding freeze_def frozen_steps_def run_options_new_def
    by (intro completes_seq demo_calls completes_scopes completes_in_order completes_give)
      (auto simp: if_some_def each_def completes_give)
  then show ?thesis
    unfolding session_setup_def by (intro completes_seq demo_calls demo_names demo_meta completes_give)
qed

lemma demo_open:
  "\<exists>s v. open_session demo_api None demo_env session_options_new (From_path ''m'') demo_world = (Inr s, v)"
proof -
  have opts: "completes (build_session_options_for_env demo_api demo_env session_options_new)"
    unfolding build_session_options_for_env_def build_handle_for_session_def build_handle_inner_def configure_def
      configure_steps_def apply_device_attach_def
    by (intro completes_seq completes_scopes completes_in_order demo_calls completes_give)
      (auto simp: session_options_new_def validate_cuda_stream_guards_def lift_result_def completes_def set_arena_def
        set_mem_pattern_def set_profiling_def each_def if_some_def give_def demo_env_def status_def check_def demo_api_def
        demo_status_def)
  have "completes (create_with_options demo_api demo_env session_options_new rs (create_session demo_api demo_env p))" for rs p
    unfolding create_with_options_def create_session_def
  proof (rule completes_seq [OF opts], rule completes_and_then)
    fix h
    show "completes (then_release demo_api h (create_ptr demo_api Session_handle ''create_session'' [A_ptr (env_ptr demo_env), A_text p, A_handle h]))"
      by (intro completes_scopes demo_calls)
    show "returns (\<lambda>p. p \<noteq> None) (then_release demo_api h (create_ptr demo_api Session_handle ''create_session'' [A_ptr (env_ptr demo_env), A_text p, A_handle h]))"
      by (intro returns_scopes demo_returns)
  next
    fix q :: "handle option"
    assume "q \<noteq> None"
    then show "completes (from_handle_with_resources demo_api rs q)"
      using completes_scopes(2) [OF demo_setup]
      by (auto simp: from_handle_with_resources_def non_null_def lift_result_def and_then_def [abs_def])
  qed
  then have "completes (open_session demo_api None demo_env session_options_new (From_path ''m''))"
    by (simp add: session_new_def new_with_spool_def or_release_spool_def path_cstring_def cstring_new_def has_nul_def
        completes_seq completes_give)
  then show ?thesis by (simp add: completes_def)
qed


subsection \<open>Editing and profiling\<close>

lemma owns_refresh:
  "null_on_error api \<Longrightarrow> ns_handle s \<in> B \<Longrightarrow> accounts B {} (refresh_io_metadata api unique s) (\<lambda>_. {})"
  unfolding refresh_io_metadata_def by (auto intro!: owns_intros)

lemma add_guards_set: "set (add_guards gs ss) = set gs \<union> set ss"
  by (induction gs ss rule: add_guards.induct) auto

text \<open>
  Finalizing an edited session leaves the live handles alone on every path; whatever it returns after
  the editor's entry was found, the session holds its former streams and those of the new options.
\<close>

lemma finalize_keeps_handles:
  assumes "null_on_error api" "native_wf w" "ns_handle s \<in> live w" "finalize api ed unique so s w = ((r, s'), v)"
  shows "live v = live w \<and> misuse v = misuse w \<and> ns_handle s' = ns_handle s
    \<and> set (ns_cuda_streams s) \<subseteq> set (ns_cuda_streams s')
    \<and> (r = Inr () \<longrightarrow> set (cuda_stream_guards so) \<subseteq> set (ns_cuda_streams s'))"
proof (cases unique)
  case False
  then show ?thesis using assms(4) by (auto simp: finalize_def)
next
  case True
  let ?t = "s\<lparr>ns_cuda_streams := add_guards (ns_cuda_streams s) (cuda_stream_guards so)\<rparr>"
  let ?m = "and_then (build_handle_for_session api so) (\<lambda>h.
     and_then (then_release api h (status api ''FinalizeModelEditorSession'' [A_handle (ns_handle ?t), A_handle h])) (\<lambda>_.
       refresh_io_metadata api unique ?t))"
  obtain q u where e: "require_editor_fn ed ''FinalizeModelEditorSession'' w = (q, u)" by fastforce
  have u: "u = w" using e by (auto simp: require_editor_fn_def raise_def give_def split: option.splits if_splits)
  show ?thesis
  proof (cases q)
    case (Inl x)
    then show ?thesis using assms(4) True e u by (auto simp: finalize_def)
  next
    case (Inr x)
    obtain p v' where m: "?m w = (p, v')" by fastforce
    have own: "accounts {ns_handle s} {} ?m (\<lambda>_. {})"
      by (rule owns_and_then [OF owns_build_handle_for_session [OF assms(1)]], rule owns_and_then [OF owns_then_release [OF owns_status]])
        (auto intro: owns_refresh assms(1))
    have "{ns_handle s} \<subseteq> live w" using assms(3) by simp
    note M = ownsD [OF own assms(2) this _ _ m, simplified]
    have kept: "p = Inr t \<Longrightarrow> ns_handle t = ns_handle s \<and> ns_cuda_streams t = ns_cuda_streams ?t" for t
    proof -
      have "returns (\<lambda>t. ns_handle t = ns_handle s \<and> ns_cuda_streams t = ns_cuda_streams ?t) (refresh_io_metadata api unique ?t)"
        unfolding refresh_io_metadata_def using True by (auto intro!: returns_seq returns_give)
      then have "returns (\<lambda>t. ns_handle t = ns_handle s \<and> ns_cuda_streams t = ns_cuda_streams ?t) ?m" by (intro returns_seq)
      then show "p = Inr t \<Longrightarrow> ns_handle t = ns_handle s \<and> ns_cuda_streams t = ns_cuda_streams ?t"
        using m by (blast dest: returnsD)
    qed
    have v: "v = v'" and s': "s' = (case p of Inl _ \<Rightarrow> ?t | Inr t \<Rightarrow> t)"
      using assms(4) True e u Inr m by (auto simp: finalize_def Let_def split: sum.splits)
    have "live v = live w \<and> misuse v = misuse w" using M v by (cases p) simp_all
    moreover have "ns_handle s' = ns_handle s \<and> ns_cuda_streams s' = ns_cuda_streams ?t"
      using kept s' by (cases p) auto
    ultimately show ?thesis by (auto simp: add_guards_set)
  qed
qed

lemma owns_end_profiling:
  assumes "null_on_error api" "ns_handle s \<in> B"
  shows "accounts B {} (end_profiling api s) (\<lambda>_. {})"
  unfolding end_profiling_def
proof (rule owns_seq [OF owns_default_allocator], rule owns_and_then, rule owns_create_ptr [OF assms(1)])
  show "set (handles_of [A_handle (ns_handle s)]) \<subseteq> B" using assms(2) by simp
  fix raw :: "handle option"
  show "accounts B (set_option raw) (case raw of None \<Rightarrow> raise (local_error ''zrt: ORT returned null profiling path'')
      | Some t \<Rightarrow> (\<lambda>w. let path = cstr_to_string (c_chars api t (engine w)) ''profiling path''
           in case free_text api t w of (free, v) \<Rightarrow>
             (case path of Inl e \<Rightarrow> Inl e | Inr p \<Rightarrow> (case free of Inl e \<Rightarrow> Inl e | Inr _ \<Rightarrow> Inr p), v))) (\<lambda>_. {})"
  proof (cases raw)
    case None
    then show ?thesis by (simp add: owns_raise)
  next
    case (Some t)
    have "accounts B {t} (\<lambda>w. case free_text api t w of (free, v) \<Rightarrow>
        (case path of Inl e \<Rightarrow> Inl e | Inr p \<Rightarrow> (case free of Inl e \<Rightarrow> Inl e | Inr _ \<Rightarrow> Inr p), v)) (\<lambda>_. {})"
      for path :: "zerror + string"
    proof (rule ownsI)
      fix w r v
      assume w: "native_wf w" "B \<subseteq> live w" "{t} \<subseteq> live w" "B \<inter> {t} = {}"
        and run: "(case free_text api t w of (free, v) \<Rightarrow>
          (case path of Inl e \<Rightarrow> Inl e | Inr p \<Rightarrow> (case free of Inl e \<Rightarrow> Inl e | Inr _ \<Rightarrow> Inr p), v)) = (r, v)"
      obtain free where f: "free_text api t w = (free, v)" using run by (cases "free_text api t w") simp
      show "native_wf v \<and> misuse v = misuse w \<and> live v = (live w - {t}) \<union> gained (\<lambda>_. {}) r
          \<and> gained (\<lambda>_. {}) r \<inter> (live w - {t}) = {}"
        using ownsD [OF owns_free_text w f] by (auto simp: gained_def split: sum.splits)
    qed
    then show ?thesis unfolding Some option.case option.set Let_def by (rule owns_reading)
  qed
qed

end
