(* ===== verification/Native_Values.thy ===== *)
theory Native_Values
  imports Native_Session
begin

text \<open>
  Values of ONNX Runtime owned by the program (st-zrt/src/tensor.rs: \<open>OwnedValue\<close>, \<open>StringTensor\<close>,
  \<open>read_string_tensor\<close>) and what the engine tells about them (st-zrt/src/type_info.rs). A value is a
  handle of the ledger or a null pointer; a list of values is what a run or a sequence returns.
\<close>

subsection \<open>Pointers that may be null\<close>

definition value_arg :: "handle option \<Rightarrow> c_arg" where
  "value_arg p = (case p of None \<Rightarrow> A_null | Some h \<Rightarrow> A_handle h)"

definition pointees :: "handle option list \<Rightarrow> handle set" where
  "pointees ps = {h. Some h \<in> set ps}"

definition apart :: "handle option list \<Rightarrow> bool" where
  "apart ps \<longleftrightarrow> distinct (filter (\<lambda>p. p \<noteq> None) ps)"

definition release_all :: "'n c_api \<Rightarrow> handle option list \<Rightarrow> ('n, unit) native_op" where
  "release_all api ps = each (\<lambda>p. if_some p (drop_handle api)) ps"

definition or_release_some :: "'n c_api \<Rightarrow> handle option \<Rightarrow> ('n, 'a) native_op \<Rightarrow> ('n, 'a) native_op" where
  "or_release_some api p m = (case p of None \<Rightarrow> m | Some h \<Rightarrow> or_release api h m)"

text \<open>\<open>match\<close> on a result.\<close>

definition match_result :: "('n, 'a) native_op \<Rightarrow> (zerror \<Rightarrow> ('n, 'b) native_op) \<Rightarrow> ('a \<Rightarrow> ('n, 'b) native_op) \<Rightarrow> ('n, 'b) native_op" where
  "match_result m err ok w = (case m w of (Inl e, v) \<Rightarrow> err e v | (Inr a, v) \<Rightarrow> ok a v)"

lemma value_arg_handles [simp]: "set (handles_of (value_arg p # as)) = set_option p \<union> set (handles_of as)"
  by (cases p) (auto simp: value_arg_def)

lemma value_args_handles [simp]: "set (handles_of (map value_arg ps @ as)) = pointees ps \<union> set (handles_of as)"
proof (induction ps)
  case (Cons p ps)
  then show ?case by (cases p) (auto simp: value_arg_def pointees_def)
qed (simp add: pointees_def)

lemma pointees_simps [simp]:
  "pointees [] = {}" "pointees (p # ps) = set_option p \<union> pointees ps" "pointees (ps @ qs) = pointees ps \<union> pointees qs"
  by (auto simp: pointees_def)

lemma apart_simps [simp]:
  "apart []" "apart (None # ps) = apart ps" "apart (Some h # ps) \<longleftrightarrow> h \<notin> pointees ps \<and> apart ps"
  by (auto simp: apart_def pointees_def)

lemma apart_Cons: "apart (p # ps) \<longleftrightarrow> set_option p \<inter> pointees ps = {} \<and> apart ps"
  by (cases p) auto

lemma apart_append: "apart (ps @ qs) \<longleftrightarrow> apart ps \<and> apart qs \<and> pointees ps \<inter> pointees qs = {}"
  by (induction ps) (auto simp: apart_Cons)

subsection \<open>Calls that return many objects\<close>

text \<open>New objects are numbered in the order of the array; a null entry takes no number.\<close>

fun numbered :: "handle_kind \<Rightarrow> nat \<Rightarrow> bool list \<Rightarrow> handle option list" where
  "numbered k s [] = []"
| "numbered k s (b # bs) = (if b then Some (k, s) # numbered k (Suc s) bs else None # numbered k s bs)"

definition count_true :: "bool list \<Rightarrow> nat" where
  "count_true bs = length (filter (\<lambda>b. b) bs)"

text \<open>An array of null pointers that the call fills in.\<close>

definition fill_values :: "'n c_api \<Rightarrow> string \<Rightarrow> c_arg list \<Rightarrow> nat \<Rightarrow> ('n, handle option list) native_op" where
  "fill_values api f as len w = (case c_many api (f, as) (next_serial w) (engine w) of ((st, _, flags), n) \<Rightarrow>
     let bs = overwrite len False flags; ps = numbered Value_handle (next_serial w) bs;
         v = (note_call (f, as) w)\<lparr>engine := n, live := live w \<union> pointees ps, next_serial := next_serial w + count_true bs\<rparr>
     in (case check st of Inl e \<Rightarrow> Inl e | Inr _ \<Rightarrow> Inr ps, v))"

text \<open>An array that the engine allocates, with the objects in it. A null array has no entries.\<close>

definition engine_array :: "'n c_api \<Rightarrow> handle_kind \<Rightarrow> string \<Rightarrow> c_arg list \<Rightarrow> ('n, handle option \<times> handle option list) native_op" where
  "engine_array api k f as w = (case c_many api (f, as) (next_serial w) (engine w) of ((st, some, flags), n) \<Rightarrow>
     let bs = (if some then flags else []); ps = numbered k (Suc (next_serial w)) bs;
         arr = (if some then Some (Engine_array, next_serial w) else None);
         v = (note_call (f, as) w)\<lparr>engine := n, live := live w \<union> set_option arr \<union> pointees ps,
               next_serial := next_serial w + (if some then Suc (count_true bs) else 0)\<rparr>
     in (case check st of Inl e \<Rightarrow> Inl e | Inr _ \<Rightarrow> Inr (arr, ps), v))"

text \<open>An entry of the table that returns a number and no status.\<close>

definition query_plain :: "'n c_api \<Rightarrow> string \<Rightarrow> c_arg list \<Rightarrow> ('n, int) native_op" where
  "query_plain api f as w = (case c_int api (f, as) (engine w) of ((_, v), n) \<Rightarrow> (Inr v, (note_call (f, as) w)\<lparr>engine := n\<rparr>))"

text \<open>ONNX Runtime sets no out pointer of an array when it returns an error status.\<close>

definition no_values_on_error :: "'n c_api \<Rightarrow> bool" where
  "no_values_on_error api \<longleftrightarrow> (\<forall>c s n st some flags n'. c_many api c s n = ((st, some, flags), n') \<longrightarrow> st \<noteq> None \<longrightarrow>
     \<not> some \<and> True \<notin> set flags)"

lemma numbered_bounds: "h \<in> pointees (numbered k s bs) \<Longrightarrow> fst h = k \<and> s \<le> snd h \<and> snd h < s + count_true bs"
proof (induction k s bs rule: numbered.induct)
  case (2 k s b bs)
  then show ?case by (cases b) (fastforce simp: count_true_def)+
qed simp

lemma apart_numbered: "apart (numbered k s bs)"
proof (induction k s bs rule: numbered.induct)
  case (2 k s b bs)
  then show ?case using numbered_bounds [of "(k, s)" k "Suc s" bs] by (cases b) auto
qed simp

lemma length_numbered [simp]: "length (numbered k s bs) = length bs"
  by (induction k s bs rule: numbered.induct) auto

lemma numbered_none: "True \<notin> set bs \<Longrightarrow> pointees (numbered k s bs) = {}"
  by (induction k s bs rule: numbered.induct) auto

lemma numbered_fresh: "native_wf w \<Longrightarrow> next_serial w \<le> s \<Longrightarrow> pointees (numbered k s bs) \<inter> live w = {}"
  using numbered_bounds by (fastforce simp: native_wf_def)

lemma owns_fill_values [owns_intros]:
  assumes "no_values_on_error api" "set (handles_of as) \<subseteq> B"
  shows "accounts B {} (fill_values api f as len) pointees"
proof (rule ownsI)
  fix w r v
  assume w: "native_wf w" "B \<subseteq> live w" and run: "fill_values api f as len w = (r, v)"
  obtain st some flags n where c: "c_many api (f, as) (next_serial w) (engine w) = ((st, some, flags), n)" by (metis prod.collapse)
  let ?bs = "overwrite len False flags"
  let ?ps = "numbered Value_handle (next_serial w) ?bs"
  have v: "v = (note_call (f, as) w)\<lparr>engine := n, live := live w \<union> pointees ?ps, next_serial := next_serial w + count_true ?bs\<rparr>"
    and r: "r = (case check st of Inl e \<Rightarrow> Inl e | Inr _ \<Rightarrow> Inr ?ps)"
    using run by (simp_all add: fill_values_def c Let_def)
  have args: "misuse (note_call (f, as) w) = misuse w" using assms(2) w(2) by (intro handles_noted) auto
  have wf: "native_wf v" using w(1) numbered_bounds [of _ Value_handle "next_serial w" ?bs]
    by (fastforce simp: v native_wf_def)
  have none: "pointees ?ps = {}" if "st \<noteq> None"
  proof (rule numbered_none)
    have "True \<notin> set flags" using assms(1) c that unfolding no_values_on_error_def by blast
    then show "True \<notin> set ?bs" by (auto simp: overwrite_def dest: in_set_takeD)
  qed
  show "native_wf v \<and> misuse v = misuse w \<and> live v = (live w - {}) \<union> gained pointees r \<and> gained pointees r \<inter> (live w - {}) = {}"
    using wf args none numbered_fresh [OF w(1), of "next_serial w" Value_handle ?bs]
    by (cases st) (simp_all add: v r check_def)
qed

lemma owns_engine_array [owns_intros]:
  assumes "no_values_on_error api" "set (handles_of as) \<subseteq> B"
  shows "accounts B {} (engine_array api k f as) (\<lambda>(arr, ps). set_option arr \<union> pointees ps)"
proof (rule ownsI)
  fix w r v
  assume w: "native_wf w" "B \<subseteq> live w" and run: "engine_array api k f as w = (r, v)"
  obtain st some flags n where c: "c_many api (f, as) (next_serial w) (engine w) = ((st, some, flags), n)" by (metis prod.collapse)
  let ?s = "next_serial w"
  let ?bs = "if some then flags else []"
  let ?ps = "numbered k (Suc ?s) ?bs"
  let ?arr = "if some then Some (Engine_array, ?s) else None"
  have v: "v = (note_call (f, as) w)\<lparr>engine := n, live := live w \<union> set_option ?arr \<union> pointees ?ps,
               next_serial := ?s + (if some then Suc (count_true ?bs) else 0)\<rparr>"
    and r: "r = (case check st of Inl e \<Rightarrow> Inl e | Inr _ \<Rightarrow> Inr (?arr, ?ps))"
    using run by (simp_all add: engine_array_def c Let_def)
  have args: "misuse (note_call (f, as) w) = misuse w" using assms(2) w(2) by (intro handles_noted) auto
  have wf: "native_wf v" using w(1) numbered_bounds [of _ k "Suc ?s" ?bs]
    by (cases some) (fastforce simp: v native_wf_def)+
  have none: "\<not> some" if "st \<noteq> None"
    using assms(1) c that unfolding no_values_on_error_def by blast
  have fresh: "pointees ?ps \<inter> live w = {}" "(Engine_array, ?s) \<notin> live w"
    using numbered_fresh [OF w(1)] native_wf_fresh [OF w(1)] by simp_all
  show "native_wf v \<and> misuse v = misuse w \<and> live v = (live w - {}) \<union> gained (\<lambda>(arr, ps). set_option arr \<union> pointees ps) r
      \<and> gained (\<lambda>(arr, ps). set_option arr \<union> pointees ps) r \<inter> (live w - {}) = {}"
    using wf args none fresh by (cases st; cases some) (auto simp: v r check_def)
qed

lemma owns_query_plain [owns_intros]: "set (handles_of as) \<subseteq> B \<Longrightarrow> accounts B {} (query_plain api f as) (\<lambda>_. {})"
  by (rule ownsI) (auto simp: query_plain_def handles_noted native_wf_def gained_def split: prod.splits)

subsection \<open>Rules for cleaning up\<close>

text \<open>The continuation may use what is known of the result.\<close>

lemma owns_bind:
  assumes m: "accounts B C m G" and P: "returns P m" and f: "\<And>a. P a \<Longrightarrow> accounts B (G a) (f a) G'"
  shows "accounts B C (and_then m f) G'"
proof (rule ownsI)
  fix w r v
  assume w: "native_wf w" "B \<subseteq> live w" "C \<subseteq> live w" "B \<inter> C = {}" and run: "and_then m f w = (r, v)"
  obtain q u where mw: "m w = (q, u)" by fastforce
  note M = ownsD [OF m w mw]
  show "native_wf v \<and> misuse v = misuse w \<and> live v = (live w - C) \<union> gained G' r \<and> gained G' r \<inter> (live w - C) = {}"
  proof (cases q)
    case (Inl e)
    then have "v = u" "r = Inl e" using mw run by (simp_all add: and_then_def)
    then show ?thesis using M(1,2,3) Inl by simp
  next
    case (Inr a)
    then have fa: "f a u = (r, v)" using mw run by (simp add: and_then_def)
    have pre: "B \<subseteq> live u" "G a \<subseteq> live u" "B \<inter> G a = {}" using M(3,4) w(2,4) Inr by auto
    have "P a" using returnsD [OF P] mw Inr by blast
    note F = ownsD [OF f [OF this] M(1) pre fa]
    have "live u - G a = live w - C" using M(3,4) Inr by auto
    then show ?thesis using F M(2) by simp
  qed
qed

text \<open>Handles that are set aside while an operation runs are there for both continuations.\<close>

lemma owns_match:
  assumes m: "accounts (B \<union> D) C m G" and P: "returns P m" and CD: "C \<inter> D = {}"
    and ok: "\<And>a. P a \<Longrightarrow> G a \<inter> D = {} \<Longrightarrow> accounts B (G a \<union> D) (ok a) G'" and err: "\<And>e. accounts B D (err e) G'"
  shows "accounts B (C \<union> D) (match_result m err ok) G'"
proof (rule ownsI)
  fix w r v
  assume w: "native_wf w" "B \<subseteq> live w" "C \<union> D \<subseteq> live w" "B \<inter> (C \<union> D) = {}" and run: "match_result m err ok w = (r, v)"
  obtain q u where mw: "m w = (q, u)" by fastforce
  have pre: "B \<union> D \<subseteq> live w" "C \<subseteq> live w" "(B \<union> D) \<inter> C = {}" using w CD by auto
  note M = ownsD [OF m w(1) pre mw]
  show "native_wf v \<and> misuse v = misuse w \<and> live v = (live w - (C \<union> D)) \<union> gained G' r
      \<and> gained G' r \<inter> (live w - (C \<union> D)) = {}"
  proof (cases q)
    case (Inl e)
    then have run': "err e u = (r, v)" using mw run by (simp add: match_result_def)
    have live: "live u = live w - C" using M(3) Inl by simp
    then have "B \<subseteq> live u" "D \<subseteq> live u" "B \<inter> D = {}" using w CD by auto
    note F = ownsD [OF err M(1) this run']
    have "live u - D = live w - (C \<union> D)" using live by auto
    then show ?thesis using F M(2) by simp
  next
    case (Inr a)
    then have run': "ok a u = (r, v)" using mw run by (simp add: match_result_def)
    have live: "live u = (live w - C) \<union> G a" "G a \<inter> (live w - C) = {}" using M(3,4) Inr by simp_all
    then have GD: "G a \<inter> D = {}" and pre': "B \<subseteq> live u" "G a \<union> D \<subseteq> live u" "B \<inter> (G a \<union> D) = {}" using w CD by auto
    have "P a" using returnsD [OF P] mw Inr by blast
    note F = ownsD [OF ok [OF this GD] M(1) pre' run']
    have "live u - (G a \<union> D) = live w - (C \<union> D)" using live by auto
    then show ?thesis using F M(2) by simp
  qed
qed

lemma owns_match_plain:
  assumes "accounts B C m G" "\<And>a. accounts B (G a) (ok a) G'" "\<And>e. accounts B {} (err e) G'"
  shows "accounts B C (match_result m err ok) G'"
  using owns_match [of B "{}" C m G "\<lambda>_. True" ok G' err, OF _ returns_any] assms by simp

lemma owns_drop_then:
  assumes "accounts B D m G" "h \<notin> D"
  shows "accounts B (insert h D) (and_then (drop_handle api h) (\<lambda>_. m)) G"
proof (rule ownsI)
  fix w r v
  assume w: "native_wf w" "B \<subseteq> live w" "insert h D \<subseteq> live w" "B \<inter> insert h D = {}"
    and run: "and_then (drop_handle api h) (\<lambda>_. m) w = (r, v)"
  let ?u = "release_handle api h w"
  have run': "m ?u = (r, v)" using run by (simp add: and_then_def drop_handle_def)
  have live: "live ?u = live w - {h}" "misuse ?u = misuse w" "native_wf ?u"
    using w by (auto simp: release_handle_def native_wf_def)
  have pre: "B \<subseteq> live ?u" "D \<subseteq> live ?u" "B \<inter> D = {}" using w assms(2) live(1) by auto
  note M = ownsD [OF assms(1) live(3) pre run']
  have "live ?u - D = live w - insert h D" using live(1) by auto
  then show "native_wf v \<and> misuse v = misuse w \<and> live v = (live w - insert h D) \<union> gained G r
      \<and> gained G r \<inter> (live w - insert h D) = {}"
    using M live(2) by simp
qed

lemma release_all_simps [simp]:
  "release_all api [] = give ()" "release_all api (None # ps) = release_all api ps"
  "release_all api (Some h # ps) = and_then (drop_handle api h) (\<lambda>_. release_all api ps)"
  by (auto simp: release_all_def each_def if_some_def and_then_def give_def fun_eq_iff)

lemma owns_release_all_then:
  "apart ps \<Longrightarrow> pointees ps \<inter> D = {} \<Longrightarrow> accounts B D m G \<Longrightarrow>
     accounts B (pointees ps \<union> D) (and_then (release_all api ps) (\<lambda>_. m)) G"
proof (induction ps)
  case Nil
  then show ?case by (simp add: and_then_def give_def)
next
  case (Cons p ps)
  show ?case
  proof (cases p)
    case None
    then show ?thesis using Cons by (simp add: apart_Cons)
  next
    case (Some h)
    then have "accounts B (pointees ps \<union> D) (and_then (release_all api ps) (\<lambda>_. m)) G" using Cons by (simp add: apart_Cons)
    then show ?thesis using owns_drop_then [of B "pointees ps \<union> D" _ G h api] Cons.prems Some by (simp add: and_then_assoc)
  qed
qed

lemma and_then_give [simp]: "and_then m give = m" "and_then m (\<lambda>_. give ()) = m"
  by (auto simp: and_then_def give_def fun_eq_iff split: prod.splits sum.splits)

lemma owns_release_all: "apart ps \<Longrightarrow> accounts B (pointees ps) (release_all api ps) (\<lambda>_. {})"
  using owns_release_all_then [of ps "{}" B "give ()" "\<lambda>_. {}" api, OF _ _ owns_give] by simp

lemma owns_or_release_some:
  assumes "accounts (B \<union> set_option p) {} m G"
  shows "accounts B (set_option p) (or_release_some api p m) (\<lambda>a. set_option p \<union> G a)"
  using assms owns_or_release [of _ B m G api] by (cases p) (simp_all add: or_release_some_def)

subsection \<open>Types and shapes\<close>

fun elem_code :: "element_type \<Rightarrow> int" where
  "elem_code Undefined = 0" | "elem_code Float = 1" | "elem_code Uint8 = 2" | "elem_code Int8 = 3"
| "elem_code Uint16 = 4" | "elem_code Int16 = 5" | "elem_code Int32 = 6" | "elem_code Int64 = 7"
| "elem_code String_element = 8" | "elem_code Bool_element = 9" | "elem_code Float16 = 10" | "elem_code Double = 11"
| "elem_code Uint32 = 12" | "elem_code Uint64 = 13" | "elem_code Complex64 = 14" | "elem_code Complex128 = 15"
| "elem_code Bfloat16 = 16" | "elem_code Float8E4M3FN = 17" | "elem_code Float8E4M3FNUZ = 18" | "elem_code Float8E5M2 = 19"
| "elem_code Float8E5M2FNUZ = 20" | "elem_code Uint4 = 21" | "elem_code Int4 = 22" | "elem_code Float4E2M1 = 23"
| "elem_code Uint2 = 24" | "elem_code Int2 = 25" | "elem_code Float8E8M0 = 26"

text \<open>The names that \<open>{:?}\<close> prints.\<close>

definition elem_names :: "string list" where
  "elem_names = [''Undefined'', ''Float'', ''Uint8'', ''Int8'', ''Uint16'', ''Int16'', ''Int32'', ''Int64'', ''String'', ''Bool'',
     ''Float16'', ''Double'', ''Uint32'', ''Uint64'', ''Complex64'', ''Complex128'', ''Bfloat16'', ''Float8E4M3FN'',
     ''Float8E4M3FNUZ'', ''Float8E5M2'', ''Float8E5M2FNUZ'', ''Uint4'', ''Int4'', ''Float4E2M1'', ''Uint2'', ''Int2'', ''Float8E8M0'']"

definition onnx_names :: "string list" where
  "onnx_names = [''Unknown'', ''Tensor'', ''Sequence'', ''Map'', ''Optional'', ''SparseTensor'', ''Opaque'']"

definition debug_name :: "string list \<Rightarrow> int \<Rightarrow> string" where
  "debug_name names code = (if 0 \<le> code \<and> nat code < length names then names ! nat code else [])"

definition shape_error :: "tensor_error \<Rightarrow> zerror" where
  "shape_error e = local_error (case e of
     Dynamic_dimension d \<Rightarrow> ''tensor shape contains a dynamic/unknown dimension ('' @ show_int d @ '')''
   | Shape_mismatch expected got \<Rightarrow> ''tensor shape expects '' @ digits expected @ '' elements, got '' @ digits got
   | _ \<Rightarrow> ''tensor shape element count overflows usize'')"

definition lift_shape :: "tensor_error + 'a \<Rightarrow> ('n, 'a) native_op" where
  "lift_shape r = lift_result (case r of Inl e \<Rightarrow> Inl (shape_error e) | Inr a \<Rightarrow> Inr a)"

definition tsi_new :: "'n c_api \<Rightarrow> ('n, handle) native_op" where
  "tsi_new api = create_handle api Tensor_info_handle ''create_tensor_type_and_shape_info'' [] ''tensor type and shape info''"

definition tsi_set_element_type :: "'n c_api \<Rightarrow> handle \<Rightarrow> int \<Rightarrow> ('n, unit) native_op" where
  "tsi_set_element_type api t ty = status api ''set_tensor_element_type'' [A_handle t, A_int ty]"

definition tsi_set_dimensions :: "'n c_api \<Rightarrow> handle \<Rightarrow> int list \<Rightarrow> ('n, unit) native_op" where
  "tsi_set_dimensions api t dims = status api ''set_dimensions'' (A_handle t # map A_int dims @ [A_int (int (length dims))])"

definition tsi_set_symbolic_dimensions :: "'n c_api \<Rightarrow> handle \<Rightarrow> string list \<Rightarrow> ('n, unit) native_op" where
  "tsi_set_symbolic_dimensions api t names =
     (if \<exists>s \<in> set names. has_nul s then raise (local_error ''symbolic dimension name contains a NUL'')
      else status api ''set_symbolic_dimensions'' [A_handle t, A_texts names, A_int (int (length names))])"

definition tsi_element_type :: "'n c_api \<Rightarrow> handle \<Rightarrow> ('n, int) native_op" where
  "tsi_element_type api t = query_int api ''get_tensor_element_type'' [A_handle t]"

definition tsi_rank :: "'n c_api \<Rightarrow> handle \<Rightarrow> ('n, nat) native_op" where
  "tsi_rank api t = and_then (query_int api ''get_dimensions_count'' [A_handle t]) (\<lambda>n. give (nat n))"

definition tsi_dims :: "'n c_api \<Rightarrow> handle \<Rightarrow> ('n, int list) native_op" where
  "tsi_dims api t = and_then (tsi_rank api t) (\<lambda>n. query_ints api ''get_dimensions'' [A_handle t, A_int (int n)] n)"

definition tsi_element_count :: "'n c_api \<Rightarrow> handle \<Rightarrow> ('n, nat) native_op" where
  "tsi_element_count api t = and_then (tsi_dims api t) (\<lambda>dims. lift_shape (checked_element_count dims))"

definition tsi_has_shape :: "'n c_api \<Rightarrow> handle \<Rightarrow> ('n, bool) native_op" where
  "tsi_has_shape api t = and_then (query_plain api ''tensor_type_and_shape__has_shape'' [A_handle t]) (\<lambda>b. give (b \<noteq> 0))"

definition tsi_shape_element_count :: "'n c_api \<Rightarrow> handle \<Rightarrow> ('n, nat) native_op" where
  "tsi_shape_element_count api t = and_then (query_int api ''get_tensor_shape_element_count'' [A_handle t]) (\<lambda>n. give (nat n))"

text \<open>A null entry is a concrete dimension.\<close>

definition symbolic_name :: "string option \<Rightarrow> ('n, string option) native_op" where
  "symbolic_name p = (case p of None \<Rightarrow> give None
     | Some raw \<Rightarrow> if valid_utf8 (until_nul raw) then give (Some (until_nul raw))
         else raise (local_error ''zrt: symbolic dimension name is not valid UTF-8''))"

definition tsi_symbolic_dims :: "'n c_api \<Rightarrow> handle \<Rightarrow> ('n, string option list) native_op" where
  "tsi_symbolic_dims api t = and_then (tsi_rank api t) (\<lambda>n.
     and_then (query_texts api ''get_symbolic_dimensions'' [A_handle t, A_int (int n)] n) (collect_results symbolic_name))"

definition tensor_type_and_shape :: "'n c_api \<Rightarrow> handle option \<Rightarrow> ('n, handle) native_op" where
  "tensor_type_and_shape api p = create_handle api Tensor_info_handle ''get_tensor_type_and_shape'' [value_arg p] ''tensor type and shape info''"

text \<open>\<open>RuntimeTypeInfo\<close> owns its handle; the views it is cast to are borrowed pointers.\<close>

definition rti_onnx_type :: "'n c_api \<Rightarrow> handle \<Rightarrow> ('n, int) native_op" where
  "rti_onnx_type api t = query_int api ''get_onnx_type_from_type_info'' [A_handle t]"

definition rti_denotation :: "'n c_api \<Rightarrow> handle \<Rightarrow> ('n, string) native_op" where
  "rti_denotation api t = and_then (query_text api ''get_denotation_from_type_info'' [A_handle t]) (\<lambda>p.
     case p of None \<Rightarrow> give [] | Some bytes \<Rightarrow>
       if valid_utf8 bytes then give bytes else raise (local_error ''zrt: type-info denotation is not valid UTF-8''))"

definition cast_view :: "'n c_api \<Rightarrow> string \<Rightarrow> handle \<Rightarrow> ('n, nat option) native_op" where
  "cast_view api f t = and_then (query_int api f [A_handle t]) (\<lambda>p. give (if p = 0 then None else Some (nat p)))"

definition cast_to_tensor :: "'n c_api \<Rightarrow> handle \<Rightarrow> ('n, nat option) native_op" where
  "cast_to_tensor api t = cast_view api ''cast_type_info_to_tensor_info'' t"

definition cast_to_map :: "'n c_api \<Rightarrow> handle \<Rightarrow> ('n, nat option) native_op" where
  "cast_to_map api t = cast_view api ''cast_type_info_to_map_type_info'' t"

definition cast_to_sequence :: "'n c_api \<Rightarrow> handle \<Rightarrow> ('n, nat option) native_op" where
  "cast_to_sequence api t = cast_view api ''cast_type_info_to_sequence_type_info'' t"

definition cast_to_optional :: "'n c_api \<Rightarrow> handle \<Rightarrow> ('n, nat option) native_op" where
  "cast_to_optional api t = cast_view api ''cast_type_info_to_optional_type_info'' t"

definition map_key_type :: "'n c_api \<Rightarrow> nat \<Rightarrow> ('n, int) native_op" where
  "map_key_type api p = query_int api ''get_map_key_type'' [A_ptr p]"

definition map_value_type :: "'n c_api \<Rightarrow> nat \<Rightarrow> ('n, handle) native_op" where
  "map_value_type api p = create_handle api Type_info_handle ''get_map_value_type'' [A_ptr p] ''map value type info''"

definition sequence_element_type :: "'n c_api \<Rightarrow> nat \<Rightarrow> ('n, handle) native_op" where
  "sequence_element_type api p = create_handle api Type_info_handle ''get_sequence_element_type'' [A_ptr p] ''sequence element type info''"

definition optional_contained :: "'n c_api \<Rightarrow> nat \<Rightarrow> ('n, handle) native_op" where
  "optional_contained api p = create_handle api Type_info_handle ''get_optional_contained_type_info'' [A_ptr p] ''optional contained type info''"

subsection \<open>Owned values\<close>

record owned_value =
  ov_value :: "handle option"
  ov_onnx_type :: int
  ov_elem_type :: int
  ov_count :: nat

definition drop_value :: "'n c_api \<Rightarrow> owned_value \<Rightarrow> ('n, unit) native_op" where
  "drop_value api x = if_some (ov_value x) (drop_handle api)"

definition drop_values :: "'n c_api \<Rightarrow> owned_value list \<Rightarrow> ('n, unit) native_op" where
  "drop_values api xs = release_all api (map ov_value xs)"

definition introspect :: "'n c_api \<Rightarrow> handle option \<Rightarrow> ('n, int \<times> int \<times> nat) native_op" where
  "introspect api p = and_then (query_int api ''get_value_type'' [value_arg p]) (\<lambda>kind.
     if kind = onnx_tensor
     then and_then (tensor_type_and_shape api p) (\<lambda>t. then_release api t
            (and_then (tsi_element_type api t) (\<lambda>ty. and_then (tsi_element_count api t) (\<lambda>n. give (kind, ty, n)))))
     else give (kind, 0, 0))"

definition from_introspect :: "'n c_api \<Rightarrow> handle option \<Rightarrow> ('n, owned_value) native_op" where
  "from_introspect api p = or_release_some api p (and_then (introspect api p) (\<lambda>(kind, ty, n).
     give \<lparr>ov_value = p, ov_onnx_type = kind, ov_elem_type = ty, ov_count = n\<rparr>))"

text \<open>
  \<open>collect_from_raw\<close>: at the first value that cannot be inspected, that value, the rest of the array
  and the values collected so far are all released.
\<close>

fun collect_loop :: "'n c_api \<Rightarrow> owned_value list \<Rightarrow> handle option list \<Rightarrow> ('n, owned_value list) native_op" where
  "collect_loop api xs [] = give xs"
| "collect_loop api xs (p # ps) = match_result (from_introspect api p)
     (\<lambda>e. and_then (release_all api ps) (\<lambda>_. and_then (drop_values api xs) (\<lambda>_. raise e)))
     (\<lambda>x. collect_loop api (xs @ [x]) ps)"

definition collect_from_raw :: "'n c_api \<Rightarrow> handle option list \<Rightarrow> ('n, owned_value list) native_op" where
  "collect_from_raw api ps = collect_loop api [] ps"

definition byte_len :: "'n c_api \<Rightarrow> owned_value \<Rightarrow> ('n, nat) native_op" where
  "byte_len api x = (if ov_onnx_type x \<noteq> onnx_tensor then raise (local_error (''zrt: byte_len on a non-tensor ('' @ debug_name onnx_names (ov_onnx_type x) @ '') value''))
     else and_then (query_int api ''get_tensor_size_in_bytes'' [value_arg (ov_value x)]) (\<lambda>n. give (nat n)))"

definition value_count :: "'n c_api \<Rightarrow> owned_value \<Rightarrow> ('n, nat) native_op" where
  "value_count api x = and_then (query_int api ''get_value_count'' [value_arg (ov_value x)]) (\<lambda>n. give (nat n))"

definition get_value :: "'n c_api \<Rightarrow> owned_value \<Rightarrow> nat \<Rightarrow> ('n, owned_value) native_op" where
  "get_value api x i = and_then (value_count api x) (\<lambda>count.
     if count \<le> i then raise (local_error (''zrt: value index '' @ digits i @ '' out of range ('' @ digits count @ '' values)''))
     else if 2 ^ 31 \<le> i then raise (local_error ''zrt: value index overflows c_int'')
     else and_then (default_allocator api) (\<lambda>_.
       and_then (create_ptr api Value_handle ''get_value'' [value_arg (ov_value x), A_int (int i)]) (from_introspect api)))"

definition value_is_tensor :: "'n c_api \<Rightarrow> owned_value \<Rightarrow> ('n, bool) native_op" where
  "value_is_tensor api x = and_then (query_int api ''is_tensor'' [value_arg (ov_value x)]) (\<lambda>b. give (b \<noteq> 0))"

definition has_value :: "'n c_api \<Rightarrow> owned_value \<Rightarrow> ('n, bool) native_op" where
  "has_value api x = and_then (query_int api ''has_value'' [value_arg (ov_value x)]) (\<lambda>b. give (b \<noteq> 0))"

definition value_type_info :: "'n c_api \<Rightarrow> owned_value \<Rightarrow> ('n, handle) native_op" where
  "value_type_info api x = create_handle api Type_info_handle ''get_type_info'' [value_arg (ov_value x)] ''value type info''"

definition new_composite :: "'n c_api \<Rightarrow> owned_value list \<Rightarrow> int \<Rightarrow> ('n, owned_value) native_op" where
  "new_composite api parts kind = and_then
     (create_ptr api Value_handle ''create_value'' (map value_arg (map ov_value parts) @ [A_int (int (length parts)), A_int kind]))
     (from_introspect api)"

definition new_sequence :: "'n c_api \<Rightarrow> owned_value list \<Rightarrow> ('n, owned_value) native_op" where
  "new_sequence api elements = new_composite api elements 2"

definition new_map :: "'n c_api \<Rightarrow> owned_value \<Rightarrow> owned_value \<Rightarrow> ('n, owned_value) native_op" where
  "new_map api keys vals = new_composite api [keys, vals] 3"

definition opaque_value :: "'n c_api \<Rightarrow> string \<Rightarrow> string \<Rightarrow> string \<Rightarrow> ('n, owned_value) native_op" where
  "opaque_value api domain type_name data =
     (if has_nul domain then raise (local_error ''opaque domain contains a NUL'')
      else if has_nul type_name then raise (local_error ''opaque type name contains a NUL'')
      else and_then (create_ptr api Value_handle ''create_opaque_value''
          [A_text domain, A_text type_name, A_text data, A_int (int (length data))]) (from_introspect api))"

definition get_opaque :: "'n c_api \<Rightarrow> owned_value \<Rightarrow> string \<Rightarrow> string \<Rightarrow> nat \<Rightarrow> ('n, string) native_op" where
  "get_opaque api x domain type_name len =
     (if has_nul domain then raise (local_error ''opaque domain contains a NUL'')
      else if has_nul type_name then raise (local_error ''opaque type name contains a NUL'')
      else and_then (fill_buffer api ''get_opaque_value'' [A_text domain, A_text type_name, value_arg (ov_value x)] (Some len))
        (\<lambda>(st, _, bytes). and_then (lift_result (check st)) (\<lambda>_. give (overwrite len CHR 0x00 bytes))))"

text \<open>
  \<open>from_allocated\<close>: the engine takes the block over with the creation; until then it is freed on
  every error.
\<close>

definition hand_over :: "handle \<Rightarrow> ('n, unit) native_op" where
  "hand_over h w = (Inr (), w\<lparr>live := live w - {h}, misuse := misuse w @ (if h \<in> live w then [] else [h])\<rparr>)"

definition from_allocated :: "'n c_api \<Rightarrow> handle \<Rightarrow> nat \<Rightarrow> int list \<Rightarrow> element_type \<Rightarrow> ('n, owned_value) native_op" where
  "from_allocated api block len shape ty =
     (let size = element_size ty in
      if size \<noteq> 0 \<and> len mod size \<noteq> 0
      then and_then (drop_handle api block) (\<lambda>_. raise (local_error (''zrt: allocation of '' @ digits len
             @ '' bytes is not a whole multiple of '' @ debug_name elem_names (elem_code ty) @ '' ('' @ digits size @ '' bytes)'')))
      else match_result (create_ptr api Value_handle ''create_tensor_with_data_and_deleter_as_ort_value''
             (A_handle block # A_int (int len) # map A_int shape @ [A_int (elem_code ty)]))
        (\<lambda>e. and_then (drop_handle api block) (\<lambda>_. raise e))
        (\<lambda>p. and_then (hand_over block) (\<lambda>_. and_then (lift_result (non_null p ''deleter-backed tensor'')) (\<lambda>h. from_introspect api (Some h)))))"

definition device_value :: "'n c_api \<Rightarrow> owned_value \<Rightarrow> ('n, owned_value) native_op" where
  "device_value api x = (if ov_onnx_type x \<noteq> onnx_tensor
     then and_then (drop_value api x) (\<lambda>_. raise (local_error (''zrt: DeviceValue requires a tensor, got '' @ debug_name onnx_names (ov_onnx_type x)))) else give x)"

subsection \<open>Ownership of values\<close>

definition value_handles :: "owned_value list \<Rightarrow> handle set" where
  "value_handles xs = pointees (map ov_value xs)"

lemma value_handles_simps [simp]:
  "value_handles [] = {}" "value_handles (x # xs) = set_option (ov_value x) \<union> value_handles xs"
  "value_handles (xs @ ys) = value_handles xs \<union> value_handles ys"
  by (simp_all add: value_handles_def)

lemma owns_tsi_element_type: "t \<in> B \<Longrightarrow> accounts B {} (tsi_element_type api t) (\<lambda>_. {})"
  unfolding tsi_element_type_def by (rule owns_query_int) simp

lemma owns_tsi_dims: "t \<in> B \<Longrightarrow> accounts B {} (tsi_dims api t) (\<lambda>_. {})"
  unfolding tsi_dims_def tsi_rank_def by (rule owns_seq, rule owns_seq [OF owns_query_int owns_give], simp, rule owns_query_ints, simp)

lemma owns_tsi_element_count: "t \<in> B \<Longrightarrow> accounts B {} (tsi_element_count api t) (\<lambda>_. {})"
  unfolding tsi_element_count_def lift_shape_def by (rule owns_seq [OF owns_tsi_dims owns_lift])

lemma owns_tensor_type_and_shape:
  "null_on_error api \<Longrightarrow> set_option p \<subseteq> B \<Longrightarrow> accounts B {} (tensor_type_and_shape api p) (\<lambda>h. {h})"
  unfolding tensor_type_and_shape_def by (rule owns_create_handle) simp_all

lemma owns_introspect:
  assumes "null_on_error api" "set_option p \<subseteq> B"
  shows "accounts B {} (introspect api p) (\<lambda>_. {})"
proof -
  have body: "accounts (insert t B) {} (and_then (tsi_element_type api t) (\<lambda>ty. and_then (tsi_element_count api t) (\<lambda>n. give (kind, ty, n)))) (\<lambda>_. {})"
    for t and kind :: int
    by (rule owns_seq [OF owns_tsi_element_type], simp, rule owns_seq [OF owns_tsi_element_count owns_give], simp)
  show ?thesis unfolding introspect_def
    by (rule owns_seq, rule owns_query_int, simp add: assms(2), rule owns_if,
        rule owns_and_then [OF owns_tensor_type_and_shape [OF assms]], rule owns_then_release [OF body], rule owns_give)
qed

lemma from_introspect_value: "returns (\<lambda>x. ov_value x = p) (from_introspect api p)"
proof -
  have "returns (\<lambda>x. ov_value x = p) (and_then (introspect api p) (\<lambda>(kind, ty, n).
     give \<lparr>ov_value = p, ov_onnx_type = kind, ov_elem_type = ty, ov_count = n\<rparr>))"
    by (rule returns_seq) (auto intro: returns_give)
  then show ?thesis unfolding from_introspect_def or_release_some_def by (cases p) (auto intro: returns_scopes)
qed

lemma owns_from_introspect:
  assumes "null_on_error api"
  shows "accounts B (set_option p) (from_introspect api p) (\<lambda>x. set_option (ov_value x))"
proof (rule owns_result)
  show "accounts B (set_option p) (from_introspect api p) (\<lambda>_. set_option p \<union> {})"
    unfolding from_introspect_def
    by (rule owns_or_release_some, rule owns_seq [OF owns_introspect], rule assms, simp) (auto intro: owns_give)
next
  fix w x v
  assume "from_introspect api p w = (Inr x, v)"
  from returnsD [OF from_introspect_value this] show "set_option p \<union> {} = set_option (ov_value x)" by simp
qed

lemma owns_drop_values: "apart (map ov_value xs) \<Longrightarrow> accounts B (value_handles xs) (drop_values api xs) (\<lambda>_. {})"
  unfolding drop_values_def value_handles_def by (rule owns_release_all)

lemma owns_collect_loop:
  assumes "null_on_error api"
  shows "apart (map ov_value xs @ ps) \<Longrightarrow>
     accounts B (value_handles xs \<union> pointees ps) (collect_loop api xs ps) value_handles"
proof (induction ps arbitrary: xs)
  case Nil
  show ?case by (rule ownsI) (auto simp: give_def)
next
  case (Cons p ps)
  let ?D = "value_handles xs \<union> pointees ps"
  have apart: "apart (map ov_value xs)" "apart ps" "pointees ps \<inter> value_handles xs = {}" "set_option p \<inter> ?D = {}"
    using Cons.prems by (auto simp: apart_append apart_Cons value_handles_def)
  have err: "accounts B ?D (and_then (release_all api ps) (\<lambda>_. and_then (drop_values api xs) (\<lambda>_. raise e))) value_handles" for e
    using owns_release_all_then [OF apart(2,3), of B _ value_handles api]
      owns_and_then [OF owns_drop_values [OF apart(1), of B api], of "\<lambda>_. raise e" value_handles, OF owns_raise]
    by (simp add: Un_commute)
  have "accounts B (set_option p \<union> ?D) (collect_loop api xs (p # ps)) value_handles"
  proof (simp, rule owns_match [OF owns_from_introspect [OF assms] from_introspect_value apart(4) _ err])
    fix x :: owned_value
    assume x: "ov_value x = p"
    have "apart (map ov_value (xs @ [x]) @ ps)" using Cons.prems x by simp
    from Cons.IH [OF this] show "accounts B (set_option (ov_value x) \<union> ?D) (collect_loop api (xs @ [x]) ps) value_handles"
      by (simp add: Un_ac)
  qed
  then show ?case by (simp add: Un_ac)
qed

lemma owns_collect_from_raw:
  "null_on_error api \<Longrightarrow> apart ps \<Longrightarrow> accounts B (pointees ps) (collect_from_raw api ps) value_handles"
  unfolding collect_from_raw_def using owns_collect_loop [of api "[]" ps B] by simp

lemma match_result_returns:
  "returns P m \<Longrightarrow> (\<And>a. P a \<Longrightarrow> returns Q (ok a)) \<Longrightarrow> (\<And>e. returns Q (err e)) \<Longrightarrow> returns Q (match_result m err ok)"
  unfolding returns_def match_result_def by (auto split: prod.splits sum.splits) blast

lemma collect_loop_values: "returns (\<lambda>ys. map ov_value ys = map ov_value xs @ ps) (collect_loop api xs ps)"
proof (induction ps arbitrary: xs)
  case Nil
  show ?case by (simp add: returns_give)
next
  case (Cons p ps)
  show ?case
  proof (simp, rule match_result_returns [OF from_introspect_value])
    fix x :: owned_value
    assume "ov_value x = p"
    then show "returns (\<lambda>ys. map ov_value ys = map ov_value xs @ p # ps) (collect_loop api (xs @ [x]) ps)"
      using Cons.IH [of "xs @ [x]"] by simp
  next
    show "returns (\<lambda>ys. map ov_value ys = map ov_value xs @ p # ps)
        (and_then (release_all api ps) (\<lambda>_. and_then (drop_values api xs) (\<lambda>_. raise e)))" for e
      by (intro returns_seq returns_raise)
  qed
qed

lemma collect_from_raw_values: "returns (\<lambda>xs. map ov_value xs = ps) (collect_from_raw api ps)"
  unfolding collect_from_raw_def using collect_loop_values [of "[]" ps api] by simp

lemma owns_create_value:
  assumes "null_on_error api" "set (handles_of as) \<subseteq> B"
  shows "accounts B {} (and_then (create_ptr api Value_handle f as) (from_introspect api)) (\<lambda>x. set_option (ov_value x))"
  by (rule owns_and_then [OF owns_create_ptr [OF assms] owns_from_introspect [OF assms(1)]])

lemma owns_get_value:
  assumes "null_on_error api" "set_option (ov_value x) \<subseteq> B"
  shows "accounts B {} (get_value api x i) (\<lambda>y. set_option (ov_value y))"
proof -
  have count: "accounts B {} (value_count api x) (\<lambda>_. {})"
    unfolding value_count_def by (rule owns_seq [OF owns_query_int owns_give]) (simp add: assms)
  show ?thesis unfolding get_value_def
    by (rule owns_seq [OF count], intro owns_if owns_raise owns_seq [OF owns_default_allocator] owns_create_value) (simp_all add: assms)
qed

lemma handles_of_ints [simp]: "handles_of (map A_int xs @ as) = handles_of as" "handles_of (map A_int xs) = []"
  by (induction xs) simp_all

lemma owns_new_composite:
  assumes "null_on_error api" "value_handles parts \<subseteq> B"
  shows "accounts B {} (new_composite api parts kind) (\<lambda>x. set_option (ov_value x))"
  unfolding new_composite_def
  by (rule owns_create_value [OF assms(1)], subst value_args_handles) (use assms(2) in \<open>simp add: value_handles_def\<close>)

lemma owns_opaque_value:
  assumes "null_on_error api"
  shows "accounts B {} (opaque_value api domain type_name data) (\<lambda>x. set_option (ov_value x))"
  unfolding opaque_value_def by (intro owns_if owns_raise owns_create_value [OF assms]) simp

lemma owns_hand_over_then:
  assumes "accounts B D m G" "h \<notin> D"
  shows "accounts B (insert h D) (and_then (hand_over h) (\<lambda>_. m)) G"
proof (rule ownsI)
  fix w r v
  assume w: "native_wf w" "B \<subseteq> live w" "insert h D \<subseteq> live w" "B \<inter> insert h D = {}"
    and run: "and_then (hand_over h) (\<lambda>_. m) w = (r, v)"
  let ?u = "snd (hand_over h w)"
  have run': "m ?u = (r, v)" using run by (simp add: and_then_def hand_over_def)
  have live: "live ?u = live w - {h}" "misuse ?u = misuse w" "native_wf ?u"
    using w by (auto simp: hand_over_def native_wf_def)
  have pre: "B \<subseteq> live ?u" "D \<subseteq> live ?u" "B \<inter> D = {}" using w assms(2) live(1) by auto
  note M = ownsD [OF assms(1) live(3) pre run']
  have "live ?u - D = live w - insert h D" using live(1) by auto
  then show "native_wf v \<and> misuse v = misuse w \<and> live v = (live w - insert h D) \<union> gained G r
      \<and> gained G r \<inter> (live w - insert h D) = {}"
    using M live(2) by simp
qed

lemma owns_from_allocated:
  assumes "null_on_error api"
  shows "accounts B {block} (from_allocated api block len shape ty) (\<lambda>x. set_option (ov_value x))"
proof -
  let ?create = "create_ptr api Value_handle ''create_tensor_with_data_and_deleter_as_ort_value''
             (A_handle block # A_int (int len) # map A_int shape @ [A_int (elem_code ty)])"
  have drop: "accounts B {block} (and_then (drop_handle api block) (\<lambda>_. raise e)) (\<lambda>x. set_option (ov_value x))" for e
    by (rule owns_drop_then [OF owns_raise]) simp
  have create: "accounts (B \<union> {block}) {} ?create set_option"
    by (rule owns_create_ptr [OF assms]) simp
  have "accounts B ({} \<union> {block}) (match_result ?create (\<lambda>e. and_then (drop_handle api block) (\<lambda>_. raise e))
        (\<lambda>p. and_then (hand_over block) (\<lambda>_. and_then (lift_result (non_null p ''deleter-backed tensor''))
           (\<lambda>h. from_introspect api (Some h))))) (\<lambda>x. set_option (ov_value x))"
  proof (rule owns_match [OF create returns_any _ _ drop])
    fix p :: "handle option"
    assume p: "set_option p \<inter> {block} = {}"
    have "accounts B (set_option p) (and_then (lift_result (non_null p ''deleter-backed tensor''))
           (\<lambda>h. from_introspect api (Some h))) (\<lambda>x. set_option (ov_value x))"
      using owns_from_introspect [OF assms, of B "Some h" for h]
      by (intro owns_and_then [OF owns_non_null]) simp
    from owns_hand_over_then [OF this, of block] show "accounts B (set_option p \<union> {block}) (and_then (hand_over block)
        (\<lambda>_. and_then (lift_result (non_null p ''deleter-backed tensor'')) (\<lambda>h. from_introspect api (Some h))))
        (\<lambda>x. set_option (ov_value x))"
      using p by (simp add: Un_commute)
  qed simp
  then show ?thesis unfolding from_allocated_def Let_def using drop by (intro owns_if) simp_all
qed

subsection \<open>String tensors\<close>

text \<open>The value is created first and not yet owned by anything when the strings are converted and filled in.\<close>

definition string_tensor_new :: "'n c_api \<Rightarrow> string list \<Rightarrow> int list \<Rightarrow> ('n, handle) native_op" where
  "string_tensor_new api strings shape =
     and_then (lift_shape (validate_shape_len shape (length strings))) (\<lambda>_.
     and_then (default_allocator api) (\<lambda>_.
     and_then (create_handle api Value_handle ''create_tensor_as_ort_value'' (map A_int shape @ [A_int (elem_code String_element)])
        ''string tensor value'') (\<lambda>h.
       if \<exists>s \<in> set strings. has_nul s then raise (local_error ''string tensor element contains a NUL'')
       else and_then (status api ''fill_string_tensor'' [A_handle h, A_texts strings, A_int (int (length strings))]) (\<lambda>_. give h))))"

definition set_element :: "'n c_api \<Rightarrow> handle \<Rightarrow> nat \<Rightarrow> string \<Rightarrow> ('n, unit) native_op" where
  "set_element api h i s = (if has_nul s then raise (local_error ''string tensor element contains a NUL'')
     else status api ''fill_string_tensor_element'' [A_handle h, A_text s, A_int (int i)])"

text \<open>The copy into the buffer of the engine is a call on its pointer.\<close>

definition set_element_utf8 :: "'n c_api \<Rightarrow> handle \<Rightarrow> nat \<Rightarrow> string \<Rightarrow> ('n, unit) native_op" where
  "set_element_utf8 api h i bytes =
     and_then (query_int api ''get_resized_string_tensor_element_buffer'' [A_handle h, A_int (int i), A_int (int (length bytes))]) (\<lambda>p.
       if p = 0 then give () else void_call api ''copy_nonoverlapping'' [A_ptr (nat p), A_text bytes])"

definition string_element :: "'n c_api \<Rightarrow> handle \<Rightarrow> nat \<Rightarrow> ('n, string) native_op" where
  "string_element api h i =
     and_then (query_int api ''get_string_tensor_element_length'' [A_handle h, A_int (int i)]) (\<lambda>len.
     and_then (fill_buffer api ''get_string_tensor_element'' [A_handle h, A_int len, A_int (int i)] (Some (nat len))) (\<lambda>(st, _, bytes).
     and_then (lift_result (check st)) (\<lambda>_.
       let s = overwrite (nat len) CHR 0x00 bytes
       in if valid_utf8 s then give s else raise (local_error ''string tensor element is not valid UTF-8''))))"

definition string_tensor_drop :: "'n c_api \<Rightarrow> handle \<Rightarrow> ('n, unit) native_op" where
  "string_tensor_drop api h = drop_handle api h"

text \<open>One call fills the bytes and the start offsets.\<close>

definition query_content :: "'n c_api \<Rightarrow> string \<Rightarrow> c_arg list \<Rightarrow> nat \<Rightarrow> nat \<Rightarrow> ('n, string \<times> nat list) native_op" where
  "query_content api f as len count w = (case c_buffer api (f, as) (Some len) (engine w) of ((st, _, bytes), n) \<Rightarrow>
     case c_ints api (f, as) n of ((_, offsets), n') \<Rightarrow>
     (case check st of Inl e \<Rightarrow> Inl e | Inr _ \<Rightarrow> Inr (overwrite len CHR 0x00 bytes, map nat (overwrite count 0 offsets)),
      (note_call (f, as) w)\<lparr>engine := n'\<rparr>))"

fun split_strings :: "string \<Rightarrow> nat \<Rightarrow> nat \<Rightarrow> nat list \<Rightarrow> zerror + string list" where
  "split_strings buf len i [] = Inr []"
| "split_strings buf len i (start # rest) =
     (let stop = (case rest of [] \<Rightarrow> len | next_start # _ \<Rightarrow> next_start); s = take (stop - start) (drop start buf) in
      if start > stop \<or> stop > len then Inl (local_error (''zrt: invalid string tensor offsets at index '' @ digits i))
      else if \<not> valid_utf8 s then Inl (local_error ''zrt: string tensor data is not valid UTF-8'')
      else case split_strings buf len (Suc i) rest of Inl e \<Rightarrow> Inl e | Inr ss \<Rightarrow> Inr (s # ss))"

definition read_string_tensor :: "'n c_api \<Rightarrow> handle option \<Rightarrow> nat \<Rightarrow> ('n, string list) native_op" where
  "read_string_tensor api p count =
     and_then (query_int api ''get_string_tensor_data_length'' [value_arg p]) (\<lambda>len.
     and_then (query_content api ''get_string_tensor_content'' [value_arg p, A_int len, A_int (int count)] (nat len) count)
       (\<lambda>(buf, offsets). lift_result (split_strings buf (nat len) 0 offsets)))"

definition as_strings :: "'n c_api \<Rightarrow> owned_value \<Rightarrow> ('n, string list) native_op" where
  "as_strings api x =
     (if ov_onnx_type x \<noteq> onnx_tensor
      then raise (local_error (''zrt: as_strings on a non-tensor ('' @ debug_name onnx_names (ov_onnx_type x) @ '') value''))
      else if ov_elem_type x \<noteq> elem_code String_element
      then raise (local_error (''zrt: as_strings on a '' @ debug_name elem_names (ov_elem_type x) @ '' tensor (expected String)''))
      else read_string_tensor api (ov_value x) (ov_count x))"

lemma owns_query_content [owns_intros]: "set (handles_of as) \<subseteq> B \<Longrightarrow> accounts B {} (query_content api f as len count) (\<lambda>_. {})"
  by (rule ownsI) (auto simp: query_content_def handles_noted native_wf_def gained_def split: prod.splits sum.splits)

text \<open>Where strings start that are laid out one after the other from a position on.\<close>

fun starts :: "nat \<Rightarrow> string list \<Rightarrow> nat list" where
  "starts p [] = []"
| "starts p (s # ss) = p # starts (p + length s) ss"

lemma starts_eq_Cons: "p # ps = starts q ss \<longleftrightarrow> (\<exists>s ss'. ss = s # ss' \<and> q = p \<and> ps = starts (p + length s) ss')"
  by (cases ss) auto

lemma starts_eq_Nil [simp]: "starts q ss = [] \<longleftrightarrow> ss = []" "[] = starts q ss \<longleftrightarrow> ss = []"
  by (cases ss; simp)+

lemma split_strings_Cons:
  "length buf = len \<Longrightarrow> split_strings buf len i (p # ps) = Inr ss \<longleftrightarrow>
     p \<le> len \<and> p # ps = starts p ss \<and> concat ss = drop p buf \<and> (\<forall>s \<in> set ss. valid_utf8 s)"
proof (induction ps arbitrary: i p ss)
  case Nil
  show ?case using Nil by (auto simp: Let_def starts_eq_Cons split: if_splits)
next
  case (Cons q qs)
  let ?s = "take (q - p) (drop p buf)"
  show ?case
  proof
    assume ok: "split_strings buf len i (p # q # qs) = Inr ss"
    then obtain ss' where le: "p \<le> q" "q \<le> len" and utf8: "valid_utf8 ?s" and ss: "ss = ?s # ss'"
      and rest: "split_strings buf len (Suc i) (q # qs) = Inr ss'"
      by (simp only: split_strings.simps(2) [of buf len i p "q # qs"] Let_def list.case) (auto split: if_splits sum.splits)
    have len: "length ?s = q - p" using le Cons.prems by simp
    note R = Cons.IH [OF Cons.prems, THEN iffD1, OF rest]
    have "?s @ drop q buf = drop p buf"
      using append_take_drop_id [of "q - p" "drop p buf"] le by simp
    then show "p \<le> len \<and> p # q # qs = starts p ss \<and> concat ss = drop p buf \<and> (\<forall>s \<in> set ss. valid_utf8 s)"
      using R le utf8 len by (simp add: ss)
  next
    assume laid: "p \<le> len \<and> p # q # qs = starts p ss \<and> concat ss = drop p buf \<and> (\<forall>s \<in> set ss. valid_utf8 s)"
    then obtain s ss' where ss: "ss = s # ss'" "q # qs = starts (p + length s) ss'" by (auto simp: starts_eq_Cons)
    then have q: "q = p + length s" by (auto simp: starts_eq_Cons)
    have whole: "s @ concat ss' = drop p buf" using laid ss by simp
    have "length s \<le> length (drop p buf)" using arg_cong [OF whole, of length] by simp
    then have le: "q \<le> len" using conjunct1 [OF laid] Cons.prems q by simp
    have s: "s = ?s" using arg_cong [OF whole, of "take (length s)"] q by simp
    have tail: "concat ss' = drop q buf" using arg_cong [OF whole, of "drop (length s)"] q by (simp add: add.commute)
    have rest: "split_strings buf len (Suc i) (q # qs) = Inr ss'"
      using Cons.IH [OF Cons.prems, THEN iffD2, of q ss' "Suc i"] laid ss le tail q by simp
    have "valid_utf8 ?s" unfolding s [symmetric] using laid ss(1) by simp
    then have "split_strings buf len i (p # q # qs) = Inr (?s # ss')"
      using q le rest by (simp add: Let_def del: split_strings.simps(2)) (simp add: Let_def rest)
    then show "split_strings buf len i (p # q # qs) = Inr ss" unfolding ss(1) s [symmetric] .
  qed
qed

subsection \<open>Theorems\<close>

lemma owns_settled_borrowing:
  assumes "accounts B {} m G" "native_wf w" "B \<subseteq> live w"
  shows "settled w G (m w)"
proof -
  obtain r v where m: "m w = (r, v)" by fastforce
  show ?thesis using ownsD [OF assms(1,2,3) _ _ m] by (cases r) (auto simp: settled_def m)
qed

text \<open>The result of an operation that takes the handles \<open>C\<close> over.\<close>

definition spent :: "'n native_world \<Rightarrow> handle set \<Rightarrow> ('a \<Rightarrow> handle set) \<Rightarrow> (zerror + 'a) \<times> 'n native_world \<Rightarrow> bool" where
  "spent w C G p = (case p of (r, v) \<Rightarrow> native_wf v \<and> misuse v = misuse w \<and>
     (case r of Inl e \<Rightarrow> live v = live w - C | Inr a \<Rightarrow> G a \<inter> (live w - C) = {} \<and> live v = (live w - C) \<union> G a))"

lemma owns_spent:
  assumes "accounts {} C m G" "native_wf w" "C \<subseteq> live w"
  shows "spent w C G (m w)"
proof -
  obtain r v where m: "m w = (r, v)" by fastforce
  show ?thesis using ownsD [OF assms(1,2) _ assms(3) _ m] by (cases r) (auto simp: spent_def m)
qed

text \<open>
  C16. Values that the engine hands out are owned exactly once: collecting the outputs of a run either
  wraps every pointer, in order, or releases every one of them, null pointers aside; an element of a
  sequence and a composite value are the only new handles of the calls that make them; and the block
  given to \<open>from_allocated\<close> is freed on every error and belongs to the value otherwise.
\<close>

theorem owned_values_balanced:
  assumes "null_on_error api" "native_wf w"
  shows "(apart ps \<and> pointees ps \<subseteq> live w \<longrightarrow> spent w (pointees ps) value_handles (collect_from_raw api ps w)
        \<and> (\<forall>xs v. collect_from_raw api ps w = (Inr xs, v) \<longrightarrow> map ov_value xs = ps))
    \<and> (set_option (ov_value x) \<subseteq> live w \<longrightarrow> settled w (\<lambda>y. set_option (ov_value y)) (get_value api x i w))
    \<and> (value_handles xs \<subseteq> live w \<longrightarrow> settled w (\<lambda>y. set_option (ov_value y)) (new_composite api xs kind w))
    \<and> (block \<in> live w \<longrightarrow> spent w {block} (\<lambda>y. set_option (ov_value y)) (from_allocated api block len shape ty w))"
proof (intro conjI impI)
  show "spent w (pointees ps) value_handles (collect_from_raw api ps w)" if "apart ps \<and> pointees ps \<subseteq> live w"
    using owns_spent [OF owns_collect_from_raw [OF assms(1)] assms(2)] that by blast
  show "\<forall>xs v. collect_from_raw api ps w = (Inr xs, v) \<longrightarrow> map ov_value xs = ps"
    using returnsD [OF collect_from_raw_values, of api ps w] by blast
  show "settled w (\<lambda>y. set_option (ov_value y)) (get_value api x i w)" if "set_option (ov_value x) \<subseteq> live w"
    by (rule owns_settled_borrowing [OF owns_get_value [OF assms(1) subset_refl] assms(2) that])
  show "settled w (\<lambda>y. set_option (ov_value y)) (new_composite api xs kind w)" if "value_handles xs \<subseteq> live w"
    by (rule owns_settled_borrowing [OF owns_new_composite [OF assms(1) subset_refl] assms(2) that])
  show "spent w {block} (\<lambda>y. set_option (ov_value y)) (from_allocated api block len shape ty w)" if "block \<in> live w"
    by (rule owns_spent [OF owns_from_allocated [OF assms(1)] assms(2)]) (simp add: that)
qed

text \<open>
  A NUL in one of the strings leaks the tensor: \<open>StringTensor::new\<close> creates the native value before it
  converts the strings and returns the error of the conversion without releasing it.
\<close>

theorem nul_string_leaks_tensor:
  assumes "null_on_error api" "native_wf w" "validate_shape_len shape (length strings) = Inr ()" "\<exists>s \<in> set strings. has_nul s"
    and "and_then (default_allocator api) (\<lambda>_. create_handle api Value_handle ''create_tensor_as_ort_value''
        (map A_int shape @ [A_int (elem_code String_element)]) ''string tensor value'') w = (Inr h, v)"
  shows "string_tensor_new api strings shape w = (Inl (local_error ''string tensor element contains a NUL''), v)
    \<and> h \<notin> live w \<and> live v = insert h (live w)"
proof -
  have "accounts {} {} (and_then (default_allocator api) (\<lambda>_. create_handle api Value_handle ''create_tensor_as_ort_value''
        (map A_int shape @ [A_int (elem_code String_element)]) ''string tensor value'')) (\<lambda>h. {h})"
    by (rule owns_seq [OF owns_default_allocator owns_create_handle [OF assms(1)]]) simp
  from owns_settled [OF this assms(2)] have "h \<notin> live w" "live v = insert h (live w)"
    unfolding assms(5) by (auto simp: settled_def)
  moreover have "string_tensor_new api strings shape w = (Inl (local_error ''string tensor element contains a NUL''), v)"
    using assms(3-5) by (auto simp: string_tensor_new_def lift_shape_def lift_result_def and_then_def raise_def
        split: prod.splits sum.splits)
  ultimately show ?thesis by blast
qed

text \<open>An engine that holds these strings for a value answers the two calls with their bytes, one after the other.\<close>

definition holds_strings :: "'n c_api \<Rightarrow> handle option \<Rightarrow> string list \<Rightarrow> 'n \<Rightarrow> bool" where
  "holds_strings api p ss n \<longleftrightarrow> (\<exists>n1 n2 n3 k.
     (let len = int (length (concat ss)); call = (''get_string_tensor_content'', [value_arg p, A_int len, A_int (int (length ss))]) in
      c_int api (''get_string_tensor_data_length'', [value_arg p]) n = ((None, len), n1)
      \<and> c_buffer api call (Some (length (concat ss))) n1 = ((None, k, concat ss), n2)
      \<and> c_ints api call n2 = ((None, map int (starts 0 ss)), n3)))"

lemma length_starts [simp]: "length (starts p ss) = length ss"
  by (induction p ss rule: starts.induct) auto

lemma overwrite_same [simp]: "length ys = n \<Longrightarrow> overwrite n d ys = ys"
  by (simp add: overwrite_def)

lemma split_strings_starts:
  "\<forall>s \<in> set ss. valid_utf8 s \<Longrightarrow> split_strings (concat ss) (length (concat ss)) 0 (starts 0 ss) = Inr ss"
  using split_strings_Cons [of "concat ss" "length (concat ss)" 0 0 _ ss] by (cases ss) auto

text \<open>What the engine reports about a string tensor: its bytes and the offsets, one per element.\<close>

definition reported_strings :: "'n c_api \<Rightarrow> owned_value \<Rightarrow> 'n \<Rightarrow> (string \<times> nat list) option" where
  "reported_strings api x n =
     (case c_int api (''get_string_tensor_data_length'', [value_arg (ov_value x)]) n of
        ((Some _, _), _) \<Rightarrow> None
      | ((None, len), n1) \<Rightarrow>
          let call = (''get_string_tensor_content'', [value_arg (ov_value x), A_int len, A_int (int (ov_count x))])
          in case c_buffer api call (Some (nat len)) n1 of
            ((Some _, _, _), _) \<Rightarrow> None
          | ((None, _, bytes), n2) \<Rightarrow>
              Some (overwrite (nat len) CHR 0x00 bytes, map nat (overwrite (ov_count x) 0 (snd (fst (c_ints api call n2))))))"

text \<open>The strings lie one after the other from the first offset to the end of the bytes.\<close>

definition cut_at :: "nat list \<Rightarrow> string \<Rightarrow> string list \<Rightarrow> bool" where
  "cut_at offsets buf ts \<longleftrightarrow> (case offsets of [] \<Rightarrow> ts = []
     | p # _ \<Rightarrow> p \<le> length buf \<and> offsets = starts p ts \<and> concat ts = drop p buf \<and> (\<forall>t \<in> set ts. valid_utf8 t))"

lemma split_strings_cut: "split_strings buf (length buf) i offsets = Inr ts \<longleftrightarrow> cut_at offsets buf ts"
proof (cases offsets)
  case Nil
  then show ?thesis by (auto simp: cut_at_def)
next
  case (Cons p ps)
  then show ?thesis using split_strings_Cons [OF refl, of buf i p ps ts] by (auto simp: cut_at_def)
qed

lemma read_string_tensor_result:
  "fst (read_string_tensor api (ov_value x) (ov_count x) w) = Inr ts \<longleftrightarrow>
     (\<exists>buf offsets. reported_strings api x (engine w) = Some (buf, offsets) \<and> cut_at offsets buf ts)"
proof -
  obtain st len n1 where a: "c_int api (''get_string_tensor_data_length'', [value_arg (ov_value x)]) (engine w) = ((st, len), n1)"
    by (metis prod.collapse)
  let ?call = "(''get_string_tensor_content'', [value_arg (ov_value x), A_int len, A_int (int (ov_count x))])"
  obtain st2 m bytes n2 where b: "c_buffer api ?call (Some (nat len)) n1 = ((st2, m, bytes), n2)" by (metis prod.collapse)
  obtain st3 offs n3 where c: "c_ints api ?call n2 = ((st3, offs), n3)" by (metis prod.collapse)
  have "nat len = length (overwrite (nat len) CHR 0x00 bytes)" by simp
  then have cut: "split_strings (overwrite (nat len) CHR 0x00 bytes) (nat len) 0 os = Inr ts \<longleftrightarrow> cut_at os (overwrite (nat len) CHR 0x00 bytes) ts" for os
    using split_strings_cut by metis
  show ?thesis
    by (cases st; cases st2)
      (simp_all add: read_string_tensor_def query_int_def query_content_def and_then_def check_def lift_result_def
        reported_strings_def Let_def a b c cut)
qed


subsection \<open>Instances\<close>

text \<open>An array with a value, a null pointer and another value; every value is a tensor of one element.\<close>

definition demo_values :: "(nat \<Rightarrow> string \<rightharpoonup> string) native_world" where
  "demo_values = demo_world\<lparr>live := {(Value_handle, 1), (Value_handle, 2), (Engine_block, 0)}\<rparr>"

lemma demo_values_wf: "native_wf demo_values"
  by (simp add: native_wf_def demo_values_def demo_world_def)

lemma owned_values_balanced_witness:
  "spent demo_values {(Value_handle, 1), (Value_handle, 2)} value_handles
     (collect_from_raw demo_api [Some (Value_handle, 1), None, Some (Value_handle, 2)] demo_values)
   \<and> spent demo_values {(Engine_block, 0)} (\<lambda>y. set_option (ov_value y)) (from_allocated demo_api (Engine_block, 0) 6 [3] Float demo_values)"
proof -
  let ?ps = "[Some (Value_handle, 1), None, Some (Value_handle, 2)]"
  have ps: "apart ?ps \<and> pointees ?ps \<subseteq> live demo_values" "(Engine_block, 0) \<in> live demo_values" "pointees ?ps = {(Value_handle, 1), (Value_handle, 2)}"
    by (auto simp: demo_values_def)
  show ?thesis
    using owned_values_balanced [OF demo_null demo_values_wf, of ?ps _ _ _ _ "(Engine_block, 0)" 6 "[3]" Float] ps by metis
qed

lemma nul_string_leaks_tensor_witness:
  "fst (string_tensor_new demo_api [''ok'', [CHR 0x00]] [2] demo_world) = Inl (local_error ''string tensor element contains a NUL'')
   \<and> live (snd (string_tensor_new demo_api [''ok'', [CHR 0x00]] [2] demo_world)) = {(Value_handle, 3), (Session_handle, 2)}"
proof -
  have shape: "validate_shape_len [2] (length [''ok'', [CHR 0x00]]) = Inr ()"
    by (simp add: validate_shape_len_def checked_element_count_def checked_mul_at_def)
  have nul: "\<exists>s \<in> set [''ok'', [CHR 0x00]]. has_nul s" by (simp add: has_nul_def)
  obtain v where made: "and_then (default_allocator demo_api) (\<lambda>_. create_handle demo_api Value_handle ''create_tensor_as_ort_value''
      (map A_int [2] @ [A_int (elem_code String_element)]) ''string tensor value'') demo_world = (Inr (Value_handle, 3), v)"
    by (simp add: default_allocator_def query_int_def create_handle_def create_ptr_def and_then_def give_def lift_result_def
        non_null_def check_def Let_def demo_api_def demo_world_def note_call_def)
  show ?thesis using nul_string_leaks_tensor [OF demo_null demo_wf shape nul made] by (simp add: demo_world_def)
qed

text \<open>An engine whose only value holds two strings.\<close>

definition two_strings :: "(nat \<Rightarrow> string \<rightharpoonup> string) c_api" where
  "two_strings = demo_api\<lparr>c_int := \<lambda>c n. ((None, 3), n), c_buffer := \<lambda>c cap n. ((None, 3, ''abc''), n),
     c_ints := \<lambda>c n. ((None, [0, 2]), n)\<rparr>"


end
