(* ===== verification/Native_Memory.thy ===== *)
theory Native_Memory
  imports Native_Values
begin

text \<open>
  Memory descriptors (st-zrt/src/memory.rs), allocators, their statistics and key/value containers
  (st-zrt/src/allocator.rs), arena configurations (st-zrt/src/arena.rs), the metadata of a model
  (st-zrt/src/metadata.rs), adapters, prepacked weights and external initializers
  (st-zrt/src/lora.rs, st-zrt/src/prepacked.rs, st-zrt/src/initializer.rs).
\<close>

subsection \<open>Memory descriptors\<close>

record memory_snapshot =
  ms_name :: string
  ms_device_id :: int
  ms_alloc_type :: int
  ms_mem_type :: int
  ms_device_type :: int
  ms_device_mem_type :: int
  ms_vendor_id :: int
  ms_class :: memory_class

record native_memory =
  nm_handle :: handle
  nm_class :: memory_class

text \<open>A descriptor is a handle of ours or a pointer into the engine, which may be null.\<close>

definition native_class :: "'n c_api \<Rightarrow> c_arg \<Rightarrow> ('n, memory_class) native_op" where
  "native_class api p =
     (if p = A_null then raise (local_error ''memory info pointer is null'')
      else and_then (query_plain api ''memory_info_get_device_type'' [p]) (\<lambda>device_type.
           and_then (query_plain api ''memory_info_get_device_mem_type'' [p]) (\<lambda>device_mem_type.
           and_then (query_text api ''memory_info_get_name'' [p]) (\<lambda>raw.
             give (classify_memory (case raw of None \<Rightarrow> [] | Some s \<Rightarrow> until_nul s) device_type device_mem_type)))))"

definition memory_from_raw :: "'n c_api \<Rightarrow> handle option \<Rightarrow> string \<Rightarrow> ('n, native_memory) native_op" where
  "memory_from_raw api p what = and_then (lift_result (non_null p what)) (\<lambda>h.
     or_release api h (and_then (native_class api (A_handle h)) (\<lambda>c. give \<lparr>nm_handle = h, nm_class = c\<rparr>)))"

definition memory_cpu :: "'n c_api \<Rightarrow> ('n, native_memory) native_op" where
  "memory_cpu api = and_then (create_ptr api Memory_info_handle ''create_cpu_memory_info'' [A_int 0, A_int 0]) (\<lambda>p.
     memory_from_raw api p ''memory info'')"

definition memory_new_named :: "'n c_api \<Rightarrow> string \<Rightarrow> int \<Rightarrow> int \<Rightarrow> int \<Rightarrow> ('n, native_memory) native_op" where
  "memory_new_named api name alloc_type device_id mem_type =
     (if has_nul name then raise (local_error ''memory name contains a NUL'')
      else and_then (create_ptr api Memory_info_handle ''create_memory_info''
             [A_text name, A_int alloc_type, A_int device_id, A_int mem_type]) (\<lambda>p. memory_from_raw api p ''memory info''))"

definition memory_cuda :: "'n c_api \<Rightarrow> int \<Rightarrow> ('n, native_memory) native_op" where
  "memory_cuda api device_id = memory_new_named api ''Cuda'' 0 device_id 0"

definition memory_cuda_pinned :: "'n c_api \<Rightarrow> int \<Rightarrow> ('n, native_memory) native_op" where
  "memory_cuda_pinned api device_id = memory_new_named api ''CudaPinned'' 0 device_id 0"

definition memory_new_v2 :: "'n c_api \<Rightarrow> string \<Rightarrow> int \<Rightarrow> int \<Rightarrow> int \<Rightarrow> int \<Rightarrow> nat \<Rightarrow> int \<Rightarrow> ('n, native_memory) native_op" where
  "memory_new_v2 api name device_type vendor_id device_id mem_type align allocator_type =
     (if has_nul name then raise (local_error ''memory name contains a NUL'')
      else and_then (create_ptr api Memory_info_handle ''create_memory_info_v2''
             [A_text name, A_int device_type, A_int vendor_id, A_int device_id, A_int mem_type, A_int (int align), A_int allocator_type])
             (\<lambda>p. memory_from_raw api p ''memory info v2''))"

definition memory_equals :: "'n c_api \<Rightarrow> native_memory \<Rightarrow> native_memory \<Rightarrow> ('n, bool) native_op" where
  "memory_equals api a b = and_then (query_int api ''compare_memory_info'' [A_handle (nm_handle a), A_handle (nm_handle b)])
     (\<lambda>v. give (v = 0))"

definition memory_name :: "'n c_api \<Rightarrow> native_memory \<Rightarrow> ('n, string) native_op" where
  "memory_name api m = and_then (query_text api ''memory_info_get_name'' [A_handle (nm_handle m)]) (\<lambda>raw.
     case raw of None \<Rightarrow> give [] | Some s \<Rightarrow> lift_result (cstr_to_string s ''memory info name''))"

definition memory_device_id :: "'n c_api \<Rightarrow> native_memory \<Rightarrow> ('n, int) native_op" where
  "memory_device_id api m = query_int api ''memory_info_get_id'' [A_handle (nm_handle m)]"

definition memory_mem_type :: "'n c_api \<Rightarrow> native_memory \<Rightarrow> ('n, int) native_op" where
  "memory_mem_type api m = query_int api ''memory_info_get_mem_type'' [A_handle (nm_handle m)]"

definition memory_alloc_type :: "'n c_api \<Rightarrow> native_memory \<Rightarrow> ('n, int) native_op" where
  "memory_alloc_type api m = query_int api ''memory_info_get_type'' [A_handle (nm_handle m)]"

definition snapshot_name :: "string option \<Rightarrow> ('n, string) native_op" where
  "snapshot_name raw = (case raw of None \<Rightarrow> give [] | Some s \<Rightarrow> lift_result (cstr_to_string s ''memory info name''))"

definition snapshot_from_ptr :: "'n c_api \<Rightarrow> c_arg \<Rightarrow> ('n, memory_snapshot) native_op" where
  "snapshot_from_ptr api p =
     (if p = A_null then raise (local_error ''memory info pointer is null'')
      else and_then (query_text api ''memory_info_get_name'' [p]) (\<lambda>raw.
           and_then (snapshot_name raw) (\<lambda>name.
           and_then (query_int api ''memory_info_get_id'' [p]) (\<lambda>device_id.
           and_then (query_int api ''memory_info_get_mem_type'' [p]) (\<lambda>mem_type.
           and_then (query_int api ''memory_info_get_type'' [p]) (\<lambda>alloc_type.
           and_then (query_plain api ''memory_info_get_device_type'' [p]) (\<lambda>device_type.
           and_then (query_plain api ''memory_info_get_device_mem_type'' [p]) (\<lambda>device_mem_type.
           and_then (query_plain api ''memory_info_get_vendor_id'' [p]) (\<lambda>vendor_id.
             give \<lparr>ms_name = name, ms_device_id = device_id, ms_alloc_type = alloc_type, ms_mem_type = mem_type,
               ms_device_type = device_type, ms_device_mem_type = device_mem_type, ms_vendor_id = vendor_id,
               ms_class = classify_memory name device_type device_mem_type\<rparr>)))))))))"

definition memory_snapshot_of :: "'n c_api \<Rightarrow> native_memory \<Rightarrow> ('n, memory_snapshot) native_op" where
  "memory_snapshot_of api m = snapshot_from_ptr api (A_handle (nm_handle m))"

definition try_clone_descriptor :: "'n c_api \<Rightarrow> native_memory \<Rightarrow> ('n, native_memory) native_op" where
  "try_clone_descriptor api m = and_then (memory_snapshot_of api m) (\<lambda>s.
     if ms_name s = ''Cpu'' then memory_cpu api
     else memory_new_named api (ms_name s) (ms_alloc_type s) (ms_device_id s) (ms_mem_type s))"

definition memory_drop :: "'n c_api \<Rightarrow> native_memory \<Rightarrow> ('n, unit) native_op" where
  "memory_drop api m = drop_handle api (nm_handle m)"

text \<open>The descriptor of a tensor's memory is the engine's.\<close>

definition engine_ptr :: "int \<Rightarrow> c_arg" where
  "engine_ptr p = (if p = 0 then A_null else A_ptr (nat p))"

definition tensor_memory_info :: "'n c_api \<Rightarrow> handle option \<Rightarrow> ('n, memory_snapshot) native_op" where
  "tensor_memory_info api p = and_then (query_int api ''get_tensor_memory_info'' [value_arg p]) (\<lambda>info. snapshot_from_ptr api (engine_ptr info))"

definition tensor_value_memory_class :: "'n c_api \<Rightarrow> handle option \<Rightarrow> ('n, memory_class) native_op" where
  "tensor_value_memory_class api p = and_then (query_int api ''get_tensor_memory_info'' [value_arg p]) (\<lambda>info. native_class api (engine_ptr info))"

lemma owns_native_class:
  assumes "set (handles_of [p]) \<subseteq> B"
  shows "accounts B {} (native_class api p) (\<lambda>_. {})"
  unfolding native_class_def by (intro owns_if owns_raise owns_seq owns_query_plain owns_query_text owns_give assms)

lemma owns_memory_from_raw: "accounts B (set_option p) (memory_from_raw api p what) (\<lambda>m. {nm_handle m})"
  unfolding memory_from_raw_def
proof (rule owns_and_then [OF owns_non_null])
  fix h
  let ?body = "and_then (native_class api (A_handle h)) (\<lambda>c. give \<lparr>nm_handle = h, nm_class = c\<rparr>)"
  have body: "accounts (insert h B) {} ?body (\<lambda>_. {})" by (rule owns_seq [OF owns_native_class owns_give]) simp
  show "accounts B {h} (or_release api h ?body) (\<lambda>m. {nm_handle m})"
  proof (rule owns_result [OF owns_or_release [OF body]])
    fix w m v
    assume "or_release api h ?body w = (Inr m, v)"
    then show "insert h {} = {nm_handle m}"
      by (auto simp: or_release_def and_then_def give_def split: prod.splits sum.splits)
  qed
qed

lemma owns_memory_constructors:
  assumes "null_on_error api"
  shows "accounts B {} (memory_cpu api) (\<lambda>m. {nm_handle m})"
    "accounts B {} (memory_new_named api name alloc_type device_id mem_type) (\<lambda>m. {nm_handle m})"
    "accounts B {} (memory_new_v2 api name device_type vendor_id device_id mem_type align allocator_type) (\<lambda>m. {nm_handle m})"
  unfolding memory_cpu_def memory_new_named_def memory_new_v2_def
  by (intro owns_if owns_raise owns_and_then [OF owns_create_ptr [OF assms] owns_memory_from_raw]; simp)+

lemma owns_snapshot_from_ptr:
  assumes "set (handles_of [p]) \<subseteq> B"
  shows "accounts B {} (snapshot_from_ptr api p) (\<lambda>_. {})"
proof -
  have name: "accounts B {} (snapshot_name raw) (\<lambda>_. {})" for raw
    unfolding snapshot_name_def by (cases raw) (simp_all add: owns_give owns_lift)
  show ?thesis unfolding snapshot_from_ptr_def
    by (intro owns_if owns_raise owns_seq owns_query_plain owns_query_text owns_query_int name owns_give assms)
qed

lemma engine_ptr_handles [simp]: "handles_of [engine_ptr p] = []" "handles_of (engine_ptr p # as) = handles_of as"
  by (simp_all add: engine_ptr_def)

lemma owns_tensor_memory:
  assumes "set_option p \<subseteq> B"
  shows "accounts B {} (tensor_memory_info api p) (\<lambda>_. {})" "accounts B {} (tensor_value_memory_class api p) (\<lambda>_. {})"
  unfolding tensor_memory_info_def tensor_value_memory_class_def
  by (rule owns_seq [OF owns_query_int], simp add: assms, rule owns_snapshot_from_ptr, simp)
    (rule owns_seq [OF owns_query_int], simp add: assms, rule owns_native_class, simp)

lemma owns_try_clone_descriptor:
  assumes "null_on_error api"
  shows "accounts {nm_handle m} {} (try_clone_descriptor api m) (\<lambda>m'. {nm_handle m'})"
  unfolding try_clone_descriptor_def memory_snapshot_of_def
  by (intro owns_seq [OF owns_snapshot_from_ptr] owns_if owns_memory_constructors [OF assms]) simp

subsection \<open>Allocators\<close>

text \<open>
  The default allocator is the engine's own; other allocators are handles, released on drop, which
  keep their session or environment alive.
\<close>

record allocator =
  al_handle :: "handle option"
  al_session :: "nat option"
  al_env :: "nat option"

record allocation =
  an_ptr :: "handle option"
  an_len :: nat
  an_alloc :: allocator

definition al_owned :: "allocator \<Rightarrow> bool" where
  "al_owned a \<longleftrightarrow> al_handle a \<noteq> None"

definition al_get_default :: "'n c_api \<Rightarrow> ('n, allocator) native_op" where
  "al_get_default api = and_then (default_allocator api) (\<lambda>_. give \<lparr>al_handle = None, al_session = None, al_env = None\<rparr>)"

definition al_create :: "'n c_api \<Rightarrow> native_session \<Rightarrow> native_memory \<Rightarrow> ('n, allocator) native_op" where
  "al_create api s mem = and_then (create_handle api Allocator_handle ''create_allocator''
       [A_handle (ns_handle s), A_handle (nm_handle mem)] ''session allocator'') (\<lambda>h.
     give \<lparr>al_handle = Some h, al_session = Some (snd (ns_handle s)), al_env = None\<rparr>)"

definition al_from_handle_owned :: "handle \<Rightarrow> nat \<Rightarrow> allocator" where
  "al_from_handle_owned h env = \<lparr>al_handle = Some h, al_session = None, al_env = Some env\<rparr>"

definition take_session_guard :: "allocator \<Rightarrow> nat option \<times> allocator" where
  "take_session_guard a = (al_session a, a\<lparr>al_session := None\<rparr>)"

definition allocator_arg :: "allocator \<Rightarrow> c_arg" where
  "allocator_arg a = (case al_handle a of None \<Rightarrow> A_ptr 0 | Some h \<Rightarrow> A_handle h)"

definition allocate :: "'n c_api \<Rightarrow> allocator \<Rightarrow> nat \<Rightarrow> ('n, allocation) native_op" where
  "allocate api a n = and_then (create_ptr api Engine_block ''allocator_alloc'' [allocator_arg a, A_int (int n)]) (\<lambda>p.
     give \<lparr>an_ptr = p, an_len = n, an_alloc = a\<rparr>)"

text \<open>The result of the free is ignored.\<close>

definition allocation_drop :: "'n c_api \<Rightarrow> allocation \<Rightarrow> ('n, unit) native_op" where
  "allocation_drop api x = if_some (an_ptr x) (\<lambda>b. match_result (free_text api b) (\<lambda>_. give ()) give)"

definition into_raw_parts :: "allocation \<Rightarrow> handle option \<times> nat" where
  "into_raw_parts x = (an_ptr x, an_len x)"

definition al_memory_info :: "'n c_api \<Rightarrow> allocator \<Rightarrow> ('n, memory_snapshot) native_op" where
  "al_memory_info api a = and_then (query_int api ''allocator_get_info'' [allocator_arg a]) (\<lambda>p.
     if p = 0 then raise (local_error ''zrt: allocator returned null memory info'') else snapshot_from_ptr api (engine_ptr p))"

definition al_drop :: "'n c_api \<Rightarrow> allocator \<Rightarrow> ('n, unit) native_op" where
  "al_drop api a = (if al_owned a then if_some (al_handle a) (drop_handle api) else give ())"

subsection \<open>Statistics\<close>

type_synonym stats = "entries"

definition stats_get :: "stats \<Rightarrow> string \<Rightarrow> string option" where
  "stats_get es key = map_of es key"

text \<open>A difference that does not fit \<open>i128\<close> panics, as checked arithmetic does.\<close>

definition stats_delta :: "stats \<Rightarrow> string \<times> string \<Rightarrow> (string \<times> int) option run" where
  "stats_delta after e = (case e of (key, b) \<Rightarrow>
     case parse_i128 b of None \<Rightarrow> Ret None
     | Some before \<Rightarrow> (case Option.bind (stats_get after key) parse_i128 of None \<Rightarrow> Ret None
        | Some aft \<Rightarrow> (case signed_checked (2 ^ 127) (aft - before) of None \<Rightarrow> Panic
            | Some delta \<Rightarrow> Ret (if delta \<noteq> 0 then Some (key, delta) else None))))"

fun stats_diff :: "stats \<Rightarrow> stats \<Rightarrow> (string \<times> int) list run" where
  "stats_diff [] after = Ret []"
| "stats_diff (e # es) after = bind_run (stats_delta after e) (\<lambda>d.
     bind_run (stats_diff es after) (\<lambda>ds. Ret (case d of None \<Rightarrow> ds | Some x \<Rightarrow> x # ds)))"

definition delta_get :: "(string \<times> int) list \<Rightarrow> string \<Rightarrow> int option" where
  "delta_get ds key = map_of ds key"

definition stats_text :: "string \<Rightarrow> string option \<Rightarrow> ('n, string) native_op" where
  "stats_text what p = (case p of None \<Rightarrow> give [] | Some raw \<Rightarrow> lift_result (cstr_to_string raw what))"

text \<open>\<open>GetKeyValuePairs\<close> lends the keys and then the values; it returns no status.\<close>

definition key_value_texts :: "'n c_api \<Rightarrow> handle \<Rightarrow> ('n, (string option \<times> string option) list) native_op" where
  "key_value_texts api h w = (case c_texts api (''get_key_value_pairs'', [A_handle h]) (engine w) of ((_, ts), n) \<Rightarrow>
     (Inr (zip (take (length ts div 2) ts) (drop (length ts div 2) ts)), (note_call (''get_key_value_pairs'', [A_handle h]) w)\<lparr>engine := n\<rparr>))"

text \<open>The container is released after the texts were copied, and only if all of them could be.\<close>

definition allocator_stats :: "'n c_api \<Rightarrow> allocator \<Rightarrow> ('n, stats) native_op" where
  "allocator_stats api a = and_then (create_ptr api Kv_pairs_handle ''allocator_get_stats'' [allocator_arg a]) (\<lambda>p.
     case p of None \<Rightarrow> give []
     | Some kv \<Rightarrow> and_then (key_value_texts api kv) (\<lambda>pairs.
         and_then (collect_results (\<lambda>(k, x). and_then (stats_text ''allocator stats key'' k) (\<lambda>key.
             and_then (stats_text ''allocator stats value'' x) (\<lambda>val. give (key, val)))) pairs) (\<lambda>es.
         and_then (drop_handle api kv) (\<lambda>_. give es))))"

subsection \<open>Key/value containers\<close>

definition kv_add :: "'n c_api \<Rightarrow> handle \<Rightarrow> string \<Rightarrow> string \<Rightarrow> ('n, unit) native_op" where
  "kv_add api h k x = (if has_nul k then raise (local_error ''key/value key contains a NUL'')
     else if has_nul x then raise (local_error ''key/value value contains a NUL'')
     else void_call api ''add_key_value_pair'' [A_handle h, A_text k, A_text x])"

definition kv_get :: "'n c_api \<Rightarrow> handle \<Rightarrow> string \<Rightarrow> ('n, string option) native_op" where
  "kv_get api h k = (if has_nul k then raise (local_error ''key/value key contains a NUL'')
     else and_then (borrow_text api ''get_key_value'' [A_handle h, A_text k]) (\<lambda>p.
       case p of None \<Rightarrow> give None
       | Some raw \<Rightarrow> and_then (lift_result (cstr_to_string raw ''key/value pair value'')) (\<lambda>s. give (Some s))))"

definition kv_remove :: "'n c_api \<Rightarrow> handle \<Rightarrow> string \<Rightarrow> ('n, unit) native_op" where
  "kv_remove api h k = (if has_nul k then raise (local_error ''key/value key contains a NUL'')
     else void_call api ''remove_key_value_pair'' [A_handle h, A_text k])"

definition kv_drop :: "'n c_api \<Rightarrow> handle \<Rightarrow> ('n, unit) native_op" where
  "kv_drop api h = drop_handle api h"

text \<open>A view borrows a container that may be null.\<close>

definition kv_view_get :: "'n c_api \<Rightarrow> handle option \<Rightarrow> string \<Rightarrow> ('n, string option) native_op" where
  "kv_view_get api p k = (case p of None \<Rightarrow> give None | Some h \<Rightarrow> kv_get api h k)"

subsection \<open>Other owned objects\<close>

definition arena_cfg_new :: "'n c_api \<Rightarrow> nat \<Rightarrow> int \<Rightarrow> int \<Rightarrow> int \<Rightarrow> ('n, handle) native_op" where
  "arena_cfg_new api max_mem strategy initial_chunk max_dead = create_handle api Arena_cfg_handle ''create_arena_cfg''
     [A_int (int max_mem), A_int strategy, A_int initial_chunk, A_int max_dead] ''arena config''"

definition arena_with_entries :: "'n c_api \<Rightarrow> (string \<times> nat) list \<Rightarrow> ('n, handle) native_op" where
  "arena_with_entries api es = (if \<exists>(k, _) \<in> set es. has_nul k then raise (local_error ''arena key contains a NUL'')
     else create_handle api Arena_cfg_handle ''create_arena_cfg_v2''
       [A_texts (map fst es), A_ptrs (map snd es), A_int (int (length es))] ''arena config'')"

definition prepacked_new :: "'n c_api \<Rightarrow> ('n, handle) native_op" where
  "prepacked_new api = create_handle api Prepacked_handle ''create_prepacked_weights_container'' [] ''prepacked weights container''"

definition lora_create :: "'n c_api \<Rightarrow> string \<Rightarrow> c_arg list \<Rightarrow> ('n, handle) native_op" where
  "lora_create api f as = and_then (default_allocator api) (\<lambda>_. create_handle api Lora_handle f (as @ [A_ptr 0]) ''lora adapter'')"

definition lora_from_path :: "'n c_api \<Rightarrow> string \<Rightarrow> ('n, handle) native_op" where
  "lora_from_path api path = (if has_nul path then raise (local_error ''lora adapter path contains a NUL byte'')
     else lora_create api ''create_lora_adapter'' [A_text path])"

definition lora_from_array :: "'n c_api \<Rightarrow> string \<Rightarrow> ('n, handle) native_op" where
  "lora_from_array api bytes = lora_create api ''create_lora_adapter_from_array'' [A_text bytes, A_int (int (length bytes))]"

definition lora_from_path_with_allocator :: "'n c_api \<Rightarrow> string \<Rightarrow> allocator \<Rightarrow> ('n, handle) native_op" where
  "lora_from_path_with_allocator api path a = (if has_nul path then raise (local_error ''lora adapter path contains a NUL byte'')
     else create_handle api Lora_handle ''create_lora_adapter'' [A_text path, allocator_arg a] ''lora adapter'')"

definition lora_from_array_with_allocator :: "'n c_api \<Rightarrow> string \<Rightarrow> allocator \<Rightarrow> ('n, handle) native_op" where
  "lora_from_array_with_allocator api bytes a = create_handle api Lora_handle ''create_lora_adapter_from_array''
     [A_text bytes, A_int (int (length bytes)), allocator_arg a] ''lora adapter''"

definition external_initializer_new :: "'n c_api \<Rightarrow> string \<Rightarrow> int \<Rightarrow> nat \<Rightarrow> ('n, handle) native_op" where
  "external_initializer_new api path offset bytes =
     (if has_nul path then raise (local_error ''external initializer file path contains a NUL byte'')
      else create_handle api External_initializer_handle ''create_external_initializer_info''
        [A_text path, A_int offset, A_int (int bytes)] ''external initializer info'')"

definition external_file_path :: "'n c_api \<Rightarrow> handle \<Rightarrow> ('n, string) native_op" where
  "external_file_path api h = and_then (borrow_text api ''external_initializer_info__get_file_path'' [A_handle h]) (\<lambda>p.
     case p of None \<Rightarrow> give [] | Some raw \<Rightarrow> lift_result (cstr_to_string raw ''external initializer file path''))"

definition external_file_offset :: "'n c_api \<Rightarrow> handle \<Rightarrow> ('n, int) native_op" where
  "external_file_offset api h = query_plain api ''external_initializer_info__get_file_offset'' [A_handle h]"

definition external_byte_size :: "'n c_api \<Rightarrow> handle \<Rightarrow> ('n, nat) native_op" where
  "external_byte_size api h = and_then (query_plain api ''external_initializer_info__get_byte_size'' [A_handle h]) (\<lambda>n. give (nat n))"

subsection \<open>Texts that the engine allocates\<close>

definition fetch_string :: "'n c_api \<Rightarrow> string \<Rightarrow> c_arg list \<Rightarrow> string \<Rightarrow> ('n, string option) native_op" where
  "fetch_string api f as what = and_then (default_allocator api) (\<lambda>_.
     and_then (create_ptr api Engine_text f as) (\<lambda>raw. case raw of None \<Rightarrow> give None
       | Some t \<Rightarrow> (\<lambda>w. let s = cstr_to_string (c_chars api t (engine w)) what
           in and_then (free_text api t) (\<lambda>_. and_then (lift_result s) (\<lambda>s. give (Some s))) w)))"

definition metadata_text :: "'n c_api \<Rightarrow> handle \<Rightarrow> string \<Rightarrow> ('n, string option) native_op" where
  "metadata_text api m f = fetch_string api f [A_handle m] ''model metadata string''"

definition producer_name :: "'n c_api \<Rightarrow> handle \<Rightarrow> ('n, string option) native_op" where
  "producer_name api m = metadata_text api m ''model_metadata_get_producer_name''"

definition graph_name :: "'n c_api \<Rightarrow> handle \<Rightarrow> ('n, string option) native_op" where
  "graph_name api m = metadata_text api m ''model_metadata_get_graph_name''"

definition metadata_domain :: "'n c_api \<Rightarrow> handle \<Rightarrow> ('n, string option) native_op" where
  "metadata_domain api m = metadata_text api m ''model_metadata_get_domain''"

definition metadata_description :: "'n c_api \<Rightarrow> handle \<Rightarrow> ('n, string option) native_op" where
  "metadata_description api m = metadata_text api m ''model_metadata_get_description''"

definition graph_description :: "'n c_api \<Rightarrow> handle \<Rightarrow> ('n, string option) native_op" where
  "graph_description api m = metadata_text api m ''model_metadata_get_graph_description''"

definition metadata_version :: "'n c_api \<Rightarrow> handle \<Rightarrow> ('n, int) native_op" where
  "metadata_version api m = query_int api ''model_metadata_get_version'' [A_handle m]"

definition metadata_lookup :: "'n c_api \<Rightarrow> handle \<Rightarrow> string \<Rightarrow> ('n, string option) native_op" where
  "metadata_lookup api m key = (if has_nul key then raise (local_error ''metadata key contains a NUL'')
     else fetch_string api ''model_metadata_lookup_custom_metadata_map'' [A_handle m, A_text key] ''custom metadata value'')"

text \<open>Every string is freed; the first error is kept, and reported once the array is freed too.\<close>

fun read_keys :: "'n c_api \<Rightarrow> string list \<Rightarrow> zerror option \<Rightarrow> handle option list \<Rightarrow> ('n, string list \<times> zerror option) native_op" where
  "read_keys api out err [] = give (out, err)"
| "read_keys api out err (None # ks) = read_keys api out err ks"
| "read_keys api out err (Some k # ks) = (\<lambda>w. let key = cstr_to_string (c_chars api k (engine w)) ''custom metadata key''
     in match_result (free_text api k)
       (\<lambda>e. read_keys api out (if err = None then Some (case key of Inl e' \<Rightarrow> e' | Inr _ \<Rightarrow> e) else err) ks)
       (\<lambda>_. case (err, key) of (None, Inr s) \<Rightarrow> read_keys api (out @ [s]) None ks
          | (None, Inl e') \<Rightarrow> read_keys api out (Some e') ks
          | (Some e', _) \<Rightarrow> read_keys api out (Some e') ks) w)"

definition custom_metadata_keys :: "'n c_api \<Rightarrow> handle \<Rightarrow> ('n, string list) native_op" where
  "custom_metadata_keys api m = and_then (default_allocator api) (\<lambda>_.
     and_then (engine_array api Engine_text ''model_metadata_get_custom_metadata_map_keys'' [A_handle m]) (\<lambda>(arr, ks).
       case arr of None \<Rightarrow> give []
       | Some a \<Rightarrow> if ks = [] then give []
           else and_then (read_keys api [] None ks) (\<lambda>(out, err).
             and_then (free_text api a) (\<lambda>_. case err of Some e \<Rightarrow> raise e | None \<Rightarrow> give out))))"

definition metadata_drop :: "'n c_api \<Rightarrow> handle \<Rightarrow> ('n, unit) native_op" where
  "metadata_drop api m = drop_handle api m"

subsection \<open>Ownership\<close>

lemma returns_engine_array:
  "returns (\<lambda>(arr, ps). apart ps \<and> set_option arr \<inter> pointees ps = {} \<and> (arr = None \<longrightarrow> ps = [])) (engine_array api k f as)"
proof -
  have "(Engine_array, s) \<notin> pointees (numbered k (Suc s) bs)" for s bs using numbered_bounds by fastforce
  then show ?thesis by (auto simp: returns_def engine_array_def Let_def apart_numbered check_def split: prod.splits option.splits)
qed

text \<open>An engine that has nothing to return allocates no array for it.\<close>

definition no_empty_arrays :: "'n c_api \<Rightarrow> bool" where
  "no_empty_arrays api \<longleftrightarrow> (\<forall>c s n st n'. c_many api c s n \<noteq> ((st, True, []), n'))"

lemma returns_filled_array:
  "no_empty_arrays api \<Longrightarrow> returns (\<lambda>(arr, ps). apart ps \<and> set_option arr \<inter> pointees ps = {} \<and> (arr = None \<longleftrightarrow> ps = [])) (engine_array api k f as)"
  using returns_engine_array [of api k f as]
  by (auto simp: returns_def engine_array_def no_empty_arrays_def Let_def check_def split: prod.splits option.splits if_splits)
    (metis length_numbered length_0_conv)+

text \<open>An operation without an error exit.\<close>

definition succeeds :: "('n, 'a) native_op \<Rightarrow> bool" where
  "succeeds m \<longleftrightarrow> (\<forall>w e v. m w \<noteq> (Inl e, v))"

lemma owns_succeeds:
  assumes m: "accounts (B \<union> D) C m G" and P: "returns P m" and ok: "succeeds m" and CD: "C \<inter> D = {}"
    and f: "\<And>a. P a \<Longrightarrow> G a \<inter> D = {} \<Longrightarrow> accounts B (G a \<union> D) (f a) G'"
  shows "accounts B (C \<union> D) (and_then m f) G'"
proof (rule ownsI)
  fix w r v
  assume w: "native_wf w" "B \<subseteq> live w" "C \<union> D \<subseteq> live w" "B \<inter> (C \<union> D) = {}" and run: "and_then m f w = (r, v)"
  obtain a u where mw: "m w = (Inr a, u)" using ok unfolding succeeds_def by (metis old.sum.exhaust surj_pair)
  have pre: "B \<union> D \<subseteq> live w" "C \<subseteq> live w" "(B \<union> D) \<inter> C = {}" using w CD by auto
  note M = ownsD [OF m w(1) pre mw, simplified]
  have GD: "G a \<inter> D = {}" and pre': "B \<subseteq> live u" "G a \<union> D \<subseteq> live u" "B \<inter> (G a \<union> D) = {}" using M(3,4) w CD by auto
  have "P a" using returnsD [OF P mw] .
  moreover have run': "f a u = (r, v)" using run mw by (simp add: and_then_def)
  ultimately have F: "native_wf v" "misuse v = misuse u" "live v = (live u - (G a \<union> D)) \<union> gained G' r"
      "gained G' r \<inter> (live u - (G a \<union> D)) = {}"
    using ownsD [OF f [OF _ GD] M(1) pre' run'] by blast+
  have "live u - (G a \<union> D) = live w - (C \<union> D)" using M(3,4) CD by auto
  then show "native_wf v \<and> misuse v = misuse w \<and> live v = (live w - (C \<union> D)) \<union> gained G' r
      \<and> gained G' r \<inter> (live w - (C \<union> D)) = {}"
    using F M(2) by simp
qed

lemma succeeds_match: "(\<And>e. succeeds (err e)) \<Longrightarrow> (\<And>a. succeeds (ok a)) \<Longrightarrow> succeeds (match_result m err ok)"
  unfolding succeeds_def match_result_def by (auto split: prod.splits sum.splits)

lemma succeeds_reading: "(\<And>x. succeeds (f x)) \<Longrightarrow> succeeds (\<lambda>w. f (g w) w)"
  unfolding succeeds_def by blast

lemma succeeds_give: "succeeds (give a)"
  by (simp add: succeeds_def give_def)

text \<open>One string of the array, with what is known of it.\<close>

definition read_key :: "'n c_api \<Rightarrow> string list \<Rightarrow> zerror option \<Rightarrow> handle \<Rightarrow> handle option list \<Rightarrow> zerror + string
    \<Rightarrow> ('n, string list \<times> zerror option) native_op" where
  "read_key api out err k ks key = match_result (free_text api k)
       (\<lambda>e. read_keys api out (if err = None then Some (case key of Inl e' \<Rightarrow> e' | Inr _ \<Rightarrow> e) else err) ks)
       (\<lambda>_. case (err, key) of (None, Inr s) \<Rightarrow> read_keys api (out @ [s]) None ks
          | (None, Inl e') \<Rightarrow> read_keys api out (Some e') ks
          | (Some e', _) \<Rightarrow> read_keys api out (Some e') ks)"

lemma read_keys_Some:
  "read_keys api out err (Some k # ks)
     = (\<lambda>w. read_key api out err k ks (cstr_to_string (c_chars api k (engine w)) ''custom metadata key'') w)"
  by (simp add: read_key_def Let_def)

lemma owns_read_keys: "apart ks \<Longrightarrow> accounts B (pointees ks) (read_keys api out err ks) (\<lambda>_. {})"
proof (induction ks arbitrary: out err)
  case Nil
  show ?case by (simp add: owns_give)
next
  case (Cons p ks)
  show ?case
  proof (cases p)
    case None
    then show ?thesis using Cons by simp
  next
    case (Some k)
    then have apart: "k \<notin> pointees ks" "apart ks" using Cons.prems by simp_all
    have "accounts B ({k} \<union> pointees ks) (read_key api out err k ks key) (\<lambda>_. {})" for key
      unfolding read_key_def
      by (rule owns_match [OF owns_free_text returns_any]) (auto simp: apart Cons.IH [OF apart(2)] split: option.splits sum.splits)
    from owns_reading [OF this] show ?thesis unfolding Some read_keys_Some by simp
  qed
qed

lemma succeeds_read_keys: "succeeds (read_keys api out err ks)"
proof (induction ks arbitrary: out err)
  case Nil
  show ?case by (simp add: succeeds_give)
next
  case (Cons p ks)
  show ?case
  proof (cases p)
    case (Some k)
    have "succeeds (read_key api out err k ks key)" for key
      unfolding read_key_def by (rule succeeds_match) (auto simp: Cons.IH split: option.splits sum.splits)
    from succeeds_reading [OF this] show ?thesis unfolding Some read_keys_Some .
  qed (simp add: Cons.IH)
qed

lemma owns_custom_metadata_keys:
  assumes "no_values_on_error api" "no_empty_arrays api" "m \<in> B"
  shows "accounts B {} (custom_metadata_keys api m) (\<lambda>_. {})"
  unfolding custom_metadata_keys_def
proof (rule owns_seq [OF owns_default_allocator], rule owns_bind [OF owns_engine_array [OF assms(1)] returns_filled_array [OF assms(2)]])
  show "set (handles_of [A_handle m]) \<subseteq> B" using assms(3) by simp
next
  fix x :: "handle option \<times> handle option list"
  obtain arr ks where x: "x = (arr, ks)" by fastforce
  assume P: "case x of (arr, ps) \<Rightarrow> apart ps \<and> set_option arr \<inter> pointees ps = {} \<and> (arr = None \<longleftrightarrow> ps = [])"
  show "accounts B (case x of (arr, ps) \<Rightarrow> set_option arr \<union> pointees ps)
     (case x of (arr, ks) \<Rightarrow> case arr of None \<Rightarrow> give []
       | Some a \<Rightarrow> if ks = [] then give []
           else and_then (read_keys api [] None ks) (\<lambda>(out, err).
             and_then (free_text api a) (\<lambda>_. case err of Some e \<Rightarrow> raise e | None \<Rightarrow> give out))) (\<lambda>_. {})"
  proof (cases arr)
    case None
    then show ?thesis using P x by (simp add: owns_give)
  next
    case (Some a)
    then have P': "apart ks" "pointees ks \<inter> {a} = {}" "ks \<noteq> []" using P x by auto
    have tail: "accounts B {a} (and_then (free_text api a) (\<lambda>_. case err of Some e \<Rightarrow> raise e | None \<Rightarrow> give out)) (\<lambda>_. {})"
      for err :: "zerror option" and out :: "string list"
      by (rule owns_and_then [OF owns_free_text]) (auto simp: owns_raise owns_give split: option.splits)
    have "accounts B (pointees ks \<union> {a}) (and_then (read_keys api [] None ks) (\<lambda>(out, err).
             and_then (free_text api a) (\<lambda>_. case err of Some e \<Rightarrow> raise e | None \<Rightarrow> give out))) (\<lambda>_. {})"
      by (rule owns_succeeds [OF owns_read_keys [OF P'(1)] returns_any succeeds_read_keys P'(2)]) (simp add: tail split: prod.splits)
    then show ?thesis using Some x P'(3) by simp
  qed
qed

lemma owns_fetch_string:
  assumes "null_on_error api" "set (handles_of as) \<subseteq> B"
  shows "accounts B {} (fetch_string api f as what) (\<lambda>_. {})"
proof -
  have texts: "accounts B {t} (and_then (free_text api t) (\<lambda>_. and_then (lift_result s) (\<lambda>s. give (Some s)))) (\<lambda>_. {})"
    for t and s :: "zerror + string"
    by (rule owns_and_then [OF owns_free_text owns_seq [OF owns_lift owns_give]])
  have copy: "accounts B (set_option raw) (case raw of None \<Rightarrow> give None
       | Some t \<Rightarrow> (\<lambda>w. let s = cstr_to_string (c_chars api t (engine w)) what
           in and_then (free_text api t) (\<lambda>_. and_then (lift_result s) (\<lambda>s. give (Some s))) w)) (\<lambda>_. {})" for raw
    using owns_reading [OF texts, where g = "\<lambda>w. cstr_to_string (c_chars api t (engine w)) what" for t]
    by (cases raw) (simp_all add: owns_give Let_def)
  show ?thesis unfolding fetch_string_def
    by (rule owns_seq [OF owns_default_allocator], rule owns_and_then [OF owns_create_ptr [OF assms] copy])
qed

lemma allocator_arg_handles: "set (handles_of (allocator_arg a # as)) = set_option (al_handle a) \<union> set (handles_of as)"
  by (cases "al_handle a") (simp_all add: allocator_arg_def)

lemma owns_objects:
  assumes "null_on_error api"
  shows "accounts B {} (arena_cfg_new api max_mem strategy initial_chunk max_dead) (\<lambda>h. {h})"
    "accounts B {} (arena_with_entries api es) (\<lambda>h. {h})"
    "accounts B {} (prepacked_new api) (\<lambda>h. {h})"
    "accounts B {} (lora_from_path api path) (\<lambda>h. {h})"
    "accounts B {} (lora_from_array api bytes) (\<lambda>h. {h})"
    "accounts B {} (external_initializer_new api path offset size_in_bytes) (\<lambda>h. {h})"
    "set_option (al_handle a) \<subseteq> B \<Longrightarrow> accounts B {} (lora_from_path_with_allocator api path a) (\<lambda>h. {h})"
    "set_option (al_handle a) \<subseteq> B \<Longrightarrow> accounts B {} (lora_from_array_with_allocator api bytes a) (\<lambda>h. {h})"
    "set_option (al_handle a) \<subseteq> B \<Longrightarrow> accounts B {} (allocate api a n) (\<lambda>x. set_option (an_ptr x))"
proof -
  show "accounts B {} (arena_cfg_new api max_mem strategy initial_chunk max_dead) (\<lambda>h. {h})"
    unfolding arena_cfg_new_def by (rule owns_create_handle [OF assms]) simp
  show "accounts B {} (arena_with_entries api es) (\<lambda>h. {h})"
    unfolding arena_with_entries_def by (intro owns_if owns_raise owns_create_handle [OF assms]) simp
  show "accounts B {} (prepacked_new api) (\<lambda>h. {h})"
    unfolding prepacked_new_def by (rule owns_create_handle [OF assms]) simp
  show "accounts B {} (lora_from_path api path) (\<lambda>h. {h})"
    unfolding lora_from_path_def lora_create_def
    by (intro owns_if owns_raise owns_seq [OF owns_default_allocator] owns_create_handle [OF assms]) simp
  show "accounts B {} (lora_from_array api bytes) (\<lambda>h. {h})"
    unfolding lora_from_array_def lora_create_def by (intro owns_seq [OF owns_default_allocator] owns_create_handle [OF assms]) simp
  show "accounts B {} (external_initializer_new api path offset size_in_bytes) (\<lambda>h. {h})"
    unfolding external_initializer_new_def by (intro owns_if owns_raise owns_create_handle [OF assms]) simp
  assume B: "set_option (al_handle a) \<subseteq> B"
  then have arg: "set (handles_of [allocator_arg a]) \<subseteq> B" "set (handles_of [allocator_arg a, A_int (int n)]) \<subseteq> B"
    by (simp_all only: allocator_arg_handles) auto
  show "accounts B {} (lora_from_path_with_allocator api path a) (\<lambda>h. {h})"
    unfolding lora_from_path_with_allocator_def by (intro owns_if owns_raise owns_create_handle [OF assms]) (use arg in simp)
  show "accounts B {} (lora_from_array_with_allocator api bytes a) (\<lambda>h. {h})"
    unfolding lora_from_array_with_allocator_def by (intro owns_create_handle [OF assms]) (use arg in simp)
  show "accounts B {} (allocate api a n) (\<lambda>x. set_option (an_ptr x))"
    unfolding allocate_def
    by (rule owns_and_then [OF owns_create_ptr [OF assms arg(2)]]) (rule ownsI, auto simp: give_def)
qed

lemma owns_al_create:
  assumes "null_on_error api"
  shows "accounts {ns_handle s, nm_handle mem} {} (al_create api s mem) (\<lambda>a. set_option (al_handle a))"
  unfolding al_create_def
  by (rule owns_and_then [OF owns_create_handle [OF assms]], simp) (rule ownsI, auto simp: give_def)

lemma owns_allocation_drop: "accounts B (set_option (an_ptr x)) (allocation_drop api x) (\<lambda>_. {})"
  unfolding allocation_drop_def if_some_def
  by (cases "an_ptr x") (auto simp: owns_give intro!: owns_match_plain [OF owns_free_text])

subsection \<open>Theorems\<close>

text \<open>
  C26. Every text that the engine allocates for a query is freed, on every path: reading metadata
  or a custom entry leaves no handle behind whether the text is missing, valid or not UTF-8, and
  listing the custom keys frees every string and the array also when some of the strings are
  malformed or a free reports an error.
\<close>

theorem engine_texts_freed:
  assumes "null_on_error api" "no_values_on_error api" "no_empty_arrays api" "native_wf w" "m \<in> live w"
  shows "settled w (\<lambda>_. {}) (metadata_text api m f w) \<and> settled w (\<lambda>_. {}) (metadata_lookup api m key w)
    \<and> settled w (\<lambda>_. {}) (custom_metadata_keys api m w)"
proof -
  have "accounts {m} {} (metadata_text api m f) (\<lambda>_. {})"
    unfolding metadata_text_def by (rule owns_fetch_string [OF assms(1)]) simp
  moreover have "accounts {m} {} (metadata_lookup api m key) (\<lambda>_. {})"
    unfolding metadata_lookup_def by (intro owns_if owns_raise owns_fetch_string [OF assms(1)]) simp
  moreover have "accounts {m} {} (custom_metadata_keys api m) (\<lambda>_. {})"
    by (rule owns_custom_metadata_keys [OF assms(2,3)]) simp
  ultimately show ?thesis using assms(4,5) by (auto intro: owns_settled_borrowing)
qed

definition malformed :: "string option \<Rightarrow> bool" where
  "malformed p = (case p of None \<Rightarrow> False | Some raw \<Rightarrow> \<not> valid_utf8 (until_nul raw))"

lemma collect_results_fails:
  "(\<And>x. x \<in> set xs \<Longrightarrow> f x w = (r x, w)) \<Longrightarrow> \<exists>x \<in> set xs. isl (r x) \<Longrightarrow> \<exists>e. collect_results f xs w = (Inl e, w)"
proof (induction xs)
  case (Cons x xs)
  have head: "f x w = (r x, w)" using Cons.prems(1) by simp
  show ?case
  proof (cases "r x")
    case (Inl e)
    then show ?thesis using head by (simp add: and_then_def)
  next
    case (Inr y)
    then have "\<exists>x \<in> set xs. isl (r x)" using Cons.prems(2) by auto
    then obtain e where "collect_results f xs w = (Inl e, w)" using Cons.IH Cons.prems(1) by auto
    then show ?thesis using head Inr by (simp add: and_then_def)
  qed
qed simp

lemma stats_text_malformed: "stats_text what p w = (case p of None \<Rightarrow> Inr [] | Some raw \<Rightarrow> cstr_to_string raw what, w)"
  "isl (case p of None \<Rightarrow> Inr [] | Some raw \<Rightarrow> cstr_to_string raw what) \<longleftrightarrow> malformed p"
  by (simp_all add: stats_text_def give_def lift_result_def malformed_def cstr_to_string_def split: option.split)

text \<open>
  A malformed text in the statistics of an allocator leaks their container: \<open>Allocator::stats\<close> returns
  the error of the first key or value that is not UTF-8 before it releases the key/value pairs.
\<close>

theorem malformed_stats_leak:
  assumes "null_on_error api" "native_wf w" "set_option (al_handle a) \<subseteq> live w"
    and "create_ptr api Kv_pairs_handle ''allocator_get_stats'' [allocator_arg a] w = (Inr (Some kv), u)"
    and "key_value_texts api kv u = (Inr pairs, v)" "\<exists>(k, x) \<in> set pairs. malformed k \<or> malformed x"
  shows "(\<exists>e. allocator_stats api a w = (Inl e, v)) \<and> kv \<notin> live w \<and> live v = insert kv (live w)"
proof -
  let ?key = "\<lambda>p. case p of None \<Rightarrow> Inr [] | Some raw \<Rightarrow> cstr_to_string raw ''allocator stats key''"
  let ?val = "\<lambda>p. case p of None \<Rightarrow> Inr [] | Some raw \<Rightarrow> cstr_to_string raw ''allocator stats value''"
  let ?f = "\<lambda>(k, x). and_then (stats_text ''allocator stats key'' k) (\<lambda>key.
             and_then (stats_text ''allocator stats value'' x) (\<lambda>val. give (key, val)))"
  let ?r = "\<lambda>(k, x). case ?key k of Inl e \<Rightarrow> Inl e | Inr key \<Rightarrow> (case ?val x of Inl e \<Rightarrow> Inl e | Inr val \<Rightarrow> Inr (key, val))"
  have f: "?f p v = (?r p, v)" for p
    by (cases p) (simp add: and_then_def give_def stats_text_malformed(1) split: sum.splits)
  have "\<exists>p \<in> set pairs. isl (?r p)"
  proof -
    obtain k x where p: "(k, x) \<in> set pairs" "malformed k \<or> malformed x" using assms(6) by blast
    then have "isl (?r (k, x))"
      using stats_text_malformed(2) [where p = k and what = "''allocator stats key''"]
        stats_text_malformed(2) [where p = x and what = "''allocator stats value''"]
      by (cases "?key k"; cases "?val x") simp_all
    then show ?thesis using p(1) by blast
  qed
  then obtain e where "collect_results ?f pairs v = (Inl e, v)" using collect_results_fails [of pairs ?f v ?r] f by blast
  then have "allocator_stats api a w = (Inl e, v)"
    using assms(4,5) by (simp add: allocator_stats_def and_then_def)
  moreover have "kv \<notin> live w \<and> live u = insert kv (live w)"
  proof -
    have "accounts (set_option (al_handle a)) {} (create_ptr api Kv_pairs_handle ''allocator_get_stats'' [allocator_arg a]) set_option"
      by (rule owns_create_ptr [OF assms(1)], subst allocator_arg_handles) simp
    from owns_settled_borrowing [OF this assms(2,3)] show ?thesis using assms(4) by (auto simp: settled_def)
  qed
  moreover have "live v = live u" using assms(5) by (auto simp: key_value_texts_def split: prod.splits)
  ultimately show ?thesis by simp
qed

subsection \<open>The difference of two snapshots\<close>

text \<open>What a counter changed by, if it is in both snapshots and a number in both.\<close>

definition counter_change :: "stats \<Rightarrow> string \<Rightarrow> string \<Rightarrow> int option" where
  "counter_change after k b = (case (parse_i128 b, Option.bind (stats_get after k) parse_i128) of
     (Some x, Some y) \<Rightarrow> Some (y - x) | _ \<Rightarrow> None)"

definition i128_range :: "int \<Rightarrow> bool" where
  "i128_range d \<longleftrightarrow> - (2 ^ 127) \<le> d \<and> d < 2 ^ 127"

lemma stats_delta_cases:
  "stats_delta after (k, b) = (case counter_change after k b of None \<Rightarrow> Ret None
     | Some d \<Rightarrow> if i128_range d then Ret (if d \<noteq> 0 then Some (k, d) else None) else Panic)"
  by (auto simp: stats_delta_def counter_change_def i128_range_def signed_checked_def split: option.splits)

lemma stats_diff_panics:
  "stats_diff es after = Panic \<longleftrightarrow> (\<exists>(k, b) \<in> set es. \<exists>d. counter_change after k b = Some d \<and> \<not> i128_range d)"
proof (induction es)
  case (Cons e es)
  obtain k b where e: "e = (k, b)" by fastforce
  show ?case
  proof (cases "stats_delta after e")
    case Panic
    then have "\<exists>d. counter_change after k b = Some d \<and> \<not> i128_range d"
      by (auto simp: e stats_delta_cases split: option.splits if_splits)
    then show ?thesis using Panic by (auto simp: e)
  next
    case (Ret d)
    then have "\<not> (\<exists>d. counter_change after k b = Some d \<and> \<not> i128_range d)"
      by (auto simp: e stats_delta_cases split: option.splits if_splits)
    then show ?thesis using Ret Cons.IH by (cases "stats_diff es after") (auto simp: e)
  qed
qed simp

lemma stats_diff_entry:
  "stats_diff es after = Ret ds \<Longrightarrow> (k, d) \<in> set ds \<longleftrightarrow> (\<exists>b. (k, b) \<in> set es \<and> counter_change after k b = Some d \<and> d \<noteq> 0)"
proof (induction es arbitrary: ds)
  case (Cons e es)
  obtain k' b' where e: "e = (k', b')" by fastforce
  obtain d' ds' where parts: "stats_delta after e = Ret d'" "stats_diff es after = Ret ds'"
    "ds = (case d' of None \<Rightarrow> ds' | Some x \<Rightarrow> x # ds')"
    using Cons.prems by (auto simp: bind_run_eq_Ret)
  have head: "d' = Some (k, d) \<longleftrightarrow> k = k' \<and> counter_change after k' b' = Some d \<and> d \<noteq> 0"
    using parts(1) by (auto simp: e stats_delta_cases split: option.splits if_splits)
  have "(k, d) \<in> set ds \<longleftrightarrow> d' = Some (k, d) \<or> (k, d) \<in> set ds'" using parts(3) by (auto split: option.splits)
  then show ?case using head Cons.IH [OF parts(2)] by (auto simp: e)
qed simp

lemma option_same: "(\<And>d. x = Some d \<longleftrightarrow> y = Some d) \<Longrightarrow> x = y"
  by (cases x; cases y) auto

lemma stats_diff_keys:
  "stats_diff es after = Ret ds \<Longrightarrow> distinct (map fst es) \<Longrightarrow> distinct (map fst ds)"
proof (induction es arbitrary: ds)
  case (Cons e es)
  obtain k' b' where e: "e = (k', b')" by fastforce
  obtain d' ds' where parts: "stats_delta after e = Ret d'" "stats_diff es after = Ret ds'"
    "ds = (case d' of None \<Rightarrow> ds' | Some x \<Rightarrow> x # ds')"
    using Cons.prems by (auto simp: bind_run_eq_Ret)
  have "k' \<notin> fst ` set ds'" using stats_diff_entry [OF parts(2)] Cons.prems(2) by (force simp: e)
  moreover have "fst x = k'" if "d' = Some x" for x
    using parts(1) that by (auto simp: e stats_delta_cases split: option.splits if_splits)
  ultimately show ?case using Cons.IH [OF parts(2)] Cons.prems(2) parts(3) by (cases d') auto
qed simp

text \<open>
  The difference of two allocator snapshots with distinct keys holds exactly the counters that both
  have as numbers and that changed, each with its exact change; it panics exactly when a change does not fit
  \<open>i128\<close>, and the difference of a snapshot with itself is empty.
\<close>

theorem stats_diff_exact:
  assumes "distinct (map fst es)"
  shows "(stats_diff es after = Panic \<longleftrightarrow> (\<exists>k b d. stats_get es k = Some b \<and> counter_change after k b = Some d \<and> \<not> i128_range d))
    \<and> (stats_diff es after = Ret ds \<longrightarrow>
        delta_get ds k = Option.bind (stats_get es k) (\<lambda>b. Option.bind (counter_change after k b) (\<lambda>d. if d = 0 then None else Some d)))
    \<and> stats_diff es es = Ret []"
proof (intro conjI impI)
  have entry: "stats_get es k = Some b \<longleftrightarrow> (k, b) \<in> set es" for k b
    unfolding stats_get_def using assms by (simp add: map_of_eq_Some_iff)
  show "stats_diff es after = Panic \<longleftrightarrow> (\<exists>k b d. stats_get es k = Some b \<and> counter_change after k b = Some d \<and> \<not> i128_range d)"
    unfolding stats_diff_panics entry by blast
  show "delta_get ds k = Option.bind (stats_get es k) (\<lambda>b. Option.bind (counter_change after k b) (\<lambda>d. if d = 0 then None else Some d))"
    if ds: "stats_diff es after = Ret ds"
  proof -
    have "delta_get ds k = Some d \<longleftrightarrow> (k, d) \<in> set ds" for d
      unfolding delta_get_def using stats_diff_keys [OF ds assms] by (simp add: map_of_eq_Some_iff)
    moreover have "Option.bind (stats_get es k) (\<lambda>b. Option.bind (counter_change after k b) (\<lambda>d. if d = 0 then None else Some d)) = Some d
        \<longleftrightarrow> (\<exists>b. (k, b) \<in> set es \<and> counter_change after k b = Some d \<and> d \<noteq> 0)" for d
      unfolding entry [symmetric] by (auto simp: bind_eq_Some_conv split: if_splits)
    ultimately show ?thesis by (intro option_same) (simp add: stats_diff_entry [OF ds])
  qed
  have none: "counter_change es k b = Some d \<Longrightarrow> (k, b) \<in> set es \<Longrightarrow> d = 0" for k b d
    using entry [of k b] by (auto simp: counter_change_def split: option.splits)
  have "stats_diff es es \<noteq> Panic" unfolding stats_diff_panics using none by (fastforce simp: i128_range_def)
  then obtain ds where ds: "stats_diff es es = Ret ds" by (cases "stats_diff es es") auto
  have "ds = []"
  proof (rule ccontr)
    assume "ds \<noteq> []"
    then obtain k d where "(k, d) \<in> set ds" by (cases ds) auto
    then show False using stats_diff_entry [OF ds] none by blast
  qed
  with ds show "stats_diff es es = Ret []" by simp
qed

subsection \<open>Instances\<close>

text \<open>An engine with two custom keys, one of them malformed, and statistics with a malformed value.\<close>

definition metadata_api :: "(nat \<Rightarrow> string \<rightharpoonup> string) c_api" where
  "metadata_api = demo_api\<lparr>c_many := (\<lambda>c s n. ((None, True, [True, True]), n)), c_chars := (\<lambda>h n. if snd h = 5 then [CHR 0xFF] else ''key''),
     c_texts := (\<lambda>c n. ((None, [Some ''in_use'', Some [CHR 0xFF]]), n))\<rparr>"

lemma metadata_api_laws: "null_on_error metadata_api" "no_values_on_error metadata_api" "no_empty_arrays metadata_api"
  by (simp_all add: null_on_error_def no_values_on_error_def no_empty_arrays_def metadata_api_def demo_api_def)

lemma engine_texts_freed_witness:
  "settled demo_world (\<lambda>_. {}) (custom_metadata_keys metadata_api (Session_handle, 2) demo_world)
   \<and> fst (custom_metadata_keys metadata_api (Session_handle, 2) demo_world)
       = Inl (local_error ''zrt: custom metadata key is not valid UTF-8'')"
proof
  have "(Session_handle, 2) \<in> live demo_world" by (simp add: demo_world_def)
  then show "settled demo_world (\<lambda>_. {}) (custom_metadata_keys metadata_api (Session_handle, 2) demo_world)"
    using engine_texts_freed [OF metadata_api_laws demo_wf] by blast
  show "fst (custom_metadata_keys metadata_api (Session_handle, 2) demo_world)
       = Inl (local_error ''zrt: custom metadata key is not valid UTF-8'')"
    by (simp add: custom_metadata_keys_def metadata_api_def demo_api_def demo_world_def and_then_def default_allocator_def query_int_def
        engine_array_def check_def Let_def note_call_def match_result_def free_text_def status_def cstr_to_string_def until_nul_def byte_in_def then_release_def release_handle_def demo_status_def
        raise_def give_def lift_result_def non_null_def)
qed

lemma malformed_stats_leak_witness:
  "\<exists>e v. allocator_stats metadata_api \<lparr>al_handle = None, al_session = None, al_env = None\<rparr> demo_world = (Inl e, v)
     \<and> live v = {(Kv_pairs_handle, 3), (Session_handle, 2)}"
proof -
  let ?a = "\<lparr>al_handle = None, al_session = None, al_env = None\<rparr>"
  have alive: "set_option (al_handle ?a) \<subseteq> live demo_world" by simp
  obtain u where made: "create_ptr metadata_api Kv_pairs_handle ''allocator_get_stats'' [allocator_arg ?a] demo_world
      = (Inr (Some (Kv_pairs_handle, 3)), u)"
    by (simp add: create_ptr_def metadata_api_def demo_api_def demo_world_def Let_def check_def note_call_def)
  obtain v where texts: "key_value_texts metadata_api (Kv_pairs_handle, 3) u = (Inr [(Some ''in_use'', Some [CHR 0xFF])], v)"
    by (simp add: key_value_texts_def metadata_api_def)
  have bad: "\<exists>(k, x) \<in> set [(Some ''in_use'', Some [CHR 0xFF])]. malformed k \<or> malformed x"
    by (simp add: malformed_def until_nul_def byte_in_def)
  show ?thesis
    using malformed_stats_leak [OF metadata_api_laws(1) demo_wf alive made texts bad] by (auto simp: demo_world_def)
qed

lemma stats_diff_exact_witness:
  "stats_diff [(''in_use'', ''10''), (''limit'', ''-1''), (''name'', ''x'')] [(''limit'', ''-1''), (''in_use'', ''+25'')] = Ret [(''in_use'', 15)]
   \<and> delta_get [(''in_use'', 15)] ''in_use'' = Some 15"
proof -
  let ?es = "[(''in_use'', ''10''), (''limit'', ''-1''), (''name'', ''x'')]"
  let ?after = "[(''limit'', ''-1''), (''in_use'', ''+25'')]"
  have d: "distinct (map fst ?es)" by simp
  have diff: "stats_diff ?es ?after = Ret [(''in_use'', 15)]"
    by (simp add: stats_delta_def stats_get_def parse_i128_def parse_signed_def signed_checked_def digit_val_def)
  show ?thesis using stats_diff_exact [OF d, of ?after "[(''in_use'', 15)]" "''in_use''"] diff
    by (simp add: stats_get_def counter_change_def parse_i128_def parse_signed_def signed_checked_def digit_val_def)
qed

end
