(* ===== verification/Session_Queries.thy ===== *)
theory Session_Queries
  imports Native_Memory
begin

text \<open>
  What a session tells about itself (st-zrt/src/session.rs): the cached names, types and shapes of its
  inputs and outputs, the memory and the provider of each of them, its overridable initializers and its
  dynamic options. The cached answers are pure; the others ask the engine.
\<close>

subsection \<open>Cached metadata\<close>

definition input_count :: "native_session \<Rightarrow> nat" where
  "input_count s = length (ns_input_names s)"

definition output_count :: "native_session \<Rightarrow> nat" where
  "output_count s = length (ns_output_names s)"

definition side_name :: "bool \<Rightarrow> string" where
  "side_name is_input = (if is_input then ''input'' else ''output'')"

definition io_index_error :: "native_session \<Rightarrow> bool \<Rightarrow> nat \<Rightarrow> zerror" where
  "io_index_error s is_input i = local_error (''zrt: '' @ side_name is_input @ '' index '' @ digits i @ '' out of range (''
     @ digits (if is_input then input_count s else output_count s) @ '' '' @ side_name is_input @ ''s)'')"

definition cached_at :: "native_session \<Rightarrow> bool \<Rightarrow> 'a list \<Rightarrow> nat \<Rightarrow> zerror + 'a" where
  "cached_at s is_input xs i = (if i < length xs then Inr (xs ! i) else Inl (io_index_error s is_input i))"

definition name_text :: "bool \<Rightarrow> nat \<Rightarrow> zerror + string \<Rightarrow> zerror + string" where
  "name_text is_input i r = (case r of Inl e \<Rightarrow> Inl e
     | Inr name \<Rightarrow> if valid_utf8 name then Inr name
         else Inl (local_error (''zrt: '' @ side_name is_input @ '' name '' @ digits i @ '' is not valid UTF-8'')))"

definition input_name :: "native_session \<Rightarrow> nat \<Rightarrow> zerror + string" where
  "input_name s i = name_text True i (cached_at s True (ns_input_names s) i)"

definition output_name :: "native_session \<Rightarrow> nat \<Rightarrow> zerror + string" where
  "output_name s i = name_text False i (cached_at s False (ns_output_names s) i)"

definition map_ok :: "('a \<Rightarrow> 'b) \<Rightarrow> zerror + 'a \<Rightarrow> zerror + 'b" where
  "map_ok f r = (case r of Inl e \<Rightarrow> Inl e | Inr a \<Rightarrow> Inr (f a))"

definition meta_triple :: "cached_io \<Rightarrow> int \<times> int \<times> nat option" where
  "meta_triple m = (io_onnx_type m, io_elem_type m, io_count m)"

definition input_meta :: "native_session \<Rightarrow> nat \<Rightarrow> zerror + (int \<times> int \<times> nat option)" where
  "input_meta s i = map_ok meta_triple (cached_at s True (ns_input_meta s) i)"

definition output_meta :: "native_session \<Rightarrow> nat \<Rightarrow> zerror + (int \<times> int \<times> nat option)" where
  "output_meta s i = map_ok meta_triple (cached_at s False (ns_output_meta s) i)"

definition input_shape :: "native_session \<Rightarrow> nat \<Rightarrow> zerror + int list" where
  "input_shape s i = map_ok io_dims (cached_at s True (ns_input_meta s) i)"

definition output_shape :: "native_session \<Rightarrow> nat \<Rightarrow> zerror + int list" where
  "output_shape s i = map_ok io_dims (cached_at s False (ns_output_meta s) i)"

definition input_symbolic_dims :: "native_session \<Rightarrow> nat \<Rightarrow> zerror + string option list" where
  "input_symbolic_dims s i = map_ok io_symbolic (cached_at s True (ns_input_meta s) i)"

definition output_symbolic_dims :: "native_session \<Rightarrow> nat \<Rightarrow> zerror + string option list" where
  "output_symbolic_dims s i = map_ok io_symbolic (cached_at s False (ns_output_meta s) i)"

subsection \<open>Placement\<close>

record ep_snapshot =
  es_name :: string
  es_vendor :: string

definition text_or_empty :: "string option \<Rightarrow> string \<Rightarrow> ('n, string) native_op" where
  "text_or_empty p what = (case p of None \<Rightarrow> give [] | Some raw \<Rightarrow> lift_result (cstr_to_string raw what))"

definition ep_device_snapshot_from_ptr :: "'n c_api \<Rightarrow> int \<Rightarrow> ('n, ep_snapshot option) native_op" where
  "ep_device_snapshot_from_ptr api p =
     (if p = 0 then give None
      else and_then (borrow_text api ''ep_device__ep_name'' [engine_ptr p]) (\<lambda>raw.
           and_then (text_or_empty raw ''execution provider device name'') (\<lambda>name.
           and_then (borrow_text api ''ep_device__ep_vendor'' [engine_ptr p]) (\<lambda>raw.
           and_then (text_or_empty raw ''execution provider device vendor'') (\<lambda>vendor.
             give (Some \<lparr>es_name = name, es_vendor = vendor\<rparr>))))))"

definition memory_infos :: "'n c_api \<Rightarrow> string \<Rightarrow> native_session \<Rightarrow> nat \<Rightarrow> ('n, memory_snapshot list) native_op" where
  "memory_infos api f s count = and_then (query_ints api f [A_handle (ns_handle s), A_int (int count)] count)
     (collect_results (\<lambda>p. snapshot_from_ptr api (engine_ptr p)))"

definition input_memory_infos :: "'n c_api \<Rightarrow> native_session \<Rightarrow> ('n, memory_snapshot list) native_op" where
  "input_memory_infos api s = memory_infos api ''session_get_memory_info_for_inputs'' s (input_count s)"

definition output_memory_infos :: "'n c_api \<Rightarrow> native_session \<Rightarrow> ('n, memory_snapshot list) native_op" where
  "output_memory_infos api s = memory_infos api ''session_get_memory_info_for_outputs'' s (output_count s)"

definition ep_devices :: "'n c_api \<Rightarrow> string \<Rightarrow> native_session \<Rightarrow> nat \<Rightarrow> ('n, ep_snapshot option list) native_op" where
  "ep_devices api f s count = and_then (query_ints api f [A_handle (ns_handle s), A_int (int count)] count)
     (collect_results (ep_device_snapshot_from_ptr api))"

definition input_ep_devices :: "'n c_api \<Rightarrow> native_session \<Rightarrow> ('n, ep_snapshot option list) native_op" where
  "input_ep_devices api s = ep_devices api ''session_get_ep_device_for_inputs'' s (input_count s)"

definition output_ep_devices :: "'n c_api \<Rightarrow> native_session \<Rightarrow> ('n, ep_snapshot option list) native_op" where
  "output_ep_devices api s = ep_devices api ''session_get_ep_device_for_outputs'' s (output_count s)"

text \<open>The one entry asked for, checked before the engine is asked.\<close>

definition entry_of :: "native_session \<Rightarrow> bool \<Rightarrow> nat \<Rightarrow> ('n, 'a list) native_op \<Rightarrow> ('n, 'a) native_op" where
  "entry_of s is_input i m = (if (if is_input then input_count s else output_count s) \<le> i then raise (io_index_error s is_input i)
     else and_then m (\<lambda>xs. give (xs ! i)))"

definition input_memory_info :: "'n c_api \<Rightarrow> native_session \<Rightarrow> nat \<Rightarrow> ('n, memory_snapshot) native_op" where
  "input_memory_info api s i = entry_of s True i (input_memory_infos api s)"

definition output_memory_info :: "'n c_api \<Rightarrow> native_session \<Rightarrow> nat \<Rightarrow> ('n, memory_snapshot) native_op" where
  "output_memory_info api s i = entry_of s False i (output_memory_infos api s)"

definition input_ep_device :: "'n c_api \<Rightarrow> native_session \<Rightarrow> nat \<Rightarrow> ('n, ep_snapshot option) native_op" where
  "input_ep_device api s i = entry_of s True i (input_ep_devices api s)"

definition output_ep_device :: "'n c_api \<Rightarrow> native_session \<Rightarrow> nat \<Rightarrow> ('n, ep_snapshot option) native_op" where
  "output_ep_device api s i = entry_of s False i (output_ep_devices api s)"

record io_placement_entry =
  ip_is_input :: bool
  ip_index :: nat
  ip_name :: string
  ip_onnx_type :: int
  ip_elem_type :: int
  ip_shape :: "int list"
  ip_symbolic :: "string option list"
  ip_memory :: memory_snapshot
  ip_ep_device :: "ep_snapshot option"

definition placement_entry :: "native_session \<Rightarrow> bool \<Rightarrow> memory_snapshot list \<Rightarrow> ep_snapshot option list \<Rightarrow> nat
    \<Rightarrow> ('n, io_placement_entry) native_op" where
  "placement_entry s is_input ms eps i =
     (let m = (if is_input then ns_input_meta s else ns_output_meta s) ! i
      in and_then (lift_result (if is_input then input_name s i else output_name s i)) (\<lambda>name.
         give \<lparr>ip_is_input = is_input, ip_index = i, ip_name = name, ip_onnx_type = io_onnx_type m, ip_elem_type = io_elem_type m,
           ip_shape = io_dims m, ip_symbolic = io_symbolic m, ip_memory = ms ! i, ip_ep_device = eps ! i\<rparr>))"

definition io_placement :: "'n c_api \<Rightarrow> native_session \<Rightarrow> ('n, io_placement_entry list) native_op" where
  "io_placement api s =
     and_then (input_memory_infos api s) (\<lambda>input_memory.
     and_then (output_memory_infos api s) (\<lambda>output_memory.
     and_then (input_ep_devices api s) (\<lambda>input_ep.
     and_then (output_ep_devices api s) (\<lambda>output_ep.
     and_then (collect_results (placement_entry s True input_memory input_ep) [0 ..< input_count s]) (\<lambda>ins.
     and_then (collect_results (placement_entry s False output_memory output_ep) [0 ..< output_count s]) (\<lambda>outs.
       give (ins @ outs)))))))"

subsection \<open>Other queries\<close>

definition profiling_start_time_ns :: "'n c_api \<Rightarrow> native_session \<Rightarrow> ('n, int) native_op" where
  "profiling_start_time_ns api s = query_int api ''session_get_profiling_start_time_ns'' [A_handle (ns_handle s)]"

definition overridable_initializer_count :: "'n c_api \<Rightarrow> native_session \<Rightarrow> ('n, nat) native_op" where
  "overridable_initializer_count api s = and_then (query_int api ''session_get_overridable_initializer_count'' [A_handle (ns_handle s)]) (\<lambda>n. give (nat n))"

text \<open>
  The lossy conversion of the name is an argument: its replacement characters are the standard
  library's. The result of the free is ignored.
\<close>

definition overridable_initializer_name :: "'n c_api \<Rightarrow> (string \<Rightarrow> string) \<Rightarrow> native_session \<Rightarrow> nat \<Rightarrow> ('n, string) native_op" where
  "overridable_initializer_name api lossy s i = and_then (default_allocator api) (\<lambda>_.
     and_then (create_ptr api Engine_text ''session_get_overridable_initializer_name'' [A_handle (ns_handle s), A_int (int i)]) (\<lambda>raw.
       case raw of None \<Rightarrow> raise (local_error ''zrt: overridable initializer name pointer is null'')
       | Some t \<Rightarrow> (\<lambda>w. let name = lossy (until_nul (c_chars api t (engine w)))
           in match_result (free_text api t) (\<lambda>_. give name) (\<lambda>_. give name) w)))"

definition overridable_initializer_type_info :: "'n c_api \<Rightarrow> native_session \<Rightarrow> nat \<Rightarrow> ('n, handle) native_op" where
  "overridable_initializer_type_info api s i = create_handle api Type_info_handle ''session_get_overridable_initializer_type_info''
     [A_handle (ns_handle s), A_int (int i)] ''overridable initializer type info''"

definition set_ep_dynamic_options :: "'n c_api \<Rightarrow> native_session \<Rightarrow> entries \<Rightarrow> ('n, unit) native_op" where
  "set_ep_dynamic_options api s kv =
     (if \<exists>(k, _) \<in> set kv. has_nul k then raise (local_error ''dynamic option key contains a NUL'')
      else if \<exists>(_, x) \<in> set kv. has_nul x then raise (local_error ''dynamic option value contains a NUL'')
      else status api ''set_ep_dynamic_options'' [A_handle (ns_handle s), A_texts (map fst kv), A_texts (map snd kv), A_int (int (length kv))])"

subsection \<open>Ownership\<close>

lemma owns_entry_of: "accounts B {} m (\<lambda>_. {}) \<Longrightarrow> accounts B {} (entry_of s is_input i m) (\<lambda>_. {})"
  unfolding entry_of_def by (intro owns_if owns_raise owns_seq owns_give)

lemma owns_borrow_text: "set (handles_of as) \<subseteq> B \<Longrightarrow> accounts B {} (borrow_text api f as) (\<lambda>_. {})"
  by (rule ownsI) (auto simp: borrow_text_def handles_noted native_wf_def gained_def split: prod.splits)

lemma owns_ep_snapshot: "accounts B {} (ep_device_snapshot_from_ptr api p) (\<lambda>_. {})"
proof -
  have t: "accounts B {} (text_or_empty raw what) (\<lambda>_. {})" for raw what
    by (cases raw) (simp_all add: text_or_empty_def owns_give owns_lift)
  show ?thesis unfolding ep_device_snapshot_from_ptr_def by (intro owns_if owns_seq owns_give t owns_borrow_text) simp_all
qed

lemma owns_placement_queries:
  assumes "ns_handle s \<in> B"
  shows "accounts B {} (input_memory_infos api s) (\<lambda>_. {})" "accounts B {} (output_memory_infos api s) (\<lambda>_. {})"
    "accounts B {} (input_ep_devices api s) (\<lambda>_. {})" "accounts B {} (output_ep_devices api s) (\<lambda>_. {})"
  unfolding input_memory_infos_def output_memory_infos_def input_ep_devices_def output_ep_devices_def memory_infos_def ep_devices_def
  by (intro owns_seq owns_query_ints owns_collect_results owns_snapshot_from_ptr owns_ep_snapshot; simp add: assms)+

lemma owns_io_placement: "ns_handle s \<in> B \<Longrightarrow> accounts B {} (io_placement api s) (\<lambda>_. {})"
  unfolding io_placement_def placement_entry_def Let_def
  by (intro owns_seq owns_placement_queries owns_collect_results owns_lift owns_give)

subsection \<open>Theorems\<close>

text \<open>The metadata caches have one entry per name.\<close>

definition cached_wf :: "native_session \<Rightarrow> bool" where
  "cached_wf s \<longleftrightarrow> length (ns_input_meta s) = input_count s \<and> length (ns_output_meta s) = output_count s"

lemma collect_results_returns:
  "(\<And>x. x \<in> set xs \<Longrightarrow> returns (P x) (f x)) \<Longrightarrow> returns (\<lambda>ys. list_all2 P xs ys) (collect_results f xs)"
proof (induction xs)
  case (Cons x xs)
  show ?case
    unfolding collect_results.simps
    by (rule returns_and_then [OF Cons.prems], simp, rule returns_and_then [OF Cons.IH], rule Cons.prems, simp) (simp add: returns_give)
qed (simp add: returns_give)

text \<open>The entry that belongs to an input or output.\<close>

definition placed :: "native_session \<Rightarrow> bool \<Rightarrow> nat \<Rightarrow> io_placement_entry \<Rightarrow> bool" where
  "placed s is_input i e \<longleftrightarrow> ip_is_input e = is_input \<and> ip_index e = i
     \<and> Inr (ip_name e) = (if is_input then input_name s i else output_name s i)
     \<and> Inr (ip_shape e) = (if is_input then input_shape s i else output_shape s i)
     \<and> Inr (ip_symbolic e) = (if is_input then input_symbolic_dims s i else output_symbolic_dims s i)
     \<and> (\<exists>count. Inr (ip_onnx_type e, ip_elem_type e, count) = (if is_input then input_meta s i else output_meta s i))"

lemma returns_placement_entry:
  assumes "cached_wf s" "i < (if is_input then input_count s else output_count s)"
  shows "returns (placed s is_input i) (placement_entry s is_input ms eps i)"
proof -
  have "i < length (if is_input then ns_input_meta s else ns_output_meta s)" using assms by (auto simp: cached_wf_def)
  then show ?thesis
    by (cases is_input) (auto simp: returns_def placement_entry_def Let_def and_then_def lift_result_def give_def placed_def map_ok_def
        cached_at_def input_shape_def output_shape_def input_symbolic_dims_def output_symbolic_dims_def input_meta_def output_meta_def
        meta_triple_def split: sum.splits)
qed

text \<open>
  The placement of a session lists its inputs and then its outputs, each once and in order, with the
  name, type, shape and symbolic dimensions that the session reports for it; asking for it leaves no native
  handle behind, and an index out of range is refused by every query before the engine is asked.
\<close>

theorem io_placement_exact:
  assumes "cached_wf s" "native_wf w" "ns_handle s \<in> live w"
  shows "settled w (\<lambda>_. {}) (io_placement api s w)
    \<and> (\<forall>es v. io_placement api s w = (Inr es, v) \<longrightarrow> list_all2 (\<lambda>(b, i) e. placed s b i e)
         (map (Pair True) [0 ..< input_count s] @ map (Pair False) [0 ..< output_count s]) es)
    \<and> (input_count s \<le> i \<longrightarrow> input_name s i = Inl (io_index_error s True i) \<and> input_shape s i = Inl (io_index_error s True i)
         \<and> input_memory_info api s i w = (Inl (io_index_error s True i), w) \<and> input_ep_device api s i w = (Inl (io_index_error s True i), w))
    \<and> (output_count s \<le> i \<longrightarrow> output_name s i = Inl (io_index_error s False i) \<and> output_shape s i = Inl (io_index_error s False i)
         \<and> output_memory_info api s i w = (Inl (io_index_error s False i), w) \<and> output_ep_device api s i w = (Inl (io_index_error s False i), w))"
proof (intro conjI allI impI)
  have "accounts {ns_handle s} {} (io_placement api s) (\<lambda>_. {})" by (rule owns_io_placement) simp
  then show "settled w (\<lambda>_. {}) (io_placement api s w)" using assms(2,3) by (auto intro: owns_settled_borrowing)
next
  fix es v
  assume run: "io_placement api s w = (Inr es, v)"
  have entries: "returns (list_all2 (placed s b) [0 ..< n]) (collect_results (placement_entry s b ms eps) [0 ..< n])"
    if "n = (if b then input_count s else output_count s)" for b n ms eps
    by (rule collect_results_returns, rule returns_placement_entry [OF assms(1)]) (use that in simp)
  have "returns (list_all2 (\<lambda>(b, i) e. placed s b i e)
      (map (Pair True) [0 ..< input_count s] @ map (Pair False) [0 ..< output_count s])) (io_placement api s)"
    unfolding io_placement_def
    by (rule returns_seq, rule returns_seq, rule returns_seq, rule returns_seq, rule returns_and_then [OF entries], simp,
        rule returns_and_then [OF entries], simp)
      (auto intro!: returns_give list_all2_appendI simp: list_all2_map1)
  from returnsD [OF this run] show "list_all2 (\<lambda>(b, i) e. placed s b i e)
      (map (Pair True) [0 ..< input_count s] @ map (Pair False) [0 ..< output_count s]) es" .
qed (use assms(1) in \<open>auto simp: cached_wf_def cached_at_def input_name_def output_name_def name_text_def input_shape_def output_shape_def
    map_ok_def input_memory_info_def output_memory_info_def input_ep_device_def output_ep_device_def entry_of_def raise_def
    input_count_def output_count_def\<close>)

subsection \<open>Instances\<close>

definition demo_io :: cached_io where
  "demo_io = \<lparr>io_onnx_type = 1, io_elem_type = 1, io_count = Some 6, io_dims = [2, 3], io_symbolic = [None, None]\<rparr>"

text \<open>A session with one input and one output of six floats.\<close>

definition demo_session :: native_session where
  "demo_session = \<lparr>ns_handle = (Session_handle, 2), ns_input_names = [''x''], ns_input_meta = [demo_io],
     ns_output_names = [''y''], ns_output_meta = [demo_io], ns_run_opts = \<lparr>mr_opts = (Run_options_handle, 0), mr_sync_stream = None, mr_adapters = []\<rparr>,
     ns_initializers = [], ns_prepacked = None, ns_cuda_streams = [], ns_spool = None, ns_env = 0\<rparr>"

definition placement_api :: "(nat \<Rightarrow> string \<rightharpoonup> string) c_api" where
  "placement_api = demo_api\<lparr>c_ints := (\<lambda>c n. ((None, [7]), n))\<rparr>"

lemma io_placement_exact_witness:
  "settled demo_world (\<lambda>_. {}) (io_placement placement_api demo_session demo_world)
   \<and> (\<exists>es v. io_placement placement_api demo_session demo_world = (Inr es, v) \<and> map ip_name es = [''x'', ''y''] \<and> placed demo_session False 0 (es ! 1))
   \<and> fst (output_memory_info placement_api demo_session 1 demo_world) = Inl (local_error ''zrt: output index 1 out of range (1 outputs)'')"
proof -
  have wf: "cached_wf demo_session" by (simp add: cached_wf_def demo_session_def input_count_def output_count_def)
  have alive: "ns_handle demo_session \<in> live demo_world" by (simp add: demo_session_def demo_world_def)
  note E = io_placement_exact [OF wf demo_wf alive, of placement_api]
  have run: "\<exists>es v. io_placement placement_api demo_session demo_world = (Inr es, v) \<and> map ip_name es = [''x'', ''y'']"
    by (simp add: io_placement_def input_memory_infos_def output_memory_infos_def input_ep_devices_def output_ep_devices_def memory_infos_def
        ep_devices_def query_ints_def placement_api_def demo_api_def demo_world_def and_then_def check_def snapshot_from_ptr_def engine_ptr_def
        snapshot_name_def query_text_def query_int_def query_plain_def ep_device_snapshot_from_ptr_def borrow_text_def text_or_empty_def give_def
        placement_entry_def lift_result_def input_name_def output_name_def name_text_def cached_at_def demo_session_def input_count_def
        output_count_def Let_def overwrite_def byte_in_def)
  have range: "output_count demo_session \<le> 1" and err: "io_index_error demo_session False 1 = local_error ''zrt: output index 1 out of range (1 outputs)''"
    by (simp_all add: demo_session_def output_count_def io_index_error_def side_name_def digits.simps digit_char_def char_of_def bit_Suc_0_iff)
  from run obtain es v where es: "io_placement placement_api demo_session demo_world = (Inr es, v)" "map ip_name es = [''x'', ''y'']" by (elim exE conjE) (rule that)
  have counts: "input_count demo_session = 1" "output_count demo_session = 1"
    by (simp_all add: demo_session_def input_count_def output_count_def)
  have "list_all2 (\<lambda>(b, i) e. placed demo_session b i e) [(True, 0), (False, 0)] es"
    using E es(1) unfolding counts by simp
  then have "placed demo_session False 0 (es ! 1)" by (auto simp: list_all2_Cons1)
  then show ?thesis using E [of 1] es range err by auto
qed

end
