(* ===== verification/Session_Run.thy ===== *)
theory Session_Run
  imports Session_Queries
begin

text \<open>
  Runs of a session (st-zrt/src/session.rs): the regular run with its output slots, prepared runs,
  tensor copies with their fallback on the host, and runs with an I/O binding
  (st-zrt/src/io_binding.rs). The inputs are values of the caller, given by their pointers; an output
  slot holds a value or nothing, and its value is released when it is overwritten.
\<close>

subsection \<open>Checks\<close>

definition check_input_count :: "native_session \<Rightarrow> nat \<Rightarrow> ('n, unit) native_op" where
  "check_input_count s got = (if got \<noteq> input_count s
     then raise (local_error (''zrt: input count mismatch: expected '' @ digits (input_count s) @ '', got '' @ digits got)) else give ())"

definition check_output_count :: "native_session \<Rightarrow> nat \<Rightarrow> string \<Rightarrow> ('n, unit) native_op" where
  "check_output_count s got what = (if got \<noteq> output_count s
     then raise (local_error (''zrt: '' @ what @ '' mismatch: expected '' @ digits (output_count s) @ '', got '' @ digits got)) else give ())"

definition check_run_options :: "native_session \<Rightarrow> materialized \<Rightarrow> ('n, unit) native_op" where
  "check_run_options s m = (if shares_environment (ns_env s) m then give ()
     else raise (local_error ''MaterializedRunOptions sync stream belongs to a different Environment''))"

definition check_sync_stream :: "native_session \<Rightarrow> sync_stream \<Rightarrow> ('n, unit) native_op" where
  "check_sync_stream s stream = (if sy_env stream = ns_env s then give ()
     else raise (local_error ''SyncStream belongs to a different Environment''))"

subsection \<open>Regular runs\<close>

type_synonym slots = "owned_value option list"

definition slot_ptr :: "owned_value option \<Rightarrow> handle option" where
  "slot_ptr x = Option.bind x ov_value"

definition drop_slot :: "'n c_api \<Rightarrow> owned_value option \<Rightarrow> ('n, unit) native_op" where
  "drop_slot api x = if_some (slot_ptr x) (drop_handle api)"

definition run_args :: "native_session \<Rightarrow> handle \<Rightarrow> handle option list \<Rightarrow> c_arg list" where
  "run_args s opts inputs = A_handle (ns_handle s) # A_handle opts # A_texts (ns_input_names s) # map value_arg inputs
     @ [A_int (int (length inputs)), A_texts (ns_output_names s), A_int (int (output_count s))]"

definition run_raw :: "'n c_api \<Rightarrow> native_session \<Rightarrow> handle option list \<Rightarrow> nat \<Rightarrow> handle \<Rightarrow> ('n, handle option list) native_op" where
  "run_raw api s inputs n opts = fill_values api ''run'' (run_args s opts inputs) n"

definition stamped_count :: "'n c_api \<Rightarrow> cached_io \<Rightarrow> handle option \<Rightarrow> ('n, nat) native_op" where
  "stamped_count api m p = (case io_count m of Some count \<Rightarrow> give count
     | None \<Rightarrow> if io_onnx_type m = onnx_tensor
         then and_then (tensor_type_and_shape api p) (\<lambda>t. then_release api t (tsi_element_count api t)) else give 0)"

text \<open>
  \<open>stamp_outputs\<close> goes over the new pointers with the cached metadata and the slots, lists of one length
  that the callers have checked. An error releases the pointers that no slot has yet; the slots before
  keep their new values and the slots after their old ones.
\<close>

fun stamp_loop :: "'n c_api \<Rightarrow> slots \<Rightarrow> (handle option \<times> cached_io \<times> owned_value option) list
    \<Rightarrow> ('n, (zerror + unit) \<times> slots) native_op" where
  "stamp_loop api filled [] = give (Inr (), filled)"
| "stamp_loop api filled ((p, m, old) # rest) = match_result (stamped_count api m p)
     (\<lambda>e. and_then (release_all api (p # map fst rest)) (\<lambda>_. give (Inl e, filled @ old # map (snd \<circ> snd) rest)))
     (\<lambda>count. and_then (drop_slot api old) (\<lambda>_. stamp_loop api
        (filled @ [Some \<lparr>ov_value = p, ov_onnx_type = io_onnx_type m, ov_elem_type = io_elem_type m, ov_count = count\<rparr>]) rest))"

definition stamp_outputs :: "'n c_api \<Rightarrow> native_session \<Rightarrow> handle option list \<Rightarrow> slots \<Rightarrow> ('n, (zerror + unit) \<times> slots) native_op" where
  "stamp_outputs api s ps slots = stamp_loop api [] (zip ps (zip (ns_output_meta s) slots))"

text \<open>The arrays of handles are on the stack for few inputs and outputs and on the heap otherwise.\<close>

definition run_impl :: "'n c_api \<Rightarrow> native_session \<Rightarrow> handle option list \<Rightarrow> slots \<Rightarrow> handle \<Rightarrow> ('n, (zerror + unit) \<times> slots) native_op" where
  "run_impl api s inputs slots opts = match_result
     (and_then (check_input_count s (length inputs)) (\<lambda>_.
      and_then (check_output_count s (length slots) ''output slot count'') (\<lambda>_.
        run_raw api s inputs (length slots) opts)))
     (\<lambda>e. give (Inl e, slots)) (\<lambda>ps. stamp_outputs api s ps slots)"

definition session_run :: "'n c_api \<Rightarrow> native_session \<Rightarrow> handle option list \<Rightarrow> slots \<Rightarrow> ('n, (zerror + unit) \<times> slots) native_op" where
  "session_run api s inputs slots = run_impl api s inputs slots (mr_opts (ns_run_opts s))"

definition run_with :: "'n c_api \<Rightarrow> native_session \<Rightarrow> handle option list \<Rightarrow> slots \<Rightarrow> materialized \<Rightarrow> ('n, (zerror + unit) \<times> slots) native_op" where
  "run_with api s inputs slots m = match_result (check_run_options s m)
     (\<lambda>e. give (Inl e, slots)) (\<lambda>_. run_impl api s inputs slots (mr_opts m))"

definition run_array_with :: "'n c_api \<Rightarrow> native_session \<Rightarrow> handle option list \<Rightarrow> slots \<Rightarrow> materialized \<Rightarrow> ('n, (zerror + unit) \<times> slots) native_op" where
  "run_array_with api s inputs slots m = match_result
     (and_then (check_run_options s m) (\<lambda>_.
      and_then (check_input_count s (length inputs)) (\<lambda>_.
      and_then (check_output_count s (length slots) ''output slot count'') (\<lambda>_.
        run_raw api s inputs (length slots) (mr_opts m)))))
     (\<lambda>e. give (Inl e, slots)) (\<lambda>ps. stamp_outputs api s ps slots)"

definition run_array :: "'n c_api \<Rightarrow> native_session \<Rightarrow> handle option list \<Rightarrow> slots \<Rightarrow> ('n, (zerror + unit) \<times> slots) native_op" where
  "run_array api s inputs slots = run_array_with api s inputs slots (ns_run_opts s)"

subsection \<open>Prepared runs\<close>

record prepared_run =
  pr_session :: native_session
  pr_inputs :: "handle option list"
  pr_outputs :: slots

definition prepare_run :: "native_session \<Rightarrow> handle option list \<Rightarrow> ('n, prepared_run) native_op" where
  "prepare_run s inputs = and_then (check_input_count s (length inputs)) (\<lambda>_.
     give \<lparr>pr_session = s, pr_inputs = inputs, pr_outputs = replicate (output_count s) None\<rparr>)"

text \<open>The outputs of the run before are released first.\<close>

definition prepared_run_step :: "'n c_api \<Rightarrow> prepared_run \<Rightarrow> ('n, (zerror + unit) \<times> prepared_run) native_op" where
  "prepared_run_step api pr =
     (let cleared = map (\<lambda>_. None) (pr_outputs pr); s = pr_session pr
      in and_then (each (drop_slot api) (pr_outputs pr)) (\<lambda>_. and_then
           (match_result (run_raw api s (pr_inputs pr) (length cleared) (mr_opts (ns_run_opts s)))
             (\<lambda>e. give (Inl e, cleared)) (\<lambda>ps. stamp_outputs api s ps cleared))
           (\<lambda>(r, slots). give (r, pr\<lparr>pr_outputs := slots\<rparr>))))"

text \<open>\<open>prime_runs\<close> of an operation that keeps its object, whatever it returns.\<close>

fun prime_runs :: "('s \<Rightarrow> ('n, (zerror + unit) \<times> 's) native_op) \<Rightarrow> nat \<Rightarrow> 's \<Rightarrow> ('n, (zerror + unit) \<times> 's) native_op" where
  "prime_runs run 0 x = give (Inr (), x)"
| "prime_runs run (Suc n) x = and_then (run x) (\<lambda>(r, y). case r of Inl e \<Rightarrow> give (Inl e, y) | Inr _ \<Rightarrow> prime_runs run n y)"

definition prepared_prime :: "'n c_api \<Rightarrow> nat \<Rightarrow> prepared_run \<Rightarrow> ('n, (zerror + unit) \<times> prepared_run) native_op" where
  "prepared_prime api n pr = prime_runs (prepared_run_step api) n pr"

text \<open>Any calls on the object, one after the other, whatever the calls before returned.\<close>

fun repeat_calls :: "('c \<Rightarrow> 's \<Rightarrow> ('n, (zerror + unit) \<times> 's) native_op) \<Rightarrow> 'c list \<Rightarrow> 's \<Rightarrow> ('n, (zerror + unit) list \<times> 's) native_op" where
  "repeat_calls f [] x = give ([], x)"
| "repeat_calls f (c # cs) x = and_then (f c x) (\<lambda>(r, y). and_then (repeat_calls f cs y) (\<lambda>(rs, z). give (r # rs, z)))"

datatype prepared_call = Run_once | Prime_times nat

fun call_prepared :: "'n c_api \<Rightarrow> prepared_call \<Rightarrow> prepared_run \<Rightarrow> ('n, (zerror + unit) \<times> prepared_run) native_op" where
  "call_prepared api Run_once pr = prepared_run_step api pr"
| "call_prepared api (Prime_times n) pr = prepared_prime api n pr"

definition prepared_output :: "prepared_run \<Rightarrow> nat \<Rightarrow> zerror + owned_value option" where
  "prepared_output pr i = (if i < length (pr_outputs pr) then Inr (pr_outputs pr ! i)
     else Inl (local_error (''zrt: output index '' @ digits i @ '' out of range'')))"

definition prepared_drop :: "'n c_api \<Rightarrow> prepared_run \<Rightarrow> ('n, unit) native_op" where
  "prepared_drop api pr = each (drop_slot api) (pr_outputs pr)"

subsection \<open>Copies\<close>

definition count_mismatch :: "string \<Rightarrow> nat \<Rightarrow> nat \<Rightarrow> zerror" where
  "count_mismatch what m n = local_error (''zrt: '' @ what @ '' source/destination count mismatch: '' @ digits m @ '' vs '' @ digits n)"

definition copy_args :: "native_session \<Rightarrow> handle option list \<Rightarrow> handle option list \<Rightarrow> c_arg \<Rightarrow> c_arg list" where
  "copy_args s src dst stream = A_ptr (ns_env s) # map value_arg src @ map value_arg dst @ [stream, A_int (int (length src))]"

definition copy_tensor_handles_on_stream :: "'n c_api \<Rightarrow> native_session \<Rightarrow> handle option list \<Rightarrow> handle option list \<Rightarrow> sync_stream
    \<Rightarrow> ('n, unit) native_op" where
  "copy_tensor_handles_on_stream api s src dst stream = and_then (check_sync_stream s stream) (\<lambda>_.
     if length src \<noteq> length dst then raise (count_mismatch ''on-stream CopyTensors'' (length src) (length dst))
     else status api ''copy_tensors'' (copy_args s src dst (A_ptr (sy_ptr stream))))"

definition snapshot_is_host :: "memory_snapshot \<Rightarrow> bool" where
  "snapshot_is_host m = class_is_host_accessible (ms_class m)"

definition host_data_ptr :: "int \<Rightarrow> nat \<Rightarrow> string \<Rightarrow> zerror + int" where
  "host_data_ptr p len what = (if p = 0 then (if len = 0 then Inr 1 else Inl (local_error (''zrt: '' @ what @ '' pointer is null''))) else Inr p)"

text \<open>
  One copy through memory that the host can read; the bytes are in the engine's state, so the copy is a
  step of it.
\<close>

definition host_copy :: "'n c_api \<Rightarrow> handle option \<Rightarrow> handle option \<Rightarrow> ('n, bool) native_op" where
  "host_copy api src dst =
     and_then (tensor_memory_info api src) (\<lambda>src_info.
     and_then (tensor_memory_info api dst) (\<lambda>dst_info.
     if \<not> snapshot_is_host src_info \<or> \<not> snapshot_is_host dst_info then give False
     else and_then (query_int api ''get_tensor_size_in_bytes'' [value_arg src]) (\<lambda>src_bytes.
          and_then (query_int api ''get_tensor_size_in_bytes'' [value_arg dst]) (\<lambda>dst_bytes.
          if src_bytes \<noteq> dst_bytes
          then raise (local_error (''zrt: CopyTensors host fallback byte-size mismatch: source '' @ digits (nat src_bytes) @ '', destination '' @ digits (nat dst_bytes)))
          else and_then (query_int api ''get_tensor_data'' [value_arg src]) (\<lambda>src_data.
               and_then (query_int api ''get_tensor_mutable_data'' [value_arg dst]) (\<lambda>dst_data.
               and_then (lift_result (host_data_ptr src_data (nat src_bytes) ''CopyTensors source data'')) (\<lambda>p.
               and_then (lift_result (host_data_ptr dst_data (nat dst_bytes) ''CopyTensors destination data'')) (\<lambda>q.
               and_then (void_call api ''copy_nonoverlapping'' [A_int p, A_int q, A_int src_bytes]) (\<lambda>_. give True)))))))))"

fun try_host_copy :: "'n c_api \<Rightarrow> (handle option \<times> handle option) list \<Rightarrow> ('n, bool) native_op" where
  "try_host_copy api [] = give True"
| "try_host_copy api ((src, dst) # rest) = and_then (host_copy api src dst) (\<lambda>ok. if ok then try_host_copy api rest else give False)"

definition copy_tensor_handles :: "'n c_api \<Rightarrow> native_session \<Rightarrow> handle option list \<Rightarrow> handle option list \<Rightarrow> ('n, unit) native_op" where
  "copy_tensor_handles api s src dst =
     (if length src \<noteq> length dst then raise (count_mismatch ''CopyTensors'' (length src) (length dst))
      else match_result (status api ''copy_tensors'' (copy_args s src dst A_null))
        (\<lambda>e. and_then (try_host_copy api (zip src dst)) (\<lambda>copied. if copied then give () else raise e))
        give)"

definition copy_value_to_tensor_buffer :: "'n c_api \<Rightarrow> native_session \<Rightarrow> owned_value \<Rightarrow> handle option \<Rightarrow> ('n, unit) native_op" where
  "copy_value_to_tensor_buffer api s x dst = copy_tensor_handles api s [ov_value x] [dst]"

definition copy_input_to_tensor_buffer :: "'n c_api \<Rightarrow> native_session \<Rightarrow> handle option \<Rightarrow> handle option \<Rightarrow> ('n, unit) native_op" where
  "copy_input_to_tensor_buffer api s src dst = copy_tensor_handles api s [src] [dst]"

definition copy_value_on_stream :: "'n c_api \<Rightarrow> native_session \<Rightarrow> owned_value \<Rightarrow> handle option \<Rightarrow> sync_stream \<Rightarrow> ('n, unit) native_op" where
  "copy_value_on_stream api s x dst stream = copy_tensor_handles_on_stream api s [ov_value x] [dst] stream"

definition copy_input_on_stream :: "'n c_api \<Rightarrow> native_session \<Rightarrow> handle option \<Rightarrow> handle option \<Rightarrow> sync_stream \<Rightarrow> ('n, unit) native_op" where
  "copy_input_on_stream api s src dst stream = copy_tensor_handles_on_stream api s [src] [dst] stream"

subsection \<open>Ownership\<close>

definition slot_handles :: "slots \<Rightarrow> handle set" where
  "slot_handles xs = pointees (map slot_ptr xs)"

definition slots_apart :: "slots \<Rightarrow> bool" where
  "slots_apart xs \<longleftrightarrow> apart (map slot_ptr xs)"

lemma slot_ptr_simps [simp]: "slot_ptr None = None" "slot_ptr (Some x) = ov_value x"
  by (simp_all add: slot_ptr_def)

lemma and_then_unit [simp]: "and_then (give a) f = f a"
  by (simp add: and_then_def give_def fun_eq_iff)

text \<open>What the caller hands back is as it was handed in.\<close>

lemma owns_keep: "G a = C \<Longrightarrow> accounts B C (give a) G"
  by (rule ownsI) (auto simp: give_def)

lemma owns_match_keep:
  assumes "accounts (B \<union> D) {} m (\<lambda>_. {})" "\<And>a. accounts B D (ok a) G" "\<And>e. accounts B D (err e) G"
  shows "accounts B D (match_result m err ok) G"
  using owns_match [of B D "{}" m "\<lambda>_. {}" "\<lambda>_. True" ok G err, OF _ returns_any] assms by simp

lemma returns_weaken: "returns P m \<Longrightarrow> (\<And>a. P a \<Longrightarrow> Q a) \<Longrightarrow> returns Q m"
  unfolding returns_def by blast

lemma returns_match:
  assumes "returns P m" "\<And>a. P a \<Longrightarrow> returns Q (ok a)" "\<And>e. returns Q (err e)"
  shows "returns Q (match_result m err ok)"
  using assms unfolding returns_def match_result_def by (auto split: prod.splits sum.splits) blast+

lemma owns_stamped_count:
  assumes "null_on_error api" "set_option p \<subseteq> B"
  shows "accounts B {} (stamped_count api m p) (\<lambda>_. {})"
proof -
  have "accounts B {} (and_then (tensor_type_and_shape api p) (\<lambda>t. then_release api t (tsi_element_count api t))) (\<lambda>_. {})"
    by (rule owns_and_then [OF owns_tensor_type_and_shape [OF assms] owns_then_release]) (simp add: owns_tsi_element_count)
  then show ?thesis unfolding stamped_count_def by (cases "io_count m") (simp_all add: owns_give)
qed

lemma owns_drop_slot_then:
  assumes "accounts B D m G" "set_option (slot_ptr x) \<inter> D = {}"
  shows "accounts B (set_option (slot_ptr x) \<union> D) (and_then (drop_slot api x) (\<lambda>_. m)) G"
proof (cases "slot_ptr x")
  case None
  then have "and_then (drop_slot api x) (\<lambda>_. m) = m" by (simp add: drop_slot_def if_some_def and_then_def give_def fun_eq_iff)
  then show ?thesis using assms None by simp
next
  case (Some h)
  then show ?thesis using owns_drop_then [OF assms(1), of h api] assms(2) by (simp add: drop_slot_def if_some_def)
qed

lemma owns_drop_slots_then:
  assumes "accounts B D m G" "slots_apart xs" "slot_handles xs \<inter> D = {}"
  shows "accounts B (slot_handles xs \<union> D) (and_then (each (drop_slot api) xs) (\<lambda>_. m)) G"
  using assms(2,3)
proof (induction xs)
  case Nil
  then show ?case using assms(1) by (simp add: slot_handles_def each_def and_then_def give_def)
next
  case (Cons x xs)
  have rest: "accounts B (slot_handles xs \<union> D) (and_then (each (drop_slot api) xs) (\<lambda>_. m)) G"
    using Cons by (simp add: slots_apart_def slot_handles_def apart_Cons Int_Un_distrib2)
  have "set_option (slot_ptr x) \<inter> (slot_handles xs \<union> D) = {}"
    using Cons.prems by (auto simp: slots_apart_def slot_handles_def apart_Cons)
  from owns_drop_slot_then [OF rest this, of api] show ?case by (simp add: each_def slot_handles_def and_then_assoc Un_assoc)
qed

text \<open>The pointers still to be stamped, and the slots behind them.\<close>

lemma owns_stamp_loop:
  assumes "null_on_error api"
  shows "apart (map slot_ptr filled @ map fst xs @ map (slot_ptr \<circ> snd \<circ> snd) xs) \<Longrightarrow>
    accounts B (slot_handles filled \<union> pointees (map fst xs) \<union> slot_handles (map (snd \<circ> snd) xs)) (stamp_loop api filled xs) (\<lambda>(_, out). slot_handles out)"
proof (induction xs arbitrary: filled)
  case Nil
  show ?case by (simp add: owns_keep slot_handles_def)
next
  case (Cons x xs)
  obtain p m old where x: "x = (p, m, old)" by (metis prod_cases3)
  let ?olds = "map (snd \<circ> snd) xs"
  let ?new = "\<lambda>count. Some \<lparr>ov_value = p, ov_onnx_type = io_onnx_type m, ov_elem_type = io_elem_type m, ov_count = count\<rparr>"
  have new: "slot_ptr (?new count) = p" for count by simp
  have olds: "map slot_ptr ?olds = map (slot_ptr \<circ> snd \<circ> snd) xs" by simp
  let ?all = "slot_handles filled \<union> pointees (map fst ((p, m, old) # xs)) \<union> slot_handles (map (snd \<circ> snd) ((p, m, old) # xs))"
  have apart: "apart (map slot_ptr (filled @ [?new count]) @ map fst xs @ map (slot_ptr \<circ> snd \<circ> snd) xs)"
    "set_option (slot_ptr old) \<inter> (slot_handles (filled @ [?new count]) \<union> pointees (map fst xs) \<union> slot_handles ?olds) = {}"
    "apart (p # map fst xs)" "pointees (p # map fst xs) \<inter> (slot_handles filled \<union> slot_handles (old # ?olds)) = {}" for count
    using Cons.prems unfolding x slot_handles_def by (auto simp: new apart_append apart_Cons comp_def)
  show ?case unfolding x stamp_loop.simps
  proof (rule owns_match_keep)
    show "accounts (B \<union> ?all) {} (stamped_count api m p) (\<lambda>_. {})" by (rule owns_stamped_count [OF assms]) auto
  next
    fix count
    from owns_drop_slot_then [OF Cons.IH [OF apart(1) [of count]] apart(2), where api = api]
    show "accounts B ?all (and_then (drop_slot api old) (\<lambda>_. stamp_loop api (filled @ [?new count]) xs)) (\<lambda>(_, out). slot_handles out)"
      by (rule back_subst [where P = "\<lambda>C. accounts B C _ _"]) (auto simp: slot_handles_def new)
  next
    fix e
    have "accounts B (slot_handles filled \<union> slot_handles (old # ?olds)) (give (Inl e, filled @ old # ?olds)) (\<lambda>(_, out). slot_handles out)"
      by (rule owns_keep) (simp add: slot_handles_def)
    from owns_release_all_then [OF apart(3,4) this, of api]
    show "accounts B ?all (and_then (release_all api (p # map fst xs)) (\<lambda>_. give (Inl e, filled @ old # ?olds))) (\<lambda>(_, out). slot_handles out)"
      by (rule back_subst [where P = "\<lambda>C. accounts B C _ _"]) (auto simp: slot_handles_def)
  qed
qed

subsection \<open>What the slots hold\<close>

text \<open>The values of a run: the pointers in order, with the cached types.\<close>

definition stamped :: "handle option list \<Rightarrow> cached_io list \<Rightarrow> owned_value list \<Rightarrow> bool" where
  "stamped ps ms xs \<longleftrightarrow> map ov_value xs = ps \<and> map ov_onnx_type xs = map io_onnx_type ms \<and> map ov_elem_type xs = map io_elem_type ms"

lemma returns_stamp_loop:
  "apart (map slot_ptr filled @ map fst xs @ map (slot_ptr \<circ> snd \<circ> snd) xs) \<Longrightarrow>
   returns (\<lambda>(r, out). slots_apart out \<and> length out = length filled + length xs
     \<and> (r = Inr () \<longrightarrow> (\<exists>vs. out = filled @ map Some vs \<and> stamped (map fst xs) (map (fst \<circ> snd) xs) vs))) (stamp_loop api filled xs)"
proof (induction xs arbitrary: filled)
  case Nil
  then show ?case by (auto simp: returns_def give_def slots_apart_def stamped_def)
next
  case (Cons x xs)
  obtain p m old where x: "x = (p, m, old)" by (metis prod_cases3)
  let ?new = "\<lambda>count. \<lparr>ov_value = p, ov_onnx_type = io_onnx_type m, ov_elem_type = io_elem_type m, ov_count = count\<rparr>"
  let ?Q = "\<lambda>(r, out). slots_apart out \<and> length out = length filled + length (x # xs)
     \<and> (r = Inr () \<longrightarrow> (\<exists>vs. out = filled @ map Some vs \<and> stamped (map fst (x # xs)) (map (fst \<circ> snd) (x # xs)) vs))"
  have apart: "apart (map slot_ptr (filled @ [Some (?new count)]) @ map fst xs @ map (slot_ptr \<circ> snd \<circ> snd) xs)"
    "slots_apart (filled @ old # map (snd \<circ> snd) xs)" for count
    using Cons.prems unfolding x slots_apart_def by (auto simp: apart_append apart_Cons comp_def)
  have "returns ?Q (stamp_loop api (filled @ [Some (?new count)]) xs)" for count
  proof (rule returns_weaken [OF Cons.IH [OF apart(1) [of count]]])
    fix q :: "(zerror + unit) \<times> slots"
    obtain r out where q: "q = (r, out)" by fastforce
    show "?Q q" if rest: "case q of (r, out) \<Rightarrow> slots_apart out \<and> length out = length (filled @ [Some (?new count)]) + length xs
       \<and> (r = Inr () \<longrightarrow> (\<exists>vs. out = (filled @ [Some (?new count)]) @ map Some vs \<and> stamped (map fst xs) (map (fst \<circ> snd) xs) vs))"
    proof -
      have "\<exists>vs. out = filled @ map Some vs \<and> stamped (map fst (x # xs)) (map (fst \<circ> snd) (x # xs)) vs" if ok: "r = Inr ()"
      proof -
        obtain vs where vs: "out = (filled @ [Some (?new count)]) @ map Some vs" "stamped (map fst xs) (map (fst \<circ> snd) xs) vs"
          using rest ok q by auto
        then show ?thesis by (intro exI [of _ "?new count # vs"]) (simp add: stamped_def x)
      qed
      then show ?thesis using rest q by simp
    qed
  qed
  moreover have "returns ?Q (give (Inl e, filled @ old # map (snd \<circ> snd) xs))" for e
    by (rule returns_give) (simp add: apart(2))
  ultimately show ?case unfolding x stamp_loop.simps by (intro returns_match [OF returns_any] returns_seq) (simp_all only: x)
qed

lemma zip_parts:
  "length ps = length ms \<Longrightarrow> length ms = length xs \<Longrightarrow> map fst (zip ps (zip ms xs)) = ps"
  "length ps = length ms \<Longrightarrow> length ms = length xs \<Longrightarrow> map (fst \<circ> snd) (zip ps (zip ms xs)) = ms"
  "length ps = length ms \<Longrightarrow> length ms = length xs \<Longrightarrow> map (snd \<circ> snd) (zip ps (zip ms xs)) = xs"
  by (simp_all flip: map_map)

lemma owns_stamp_outputs:
  assumes "null_on_error api" "cached_wf s" "length slots = output_count s" "length ps = length slots"
    and "apart ps" "slots_apart slots" "pointees ps \<inter> slot_handles slots = {}"
  shows "accounts B (pointees ps \<union> slot_handles slots) (stamp_outputs api s ps slots) (\<lambda>(_, out). slot_handles out)"
    and "returns (\<lambda>(r, out). slots_apart out \<and> length out = length slots
          \<and> (r = Inr () \<longrightarrow> (\<exists>vs. out = map Some vs \<and> stamped ps (ns_output_meta s) vs))) (stamp_outputs api s ps slots)"
proof -
  have len: "length ps = length (ns_output_meta s)" "length (ns_output_meta s) = length slots" using assms by (simp_all add: cached_wf_def)
  let ?xs = "zip ps (zip (ns_output_meta s) slots)"
  have slots: "map (slot_ptr \<circ> snd \<circ> snd) ?xs = map slot_ptr slots" using zip_parts(3) [OF len] by (metis map_map comp_assoc)
  have apart: "apart (map slot_ptr [] @ map fst ?xs @ map (slot_ptr \<circ> snd \<circ> snd) ?xs)"
    using assms(5-7) unfolding slots zip_parts(1) [OF len] by (simp add: apart_append slots_apart_def slot_handles_def)
  show "accounts B (pointees ps \<union> slot_handles slots) (stamp_outputs api s ps slots) (\<lambda>(_, out). slot_handles out)"
    using owns_stamp_loop [OF assms(1) apart, of B] unfolding stamp_outputs_def zip_parts [OF len] by (simp add: slot_handles_def)
  show "returns (\<lambda>(r, out). slots_apart out \<and> length out = length slots
          \<and> (r = Inr () \<longrightarrow> (\<exists>vs. out = map Some vs \<and> stamped ps (ns_output_meta s) vs))) (stamp_outputs api s ps slots)"
    using returns_stamp_loop [OF apart, of api] len unfolding stamp_outputs_def zip_parts [OF len] by simp
qed

subsection \<open>Guarded runs\<close>

lemma run_args_handles: "set (handles_of (run_args s opts inputs)) = {ns_handle s, opts} \<union> pointees inputs"
  by (simp add: run_args_def)

lemma run_raw_facts:
  assumes "no_values_on_error api" "{ns_handle s, opts} \<union> pointees inputs \<subseteq> B"
  shows "accounts B {} (run_raw api s inputs n opts) pointees" "returns (\<lambda>ps. apart ps \<and> length ps = n) (run_raw api s inputs n opts)"
proof -
  show "accounts B {} (run_raw api s inputs n opts) pointees"
    unfolding run_raw_def by (rule owns_fill_values [OF assms(1)]) (simp add: run_args_handles assms(2) [simplified])
  show "returns (\<lambda>ps. apart ps \<and> length ps = n) (run_raw api s inputs n opts)"
    by (auto simp: returns_def run_raw_def fill_values_def Let_def check_def apart_numbered overwrite_def split: prod.splits option.splits)
qed

lemma owns_checks:
  "accounts B {} (check_input_count s n) (\<lambda>_. {})" "accounts B {} (check_output_count s n what) (\<lambda>_. {})"
  "accounts B {} (check_run_options s m) (\<lambda>_. {})" "accounts B {} (check_sync_stream s stream) (\<lambda>_. {})"
  unfolding check_input_count_def check_output_count_def check_run_options_def check_sync_stream_def
  by (intro owns_if owns_raise owns_give)+

text \<open>A run after its checks, as all variants have it.\<close>

definition guarded_run :: "'n c_api \<Rightarrow> native_session \<Rightarrow> ('n, unit) native_op \<Rightarrow> handle option list \<Rightarrow> slots \<Rightarrow> handle
    \<Rightarrow> ('n, (zerror + unit) \<times> slots) native_op" where
  "guarded_run api s checks inputs slots opts = match_result (and_then checks (\<lambda>_. run_raw api s inputs (length slots) opts))
     (\<lambda>e. give (Inl e, slots)) (\<lambda>ps. stamp_outputs api s ps slots)"

lemma owns_guarded_run:
  assumes "null_on_error api" "no_values_on_error api" "cached_wf s" "slots_apart slots"
    and "\<And>B. accounts B {} checks (\<lambda>_. {})" "returns (\<lambda>_. length slots = output_count s) checks"
    and "{ns_handle s, opts} \<union> pointees inputs \<subseteq> B"
  shows "accounts B (slot_handles slots) (guarded_run api s checks inputs slots opts) (\<lambda>(_, out). slot_handles out)"
proof -
  let ?raw = "and_then checks (\<lambda>_. run_raw api s inputs (length slots) opts)"
  have raw: "accounts (B \<union> slot_handles slots) {} ?raw pointees"
    "returns (\<lambda>ps. apart ps \<and> length ps = length slots \<and> length slots = output_count s) ?raw"
    using run_raw_facts [OF assms(2), of s opts inputs "B \<union> slot_handles slots"] assms(7)
    by (auto intro!: owns_seq [OF assms(5)] returns_and_then [OF assms(6)] intro: returns_weaken)
  have "accounts B ({} \<union> slot_handles slots) (guarded_run api s checks inputs slots opts) (\<lambda>(_, out). slot_handles out)"
    unfolding guarded_run_def
    by (rule owns_match [OF raw]) (auto intro: owns_keep owns_stamp_outputs(1) [OF assms(1,3)] assms(4))
  then show ?thesis by simp
qed

lemma guarded_run_result:
  assumes "null_on_error api" "no_values_on_error api" "cached_wf s" "slots_apart slots"
    and "\<And>B. accounts B {} checks (\<lambda>_. {})" "returns (\<lambda>_. length slots = output_count s) checks"
    and "{ns_handle s, opts} \<union> pointees inputs \<subseteq> live w" "native_wf w" "slot_handles slots \<subseteq> live w"
    and "guarded_run api s checks inputs slots opts w = (Inr (r, out), v)"
  shows "slots_apart out \<and> length out = length slots
    \<and> (r = Inr () \<longrightarrow> (\<exists>ps vs. out = map Some vs \<and> stamped ps (ns_output_meta s) vs \<and> pointees ps \<inter> live w = {}))"
proof -
  let ?raw = "and_then checks (\<lambda>_. run_raw api s inputs (length slots) opts)"
  have raw: "accounts (live w) {} ?raw pointees"
    "returns (\<lambda>ps. apart ps \<and> length ps = length slots \<and> length slots = output_count s) ?raw"
    using run_raw_facts [OF assms(2), of s opts inputs "live w"] assms(7)
    by (auto intro!: owns_seq [OF assms(5)] returns_and_then [OF assms(6)] intro: returns_weaken)
  obtain q u where m: "?raw w = (q, u)" by fastforce
  show ?thesis
  proof (cases q)
    case (Inl e)
    then show ?thesis using assms(4,10) m by (auto simp: guarded_run_def match_result_def give_def)
  next
    case (Inr ps)
    then have st: "stamp_outputs api s ps slots u = (Inr (r, out), v)" using assms(10) m by (simp add: guarded_run_def match_result_def)
    have ps: "apart ps" "length ps = length slots" "length slots = output_count s" using returnsD [OF raw(2)] m Inr by auto
    have fresh: "pointees ps \<inter> live w = {}" using ownsD(4) [OF raw(1) assms(8) subset_refl _ _ m] Inr by simp
    then have "pointees ps \<inter> slot_handles slots = {}" using assms(9) by auto
    from returnsD [OF owns_stamp_outputs(2) [OF assms(1,3) ps(3,2,1) assms(4) this] st] fresh show ?thesis by auto
  qed
qed

text \<open>No run ends in an error of its own: it hands the slots back with its result.\<close>

lemma succeeds_and_then: "succeeds m \<Longrightarrow> (\<And>a. succeeds (f a)) \<Longrightarrow> succeeds (and_then m f)"
  unfolding succeeds_def and_then_def by (auto split: prod.splits sum.splits)

lemma succeeds_in_order: "(\<And>m. m \<in> set ms \<Longrightarrow> succeeds m) \<Longrightarrow> succeeds (in_order ms)"
  by (induction ms) (auto intro: succeeds_give succeeds_and_then)

lemma succeeds_drops: "succeeds (drop_handle api h)" "succeeds (if_some p (drop_handle api))" "succeeds (drop_slot api x)"
    "succeeds (release_all api ps)" "succeeds (each (drop_slot api) xs)"
proof -
  show one: "succeeds (drop_handle api h)" for h by (simp add: succeeds_def drop_handle_def)
  show opt: "succeeds (if_some p (drop_handle api))" for p by (cases p) (simp_all add: if_some_def succeeds_give one)
  show "succeeds (drop_slot api x)" for x unfolding drop_slot_def by (rule opt)
  show "succeeds (release_all api ps)" unfolding release_all_def each_def by (rule succeeds_in_order) (auto intro: opt)
  show "succeeds (each (drop_slot api) xs)" unfolding each_def by (rule succeeds_in_order) (auto simp: drop_slot_def intro: opt)
qed

lemma succeeds_stamp_loop: "succeeds (stamp_loop api filled xs)"
proof (induction api filled xs rule: stamp_loop.induct)
  case (2 api filled p m old rest)
  show ?case unfolding stamp_loop.simps
    by (intro succeeds_match succeeds_and_then succeeds_drops succeeds_give "2.IH")
qed (simp add: succeeds_give)

lemma succeeds_guarded_run: "succeeds (guarded_run api s checks inputs slots opts)"
  unfolding guarded_run_def stamp_outputs_def by (intro succeeds_match succeeds_give succeeds_stamp_loop)

lemma succeedsD: "succeeds m \<Longrightarrow> \<exists>a v. m w = (Inr a, v)"
  unfolding succeeds_def by (cases "m w", cases "fst (m w)") auto

lemma run_with_guarded:
  "run_array_with api s inputs slots m = guarded_run api s (and_then (check_run_options s m) (\<lambda>_.
      and_then (check_input_count s (length inputs)) (\<lambda>_. check_output_count s (length slots) ''output slot count'')))
      inputs slots (mr_opts m)"
  "run_with api s inputs slots m = run_array_with api s inputs slots m"
proof -
  show "run_array_with api s inputs slots m = guarded_run api s (and_then (check_run_options s m) (\<lambda>_.
      and_then (check_input_count s (length inputs)) (\<lambda>_. check_output_count s (length slots) ''output slot count'')))
      inputs slots (mr_opts m)"
    by (simp add: run_array_with_def guarded_run_def and_then_assoc)
  show "run_with api s inputs slots m = run_array_with api s inputs slots m"
    by (auto simp: run_with_def run_impl_def run_array_with_def match_result_def and_then_def fun_eq_iff split: prod.splits sum.splits)
qed

subsection \<open>Theorems on runs\<close>

definition run_alive :: "native_session \<Rightarrow> materialized \<Rightarrow> handle option list \<Rightarrow> slots \<Rightarrow> 'n native_world \<Rightarrow> bool" where
  "run_alive s m inputs slots w \<longleftrightarrow> (let used = {ns_handle s, mr_opts m} \<union> pointees inputs in
     native_wf w \<and> used \<subseteq> live w \<and> slot_handles slots \<subseteq> live w \<and> slots_apart slots \<and> used \<inter> slot_handles slots = {})"

text \<open>
  C5. A run with live inputs changes the ledger only in its output slots: the values that it overwrites
  are released and exactly the values in the returned slots are live, also when reading the type of an
  output fails half way. On success every slot holds a fresh value of the type the session has cached; a wrong
  number of inputs or slots, or options of another environment, are refused before the engine is called;
  and the variant for fixed-size arrays behaves the same.
\<close>

theorem runs_balanced:
  assumes "null_on_error api" "no_values_on_error api" "cached_wf s" "run_alive s m inputs slots w"
  shows "spent w (slot_handles slots) (\<lambda>(_, out). slot_handles out) (run_with api s inputs slots m w)
    \<and> (\<exists>r out v. run_with api s inputs slots m w = (Inr (r, out), v) \<and> slots_apart out \<and> length out = length slots
        \<and> (r = Inr () \<longrightarrow> (\<exists>ps vs. out = map Some vs \<and> stamped ps (ns_output_meta s) vs \<and> pointees ps \<inter> live w = {})))
    \<and> (length inputs \<noteq> input_count s \<or> length slots \<noteq> output_count s \<or> \<not> shares_environment (ns_env s) m \<longrightarrow>
        (\<exists>e. run_with api s inputs slots m w = (Inr (Inl e, slots), w)))
    \<and> run_array_with api s inputs slots m w = run_with api s inputs slots m w"
proof -
  let ?checks = "and_then (check_run_options s m) (\<lambda>_.
      and_then (check_input_count s (length inputs)) (\<lambda>_. check_output_count s (length slots) ''output slot count''))"
  have checks: "accounts B {} ?checks (\<lambda>_. {})" for B by (intro owns_seq owns_checks)
  have counted: "returns (\<lambda>_. length slots = output_count s) ?checks"
    by (auto simp: returns_def and_then_def check_output_count_def raise_def give_def split: prod.splits sum.splits if_splits)
  have alive: "native_wf w" "{ns_handle s, mr_opts m} \<union> pointees inputs \<subseteq> live w" "slot_handles slots \<subseteq> live w" "slots_apart slots"
    "({ns_handle s, mr_opts m} \<union> pointees inputs) \<inter> slot_handles slots = {}"
    using assms(4) unfolding run_alive_def Let_def by blast+
  obtain r out v where run: "guarded_run api s ?checks inputs slots (mr_opts m) w = (Inr (r, out), v)"
    using succeedsD [OF succeeds_guarded_run] by (metis surj_pair)
  note acc = owns_guarded_run [OF assms(1-3) alive(4) checks counted subset_refl, where opts = "mr_opts m" and inputs = inputs]
  have "spent w (slot_handles slots) (\<lambda>(_, out). slot_handles out) (guarded_run api s ?checks inputs slots (mr_opts m) w)"
    using ownsD [OF acc alive(1,2,3,5) run] by (simp add: spent_def run)
  moreover have "\<exists>e. guarded_run api s ?checks inputs slots (mr_opts m) w = (Inr (Inl e, slots), w)"
    if "length inputs \<noteq> input_count s \<or> length slots \<noteq> output_count s \<or> \<not> shares_environment (ns_env s) m"
    using that by (auto simp: guarded_run_def match_result_def and_then_def check_run_options_def check_input_count_def
        check_output_count_def raise_def give_def)
  ultimately show ?thesis
    using guarded_run_result [OF assms(1-3) alive(4) checks counted alive(2,1,3) run] run unfolding run_with_guarded by blast
qed

definition prepared_ok :: "native_session \<Rightarrow> handle option list \<Rightarrow> prepared_run \<Rightarrow> bool" where
  "prepared_ok s inputs pr \<longleftrightarrow> pr_session pr = s \<and> pr_inputs pr = inputs \<and> length (pr_outputs pr) = output_count s \<and> slots_apart (pr_outputs pr)"

definition prepared_uses :: "native_session \<Rightarrow> handle option list \<Rightarrow> handle set" where
  "prepared_uses s inputs = {ns_handle s, mr_opts (ns_run_opts s)} \<union> pointees inputs"

definition pr_handles :: "prepared_run \<Rightarrow> handle set" where
  "pr_handles pr = slot_handles (pr_outputs pr)"

lemma slots_cleared [simp]: "slot_handles (map (\<lambda>_. None) xs) = {}" "slots_apart (map (\<lambda>_. None) xs)"
  by (induction xs) (simp_all add: slot_handles_def slots_apart_def)

lemma prepared_step_facts:
  assumes "null_on_error api" "no_values_on_error api" "cached_wf s" "prepared_ok s inputs pr" "prepared_uses s inputs \<subseteq> B"
  shows "accounts B (pr_handles pr) (prepared_run_step api pr) (\<lambda>(_, pr'). pr_handles pr')"
    and "returns (\<lambda>(_, pr'). prepared_ok s inputs pr') (prepared_run_step api pr)"
proof -
  let ?cleared = "map (\<lambda>_. None) (pr_outputs pr) :: slots"
  let ?run = "guarded_run api s (give ()) inputs ?cleared (mr_opts (ns_run_opts s))"
  have ok: "pr_session pr = s" "pr_inputs pr = inputs" "length ?cleared = output_count s" "slots_apart (pr_outputs pr)"
    using assms(4) by (simp_all add: prepared_ok_def)
  have step: "prepared_run_step api pr = and_then (each (drop_slot api) (pr_outputs pr)) (\<lambda>_.
      and_then ?run (\<lambda>(r, slots). give (r, pr\<lparr>pr_outputs := slots\<rparr>)))"
    by (simp add: prepared_run_step_def guarded_run_def Let_def ok)
  have "accounts B (slot_handles ?cleared) ?run (\<lambda>(_, out). slot_handles out)"
    by (rule owns_guarded_run [OF assms(1-3)])
      (use assms(5) in \<open>auto simp: owns_give ok(3) [simplified] prepared_uses_def intro: returns_give\<close>)
  then have "accounts B {} ?run (\<lambda>(_, out). slot_handles out)" by simp
  then have "accounts B {} (and_then ?run (\<lambda>(r, slots). give (r, pr\<lparr>pr_outputs := slots\<rparr>))) (\<lambda>(_, pr'). pr_handles pr')"
    by (rule owns_and_then) (auto intro: owns_keep simp: pr_handles_def)
  from owns_drop_slots_then [OF this ok(4), of api]
  show "accounts B (pr_handles pr) (prepared_run_step api pr) (\<lambda>(_, pr'). pr_handles pr')"
    unfolding step pr_handles_def by simp
  have raw: "returns (\<lambda>ps. apart ps \<and> length ps = length ?cleared) (and_then (give ()) (\<lambda>_. run_raw api s inputs (length ?cleared) (mr_opts (ns_run_opts s))))"
    by (intro returns_seq run_raw_facts(2) [OF assms(2) subset_refl])
  have out: "returns (\<lambda>(r, out). slots_apart out \<and> length out = output_count s) ?run"
    unfolding guarded_run_def
  proof (rule returns_match [OF raw])
    fix ps :: "handle option list"
    assume "apart ps \<and> length ps = length ?cleared"
    then show "returns (\<lambda>(r, out). slots_apart out \<and> length out = output_count s) (stamp_outputs api s ps ?cleared)"
      by (intro returns_weaken [OF owns_stamp_outputs(2) [OF assms(1,3) ok(3)]]) (use ok(3) in auto)
  next
    fix e
    show "returns (\<lambda>(r, out). slots_apart out \<and> length out = output_count s) (give (Inl e, ?cleared))"
      by (rule returns_give) (use ok(3) in simp)
  qed
  have again: "returns (\<lambda>(_, pr'). prepared_ok s inputs pr') ((\<lambda>(r, slots). give (r, pr\<lparr>pr_outputs := slots\<rparr>)) a)"
    if "(\<lambda>(r, out). slots_apart out \<and> length out = output_count s) a" for a :: "(zerror + unit) \<times> slots"
    using that by (cases a) (simp add: returns_def give_def prepared_ok_def ok)
  show "returns (\<lambda>(_, pr'). prepared_ok s inputs pr') (prepared_run_step api pr)"
    unfolding step by (rule returns_seq [OF returns_and_then [OF out again]])
qed

text \<open>Priming keeps what one run keeps.\<close>

lemma prime_facts:
  assumes step: "\<And>x. ok x \<Longrightarrow> accounts B (H x) (run x) (\<lambda>(_, y). H y)" "\<And>x. ok x \<Longrightarrow> returns (\<lambda>(_, y). ok y) (run x)"
  shows "ok x \<Longrightarrow> accounts B (H x) (prime_runs run n x) (\<lambda>(_, y). H y) \<and> returns (\<lambda>(_, y). ok y) (prime_runs run n x)"
proof (induction n arbitrary: x)
  case 0
  then show ?case by (simp add: owns_keep returns_give)
next
  case (Suc n)
  let ?rest = "\<lambda>(r, y). case r of Inl e \<Rightarrow> give (Inl e, y) | Inr _ \<Rightarrow> prime_runs run n y"
  have rest: "accounts B ((\<lambda>(_, y). H y) a) (?rest a) (\<lambda>(_, y). H y) \<and> returns (\<lambda>(_, y). ok y) (?rest a)"
    if "(\<lambda>(_, y). ok y) a" for a
    using that Suc.IH by (cases a; cases "fst a") (auto intro: owns_keep returns_give)
  show ?case unfolding prime_runs.simps
    by (intro conjI owns_bind [OF step(1) step(2)] returns_and_then [OF step(2)] Suc.prems) (use rest in blast)+
qed

lemma succeeds_prime: "(\<And>x. succeeds (run x)) \<Longrightarrow> succeeds (prime_runs run n x)"
  by (induction n arbitrary: x) (auto intro!: succeeds_give succeeds_and_then split: sum.splits)

lemma succeeds_prepared_step: "succeeds (prepared_run_step api pr)"
  unfolding prepared_run_step_def Let_def stamp_outputs_def
  by (intro succeeds_and_then succeeds_drops succeeds_match succeeds_give succeeds_stamp_loop) (auto intro: succeeds_give)

text \<open>So do any calls, each after a success or a failure of those before.\<close>

lemma repeat_facts:
  assumes step: "\<And>c x. ok x \<Longrightarrow> accounts B (H x) (f c x) (\<lambda>(_, y). H y)" "\<And>c x. ok x \<Longrightarrow> returns (\<lambda>(_, y). ok y) (f c x)"
  shows "ok x \<Longrightarrow> accounts B (H x) (repeat_calls f cs x) (\<lambda>(_, y). H y)
    \<and> returns (\<lambda>(rs, y). ok y \<and> length rs = length cs) (repeat_calls f cs x)"
proof (induction cs arbitrary: x)
  case Nil
  then show ?case by (simp add: owns_keep returns_give)
next
  case (Cons c cs)
  let ?rest = "\<lambda>(r, y). and_then (repeat_calls f cs y) (\<lambda>(rs, z). give (r # rs, z))"
  have rest: "accounts B ((\<lambda>(_, y). H y) a) (?rest a) (\<lambda>(_, y). H y) \<and> returns (\<lambda>(rs, y). ok y \<and> length rs = Suc (length cs)) (?rest a)"
    if "(\<lambda>(_, y). ok y) a" for a
  proof (cases a)
    case (Pair r y)
    then have y: "ok y" using that by simp
    show ?thesis unfolding Pair prod.case
    proof
      show "accounts B (H y) (and_then (repeat_calls f cs y) (\<lambda>(rs, z). give (r # rs, z))) (\<lambda>(_, y). H y)"
        by (rule owns_and_then [OF conjunct1 [OF Cons.IH [OF y]]]) (auto intro: owns_keep split: prod.split)
      show "returns (\<lambda>(rs, y). ok y \<and> length rs = Suc (length cs)) (and_then (repeat_calls f cs y) (\<lambda>(rs, z). give (r # rs, z)))"
        by (rule returns_and_then [OF conjunct2 [OF Cons.IH [OF y]]]) (auto intro: returns_give split: prod.split)
    qed
  qed
  show ?case unfolding repeat_calls.simps list.size(4)
    by (intro conjI owns_bind [OF step(1) step(2)] returns_and_then [OF step(2)] Cons.prems) (use rest in \<open>simp; blast\<close>)+
qed

lemma succeeds_repeat: "(\<And>c x. succeeds (f c x)) \<Longrightarrow> succeeds (repeat_calls f cs x)"
  by (induction cs arbitrary: x) (auto intro!: succeeds_give succeeds_and_then)

lemma prepared_call_facts:
  assumes "null_on_error api" "no_values_on_error api" "cached_wf s" "prepared_ok s inputs pr"
  shows "accounts (prepared_uses s inputs) (pr_handles pr) (call_prepared api c pr) (\<lambda>(_, pr'). pr_handles pr')
    \<and> returns (\<lambda>(_, pr'). prepared_ok s inputs pr') (call_prepared api c pr)"
proof (cases c)
  case Run_once
  then show ?thesis using prepared_step_facts [OF assms(1-4) subset_refl] by simp
next
  case (Prime_times n)
  show ?thesis unfolding Prime_times call_prepared.simps prepared_prime_def
    by (rule prime_facts [OF prepared_step_facts(1) [OF assms(1-3) _ subset_refl] prepared_step_facts(2) [OF assms(1-3) _ subset_refl] assms(4)])
qed


text \<open>Copies borrow their values.\<close>

lemma owns_copy_tensor_handles:
  assumes "pointees src \<subseteq> B" "pointees dst \<subseteq> B"
  shows "accounts B {} (copy_tensor_handles api s src dst) (\<lambda>_. {})"
    and "accounts B {} (copy_tensor_handles_on_stream api s src dst stream) (\<lambda>_. {})"
proof -
  have args: "set (handles_of (copy_args s src dst (A_ptr p))) = pointees src \<union> pointees dst"
    "set (handles_of (copy_args s src dst A_null)) = pointees src \<union> pointees dst" for p
    by (simp_all add: copy_args_def)
  have one: "accounts B {} (host_copy api p q) (\<lambda>_. {})" if "set_option p \<subseteq> B" "set_option q \<subseteq> B" for p q
    unfolding host_copy_def
    by (intro owns_seq owns_tensor_memory(1) owns_if owns_raise owns_give owns_query_int owns_lift owns_void_call) (use that in simp_all)
  have all: "accounts B {} (try_host_copy api ps) (\<lambda>_. {})" if "\<forall>(p, q) \<in> set ps. set_option p \<subseteq> B \<and> set_option q \<subseteq> B" for ps
    using that
  proof (induction ps)
    case (Cons x ps)
    then show ?case by (cases x) (auto intro!: owns_seq [OF one] owns_give)
  qed (simp add: owns_give)
  have "\<forall>(p, q) \<in> set (zip src dst). set_option p \<subseteq> B \<and> set_option q \<subseteq> B"
    using assms by (auto simp: pointees_def dest: set_zip_leftD set_zip_rightD)
  note copied = all [OF this]
  have call: "accounts B {} (status api ''copy_tensors'' (copy_args s src dst A_null)) (\<lambda>_. {})"
    by (rule owns_status) (use args assms in simp)
  show "accounts B {} (copy_tensor_handles api s src dst) (\<lambda>_. {})"
    unfolding copy_tensor_handles_def
    by (intro owns_if owns_raise owns_match_plain [OF call] owns_seq [OF copied] owns_give)
  show "accounts B {} (copy_tensor_handles_on_stream api s src dst stream) (\<lambda>_. {})"
    unfolding copy_tensor_handles_on_stream_def
    by (intro owns_seq [OF owns_checks(4)] owns_if owns_raise owns_status) (use args assms in simp)
qed

subsection \<open>Instances\<close>

text \<open>A world with the session, its run options, an input and the output of an earlier run; runs return one value.\<close>

definition run_world :: "(nat \<Rightarrow> string \<rightharpoonup> string) native_world" where
  "run_world = demo_world\<lparr>live := {(Session_handle, 2), (Run_options_handle, 0), (Value_handle, 0), (Value_handle, 1)}\<rparr>"

definition run_api :: "(nat \<Rightarrow> string \<rightharpoonup> string) c_api" where
  "run_api = demo_api\<lparr>c_many := (\<lambda>c s n. ((None, True, [True]), n))\<rparr>"

definition old_output :: owned_value where
  "old_output = \<lparr>ov_value = Some (Value_handle, 0), ov_onnx_type = 1, ov_elem_type = 1, ov_count = 6\<rparr>"

lemma run_api_laws: "null_on_error run_api" "no_values_on_error run_api" "no_empty_arrays run_api"
  by (simp_all add: null_on_error_def no_values_on_error_def no_empty_arrays_def run_api_def demo_api_def)

lemma demo_session_cached: "cached_wf demo_session"
  by (simp add: cached_wf_def demo_session_def input_count_def output_count_def)

lemma runs_balanced_witness:
  "spent run_world {(Value_handle, 0)} (\<lambda>(_, out). slot_handles out)
     (run_with run_api demo_session [Some (Value_handle, 1)] [Some old_output] (ns_run_opts demo_session) run_world)
   \<and> run_with run_api demo_session [] [Some old_output] (ns_run_opts demo_session) run_world
       = (Inr (Inl (local_error ''zrt: input count mismatch: expected 1, got 0''), [Some old_output]), run_world)"
proof -
  have alive: "run_alive demo_session (ns_run_opts demo_session) [Some (Value_handle, 1)] [Some old_output] run_world"
    "run_alive demo_session (ns_run_opts demo_session) [] [Some old_output] run_world"
    by (auto simp: run_alive_def Let_def native_wf_def run_world_def demo_world_def demo_session_def slot_handles_def slots_apart_def old_output_def)
  have "input_count demo_session \<noteq> length []" by (simp add: demo_session_def input_count_def)
  then obtain e where e: "run_with run_api demo_session [] [Some old_output] (ns_run_opts demo_session) run_world = (Inr (Inl e, [Some old_output]), run_world)"
    using runs_balanced [OF run_api_laws(1,2) demo_session_cached alive(2)] by metis
  have err: "fst (run_with run_api demo_session [] [Some old_output] (ns_run_opts demo_session) run_world)
      = Inr (Inl (local_error ''zrt: input count mismatch: expected 1, got 0''), [Some old_output])"
    by (simp add: run_with_def match_result_def check_run_options_def shares_environment_def demo_session_def give_def run_impl_def
        check_input_count_def input_count_def raise_def and_then_def digits.simps digit_char_def char_of_def bit_Suc_0_iff)
  have slots: "slot_handles [Some old_output] = {(Value_handle, 0)}" by (simp add: slot_handles_def old_output_def)
  note run = conjunct1 [OF runs_balanced [OF run_api_laws(1,2) demo_session_cached alive(1)], unfolded slots]
  show ?thesis
  proof
    show "run_with run_api demo_session [] [Some old_output] (ns_run_opts demo_session) run_world
       = (Inr (Inl (local_error ''zrt: input count mismatch: expected 1, got 0''), [Some old_output]), run_world)"
      using err by (simp add: e)
  qed (rule run)
qed


end
