(* ===== verification/Io_Binding.thy ===== *)
theory Io_Binding
  imports Session_Run
begin

text \<open>
  I/O bindings (st-zrt/src/io_binding.rs) and the runs with them (st-zrt/src/session.rs): outputs that
  the caller provides, bindings of inputs and outputs by name, the outputs that the engine has bound, the
  runs between the two synchronizations, prepared bindings, and the lane whose outputs are
  fetched after every run.
\<close>

subsection \<open>Outputs of the caller\<close>

record output_value =
  out_value :: handle
  out_elem :: element_type
  out_count :: nat
  out_data :: nat
  out_class :: memory_class

definition output_shape_error :: "tensor_error \<Rightarrow> zerror" where
  "output_shape_error e = (case e of Shape_mismatch expected got \<Rightarrow>
       local_error (''output tensor shape expects '' @ digits expected @ '' elements, got '' @ digits got)
     | _ \<Rightarrow> shape_error e)"

definition check_output_shape :: "int list \<Rightarrow> nat \<Rightarrow> ('n, unit) native_op" where
  "check_output_shape shape len = lift_result (case validate_shape_len shape len of Inl e \<Rightarrow> Inl (output_shape_error e) | Inr u \<Rightarrow> Inr u)"

definition alloc_type_name :: "int \<Rightarrow> string" where
  "alloc_type_name c = (if c = - 1 then ''Invalid'' else if c = 0 then ''Device'' else if c = 1 then ''Arena'' else ''ReadOnly'')"

definition mem_type_name :: "int \<Rightarrow> string" where
  "mem_type_name c = (if c = - 2 then ''CpuInput'' else if c = - 1 then ''CpuOutput'' else ''Default'')"

text \<open>A Rust slice of \<open>len\<close> elements at address \<open>p\<close>.\<close>

definition output_from_buffer :: "'n c_api \<Rightarrow> tensor_element \<Rightarrow> nat \<Rightarrow> nat \<Rightarrow> int list \<Rightarrow> native_memory \<Rightarrow> ('n, output_value) native_op" where
  "output_from_buffer api ty p len shape mem = and_then (check_output_shape shape len) (\<lambda>_.
     if \<not> class_is_host_accessible (nm_class mem)
     then and_then (memory_snapshot_of api mem) (\<lambda>info. raise (local_error
            (''OutputValue wraps a Rust slice and requires host-accessible memory, got '' @ ms_name info @ '' device ''
             @ show_int (ms_device_id info) @ '' ('' @ alloc_type_name (ms_alloc_type info) @ ''/'' @ mem_type_name (ms_mem_type info) @ '')'')))
     else and_then (create_handle api Value_handle ''create_tensor_with_data_as_ort_value''
            ([A_handle (nm_handle mem), A_ptr p, A_int (int (len * size_of ty))] @ map A_int shape
             @ [A_int (int (length shape)), A_int (elem_code (ELEM ty))]) ''output value'')
          (\<lambda>h. give \<lparr>out_value = h, out_elem = ELEM ty, out_count = len, out_data = p, out_class = nm_class mem\<rparr>))"

definition class_name :: "memory_class \<Rightarrow> string" where
  "class_name c = (case c of Class_Cpu \<Rightarrow> ''Cpu'' | Class_CudaDevice \<Rightarrow> ''CudaDevice'' | Class_CudaPinned \<Rightarrow> ''CudaPinned''
     | Class_OtherDevice \<Rightarrow> ''OtherDevice'' | Class_Unknown \<Rightarrow> ''Unknown'')"

text \<open>The slice is given by its address and length; \<open>tname\<close> is the Rust name of the type asked for.\<close>

definition output_as_slice :: "output_value \<Rightarrow> tensor_element \<Rightarrow> string \<Rightarrow> zerror + nat \<times> nat" where
  "output_as_slice v ty tname =
     (if elem_code (out_elem v) \<noteq> elem_code (ELEM ty)
      then Inl (local_error (''zrt: OutputValue::as_slice<'' @ tname @ ''> on a '' @ debug_name elem_names (elem_code (out_elem v)) @ '' buffer''))
      else if \<not> class_is_host_accessible (out_class v)
      then Inl (local_error (''output tensor memory class is not host-accessible: '' @ class_name (out_class v)))
      else if out_data v = 0
      then (if out_count v = 0 then Inr (align_of ty, 0) else Inl (local_error ''zrt: output tensor data pointer is null''))
      else Inr (out_data v, out_count v))"

definition output_drop :: "'n c_api \<Rightarrow> output_value \<Rightarrow> ('n, unit) native_op" where
  "output_drop api v = drop_handle api (out_value v)"

subsection \<open>Bindings\<close>

text \<open>The session of a binding is known by its handle.\<close>

record io_binding =
  ib_handle :: handle
  ib_session :: handle

definition binding_new :: "'n c_api \<Rightarrow> native_session \<Rightarrow> ('n, io_binding) native_op" where
  "binding_new api s = and_then (create_handle api Io_binding_handle ''create_io_binding'' [A_handle (ns_handle s)] ''I/O binding'')
     (\<lambda>h. give \<lparr>ib_handle = h, ib_session = ns_handle s\<rparr>)"

definition belongs_to :: "io_binding \<Rightarrow> native_session \<Rightarrow> bool" where
  "belongs_to b s \<longleftrightarrow> ib_session b = ns_handle s"

definition bind_input_cstr :: "'n c_api \<Rightarrow> io_binding \<Rightarrow> string \<Rightarrow> handle option \<Rightarrow> ('n, unit) native_op" where
  "bind_input_cstr api b name p = status api ''bind_input'' [A_handle (ib_handle b), A_text name, value_arg p]"

definition bind_input :: "'n c_api \<Rightarrow> io_binding \<Rightarrow> string \<Rightarrow> handle option \<Rightarrow> ('n, unit) native_op" where
  "bind_input api b name p = (if has_nul name then raise (local_error ''input name contains a NUL'') else bind_input_cstr api b name p)"

definition bind_output_ptr :: "'n c_api \<Rightarrow> io_binding \<Rightarrow> string \<Rightarrow> handle option \<Rightarrow> ('n, unit) native_op" where
  "bind_output_ptr api b name p = (if has_nul name then raise (local_error ''output name contains a NUL'')
     else status api ''bind_output'' [A_handle (ib_handle b), A_text name, value_arg p])"

definition bind_output :: "'n c_api \<Rightarrow> io_binding \<Rightarrow> string \<Rightarrow> output_value \<Rightarrow> ('n, unit) native_op" where
  "bind_output api b name v = bind_output_ptr api b name (Some (out_value v))"

definition bind_output_device :: "'n c_api \<Rightarrow> io_binding \<Rightarrow> string \<Rightarrow> native_memory \<Rightarrow> ('n, unit) native_op" where
  "bind_output_device api b name mem = (if has_nul name then raise (local_error ''output name contains a NUL'')
     else status api ''bind_output_to_device'' [A_handle (ib_handle b), A_text name, A_handle (nm_handle mem)])"

definition synchronize_inputs :: "'n c_api \<Rightarrow> io_binding \<Rightarrow> ('n, unit) native_op" where
  "synchronize_inputs api b = status api ''synchronize_bound_inputs'' [A_handle (ib_handle b)]"

definition binding_synchronize_outputs :: "'n c_api \<Rightarrow> io_binding \<Rightarrow> ('n, unit) native_op" where
  "binding_synchronize_outputs api b = status api ''synchronize_bound_outputs'' [A_handle (ib_handle b)]"

definition clear_inputs :: "'n c_api \<Rightarrow> io_binding \<Rightarrow> ('n, unit) native_op" where
  "clear_inputs api b = void_call api ''clear_bound_inputs'' [A_handle (ib_handle b)]"

definition clear_outputs :: "'n c_api \<Rightarrow> io_binding \<Rightarrow> ('n, unit) native_op" where
  "clear_outputs api b = void_call api ''clear_bound_outputs'' [A_handle (ib_handle b)]"

definition binding_drop :: "'n c_api \<Rightarrow> io_binding \<Rightarrow> ('n, unit) native_op" where
  "binding_drop api b = drop_handle api (ib_handle b)"

subsection \<open>Bound outputs\<close>

text \<open>The array is freed whether the values could be inspected or not; a failed free costs the values.\<close>

definition free_array :: "'n c_api \<Rightarrow> handle option \<Rightarrow> ('n, unit) native_op" where
  "free_array api arr = if_some arr (free_text api)"

definition output_values :: "'n c_api \<Rightarrow> io_binding \<Rightarrow> ('n, owned_value list) native_op" where
  "output_values api b = and_then (default_allocator api) (\<lambda>_.
     and_then (engine_array api Value_handle ''get_bound_output_values'' [A_handle (ib_handle b)]) (\<lambda>(arr, ps).
       match_result (collect_from_raw api ps)
         (\<lambda>e. match_result (free_array api arr) (\<lambda>_. raise e) (\<lambda>_. raise e))
         (\<lambda>xs. match_result (free_array api arr) (\<lambda>e. and_then (drop_values api xs) (\<lambda>_. raise e)) (\<lambda>_. give xs))))"

text \<open>
  A call that allocates blocks for its results; their pointers may be set whatever the status. The
  engine tells what a block holds: bytes, or the lengths of the names.
\<close>

definition raw_blocks :: "'n c_api \<Rightarrow> handle_kind \<Rightarrow> string \<Rightarrow> c_arg list \<Rightarrow> nat
    \<Rightarrow> ('n, zerror option \<times> bool \<times> handle option list) native_op" where
  "raw_blocks api k f as len w = (case c_many api (f, as) (next_serial w) (engine w) of ((st, some, flags), n) \<Rightarrow>
     let bs = overwrite len False flags; ps = numbered k (next_serial w) bs
     in (Inr (st, some, ps), (note_call (f, as) w)\<lparr>engine := n, live := live w \<union> pointees ps, next_serial := next_serial w + count_true bs\<rparr>))"

fun split_names :: "string \<Rightarrow> nat \<Rightarrow> nat list \<Rightarrow> zerror + string list" where
  "split_names buf off [] = Inr []"
| "split_names buf off (n # ns) =
     (if n = 0 \<or> valid_utf8 (take n (drop off buf))
      then (case split_names buf (off + n) ns of Inl e \<Rightarrow> Inl e | Inr names \<Rightarrow> Inr (take n (drop off buf) # names))
      else Inl (local_error ''zrt: bound output name is not valid UTF-8''))"

definition collect_bound_names :: "zerror option \<Rightarrow> string option \<Rightarrow> nat list option \<Rightarrow> zerror + string list" where
  "collect_bound_names st buf lens = (case check st of Inl e \<Rightarrow> Inl e
     | Inr _ \<Rightarrow> (case (buf, lens) of (Some b, Some ls) \<Rightarrow> split_names b 0 ls | _ \<Rightarrow> Inr []))"

definition block_free :: "'n c_api \<Rightarrow> handle option \<Rightarrow> ('n, unit) native_op" where
  "block_free api p = if_some p (\<lambda>h. match_result (free_text api h) (\<lambda>_. give ()) give)"

text \<open>The contents of the two blocks are read before they are freed; the results of the frees are ignored.\<close>

definition output_names :: "'n c_api \<Rightarrow> io_binding \<Rightarrow> ('n, string list) native_op" where
  "output_names api b = and_then (default_allocator api) (\<lambda>_.
     and_then (raw_blocks api Engine_block ''get_bound_output_names'' [A_handle (ib_handle b)] 2) (\<lambda>(st, _, ps).
       (\<lambda>w. let buf = map_option (\<lambda>h. c_chars api h (engine w)) (ps ! 0);
                lens = map_option (\<lambda>h. map nat (snd (fst (c_ints api (''lengths'', [A_handle h]) (engine w))))) (ps ! 1);
                result = collect_bound_names st buf lens
            in and_then (block_free api (ps ! 0)) (\<lambda>_. and_then (block_free api (ps ! 1)) (\<lambda>_. lift_result result)) w)))"

subsection \<open>Runs with a binding\<close>

definition check_binding_session :: "native_session \<Rightarrow> io_binding \<Rightarrow> ('n, unit) native_op" where
  "check_binding_session s b = (if belongs_to b s then give () else raise (local_error ''IoBinding belongs to a different Session''))"

definition run_with_binding :: "'n c_api \<Rightarrow> native_session \<Rightarrow> handle \<Rightarrow> io_binding \<Rightarrow> ('n, unit) native_op" where
  "run_with_binding api s opts b = status api ''run_with_binding'' [A_handle (ns_handle s), A_handle opts, A_handle (ib_handle b)]"

definition run_binding :: "'n c_api \<Rightarrow> native_session \<Rightarrow> io_binding \<Rightarrow> ('n, unit) native_op" where
  "run_binding api s b = in_order [check_binding_session s b, synchronize_inputs api b,
     run_with_binding api s (mr_opts (ns_run_opts s)) b, binding_synchronize_outputs api b]"

definition run_binding_unsynchronized :: "'n c_api \<Rightarrow> native_session \<Rightarrow> io_binding \<Rightarrow> ('n, unit) native_op" where
  "run_binding_unsynchronized api s b = in_order [check_binding_session s b, run_with_binding api s (mr_opts (ns_run_opts s)) b]"

definition run_binding_with :: "'n c_api \<Rightarrow> native_session \<Rightarrow> io_binding \<Rightarrow> materialized \<Rightarrow> ('n, unit) native_op" where
  "run_binding_with api s b m = in_order [check_binding_session s b, check_run_options s m, synchronize_inputs api b,
     run_with_binding api s (mr_opts m) b, binding_synchronize_outputs api b]"

definition run_binding_unsynchronized_with :: "'n c_api \<Rightarrow> native_session \<Rightarrow> io_binding \<Rightarrow> materialized \<Rightarrow> ('n, unit) native_op" where
  "run_binding_unsynchronized_with api s b m = in_order [check_binding_session s b, check_run_options s m, run_with_binding api s (mr_opts m) b]"

subsection \<open>Prepared bindings\<close>

record prepared_binding =
  pb_session :: native_session
  pb_binding :: io_binding

text \<open>\<open>for (i, x) in xs.iter().enumerate()\<close> with the name of input or output \<open>i\<close>.\<close>

definition bind_each :: "(nat \<Rightarrow> zerror + string) \<Rightarrow> (string \<Rightarrow> 'x \<Rightarrow> ('n, unit) native_op) \<Rightarrow> 'x list \<Rightarrow> ('n, unit) native_op" where
  "bind_each name f xs = each (\<lambda>(i, x). and_then (lift_result (name i)) (\<lambda>n. f n x)) (enumerate 0 xs)"

text \<open>The outputs are values of the caller or reusable buffers: their pointers are bound alike.\<close>

definition prepare_io_binding :: "'n c_api \<Rightarrow> native_session \<Rightarrow> handle option list \<Rightarrow> handle option list \<Rightarrow> ('n, prepared_binding) native_op" where
  "prepare_io_binding api s inputs outputs =
     and_then (check_input_count s (length inputs)) (\<lambda>_.
     and_then (check_output_count s (length outputs) ''output count'') (\<lambda>_.
     and_then (binding_new api s) (\<lambda>b. or_release api (ib_handle b)
       (and_then (bind_each (input_name s) (bind_input api b) inputs) (\<lambda>_.
        and_then (bind_each (output_name s) (bind_output_ptr api b) outputs) (\<lambda>_. give \<lparr>pb_session = s, pb_binding = b\<rparr>))))))"

definition prepared_binding_run :: "'n c_api \<Rightarrow> prepared_binding \<Rightarrow> ('n, unit) native_op" where
  "prepared_binding_run api p = run_binding api (pb_session p) (pb_binding p)"

definition prepared_binding_prime :: "'n c_api \<Rightarrow> nat \<Rightarrow> prepared_binding \<Rightarrow> ('n, unit) native_op" where
  "prepared_binding_prime api n p = in_order (replicate n (prepared_binding_run api p))"

text \<open>\<open>run_with_allocator_stats\<close>\<close>

definition run_with_allocator_stats :: "'n c_api \<Rightarrow> allocator \<Rightarrow> ('n, unit) native_op \<Rightarrow> ('n, stats \<times> stats) native_op" where
  "run_with_allocator_stats api a run = and_then (allocator_stats api a) (\<lambda>before.
     and_then run (\<lambda>_. and_then (allocator_stats api a) (\<lambda>after. give (before, after))))"

subsection \<open>The lane with outputs on a device\<close>

text \<open>
  A reusable buffer of the lane (st-zrt/src/tensor.rs, \<open>TensorBuffer::zeros_with\<close>): zeroed storage of the host,
  then the value over it. The host part is that of \<open>Tensors\<close>, run up to the call of the engine; \<open>place\<close>
  gives the address of the storage. A panic of the host allocation unwinds through the same
  destructors as an error and is an error here. The texts of errors of the operating system are not modelled.
\<close>

record lane_buffer =
  lb_value :: handle
  lb_storage :: "nat tensor_buffer"

definition storage_error :: "tensor_error \<Rightarrow> zerror" where
  "storage_error e = (case e of
     Byte_overflow \<Rightarrow> local_error ''tensor buffer byte length overflows usize''
   | Vec_modifiers \<Rightarrow> local_error ''plain Vec BufferSpec has aligned-only modifiers''
   | Pinned_modifiers \<Rightarrow> local_error ''CUDA-pinned BufferSpec does not accept alignment, hugepage, or mlock modifiers''
   | Bad_alignment a \<Rightarrow> local_error (''alignment must be a power of two, got '' @ digits a)
   | Bad_layout \<Rightarrow> local_error ''invalid aligned tensor layout''
   | Native_error code \<Rightarrow> Zerror (int code) ''storage''
   | _ \<Rightarrow> shape_error e)"

definition host_storage :: "native \<Rightarrow> tensor_element \<Rightarrow> buffer_spec \<Rightarrow> int list \<Rightarrow> zerror + nat tensor_buffer" where
  "host_storage nt ty spec shape =
     (case zeros_with (nt\<lparr>nt_create := (\<lambda>_ _. Inr 1)\<rparr>) ty 0 shape
         \<lparr>mi_handle = \<lparr>mh_name = Inr (Some ''Cpu''), mh_device_type = DEVICE_TYPE_CPU, mh_mem_type = 0\<rparr>, mi_class = Class_Cpu\<rparr> spec of
       Panic \<Rightarrow> Inl (local_error ''panic'') | Ret (Inl e) \<Rightarrow> Inl (storage_error e) | Ret (Inr b) \<Rightarrow> Inr b)"

definition wrap_storage :: "'n c_api \<Rightarrow> nat \<Rightarrow> tensor_element \<Rightarrow> native_memory \<Rightarrow> int list \<Rightarrow> nat tensor_buffer \<Rightarrow> ('n, lane_buffer) native_op" where
  "wrap_storage api p ty mem shape b =
     and_then (create_handle api Value_handle ''create_tensor_with_data_as_ort_value''
         ([A_handle (nm_handle mem), A_ptr p, A_int (int (buffer_len b * size_of ty))] @ map A_int shape
          @ [A_int (int (length shape)), A_int (elem_code (ELEM ty))]) ''tensor buffer value'')
       (\<lambda>h. give \<lparr>lb_value = h, lb_storage = b\<rparr>)"

definition lane_tensor_buffer :: "'n c_api \<Rightarrow> native \<Rightarrow> (nat \<Rightarrow> nat) \<Rightarrow> tensor_element \<Rightarrow> native_memory \<Rightarrow> buffer_spec
    \<Rightarrow> int list \<Rightarrow> ('n, lane_buffer) native_op" where
  "lane_tensor_buffer api nt place ty mem spec shape =
     and_then (lift_result (host_storage nt ty spec shape)) (\<lambda>b.
       if \<not> class_is_host_accessible (nm_class mem)
       then and_then (memory_snapshot_of api mem) (\<lambda>info. raise (local_error
              (''Rust slice-backed tensors require host-accessible memory, got '' @ ms_name info @ '' device ''
               @ show_int (ms_device_id info) @ '' ('' @ alloc_type_name (ms_alloc_type info) @ ''/'' @ mem_type_name (ms_mem_type info) @ '')'')))
       else (\<lambda>w. wrap_storage api (place (next_serial w)) ty mem shape b w))"

definition buffer_ptrs :: "lane_buffer list \<Rightarrow> handle option list" where
  "buffer_ptrs bs = map (\<lambda>b. Some (lb_value b)) bs"

text \<open>\<open>collect\<close> into a \<open>Result\<close>: an error drops the buffers made so far.\<close>

fun lane_buffers :: "'n c_api \<Rightarrow> (int list \<Rightarrow> ('n, lane_buffer) native_op) \<Rightarrow> lane_buffer list \<Rightarrow> int list list
    \<Rightarrow> ('n, lane_buffer list) native_op" where
  "lane_buffers api f held [] = give held"
| "lane_buffers api f held (shape # shapes) = match_result (f shape)
     (\<lambda>e. and_then (release_all api (buffer_ptrs held)) (\<lambda>_. raise e))
     (\<lambda>b. lane_buffers api f (held @ [b]) shapes)"

record device_lane =
  dl_session :: native_session
  dl_binding :: io_binding
  dl_inputs :: "lane_buffer list"
  dl_outputs :: "owned_value list"

text \<open>
  \<open>prepare_device_output_tensor_io_lane_with_buffer_policy\<close>: the inputs are made first, so that an error of
  the binding drops the binding and then the inputs.
\<close>

definition bind_device_lane :: "'n c_api \<Rightarrow> native_session \<Rightarrow> handle option list \<Rightarrow> native_memory \<Rightarrow> ('n, io_binding) native_op" where
  "bind_device_lane api s inputs out_mem =
     and_then (binding_new api s) (\<lambda>b. or_release api (ib_handle b)
       (and_then (bind_each (input_name s) (bind_input api b) inputs) (\<lambda>_.
        and_then (bind_each (output_name s) (bind_output_device api b) (replicate (output_count s) out_mem)) (\<lambda>_. give b))))"

definition prepare_device_lane :: "'n c_api \<Rightarrow> native \<Rightarrow> (nat \<Rightarrow> nat) \<Rightarrow> tensor_element \<Rightarrow> native_session \<Rightarrow> native_memory
    \<Rightarrow> native_memory \<Rightarrow> int list list \<Rightarrow> buffer_spec \<Rightarrow> ('n, device_lane) native_op" where
  "prepare_device_lane api nt place ty s in_mem out_mem shapes spec =
     and_then (check_input_count s (length shapes)) (\<lambda>_.
     and_then (lane_buffers api (lane_tensor_buffer api nt place ty in_mem spec) [] shapes) (\<lambda>ins.
       match_result (bind_device_lane api s (buffer_ptrs ins) out_mem)
         (\<lambda>e. and_then (release_all api (buffer_ptrs ins)) (\<lambda>_. raise e))
         (\<lambda>b. give \<lparr>dl_session = s, dl_binding = b, dl_inputs = ins, dl_outputs = []\<rparr>)))"

definition device_lane_run :: "'n c_api \<Rightarrow> device_lane \<Rightarrow> ('n, (zerror + unit) \<times> device_lane) native_op" where
  "device_lane_run api l = and_then (drop_values api (dl_outputs l)) (\<lambda>_.
     match_result (and_then (run_binding api (dl_session l) (dl_binding l)) (\<lambda>_. output_values api (dl_binding l)))
       (\<lambda>e. give (Inl e, l\<lparr>dl_outputs := []\<rparr>)) (\<lambda>xs. give (Inr (), l\<lparr>dl_outputs := xs\<rparr>)))"

definition device_lane_prime :: "'n c_api \<Rightarrow> nat \<Rightarrow> device_lane \<Rightarrow> ('n, (zerror + unit) \<times> device_lane) native_op" where
  "device_lane_prime api n l = prime_runs (device_lane_run api) n l"

text \<open>The fields are dropped in the order of their declaration.\<close>

definition device_lane_drop :: "'n c_api \<Rightarrow> device_lane \<Rightarrow> ('n, unit) native_op" where
  "device_lane_drop api l = and_then (binding_drop api (dl_binding l)) (\<lambda>_.
     and_then (release_all api (buffer_ptrs (dl_inputs l))) (\<lambda>_. drop_values api (dl_outputs l)))"

subsection \<open>Ownership\<close>

lemma owns_free_array: "accounts B (set_option arr) (free_array api arr) (\<lambda>_. {})"
  unfolding free_array_def if_some_def by (cases arr) (simp_all add: owns_give owns_free_text)

lemma owns_drop_values_raise: "apart (map ov_value xs) \<Longrightarrow> accounts B (value_handles xs) (and_then (drop_values api xs) (\<lambda>_. raise e)) G"
  using owns_release_all_then [of "map ov_value xs" "{}" B "raise e" G api, OF _ _ owns_raise]
  by (simp add: drop_values_def value_handles_def)

lemma owns_output_values:
  assumes "null_on_error api" "no_values_on_error api" "ib_handle b \<in> B"
  shows "accounts B {} (output_values api b) value_handles"
  unfolding output_values_def
proof (rule owns_seq [OF owns_default_allocator], rule owns_bind [OF owns_engine_array [OF assms(2)] returns_engine_array])
  show "set (handles_of [A_handle (ib_handle b)]) \<subseteq> B" using assms(3) by simp
next
  fix x :: "handle option \<times> handle option list"
  obtain arr ps where x: "x = (arr, ps)" by fastforce
  assume "case x of (arr, ps) \<Rightarrow> apart ps \<and> set_option arr \<inter> pointees ps = {} \<and> (arr = None \<longrightarrow> ps = [])"
  then have P: "apart ps" "pointees ps \<inter> set_option arr = {}" by (auto simp: x)
  have bad: "accounts B (set_option arr) (match_result (free_array api arr) (\<lambda>_. raise e) (\<lambda>_. raise e)) value_handles" for e
    by (rule owns_match_plain [OF owns_free_array]) (auto intro: owns_raise)
  have good: "accounts B (set_option arr \<union> value_handles xs)
      (match_result (free_array api arr) (\<lambda>e. and_then (drop_values api xs) (\<lambda>_. raise e)) (\<lambda>_. give xs)) value_handles"
    if "map ov_value xs = ps" for xs
    by (rule owns_match [OF owns_free_array returns_any])
      (use that P in \<open>auto intro: owns_keep owns_drop_values_raise [unfolded value_handles_def] simp: value_handles_def\<close>)
  have "accounts B (pointees ps \<union> set_option arr) (match_result (collect_from_raw api ps)
         (\<lambda>e. match_result (free_array api arr) (\<lambda>_. raise e) (\<lambda>_. raise e))
         (\<lambda>xs. match_result (free_array api arr) (\<lambda>e. and_then (drop_values api xs) (\<lambda>_. raise e)) (\<lambda>_. give xs))) value_handles"
    by (rule owns_match [OF owns_collect_from_raw [OF assms(1) P(1)] collect_from_raw_values P(2) _ bad])
      (subst Un_commute, rule good)
  then show "accounts B (case x of (arr, ps) \<Rightarrow> set_option arr \<union> pointees ps)
     (case x of (arr, ps) \<Rightarrow> match_result (collect_from_raw api ps)
         (\<lambda>e. match_result (free_array api arr) (\<lambda>_. raise e) (\<lambda>_. raise e))
         (\<lambda>xs. match_result (free_array api arr) (\<lambda>e. and_then (drop_values api xs) (\<lambda>_. raise e)) (\<lambda>_. give xs))) value_handles"
    by (simp add: x Un_commute)
qed

lemma owns_raw_blocks:
  assumes "set (handles_of as) \<subseteq> B"
  shows "accounts B {} (raw_blocks api k f as len) (\<lambda>(_, _, ps). pointees ps)"
    "returns (\<lambda>(_, _, ps). apart ps \<and> length ps = len) (raw_blocks api k f as len)"
proof -
  show "returns (\<lambda>(_, _, ps). apart ps \<and> length ps = len) (raw_blocks api k f as len)"
    by (auto simp: returns_def raw_blocks_def Let_def apart_numbered overwrite_def split: prod.splits)
  show "accounts B {} (raw_blocks api k f as len) (\<lambda>(_, _, ps). pointees ps)"
  proof (rule ownsI)
    fix w r v
    assume w: "native_wf w" "B \<subseteq> live w" and run: "raw_blocks api k f as len w = (r, v)"
    obtain st some flags n where c: "c_many api (f, as) (next_serial w) (engine w) = ((st, some, flags), n)" by (metis prod.collapse)
    let ?bs = "overwrite len False flags"
    let ?ps = "numbered k (next_serial w) ?bs"
    have v: "v = (note_call (f, as) w)\<lparr>engine := n, live := live w \<union> pointees ?ps, next_serial := next_serial w + count_true ?bs\<rparr>"
      and r: "r = Inr (st, some, ?ps)" using run by (simp_all add: raw_blocks_def c Let_def)
    have "misuse (note_call (f, as) w) = misuse w" using assms w(2) by (intro handles_noted) auto
    moreover have "native_wf v" using w(1) numbered_bounds [of _ k "next_serial w" ?bs] by (fastforce simp: v native_wf_def)
    ultimately show "native_wf v \<and> misuse v = misuse w \<and> live v = (live w - {}) \<union> gained (\<lambda>(_, _, ps). pointees ps) r
        \<and> gained (\<lambda>(_, _, ps). pointees ps) r \<inter> (live w - {}) = {}"
      using numbered_fresh [OF w(1), of "next_serial w" k ?bs] by (simp add: v r)
  qed
qed

lemma owns_block_free: "accounts B (set_option p) (block_free api p) (\<lambda>_. {})" "succeeds (block_free api p)"
proof -
  show "accounts B (set_option p) (block_free api p) (\<lambda>_. {})"
    unfolding block_free_def if_some_def by (cases p) (auto simp: owns_give intro!: owns_match_plain [OF owns_free_text])
  show "succeeds (block_free api p)"
    unfolding block_free_def if_some_def by (cases p) (auto intro: succeeds_give succeeds_match)
qed

lemma owns_output_names:
  assumes "ib_handle b \<in> B"
  shows "accounts B {} (output_names api b) (\<lambda>_. {})"
  unfolding output_names_def
proof (rule owns_seq [OF owns_default_allocator], rule owns_bind [OF owns_raw_blocks])
  show "set (handles_of [A_handle (ib_handle b)]) \<subseteq> B" "set (handles_of [A_handle (ib_handle b)]) \<subseteq> B" using assms by simp_all
next
  fix x :: "zerror option \<times> bool \<times> handle option list"
  obtain st some ps where x: "x = (st, some, ps)" by (metis prod_cases3)
  assume "case x of (_, _, ps) \<Rightarrow> apart ps \<and> length ps = 2"
  then obtain p q where ps: "ps = [p, q]" "set_option p \<inter> set_option q = {}"
    by (auto simp: x apart_Cons length_Suc_conv numeral_2_eq_2)
  let ?free = "\<lambda>result. and_then (block_free api p) (\<lambda>_. and_then (block_free api q) (\<lambda>_. lift_result result))"
  have rest: "accounts B (set_option q) (and_then (block_free api q) (\<lambda>_. lift_result result)) (\<lambda>_. {})" for result :: "zerror + string list"
    by (rule owns_and_then [OF owns_block_free(1) owns_lift])
  have "accounts B (set_option p \<union> set_option q) (?free result) (\<lambda>_. {})" for result :: "zerror + string list"
    by (rule owns_succeeds [OF owns_block_free(1) returns_any owns_block_free(2) ps(2)]) (simp add: rest)
  from owns_reading [OF this]
  show "accounts B (case x of (_, _, ps) \<Rightarrow> pointees ps) (case x of (st, _, ps) \<Rightarrow>
       (\<lambda>w. let buf = map_option (\<lambda>h. c_chars api h (engine w)) (ps ! 0);
                lens = map_option (\<lambda>h. map nat (snd (fst (c_ints api (''lengths'', [A_handle h]) (engine w))))) (ps ! 1);
                result = collect_bound_names st buf lens
            in and_then (block_free api (ps ! 0)) (\<lambda>_. and_then (block_free api (ps ! 1)) (\<lambda>_. lift_result result)) w)) (\<lambda>_. {})"
    by (simp add: x ps(1) Let_def)
qed

lemma owns_binding_calls:
  assumes "{ns_handle s, opts, ib_handle b} \<subseteq> B"
  shows "accounts B {} (check_binding_session s b) (\<lambda>_. {})" "accounts B {} (synchronize_inputs api b) (\<lambda>_. {})"
    "accounts B {} (binding_synchronize_outputs api b) (\<lambda>_. {})" "accounts B {} (run_with_binding api s opts b) (\<lambda>_. {})"
  unfolding check_binding_session_def synchronize_inputs_def binding_synchronize_outputs_def run_with_binding_def
  using assms by (intro owns_if owns_raise owns_give owns_status; simp)+

lemma owns_run_binding:
  assumes "{ns_handle s, mr_opts (ns_run_opts s), ib_handle b} \<subseteq> B"
  shows "accounts B {} (run_binding api s b) (\<lambda>_. {})"
  unfolding run_binding_def by (rule owns_in_order) (auto intro: owns_binding_calls [OF assms])

lemma owns_binding_new:
  "null_on_error api \<Longrightarrow> ns_handle s \<in> B \<Longrightarrow> accounts B {} (binding_new api s) (\<lambda>b. {ib_handle b})"
  unfolding binding_new_def by (rule owns_and_then [OF owns_create_handle]) (auto intro: owns_keep)

lemma owns_bind_each:
  "(\<And>n x. x \<in> set xs \<Longrightarrow> accounts B {} (f n x) (\<lambda>_. {})) \<Longrightarrow> accounts B {} (bind_each name f xs) (\<lambda>_. {})"
  unfolding bind_each_def by (rule owns_each) (auto intro!: owns_seq [OF owns_lift] simp: enumerate_eq_zip dest: set_zip_rightD)

definition pb_handles :: "prepared_binding \<Rightarrow> handle set" where
  "pb_handles p = {ib_handle (pb_binding p)}"

lemma owns_bind_inputs:
  assumes "ib_handle b \<in> B" "pointees inputs \<subseteq> B"
  shows "accounts B {} (bind_each (input_name s) (bind_input api b) inputs) (\<lambda>_. {})"
    "accounts B {} (bind_each (output_name s) (bind_output_ptr api b) inputs) (\<lambda>_. {})"
proof -
  have "set_option p \<subseteq> B" if "p \<in> set inputs" for p using that assms(2) by (auto simp: pointees_def)
  then show "accounts B {} (bind_each (input_name s) (bind_input api b) inputs) (\<lambda>_. {})"
    "accounts B {} (bind_each (output_name s) (bind_output_ptr api b) inputs) (\<lambda>_. {})"
    unfolding bind_input_def bind_input_cstr_def bind_output_ptr_def
    by (intro owns_bind_each owns_if owns_raise owns_status; simp add: assms(1))+
qed

lemma owns_prepare_io_binding:
  assumes "null_on_error api" "ns_handle s \<in> B" "pointees inputs \<subseteq> B" "pointees outputs \<subseteq> B"
  shows "accounts B {} (prepare_io_binding api s inputs outputs) pb_handles"
proof -
  have "accounts (insert (ib_handle b) B) {} (and_then (bind_each (input_name s) (bind_input api b) inputs) (\<lambda>_.
        bind_each (output_name s) (bind_output_ptr api b) outputs)) (\<lambda>_. {})" for b
    by (intro owns_seq owns_bind_inputs) (use assms in auto)
  then have "accounts B {ib_handle b} (or_release api (ib_handle b) (and_then (and_then (bind_each (input_name s) (bind_input api b) inputs) (\<lambda>_.
        bind_each (output_name s) (bind_output_ptr api b) outputs)) (\<lambda>_. give \<lparr>pb_session = s, pb_binding = b\<rparr>))) pb_handles" for b
    by (rule owns_or_release_into) (simp add: pb_handles_def)
  then show ?thesis unfolding prepare_io_binding_def and_then_assoc
    by (intro owns_seq owns_checks owns_and_then [OF owns_binding_new [OF assms(1,2)]])
qed

text \<open>What a lane owns for its whole life, and the outputs of its last run.\<close>

definition dl_fixed :: "device_lane \<Rightarrow> handle set" where
  "dl_fixed l = insert (ib_handle (dl_binding l)) (pointees (buffer_ptrs (dl_inputs l)))"

definition dl_handles :: "device_lane \<Rightarrow> handle set" where
  "dl_handles l = value_handles (dl_outputs l)"

definition lane_ok :: "native_session \<Rightarrow> io_binding \<Rightarrow> lane_buffer list \<Rightarrow> device_lane \<Rightarrow> bool" where
  "lane_ok s b ins l \<longleftrightarrow> dl_session l = s \<and> dl_binding l = b \<and> dl_inputs l = ins \<and> apart (map ov_value (dl_outputs l))"

lemma returns_output_values: "returns (\<lambda>xs. apart (map ov_value xs)) (output_values api b)"
proof -
  have "returns (\<lambda>xs. apart (map ov_value xs)) (match_result (collect_from_raw api ps)
         (\<lambda>e. match_result (free_array api arr) (\<lambda>_. raise e) (\<lambda>_. raise e))
         (\<lambda>xs. match_result (free_array api arr) (\<lambda>e. and_then (drop_values api xs) (\<lambda>_. raise e)) (\<lambda>_. give xs)))"
    if "apart ps" for ps arr
    by (rule returns_match [OF collect_from_raw_values])
      (use that in \<open>auto intro!: returns_match [OF returns_any] returns_raise returns_seq returns_give\<close>)
  then show ?thesis unfolding output_values_def
    by (intro returns_seq returns_and_then [OF returns_engine_array]) auto
qed

lemma device_lane_step:
  assumes "null_on_error api" "no_values_on_error api" "lane_ok s b ins l" "{ns_handle s, mr_opts (ns_run_opts s), ib_handle b} \<subseteq> B"
  shows "accounts B (dl_handles l) (device_lane_run api l) (\<lambda>(_, l'). dl_handles l')"
    and "returns (\<lambda>(_, l'). lane_ok s b ins l') (device_lane_run api l)"
proof -
  let ?fetch = "and_then (run_binding api (dl_session l) (dl_binding l)) (\<lambda>_. output_values api (dl_binding l))"
  let ?body = "match_result ?fetch (\<lambda>e. give (Inl e, l\<lparr>dl_outputs := []\<rparr>)) (\<lambda>xs. give (Inr (), l\<lparr>dl_outputs := xs\<rparr>))"
  have l: "dl_session l = s" "dl_binding l = b" "dl_inputs l = ins" "apart (map ov_value (dl_outputs l))" using assms(3) by (simp_all add: lane_ok_def)
  have "accounts B {} ?fetch value_handles"
    unfolding l by (rule owns_seq [OF owns_run_binding [OF assms(4)] owns_output_values [OF assms(1,2)]]) (use assms(4) in simp)
  then have "accounts B {} ?body (\<lambda>(_, l'). dl_handles l')"
    by (rule owns_match_plain) (auto intro: owns_keep simp: dl_handles_def)
  from owns_release_all_then [OF l(4) _ this, of api]
  show "accounts B (dl_handles l) (device_lane_run api l) (\<lambda>(_, l'). dl_handles l')"
    by (simp add: device_lane_run_def drop_values_def dl_handles_def value_handles_def)
  have "returns (\<lambda>(_, l'). lane_ok s b ins l') ?body"
    by (rule returns_match [OF returns_seq [OF returns_output_values]]) (auto intro!: returns_give simp: lane_ok_def l)
  then show "returns (\<lambda>(_, l'). lane_ok s b ins l') (device_lane_run api l)"
    unfolding device_lane_run_def by (rule returns_seq)
qed

lemma succeeds_device_lane_run: "succeeds (device_lane_run api l)"
  unfolding device_lane_run_def drop_values_def by (intro succeeds_and_then succeeds_drops succeeds_match succeeds_give)

lemma owns_lane_tensor_buffer:
  assumes "null_on_error api" "nm_handle mem \<in> B"
  shows "accounts B {} (lane_tensor_buffer api nt place ty mem spec shape) (\<lambda>b. {lb_value b})"
proof -
  have "accounts B {} (wrap_storage api p ty mem shape b) (\<lambda>b. {lb_value b})" for p b
    unfolding wrap_storage_def
    by (rule owns_and_then [OF owns_create_handle [OF assms(1)]]) (use assms(2) in \<open>auto intro: owns_keep\<close>)
  moreover have "accounts B {} (memory_snapshot_of api mem) (\<lambda>_. {})"
    unfolding memory_snapshot_of_def by (rule owns_snapshot_from_ptr) (use assms(2) in simp)
  ultimately show ?thesis
    unfolding lane_tensor_buffer_def
    by (intro owns_seq owns_lift owns_if owns_raise) (auto intro: owns_reading)
qed

lemma owns_lane_buffers:
  assumes "\<And>shape. accounts B {} (f shape) (\<lambda>b. {lb_value b})"
  shows "apart (buffer_ptrs held) \<Longrightarrow>
    accounts B (pointees (buffer_ptrs held)) (lane_buffers api f held shapes) (\<lambda>bs. pointees (buffer_ptrs bs))"
proof (induction shapes arbitrary: held)
  case Nil
  then show ?case by (simp add: owns_keep)
next
  case (Cons shape shapes)
  let ?D = "pointees (buffer_ptrs held)"
  have err: "accounts B ?D (and_then (release_all api (buffer_ptrs held)) (\<lambda>_. raise e)) (\<lambda>bs. pointees (buffer_ptrs bs))" for e
    using owns_release_all_then [OF Cons.prems, of "{}" B "raise e" "\<lambda>bs. pointees (buffer_ptrs bs)" api] by (simp add: owns_raise)
  have ok: "accounts B ({lb_value b} \<union> ?D) (lane_buffers api f (held @ [b]) shapes) (\<lambda>bs. pointees (buffer_ptrs bs))"
    if "{lb_value b} \<inter> ?D = {}" for b
  proof -
    have "apart (buffer_ptrs (held @ [b]))" "pointees (buffer_ptrs (held @ [b])) = {lb_value b} \<union> ?D"
      using Cons.prems that by (auto simp: buffer_ptrs_def apart_append apart_Cons pointees_def)
    then show ?thesis using Cons.IH [of "held @ [b]"] by simp
  qed
  have "accounts (B \<union> ?D) {} (f shape) (\<lambda>b. {lb_value b})" by (rule owns_borrow_more [OF assms]) simp
  from owns_match [OF this returns_any _ ok err] show ?case by simp
qed

lemma returns_lane_buffers: "returns (\<lambda>bs. length bs = length held + length shapes) (lane_buffers api f held shapes)"
proof (induction shapes arbitrary: held)
  case Nil
  then show ?case by (simp add: returns_give)
next
  case (Cons shape shapes)
  have "returns (\<lambda>bs. length bs = length held + length (shape # shapes)) (lane_buffers api f (held @ [b]) shapes)" for b
    using Cons [of "held @ [b]"] by (simp add: returns_weaken)
  then show ?case by (auto intro!: returns_match [OF returns_any] returns_seq returns_raise)
qed

lemma lane_buffers_apart:
  assumes "\<And>shape. accounts B {} (f shape) (\<lambda>b. {lb_value b})" "native_wf w" "B \<subseteq> live w" "apart (buffer_ptrs held)"
    "pointees (buffer_ptrs held) \<subseteq> live w" "lane_buffers api f held shapes w = (Inr bs, v)"
  shows "apart (buffer_ptrs bs)"
  using assms(2-6)
proof (induction shapes arbitrary: held w)
  case Nil
  then show ?case by (simp add: give_def)
next
  case (Cons shape shapes)
  obtain b u where b: "f shape w = (Inr b, u)" and rest: "lane_buffers api f (held @ [b]) shapes u = (Inr bs, v)"
    using Cons.prems(5) by (auto simp: match_result_def and_then_def raise_def split: prod.splits sum.splits)
  note M = ownsD [OF assms(1) Cons.prems(1,2) _ _ b, simplified]
  have "apart (buffer_ptrs (held @ [b]))" "pointees (buffer_ptrs (held @ [b])) \<subseteq> live u" "B \<subseteq> live u"
    using M Cons.prems(2-4) by (auto simp: buffer_ptrs_def apart_append apart_Cons pointees_def)
  then show ?case using Cons.IH [OF M(1) _ _ _ rest] by blast
qed

lemma owns_bind_device_lane:
  assumes "null_on_error api" "{ns_handle s, nm_handle out_mem} \<subseteq> B" "pointees inputs \<subseteq> B"
  shows "accounts B {} (bind_device_lane api s inputs out_mem) (\<lambda>b. {ib_handle b})"
proof -
  have "accounts (insert (ib_handle b) B) {} (and_then (bind_each (input_name s) (bind_input api b) inputs) (\<lambda>_.
        bind_each (output_name s) (bind_output_device api b) (replicate (output_count s) out_mem))) (\<lambda>_. {})" for b
    unfolding bind_output_device_def
    by (intro owns_seq owns_bind_inputs owns_bind_each owns_if owns_raise owns_status) (use assms in auto)
  then have "accounts B {ib_handle b} (or_release api (ib_handle b) (and_then (and_then (bind_each (input_name s) (bind_input api b) inputs) (\<lambda>_.
        bind_each (output_name s) (bind_output_device api b) (replicate (output_count s) out_mem))) (\<lambda>_. give b)))
      (\<lambda>b. {ib_handle b})" for b
    by (rule owns_or_release_into) simp
  then show ?thesis
    unfolding bind_device_lane_def and_then_assoc
    by (intro owns_and_then [OF owns_binding_new [OF assms(1)]]) (use assms(2) in simp)
qed

text \<open>Preparing a lane: what a failure and a success leave.\<close>

lemma prepare_device_lane_ledger:
  assumes "null_on_error api" "native_wf w" "{ns_handle s, nm_handle in_mem, nm_handle out_mem} \<subseteq> live w"
    and run: "prepare_device_lane api nt place ty s in_mem out_mem shapes spec w = (r, u)"
  shows "native_wf u \<and> misuse u = misuse w \<and> (case r of Inl e \<Rightarrow> live u = live w
    | Inr l \<Rightarrow> lane_ok s (dl_binding l) (dl_inputs l) l \<and> dl_outputs l = [] \<and> length (dl_inputs l) = length shapes
        \<and> apart (buffer_ptrs (dl_inputs l)) \<and> ib_handle (dl_binding l) \<notin> pointees (buffer_ptrs (dl_inputs l))
        \<and> dl_fixed l \<inter> live w = {} \<and> live u = live w \<union> dl_fixed l)"
proof (cases "check_input_count s (length shapes) w")
  case (Pair q w')
  have w': "w' = w" using Pair by (auto simp: check_input_count_def raise_def give_def split: if_splits)
  let ?make = "lane_buffers api (lane_tensor_buffer api nt place ty in_mem spec) [] shapes"
  have buffer: "accounts (live w) {} (lane_tensor_buffer api nt place ty in_mem spec shape) (\<lambda>b. {lb_value b})" for shape
    using assms(3) by (intro owns_lane_tensor_buffer assms(1)) simp
  have make: "accounts (live w) {} ?make (\<lambda>bs. pointees (buffer_ptrs bs))"
    using owns_lane_buffers [OF buffer, where held = "[]"] by (simp add: buffer_ptrs_def pointees_def)
  show ?thesis
  proof (cases q)
    case (Inl e)
    then show ?thesis using run Pair w' assms(2) by (auto simp: prepare_device_lane_def and_then_def)
  next
    case (Inr x)
    obtain p v where mk: "?make w = (p, v)" by fastforce
    note M = ownsD [OF make assms(2) subset_refl _ _ mk, simplified]
    show ?thesis
    proof (cases p)
      case (Inl e)
      then show ?thesis using run Pair w' Inr mk M by (auto simp: prepare_device_lane_def and_then_def)
    next
      case (Inr ins)
      have ins: "apart (buffer_ptrs ins)" "length ins = length shapes"
        using lane_buffers_apart [OF buffer assms(2) subset_refl _ _ mk [unfolded Inr]] returnsD [OF returns_lane_buffers mk [unfolded Inr]]
        by (auto simp: buffer_ptrs_def pointees_def)
      have V: "live v = live w \<union> pointees (buffer_ptrs ins)" "pointees (buffer_ptrs ins) \<inter> live w = {}" using M(3,4) Inr by auto
      obtain q2 x2 where bd: "bind_device_lane api s (buffer_ptrs ins) out_mem v = (q2, x2)" by fastforce
      have "accounts (live v) {} (bind_device_lane api s (buffer_ptrs ins) out_mem) (\<lambda>b. {ib_handle b})"
        using assms(3) V(1) by (intro owns_bind_device_lane assms(1)) auto
      note D = ownsD [OF this M(1) subset_refl _ _ bd, simplified]
      have shape: "prepare_device_lane api nt place ty s in_mem out_mem shapes spec w = (case q2 of
          Inl e \<Rightarrow> and_then (release_all api (buffer_ptrs ins)) (\<lambda>_. raise e) x2
        | Inr b \<Rightarrow> (Inr \<lparr>dl_session = s, dl_binding = b, dl_inputs = ins, dl_outputs = []\<rparr>, x2))"
        using Pair w' \<open>q = Inr x\<close> mk Inr bd by (simp add: prepare_device_lane_def and_then_def match_result_def give_def split: sum.split)
      show ?thesis
      proof (cases q2)
        case (Inl e)
        have acc: "accounts {} (pointees (buffer_ptrs ins)) (and_then (release_all api (buffer_ptrs ins)) (\<lambda>_. raise e)) (\<lambda>_::device_lane. {})"
          using owns_release_all_then [OF ins(1), of "{}" "{}" "raise e" "\<lambda>_::device_lane. {}" api] by (simp add: owns_raise)
        have ended: "and_then (release_all api (buffer_ptrs ins)) (\<lambda>_. raise e) x2 = (r, u)" using run shape Inl by simp
        have sub: "pointees (buffer_ptrs ins) \<subseteq> live x2" using D(3) V(1) Inl by auto
        note R = ownsD [OF acc D(1) _ sub _ ended, simplified]
        obtain e' where "r = Inl e'" using ended by (auto simp: and_then_def raise_def split: prod.splits sum.splits)
        then show ?thesis using R D(2,3) M(2) V Inl by auto
      next
        case (Inr b)
        then have "r = Inr \<lparr>dl_session = s, dl_binding = b, dl_inputs = ins, dl_outputs = []\<rparr>" "u = x2" using run shape by simp_all
        then show ?thesis using D M(2) V ins Inr by (auto simp: lane_ok_def dl_fixed_def)
      qed
    qed
  qed
qed

text \<open>The runs of a prepared lane and its end.\<close>

lemma device_lane_life:
  assumes "null_on_error api" "no_values_on_error api" "native_wf u" "lane_ok s (dl_binding l) (dl_inputs l) l" "dl_outputs l = []"
    and "{ns_handle s, mr_opts (ns_run_opts s)} \<subseteq> live u" "dl_fixed l \<subseteq> live u"
    and "apart (buffer_ptrs (dl_inputs l))" "ib_handle (dl_binding l) \<notin> pointees (buffer_ptrs (dl_inputs l))"
  shows "\<exists>qs l' v. repeat_calls (device_lane_prime api) ns l u = (Inr (qs, l'), v) \<and> misuse v = misuse u
    \<and> dl_fixed l' = dl_fixed l \<and> dl_handles l' \<inter> live u = {} \<and> live v = live u \<union> dl_handles l'
    \<and> live (snd (device_lane_drop api l' v)) = live u - dl_fixed l \<and> misuse (snd (device_lane_drop api l' v)) = misuse u"
proof -
  let ?b = "dl_binding l" and ?ins = "dl_inputs l"
  have none: "dl_handles l = {}" using assms(5) by (simp add: dl_handles_def value_handles_def pointees_def)
  have B: "{ns_handle s, mr_opts (ns_run_opts s), ib_handle ?b} \<subseteq> live u" using assms(6,7) by (simp add: dl_fixed_def)
  note primed = prime_facts [of "lane_ok s ?b ?ins" "live u" dl_handles "device_lane_run api",
      OF device_lane_step(1) [OF assms(1,2) _ B] device_lane_step(2) [OF assms(1,2) _ B]]
  note facts = repeat_facts [of "lane_ok s ?b ?ins" "live u" dl_handles "device_lane_prime api" l ns,
      unfolded device_lane_prime_def, OF conjunct1 [OF primed] conjunct2 [OF primed] assms(4)]
  have "succeeds (device_lane_prime api n x)" for n x
    unfolding device_lane_prime_def by (rule succeeds_prime [OF succeeds_device_lane_run])
  then obtain q l' v where run: "repeat_calls (device_lane_prime api) ns l u = (Inr (q, l'), v)"
    using succeedsD [OF succeeds_repeat [where f = "device_lane_prime api" and cs = ns and x = l], of u] by fast
  have v: "native_wf v" "misuse v = misuse u" "live v = live u \<union> dl_handles l'" "dl_handles l' \<inter> live u = {}"
    using ownsD [OF conjunct1 [OF facts] assms(3) subset_refl _ _ run [unfolded device_lane_prime_def]] none by auto
  have ok: "lane_ok s ?b ?ins l'" using returnsD [OF conjunct2 [OF facts] run [unfolded device_lane_prime_def]] by simp
  then have l': "dl_binding l' = ?b" "dl_inputs l' = ?ins" "apart (map ov_value (dl_outputs l'))" by (simp_all add: lane_ok_def)
  have "accounts {} (dl_handles l') (release_all api (map ov_value (dl_outputs l'))) (\<lambda>_. {})"
    unfolding dl_handles_def value_handles_def by (rule owns_release_all) (rule l'(3))
  from owns_release_all_then [OF assms(8) _ this, of api]
  have "accounts {} (pointees (buffer_ptrs ?ins) \<union> dl_handles l') (and_then (release_all api (buffer_ptrs ?ins))
      (\<lambda>_. drop_values api (dl_outputs l'))) (\<lambda>_. {})"
    using v(4) assms(7) by (auto simp: drop_values_def dl_fixed_def)
  from owns_drop_then [OF this, of "ib_handle ?b" api]
  have drops: "accounts {} (dl_fixed l \<union> dl_handles l') (device_lane_drop api l') (\<lambda>_. {})"
    unfolding device_lane_drop_def binding_drop_def l' using v(4) assms(7,9) by (auto simp: dl_fixed_def)
  obtain p x where drop: "device_lane_drop api l' v = (p, x)" by fastforce
  have "gained (\<lambda>_. {}) p = {}" by (cases p) simp_all
  then have "live x = live v - (dl_fixed l \<union> dl_handles l')" "misuse x = misuse v"
    using ownsD(2,3) [OF drops v(1) _ _ _ drop] v(3) assms(7) by auto
  then show ?thesis
    using run v drop l'(1,2) by (intro exI conjI) (auto simp: dl_fixed_def)
qed

subsection \<open>Theorems\<close>


text \<open>The first of some calls, made one after the other, that the engine answers with an error.\<close>

fun first_failure :: "'n c_api \<Rightarrow> c_call list \<Rightarrow> 'n \<Rightarrow> (nat \<times> zerror) option" where
  "first_failure api [] n = None"
| "first_failure api (c # cs) n = (case c_status api c n of
      (Some e, _) \<Rightarrow> Some (0, e)
    | (None, n') \<Rightarrow> map_option (\<lambda>(k, e). (Suc k, e)) (first_failure api cs n'))"

text \<open>What a sequence of calls does: it stops with the first error, after the call that was answered by it.\<close>

definition stops_at_failure :: "'n c_api \<Rightarrow> c_call list \<Rightarrow> 'n native_world \<Rightarrow> (zerror + unit) \<times> 'n native_world \<Rightarrow> bool" where
  "stops_at_failure api cs w p \<longleftrightarrow> (case first_failure api cs (engine w) of
      None \<Rightarrow> fst p = Inr () \<and> made (snd p) = made w @ cs
    | Some (k, e) \<Rightarrow> fst p = Inl e \<and> made (snd p) = made w @ take (Suc k) cs)"

lemma calls_in_order: "stops_at_failure api cs w (in_order (map (\<lambda>(f, as). status api f as) cs) w)"
proof (induction cs arbitrary: w)
  case Nil
  show ?case by (simp add: stops_at_failure_def give_def)
next
  case (Cons c cs)
  obtain f as where c: "c = (f, as)" by fastforce
  obtain st n where st: "c_status api c (engine w) = (st, n)" by fastforce
  let ?u = "(note_call (f, as) w)\<lparr>engine := n\<rparr>"
  show ?case
  proof (cases st)
    case (Some e)
    then show ?thesis using st by (simp add: stops_at_failure_def and_then_def status_def check_def c)
  next
    case None
    then show ?thesis using st Cons.IH [of ?u]
      by (auto simp: stops_at_failure_def and_then_def status_def check_def c split: option.splits)
  qed
qed

definition sync_calls :: "native_session \<Rightarrow> handle \<Rightarrow> io_binding \<Rightarrow> c_call list" where
  "sync_calls s opts b = [(''synchronize_bound_inputs'', [A_handle (ib_handle b)]),
     (''run_with_binding'', [A_handle (ns_handle s), A_handle opts, A_handle (ib_handle b)]),
     (''synchronize_bound_outputs'', [A_handle (ib_handle b)])]"

text \<open>
  C13. A run with a binding calls the engine in order: it synchronizes the inputs, runs, and synchronizes the
  outputs. It stops at the first call that the engine answers with an error, whose error is the result, makes
  no call after it, and succeeds exactly if all three calls do; the unsynchronized variants only run, with the
  engine's answer as their result. A binding of another session, and options of another environment, are
  refused without a call.
\<close>

theorem bindings_run_in_order:
  "(belongs_to b s \<longrightarrow> stops_at_failure api (sync_calls s (mr_opts (ns_run_opts s)) b) w (run_binding api s b w)
     \<and> stops_at_failure api [sync_calls s (mr_opts (ns_run_opts s)) b ! 1] w (run_binding_unsynchronized api s b w))
   \<and> (belongs_to b s \<and> shares_environment (ns_env s) m \<longrightarrow>
        stops_at_failure api (sync_calls s (mr_opts m) b) w (run_binding_with api s b m w)
        \<and> stops_at_failure api [sync_calls s (mr_opts m) b ! 1] w (run_binding_unsynchronized_with api s b m w))
   \<and> (\<not> belongs_to b s \<longrightarrow> (\<forall>f \<in> {run_binding api s b, run_binding_unsynchronized api s b, run_binding_with api s b m, run_binding_unsynchronized_with api s b m}.
        f w = (Inl (local_error ''IoBinding belongs to a different Session''), w)))
   \<and> (belongs_to b s \<and> \<not> shares_environment (ns_env s) m \<longrightarrow> (\<forall>f \<in> {run_binding_with api s b m, run_binding_unsynchronized_with api s b m}. f w = (Inl (local_error ''MaterializedRunOptions sync stream belongs to a different Environment''), w)))"
proof -
  have three: "stops_at_failure api (sync_calls s opts b) w
      (in_order [synchronize_inputs api b, run_with_binding api s opts b, binding_synchronize_outputs api b] w)" for opts
    using calls_in_order [of api "sync_calls s opts b" w]
    by (simp add: sync_calls_def synchronize_inputs_def run_with_binding_def binding_synchronize_outputs_def)
  have one: "stops_at_failure api [sync_calls s opts b ! 1] w (in_order [run_with_binding api s opts b] w)" for opts
    using calls_in_order [of api "[sync_calls s opts b ! 1]" w] by (simp add: sync_calls_def run_with_binding_def)
  have skip: "and_then (give ()) f = f ()" "and_then (raise e) f w = (Inl e, w)" for f :: "unit \<Rightarrow> ('a, unit) native_op" and e
    by (simp_all add: fun_eq_iff and_then_def give_def raise_def)
  show ?thesis
    using three one
    by (auto simp: run_binding_def run_binding_unsynchronized_def run_binding_with_def run_binding_unsynchronized_with_def
        check_binding_session_def check_run_options_def skip)
qed

lemma split_names_iff:
  "off + sum_list ns \<le> length buf \<Longrightarrow> split_names buf off ns = Inr names \<longleftrightarrow>
     map length names = ns \<and> concat names = take (sum_list ns) (drop off buf) \<and> (\<forall>s \<in> set names. valid_utf8 s)"
proof (induction buf off ns arbitrary: names rule: split_names.induct)
  case (1 buf off)
  then show ?case by auto
next
  case (2 buf off n ns)
  let ?name = "take n (drop off buf)"
  have len: "length ?name = n" "(off + n) + sum_list ns \<le> length buf" using 2(2) by auto
  have cut: "take (n + sum_list ns) (drop off buf) = ?name @ take (sum_list ns) (drop (off + n) buf)"
    by (simp add: take_add add.commute)
  have "split_names buf off (n # ns) = Inr names \<longleftrightarrow> valid_utf8 ?name \<and> (\<exists>rest. split_names buf (off + n) ns = Inr rest \<and> names = ?name # rest)"
    by (auto split: sum.splits)
  also have "\<dots> \<longleftrightarrow> valid_utf8 ?name \<and> (\<exists>rest. map length rest = ns \<and> concat rest = take (sum_list ns) (drop (off + n) buf)
       \<and> (\<forall>s \<in> set rest. valid_utf8 s) \<and> names = ?name # rest)"
  proof (cases "valid_utf8 ?name")
    case True
    then have "n = 0 \<or> valid_utf8 (take n (drop off buf))" by simp
    from 2(1) [OF this len(2)] show ?thesis using True by blast
  qed simp
  also have "\<dots> \<longleftrightarrow> map length names = n # ns \<and> concat names = take (sum_list (n # ns)) (drop off buf) \<and> (\<forall>s \<in> set names. valid_utf8 s)"
    using len(1) unfolding sum_list.Cons cut by (cases names) (auto simp: append_eq_append_conv)
  finally show ?case .
qed

text \<open>
  The names of the bound outputs are cut out of the engine's buffer exactly: for valid names, laid one after
  the other, they are read back; and names are returned only if they are valid UTF-8, have the reported
  lengths and make up the buffer from its start. An error of the engine, or a block it did not provide, decides the result.
\<close>

theorem bound_names_roundtrip:
  "((\<forall>s \<in> set names. valid_utf8 s) \<longrightarrow> collect_bound_names None (Some (concat names)) (Some (map length names)) = Inr names)
   \<and> (sum_list ns \<le> length buf \<longrightarrow> collect_bound_names None (Some buf) (Some ns) = Inr got \<longrightarrow>
        map length got = ns \<and> concat got = take (sum_list ns) buf \<and> (\<forall>s \<in> set got. valid_utf8 s))
   \<and> collect_bound_names (Some e) p q = Inl e \<and> collect_bound_names None None q = Inr [] \<and> collect_bound_names None p None = Inr []"
proof (intro conjI impI)
  show "collect_bound_names None (Some (concat names)) (Some (map length names)) = Inr names" if "\<forall>s \<in> set names. valid_utf8 s"
    using split_names_iff [of 0 "map length names" "concat names" names] that
    by (simp add: collect_bound_names_def check_def length_concat)
qed (use split_names_iff [of 0 ns buf got] in \<open>auto simp: collect_bound_names_def check_def split: option.splits\<close>)

subsection \<open>Instances\<close>

definition binding_world :: "(nat \<Rightarrow> string \<rightharpoonup> string) native_world" where
  "binding_world = run_world\<lparr>live := live run_world \<union> {(Io_binding_handle, 1), (Memory_info_handle, 1)}\<rparr>"

definition demo_binding :: io_binding where
  "demo_binding = \<lparr>ib_handle = (Io_binding_handle, 1), ib_session = (Session_handle, 2)\<rparr>"

definition demo_memory :: native_memory where
  "demo_memory = \<lparr>nm_handle = (Memory_info_handle, 1), nm_class = Class_CudaDevice\<rparr>"

definition demo_host_memory :: native_memory where
  "demo_host_memory = \<lparr>nm_handle = (Memory_info_handle, 1), nm_class = Class_Cpu\<rparr>"

definition demo_host :: native where
  "demo_host = \<lparr>nt_alloc = (\<lambda>_ _. True), nt_mlock = (\<lambda>_. Inr ()), nt_malloc_host = (\<lambda>_. Inr ()), nt_page_size = 4096,
     nt_mmap = (\<lambda>_ _. Inl 12), nt_create = (\<lambda>_ _. Inr 1)\<rparr>"

lemma demo_storage: "\<exists>b. host_storage demo_host F32 spec_vec [2] = Inr b"
  by (simp add: host_storage_def zeros_with_def checked_element_count_def checked_mul_at_def resolve_def spec_vec_def
      vec_zeros_def from_vec_def from_storage_def validate_shape_len_def ensure_memory_host_accessible_def
      is_host_accessible_def class_is_host_accessible_def ensure_non_null_def demo_host_def)


lemma bindings_run_in_order_witness:
  "stops_at_failure run_api (sync_calls demo_session (Run_options_handle, 0) demo_binding) binding_world
     (run_binding run_api demo_session demo_binding binding_world)
   \<and> first_failure run_api (sync_calls demo_session (Run_options_handle, 0) demo_binding) (engine binding_world) = None
   \<and> run_binding run_api demo_session (demo_binding\<lparr>ib_session := (Session_handle, 7)\<rparr>) binding_world
       = (Inl (local_error ''IoBinding belongs to a different Session''), binding_world)"
proof -
  have own: "belongs_to demo_binding demo_session" "\<not> belongs_to (demo_binding\<lparr>ib_session := (Session_handle, 7)\<rparr>) demo_session"
    and opts: "mr_opts (ns_run_opts demo_session) = (Run_options_handle, 0)"
    by (simp_all add: belongs_to_def demo_binding_def demo_session_def)
  have "first_failure run_api (sync_calls demo_session (Run_options_handle, 0) demo_binding) (engine binding_world) = None"
    by (simp add: sync_calls_def run_api_def demo_api_def demo_status_def)
  then show ?thesis
    using bindings_run_in_order [of demo_binding demo_session run_api binding_world "ns_run_opts demo_session"] own(1)
      bindings_run_in_order [of "demo_binding\<lparr>ib_session := (Session_handle, 7)\<rparr>" demo_session run_api binding_world] own(2)
    unfolding opts by auto
qed

lemma bound_names_roundtrip_witness:
  "collect_bound_names None (Some ''scoresboxes'') (Some [6, 0, 5]) = Inr [''scores'', [], ''boxes'']
   \<and> concat [''scores'', [], ''boxes''] = take 11 ''scoresboxes''"
proof -
  let ?names = "[''scores'', [], ''boxes'']"
  have valid: "\<forall>s \<in> set ?names. valid_utf8 s" by (simp add: byte_in_def)
  have parts: "concat ?names = ''scoresboxes''" "map length ?names = [6, 0, 5]" "sum_list [6, 0, 5] = (11::nat)" by simp_all
  have got: "collect_bound_names None (Some ''scoresboxes'') (Some [6, 0, 5]) = Inr ?names"
    using conjunct1 [OF bound_names_roundtrip, THEN mp, OF valid] unfolding parts .
  have "sum_list [6, 0, 5] \<le> length ''scoresboxes''" by simp
  then have "concat ?names = take (sum_list [6, 0, 5]) ''scoresboxes''" using bound_names_roundtrip got by blast
  then show ?thesis using got unfolding parts by blast
qed

end
