(* ===== verification/Async_Run.thy ===== *)
theory Async_Run
  imports Io_Binding
begin

text \<open>
  Asynchronous runs (st-zrt/src/session.rs: \<open>run_async_owned\<close>, \<open>AsyncState\<close>, \<open>RunFuture\<close>,
  \<open>run_async_callback\<close>) as a step relation of three parties: the thread of the engine that calls back, the
  executor that polls and drops the future, and the owner of the session, who may drop it once the
  future has gone. One step is one access to the shared state.

  The \<open>AtomicWaker\<close> of the state belongs to another crate: it is an argument, a record of its three
  operations over its own state, and what is relied on is its documented law that a wake reaches the
  task registered last.
\<close>

subsection \<open>The shared state\<close>

record 'w waker_ops =
  wk_new :: 'w
  wk_register :: "nat \<Rightarrow> 'w \<Rightarrow> 'w"
  wk_wake :: "'w \<Rightarrow> nat option \<times> 'w"

definition wakes_registered :: "'w waker_ops \<Rightarrow> bool" where
  "wakes_registered ops \<longleftrightarrow> (\<forall>t w. fst (wk_wake ops (wk_register ops t w)) = Some t)"

type_synonym async_outcome = "zerror + owned_value list"

record 'w async_state =
  as_result :: "async_outcome option"
  as_done :: bool
  as_waker :: 'w
  as_inputs :: "handle option list"
  as_outputs :: nat
  as_owned :: "owned_value list"

definition async_state_new :: "'w waker_ops \<Rightarrow> handle option list \<Rightarrow> nat \<Rightarrow> owned_value list \<Rightarrow> 'w async_state" where
  "async_state_new ops inputs n owned = \<lparr>as_result = None, as_done = False, as_waker = wk_new ops, as_inputs = inputs,
     as_outputs = n, as_owned = owned\<rparr>"

text \<open>Dropping the last reference drops the result and the inputs the state owns.\<close>

definition drop_async_state :: "'n c_api \<Rightarrow> 'w async_state \<Rightarrow> ('n, unit) native_op" where
  "drop_async_state api a = and_then (case as_result a of Some (Inr xs) \<Rightarrow> drop_values api xs | _ \<Rightarrow> give ()) (\<lambda>_. drop_values api (as_owned a))"

text \<open>A refused start drops the state and with it the inputs that it owns.\<close>

definition run_async_owned :: "'n c_api \<Rightarrow> 'w waker_ops \<Rightarrow> native_session \<Rightarrow> handle option list \<Rightarrow> owned_value list
    \<Rightarrow> ('n, 'w async_state) native_op" where
  "run_async_owned api ops s inputs owned =
     (let a = async_state_new ops inputs (output_count s) owned in match_result
       (and_then (check_input_count s (length inputs)) (\<lambda>_. status api ''run_async'' (run_args s (mr_opts (ns_run_opts s)) inputs)))
       (\<lambda>e. and_then (drop_async_state api a) (\<lambda>_. raise e)) (\<lambda>_. give a))"

definition session_run_async :: "'n c_api \<Rightarrow> 'w waker_ops \<Rightarrow> native_session \<Rightarrow> handle option list \<Rightarrow> ('n, 'w async_state) native_op" where
  "session_run_async api ops s inputs = run_async_owned api ops s inputs []"

definition run_async_owned_inputs :: "'n c_api \<Rightarrow> 'w waker_ops \<Rightarrow> native_session \<Rightarrow> owned_value list \<Rightarrow> ('n, 'w async_state) native_op" where
  "run_async_owned_inputs api ops s xs = run_async_owned api ops s (map ov_value xs) xs"

text \<open>The result of taking the outcome, and the state after it.\<close>

definition take_result :: "'w async_state \<Rightarrow> async_outcome \<times> 'w async_state" where
  "take_result a = (case as_result a of None \<Rightarrow> Inl (local_error ''zrt: async result already consumed'') | Some r \<Rightarrow> r, a\<lparr>as_result := None\<rparr>)"

text \<open>
  What the engine hands to the callback when it has run the session on the inputs: a status, or an array
  of values that may be null. A status that is not null becomes the error, the values become the outputs.
\<close>

definition collect_outcome :: "'n c_api \<Rightarrow> zerror option \<times> bool \<times> handle option list \<Rightarrow> ('n, async_outcome) native_op" where
  "collect_outcome api c = (case c of (st, some, ps) \<Rightarrow> (case st of Some e \<Rightarrow> give (Inl e)
     | None \<Rightarrow> if some then match_result (collect_from_raw api ps) (\<lambda>e. give (Inl e)) (\<lambda>xs. give (Inr xs)) else give (Inr [])))"

definition callback_result :: "'n c_api \<Rightarrow> native_session \<Rightarrow> 'w async_state \<Rightarrow> ('n, async_outcome) native_op" where
  "callback_result api s a = and_then (raw_blocks api Value_handle ''run_async_callback''
     (A_handle (ns_handle s) # map value_arg (as_inputs a)) (as_outputs a)) (collect_outcome api)"

subsection \<open>The parties and their steps\<close>

datatype callback_pc = Cb_running | Cb_collected async_outcome | Cb_stored | Cb_done | Cb_woken | Cb_finished

datatype poll_pc = Poll_idle | Poll_loaded nat | Poll_registered nat | Poll_gone

text \<open>
  The waiting task is the one whose last poll was pending; \<open>ar_woken\<close> are the tasks woken since they
  began to poll, \<open>ar_got\<close> the results that polls returned, \<open>ar_outcome\<close> what the callback collected.
  \<open>ar_early\<close> tells that the session was dropped while the engine still ran.
\<close>

record ('n, 'w) async_sys =
  ar_world :: "'n native_world"
  ar_shared :: "'w async_state"
  ar_refs :: nat
  ar_freed :: bool
  ar_cb :: callback_pc
  ar_poll :: poll_pc
  ar_waiting :: "nat option"
  ar_woken :: "nat set"
  ar_got :: "async_outcome list"
  ar_outcome :: "async_outcome option"
  ar_session :: bool
  ar_early :: bool

definition async_start :: "'n native_world \<Rightarrow> 'w async_state \<Rightarrow> ('n, 'w) async_sys" where
  "async_start w a = \<lparr>ar_world = w, ar_shared = a, ar_refs = 2, ar_freed = False, ar_cb = Cb_running, ar_poll = Poll_idle,
     ar_waiting = None, ar_woken = {}, ar_got = [], ar_outcome = None, ar_session = True, ar_early = False\<rparr>"

definition release_ref :: "'n c_api \<Rightarrow> ('n, 'w) async_sys \<Rightarrow> ('n, 'w) async_sys" where
  "release_ref api x = (if ar_refs x = 1
     then x\<lparr>ar_refs := 0, ar_freed := True, ar_world := snd (drop_async_state api (ar_shared x) (ar_world x))\<rparr>
     else x\<lparr>ar_refs := ar_refs x - 1\<rparr>)"

text \<open>\<open>run_async_callback\<close> with \<open>AsyncState::complete\<close>: collect, write the result, set the flag, wake, drop the reference.\<close>

definition callback_step :: "'n c_api \<Rightarrow> 'w waker_ops \<Rightarrow> native_session \<Rightarrow> ('n, 'w) async_sys \<Rightarrow> ('n, 'w) async_sys" where
  "callback_step api ops s x = (case ar_cb x of
     Cb_running \<Rightarrow> (case callback_result api s (ar_shared x) (ar_world x) of
         (Inr r, v) \<Rightarrow> x\<lparr>ar_world := v, ar_cb := Cb_collected r, ar_outcome := Some r\<rparr>
       | (Inl e, v) \<Rightarrow> x\<lparr>ar_world := v, ar_cb := Cb_collected (Inl e), ar_outcome := Some (Inl e)\<rparr>)
   | Cb_collected r \<Rightarrow> x\<lparr>ar_shared := (ar_shared x)\<lparr>as_result := Some r\<rparr>, ar_cb := Cb_stored\<rparr>
   | Cb_stored \<Rightarrow> x\<lparr>ar_shared := (ar_shared x)\<lparr>as_done := True\<rparr>, ar_cb := Cb_done\<rparr>
   | Cb_done \<Rightarrow> (case wk_wake ops (as_waker (ar_shared x)) of (t, w) \<Rightarrow>
       x\<lparr>ar_shared := (ar_shared x)\<lparr>as_waker := w\<rparr>, ar_woken := ar_woken x \<union> set_option t, ar_cb := Cb_woken\<rparr>)
   | Cb_woken \<Rightarrow> release_ref api (x\<lparr>ar_cb := Cb_finished\<rparr>)
   | Cb_finished \<Rightarrow> x)"

definition poll_ready :: "('n, 'w) async_sys \<Rightarrow> ('n, 'w) async_sys" where
  "poll_ready x = (case take_result (ar_shared x) of (r, a) \<Rightarrow>
     x\<lparr>ar_shared := a, ar_poll := Poll_idle, ar_got := ar_got x @ [r]\<rparr>)"

text \<open>\<open>RunFuture::poll\<close>: load the flag, register the task, load the flag again.\<close>

definition poll_begin :: "nat \<Rightarrow> ('n, 'w) async_sys \<Rightarrow> ('n, 'w) async_sys" where
  "poll_begin t x = (let y = x\<lparr>ar_waiting := None, ar_woken := ar_woken x - {t}\<rparr>
     in if as_done (ar_shared x) then poll_ready y else y\<lparr>ar_poll := Poll_loaded t\<rparr>)"

definition poll_next :: "'w waker_ops \<Rightarrow> ('n, 'w) async_sys \<Rightarrow> ('n, 'w) async_sys" where
  "poll_next ops x = (case ar_poll x of
     Poll_loaded t \<Rightarrow> x\<lparr>ar_shared := (ar_shared x)\<lparr>as_waker := wk_register ops t (as_waker (ar_shared x))\<rparr>, ar_poll := Poll_registered t\<rparr>
   | Poll_registered t \<Rightarrow> if as_done (ar_shared x) then poll_ready x else x\<lparr>ar_poll := Poll_idle, ar_waiting := Some t\<rparr>
   | _ \<Rightarrow> x)"

definition future_drop :: "'n c_api \<Rightarrow> ('n, 'w) async_sys \<Rightarrow> ('n, 'w) async_sys" where
  "future_drop api x = release_ref api (x\<lparr>ar_poll := Poll_gone, ar_waiting := None\<rparr>)"

text \<open>The future borrows the session; the state does not keep it.\<close>

definition owner_drops_session :: "'n c_api \<Rightarrow> native_session \<Rightarrow> ('n, 'w) async_sys \<Rightarrow> ('n, 'w) async_sys" where
  "owner_drops_session api s x = x\<lparr>ar_world := release_handle api (ns_handle s) (ar_world x), ar_session := False,
     ar_early := (ar_early x \<or> ar_cb x = Cb_running)\<rparr>"

inductive async_step :: "'n c_api \<Rightarrow> 'w waker_ops \<Rightarrow> native_session \<Rightarrow> ('n, 'w) async_sys \<Rightarrow> ('n, 'w) async_sys \<Rightarrow> bool"
  for api ops s where
  callback: "ar_cb x \<noteq> Cb_finished \<Longrightarrow> async_step api ops s x (callback_step api ops s x)"
| begin_poll: "ar_poll x = Poll_idle \<Longrightarrow> async_step api ops s x (poll_begin t x)"
| go_on: "ar_poll x \<in> {Poll_loaded t, Poll_registered t} \<Longrightarrow> async_step api ops s x (poll_next ops x)"
| drop_future: "ar_poll x = Poll_idle \<Longrightarrow> async_step api ops s x (future_drop api x)"
| drop_session: "ar_poll x = Poll_gone \<Longrightarrow> ar_session x \<Longrightarrow> async_step api ops s x (owner_drops_session api s x)"

inductive async_reaches :: "'n c_api \<Rightarrow> 'w waker_ops \<Rightarrow> native_session \<Rightarrow> ('n, 'w) async_sys \<Rightarrow> ('n, 'w) async_sys \<Rightarrow> bool"
  for api ops s x where
  here: "async_reaches api ops s x x"
| further: "async_reaches api ops s x y \<Longrightarrow> async_step api ops s y z \<Longrightarrow> async_reaches api ops s x z"

subsection \<open>The protocol\<close>

definition before_done :: "callback_pc \<Rightarrow> bool" where
  "before_done c \<longleftrightarrow> (case c of Cb_running \<Rightarrow> True | Cb_collected r \<Rightarrow> True | Cb_stored \<Rightarrow> True | _ \<Rightarrow> False)"

definition consumed :: async_outcome where
  "consumed = Inl (local_error ''zrt: async result already consumed'')"

definition flag_ok :: "('n, 'w) async_sys \<Rightarrow> bool" where
  "flag_ok x \<longleftrightarrow> (as_done (ar_shared x) \<longleftrightarrow> \<not> before_done (ar_cb x))"

definition result_ok :: "('n, 'w) async_sys \<Rightarrow> bool" where
  "result_ok x \<longleftrightarrow> (case ar_cb x of
       Cb_running \<Rightarrow> ar_outcome x = None \<and> as_result (ar_shared x) = None \<and> ar_got x = []
     | Cb_collected r \<Rightarrow> ar_outcome x = Some r \<and> as_result (ar_shared x) = None \<and> ar_got x = []
     | Cb_stored \<Rightarrow> ar_outcome x \<noteq> None \<and> as_result (ar_shared x) = ar_outcome x \<and> ar_got x = []
     | _ \<Rightarrow> (\<exists>r. ar_outcome x = Some r \<and> ((as_result (ar_shared x) = Some r \<and> ar_got x = [])
         \<or> (as_result (ar_shared x) = None \<and> (\<exists>n. ar_got x = r # replicate n consumed)))))"

definition refs_ok :: "('n, 'w) async_sys \<Rightarrow> bool" where
  "refs_ok x \<longleftrightarrow> ar_refs x = (if ar_cb x = Cb_finished then 0 else 1) + (if ar_poll x = Poll_gone then 0 else 1)
     \<and> (ar_freed x \<longleftrightarrow> ar_refs x = 0)"

text \<open>A task that waits is registered until the callback wakes it.\<close>

definition wake_ok :: "'w waker_ops \<Rightarrow> ('n, 'w) async_sys \<Rightarrow> bool" where
  "wake_ok ops x \<longleftrightarrow> (\<forall>t. ar_waiting x = Some t \<longrightarrow> ar_poll x = Poll_idle \<and>
       (if before_done (ar_cb x) \<or> ar_cb x = Cb_done then fst (wk_wake ops (as_waker (ar_shared x))) = Some t else t \<in> ar_woken x))
     \<and> (\<forall>t. ar_poll x = Poll_registered t \<longrightarrow> before_done (ar_cb x) \<longrightarrow> fst (wk_wake ops (as_waker (ar_shared x))) = Some t)"

definition protocol_ok :: "'w waker_ops \<Rightarrow> ('n, 'w) async_sys \<Rightarrow> bool" where
  "protocol_ok ops x \<longleftrightarrow> flag_ok x \<and> result_ok x \<and> refs_ok x \<and> wake_ok ops x"

lemmas protocol_defs = protocol_ok_def flag_ok_def result_ok_def refs_ok_def wake_ok_def before_done_def

lemmas step_defs = callback_step_def release_ref_def poll_begin_def poll_next_def poll_ready_def take_result_def future_drop_def
  owner_drops_session_def Let_def

lemma protocol_start: "as_result a = None \<Longrightarrow> \<not> as_done a \<Longrightarrow> protocol_ok ops (async_start w a)"
  by (simp add: protocol_defs async_start_def)

lemma protocol_callback:
  assumes "protocol_ok ops x" "ar_cb x \<noteq> Cb_finished"
  shows "protocol_ok ops (callback_step api ops s x)"
  using assms
  by (cases "ar_cb x") (auto simp: protocol_defs callback_step_def release_ref_def split: prod.splits sum.splits if_splits)

lemma protocol_ready:
  assumes "protocol_ok ops x" "as_done (ar_shared x)" "ar_poll x \<in> {Poll_idle, Poll_registered t}" "ar_waiting x = None"
  shows "protocol_ok ops (poll_ready x)"
proof -
  have cb: "\<not> before_done (ar_cb x)" using assms(1,2) by (simp add: protocol_ok_def flag_ok_def)
  then obtain r where r: "ar_outcome x = Some r" "(as_result (ar_shared x) = Some r \<and> ar_got x = [])
         \<or> (as_result (ar_shared x) = None \<and> (\<exists>n. ar_got x = r # replicate n consumed))"
    using assms(1) by (cases "ar_cb x") (auto simp: protocol_ok_def result_ok_def before_done_def)
  have "\<exists>n. ar_got (poll_ready x) = r # replicate n consumed"
  proof (cases "as_result (ar_shared x)")
    case None
    then obtain n where "ar_got x = r # replicate n consumed" using r(2) by auto
    then show ?thesis using None by (intro exI [of _ "Suc n"]) (simp add: poll_ready_def take_result_def consumed_def replicate_append_same)
  qed (use r(2) in \<open>auto simp: poll_ready_def take_result_def\<close>)
  moreover have "as_result (ar_shared (poll_ready x)) = None" "ar_outcome (poll_ready x) = Some r" "ar_cb (poll_ready x) = ar_cb x"
    using r(1) by (simp_all add: poll_ready_def take_result_def)
  ultimately have "result_ok (poll_ready x)" using cb unfolding result_ok_def by (cases "ar_cb x") (auto simp: before_done_def)
  then show ?thesis using assms cb
    by (auto simp: protocol_ok_def flag_ok_def refs_ok_def wake_ok_def poll_ready_def take_result_def)
qed

lemma protocol_poll:
  assumes "protocol_ok ops x" "wakes_registered ops"
  shows "ar_poll x = Poll_idle \<Longrightarrow> protocol_ok ops (poll_begin t x)"
    and "ar_poll x \<in> {Poll_loaded t, Poll_registered t} \<Longrightarrow> protocol_ok ops (poll_next ops x)"
    and "ar_poll x = Poll_idle \<Longrightarrow> protocol_ok ops (future_drop api x)"
    and "protocol_ok ops (owner_drops_session api s x)"
proof -
  show "protocol_ok ops (poll_begin t x)" if "ar_poll x = Poll_idle"
  proof -
    let ?y = "x\<lparr>ar_waiting := None, ar_woken := ar_woken x - {t}\<rparr>"
    have y: "protocol_ok ops ?y" using assms(1) that by (auto simp: protocol_defs split: callback_pc.splits)
    show ?thesis
    proof (cases "as_done (ar_shared x)")
      case True
      then show ?thesis using protocol_ready [OF y] that by (simp add: poll_begin_def)
    next
      case False
      then show ?thesis using y that by (auto simp: poll_begin_def protocol_defs split: callback_pc.splits)
    qed
  qed
  show "protocol_ok ops (poll_next ops x)" if pc: "ar_poll x \<in> {Poll_loaded t, Poll_registered t}"
  proof -
    have waiting: "ar_waiting x = None" using assms(1) pc by (cases "ar_waiting x") (auto simp: protocol_ok_def wake_ok_def)
    consider "ar_poll x = Poll_loaded t" | "ar_poll x = Poll_registered t" "as_done (ar_shared x)"
      | "ar_poll x = Poll_registered t" "\<not> as_done (ar_shared x)" using pc by auto
    then show ?thesis
    proof cases
      case 1
      then show ?thesis using assms waiting
        by (auto simp: poll_next_def protocol_defs wakes_registered_def split: callback_pc.splits)
    next
      case 2
      then show ?thesis using protocol_ready [OF assms(1)] waiting by (simp add: poll_next_def)
    next
      case 3
      then show ?thesis using assms waiting by (auto simp: poll_next_def protocol_defs split: callback_pc.splits)
    qed
  qed
  show "protocol_ok ops (future_drop api x)" if "ar_poll x = Poll_idle"
    using assms(1) that by (auto simp: future_drop_def release_ref_def protocol_defs split: callback_pc.splits)
  show "protocol_ok ops (owner_drops_session api s x)"
    using assms(1) by (auto simp: owner_drops_session_def protocol_defs split: callback_pc.splits)
qed

lemma protocol_reached:
  assumes "async_reaches api ops s x y" "protocol_ok ops x" "wakes_registered ops"
  shows "protocol_ok ops y"
  using assms(1)
proof induction
  case here
  then show ?case by (rule assms(2))
next
  case (further y z)
  from further.hyps(2) show ?case
  proof cases
    case callback
    then show ?thesis using protocol_callback [OF further.IH] by simp
  qed (use protocol_poll [OF further.IH assms(3)] in blast)+
qed

subsection \<open>The ledger\<close>

definition outcome_ptrs :: "async_outcome \<Rightarrow> handle option list" where
  "outcome_ptrs r = (case r of Inl _ \<Rightarrow> [] | Inr xs \<Rightarrow> map ov_value xs)"

definition state_ptrs :: "'w async_state \<Rightarrow> handle option list" where
  "state_ptrs a = (case as_result a of None \<Rightarrow> [] | Some r \<Rightarrow> outcome_ptrs r) @ map ov_value (as_owned a)"

text \<open>The values that the callback or the state holds, and those that polls handed out.\<close>

definition async_held :: "('n, 'w) async_sys \<Rightarrow> handle option list" where
  "async_held x = (case ar_cb x of Cb_collected r \<Rightarrow> outcome_ptrs r | _ \<Rightarrow> []) @ (if ar_freed x then [] else state_ptrs (ar_shared x))"

definition async_delivered :: "('n, 'w) async_sys \<Rightarrow> handle option list" where
  "async_delivered x = concat (map outcome_ptrs (ar_got x))"

definition values_in_array :: "'n c_api \<Rightarrow> bool" where
  "values_in_array api \<longleftrightarrow> (\<forall>c s n st flags n'. c_many api c s n = ((st, False, flags), n') \<longrightarrow> True \<notin> set flags)"

lemma drop_async_state_eq: "drop_async_state api a = release_all api (state_ptrs a)"
proof -
  have app: "release_all api (xs @ ys) = and_then (release_all api xs) (\<lambda>_. release_all api ys)" for xs ys
    by (simp add: release_all_def each_def in_order_append)
  show ?thesis
    by (simp add: drop_async_state_def state_ptrs_def outcome_ptrs_def drop_values_def app split: option.splits sum.splits)
qed

lemma owns_drop_async_state: "apart (state_ptrs a) \<Longrightarrow> accounts B (pointees (state_ptrs a)) (drop_async_state api a) (\<lambda>_. {})"
  unfolding drop_async_state_eq by (rule owns_release_all)

lemma returns_raw_nothing:
  assumes "no_values_on_error api" "values_in_array api"
  shows "returns (\<lambda>(st, some, ps). st \<noteq> None \<or> \<not> some \<longrightarrow> pointees ps = {}) (raw_blocks api k f as n)"
proof -
  have "pointees (numbered k s (overwrite n False flags)) = {}"
    if c: "c_many api c s n0 = ((st, some, flags), n1)" "st \<noteq> None \<or> \<not> some" for c s n0 st some flags n1
  proof (rule numbered_none)
    have "True \<notin> set flags"
    proof (cases some)
      case True
      then show ?thesis using assms(1) c unfolding no_values_on_error_def by blast
    next
      case False
      then have "c_many api c s n0 = ((st, False, flags), n1)" using c(1) by simp
      then show ?thesis using assms(2) unfolding values_in_array_def by blast
    qed
    then show "True \<notin> set (overwrite n False flags)" by (auto simp: overwrite_def dest: in_set_takeD)
  qed
  then show ?thesis by (auto simp: returns_def raw_blocks_def Let_def split: prod.splits)
qed

lemma owns_callback_result:
  assumes "null_on_error api" "no_values_on_error api" "values_in_array api" "ns_handle s \<in> B" "pointees (as_inputs a) \<subseteq> B"
  shows "accounts B {} (callback_result api s a) (\<lambda>r. pointees (outcome_ptrs r))"
    and "returns (\<lambda>r. apart (outcome_ptrs r)) (callback_result api s a)"
proof -
  have args: "set (handles_of (A_handle (ns_handle s) # map value_arg (as_inputs a))) \<subseteq> B"
    using value_args_handles [of "as_inputs a" "[]"] assms(4,5) by simp
  let ?raw = "raw_blocks api Value_handle ''run_async_callback'' (A_handle (ns_handle s) # map value_arg (as_inputs a)) (as_outputs a)"
  let ?P = "\<lambda>(st, some, ps). apart ps \<and> (st \<noteq> None \<or> \<not> some \<longrightarrow> pointees ps = {})"
  have raw: "returns ?P ?raw"
    using owns_raw_blocks(2) [OF args] returns_raw_nothing [OF assms(2,3)] unfolding returns_def by fast
  have collected: "accounts B (pointees ps) (match_result (collect_from_raw api ps) (\<lambda>e. give (Inl e)) (\<lambda>xs. give (Inr xs)))
      (\<lambda>r. pointees (outcome_ptrs r))" if "apart ps" for ps
    by (rule owns_match_plain [OF owns_collect_from_raw [OF assms(1) that]]) (auto intro: owns_keep simp: outcome_ptrs_def value_handles_def)
  have body: "accounts B ((\<lambda>(_, _, ps). pointees ps) c) (collect_outcome api c) (\<lambda>r. pointees (outcome_ptrs r))" if "?P c" for c
    using that collected unfolding collect_outcome_def by (cases c) (auto simp: outcome_ptrs_def intro: owns_keep split: option.splits)
  show "accounts B {} (callback_result api s a) (\<lambda>r. pointees (outcome_ptrs r))"
    unfolding callback_result_def by (rule owns_bind [OF owns_raw_blocks(1) [OF args] raw body])
  have shape: "returns (\<lambda>r. apart (outcome_ptrs r)) (match_result (collect_from_raw api ps) (\<lambda>e. give (Inl e)) (\<lambda>xs. give (Inr xs)))"
    if "apart ps" for ps
    by (rule returns_match [OF collect_from_raw_values]) (use that in \<open>auto intro!: returns_give simp: outcome_ptrs_def\<close>)
  have "returns (\<lambda>r. apart (outcome_ptrs r)) (collect_outcome api c)" if "?P c" for c
    using that shape unfolding collect_outcome_def by (cases c) (auto simp: outcome_ptrs_def intro!: returns_give split: option.splits)
  then show "returns (\<lambda>r. apart (outcome_ptrs r)) (callback_result api s a)"
    unfolding callback_result_def by (rule returns_and_then [OF raw])
qed

lemma succeeds_callback_result: "succeeds (callback_result api s a)"
proof -
  have "succeeds (collect_outcome api c)" for c
    unfolding collect_outcome_def by (cases c) (auto intro: succeeds_give succeeds_match split: option.split)
  moreover have "succeeds (raw_blocks api k f as n)" for k f as n
    by (auto simp: succeeds_def raw_blocks_def Let_def split: prod.splits)
  ultimately show ?thesis unfolding callback_result_def by (intro succeeds_and_then)
qed

text \<open>Before the session is dropped too early, every live handle has its owner.\<close>

definition ledger_ok :: "native_session \<Rightarrow> handle set \<Rightarrow> handle list \<Rightarrow> ('n, 'w) async_sys \<Rightarrow> bool" where
  "ledger_ok s L mis x \<longleftrightarrow> ns_handle s \<in> L \<and> (ar_early x \<or>
     (let base = (if ar_session x then L else L - {ns_handle s}) in
      native_wf (ar_world x) \<and> misuse (ar_world x) = mis \<and> (ar_cb x = Cb_running \<longrightarrow> ar_session x)
      \<and> live (ar_world x) = base \<union> pointees (async_held x @ async_delivered x) \<and> L \<inter> pointees (async_held x @ async_delivered x) = {}
      \<and> apart (async_held x @ async_delivered x) \<and> pointees (as_inputs (ar_shared x)) \<subseteq> L \<union> pointees (map ov_value (as_owned (ar_shared x)))))"

text \<open>A step that moves values between the holders leaves the ledger as it is.\<close>

lemma ledger_moved:
  assumes "ledger_ok s L mis x" "ar_early y = ar_early x" "ar_session y = ar_session x" "ar_world y = ar_world x"
    and "ar_cb y = Cb_running \<longrightarrow> ar_cb x = Cb_running" "async_held y @ async_delivered y = async_held x @ async_delivered x"
    and "as_inputs (ar_shared y) = as_inputs (ar_shared x)" "as_owned (ar_shared y) = as_owned (ar_shared x)"
  shows "ledger_ok s L mis y"
  using assms unfolding ledger_ok_def Let_def by (cases "ar_session x"; simp; blast)

lemma ledger_release:
  assumes "ledger_ok s L mis x" "ar_refs x = 1 \<longrightarrow> \<not> ar_freed x" "\<forall>r. ar_cb x \<noteq> Cb_collected r"
  shows "ledger_ok s L mis (release_ref api x)"
proof (cases "ar_refs x = 1 \<and> \<not> ar_early x")
  case False
  then show ?thesis
    using assms(1) by (cases "ar_refs x = 1") (auto simp: ledger_ok_def release_ref_def async_held_def async_delivered_def Let_def)
next
  case True
  let ?a = "ar_shared x" and ?w = "ar_world x"
  obtain q u where drop: "drop_async_state api ?a ?w = (q, u)" by fastforce
  let ?y = "x\<lparr>ar_refs := 0, ar_freed := True, ar_world := u\<rparr>"
  have y: "release_ref api x = ?y" using True by (simp add: release_ref_def drop)
  have async_held: "async_held x = state_ptrs ?a" "async_held ?y = []"
    using assms(2,3) True by (cases "ar_cb x"; simp add: async_held_def)+
  have ok: "native_wf ?w" "misuse ?w = mis" "ar_cb x = Cb_running \<longrightarrow> ar_session x"
    "live ?w = (if ar_session x then L else L - {ns_handle s}) \<union> pointees (state_ptrs ?a @ async_delivered x)"
    "L \<inter> pointees (state_ptrs ?a @ async_delivered x) = {}" "apart (state_ptrs ?a @ async_delivered x)"
    "pointees (as_inputs ?a) \<subseteq> L \<union> pointees (map ov_value (as_owned ?a))" "ns_handle s \<in> L"
    using assms(1) True unfolding ledger_ok_def Let_def async_held(1) by blast+
  have ap: "apart (state_ptrs ?a)" "apart (async_delivered x)" "pointees (state_ptrs ?a) \<inter> pointees (async_delivered x) = {}"
    using ok(6) by (simp_all add: apart_append)
  have sub: "{} \<subseteq> live ?w" "pointees (state_ptrs ?a) \<subseteq> live ?w" using ok(4) by auto
  have "gained (\<lambda>_. {}) q = {}" by (cases q) simp_all
  then have u: "native_wf u" "misuse u = mis" "live u = live ?w - pointees (state_ptrs ?a)"
    using ownsD(1-3) [OF owns_drop_async_state [OF ap(1)] ok(1) sub _ drop] ok(2) by simp_all
  have "live u = (if ar_session x then L else L - {ns_handle s}) \<union> pointees (async_delivered x)"
    unfolding u(3) ok(4) using ok(5) ap(3) by auto
  then show ?thesis unfolding y ledger_ok_def Let_def async_held(2)
    using u ok ap(2) True by (auto simp: async_delivered_def)
qed

lemma ledger_ready:
  assumes "ledger_ok s L mis x" "\<not> ar_freed x" "\<forall>r. ar_cb x \<noteq> Cb_collected r"
  shows "ledger_ok s L mis (poll_ready x)"
proof -
  have cb: "(case ar_cb x of Cb_collected r \<Rightarrow> outcome_ptrs r | _ \<Rightarrow> []) = []" using assms(3) by (cases "ar_cb x") simp_all
  let ?r = "case as_result (ar_shared x) of None \<Rightarrow> [] | Some r \<Rightarrow> outcome_ptrs r"
  have parts: "async_held x = ?r @ map ov_value (as_owned (ar_shared x))" "async_held (poll_ready x) = map ov_value (as_owned (ar_shared x))"
    "async_delivered (poll_ready x) = async_delivered x @ ?r"
    using assms(2) cb by (simp_all add: async_held_def poll_ready_def take_result_def state_ptrs_def async_delivered_def outcome_ptrs_def split: option.splits)
  have "pointees (async_held (poll_ready x) @ async_delivered (poll_ready x)) = pointees (async_held x @ async_delivered x)"
    "apart (async_held (poll_ready x) @ async_delivered (poll_ready x)) = apart (async_held x @ async_delivered x)"
    unfolding parts by (auto simp: apart_append)
  then show ?thesis using assms(1)
    by (simp add: ledger_ok_def Let_def poll_ready_def take_result_def del: pointees_simps)
qed

lemma ledger_callback:
  assumes "null_on_error api" "no_values_on_error api" "values_in_array api"
    and "ledger_ok s L mis x" "protocol_ok ops x" "ar_cb x \<noteq> Cb_finished"
  shows "ledger_ok s L mis (callback_step api ops s x)"
proof (cases "ar_cb x")
  case Cb_running
  show ?thesis
  proof (cases "ar_early x")
    case True
    then show ?thesis using assms(4) Cb_running by (auto simp: ledger_ok_def callback_step_def split: prod.splits sum.splits)
  next
    case False
    let ?a = "ar_shared x" and ?w = "ar_world x"
    have ok: "native_wf ?w" "misuse ?w = mis" "ar_session x" "live ?w = L \<union> pointees (async_held x @ async_delivered x)"
      "L \<inter> pointees (async_held x @ async_delivered x) = {}" "apart (async_held x @ async_delivered x)"
      "pointees (as_inputs ?a) \<subseteq> L \<union> pointees (map ov_value (as_owned ?a))" "ns_handle s \<in> L"
      using assms(4) False Cb_running by (auto simp: ledger_ok_def Let_def)
    have freed: "\<not> ar_freed x" using assms(5) Cb_running by (simp add: protocol_ok_def refs_ok_def)
    have async_held: "async_held x = state_ptrs ?a" using freed Cb_running by (simp add: async_held_def)
    have B: "ns_handle s \<in> live ?w" "pointees (as_inputs ?a) \<subseteq> live ?w"
      using ok(4,7,8) async_held by (auto simp: state_ptrs_def)
    obtain r u where run: "callback_result api s ?a ?w = (Inr r, u)"
      using succeedsD [OF succeeds_callback_result] by (metis surj_pair)
    note acc = owns_callback_result [OF assms(1-3) B]
    have u: "native_wf u" "misuse u = mis" "live u = live ?w \<union> pointees (outcome_ptrs r)" "pointees (outcome_ptrs r) \<inter> live ?w = {}"
      using ownsD [OF acc(1) ok(1) subset_refl _ _ run] ok(2) by auto
    have ap: "apart (outcome_ptrs r)" by (rule returnsD [OF acc(2) run])
    let ?y = "x\<lparr>ar_world := u, ar_cb := Cb_collected r, ar_outcome := Some r\<rparr>"
    have y: "callback_step api ops s x = ?y" using Cb_running run by (simp add: callback_step_def)
    have hy: "async_held ?y = outcome_ptrs r @ async_held x" "async_delivered ?y = async_delivered x"
      using freed Cb_running by (simp_all add: async_held_def async_delivered_def)
    have "live u = L \<union> pointees (async_held ?y @ async_delivered ?y)" unfolding u(3) hy ok(4) by auto
    moreover have "L \<inter> pointees (async_held ?y @ async_delivered ?y) = {}" "apart (async_held ?y @ async_delivered ?y)"
      using u(4) ok(4-6) ap unfolding hy by (auto simp: apart_append)
    ultimately show ?thesis unfolding y ledger_ok_def Let_def using u(1,2) ok(3,7,8) by simp
  qed
next
  case (Cb_collected r)
  then have "as_result (ar_shared x) = None" "\<not> ar_freed x" using assms(5) by (auto simp: protocol_ok_def result_ok_def refs_ok_def)
  then show ?thesis using Cb_collected
    by (intro ledger_moved [OF assms(4)]) (simp_all add: callback_step_def async_held_def async_delivered_def state_ptrs_def)
next
  case Cb_stored
  then show ?thesis
    by (intro ledger_moved [OF assms(4)]) (simp_all add: callback_step_def async_held_def async_delivered_def state_ptrs_def)
next
  case Cb_done
  then show ?thesis
    by (intro ledger_moved [OF assms(4)]) (simp_all add: callback_step_def async_held_def async_delivered_def state_ptrs_def split: prod.splits)
next
  case Cb_woken
  let ?y = "x\<lparr>ar_cb := Cb_finished\<rparr>"
  have "ledger_ok s L mis ?y" using Cb_woken by (intro ledger_moved [OF assms(4)]) (simp_all add: async_held_def async_delivered_def)
  moreover have "ar_refs x = 1 \<longrightarrow> \<not> ar_freed x" using assms(5) by (simp add: protocol_ok_def refs_ok_def)
  ultimately have "ledger_ok s L mis (release_ref api ?y)" by (intro ledger_release) simp_all
  then show ?thesis using Cb_woken by (simp add: callback_step_def)
qed (use assms(6) in simp)

lemma ledger_begin:
  assumes "ledger_ok s L mis x" "protocol_ok ops x" "ar_poll x = Poll_idle"
  shows "ledger_ok s L mis (poll_begin t x)"
proof -
  let ?y = "x\<lparr>ar_waiting := None, ar_woken := ar_woken x - {t}\<rparr>"
  have y: "ledger_ok s L mis ?y" by (rule ledger_moved [OF assms(1)]) (simp_all add: async_held_def async_delivered_def)
  show ?thesis
  proof (cases "as_done (ar_shared x)")
    case True
    then have "\<not> before_done (ar_cb x)" "\<not> ar_freed x"
      using assms(2,3) by (simp_all add: protocol_ok_def flag_ok_def refs_ok_def)
    then have "ledger_ok s L mis (poll_ready ?y)" by (intro ledger_ready [OF y]) (auto simp: before_done_def)
    then show ?thesis using True by (simp add: poll_begin_def)
  next
    case False
    then show ?thesis
      by (intro ledger_moved [OF y]) (simp_all add: poll_begin_def async_held_def async_delivered_def)
  qed
qed

lemma ledger_next:
  assumes "ledger_ok s L mis x" "protocol_ok ops x" "ar_poll x \<in> {Poll_loaded t, Poll_registered t}"
  shows "ledger_ok s L mis (poll_next ops x)"
proof (cases "ar_poll x = Poll_registered t \<and> as_done (ar_shared x)")
  case True
  then have "\<not> before_done (ar_cb x)" "\<not> ar_freed x" using assms(2) by (auto simp: protocol_ok_def flag_ok_def refs_ok_def)
  then have "ledger_ok s L mis (poll_ready x)" by (intro ledger_ready [OF assms(1)]) (auto simp: before_done_def)
  then show ?thesis using True by (simp add: poll_next_def)
next
  case False
  then show ?thesis using assms(3)
    by (intro ledger_moved [OF assms(1)]) (auto simp: poll_next_def async_held_def async_delivered_def state_ptrs_def)
qed

text \<open>The references keep the state from being dropped twice.\<close>

lemma ledger_future_drop:
  assumes "ledger_ok s L mis x" "protocol_ok ops x" "ar_poll x = Poll_idle"
  shows "ledger_ok s L mis (future_drop api x)"
proof -
  let ?y = "x\<lparr>ar_poll := Poll_gone, ar_waiting := None\<rparr>"
  have y: "ledger_ok s L mis ?y" by (rule ledger_moved [OF assms(1)]) (simp_all add: async_held_def async_delivered_def)
  have refs: "ar_refs x = (if ar_cb x = Cb_finished then 1 else 2)" "\<not> ar_freed x"
    using assms(2,3) by (auto simp: protocol_ok_def refs_ok_def)
  show ?thesis
  proof (cases "ar_cb x = Cb_finished")
    case True
    then have "ledger_ok s L mis (release_ref api ?y)" using refs by (intro ledger_release [OF y]) simp_all
    then show ?thesis by (simp add: future_drop_def)
  next
    case False
    then have "future_drop api x = ?y\<lparr>ar_refs := 1\<rparr>" using refs by (simp add: future_drop_def release_ref_def)
    then show ?thesis using ledger_moved [OF y, of "?y\<lparr>ar_refs := 1\<rparr>"] by (simp add: async_held_def async_delivered_def)
  qed
qed

lemma ledger_session_drop:
  assumes "ledger_ok s L mis x" "ar_session x"
  shows "ledger_ok s L mis (owner_drops_session api s x)"
proof (cases "ar_early x \<or> ar_cb x = Cb_running")
  case True
  then show ?thesis using assms(1,2) by (cases "ar_cb x = Cb_running") (auto simp: ledger_ok_def owner_drops_session_def Let_def)
next
  case False
  let ?y = "owner_drops_session api s x"
  have parts: "async_held ?y @ async_delivered ?y = async_held x @ async_delivered x" by (simp add: owner_drops_session_def async_held_def async_delivered_def)
  have ok: "native_wf (ar_world x)" "misuse (ar_world x) = mis" "live (ar_world x) = L \<union> pointees (async_held x @ async_delivered x)"
    "L \<inter> pointees (async_held x @ async_delivered x) = {}" "apart (async_held x @ async_delivered x)"
    "pointees (as_inputs (ar_shared x)) \<subseteq> L \<union> pointees (map ov_value (as_owned (ar_shared x)))" "ns_handle s \<in> L"
    using assms False by (auto simp: ledger_ok_def Let_def)
  have live: "ns_handle s \<in> live (ar_world x)" using ok(3,7) by simp
  then have "live (ar_world ?y) = L - {ns_handle s} \<union> pointees (async_held x @ async_delivered x)"
    "misuse (ar_world ?y) = mis" "native_wf (ar_world ?y)"
    using ok(1-4,7) by (auto simp: owner_drops_session_def release_handle_def native_wf_def)
  then show ?thesis unfolding ledger_ok_def Let_def parts
    using ok False by (simp add: owner_drops_session_def)
qed

text \<open>An early drop cannot be undone, and before it nothing is misused.\<close>

lemma ledger_reached:
  assumes "async_reaches api ops s x y" "protocol_ok ops x" "wakes_registered ops" "ledger_ok s L mis x"
    and "null_on_error api" "no_values_on_error api" "values_in_array api"
  shows "ledger_ok s L mis y"
  using assms(1)
proof induction
  case here
  then show ?case by (rule assms(4))
next
  case (further y z)
  have p: "protocol_ok ops y" by (rule protocol_reached [OF further.hyps(1) assms(2,3)])
  from further.hyps(2) show ?case
  proof cases
    case callback
    then show ?thesis using ledger_callback [OF assms(5-7) further.IH p] by simp
  next
    case (begin_poll t)
    then show ?thesis using ledger_begin [OF further.IH p] by simp
  next
    case (go_on t)
    then show ?thesis using ledger_next [OF further.IH p] by simp
  next
    case drop_future
    then show ?thesis using ledger_future_drop [OF further.IH p] by simp
  next
    case drop_session
    then show ?thesis using ledger_session_drop [OF further.IH] by simp
  qed
qed

lemma owned_constant:
  "async_reaches api ops s x y \<Longrightarrow> as_owned (ar_shared y) = as_owned (ar_shared x) \<and> as_inputs (ar_shared y) = as_inputs (ar_shared x)"
proof (induction rule: async_reaches.induct)
  case (further y z)
  from further.hyps(2) show ?case
    by cases (use further.IH in \<open>auto simp: step_defs split: callback_pc.splits poll_pc.splits prod.splits sum.splits option.splits\<close>)
qed simp

lemma outcome_handed_out:
  assumes "protocol_ok ops x" "\<not> before_done (ar_cb x)"
  obtains r where "ar_outcome x = Some r" "ar_got (poll_begin t x) = ar_got x @ [if ar_got x = [] then r else consumed]"
proof -
  have flag: "as_done (ar_shared x)" using assms by (simp add: protocol_ok_def flag_ok_def)
  obtain r where r: "ar_outcome x = Some r" "(as_result (ar_shared x) = Some r \<and> ar_got x = [])
         \<or> (as_result (ar_shared x) = None \<and> (\<exists>n. ar_got x = r # replicate n consumed))"
    using assms by (cases "ar_cb x") (auto simp: protocol_ok_def result_ok_def before_done_def)
  have "ar_got (poll_begin t x) = ar_got x @ [if ar_got x = [] then r else consumed]"
    using r(2) flag by (auto simp: poll_begin_def Let_def poll_ready_def take_result_def consumed_def)
  with r(1) show ?thesis by (rule that)
qed

text \<open>What the callback has left to do.\<close>

fun steps_left :: "callback_pc \<Rightarrow> nat" where
  "steps_left Cb_running = 5" | "steps_left (Cb_collected r) = 4" | "steps_left Cb_stored = 3"
| "steps_left Cb_done = 2" | "steps_left Cb_woken = 1" | "steps_left Cb_finished = 0"

lemma callback_progress: "ar_cb x \<noteq> Cb_finished \<Longrightarrow> steps_left (ar_cb (callback_step api ops s x)) < steps_left (ar_cb x)"
  by (cases "ar_cb x") (auto simp: callback_step_def release_ref_def split: prod.splits sum.splits)

lemma callback_finishes: "\<exists>y. async_reaches api ops s x y \<and> ar_cb y = Cb_finished \<and> ar_poll y = ar_poll x"
proof (induction "steps_left (ar_cb x)" arbitrary: x rule: less_induct)
  case less
  show ?case
  proof (cases "ar_cb x = Cb_finished")
    case True
    then show ?thesis using async_reaches.here by blast
  next
    case False
    let ?z = "callback_step api ops s x"
    obtain y where y: "async_reaches api ops s ?z y" "ar_cb y = Cb_finished" "ar_poll y = ar_poll ?z"
      using less [OF callback_progress [OF False]] by blast
    have one: "async_reaches api ops s x ?z" by (rule async_reaches.further [OF async_reaches.here async_step.callback [OF False]])
    from y(1) have "async_reaches api ops s x y"
      by induction (auto intro: one async_reaches.further)
    moreover have "ar_poll ?z = ar_poll x" by (auto simp: callback_step_def release_ref_def split: callback_pc.splits prod.splits sum.splits)
    ultimately show ?thesis using y(2,3) by auto
  qed
qed

subsection \<open>Theorems\<close>

text \<open>
  C6. The future never loses its wakeup and gives its result once: in every interleaving a task whose poll was pending has been
  woken when the callback is past its wake; a poll after the flag is set is ready, the first with exactly what the
  callback collected and the later ones with the error that it was consumed, and none before is; and the callback can
  always run to its end.
\<close>

theorem async_wakeup_and_result:
  assumes "wakes_registered ops" "async_reaches api ops s (async_start w (async_state_new ops inputs n owned)) x"
  shows "(ar_waiting x = Some t \<and> ar_cb x \<in> {Cb_woken, Cb_finished} \<longrightarrow> t \<in> ar_woken x)
    \<and> (if before_done (ar_cb x) then ar_got x = [] \<and> (ar_poll x = Poll_idle \<longrightarrow> ar_poll (poll_begin t x) = Poll_loaded t)
       else \<exists>r k. ar_outcome x = Some r \<and> (ar_got x = [] \<or> ar_got x = r # replicate k consumed)
         \<and> ar_got (poll_begin t x) = ar_got x @ [if ar_got x = [] then r else consumed])
    \<and> (\<exists>y. async_reaches api ops s x y \<and> ar_cb y = Cb_finished \<and> ar_poll y = ar_poll x)"
proof -
  have p: "protocol_ok ops x"
    by (rule protocol_reached [OF assms(2) protocol_start assms(1)]) (simp_all add: async_state_new_def)
  have "t \<in> ar_woken x" if "ar_waiting x = Some t" "ar_cb x \<in> {Cb_woken, Cb_finished}"
    using p that by (auto simp: protocol_ok_def wake_ok_def before_done_def)
  moreover have "ar_got x = [] \<and> (ar_poll x = Poll_idle \<longrightarrow> ar_poll (poll_begin t x) = Poll_loaded t)" if "before_done (ar_cb x)"
    using p that by (auto simp: protocol_ok_def flag_ok_def result_ok_def before_done_def poll_begin_def Let_def split: callback_pc.splits)
  moreover have "\<exists>r k. ar_outcome x = Some r \<and> (ar_got x = [] \<or> ar_got x = r # replicate k consumed)
         \<and> ar_got (poll_begin t x) = ar_got x @ [if ar_got x = [] then r else consumed]" if cb: "\<not> before_done (ar_cb x)"
  proof -
    obtain r where r: "ar_outcome x = Some r" "ar_got (poll_begin t x) = ar_got x @ [if ar_got x = [] then r else consumed]"
      by (rule outcome_handed_out [OF p cb])
    moreover have "ar_got x = [] \<or> (\<exists>k. ar_got x = r # replicate k consumed)"
      using p cb r(1) by (cases "ar_cb x") (auto simp: protocol_ok_def result_ok_def before_done_def)
    ultimately show ?thesis by blast
  qed
  ultimately show ?thesis using callback_finishes [of api ops s x] by (cases "before_done (ar_cb x)") auto
qed

text \<open>
  C7. An asynchronous run with owned inputs is memory safe unless its session is dropped first: a refused start releases
  the inputs; from an accepted one on, in every interleaving, no handle is misused, the inputs stay live until both
  the callback and the future have let go of the shared state, which is then freed once, and what is live at that time
  is what was live before without the inputs, with the values that the polls handed out.
\<close>

theorem async_runs_balanced:
  assumes "null_on_error api" "no_values_on_error api" "values_in_array api" "wakes_registered ops" "native_wf w"
    and "{ns_handle s, mr_opts (ns_run_opts s)} \<subseteq> live w - value_handles xs" "value_handles xs \<subseteq> live w" "apart (map ov_value xs)"
  shows "(\<forall>e v. run_async_owned_inputs api ops s xs w = (Inl e, v) \<longrightarrow> misuse v = misuse w \<and> live v = live w - value_handles xs)
    \<and> (\<forall>a v x. run_async_owned_inputs api ops s xs w = (Inr a, v) \<longrightarrow> async_reaches api ops s (async_start v a) x \<longrightarrow>
        (ar_freed x \<longleftrightarrow> ar_cb x = Cb_finished \<and> ar_poll x = Poll_gone)
        \<and> (\<not> ar_early x \<longrightarrow> misuse (ar_world x) = misuse w \<and> (\<not> ar_freed x \<longrightarrow> value_handles xs \<subseteq> live (ar_world x))
            \<and> (ar_freed x \<longrightarrow> live (ar_world x) = (live w - value_handles xs - (if ar_session x then {} else {ns_handle s})) \<union> pointees (async_delivered x))))"
proof -
  let ?a = "async_state_new ops (map ov_value xs) (output_count s) xs"
  let ?start = "and_then (check_input_count s (length (map ov_value xs))) (\<lambda>_. status api ''run_async'' (run_args s (mr_opts (ns_run_opts s)) (map ov_value xs)))"
  have ptrs: "state_ptrs ?a = map ov_value xs" by (simp add: state_ptrs_def async_state_new_def)
  have own: "value_handles xs = pointees (map ov_value xs)" by (simp add: value_handles_def)
  have disjoint: "{ns_handle s, mr_opts (ns_run_opts s)} \<inter> value_handles xs = {}" using assms(6) by auto
  have start: "accounts ({ns_handle s, mr_opts (ns_run_opts s)} \<union> value_handles xs) {} ?start (\<lambda>_. {})"
    by (rule owns_seq [OF owns_checks(1) owns_status]) (simp add: run_args_handles own)
  have run: "run_async_owned_inputs api ops s xs = match_result ?start (\<lambda>e. and_then (drop_async_state api ?a) (\<lambda>_. raise e)) (\<lambda>_. give ?a)"
    by (simp add: run_async_owned_inputs_def run_async_owned_def Let_def)
  have dropped: "accounts {ns_handle s, mr_opts (ns_run_opts s)} (value_handles xs) (and_then (drop_async_state api ?a) (\<lambda>_. raise e)) G" for e and G :: "'b async_state \<Rightarrow> handle set"
    using owns_release_all_then [of "map ov_value xs" "{}" _ "raise e" G api, OF assms(8) _ owns_raise]
    by (simp add: drop_async_state_eq ptrs own)
  have acc: "accounts {ns_handle s, mr_opts (ns_run_opts s)} (value_handles xs) (run_async_owned_inputs api ops s xs) (\<lambda>_. value_handles xs)"
    unfolding run by (rule owns_match_keep [OF start]) (auto intro: owns_keep dropped)
  have alive: "{ns_handle s, mr_opts (ns_run_opts s)} \<subseteq> live w" using assms(6) by auto
  note D = ownsD [OF acc assms(5) alive assms(7) disjoint]
  show ?thesis
  proof (intro conjI allI impI)
    fix e v
    assume "run_async_owned_inputs api ops s xs w = (Inl e, v)"
    from D [OF this] show "misuse v = misuse w" "live v = live w - value_handles xs" by simp_all
  next
    fix a v x
    assume ok: "run_async_owned_inputs api ops s xs w = (Inr a, v)" and reached: "async_reaches api ops s (async_start v a) x"
    have a: "a = ?a" using ok by (auto simp: run match_result_def and_then_def raise_def give_def split: prod.splits sum.splits)
    have v: "native_wf v" "misuse v = misuse w" "live v = live w" using D [OF ok] assms(7) by auto
    have p0: "protocol_ok ops (async_start v a)" by (rule protocol_start) (simp_all add: a async_state_new_def)
    have L0: "ledger_ok s (live w - value_handles xs) (misuse w) (async_start v a)"
    proof -
      have st: "async_held (async_start v a) = map ov_value xs" "async_delivered (async_start v a) = []"
        by (simp_all add: async_held_def async_delivered_def async_start_def a ptrs)
      have fields: "as_inputs ?a = map ov_value xs" "as_owned ?a = xs" by (simp_all add: async_state_new_def)
      show ?thesis unfolding ledger_ok_def Let_def st
        using assms(6-8) v by (auto simp: async_start_def a fields own)
    qed
    note p = protocol_reached [OF reached p0 assms(4)]
    show "ar_freed x \<longleftrightarrow> ar_cb x = Cb_finished \<and> ar_poll x = Poll_gone" using p by (auto simp: protocol_ok_def refs_ok_def)
    note led = ledger_reached [OF reached p0 assms(4) L0 assms(1-3)]
    have kept: "as_owned (ar_shared x) = xs" using owned_constant [OF reached] by (simp add: async_start_def a async_state_new_def)
    assume early: "\<not> ar_early x"
    then have ok: "misuse (ar_world x) = misuse w" "live (ar_world x) = (if ar_session x then live w - value_handles xs
        else live w - value_handles xs - {ns_handle s}) \<union> pointees (async_held x @ async_delivered x)"
      using led by (simp_all add: ledger_ok_def Let_def)
    show "misuse (ar_world x) = misuse w" by (rule ok(1))
    show "value_handles xs \<subseteq> live (ar_world x)" if "\<not> ar_freed x"
      using that unfolding ok(2) own by (auto simp: async_held_def state_ptrs_def kept)
    show "live (ar_world x) = (live w - value_handles xs - (if ar_session x then {} else {ns_handle s})) \<union> pointees (async_delivered x)" if "ar_freed x"
    proof -
      have "async_held x = []" using that p by (cases "ar_cb x") (auto simp: async_held_def protocol_ok_def refs_ok_def)
      then show ?thesis unfolding ok(2) by simp
    qed
  qed
qed

subsection \<open>The session is not kept\<close>

text \<open>A misuse once noted stays noted.\<close>

definition misuse_kept :: "'n native_world \<Rightarrow> 'n native_world \<Rightarrow> bool" where
  "misuse_kept w v \<longleftrightarrow> set (misuse w) \<subseteq> set (misuse v)"

interpretation misuse_kept: transitive_effect misuse_kept
  by unfold_locales (auto simp: misuse_kept_def)

lemma misuse_kept_calls:
  "effects misuse_kept (status api f as)" "effects misuse_kept (query_int api f as)" "effects misuse_kept (query_ints api f as n)"
  "effects misuse_kept (create_ptr api k f as)" "effects misuse_kept (drop_handle api h)"
  by (auto simp: effects_def misuse_kept_def status_def query_int_def query_ints_def create_ptr_def drop_handle_def release_handle_def
      note_call_def Let_def split: prod.split)

lemma misuse_kept_scopes: "effects misuse_kept m \<Longrightarrow> effects misuse_kept (then_release api h m)"
  "effects misuse_kept m \<Longrightarrow> effects misuse_kept (or_release_some api p m)"
proof -
  have rel: "misuse_kept w (release_handle api h w)" for h and w :: "'a native_world"
    by (auto simp: misuse_kept_def release_handle_def)
  show "effects misuse_kept m \<Longrightarrow> effects misuse_kept (then_release api h m)" by (rule misuse_kept.then_release [OF _ rel])
  show "effects misuse_kept m \<Longrightarrow> effects misuse_kept (or_release_some api p m)"
    unfolding or_release_some_def by (cases p) (auto intro: misuse_kept.or_release [OF _ rel])
qed

lemma misuse_kept_match:
  "effects misuse_kept m \<Longrightarrow> (\<And>e. effects misuse_kept (f e)) \<Longrightarrow> (\<And>a. effects misuse_kept (g a)) \<Longrightarrow> effects misuse_kept (match_result m f g)"
  unfolding effects_def match_result_def by (auto split: prod.splits sum.splits) (metis misuse_kept.trans snd_conv)+

lemma misuse_kept_release_all: "effects misuse_kept (release_all api ps)" "effects misuse_kept (drop_values api xs)"
  unfolding drop_values_def release_all_def by (intro misuse_kept.each misuse_kept.if_some misuse_kept_calls)+

lemma misuse_kept_introspect: "effects misuse_kept (from_introspect api p)"
  unfolding from_introspect_def introspect_def tensor_type_and_shape_def create_handle_def tsi_element_type_def tsi_element_count_def
    tsi_dims_def tsi_rank_def lift_shape_def
  by (auto intro!: misuse_kept_scopes misuse_kept.and_then misuse_kept.pure misuse_kept_calls split: prod.split)

lemma misuse_kept_collect: "effects misuse_kept (collect_loop api xs ps)"
  by (induction ps arbitrary: xs)
    (auto intro!: misuse_kept_match misuse_kept_introspect misuse_kept.and_then misuse_kept.pure misuse_kept_release_all)

lemma callback_uses_session:
  assumes "ns_handle s \<notin> live w"
  shows "ns_handle s \<in> set (misuse (snd (callback_result api s a w)))"
proof -
  let ?raw = "raw_blocks api Value_handle ''run_async_callback'' (A_handle (ns_handle s) # map value_arg (as_inputs a)) (as_outputs a)"
  obtain q v where q: "?raw w = (q, v)" by fastforce
  then obtain c where "q = Inr c" by (auto simp: raw_blocks_def Let_def split: prod.splits)
  with q have raw: "?raw w = (Inr c, v)" by simp
  have "ns_handle s \<in> set (misuse v)" using raw assms by (auto simp: raw_blocks_def Let_def note_call_def split: prod.splits)
  moreover have "effects misuse_kept (collect_outcome api c)"
    unfolding collect_outcome_def collect_from_raw_def
    by (auto intro!: misuse_kept_match misuse_kept_collect misuse_kept.pure split: prod.split option.split)
  ultimately show ?thesis using raw by (auto simp: callback_result_def and_then_def effects_def misuse_kept_def)
qed

lemma started:
  assumes "run_async_owned_inputs api ops s xs w = (Inr a, v)"
  shows "a = async_state_new ops (map ov_value xs) (output_count s) xs" "live v = live w"
  using assms
  by (auto simp: run_async_owned_inputs_def run_async_owned_def Let_def match_result_def and_then_def check_input_count_def
      raise_def give_def status_def split: prod.splits sum.splits if_splits)

text \<open>
  C40. The shared state of an asynchronous run keeps its inputs but not its session: after every accepted start with
  owned inputs the future can be dropped and then the session, while the engine still runs. The inputs are
  still live then, the session is not, and the next step of the engine, which runs the session and calls
  back, uses the released handle.
\<close>

theorem session_lost_during_run:
  assumes "run_async_owned_inputs api ops s xs w = (Inr a, v)" "ns_handle s \<in> live w"
    and "value_handles xs \<subseteq> live w" "ns_handle s \<notin> value_handles xs"
  shows "\<exists>x. async_reaches api ops s (async_start v a) x
     \<and> ar_cb x = Cb_running \<and> \<not> ar_freed x \<and> as_owned (ar_shared x) = xs \<and> value_handles xs \<subseteq> live (ar_world x)
     \<and> ns_handle s \<notin> live (ar_world x)
     \<and> async_step api ops s x (callback_step api ops s x) \<and> ns_handle s \<in> set (misuse (ar_world (callback_step api ops s x)))"
proof -
  let ?x0 = "async_start v a"
  let ?x1 = "future_drop api ?x0"
  let ?x2 = "owner_drops_session api s ?x1"
  have x1: "ar_poll ?x1 = Poll_gone" "ar_cb ?x1 = Cb_running" "ar_session ?x1" "ar_world ?x1 = v" "\<not> ar_freed ?x1" "ar_shared ?x1 = a"
    by (simp_all add: future_drop_def release_ref_def async_start_def)
  have "async_step api ops s ?x0 ?x1" by (rule async_step.drop_future) (simp add: async_start_def)
  moreover have "async_step api ops s ?x1 ?x2" by (rule async_step.drop_session) (simp_all add: x1)
  ultimately have reached: "async_reaches api ops s ?x0 ?x2" by (blast intro: async_reaches.intros)
  have world: "live (ar_world ?x2) = live w - {ns_handle s}"
    using started(2) [OF assms(1)] assms(2) by (simp add: owner_drops_session_def x1 release_handle_def)
  have x2: "ar_cb ?x2 = Cb_running" "\<not> ar_freed ?x2" "as_owned (ar_shared ?x2) = xs"
    using x1 started(1) [OF assms(1)] by (simp_all add: owner_drops_session_def async_state_new_def)
  have "ns_handle s \<in> set (misuse (snd (callback_result api s (ar_shared ?x2) (ar_world ?x2))))"
    by (rule callback_uses_session) (simp add: world)
  moreover have "ar_world (callback_step api ops s ?x2) = snd (callback_result api s (ar_shared ?x2) (ar_world ?x2))"
    using x2(1) by (auto simp: callback_step_def split: prod.split sum.split)
  moreover have "async_step api ops s ?x2 (callback_step api ops s ?x2)" by (rule async_step.callback) (simp add: x2)
  ultimately show ?thesis using reached world x2 assms(3,4) by (intro exI [of _ ?x2]) auto
qed

subsection \<open>Instances\<close>

text \<open>A waker that keeps the task registered last.\<close>

definition last_waker :: "nat option waker_ops" where
  "last_waker = \<lparr>wk_new = None, wk_register = (\<lambda>t _. Some t), wk_wake = (\<lambda>w. (w, None))\<rparr>"

lemma last_waker_wakes: "wakes_registered last_waker"
  by (simp add: wakes_registered_def last_waker_def)

definition input_value :: owned_value where
  "input_value = \<lparr>ov_value = Some (Value_handle, 1), ov_onnx_type = 1, ov_elem_type = 1, ov_count = 6\<rparr>"

text \<open>The task polls twice: its first poll races with the callback, which sets the flag after the task registered.\<close>

lemma async_wakeup_and_result_witness:
  "\<exists>x. async_reaches run_api last_waker demo_session
         (async_start run_world (async_state_new last_waker [Some (Value_handle, 1)] 1 [])) x
     \<and> ar_waiting x = Some 7 \<and> ar_cb x = Cb_finished \<and> 7 \<in> ar_woken x"
proof -
  let ?x0 = "async_start run_world (async_state_new last_waker [Some (Value_handle, 1)] 1 [])"
  let ?step = "async_step run_api last_waker demo_session"
  let ?x1 = "poll_begin 7 ?x0"
  let ?x2 = "poll_next last_waker ?x1"
  let ?x3 = "poll_next last_waker ?x2"
  have pcs: "ar_poll ?x0 = Poll_idle" "ar_poll ?x1 = Poll_loaded 7" "ar_poll ?x2 = Poll_registered 7" "ar_waiting ?x3 = Some 7" "ar_poll ?x3 = Poll_idle"
    by (simp_all add: poll_begin_def poll_next_def async_start_def async_state_new_def)
  have "?step ?x0 ?x1" by (rule async_step.begin_poll [OF pcs(1)])
  moreover have "?step ?x1 ?x2" by (rule async_step.go_on [where t = 7]) (use pcs(2) in blast)
  moreover have "?step ?x2 ?x3" by (rule async_step.go_on [where t = 7]) (use pcs(3) in blast)
  ultimately have x3: "async_reaches run_api last_waker demo_session ?x0 ?x3" by (blast intro: async_reaches.intros)
  let ?cb = "callback_step run_api last_waker demo_session"
  have waiting: "ar_waiting (?cb y) = ar_waiting y" for y
    by (auto simp: callback_step_def release_ref_def split: callback_pc.splits prod.splits sum.splits)
  have "\<exists>y. async_reaches run_api last_waker demo_session ?x0 y \<and> ar_waiting y = Some 7 \<and> steps_left (ar_cb y) \<le> 5 - k" if "k \<le> 5" for k
    using that
  proof (induction k)
    case 0
    have "steps_left (ar_cb ?x3) \<le> 5" by (cases "ar_cb ?x3") simp_all
    then show ?case using x3 pcs(4) by auto
  next
    case (Suc k)
    then obtain y where y: "async_reaches run_api last_waker demo_session ?x0 y" "ar_waiting y = Some 7" "steps_left (ar_cb y) \<le> 5 - k" by auto
    show ?case
    proof (cases "ar_cb y = Cb_finished")
      case True
      then show ?thesis using y by auto
    next
      case False
      then have "async_reaches run_api last_waker demo_session ?x0 (?cb y)" by (rule async_reaches.further [OF y(1) async_step.callback])
      then show ?thesis using y(2,3) waiting callback_progress [OF False, of run_api last_waker demo_session] by fastforce
    qed
  qed
  from this [of 5] obtain y where y: "async_reaches run_api last_waker demo_session ?x0 y" "ar_waiting y = Some 7" "steps_left (ar_cb y) = 0" by auto
  then have "ar_cb y = Cb_finished" by (cases "ar_cb y") simp_all
  then show ?thesis using async_wakeup_and_result [OF last_waker_wakes y(1), of 7] y by auto
qed

lemma async_runs_balanced_witness:
  "\<exists>a v. run_async_owned_inputs run_api last_waker demo_session [input_value] run_world = (Inr a, v)
     \<and> misuse (ar_world (async_start v a)) = misuse run_world \<and> (Value_handle, 1) \<in> live (ar_world (async_start v a))"
proof -
  have laws: "values_in_array run_api" by (simp add: values_in_array_def run_api_def demo_api_def)
  have wf: "native_wf run_world" by (auto simp: native_wf_def run_world_def demo_world_def)
  have own: "value_handles [input_value] = {(Value_handle, 1)}" "apart (map ov_value [input_value])" by (simp_all add: input_value_def)
  have used: "{ns_handle demo_session, mr_opts (ns_run_opts demo_session)} \<subseteq> live run_world - value_handles [input_value]"
    "value_handles [input_value] \<subseteq> live run_world"
    unfolding own by (simp_all add: demo_session_def run_world_def)
  obtain a v where ok: "run_async_owned_inputs run_api last_waker demo_session [input_value] run_world = (Inr a, v)"
    by (simp add: run_async_owned_inputs_def run_async_owned_def Let_def match_result_def and_then_def check_input_count_def input_count_def
        demo_session_def give_def status_def check_def run_api_def demo_api_def demo_status_def)
  have "\<not> ar_early (async_start v a)" "\<not> ar_freed (async_start v a)" by (simp_all add: async_start_def)
  then have "misuse (ar_world (async_start v a)) = misuse run_world \<and> value_handles [input_value] \<subseteq> live (ar_world (async_start v a))"
    using async_runs_balanced [OF run_api_laws(1,2) laws last_waker_wakes wf used own(2)] ok async_reaches.here by blast
  then show ?thesis using ok own(1) by auto
qed

lemma session_lost_during_run_witness:
  "\<exists>a v x. run_async_owned_inputs run_api last_waker demo_session [input_value] run_world = (Inr a, v)
     \<and> async_reaches run_api last_waker demo_session (async_start v a) x \<and> ar_cb x = Cb_running
     \<and> (Value_handle, 1) \<in> live (ar_world x) \<and> (Session_handle, 2) \<notin> live (ar_world x)
     \<and> (Session_handle, 2) \<in> set (misuse (ar_world (callback_step run_api last_waker demo_session x)))"
proof -
  have s: "ns_handle demo_session = (Session_handle, 2)" by (simp add: demo_session_def)
  have own: "value_handles [input_value] = {(Value_handle, 1)}" by (simp add: input_value_def)
  obtain a v where ok: "run_async_owned_inputs run_api last_waker demo_session [input_value] run_world = (Inr a, v)"
    by (simp add: run_async_owned_inputs_def run_async_owned_def Let_def match_result_def and_then_def check_input_count_def input_count_def
        demo_session_def give_def status_def check_def run_api_def demo_api_def demo_status_def)
  have "ns_handle demo_session \<in> live run_world" "value_handles [input_value] \<subseteq> live run_world" "ns_handle demo_session \<notin> value_handles [input_value]"
    unfolding own by (simp_all add: s run_world_def)
  from session_lost_during_run [OF ok this] show ?thesis using ok unfolding s own by auto
qed

end
