(* ===== verification/Spec2Isabelle.thy ===== *)
theory Spec2Isabelle
  imports Shape_Plan Spsc_Conc Graph_Lease Recovery Lane_Pool Static_Runtime Dynamic_Claims Owned_Runs Async_Run Session_Queries
begin

text \<open>
  Verification of st-zrt, a serving runtime over the C interface of ONNX Runtime.

  \<^bold>\<open>The program.\<close> A model is loaded into a session (st-zrt/src/session.rs). A \<open>ServingLane\<close>
  (st-zrt/src/runtime.rs) binds fixed input and output tensors of one shape to a session and runs
  it again and again without allocating. Several lanes of one shape form a \<open>StaticIoRuntime\<close>, or a
  \<open>ServingLanePool\<close> from which threads check lanes out. A \<open>DynamicIoRuntime\<close> keeps a bounded cache
  of buckets, one lane set per shape; it names buckets by handles that die with the bucket, hands
  lanes out for owned runs, and gets the lane of a dropped run back through recovery slots. What
  shapes are admitted is decided by a sealed plan (st-zrt/src/shape_plan.rs). Requests travel
  between threads in a bounded queue (st-zrt/src/spsc.rs). Captured CUDA graphs of a session are
  protected by leases (st-zrt/src/session.rs): a graph is not released while a run uses it.

  \<^bold>\<open>The theories.\<close>

  \<^item> Prelude: panicking results (\<open>'a run\<close>), checked and wrapping arithmetic on \<open>usize\<close>, the
    arithmetic of atomics, and the locale \<open>invariant_system\<close> of a transition system with an
    inductive invariant, which the concurrent theories interpret.
  \<^item> Floats: \<open>f32\<close> and \<open>f64\<close> values as the plan uses them, the rounding of the hardware as an
    argument.
  \<^item> Shape_Plan (shape_plan.rs): ids, hashing, the builder and \<open>build\<close>, exact and padded
    \<open>classify\<close>. Shown: \<open>build\<close> succeeds exactly on valid plans; a built plan finds every one of its
    buckets again; padded classification returns the fitting bucket of least cost within the ratio
    and refuses exactly when there is none; the element counts are the products of the shapes.
  \<^item> Spsc, Spsc_Conc (spsc.rs): the ring with wrapping 64-bit counters, one call at a time and
    with both halves interleaved at single memory accesses. Shown: the queue refines a bounded
    FIFO, also concurrently; no slot is read and written at once; the blocking loops return; the
    destructor drops what is queued, once; and one interleaving in which a closed queue still
    holds a value.
  \<^item> Graph_Lease (session.rs, \<open>CapturedGraphLease\<close> and its table, the id allocator): shown: runs
    and a release exclude each other; no waiter sleeps through the event it waits for; ids are
    never issued twice and never wrap.
  \<^item> Tensors (tensor.rs, element.rs, memory.rs): checked shape arithmetic, buffer policies and
    their storage, prefaulting, mapped files, views.
  \<^item> Serving_Lane (runtime.rs, \<open>ServingLane\<close>): every run path, fences, the token of an enqueued
    run, \<open>Drop\<close>. The provider's calls are logged by a watcher, over which the theorems say that
    outputs are read only after a fence, that inputs are copied before the run, and that no lane
    with outstanding work is freed.
  \<^item> Lane_Pool (runtime.rs, \<open>ServingLanePool\<close>): any number of threads; a lane is in one place at a
    time and a waiter is not forgotten.
  \<^item> Recovery (runtime.rs, \<open>RecoveryCell\<close>, \<open>RecoverySlots\<close>): the cells and the lock-free stack of
    their numbers; every value handed in comes out once.
  \<^item> Dynamic_Options, Static_Runtime (runtime.rs): option validation, lane construction, the
    constructors of fixed lane sets and \<open>build_lane_set\<close>.
  \<^item> Bucket_Table, Dynamic_Runtime, Dynamic_Safety, Dynamic_Claims (runtime.rs,
    \<open>DynamicIoRuntime\<close>): the handle table behind the locale \<open>handle_table\<close>, the operations, the
    invariants and what they give over every sequence of calls: the cache stays within its bound
    with distinct shapes, a handle never names a bucket it was not issued for, a completed run
    gives its lane back to its bucket, eviction takes the least recently used idle bucket, and
    reclaiming ends.
  \<^item> Owned_Runs (runtime.rs, \<open>GpuChainedDynamicIoRun\<close>, \<open>poll_owned_runs\<close>): work chained behind a
    run on another stream is fenced before the lane is used again; batch polling reports each run
    once and changes nothing if a token is refused up front.

  \<^item> Native_Handles (lib.rs, error.rs, the text queries of allocator.rs): the calls into the engine. The
    engine is a record of functions \<open>c_api\<close> over its own state, one field per shape of call, and \<open>native_world\<close>
    carries that state with a ledger: the handles that are live, the calls made, and the handles that
    were used or released when they were not live. Handles are numbered as they are made, so none is
    issued twice. \<open>accounts B C m G\<close> says that \<open>m\<close> uses only handles of \<open>B\<close>, consumes \<open>C\<close> and leaves
    \<open>G\<close> of its result in addition, on success and on error; the rules for it, one per combinator, carry
    the proofs of all native theories.
  \<^item> Decimal, Provider_Config, Session_Options, Run_Options (ep.rs, session_options.rs, run_options.rs):
    decimal texts; the options of the execution providers with the exact key/value lists they pass; the
    session options, their setters, their materialization as native handles and their queries; the run options
    and the frozen handle. Shown: materializing leaks nothing and uses no released handle whatever the engine answers; a provider
    configuration made by the setters passes each option once; freezing hands every setting over
    in order; entries and graph annotations are read back.
  \<^item> Native_Session (session.rs, model_spool.rs): the eleven ways to open a session, the spooled file of models
    given as bytes (an entry of the same ledger), the cached names and types, edited models, and \<open>Drop\<close>.
    Shown: opening leaks nothing wherever the engine fails, and dropping releases everything.
  \<^item> Native_Values (tensor.rs, type_info.rs): values that the engine hands out, composites, string tensors and type
    information. Shown: every value is owned exactly once; strings read back exactly; and the tensor
    that is leaked when a string has a NUL.
  \<^item> Native_Memory (memory.rs, allocator.rs, arena.rs, metadata.rs, lora.rs, prepacked.rs, initializer.rs): memory
    descriptors, allocators and their statistics, metadata and the small owned objects. Shown: texts of the
    engine are freed on every path; the difference of two snapshots is exact; and the container that is
    leaked when a statistic is malformed.
  \<^item> Session_Queries, Session_Run (session.rs): the queries for inputs, outputs and placement; regular,
    array and prepared runs; tensor copies. Shown: the placement lists every input and output once; a run
    changes the ledger only in its output slots, also when it fails half way; a prepared run can be
    repeated for ever.
  \<^item> Io_Binding (io_binding.rs, session.rs): bindings, bound outputs, synchronized runs, prepared bindings and
    the lane with outputs on a device. Shown: bound outputs are owned exactly; the three calls of a run are made
    in order; names are cut out of the engine's buffer exactly.
  \<^item> Async_Run (session.rs, \<open>run_async\<close> and \<open>RunFuture\<close>): the callback of the engine, the polls and the drop of
    the future, interleaved at single accesses. Shown: no wakeup is lost and the result is delivered once; the
    inputs live until both parties are done; and the session that can be lost during a run.

  \<^bold>\<open>How the code is represented.\<close> Structures are records, enumerations datatypes, \<open>Result\<close> is a sum
  with the error on the left, \<open>&mut self\<close> is the state passed in and returned. \<open>usize\<close> is a
  natural number with the checks and wraps of the code written out, counters that wrap are words.
  ONNX Runtime and the CUDA library are not part of the source: they are a record of functions
  over their own state, an argument of every operation that calls them, and the theorems hold for
  every such provider unless a hypothesis says otherwise. A closure of the caller is represented
  by its outcome; closures that panic are not. When a background thread reports a released graph
  is an argument.

  \<^bold>\<open>What is assumed of the engine.\<close> The native theories hold for every engine; where one needs more, its
  theorem names it: \<open>null_on_error\<close> (a call that reports an error sets no pointer), \<open>no_values_on_error\<close> (nor
  a pointer in an array), \<open>no_empty_arrays\<close> (no array is allocated for no entries), \<open>values_in_array\<close> (there are no values
  without an array), \<open>stores_config\<close> (a config entry that was added is found), and of the atomic waker
  \<open>wakes_registered\<close> (waking takes the task registered last). Each has an instance on which the
  witnesses evaluate the model.

  \<^bold>\<open>Concurrency.\<close> Spsc_Conc, Graph_Lease, Lane_Pool, Recovery and Async_Run interleave threads at single
  accesses to shared memory, in one total order of all accesses. The weaker orderings that the
  hardware may show under acquire and release are outside the model.

  \<^bold>\<open>Fuel and bounds.\<close> \<open>reclaim_dropped_runs\<close> gets one more step than there are recovery cells, which
  is shown to be enough. The blocking \<open>send\<close> and \<open>recv\<close> take fuel and a schedule of the peer, and
  return once the peer made room or a value available. A dynamic runtime starts with fewer than
  \<open>2 ^ 32\<close> lanes and with a number of recovery cells that a \<open>usize\<close> holds.

  \<^bold>\<open>Not modelled.\<close> The process-wide environment and the thread pools, custom operators and provider authoring
  (tables of C callbacks), the builders of the model editor, the calls of the CUDA runtime, the generated bindings and their
  generator, and serialization of options: they only forward to the C interface or are not code of
  this repository. Of the modelled files: setters that only store a field, accessors that return one, Debug texts, and
  the allocation audit.
\<close>

end
